(* ===== verification/Kernel_Prelude.thy ===== *)
theory Kernel_Prelude
  imports Main "HOL-Library.Word" "HOL-Library.Multiset"
begin

text \<open>
  Shared vocabulary of the development: the ways in which a piece of kernel code can stop
  short of returning a value, the sequencing combinators of that result type, the machine
  types of the IA-32 target (\<open>size_t\<close>, \<open>unsigned\<close> and pointers are 32 bits wide), C's
  truncating division, and the generic list and word lemmas that the component theories
  rely on.
\<close>

section \<open>Results of kernel code\<close>

text \<open>
  \<open>Panic\<close> is a failed \<open>ASSERT\<close> or an explicit \<open>PANIC\<close> (\<open>lib/debug.h\<close>), \<open>Fault\<close> an access
  through a null or dangling pointer or past the end of an array (undefined behaviour in
  C), \<open>Trap\<close> a processor exception such as the divide error, \<open>Blocked\<close> that the running
  thread would be put to sleep, and \<open>OutOfFuel\<close> that a loop of the source was cut off by
  the bound of its model.
\<close>

datatype kerr = Panic string | Fault string | Trap string | Blocked string | OutOfFuel

type_synonym 'a res = "kerr + 'a"

definition bnd :: "'a res \<Rightarrow> ('a \<Rightarrow> 'b res) \<Rightarrow> 'b res" where
  "bnd m f = (case m of Inl e \<Rightarrow> Inl e | Inr a \<Rightarrow> f a)"

definition asrt :: "string \<Rightarrow> bool \<Rightarrow> 'a res \<Rightarrow> 'a res" where
  "asrt msg c k = (if c then k else Inl (Panic msg))"

definition is_ok :: "'a res \<Rightarrow> bool" where
  "is_ok m = (case m of Inl _ \<Rightarrow> False | Inr _ \<Rightarrow> True)"

lemma bnd_simps [simp]:
  "bnd (Inl e) f = Inl e"
  "bnd (Inr a) f = f a"
  by (simp_all add: bnd_def)

lemma asrt_simps [simp]:
  "c \<Longrightarrow> asrt msg c k = k"
  "\<not> c \<Longrightarrow> asrt msg c k = Inl (Panic msg)"
  by (simp_all add: asrt_def)

lemma is_ok_simps [simp]:
  "is_ok (Inl e) = False"
  "is_ok (Inr a) = True"
  by (simp_all add: is_ok_def)

lemma bnd_eq_Inr_iff: "bnd m f = Inr b \<longleftrightarrow> (\<exists>a. m = Inr a \<and> f a = Inr b)"
  by (cases m) auto

lemma bnd_eq_Inl_iff: "bnd m f = Inl e \<longleftrightarrow> m = Inl e \<or> (\<exists>a. m = Inr a \<and> f a = Inl e)"
  by (cases m) auto

lemma asrt_eq_Inr_iff: "asrt msg c k = Inr b \<longleftrightarrow> c \<and> k = Inr b"
  by (simp add: asrt_def)

lemma asrt_eq_Inl_iff:
  "asrt msg c k = Inl e \<longleftrightarrow> (\<not> c \<and> e = Panic msg) \<or> (c \<and> k = Inl e)"
  by (auto simp: asrt_def)

lemmas res_iffs = bnd_eq_Inr_iff asrt_eq_Inr_iff

lemma bnd_cong [fundef_cong]:
  assumes "m = m'" and "\<And>a. m' = Inr a \<Longrightarrow> f a = g a"
  shows "bnd m f = bnd m' g"
  using assms by (cases m') auto

lemma asrt_cong [fundef_cong]:
  assumes "msg = msg'" and "c = c'" and "c' \<Longrightarrow> k = k'"
  shows "asrt msg c k = asrt msg' c' k'"
  using assms by (simp add: asrt_def)

section \<open>Machine types\<close>

type_synonym u8 = "8 word"
type_synonym u32 = "32 word"
type_synonym u64 = "64 word"
type_synonym i32 = "32 word"
type_synonym size_t = "32 word"
type_synonym block_sector_t = "32 word"

lemma unat32_lt: "unat (x :: 32 word) < 4294967296"
proof -
  have "unat x < 2 ^ LENGTH(32)" by (rule unsigned_less)
  then show ?thesis by simp
qed

lemma unat_small: "n < 4294967296 \<Longrightarrow> unat (of_nat n :: 32 word) = n"
  by (simp add: unat_of_nat take_bit_nat_eq_self)

lemma unat_two_power: "k < 32 \<Longrightarrow> unat (2 ^ k :: 32 word) = 2 ^ k"
proof -
  assume "k < 32"
  then have "(2 :: nat) ^ k < 2 ^ 32" by (intro power_strict_increasing) auto
  then show ?thesis using unat_small[of "2 ^ k"] by simp
qed

text \<open>C's integer division truncates towards zero; HOL's \<open>div\<close> rounds down.\<close>

definition cdiv :: "int \<Rightarrow> int \<Rightarrow> int" where
  "cdiv a b = sgn a * sgn b * (\<bar>a\<bar> div \<bar>b\<bar>)"

definition cmod :: "int \<Rightarrow> int \<Rightarrow> int" where
  "cmod a b = a - b * cdiv a b"

lemma cdiv_pos_pos: "0 \<le> a \<Longrightarrow> 0 < b \<Longrightarrow> cdiv a b = a div b"
  by (cases "a = 0") (simp_all add: cdiv_def)

lemma cdiv_neg_pos: "a < 0 \<Longrightarrow> 0 < b \<Longrightarrow> cdiv a b = - ((- a) div b)"
  by (simp add: cdiv_def)

lemma cmod_pos_pos: "0 \<le> a \<Longrightarrow> 0 < b \<Longrightarrow> cmod a b = a mod b"
  by (simp add: cmod_def cdiv_pos_pos minus_mult_div_eq_mod)

text \<open>Conversion of a mathematical integer to a signed 32-bit \<open>int\<close> (two's complement).\<close>

definition wrap32 :: "int \<Rightarrow> int" where
  "wrap32 x = (x + 2 ^ 31) mod 2 ^ 32 - 2 ^ 31"

definition in_int32 :: "int \<Rightarrow> bool" where
  "in_int32 x \<longleftrightarrow> - (2 ^ 31) \<le> x \<and> x < 2 ^ 31"

lemma wrap32_id: "in_int32 x \<Longrightarrow> wrap32 x = x"
  by (simp add: wrap32_def in_int32_def)

lemma wrap32_in_range: "in_int32 (wrap32 x)"
  by (auto simp: wrap32_def in_int32_def)

lemma wrap32_cong: "wrap32 x mod 2 ^ 32 = x mod 2 ^ 32"
proof -
  have "((x + 2 ^ 31) mod 2 ^ 32 - 2 ^ 31) mod 2 ^ 32 = (x + 2 ^ 31 - 2 ^ 31) mod (2 ^ 32 :: int)"
    by (rule mod_diff_left_eq)
  then show ?thesis by (simp add: wrap32_def)
qed

section \<open>Lists\<close>

lemma distinct_append_Cons_notin:
  "distinct (xs @ a # ys) \<Longrightarrow> a \<notin> set xs \<and> a \<notin> set ys"
  by auto

lemma hd_append_last: "hd (ys @ [t]) = (if ys = [] then t else hd ys)"
  by (cases ys) auto

lemma last_Cons_append: "last (a # xs) = (if xs = [] then a else last xs)"
  by simp

lemma filter_update_length:
  "i < length xs \<Longrightarrow> length (filter P (xs[i := y])) + (if P (xs ! i) then 1 else 0)
    = length (filter P xs) + (if P y then 1 else 0)"
proof (induction xs arbitrary: i)
  case (Cons x xs)
  then show ?case by (cases i) auto
qed simp

section \<open>Words in memory\<close>

text \<open>The little-endian byte representation of 32-bit words, singly and in arrays.\<close>

definition le_bytes :: "32 word \<Rightarrow> u8 list" where
  "le_bytes w = [ucast w, ucast (drop_bit 8 w), ucast (drop_bit 16 w), ucast (drop_bit 24 w)]"

definition le_word :: "u8 \<Rightarrow> u8 \<Rightarrow> u8 \<Rightarrow> u8 \<Rightarrow> 32 word" where
  "le_word a b c d =
     or (ucast a) (or (push_bit 8 (ucast b)) (or (push_bit 16 (ucast c)) (push_bit 24 (ucast d))))"

fun bytes_words :: "u8 list \<Rightarrow> 32 word list" where
  "bytes_words (a # b # c # d # bs) = le_word a b c d # bytes_words bs"
| "bytes_words _ = []"

definition words_bytes :: "32 word list \<Rightarrow> u8 list" where
  "words_bytes ws = concat (map le_bytes ws)"

lemma le_word_le_bytes:
  "le_word (ucast w) (ucast (drop_bit 8 w)) (ucast (drop_bit 16 w)) (ucast (drop_bit 24 w)) = w"
proof (rule bit_word_eqI)
  fix n assume "n < LENGTH(32)"
  then show "bit (le_word (ucast w) (ucast (drop_bit 8 w)) (ucast (drop_bit 16 w))
    (ucast (drop_bit 24 w))) n = bit w n"
    by (cases "24 \<le> n"; cases "16 \<le> n") (auto simp: le_word_def bit_simps)
qed

lemma length_le_bytes [simp]: "length (le_bytes w) = 4"
  by (simp add: le_bytes_def)

lemma length_words_bytes [simp]: "length (words_bytes ws) = 4 * length ws"
  by (induction ws) (simp_all add: words_bytes_def)

lemma bytes_words_words_bytes [simp]: "bytes_words (words_bytes ws) = ws"
  by (induction ws) (simp_all add: words_bytes_def le_bytes_def le_word_le_bytes)

lemma length_bytes_words: "length (bytes_words bs) = length bs div 4"
  by (induction bs rule: bytes_words.induct) auto

lemma words_bytes_append: "words_bytes (xs @ ys) = words_bytes xs @ words_bytes ys"
  by (simp add: words_bytes_def)

section \<open>The contract of a first-in first-out queue\<close>

text \<open>
  Several parts of the kernel rely on the same contract: an operation that appends, one
  that removes the oldest entry, and a test for emptiness. \<open>rep h xs\<close> relates a concrete
  state to the sequence it stands for and \<open>allow xs e\<close> says when \<open>e\<close> may be appended.
\<close>

primrec enq_all :: "('h \<Rightarrow> 'e \<Rightarrow> 'h res) \<Rightarrow> 'h \<Rightarrow> 'e list \<Rightarrow> 'h res" where
  "enq_all enq h [] = Inr h"
| "enq_all enq h (e # es) = bnd (enq h e) (\<lambda>h. enq_all enq h es)"

primrec deq_n :: "('h \<Rightarrow> ('e \<times> 'h) res) \<Rightarrow> nat \<Rightarrow> 'h \<Rightarrow> ('e list \<times> 'h) res" where
  "deq_n deq 0 h = Inr ([], h)"
| "deq_n deq (Suc n) h =
     bnd (deq h) (\<lambda>(e, h). bnd (deq_n deq n h) (\<lambda>(es, h). Inr (e # es, h)))"

fun allows :: "('e list \<Rightarrow> 'e \<Rightarrow> bool) \<Rightarrow> 'e list \<Rightarrow> 'e list \<Rightarrow> bool" where
  "allows allow xs [] = True"
| "allows allow xs (e # es) = (allow xs e \<and> allows allow (xs @ [e]) es)"

locale fifo_queue =
  fixes rep :: "'h \<Rightarrow> 'e list \<Rightarrow> bool"
    and allow :: "'e list \<Rightarrow> 'e \<Rightarrow> bool"
    and enq :: "'h \<Rightarrow> 'e \<Rightarrow> 'h res"
    and deq :: "'h \<Rightarrow> ('e \<times> 'h) res"
    and isempty :: "'h \<Rightarrow> bool res"
  assumes enq_law: "rep h xs \<Longrightarrow> allow xs e \<Longrightarrow> \<exists>h'. enq h e = Inr h' \<and> rep h' (xs @ [e])"
    and deq_law: "rep h (x # xs) \<Longrightarrow> \<exists>h'. deq h = Inr (x, h') \<and> rep h' xs"
    and empty_law: "rep h xs \<Longrightarrow> isempty h = Inr (xs = [])"
begin

lemma enq_all_rep:
  "rep h xs \<Longrightarrow> allows allow xs es \<Longrightarrow> \<exists>h'. enq_all enq h es = Inr h' \<and> rep h' (xs @ es)"
proof (induction es arbitrary: h xs)
  case (Cons e es)
  then obtain h1 where h1: "enq h e = Inr h1" "rep h1 (xs @ [e])"
    using enq_law[of h xs e] by auto
  with Cons.IH[of h1 "xs @ [e]"] Cons.prems show ?case by simp
qed simp

lemma deq_n_rep:
  "rep h (xs @ ys) \<Longrightarrow> \<exists>h'. deq_n deq (length xs) h = Inr (xs, h') \<and> rep h' ys"
proof (induction xs arbitrary: h)
  case (Cons x xs)
  then obtain h1 where h1: "deq h = Inr (x, h1)" "rep h1 (xs @ ys)"
    using deq_law[of h x "xs @ ys"] by auto
  with Cons.IH[OF h1(2)] show ?case by auto
qed simp

lemma fifo_order:
  assumes "rep h xs" and "allows allow xs es"
  shows "\<exists>h1 h2. enq_all enq h es = Inr h1 \<and>
    deq_n deq (length xs + length es) h1 = Inr (xs @ es, h2) \<and> isempty h2 = Inr True"
proof -
  from enq_all_rep[OF assms] obtain h1 where h1: "enq_all enq h es = Inr h1" "rep h1 (xs @ es)"
    by blast
  with deq_n_rep[of h1 "xs @ es" "[]"] obtain h2 where
    "deq_n deq (length xs + length es) h1 = Inr (xs @ es, h2)" "rep h2 []" by auto
  with h1(1) empty_law[of h2 "[]"] show ?thesis by auto
qed

end

section \<open>State machines\<close>

text \<open>
  A component whose steps keep an invariant: every state that its steps reach from an initial
  state satisfies it.
\<close>

locale machine =
  fixes init :: "'s \<Rightarrow> bool" and step :: "'s \<Rightarrow> 's \<Rightarrow> bool" and inv :: "'s \<Rightarrow> bool"
  assumes init_inv: "init s \<Longrightarrow> inv s"
    and step_inv: "inv s \<Longrightarrow> step s s' \<Longrightarrow> inv s'"
begin

lemma steps_inv: "rtranclp step s s' \<Longrightarrow> inv s \<Longrightarrow> inv s'"
  by (induction rule: rtranclp_induct) (auto intro: step_inv)

lemma reach_inv: "init s \<Longrightarrow> rtranclp step s s' \<Longrightarrow> inv s'"
  by (rule steps_inv[OF _ init_inv])

end

end
