(* ===== verification/Klist.thy ===== *)
theory Klist
  imports Kernel_Prelude
begin

text \<open>
  The doubly linked lists of \<open>lib/kernel/list.c\<close>, at the level of the pointers the code
  manipulates. The memory is a partial map from addresses to \<open>struct list_elem\<close>; a
  \<open>struct list\<close> is the pair of the addresses of its two header elements. Every operation
  performs the loads and stores of the source in their order, so that aliasing between
  the elements involved is part of the model; a null or unmapped pointer is a \<open>Fault\<close>,
  a failed \<open>ASSERT\<close> a \<open>Panic\<close>.

  The abstraction \<open>dll h l xs\<close> says that the list with headers \<open>l\<close> holds exactly the
  elements at the addresses \<open>xs\<close>, in that order. The lemmas show that each operation
  never faults on a well-formed list and refines the corresponding operation on the
  sequence, and that it touches no element outside the ones it names.
\<close>

section \<open>Memory and elements\<close>

type_synonym ptr = "32 word"

abbreviation NULL :: ptr where "NULL \<equiv> 0"

record list_elem =
  le_prev :: ptr
  le_next :: ptr

record klist =
  head :: ptr
  tail :: ptr

type_synonym heap = "ptr \<rightharpoonup> list_elem"

definition load :: "heap \<Rightarrow> ptr \<Rightarrow> list_elem res" where
  "load h p = (if p = NULL then Inl (Fault ''null'')
     else case h p of None \<Rightarrow> Inl (Fault ''wild'') | Some e \<Rightarrow> Inr e)"

definition set_prev :: "heap \<Rightarrow> ptr \<Rightarrow> ptr \<Rightarrow> heap res" where
  "set_prev h p v = bnd (load h p) (\<lambda>e. Inr (h(p \<mapsto> e\<lparr>le_prev := v\<rparr>)))"

definition set_next :: "heap \<Rightarrow> ptr \<Rightarrow> ptr \<Rightarrow> heap res" where
  "set_next h p v = bnd (load h p) (\<lambda>e. Inr (h(p \<mapsto> e\<lparr>le_next := v\<rparr>)))"

definition get_prev :: "heap \<Rightarrow> ptr \<Rightarrow> ptr res" where
  "get_prev h p = bnd (load h p) (\<lambda>e. Inr (le_prev e))"

definition get_next :: "heap \<Rightarrow> ptr \<Rightarrow> ptr res" where
  "get_next h p = bnd (load h p) (\<lambda>e. Inr (le_next e))"

definition is_head :: "heap \<Rightarrow> ptr \<Rightarrow> bool res" where
  "is_head h p = (if p = NULL then Inr False
     else bnd (load h p) (\<lambda>e. Inr (le_prev e = NULL \<and> le_next e \<noteq> NULL)))"

definition is_interior :: "heap \<Rightarrow> ptr \<Rightarrow> bool res" where
  "is_interior h p = (if p = NULL then Inr False
     else bnd (load h p) (\<lambda>e. Inr (le_prev e \<noteq> NULL \<and> le_next e \<noteq> NULL)))"

definition is_tail :: "heap \<Rightarrow> ptr \<Rightarrow> bool res" where
  "is_tail h p = (if p = NULL then Inr False
     else bnd (load h p) (\<lambda>e. Inr (le_prev e \<noteq> NULL \<and> le_next e = NULL)))"

text \<open>C's short-circuit disjunction of two tests.\<close>

definition orM :: "bool res \<Rightarrow> bool res \<Rightarrow> bool res" where
  "orM a b = bnd a (\<lambda>x. if x then Inr True else b)"

section \<open>Operations\<close>

definition list_init :: "heap \<Rightarrow> klist \<Rightarrow> heap res" where
  "list_init h l =
     bnd (set_prev h (head l) NULL) (\<lambda>h.
     bnd (set_next h (head l) (tail l)) (\<lambda>h.
     bnd (set_prev h (tail l) (head l)) (\<lambda>h.
     set_next h (tail l) NULL)))"

definition list_begin :: "heap \<Rightarrow> klist \<Rightarrow> ptr res" where
  "list_begin h l = get_next h (head l)"

definition list_next :: "heap \<Rightarrow> ptr \<Rightarrow> ptr res" where
  "list_next h e =
     bnd (orM (is_head h e) (is_interior h e)) (\<lambda>ok.
     asrt ''list_next'' ok (get_next h e))"

definition list_end :: "klist \<Rightarrow> ptr" where
  "list_end l = tail l"

definition list_rbegin :: "heap \<Rightarrow> klist \<Rightarrow> ptr res" where
  "list_rbegin h l = get_prev h (tail l)"

definition list_prev :: "heap \<Rightarrow> ptr \<Rightarrow> ptr res" where
  "list_prev h e =
     bnd (orM (is_interior h e) (is_tail h e)) (\<lambda>ok.
     asrt ''list_prev'' ok (get_prev h e))"

definition list_rend :: "klist \<Rightarrow> ptr" where
  "list_rend l = head l"

definition list_head :: "klist \<Rightarrow> ptr" where
  "list_head l = head l"

definition list_tail :: "klist \<Rightarrow> ptr" where
  "list_tail l = tail l"

definition list_insert :: "heap \<Rightarrow> ptr \<Rightarrow> ptr \<Rightarrow> heap res" where
  "list_insert h before elem =
     bnd (orM (is_interior h before) (is_tail h before)) (\<lambda>ok.
     asrt ''list_insert'' ok (asrt ''list_insert'' (elem \<noteq> NULL) (
     bnd (get_prev h before) (\<lambda>p.
     bnd (set_prev h elem p) (\<lambda>h.
     bnd (set_next h elem before) (\<lambda>h.
     bnd (get_prev h before) (\<lambda>p.
     bnd (set_next h p elem) (\<lambda>h.
     set_prev h before elem))))))))"

definition list_splice :: "heap \<Rightarrow> ptr \<Rightarrow> ptr \<Rightarrow> ptr \<Rightarrow> heap res" where
  "list_splice h before first lst =
     bnd (orM (is_interior h before) (is_tail h before)) (\<lambda>ok.
     asrt ''list_splice'' ok (
     if first = lst then Inr h
     else bnd (list_prev h lst) (\<lambda>lst.
     bnd (is_interior h first) (\<lambda>ok. asrt ''list_splice'' ok (
     bnd (is_interior h lst) (\<lambda>ok. asrt ''list_splice'' ok (
     bnd (get_prev h first) (\<lambda>fp. bnd (get_next h lst) (\<lambda>ln.
     bnd (set_next h fp ln) (\<lambda>h.
     bnd (get_next h lst) (\<lambda>ln. bnd (get_prev h first) (\<lambda>fp.
     bnd (set_prev h ln fp) (\<lambda>h.
     bnd (get_prev h before) (\<lambda>bp.
     bnd (set_prev h first bp) (\<lambda>h.
     bnd (set_next h lst before) (\<lambda>h.
     bnd (get_prev h before) (\<lambda>bp.
     bnd (set_next h bp first) (\<lambda>h.
     set_prev h before lst))))))))))))))))))"

definition list_push_front :: "heap \<Rightarrow> klist \<Rightarrow> ptr \<Rightarrow> heap res" where
  "list_push_front h l elem = bnd (list_begin h l) (\<lambda>b. list_insert h b elem)"

definition list_push_back :: "heap \<Rightarrow> klist \<Rightarrow> ptr \<Rightarrow> heap res" where
  "list_push_back h l elem = list_insert h (list_end l) elem"

definition list_remove :: "heap \<Rightarrow> ptr \<Rightarrow> (ptr \<times> heap) res" where
  "list_remove h elem =
     bnd (is_interior h elem) (\<lambda>ok. asrt ''list_remove'' ok (
     bnd (get_prev h elem) (\<lambda>p. bnd (get_next h elem) (\<lambda>n.
     bnd (set_next h p n) (\<lambda>h.
     bnd (get_next h elem) (\<lambda>n. bnd (get_prev h elem) (\<lambda>p.
     bnd (set_prev h n p) (\<lambda>h.
     bnd (get_next h elem) (\<lambda>n. Inr (n, h))))))))))"

definition list_empty :: "heap \<Rightarrow> klist \<Rightarrow> bool res" where
  "list_empty h l = bnd (list_begin h l) (\<lambda>b. Inr (b = list_end l))"

definition list_front :: "heap \<Rightarrow> klist \<Rightarrow> ptr res" where
  "list_front h l =
     bnd (list_empty h l) (\<lambda>e. asrt ''list_front'' (\<not> e) (get_next h (head l)))"

definition list_back :: "heap \<Rightarrow> klist \<Rightarrow> ptr res" where
  "list_back h l =
     bnd (list_empty h l) (\<lambda>e. asrt ''list_back'' (\<not> e) (get_prev h (tail l)))"

definition list_pop_front :: "heap \<Rightarrow> klist \<Rightarrow> (ptr \<times> heap) res" where
  "list_pop_front h l =
     bnd (list_front h l) (\<lambda>front.
     bnd (list_remove h front) (\<lambda>(_, h). Inr (front, h)))"

definition list_pop_back :: "heap \<Rightarrow> klist \<Rightarrow> (ptr \<times> heap) res" where
  "list_pop_back h l =
     bnd (list_back h l) (\<lambda>back.
     bnd (list_remove h back) (\<lambda>(_, h). Inr (back, h)))"

text \<open>The traversals run along \<open>next\<close> links; on a cyclic chain they would not stop, so
  they take the number of steps they may make.\<close>

fun list_size_loop :: "nat \<Rightarrow> heap \<Rightarrow> klist \<Rightarrow> ptr \<Rightarrow> size_t \<Rightarrow> size_t res" where
  "list_size_loop 0 h l e cnt = Inl OutOfFuel"
| "list_size_loop (Suc n) h l e cnt =
     (if e = list_end l then Inr cnt
      else bnd (list_next h e) (\<lambda>e'. list_size_loop n h l e' (cnt + 1)))"

definition list_size :: "nat \<Rightarrow> heap \<Rightarrow> klist \<Rightarrow> size_t res" where
  "list_size fuel h l = bnd (list_begin h l) (\<lambda>e. list_size_loop fuel h l e 0)"

text \<open>\<open>swap\<close> exchanges two links held in memory; the links are fields of elements.\<close>

fun list_reverse_loop :: "nat \<Rightarrow> heap \<Rightarrow> klist \<Rightarrow> ptr \<Rightarrow> heap res" where
  "list_reverse_loop 0 h l e = Inl OutOfFuel"
| "list_reverse_loop (Suc n) h l e =
     (if e = list_end l then Inr h
      else bnd (get_prev h e) (\<lambda>p. bnd (get_next h e) (\<lambda>x.
           bnd (set_prev h e x) (\<lambda>h. bnd (set_next h e p) (\<lambda>h.
           bnd (get_prev h e) (\<lambda>e'. list_reverse_loop n h l e'))))))"

definition list_reverse :: "nat \<Rightarrow> heap \<Rightarrow> klist \<Rightarrow> heap res" where
  "list_reverse fuel h l =
     bnd (list_empty h l) (\<lambda>empty. if empty then Inr h
     else bnd (list_begin h l) (\<lambda>e.
     bnd (list_reverse_loop fuel h l e) (\<lambda>h.
     bnd (get_next h (head l)) (\<lambda>a. bnd (get_prev h (tail l)) (\<lambda>b.
     bnd (set_next h (head l) b) (\<lambda>h. bnd (set_prev h (tail l) a) (\<lambda>h.
     bnd (get_next h (head l)) (\<lambda>f. bnd (get_prev h (tail l)) (\<lambda>g.
     bnd (get_prev h f) (\<lambda>a. bnd (get_next h g) (\<lambda>b.
     bnd (set_prev h f b) (\<lambda>h. set_next h g a))))))))))))"

section \<open>Well-formed lists\<close>

definition nx :: "heap \<Rightarrow> ptr \<Rightarrow> ptr" where "nx h p = le_next (the (h p))"

definition pv :: "heap \<Rightarrow> ptr \<Rightarrow> ptr" where "pv h p = le_prev (the (h p))"

definition valid :: "heap \<Rightarrow> ptr \<Rightarrow> bool" where "valid h p \<longleftrightarrow> p \<in> dom h \<and> p \<noteq> NULL"

text \<open>
  \<open>seg h p xs n\<close>: the elements \<open>xs\<close> are linked in this order, the first one's \<open>prev\<close> is
  \<open>p\<close> and the last one's \<open>next\<close> is \<open>n\<close>.
\<close>

fun seg :: "heap \<Rightarrow> ptr \<Rightarrow> ptr list \<Rightarrow> ptr \<Rightarrow> bool" where
  "seg h p [] n = True"
| "seg h p (x # xs) n =
     (valid h x \<and> pv h x = p \<and> nx h x = hd (xs @ [n]) \<and> seg h x xs n)"

abbreviation chain :: "klist \<Rightarrow> ptr list \<Rightarrow> ptr list" where
  "chain l xs \<equiv> head l # xs @ [tail l]"

definition dll :: "heap \<Rightarrow> klist \<Rightarrow> ptr list \<Rightarrow> bool" where
  "dll h l xs \<longleftrightarrow> distinct (chain l xs) \<and> seg h NULL (chain l xs) NULL"

lemma seg_append:
  "seg h p (xs @ ys) n \<longleftrightarrow> seg h p xs (hd (ys @ [n])) \<and> seg h (last (p # xs)) ys n"
proof (induction xs arbitrary: p)
  case (Cons x xs)
  then show ?case by (cases xs) auto
qed simp

lemma seg_at:
  assumes "seg h p (xs @ a # ys) n"
  shows "valid h a" and "pv h a = last (p # xs)" and "nx h a = hd (ys @ [n])"
  using assms by (simp_all add: seg_append)

lemma seg_valid: "seg h p xs n \<Longrightarrow> a \<in> set xs \<Longrightarrow> valid h a"
  by (induction h p xs n rule: seg.induct) auto

lemma seg_cong:
  "seg h p xs n \<Longrightarrow> (\<And>a. a \<in> set xs \<Longrightarrow> h' a = h a) \<Longrightarrow> seg h' p xs n"
proof (induction h p xs n rule: seg.induct)
  case (2 h p x xs n)
  then have "h' x = h x" "seg h' x xs n" by simp_all
  with "2.prems"(1) show ?case by (simp add: nx_def pv_def valid_def dom_def)
qed simp

subsection \<open>Loads and stores on allocated elements\<close>

definition upd_next :: "heap \<Rightarrow> ptr \<Rightarrow> ptr \<Rightarrow> heap" where
  "upd_next h p v = h(p \<mapsto> (the (h p))\<lparr>le_next := v\<rparr>)"

definition upd_prev :: "heap \<Rightarrow> ptr \<Rightarrow> ptr \<Rightarrow> heap" where
  "upd_prev h p v = h(p \<mapsto> (the (h p))\<lparr>le_prev := v\<rparr>)"

lemma upd_fields [simp]:
  "nx (upd_next h p v) q = (if q = p then v else nx h q)"
  "pv (upd_next h p v) q = pv h q"
  "pv (upd_prev h p v) q = (if q = p then v else pv h q)"
  "nx (upd_prev h p v) q = nx h q"
  by (auto simp: upd_next_def upd_prev_def nx_def pv_def)

lemma valid_upd [simp]:
  "valid h p \<Longrightarrow> valid (upd_next h p v) q = valid h q"
  "valid h p \<Longrightarrow> valid (upd_prev h p v) q = valid h q"
  by (auto simp: upd_next_def upd_prev_def valid_def)

lemma upd_other [simp]:
  "q \<noteq> p \<Longrightarrow> upd_next h p v q = h q"
  "q \<noteq> p \<Longrightarrow> upd_prev h p v q = h q"
  by (auto simp: upd_next_def upd_prev_def)

lemma valid_nonnull [simp]: "\<not> valid h NULL"
  by (simp add: valid_def)

lemma mem_ops [simp]:
  assumes "valid h p"
  shows "load h p = Inr (the (h p))"
    and "get_prev h p = Inr (pv h p)"
    and "get_next h p = Inr (nx h p)"
    and "set_prev h p v = Inr (upd_prev h p v)"
    and "set_next h p v = Inr (upd_next h p v)"
    and "is_head h p = Inr (pv h p = NULL \<and> nx h p \<noteq> NULL)"
    and "is_interior h p = Inr (pv h p \<noteq> NULL \<and> nx h p \<noteq> NULL)"
    and "is_tail h p = Inr (pv h p \<noteq> NULL \<and> nx h p = NULL)"
  using assms
  by (auto simp: valid_def load_def get_prev_def get_next_def set_prev_def set_next_def
      is_head_def is_interior_def is_tail_def upd_prev_def upd_next_def nx_def pv_def)

lemma orM_Inr [simp]: "orM (Inr a) (Inr b) = Inr (a \<or> b)"
  by (auto simp: orM_def)

lemma list_next_valid: "valid h p \<Longrightarrow> nx h p \<noteq> NULL \<Longrightarrow> list_next h p = Inr (nx h p)"
  by (cases "pv h p = NULL") (simp_all add: list_next_def)

lemma list_prev_valid: "valid h p \<Longrightarrow> pv h p \<noteq> NULL \<Longrightarrow> list_prev h p = Inr (pv h p)"
  by (cases "nx h p = NULL") (simp_all add: list_prev_def)

lemma list_insert_eq:
  assumes "valid h b" "valid h e" "pv h b = p" "valid h p" "e \<noteq> b"
  shows "list_insert h b e =
    Inr (upd_prev (upd_next (upd_next (upd_prev h e p) e b) p e) b e)"
proof -
  from assms have "p \<noteq> NULL" "e \<noteq> NULL" by auto
  with assms show ?thesis
    by (cases "nx h b = NULL") (simp_all add: list_insert_def)
qed

lemma list_remove_eq:
  assumes "valid h e" "pv h e = p" "nx h e = n" "valid h p" "valid h n" "p \<noteq> e" "n \<noteq> e"
  shows "list_remove h e = Inr (n, upd_prev (upd_next h p n) n p)"
proof -
  from assms have "p \<noteq> NULL" "n \<noteq> NULL" by auto
  with assms show ?thesis by (simp add: list_remove_def)
qed

lemma seg_upd_notin [simp]:
  "q \<notin> set xs \<Longrightarrow> valid h q \<Longrightarrow> seg (upd_next h q v) p xs n = seg h p xs n"
  "q \<notin> set xs \<Longrightarrow> valid h q \<Longrightarrow> seg (upd_prev h q v) p xs n = seg h p xs n"
  by (induction xs arbitrary: p) auto

lemma seg_upd_last:
  "seg h p (xs @ [a]) w \<Longrightarrow> a \<notin> set xs \<Longrightarrow> seg (upd_next h a v) p (xs @ [a]) v"
  by (auto simp: seg_append)

lemma seg_upd_first:
  "seg h w (a # xs) n \<Longrightarrow> a \<notin> set xs \<Longrightarrow> seg (upd_prev h a v) v (a # xs) n"
  by auto

subsection \<open>Insertion and removal in the middle of a chain\<close>

lemma seg_insert:
  assumes seg: "seg h NULL (P @ p # b # Q) NULL" and dist: "distinct (P @ p # e # b # Q)"
    and v: "valid h e"
  defines "h' \<equiv> upd_prev (upd_next (upd_next (upd_prev h e p) e b) p e) b e"
  shows "list_insert h b e = Inr h'" and "seg h' NULL (P @ p # e # b # Q) NULL"
proof -
  have D: "valid h p" "valid h b" "pv h b = p"
    using seg_at[of h NULL P p "b # Q" NULL] seg_at[of h NULL "P @ [p]" b Q NULL] seg by simp_all
  then show "list_insert h b e = Inr h'"
    unfolding h'_def using dist v by (intro list_insert_eq) auto
  then show "seg h' NULL (P @ p # e # b # Q) NULL"
    using seg v dist by (auto simp: h'_def seg_append)
qed

lemma seg_remove:
  assumes seg: "seg h NULL (P @ p # e # n # Q) NULL" and dist: "distinct (P @ p # e # n # Q)"
  defines "h' \<equiv> upd_prev (upd_next h p n) n p"
  shows "list_remove h e = Inr (n, h')" and "seg h' NULL (P @ p # n # Q) NULL"
proof -
  have D: "valid h p" "valid h e" "valid h n" "pv h e = p" "nx h e = n"
    using seg_at[of h NULL P p "e # n # Q" NULL] seg_at[of h NULL "P @ [p]" e "n # Q" NULL]
      seg_at[of h NULL "P @ [p, e]" n Q NULL] seg by simp_all
  then show "list_remove h e = Inr (n, h')"
    unfolding h'_def using dist by (intro list_remove_eq) auto
  show "seg h' NULL (P @ p # n # Q) NULL"
    using seg D dist by (auto simp: h'_def seg_append)
qed

lemma list_splice_eq:
  assumes v: "valid h b" "valid h first" "valid h k" "valid h n" "valid h fp" "valid h bp"
    and link: "pv h b = bp" "pv h first = fp" "nx h k = n" "pv h n = k"
    and ne: "first \<noteq> n" "b \<noteq> n" "b \<noteq> first" "nx h first \<noteq> NULL" "pv h k \<noteq> NULL"
      "fp \<noteq> k" "first \<noteq> bp"
  shows "list_splice h b first n =
    Inr (upd_prev (upd_next (upd_next (upd_prev (upd_prev (upd_next h fp n) n fp) first bp) k b)
      bp first) b k)"
proof -
  from v have nn: "bp \<noteq> NULL" "fp \<noteq> NULL" "k \<noteq> NULL" "n \<noteq> NULL" by auto
  have pn: "list_prev h n = Inr k"
    using list_prev_valid[of h n] v link nn by simp
  show ?thesis
    using v link ne nn
    by (cases "nx h b = NULL") (simp_all add: list_splice_def pn)
qed

lemma seg_relink:
  assumes "seg h p xs n" and "xs \<noteq> []" and "distinct xs"
    and "\<And>a. a \<in> set xs \<Longrightarrow> valid h' a"
    and "\<And>a. a \<in> set xs \<Longrightarrow> nx h' a = (if a = last xs then n' else nx h a)"
    and "\<And>a. a \<in> set xs \<Longrightarrow> pv h' a = (if a = hd xs then p' else pv h a)"
  shows "seg h' p' xs n'"
  using assms
proof (induction xs arbitrary: p p')
  case (Cons x xs)
  show ?case
  proof (cases xs)
    case Nil
    with Cons.prems(4-6)[of x] show ?thesis by simp
  next
    case (Cons y ys)
    have "seg h' x xs n'"
    proof (rule Cons.IH)
      show "seg h x xs n" "distinct xs" "xs \<noteq> []" using Cons.prems(1,3) Cons by simp_all
      fix a assume a: "a \<in> set xs"
      then have "a \<noteq> x" using Cons.prems(3) by auto
      then show "valid h' a" "nx h' a = (if a = last xs then n' else nx h a)"
        "pv h' a = (if a = hd xs then x else pv h a)"
        using Cons.prems(4-6)[of a] Cons.prems(1) Cons a by auto
    qed
    moreover have "nx h' x = y" using Cons.prems(1,3) Cons.prems(5)[of x] Cons by auto
    ultimately show ?thesis using Cons.prems(4,6)[of x] Cons by simp
  qed
qed simp

lemma seg_ends:
  "seg h p xs n \<Longrightarrow> xs \<noteq> [] \<Longrightarrow> pv h (hd xs) = p \<and> nx h (last xs) = n"
  by (induction h p xs n rule: seg.induct) auto

lemma splice_links:
  assumes v: "valid h b" "valid h m" "valid h k" "valid h n" "valid h fp" "valid h p"
    and ne: "distinct [p, k, fp]" "distinct [b, m, n]"
  defines "h' \<equiv> upd_prev (upd_next (upd_next
    (upd_prev (upd_prev (upd_next h fp n) n fp) m p) k b) p m) b k"
  shows "nx h' q = (if q = p then m else if q = k then b else if q = fp then n else nx h q)"
    and "pv h' q = (if q = b then k else if q = m then p else if q = n then fp else pv h q)"
    and "valid h' q = valid h q"
  using v ne by (auto simp: h'_def)

lemma seg_splice_same:
  assumes seg: "seg h NULL (P @ p # b # Y @ (m # M) @ n # Q) NULL"
    and dist: "distinct (P @ p # b # Y @ (m # M) @ n # Q)"
  shows "\<exists>h'. list_splice h b m n = Inr h' \<and> seg h' NULL (P @ p # (m # M) @ b # Y @ n # Q) NULL
    \<and> (\<forall>q. valid h' q = valid h q)
    \<and> (\<forall>q. q \<notin> set (P @ p # b # Y @ (m # M) @ n # Q) \<longrightarrow> h' q = h q)"
proof -
  define k fp where "k = last (m # M)" and "fp = last (b # Y)"
  define h' where "h' = upd_prev (upd_next (upd_next
    (upd_prev (upd_prev (upd_next h fp n) n fp) m p) k b) p m) b k"
  have km: "k \<in> set (m # M)" and fy: "fp \<in> set (b # Y)"
    unfolding k_def fp_def by (rule last_in_set; simp)+
  have vs: "valid h b" "valid h m" "valid h k" "valid h n" "valid h fp" "valid h p"
    using km fy by (auto intro: seg_valid[OF seg])
  have s1: "seg h NULL (P @ [p]) b" and r1: "seg h p ((b # Y) @ (m # M) @ n # Q) NULL"
    using seg seg_append[of h NULL "P @ [p]" "(b # Y) @ (m # M) @ n # Q" NULL]
    by (simp_all del: seg.simps)
  have s2: "seg h p (b # Y) m" and r2: "seg h fp ((m # M) @ n # Q) NULL"
    using r1 seg_append[of h p "b # Y" "(m # M) @ n # Q" NULL] by (simp_all add: fp_def del: seg.simps)
  have s3: "seg h fp (m # M) n" and s4: "seg h k (n # Q) NULL"
    using r2 seg_append[of h fp "m # M" "n # Q" NULL] by (simp_all add: k_def del: seg.simps)
  note segs = s1 s2 s3 s4
  have ne: "distinct [p, k, fp]" "distinct [b, m, n]" using km fy dist by auto
  note L = splice_links[OF vs ne, folded h'_def]
  have link: "pv h b = p" "pv h m = fp" "nx h k = n" "pv h n = k"
    using segs seg_at(3)[of h fp "butlast (m # M)" k "[]" n] by (simp_all add: k_def)
  have "valid h (hd (M @ [n]))" using seg_valid[OF seg] by (cases M) auto
  then have nm: "nx h m \<noteq> NULL" using segs by auto
  have "last (fp # butlast (m # M)) \<in> set (b # Y) \<union> set (m # M)"
    using fy last_in_set[of "fp # butlast (m # M)"] in_set_butlastD[of _ "m # M"]
    by (simp only: list.set_intros list.distinct(2) Un_iff set_ConsD) (metis list.distinct(2) set_ConsD)
  then have "valid h (last (fp # butlast (m # M)))"
    by (intro seg_valid[OF seg]) auto
  then have pk: "pv h k \<noteq> NULL"
    using segs(3) seg_at(2)[of h fp "butlast (m # M)" k "[]" n] by (auto simp: k_def)
  have spl: "list_splice h b m n = Inr h'"
    unfolding h'_def using vs link dist km fy nm pk by (intro list_splice_eq) auto
  have t1: "seg h' NULL (P @ [p]) m"
    by (rule seg_relink[OF segs(1)])
      (use dist km fy seg_valid[OF segs(1)] seg_ends[OF segs(1)] in \<open>auto simp: L\<close>)
  have t2: "seg h' p (m # M) b"
    by (rule seg_relink[OF segs(3)]) (use dist km fy seg_valid[OF segs(3)] in \<open>auto simp: L k_def\<close>)
  have t3: "seg h' k (b # Y) n"
    by (rule seg_relink[OF segs(2)]) (use dist km fy seg_valid[OF segs(2)] in \<open>auto simp: L fp_def\<close>)
  have d4: "a \<notin> {p, k, fp, b, m}" if "a \<in> set (n # Q)" for a
    using that dist km fy by auto
  have "n \<notin> set Q" using dist by simp
  then have t4: "seg h' fp (n # Q) NULL"
    using d4 seg_valid[OF segs(4)] seg_ends[OF segs(4)] dist
    by (intro seg_relink[OF segs(4)]) (simp_all add: L)
  have "h' q = h q" if "q \<notin> set (P @ p # b # Y @ (m # M) @ n # Q)" for q
  proof -
    have "q \<noteq> k" "q \<noteq> fp" using that km fy by auto
    then show ?thesis using that by (simp add: h'_def)
  qed
  moreover have "seg h' k ((b # Y) @ n # Q) NULL"
    unfolding seg_append[of h' k "b # Y"] fp_def[symmetric] last_ConsR[OF list.distinct(2)]
    using t3 t4 by (simp only: append_Cons list.sel)
  then have "seg h' p ((m # M) @ (b # Y) @ n # Q) NULL"
    unfolding seg_append[of h' p "m # M"] k_def[symmetric] last_ConsR[OF list.distinct(2)]
    using t2 by (simp only: append_Cons list.sel)
  then have "seg h' NULL ((P @ [p]) @ (m # M) @ (b # Y) @ n # Q) NULL"
    unfolding seg_append[of h' NULL "P @ [p]"] using t1 by (simp del: seg.simps)
  then have "seg h' NULL (P @ p # (m # M) @ b # Y @ n # Q) NULL"
    by (simp only: append.assoc append_Cons append_Nil)
  ultimately show ?thesis using spl L(3) by blast
qed

section \<open>Operations refine the sequence operations\<close>

text \<open>\<open>frame S h h'\<close>: the step from \<open>h\<close> to \<open>h'\<close> writes only elements of \<open>S\<close> and frees none.\<close>

definition frame :: "ptr set \<Rightarrow> heap \<Rightarrow> heap \<Rightarrow> bool" where
  "frame S h h' \<longleftrightarrow> (\<forall>q. q \<notin> S \<longrightarrow> h' q = h q) \<and> (\<forall>q. valid h' q = valid h q)"

lemma frame_refl [simp]: "frame S h h"
  by (simp add: frame_def)

lemma frame_trans: "frame S h h' \<Longrightarrow> frame S h' h'' \<Longrightarrow> frame S h h''"
  by (simp add: frame_def)

lemma frame_mono: "frame S h h' \<Longrightarrow> S \<subseteq> T \<Longrightarrow> frame T h h'"
  by (auto simp: frame_def)

lemma frame_upd_right:
  assumes "frame S h h'" "valid h p" "p \<in> S"
  shows "frame S h (upd_next h' p v)" and "frame S h (upd_prev h' p v)"
  using assms unfolding frame_def by (metis upd_other valid_upd)+

lemma frame_valid: "frame S h h' \<Longrightarrow> valid h' q = valid h q"
  by (simp add: frame_def)

lemma dll_frame:
  assumes "dll h l xs" and "frame S h h'" and "S \<inter> set (chain l xs) = {}"
  shows "dll h' l xs"
  unfolding dll_def
proof
  show "distinct (chain l xs)" using assms(1) by (simp only: dll_def)
  have "seg h NULL (chain l xs) NULL" using assms(1) by (simp only: dll_def)
  then show "seg h' NULL (chain l xs) NULL"
    by (rule seg_cong) (use assms(2,3) in \<open>auto simp: frame_def\<close>)
qed

lemma dll_valid: "dll h l xs \<Longrightarrow> a \<in> set (chain l xs) \<Longrightarrow> valid h a"
  unfolding dll_def by (blast intro: seg_valid)

lemma dll_distinct: "dll h l xs \<Longrightarrow> distinct xs"
  by (simp add: dll_def)

lemma chain_split:
  "chain l (xs @ ys) =
     butlast (head l # xs) @ last (head l # xs) # hd (ys @ [tail l]) # tl (ys @ [tail l])"
proof -
  have "butlast (head l # xs) @ [last (head l # xs)] = head l # xs"
    by (rule append_butlast_last_id) simp
  then have "butlast (head l # xs) @ last (head l # xs) # ys @ [tail l] = head l # xs @ ys @ [tail l]"
    by (metis append.assoc append_Cons append_Nil)
  then show ?thesis by simp
qed

lemma dll_seg: "dll h l xs \<Longrightarrow> seg h NULL (chain l xs) NULL"
  by (simp only: dll_def)

lemma dll_links:
  assumes "dll h l (xs @ e # ys)"
  shows "nx h e = hd (ys @ [tail l])" and "pv h e = last (head l # xs)"
proof -
  have "seg h NULL ((head l # xs) @ e # ys @ [tail l]) NULL"
    using dll_seg[OF assms] by (simp only: append.assoc append_Cons)
  note * = seg_at[OF this]
  show "pv h e = last (head l # xs)" using *(2) by simp
  show "nx h e = hd (ys @ [tail l])" using *(3) by (cases ys) simp_all
qed

lemma dll_head_links:
  assumes "dll h l xs"
  shows "nx h (head l) = hd (xs @ [tail l])" and "pv h (head l) = NULL"
  using dll_seg[OF assms] by (cases xs; simp)+

lemma dll_tail_links:
  assumes "dll h l xs"
  shows "pv h (tail l) = last (head l # xs)" and "nx h (tail l) = NULL"
proof -
  have "seg h NULL ((head l # xs) @ tail l # []) NULL"
    using dll_seg[OF assms] by (simp only: append.assoc append_Cons)
  note * = seg_at[OF this]
  show "pv h (tail l) = last (head l # xs)" "nx h (tail l) = NULL"
    using *(2,3) by simp_all
qed

lemma dll_insert:
  assumes "dll h l (xs @ ys)" and "e \<notin> set (chain l (xs @ ys))" and "valid h e"
  shows "\<exists>h'. list_insert h (hd (ys @ [tail l])) e = Inr h' \<and> dll h' l (xs @ e # ys)
    \<and> frame (insert e (set (chain l (xs @ ys)))) h h'"
proof -
  define P p b Q where "P = butlast (head l # xs)" and "p = last (head l # xs)"
    and "b = hd (ys @ [tail l])" and "Q = tl (ys @ [tail l])"
  note defs = P_def p_def b_def Q_def
  have Pp: "P @ [p] = head l # xs" and bQ: "b # Q = ys @ [tail l]"
    unfolding defs by (rule append_butlast_last_id; simp) (cases ys; simp)
  have c: "chain l (xs @ ys) = P @ p # b # Q"
    unfolding defs by (rule chain_split)
  have c': "chain l (xs @ e # ys) = P @ p # e # b # Q"
    using Pp bQ by (metis append.assoc append_Cons append_Nil)
  have seg: "seg h NULL (P @ p # b # Q) NULL" and dist: "distinct (P @ p # b # Q)"
    using assms(1) unfolding dll_def c by simp_all
  have dist': "distinct (P @ p # e # b # Q)" using dist assms(2) unfolding c by auto
  have vs: "valid h p" "valid h b" by (auto intro: seg_valid[OF seg])
  note ins = seg_insert[OF seg dist' assms(3)]
  have "frame (insert e (set (P @ p # b # Q))) h
    (upd_prev (upd_next (upd_next (upd_prev h e p) e b) p e) b e)"
    using vs assms(3) by (intro frame_upd_right frame_refl) auto
  then show ?thesis
    using ins dist' unfolding dll_def c c' b_def[symmetric] by blast
qed

lemma dll_remove:
  assumes "dll h l (xs @ e # ys)"
  shows "\<exists>h'. list_remove h e = Inr (hd (ys @ [tail l]), h') \<and> dll h' l (xs @ ys)
    \<and> frame (set (chain l (xs @ ys))) h h'"
proof -
  define P p n Q where "P = butlast (head l # xs)" and "p = last (head l # xs)"
    and "n = hd (ys @ [tail l])" and "Q = tl (ys @ [tail l])"
  note defs = P_def p_def n_def Q_def
  have Pp: "P @ [p] = head l # xs" and bQ: "n # Q = ys @ [tail l]"
    unfolding defs by (rule append_butlast_last_id; simp) (cases ys; simp)
  have c: "chain l (xs @ ys) = P @ p # n # Q"
    unfolding defs by (rule chain_split)
  have c': "chain l (xs @ e # ys) = P @ p # e # n # Q"
    using Pp bQ by (metis append.assoc append_Cons append_Nil)
  have seg: "seg h NULL (P @ p # e # n # Q) NULL" and dist: "distinct (P @ p # e # n # Q)"
    using assms(1) unfolding dll_def c' by simp_all
  have vs: "valid h p" "valid h n" by (auto intro: seg_valid[OF seg])
  have "frame (set (P @ p # n # Q)) h (upd_prev (upd_next h p n) n p)"
    using vs by (intro frame_upd_right frame_refl) auto
  moreover have "distinct (P @ p # n # Q)" using dist by auto
  ultimately show ?thesis
    using seg_remove[OF seg dist] unfolding dll_def c n_def[symmetric] by blast
qed

lemma dll_splice:
  assumes "dll h l (xs @ b # ys @ ms @ zs)" and "ms \<noteq> []"
  shows "\<exists>h'. list_splice h b (hd ms) (hd (zs @ [tail l])) = Inr h'
    \<and> dll h' l (xs @ ms @ b # ys @ zs) \<and> frame (set (chain l (xs @ b # ys @ ms @ zs))) h h'"
proof -
  define P p n Q where "P = butlast (head l # xs)" and "p = last (head l # xs)"
    and "n = hd (zs @ [tail l])" and "Q = tl (zs @ [tail l])"
  obtain m M where ms: "ms = m # M" using assms(2) by (cases ms) auto
  have Pp: "P @ [p] = head l # xs" and nQ: "n # Q = zs @ [tail l]"
    unfolding P_def p_def n_def Q_def by (rule append_butlast_last_id; simp) (cases zs; simp)
  have c: "chain l (xs @ b # ys @ ms @ zs) = P @ p # b # ys @ (m # M) @ n # Q"
    and c': "chain l (xs @ ms @ b # ys @ zs) = P @ p # (m # M) @ b # ys @ n # Q"
    using Pp nQ ms by (metis append.assoc append_Cons append_Nil)+
  have "seg h NULL (P @ p # b # ys @ (m # M) @ n # Q) NULL"
    and d: "distinct (P @ p # b # ys @ (m # M) @ n # Q)"
    using assms(1) unfolding dll_def c by simp_all
  note * = seg_splice_same[OF this]
  have "distinct (P @ p # (m # M) @ b # ys @ n # Q)" using d by auto
  with * show ?thesis
    unfolding dll_def c c' frame_def n_def[symmetric] unfolding ms list.sel by blast
qed

lemma dll_reads:
  assumes "dll h l xs"
  shows "list_begin h l = Inr (hd (xs @ [tail l]))"
    and "list_rbegin h l = Inr (last (head l # xs))"
    and "list_empty h l = Inr (xs = [])"
    and "xs \<noteq> [] \<Longrightarrow> list_front h l = Inr (hd xs)"
    and "xs \<noteq> [] \<Longrightarrow> list_back h l = Inr (last xs)"
proof -
  have v: "valid h (head l)" "valid h (tail l)" by (auto intro: dll_valid[OF assms])
  show 1: "list_begin h l = Inr (hd (xs @ [tail l]))"
    using v dll_head_links(1)[OF assms] by (simp add: list_begin_def)
  show "list_rbegin h l = Inr (last (head l # xs))"
    using v dll_tail_links(1)[OF assms] by (simp add: list_rbegin_def)
  have "tail l \<notin> set xs" using assms by (auto simp: dll_def)
  then show e: "list_empty h l = Inr (xs = [])"
    using 1 by (cases xs) (auto simp: list_empty_def list_end_def)
  show "xs \<noteq> [] \<Longrightarrow> list_front h l = Inr (hd xs)" "xs \<noteq> [] \<Longrightarrow> list_back h l = Inr (last xs)"
    using v dll_head_links(1)[OF assms] dll_tail_links(1)[OF assms] by (simp_all add: list_front_def list_back_def e)
qed

lemma dll_next:
  assumes "dll h l (xs @ e # ys)"
  shows "list_next h e = Inr (hd (ys @ [tail l]))"
proof -
  have "valid h e" "valid h (hd (ys @ [tail l]))"
    by (cases ys; auto intro: dll_valid[OF assms])+
  moreover have "nx h e = hd (ys @ [tail l])" using dll_links(1)[OF assms] .
  ultimately show ?thesis by (metis list_next_valid valid_nonnull)
qed

lemma dll_prev:
  assumes "dll h l (xs @ ys)"
  shows "list_prev h (hd (ys @ [tail l])) = Inr (last (head l # xs))"
proof -
  have "valid h (hd (ys @ [tail l]))"
    by (cases ys; auto intro: dll_valid[OF assms])
  moreover have "pv h (hd (ys @ [tail l])) = last (head l # xs)"
    using dll_links(2)[of h l xs "hd ys" "tl ys"] dll_tail_links(1)[OF assms] assms by (cases ys) simp_all
  moreover have "valid h (last (head l # xs))"
    by (rule dll_valid[OF assms]) (use last_in_set[of "head l # xs"] in auto)
  ultimately show ?thesis by (metis list_prev_valid valid_nonnull)
qed

subsection \<open>Initialisation, the two ends, size\<close>

lemma dll_init:
  assumes "valid h (head l)" and "valid h (tail l)" and "head l \<noteq> tail l"
  shows "\<exists>h'. list_init h l = Inr h' \<and> dll h' l [] \<and> frame {head l, tail l} h h'"
proof -
  define h' where "h' = upd_next (upd_prev (upd_next (upd_prev h (head l) NULL) (head l) (tail l))
    (tail l) (head l)) (tail l) NULL"
  have "list_init h l = Inr h'" using assms by (simp add: list_init_def h'_def)
  moreover have "dll h' l []" using assms by (simp add: dll_def h'_def)
  moreover have "frame {head l, tail l} h h'"
    unfolding h'_def using assms by (intro frame_upd_right frame_refl) auto
  ultimately show ?thesis by blast
qed

lemma dll_push_front:
  assumes "dll h l xs" and "e \<notin> set (chain l xs)" and "valid h e"
  shows "\<exists>h'. list_push_front h l e = Inr h' \<and> dll h' l (e # xs)
    \<and> frame (insert e (set (chain l xs))) h h'"
  using dll_insert[of h l "[]" xs e] assms dll_reads(1)[OF assms(1)]
  by (simp add: list_push_front_def)

lemma dll_push_back:
  assumes "dll h l xs" and "e \<notin> set (chain l xs)" and "valid h e"
  shows "\<exists>h'. list_push_back h l e = Inr h' \<and> dll h' l (xs @ [e])
    \<and> frame (insert e (set (chain l xs))) h h'"
  using dll_insert[of h l xs "[]" e] assms
  by (simp add: list_push_back_def list_end_def)

lemma dll_pop_front:
  assumes "dll h l (x # xs)"
  shows "\<exists>h'. list_pop_front h l = Inr (x, h') \<and> dll h' l xs \<and> frame (set (chain l xs)) h h'"
  using dll_remove[of h l "[]" x xs] assms dll_reads(4)[OF assms]
  by (auto simp: list_pop_front_def)

lemma dll_pop_back:
  assumes "dll h l (xs @ [x])"
  shows "\<exists>h'. list_pop_back h l = Inr (x, h') \<and> dll h' l xs \<and> frame (set (chain l xs)) h h'"
  using dll_remove[of h l xs x "[]"] assms dll_reads(5)[OF assms]
  by (auto simp: list_pop_back_def)

lemma pop_empty_panics:
  assumes "dll h l []"
  shows "list_pop_front h l = Inl (Panic ''list_front'')"
    and "list_pop_back h l = Inl (Panic ''list_back'')"
  using dll_reads(3)[OF assms]
  by (simp_all add: list_pop_front_def list_pop_back_def list_front_def list_back_def)

lemma list_size_loop_dll:
  assumes "dll h l (xs @ ys)" and "length ys < fuel"
  shows "list_size_loop fuel h l (hd (ys @ [tail l])) c = Inr (c + of_nat (length ys))"
  using assms
proof (induction ys arbitrary: xs c fuel)
  case Nil
  then show ?case by (cases fuel) (simp_all add: list_end_def)
next
  case (Cons y ys)
  then obtain f where f: "fuel = Suc f" by (cases fuel) auto
  have "y \<noteq> tail l" using Cons.prems(1) by (auto simp: dll_def)
  then show ?case
    using Cons.IH[of "xs @ [y]" f "c + 1"] Cons.prems dll_next[OF Cons.prems(1)] f
    by (simp add: list_end_def)
qed

lemma list_size_dll:
  "dll h l xs \<Longrightarrow> length xs < fuel \<Longrightarrow> list_size fuel h l = Inr (of_nat (length xs))"
  using list_size_loop_dll[of h l "[]" xs fuel 0] dll_reads(1)[of h l xs]
  by (simp add: list_size_def)

subsection \<open>Reversal\<close>

text \<open>The loop exchanges the two links of every element it passes and nothing else.\<close>

definition swapped :: "ptr set \<Rightarrow> heap \<Rightarrow> heap \<Rightarrow> bool" where
  "swapped S h h' \<longleftrightarrow> frame S h h' \<and> (\<forall>q \<in> S. nx h' q = pv h q \<and> pv h' q = nx h q)"

lemma list_reverse_loop_swaps:
  assumes "seg h p ys (tail l)" and "distinct ys" and "tail l \<notin> set ys" and "length ys < fuel"
  shows "\<exists>h'. list_reverse_loop fuel h l (hd (ys @ [tail l])) = Inr h' \<and> swapped (set ys) h h'"
  using assms
proof (induction ys arbitrary: p h fuel)
  case Nil
  then show ?case by (cases fuel) (simp_all add: list_end_def swapped_def)
next
  case (Cons y ys)
  then obtain f where f: "fuel = Suc f" by (cases fuel) auto
  define h1 where "h1 = upd_next (upd_prev h y (nx h y)) y p"
  have y: "valid h y" "pv h y = p" "nx h y = hd (ys @ [tail l])" "y \<noteq> tail l"
    using Cons.prems by auto
  have "seg h1 y ys (tail l)" using Cons.prems y(1) by (simp add: h1_def)
  with Cons.IH[of h1 y f] Cons.prems f obtain h2 where
    h2: "list_reverse_loop f h1 l (hd (ys @ [tail l])) = Inr h2" "swapped (set ys) h1 h2" by auto
  have "list_reverse_loop fuel h l y = Inr h2"
    using f y h2(1) by (simp add: list_end_def h1_def)
  moreover have "frame (set (y # ys)) h h1"
    unfolding h1_def using y(1) by (intro frame_upd_right frame_refl) auto
  then have fr: "frame (set (y # ys)) h h2"
    using h2(2) frame_mono[of "set ys" h1 h2 "set (y # ys)"] unfolding swapped_def
    by (auto intro: frame_trans)
  have "h2 y = h1 y" using h2(2) Cons.prems(2) by (auto simp: swapped_def frame_def)
  then have "nx h2 y = p" "pv h2 y = nx h y" by (simp_all add: nx_def[of h2] pv_def[of h2])
      (simp_all add: h1_def upd_next_def upd_prev_def)
  moreover have "nx h2 q = pv h q \<and> pv h2 q = nx h q" if "q \<in> set ys" for q
    using h2(2) that Cons.prems(2) by (auto simp: swapped_def h1_def)
  ultimately show ?case using fr y by (auto simp: swapped_def)
qed

lemma seg_swapped:
  "seg h p xs n \<Longrightarrow> swapped (set xs) h h' \<Longrightarrow> seg h' n (rev xs) p"
proof -
  have "seg h p xs n \<Longrightarrow> (\<And>q. q \<in> set xs \<Longrightarrow> valid h' q \<and> nx h' q = pv h q \<and> pv h' q = nx h q)
    \<Longrightarrow> seg h' n (rev xs) p"
  proof (induction xs arbitrary: p)
    case (Cons x xs)
    have "last (n # rev xs) = hd (xs @ [n])" by (cases xs) simp_all
    with Cons show ?case by (simp add: seg_append)
  qed simp
  then show "seg h p xs n \<Longrightarrow> swapped (set xs) h h' \<Longrightarrow> seg h' n (rev xs) p"
    using seg_valid[of h p xs n] by (simp add: swapped_def frame_def)
qed

lemma dll_cut:
  "dll h l xs \<longleftrightarrow> distinct (chain l xs) \<and> valid h (head l) \<and> valid h (tail l) \<and>
     pv h (head l) = NULL \<and> nx h (tail l) = NULL \<and> nx h (head l) = hd (xs @ [tail l]) \<and>
     pv h (tail l) = last (head l # xs) \<and> seg h (head l) xs (tail l)"
  using seg_append[of h "head l" xs "[tail l]" NULL]
  by (auto simp: dll_def)

lemma dll_reverse:
  assumes "dll h l xs" and "length xs < fuel"
  shows "\<exists>h'. list_reverse fuel h l = Inr h' \<and> dll h' l (rev xs) \<and> frame (set (chain l xs)) h h'"
proof (cases "xs = []")
  case True
  then show ?thesis using assms dll_reads(3)[OF assms(1)] by (auto simp: list_reverse_def)
next
  case False
  define x y where "x = hd xs" and "y = last xs"
  have xy: "x \<in> set xs" "y \<in> set xs" using False by (auto simp: x_def y_def)
  note D = assms(1)[unfolded dll_cut]
  from D have ne: "head l \<noteq> tail l" "x \<noteq> head l" "x \<noteq> tail l" "y \<noteq> head l" "y \<noteq> tail l"
    "distinct xs" "tail l \<notin> set xs" "head l \<notin> set xs" using xy by auto
  from list_reverse_loop_swaps[of h "head l" xs l fuel] D ne assms(2) obtain h1 where
    h1: "list_reverse_loop fuel h l (hd (xs @ [tail l])) = Inr h1" and sw: "swapped (set xs) h h1"
    by blast
  have fr: "frame (set (chain l xs)) h h1"
    using sw by (auto simp: swapped_def intro: frame_mono)
  have v1: "valid h1 q = valid h q" for q using fr by (simp add: frame_def)
  have v: "valid h (head l)" "valid h (tail l)" "valid h x" "valid h y"
    using xy by (auto intro: dll_valid[OF assms(1)])
  have hd1: "h1 (head l) = h (head l)" "h1 (tail l) = h (tail l)"
    using sw ne by (auto simp: swapped_def frame_def)
  have l1: "nx h1 (head l) = x" "pv h1 (tail l) = y" "nx h1 (tail l) = NULL" "pv h1 (head l) = NULL"
    using D False hd1 by (simp_all add: nx_def pv_def x_def y_def)
  have "pv h x = head l" "nx h y = tail l"
    using seg_ends[of h "head l" xs "tail l"] D False by (simp_all add: x_def y_def)
  then have l2: "pv h1 y = tail l" "nx h1 x = head l" using sw xy by (auto simp: swapped_def)
  define h2 where "h2 = upd_next (upd_prev (upd_prev (upd_next h1 (head l) y) (tail l) x)
    y (head l)) x (tail l)"
  have L: "nx h2 q = (if q = x then tail l else if q = head l then y else nx h1 q)"
    "pv h2 q = (if q = y then head l else if q = tail l then x else pv h1 q)"
    "valid h2 q = valid h q" for q
    using v ne v1 by (auto simp: h2_def)
  have "list_reverse fuel h l = Inr h2"
    using dll_reads(1,3)[OF assms(1)] False h1 v v1 l1 l2 ne
    by (simp add: list_reverse_def h2_def)
  moreover have "frame (set (chain l xs)) h h2"
    unfolding h2_def using fr v xy by (intro frame_upd_right) auto
  moreover have "seg h2 (head l) (rev xs) (tail l)"
  proof (rule seg_relink)
    show s: "seg h1 (tail l) (rev xs) (head l)" using seg_swapped[of h "head l" xs "tail l" h1] D sw by simp
    show "rev xs \<noteq> []" "distinct (rev xs)" using False ne by simp_all
    fix a assume a: "a \<in> set (rev xs)"
    show "valid h2 a" "nx h2 a = (if a = last (rev xs) then tail l else nx h1 a)"
      "pv h2 a = (if a = hd (rev xs) then head l else pv h1 a)"
      using a ne False seg_valid[OF s] v1 by (auto simp: L x_def y_def last_rev hd_rev)
  qed
  then have "dll h2 l (rev xs)"
    using D ne False l1 unfolding dll_cut
    by (simp add: L hd_rev last_rev x_def y_def hd_append)
  ultimately show ?thesis by blast
qed

section \<open>The queue contract\<close>

text \<open>The state of a list together with a pool \<open>A\<close> of allocated elements it may receive.\<close>

definition pool_rep :: "klist \<Rightarrow> ptr set \<Rightarrow> heap \<Rightarrow> ptr list \<Rightarrow> bool" where
  "pool_rep l A h xs \<longleftrightarrow> dll h l xs \<and> (\<forall>a \<in> A. valid h a) \<and> head l \<notin> A \<and> tail l \<notin> A"

lemma pool_rep_frame:
  "pool_rep l A h xs \<Longrightarrow> dll h' l ys \<Longrightarrow> frame S h h' \<Longrightarrow> pool_rep l A h' ys"
  by (auto simp: pool_rep_def frame_def)

interpretation klq: fifo_queue "pool_rep l A" "\<lambda>xs e. e \<in> A \<and> e \<notin> set xs"
  "\<lambda>h e. list_push_back h l e" "\<lambda>h. list_pop_front h l" "\<lambda>h. list_empty h l" for l A
proof
  fix h xs e assume r: "pool_rep l A h xs" and e: "e \<in> A \<and> e \<notin> set xs"
  then have "dll h l xs" "e \<notin> set (chain l xs)" "valid h e" by (auto simp: pool_rep_def)
  from dll_push_back[OF this] pool_rep_frame[OF r]
  show "\<exists>h'. list_push_back h l e = Inr h' \<and> pool_rep l A h' (xs @ [e])" by blast
next
  fix h x xs assume r: "pool_rep l A h (x # xs)"
  then have "dll h l (x # xs)" by (simp add: pool_rep_def)
  from dll_pop_front[OF this] pool_rep_frame[OF r]
  show "\<exists>h'. list_pop_front h l = Inr (x, h') \<and> pool_rep l A h' xs" by blast
next
  fix h xs assume "pool_rep l A h xs"
  then show "list_empty h l = Inr (xs = [])" by (simp add: pool_rep_def dll_reads(3))
qed

lemma pool_allows:
  "set es \<subseteq> A \<Longrightarrow> distinct (xs @ es) \<Longrightarrow> allows (\<lambda>xs e. e \<in> A \<and> e \<notin> set xs) xs es"
  by (induction es arbitrary: xs) auto

section \<open>Properties\<close>

text \<open>A small memory for the witnesses: two headers and three elements, two of them linked.\<close>

definition demo_list :: klist where
  "demo_list = \<lparr>head = 1, tail = 2\<rparr>"

definition demo_heap :: heap where
  "demo_heap = [1 \<mapsto> \<lparr>le_prev = 0, le_next = 3\<rparr>, 2 \<mapsto> \<lparr>le_prev = 4, le_next = 0\<rparr>,
     3 \<mapsto> \<lparr>le_prev = 1, le_next = 4\<rparr>, 4 \<mapsto> \<lparr>le_prev = 3, le_next = 2\<rparr>,
     5 \<mapsto> \<lparr>le_prev = 0, le_next = 0\<rparr>]"

lemma demo_dll: "dll demo_heap demo_list [3, 4]" and demo_valid: "valid demo_heap 5"
  by (simp_all add: dll_def demo_heap_def demo_list_def valid_def nx_def pv_def)

text \<open>
  \<open>list_insert\<close> on a well-formed list never faults or panics, puts the new element
  exactly before the given position (which may be the list's end), and writes nothing but
  the new element and elements of the list.
\<close>

theorem list_insert_refines:
  assumes "dll h l (xs @ ys)" and "e \<notin> set (chain l (xs @ ys))" and "valid h e"
  shows "\<exists>h'. list_insert h (hd (ys @ [tail l])) e = Inr h' \<and> dll h' l (xs @ e # ys)
    \<and> frame (insert e (set (chain l (xs @ ys)))) h h'"
  by (rule dll_insert[OF assms])

theorem list_insert_refines_witness:
  "\<exists>h'. list_insert demo_heap 4 5 = Inr h' \<and> dll h' demo_list [3, 5, 4]"
  using list_insert_refines[of demo_heap demo_list "[3]" "[4]" 5] demo_dll demo_valid
  by (auto simp: demo_list_def)

text \<open>
  \<open>list_remove\<close> unlinks exactly the given element, keeps the order of the others,
  returns the element that followed it, and leaves the removed element's own links alone.
\<close>

theorem list_remove_refines:
  assumes "dll h l (xs @ e # ys)"
  shows "\<exists>h'. list_remove h e = Inr (hd (ys @ [tail l]), h') \<and> dll h' l (xs @ ys)
    \<and> frame (set (chain l (xs @ ys))) h h' \<and> h' e = h e"
proof -
  from dll_remove[OF assms] obtain h' where
    h': "list_remove h e = Inr (hd (ys @ [tail l]), h')" "dll h' l (xs @ ys)"
      "frame (set (chain l (xs @ ys))) h h'" by blast
  moreover have "e \<notin> set (chain l (xs @ ys))" using assms by (auto simp: dll_def)
  ultimately show ?thesis by (auto simp: frame_def)
qed

theorem list_remove_refines_witness:
  "\<exists>h'. list_remove demo_heap 3 = Inr (4, h') \<and> dll h' demo_list [4] \<and> h' 3 = demo_heap 3"
  using list_remove_refines[of demo_heap demo_list "[]" 3 "[4]"] demo_dll by auto

text \<open>
  \<open>list_splice\<close> moves the half-open range of elements in front of an earlier element
  of the same list: no element is lost or duplicated and the order inside the range and of
  the rest is kept.
\<close>

theorem list_splice_refines:
  assumes "dll h l (xs @ b # ys @ ms @ zs)" and "ms \<noteq> []"
  shows "\<exists>h'. list_splice h b (hd ms) (hd (zs @ [tail l])) = Inr h'
    \<and> dll h' l (xs @ ms @ b # ys @ zs) \<and> frame (set (chain l (xs @ b # ys @ ms @ zs))) h h'"
  by (rule dll_splice[OF assms])

theorem list_splice_refines_witness:
  "\<exists>h'. list_splice demo_heap 3 4 2 = Inr h' \<and> dll h' demo_list [4, 3]"
  using list_splice_refines[of demo_heap demo_list "[]" 3 "[]" "[4]" "[]"] demo_dll
  by (auto simp: demo_list_def)

text \<open>
  \<open>list_reverse\<close> terminates on every well-formed list (as many steps as elements
  suffice), reverses it in place, and writes only the list's own elements.
\<close>

theorem list_reverse_refines:
  assumes "dll h l xs" and "length xs < fuel"
  shows "\<exists>h'. list_reverse fuel h l = Inr h' \<and> dll h' l (rev xs) \<and> frame (set (chain l xs)) h h'"
  by (rule dll_reverse[OF assms])

theorem list_reverse_refines_witness:
  "\<exists>h'. list_reverse 3 demo_heap demo_list = Inr h' \<and> dll h' demo_list [4, 3]"
  using list_reverse_refines[of demo_heap demo_list "[3, 4]" 3] demo_dll by auto

text \<open>
  A list used with \<open>list_push_back\<close> and \<open>list_pop_front\<close> is a first-in first-out
  queue: after pushing any distinct fresh elements, popping returns the old contents and
  then the pushed elements in the order they were pushed, and the list is then empty.
\<close>

theorem list_fifo:
  assumes "dll h l xs" and "distinct (xs @ es)" and "\<forall>e \<in> set es. valid h e"
    and "head l \<notin> set es" and "tail l \<notin> set es"
  shows "\<exists>h1 h2. enq_all (\<lambda>h e. list_push_back h l e) h es = Inr h1 \<and>
    deq_n (\<lambda>h. list_pop_front h l) (length xs + length es) h1 = Inr (xs @ es, h2) \<and>
    list_empty h2 l = Inr True"
proof (rule klq.fifo_order[where A = "set es"])
  show "pool_rep l (set es) h xs" using assms by (simp add: pool_rep_def)
  show "allows (\<lambda>xs e. e \<in> set es \<and> e \<notin> set xs) xs es" using assms(2) by (simp add: pool_allows)
qed

theorem list_fifo_witness:
  "\<exists>h1 h2. enq_all (\<lambda>h e. list_push_back h demo_list e) demo_heap [5] = Inr h1 \<and>
    deq_n (\<lambda>h. list_pop_front h demo_list) 3 h1 = Inr ([3, 4, 5], h2)"
  using list_fifo[of demo_heap demo_list "[3, 4]" "[5]"] demo_dll demo_valid
  by (auto simp: demo_list_def numeral_3_eq_3)

end
