(* ===== verification/Klist_Order.thy ===== *)
theory Klist_Order
  imports Klist
begin

text \<open>
  The ordering operations of \<open>lib/kernel/list.c\<close>: the natural merge sort \<open>list_sort\<close> with
  its helpers \<open>is_sorted\<close>, \<open>find_end_of_run\<close> and \<open>inplace_merge\<close>, and \<open>list_insert_ordered\<close>,
  \<open>list_unique\<close>, \<open>list_max\<close> and \<open>list_min\<close>, all at the level of pointers. The caller's
  comparison function \<open>less\<close> is the parameter \<open>lt\<close>; it reads the structure that embeds a list
  element, never the links. What the code relies on, that \<open>lt\<close> is a strict weak order,
  is the contract \<open>less_func\<close>.

  Each pointer routine is first shown to compute a function on the sequence of elements
  (\<open>merge_seq\<close>, \<open>run_rest\<close>, \<open>pass_seq\<close>, ...); sortedness, permutation, stability and the
  logarithmic number of passes are then proved of these functions.
\<close>

section \<open>Operations\<close>

type_synonym less_fn = "ptr \<Rightarrow> ptr \<Rightarrow> bool"

fun is_sorted_loop :: "nat \<Rightarrow> heap \<Rightarrow> less_fn \<Rightarrow> ptr \<Rightarrow> ptr \<Rightarrow> bool res" where
  "is_sorted_loop 0 h lt a b = Inl OutOfFuel"
| "is_sorted_loop (Suc n) h lt a b =
     bnd (list_next h a) (\<lambda>a.
     if a = b then Inr True
     else bnd (list_prev h a) (\<lambda>p.
       if lt a p then Inr False else is_sorted_loop n h lt a b))"

definition is_sorted :: "nat \<Rightarrow> heap \<Rightarrow> less_fn \<Rightarrow> ptr \<Rightarrow> ptr \<Rightarrow> bool res" where
  "is_sorted fuel h lt a b =
     (if a \<noteq> b then is_sorted_loop fuel h lt a b else Inr True)"

fun find_end_loop :: "nat \<Rightarrow> heap \<Rightarrow> less_fn \<Rightarrow> ptr \<Rightarrow> ptr \<Rightarrow> ptr res" where
  "find_end_loop 0 h lt a b = Inl OutOfFuel"
| "find_end_loop (Suc n) h lt a b =
     bnd (list_next h a) (\<lambda>a.
     if a = b then Inr a
     else bnd (list_prev h a) (\<lambda>p.
       if lt a p then Inr a else find_end_loop n h lt a b))"

definition find_end_of_run :: "nat \<Rightarrow> heap \<Rightarrow> less_fn \<Rightarrow> ptr \<Rightarrow> ptr \<Rightarrow> ptr res" where
  "find_end_of_run fuel h lt a b =
     asrt ''find_end_of_run'' (a \<noteq> NULL) (asrt ''find_end_of_run'' (b \<noteq> NULL) (
     asrt ''find_end_of_run'' (a \<noteq> b) (find_end_loop fuel h lt a b)))"

fun merge_loop :: "nat \<Rightarrow> heap \<Rightarrow> less_fn \<Rightarrow> ptr \<Rightarrow> ptr \<Rightarrow> ptr \<Rightarrow> heap res" where
  "merge_loop 0 h lt a0 a1b0 b1 = Inl OutOfFuel"
| "merge_loop (Suc n) h lt a0 a1b0 b1 =
     (if a0 \<noteq> a1b0 \<and> a1b0 \<noteq> b1
      then if \<not> lt a1b0 a0
           then bnd (list_next h a0) (\<lambda>a0. merge_loop n h lt a0 a1b0 b1)
           else bnd (list_next h a1b0) (\<lambda>a1b0.
                bnd (list_prev h a1b0) (\<lambda>p.
                bnd (list_splice h a0 p a1b0) (\<lambda>h. merge_loop n h lt a0 a1b0 b1)))
      else Inr h)"

definition inplace_merge :: "nat \<Rightarrow> heap \<Rightarrow> less_fn \<Rightarrow> ptr \<Rightarrow> ptr \<Rightarrow> ptr \<Rightarrow> heap res" where
  "inplace_merge fuel h lt a0 a1b0 b1 =
     asrt ''inplace_merge'' (a0 \<noteq> NULL) (asrt ''inplace_merge'' (a1b0 \<noteq> NULL) (
     asrt ''inplace_merge'' (b1 \<noteq> NULL) (
     bnd (is_sorted fuel h lt a0 a1b0) (\<lambda>s. asrt ''inplace_merge'' s (
     bnd (is_sorted fuel h lt a1b0 b1) (\<lambda>s. asrt ''inplace_merge'' s (
     merge_loop fuel h lt a0 a1b0 b1)))))))"

text \<open>One pass of the outer loop; the result carries \<open>output_run_cnt\<close>.\<close>

fun sort_pass :: "nat \<Rightarrow> nat \<Rightarrow> heap \<Rightarrow> klist \<Rightarrow> less_fn \<Rightarrow> ptr \<Rightarrow> size_t \<Rightarrow> (size_t \<times> heap) res"
where
  "sort_pass 0 fuel h l lt a0 cnt = Inl OutOfFuel"
| "sort_pass (Suc n) fuel h l lt a0 cnt =
     (if a0 = list_end l then Inr (cnt, h)
      else bnd (find_end_of_run fuel h lt a0 (list_end l)) (\<lambda>a1b0.
        if a1b0 = list_end l then Inr (cnt + 1, h)
        else bnd (find_end_of_run fuel h lt a1b0 (list_end l)) (\<lambda>b1.
          bnd (inplace_merge fuel h lt a0 a1b0 b1) (\<lambda>h.
          sort_pass n fuel h l lt b1 (cnt + 1)))))"

fun sort_loop :: "nat \<Rightarrow> nat \<Rightarrow> heap \<Rightarrow> klist \<Rightarrow> less_fn \<Rightarrow> heap res" where
  "sort_loop 0 fuel h l lt = Inl OutOfFuel"
| "sort_loop (Suc n) fuel h l lt =
     bnd (list_begin h l) (\<lambda>a0.
     bnd (sort_pass fuel fuel h l lt a0 0) (\<lambda>(cnt, h).
     if 1 < cnt then sort_loop n fuel h l lt else Inr h))"

text \<open>\<open>passes\<close> bounds the outer \<open>do\<close> loop, \<open>fuel\<close> every loop inside it.\<close>

definition list_sort :: "nat \<Rightarrow> nat \<Rightarrow> heap \<Rightarrow> klist \<Rightarrow> less_fn \<Rightarrow> heap res" where
  "list_sort passes fuel h l lt =
     bnd (sort_loop passes fuel h l lt) (\<lambda>h.
     bnd (list_begin h l) (\<lambda>b.
     bnd (is_sorted fuel h lt b (list_end l)) (\<lambda>s. asrt ''list_sort'' s (Inr h))))"

fun insert_ordered_loop :: "nat \<Rightarrow> heap \<Rightarrow> klist \<Rightarrow> ptr \<Rightarrow> less_fn \<Rightarrow> ptr \<Rightarrow> ptr res" where
  "insert_ordered_loop 0 h l elem lt e = Inl OutOfFuel"
| "insert_ordered_loop (Suc n) h l elem lt e =
     (if e = list_end l then Inr e
      else if lt elem e then Inr e
      else bnd (list_next h e) (\<lambda>e. insert_ordered_loop n h l elem lt e))"

definition list_insert_ordered :: "nat \<Rightarrow> heap \<Rightarrow> klist \<Rightarrow> ptr \<Rightarrow> less_fn \<Rightarrow> heap res" where
  "list_insert_ordered fuel h l elem lt =
     asrt ''list_insert_ordered'' (elem \<noteq> NULL) (
     bnd (list_begin h l) (\<lambda>e.
     bnd (insert_ordered_loop fuel h l elem lt e) (\<lambda>e. list_insert h e elem)))"

fun unique_loop :: "nat \<Rightarrow> heap \<Rightarrow> klist \<Rightarrow> klist option \<Rightarrow> less_fn \<Rightarrow> ptr \<Rightarrow> heap res" where
  "unique_loop 0 h l duplicates lt elem = Inl OutOfFuel"
| "unique_loop (Suc n) h l duplicates lt elem =
     bnd (list_next h elem) (\<lambda>nxt.
     if nxt = list_end l then Inr h
     else if \<not> lt elem nxt \<and> \<not> lt nxt elem
     then bnd (list_remove h nxt) (\<lambda>(_, h).
          bnd (case duplicates of None \<Rightarrow> Inr h | Some d \<Rightarrow> list_push_back h d nxt) (\<lambda>h.
          unique_loop n h l duplicates lt elem))
     else unique_loop n h l duplicates lt nxt)"

definition list_unique :: "nat \<Rightarrow> heap \<Rightarrow> klist \<Rightarrow> klist option \<Rightarrow> less_fn \<Rightarrow> heap res" where
  "list_unique fuel h l duplicates lt =
     bnd (list_empty h l) (\<lambda>empty. if empty then Inr h
     else bnd (list_begin h l) (\<lambda>elem. unique_loop fuel h l duplicates lt elem))"

fun max_loop :: "nat \<Rightarrow> heap \<Rightarrow> klist \<Rightarrow> less_fn \<Rightarrow> ptr \<Rightarrow> ptr \<Rightarrow> ptr res" where
  "max_loop 0 h l lt m e = Inl OutOfFuel"
| "max_loop (Suc n) h l lt m e =
     (if e = list_end l then Inr m
      else let m' = (if lt m e then e else m)
           in bnd (list_next h e) (\<lambda>e. max_loop n h l lt m' e))"

definition list_max :: "nat \<Rightarrow> heap \<Rightarrow> klist \<Rightarrow> less_fn \<Rightarrow> ptr res" where
  "list_max fuel h l lt =
     bnd (list_begin h l) (\<lambda>m.
     if m \<noteq> list_end l then bnd (list_next h m) (\<lambda>e. max_loop fuel h l lt m e)
     else Inr m)"

fun min_loop :: "nat \<Rightarrow> heap \<Rightarrow> klist \<Rightarrow> less_fn \<Rightarrow> ptr \<Rightarrow> ptr \<Rightarrow> ptr res" where
  "min_loop 0 h l lt m e = Inl OutOfFuel"
| "min_loop (Suc n) h l lt m e =
     (if e = list_end l then Inr m
      else let m' = (if lt e m then e else m)
           in bnd (list_next h e) (\<lambda>e. min_loop n h l lt m' e))"

definition list_min :: "nat \<Rightarrow> heap \<Rightarrow> klist \<Rightarrow> less_fn \<Rightarrow> ptr res" where
  "list_min fuel h l lt =
     bnd (list_begin h l) (\<lambda>m.
     if m \<noteq> list_end l then bnd (list_next h m) (\<lambda>e. min_loop fuel h l lt m e)
     else Inr m)"

section \<open>The comparison contract\<close>

locale less_func =
  fixes lt :: "'e \<Rightarrow> 'e \<Rightarrow> bool"
  assumes less_asym: "lt a b \<Longrightarrow> \<not> lt b a"
    and less_negtrans: "\<not> lt a b \<Longrightarrow> \<not> lt b c \<Longrightarrow> \<not> lt a c"
begin

lemma less_irrefl: "\<not> lt a a"
  using less_asym by blast

lemma less_trans: "lt a b \<Longrightarrow> lt b c \<Longrightarrow> lt a c"
  using less_asym less_negtrans by blast

end

section \<open>The routines as functions on sequences\<close>

text \<open>\<open>adj lt xs\<close>: no element is less than its predecessor (what \<open>is_sorted\<close> tests).\<close>

fun adj :: "('e \<Rightarrow> 'e \<Rightarrow> bool) \<Rightarrow> 'e list \<Rightarrow> bool" where
  "adj lt (x # y # zs) = (\<not> lt y x \<and> adj lt (y # zs))"
| "adj lt _ = True"

fun run_rest :: "('e \<Rightarrow> 'e \<Rightarrow> bool) \<Rightarrow> 'e \<Rightarrow> 'e list \<Rightarrow> 'e list" where
  "run_rest lt x [] = []"
| "run_rest lt x (y # ys) = (if lt y x then y # ys else run_rest lt y ys)"

fun run_of :: "('e \<Rightarrow> 'e \<Rightarrow> bool) \<Rightarrow> 'e \<Rightarrow> 'e list \<Rightarrow> 'e list" where
  "run_of lt x [] = [x]"
| "run_of lt x (y # ys) = (if lt y x then [x] else x # run_of lt y ys)"

fun merge_seq :: "('e \<Rightarrow> 'e \<Rightarrow> bool) \<Rightarrow> 'e list \<Rightarrow> 'e list \<Rightarrow> 'e list" where
  "merge_seq lt (x # xs) (y # ys) =
     (if \<not> lt y x then x # merge_seq lt xs (y # ys) else y # merge_seq lt (x # xs) ys)"
| "merge_seq lt [] ys = ys"
| "merge_seq lt xs [] = xs"

lemma run_split: "run_of lt x xs @ run_rest lt x xs = x # xs"
  by (induction lt x xs rule: run_rest.induct) auto

lemma run_of_ne [simp]: "run_of lt x xs \<noteq> []"
  by (cases xs) auto

lemma run_rest_length [termination_simp]: "length (run_rest lt x xs) \<le> length xs"
  by (induction lt x xs rule: run_rest.induct) auto

function pass_seq :: "('e \<Rightarrow> 'e \<Rightarrow> bool) \<Rightarrow> 'e list \<Rightarrow> 'e list \<times> nat" where
  "pass_seq lt [] = ([], 0)"
| "pass_seq lt (x # xs) =
     (case run_rest lt x xs of
        [] \<Rightarrow> (x # xs, 1)
      | y # ys \<Rightarrow>
          (let (out, n) = pass_seq lt (run_rest lt y ys)
           in (merge_seq lt (run_of lt x xs) (run_of lt y ys) @ out, Suc n)))"
  by pat_completeness auto
termination
proof (relation "measure (\<lambda>(lt, xs). length xs)", simp)
  fix lt :: "'e \<Rightarrow> 'e \<Rightarrow> bool" and x y :: 'e and xs ys
  assume "run_rest lt x xs = y # ys"
  then have "length (y # ys) \<le> length xs" using run_rest_length[of lt x xs] by simp
  then show "((lt, run_rest lt y ys), lt, x # xs) \<in> measure (\<lambda>(lt, xs). length xs)"
    using run_rest_length[of lt y ys] by simp
qed

section \<open>The pointer routines compute these functions\<close>

lemma range_end_notin:
  assumes "dll h l (ps @ ms @ zs)"
  shows "hd (zs @ [tail l]) \<notin> set ms" and "hd (zs @ [tail l]) \<noteq> NULL"
proof -
  have "hd (zs @ [tail l]) \<in> set (chain l (ps @ ms @ zs))" by (cases zs) auto
  then have "valid h (hd (zs @ [tail l]))" by (rule dll_valid[OF assms])
  then show "hd (zs @ [tail l]) \<noteq> NULL" by auto
  show "hd (zs @ [tail l]) \<notin> set ms" using assms by (cases zs) (auto simp: dll_def)
qed

lemma range_start_ne_end:
  assumes "dll h l (ps @ ms @ zs)"
  shows "(hd (ms @ zs @ [tail l]) = hd (zs @ [tail l])) = (ms = [])"
  using range_end_notin(1)[OF assms] by (cases ms) auto

lemma dll_step:
  assumes "dll h l (ps @ x # y # ys)"
  shows "list_next h x = Inr y" and "list_prev h y = Inr x"
  using dll_next[of h l ps x "y # ys"] dll_prev[of h l "ps @ [x]" "y # ys"] assms by simp_all

lemma is_sorted_loop_adj:
  assumes "dll h l (ps @ x # xs @ zs)" and "length xs < fuel"
  shows "is_sorted_loop fuel h lt x (hd (zs @ [tail l])) = Inr (adj lt (x # xs))"
  using assms
proof (induction xs arbitrary: ps x fuel)
  case Nil
  then show ?case using dll_next[of h l ps x zs] by (cases fuel) simp_all
next
  case (Cons y xs)
  then obtain f where f: "fuel = Suc f" by (cases fuel) auto
  have "hd (zs @ [tail l]) \<noteq> y"
    using range_end_notin(1)[of h l "ps @ [x]" "y # xs" zs] Cons.prems(1) by auto
  then show ?case
    using Cons.IH[of "ps @ [x]" y f] Cons.prems f dll_step[of h l ps x y "xs @ zs"] by simp
qed

lemma is_sorted_adj:
  assumes "dll h l (ps @ ms @ zs)" and "length ms \<le> fuel"
  shows "is_sorted fuel h lt (hd (ms @ zs @ [tail l])) (hd (zs @ [tail l])) = Inr (adj lt ms)"
proof (cases ms)
  case Nil
  then show ?thesis by (simp add: is_sorted_def)
next
  case (Cons x xs)
  have "x \<noteq> hd (zs @ [tail l])" using range_end_notin(1)[OF assms(1)] Cons by auto
  with is_sorted_loop_adj[of h l ps x xs zs fuel lt] assms Cons show ?thesis
    by (simp add: is_sorted_def)
qed

lemma find_end_loop_run:
  assumes "dll h l (ps @ x # xs)" and "length xs < fuel"
  shows "find_end_loop fuel h lt x (tail l) = Inr (hd (run_rest lt x xs @ [tail l]))"
  using assms
proof (induction xs arbitrary: ps x fuel)
  case Nil
  then show ?case using dll_next[of h l ps x "[]"] by (cases fuel) simp_all
next
  case (Cons y xs)
  then obtain f where f: "fuel = Suc f" by (cases fuel) auto
  have "y \<noteq> tail l" using Cons.prems(1) by (auto simp: dll_def)
  then show ?case
    using Cons.IH[of "ps @ [x]" y f] Cons.prems f dll_step[of h l ps x y xs] by simp
qed

lemma find_end_of_run_seq:
  assumes "dll h l (ps @ x # xs)" and "length xs < fuel"
  shows "find_end_of_run fuel h lt x (list_end l) = Inr (hd (run_rest lt x xs @ [tail l]))"
proof -
  have "valid h x" "valid h (tail l)" by (auto intro: dll_valid[OF assms(1)])
  then have "x \<noteq> NULL" "tail l \<noteq> NULL" by auto
  moreover have "x \<noteq> tail l" using assms(1) by (auto simp: dll_def)
  ultimately show ?thesis
    using find_end_loop_run[OF assms] by (simp add: find_end_of_run_def list_end_def)
qed

lemma merge_loop_seq:
  assumes "dll h l (ps @ xs @ ys @ zs)" and "length xs + length ys < fuel"
  shows "\<exists>h'. merge_loop fuel h lt (hd (xs @ ys @ zs @ [tail l])) (hd (ys @ zs @ [tail l]))
      (hd (zs @ [tail l])) = Inr h' \<and> dll h' l (ps @ merge_seq lt xs ys @ zs)
    \<and> frame (set (chain l (ps @ xs @ ys @ zs))) h h'"
  using assms
proof (induction lt xs ys arbitrary: ps h fuel rule: merge_seq.induct)
  case (1 lt x xs y ys)
  obtain f where f: "fuel = Suc f" using 1(4) by (cases fuel) auto
  have ne: "x \<noteq> y" "y \<noteq> hd (zs @ [tail l])"
    using 1(3) range_end_notin(1)[of h l "ps @ x # xs" "y # ys" zs] by (auto simp: dll_def)
  show ?case
  proof (cases "lt y x")
    case False
    have "list_next h x = Inr (hd (xs @ y # ys @ zs @ [tail l]))"
      using dll_next[of h l ps x "xs @ (y # ys) @ zs"] 1(3) by simp
    with 1(1)[of h "ps @ [x]" f] 1(3,4) f False ne show ?thesis by simp
  next
    case True
    let ?a = "hd (ys @ zs @ [tail l])"
    have d: "dll h l (ps @ x # xs @ [y] @ ys @ zs)" using 1(3) by simp
    obtain h1 where h1: "list_splice h x y ?a = Inr h1" "dll h1 l (ps @ [y] @ x # xs @ ys @ zs)"
      "frame (set (chain l (ps @ x # xs @ [y] @ ys @ zs))) h h1"
      using dll_splice[OF d] by auto
    have "list_next h y = Inr ?a" "list_prev h ?a = Inr y"
      using dll_next[of h l "ps @ x # xs" y "ys @ zs"] dll_prev[of h l "ps @ x # xs @ [y]" "ys @ zs"]
        1(3) by simp_all
    moreover obtain h2 where h2: "merge_loop f h1 lt x ?a (hd (zs @ [tail l])) = Inr h2"
      "dll h2 l ((ps @ [y]) @ merge_seq lt (x # xs) ys @ zs)"
      "frame (set (chain l ((ps @ [y]) @ (x # xs) @ ys @ zs))) h1 h2"
      using 1(2)[of h1 "ps @ [y]" f] h1(2) 1(4) f True by auto
    moreover have "set (chain l ((ps @ [y]) @ (x # xs) @ ys @ zs))
      = set (chain l (ps @ (x # xs) @ (y # ys) @ zs))" by auto
    then have "frame (set (chain l (ps @ (x # xs) @ (y # ys) @ zs))) h h2"
      using frame_trans[of _ h h1 h2] h1(3) h2(3) by simp
    ultimately show ?thesis using f True ne h1(1) by simp
  qed
next
  case (2 lt ys)
  then show ?case by (cases fuel) simp_all
next
  case (3 lt x xs)
  then show ?case by (cases fuel) simp_all
qed

lemma inplace_merge_seq:
  assumes "dll h l (ps @ xs @ ys @ zs)" and "length xs + length ys < fuel"
    and "adj lt xs" and "adj lt ys"
  shows "\<exists>h'. inplace_merge fuel h lt (hd (xs @ ys @ zs @ [tail l])) (hd (ys @ zs @ [tail l]))
      (hd (zs @ [tail l])) = Inr h' \<and> dll h' l (ps @ merge_seq lt xs ys @ zs)
    \<and> frame (set (chain l (ps @ xs @ ys @ zs))) h h'"
proof -
  have nn: "hd (xs @ ys @ zs @ [tail l]) \<noteq> NULL" "hd (ys @ zs @ [tail l]) \<noteq> NULL"
    "hd (zs @ [tail l]) \<noteq> NULL"
    using range_end_notin(2)[of h l ps "[]" "xs @ ys @ zs"]
      range_end_notin(2)[of h l ps xs "ys @ zs"]
      range_end_notin(2)[of h l "ps @ xs" ys zs] assms(1) by simp_all
  have "is_sorted fuel h lt (hd (xs @ ys @ zs @ [tail l])) (hd (ys @ zs @ [tail l])) = Inr True"
    "is_sorted fuel h lt (hd (ys @ zs @ [tail l])) (hd (zs @ [tail l])) = Inr True"
    using is_sorted_adj[of h l ps xs "ys @ zs" fuel lt] is_sorted_adj[of h l "ps @ xs" ys zs fuel lt]
      assms by simp_all
  with nn merge_loop_seq[OF assms(1,2), of lt] show ?thesis by (simp add: inplace_merge_def)
qed

lemma adj_run_of: "adj lt (run_of lt x xs)"
proof (induction lt x xs rule: run_of.induct)
  case (2 lt x y ys)
  then show ?case by (cases ys) auto
qed simp

lemma mset_merge_seq: "mset (merge_seq lt xs ys) = mset xs + mset ys"
  by (induction lt xs ys rule: merge_seq.induct) auto

lemma set_merge_seq: "set (merge_seq lt xs ys) = set xs \<union> set ys"
  using mset_merge_seq[of lt xs ys] by (metis set_mset_mset set_mset_union)

lemma two_runs:
  assumes d: "dll h l (ps @ x # xs)" and rr: "run_rest lt x xs = y # ys" and f: "length (x # xs) < fuel"
  defines "zs \<equiv> run_rest lt y ys"
    and "out \<equiv> merge_seq lt (run_of lt x xs) (run_of lt y ys)"
  shows "find_end_of_run fuel h lt y (list_end l) = Inr (hd (zs @ [tail l]))"
    and "\<exists>h1. inplace_merge fuel h lt x y (hd (zs @ [tail l])) = Inr h1 \<and> dll h1 l (ps @ out @ zs)
      \<and> frame (set (chain l (ps @ x # xs))) h h1"
    and "y \<noteq> tail l" and "length zs < length xs" and "set out \<union> set zs = set (x # xs)"
proof -
  define r1 r2 where "r1 = run_of lt x xs" and "r2 = run_of lt y ys"
  have s1: "r1 @ y # ys = x # xs" and s2: "r2 @ zs = y # ys"
    using run_split[of lt x xs] run_split[of lt y ys] rr by (simp_all add: r1_def r2_def zs_def)
  have d1: "dll h l ((ps @ r1) @ y # ys)" and d2: "dll h l (ps @ r1 @ r2 @ zs)"
    using d s1 s2 by (metis append.assoc)+
  have xs: "x # xs = r1 @ r2 @ zs" using s1 s2 by simp
  then have len: "Suc (length xs) = length r1 + length r2 + length zs"
    by (metis add.assoc length_Cons length_append)
  have "length (y # ys) = length r2 + length zs" by (simp only: s2[symmetric] length_append)
  then have ly: "length ys < fuel" using f len by simp
  show "find_end_of_run fuel h lt y (list_end l) = Inr (hd (zs @ [tail l]))"
    using find_end_of_run_seq[OF d1 ly, of lt] by (simp only: zs_def)
  have h1: "hd (r1 @ r2 @ zs @ [tail l]) = x" and h2: "hd (r2 @ zs @ [tail l]) = y"
    by (metis append_Cons list.sel(1) xs s2 append.assoc)+
  have "length r1 + length r2 < fuel" using len f by simp
  note M = inplace_merge_seq[OF d2 this adj_run_of[of lt x xs, folded r1_def]
      adj_run_of[of lt y ys, folded r2_def], unfolded h1 h2, folded xs]
  show "\<exists>h1. inplace_merge fuel h lt x y (hd (zs @ [tail l])) = Inr h1 \<and> dll h1 l (ps @ out @ zs)
      \<and> frame (set (chain l (ps @ x # xs))) h h1"
    using M unfolding out_def r1_def r2_def .
  show "y \<noteq> tail l" using d1 by (auto simp: dll_def)
  show "length zs < length xs"
    using len length_greater_0_conv[of r1] length_greater_0_conv[of r2]
    by (simp add: r1_def r2_def del: length_greater_0_conv)
  show "set out \<union> set zs = set (x # xs)"
    unfolding xs out_def by (simp add: set_merge_seq r1_def r2_def Un_assoc)
qed

lemma sort_pass_seq:
  assumes "dll h l (ps @ xs)" and "length xs < n" and "length xs < fuel"
  shows "\<exists>h'. sort_pass n fuel h l lt (hd (xs @ [tail l])) c
      = Inr (c + of_nat (snd (pass_seq lt xs)), h')
    \<and> dll h' l (ps @ fst (pass_seq lt xs)) \<and> frame (set (chain l (ps @ xs))) h h'"
  using assms
proof (induction lt xs arbitrary: ps h n c rule: pass_seq.induct)
  case (1 lt)
  then show ?case by (cases n) (simp_all add: list_end_def)
next
  case (2 lt x xs)
  obtain k where n: "n = Suc k" using 2(3) by (cases n) auto
  have xt: "x \<noteq> tail l" using 2(2) by (auto simp: dll_def)
  have fe: "find_end_of_run fuel h lt x (list_end l) = Inr (hd (run_rest lt x xs @ [tail l]))"
    using find_end_of_run_seq[OF 2(2)] 2(4) by simp
  show ?case
  proof (cases "run_rest lt x xs")
    case Nil
    then show ?thesis using n fe xt 2(2) by (auto simp: list_end_def)
  next
    case (Cons y ys)
    define zs out where "zs = run_rest lt y ys"
      and "out = merge_seq lt (run_of lt x xs) (run_of lt y ys)"
    note T = two_runs[OF 2(2) Cons 2(4), folded zs_def out_def]
    obtain h1 where h1: "inplace_merge fuel h lt x y (hd (zs @ [tail l])) = Inr h1"
      "dll h1 l ((ps @ out) @ zs)" "frame (set (chain l (ps @ x # xs))) h h1" using T(2) by auto
    obtain h2 where h2: "sort_pass k fuel h1 l lt (hd (zs @ [tail l])) (c + 1)
        = Inr (c + 1 + of_nat (snd (pass_seq lt zs)), h2)"
      "dll h2 l ((ps @ out) @ fst (pass_seq lt zs))"
      "frame (set (chain l ((ps @ out) @ zs))) h1 h2"
    proof -
      have "length zs < k" "length zs < fuel" using T(4) 2(3,4) n by simp_all
      from 2(1)[OF Cons, folded zs_def, OF h1(2) this] that show thesis by blast
    qed
    have "set (chain l ((ps @ out) @ zs)) = set (chain l (ps @ x # xs))"
      using T(5) by auto
    then have "frame (set (chain l (ps @ x # xs))) h h2"
      using frame_trans[OF h1(3)] h2(3) by simp
    moreover have "sort_pass n fuel h l lt x c = Inr (c + of_nat (snd (pass_seq lt (x # xs))), h2)"
      using n xt T(1,3) fe Cons h1(1) h2(1)
      by (simp add: list_end_def zs_def case_prod_beta Let_def)
    moreover have "fst (pass_seq lt (x # xs)) = out @ fst (pass_seq lt zs)"
      by (simp add: Cons zs_def out_def case_prod_beta Let_def)
    ultimately show ?thesis using h2(2) by simp
  qed
qed

section \<open>The sequence functions sort\<close>

text \<open>\<open>nruns\<close> counts the maximal nondecreasing runs, which is what a pass halves.\<close>

fun nruns :: "('e \<Rightarrow> 'e \<Rightarrow> bool) \<Rightarrow> 'e list \<Rightarrow> nat" where
  "nruns lt [] = 0"
| "nruns lt [x] = 1"
| "nruns lt (x # y # zs) = (if lt y x then 1 else 0) + nruns lt (y # zs)"

lemma nruns_run_rest: "nruns lt (x # xs) = Suc (nruns lt (run_rest lt x xs))"
  by (induction lt x xs rule: run_rest.induct) auto

lemma nruns_le_length: "nruns lt xs \<le> length xs"
  by (induction lt xs rule: nruns.induct) auto

lemma nruns_append: "nruns lt (xs @ ys) \<le> nruns lt xs + nruns lt ys"
proof (induction lt xs rule: nruns.induct)
  case (2 lt x)
  then show ?case by (cases ys) auto
qed auto

lemma adj_nruns: "adj lt xs \<longleftrightarrow> nruns lt xs \<le> 1"
proof (induction lt xs rule: nruns.induct)
  case (3 lt x y zs)
  have "0 < nruns lt (y # zs)" by (simp add: nruns_run_rest)
  with 3 show ?case by auto
qed auto

lemma pass_seq_count: "snd (pass_seq lt xs) = (nruns lt xs + 1) div 2"
proof (induction lt xs rule: pass_seq.induct)
  case (2 lt x xs)
  show ?case
  proof (cases "run_rest lt x xs")
    case (Cons y ys)
    with 2[OF Cons] show ?thesis
      by (simp add: nruns_run_rest[of lt x xs] nruns_run_rest[of lt y ys] case_prod_beta)
  qed (simp add: nruns_run_rest)
qed simp

lemma mset_pass_seq: "mset (fst (pass_seq lt xs)) = mset xs"
proof (induction lt xs rule: pass_seq.induct)
  case (2 lt x xs)
  show ?case
  proof (cases "run_rest lt x xs")
    case (Cons y ys)
    have "mset (x # xs) = mset (run_of lt x xs) + mset (y # ys)"
      using run_split[of lt x xs] Cons by (metis mset_append)
    moreover have "mset (y # ys) = mset (run_of lt y ys) + mset (run_rest lt y ys)"
      by (metis mset_append run_split)
    ultimately show ?thesis
      using 2[OF Cons] Cons by (simp add: case_prod_beta mset_merge_seq del: mset.simps)
  qed simp
qed simp

text \<open>The elements that \<open>lt\<close> does not tell apart from \<open>c\<close>.\<close>

definition equiv_to :: "('e \<Rightarrow> 'e \<Rightarrow> bool) \<Rightarrow> 'e \<Rightarrow> 'e \<Rightarrow> bool" where
  "equiv_to lt c e \<longleftrightarrow> \<not> lt e c \<and> \<not> lt c e"

abbreviation ordered :: "('e \<Rightarrow> 'e \<Rightarrow> bool) \<Rightarrow> 'e list \<Rightarrow> bool" where
  "ordered lt xs \<equiv> sorted_wrt (\<lambda>a b. \<not> lt b a) xs"

context less_func
begin

lemma adj_ordered: "adj lt xs \<longleftrightarrow> ordered lt xs"
proof (induction xs)
  case (Cons x xs)
  show ?case
  proof (cases xs)
    case (Cons y zs)
    with Cons.IH show ?thesis by (auto dest: less_negtrans[of _ y x])
  qed simp
qed simp

lemma merge_seq_ordered:
  "ordered lt xs \<Longrightarrow> ordered lt ys \<Longrightarrow> ordered lt (merge_seq lt xs ys)"
proof (induction xs arbitrary: ys)
  case (Cons x xs)
  note IH = Cons.IH
  show ?case
    using Cons.prems
  proof (induction ys)
    case (Cons y ys)
    show ?case
    proof (cases "lt y x")
      case True
      have "\<not> lt e y" if "e \<in> set xs" for e
        using True Cons.prems(1) that less_asym less_negtrans by (metis sorted_wrt.simps(2))
      with Cons True show ?thesis by (auto simp: set_merge_seq dest: less_asym)
    next
      case False
      with Cons.prems have "\<not> lt e x" if "e \<in> set ys" for e
        using that less_negtrans[of e y x] by auto
      with Cons.prems IH[of "y # ys"] False show ?thesis by (auto simp: set_merge_seq)
    qed
  qed simp
qed simp

lemma merge_seq_stable:
  "ordered lt xs \<Longrightarrow> ordered lt ys \<Longrightarrow>
    filter (equiv_to lt c) (merge_seq lt xs ys)
      = filter (equiv_to lt c) xs @ filter (equiv_to lt c) ys"
proof (induction xs arbitrary: ys)
  case (Cons x xs)
  note IH = Cons.IH
  show ?case
    using Cons.prems
  proof (induction ys)
    case (Cons y ys)
    show ?case
    proof (cases "lt y x")
      case True
      have "filter (equiv_to lt c) (x # xs) = []" if "equiv_to lt c y"
      proof -
        have "\<not> equiv_to lt c e" if e: "e \<in> set (x # xs)" for e
        proof
          assume "equiv_to lt c e"
          with \<open>equiv_to lt c y\<close> have "\<not> lt y e"
            unfolding equiv_to_def using less_negtrans by blast
          moreover have "\<not> lt e x" using e Cons.prems(1) less_irrefl by auto
          ultimately show False using True less_negtrans by blast
        qed
        then show ?thesis by (simp add: filter_empty_conv)
      qed
      with Cons True show ?thesis by auto
    qed (use Cons IH in auto)
  qed simp
qed simp

lemma nruns_pass_seq: "nruns lt (fst (pass_seq lt xs)) \<le> snd (pass_seq lt xs)"
proof (induction xs rule: length_induct)
  case (1 xs)
  show ?case
  proof (cases xs)
    case (Cons x zs)
    show ?thesis
    proof (cases "run_rest lt x zs")
      case Nil
      then show ?thesis using Cons nruns_run_rest[of lt x zs] by simp
    next
      case (Cons y ys)
      let ?m = "merge_seq lt (run_of lt x zs) (run_of lt y ys)" and ?r = "run_rest lt y ys"
      have "length ?r < length xs"
        using run_rest_length[of lt x zs] run_rest_length[of lt y ys] Cons \<open>xs = x # zs\<close> by simp
      with 1 have "nruns lt (fst (pass_seq lt ?r)) \<le> snd (pass_seq lt ?r)" by blast
      moreover have "nruns lt ?m \<le> 1"
        using merge_seq_ordered[of "run_of lt x zs" "run_of lt y ys"]
          adj_run_of[of lt x zs] adj_run_of[of lt y ys]
        unfolding adj_ordered[symmetric] adj_nruns by blast
      ultimately show ?thesis
        using nruns_append[of lt ?m "fst (pass_seq lt ?r)"] Cons \<open>xs = x # zs\<close>
        by (simp add: case_prod_beta)
    qed
  qed simp
qed

lemma pass_seq_stable:
  "filter (equiv_to lt c) (fst (pass_seq lt xs)) = filter (equiv_to lt c) xs"
proof (induction xs rule: length_induct)
  case (1 xs)
  show ?case
  proof (cases xs)
    case (Cons x zs)
    show ?thesis
    proof (cases "run_rest lt x zs")
      case (Cons y ys)
      let ?a = "run_of lt x zs" and ?b = "run_of lt y ys" and ?r = "run_rest lt y ys"
      have "length ?r < length xs"
        using run_rest_length[of lt x zs] run_rest_length[of lt y ys] Cons \<open>xs = x # zs\<close> by simp
      with 1 have r: "filter (equiv_to lt c) (fst (pass_seq lt ?r)) = filter (equiv_to lt c) ?r"
        by blast
      have "xs = ?a @ ?b @ ?r"
        using run_split[of lt x zs] run_split[of lt y ys] Cons \<open>xs = x # zs\<close> by simp
      then have "filter (equiv_to lt c) xs
          = filter (equiv_to lt c) ?a @ filter (equiv_to lt c) ?b @ filter (equiv_to lt c) ?r"
        by (metis filter_append)
      moreover have "filter (equiv_to lt c) (merge_seq lt ?a ?b)
          = filter (equiv_to lt c) ?a @ filter (equiv_to lt c) ?b"
        by (rule merge_seq_stable; simp add: adj_ordered[symmetric] adj_run_of)
      ultimately show ?thesis
        using r Cons \<open>xs = x # zs\<close> by (simp add: case_prod_beta del: filter.simps)
    qed (use Cons in simp)
  qed simp
qed

end

section \<open>Sorting a list in memory\<close>

text \<open>The elements have distinct 32-bit addresses, so their number fits into \<open>size_t\<close>.\<close>

lemma dll_length: "dll h l xs \<Longrightarrow> length xs < 2 ^ 32"
proof -
  assume "dll h l xs"
  then have "distinct (tail l # xs)" by (auto simp: dll_def)
  then have "length (tail l # xs) = card (set (tail l # xs))" by (metis distinct_card)
  also have "\<dots> \<le> card (UNIV :: ptr set)" by (rule card_mono) simp_all
  finally show ?thesis by (simp add: card_word)
qed

lemma size_t_gt1: "n < 2 ^ 32 \<Longrightarrow> (1 < (of_nat n :: size_t)) = (1 < n)"
  by (simp add: word_less_nat_alt unat_of_nat take_bit_nat_eq_self_iff take_bit_nat_eq_self)

lemma sort_pass_full:
  assumes "dll h l xs" and "length xs < fuel"
  shows "\<exists>h1. sort_pass fuel fuel h l lt (hd (xs @ [tail l])) 0
      = Inr (of_nat (snd (pass_seq lt xs)), h1) \<and> dll h1 l (fst (pass_seq lt xs))
    \<and> frame (set (chain l xs)) h h1"
    and "(1 < (of_nat (snd (pass_seq lt xs)) :: size_t)) = (1 < snd (pass_seq lt xs))"
proof -
  show "\<exists>h1. sort_pass fuel fuel h l lt (hd (xs @ [tail l])) 0
      = Inr (of_nat (snd (pass_seq lt xs)), h1) \<and> dll h1 l (fst (pass_seq lt xs))
    \<and> frame (set (chain l xs)) h h1"
    using sort_pass_seq[of h l "[]" xs fuel fuel lt 0] assms by simp
  have "snd (pass_seq lt xs) < 2 ^ 32"
    using nruns_le_length[of lt xs] dll_length[OF assms(1)] by (simp add: pass_seq_count)
  then show "(1 < (of_nat (snd (pass_seq lt xs)) :: size_t)) = (1 < snd (pass_seq lt xs))"
    by (rule size_t_gt1)
qed

lemma sort_loop_sorts:
  assumes L: "less_func lt"
  shows "dll h l xs \<Longrightarrow> length xs < fuel \<Longrightarrow> nruns lt xs \<le> 2 ^ k \<Longrightarrow> k < passes \<Longrightarrow>
    \<exists>h' ys. sort_loop passes fuel h l lt = Inr h' \<and> dll h' l ys \<and> mset ys = mset xs \<and>
    adj lt ys \<and> (\<forall>c. filter (equiv_to lt c) ys = filter (equiv_to lt c) xs) \<and>
    frame (set (chain l xs)) h h'"
proof (induction k arbitrary: h xs passes)
  case (0 h xs passes)
  then obtain n where n: "passes = Suc n" by (cases passes) auto
  let ?p = "fst (pass_seq lt xs)"
  obtain h1 where h1: "sort_pass fuel fuel h l lt (hd (xs @ [tail l])) 0
      = Inr (of_nat (snd (pass_seq lt xs)), h1)" "dll h1 l ?p" "frame (set (chain l xs)) h h1"
    using sort_pass_full(1)[of h l xs fuel lt] 0 by blast
  have c: "snd (pass_seq lt xs) \<le> 1" using 0 by (simp add: pass_seq_count)
  then have "adj lt ?p" using less_func.nruns_pass_seq[OF L, of xs] by (simp add: adj_nruns)
  moreover have "sort_loop passes fuel h l lt = Inr h1"
    using n c h1(1) dll_reads(1)[of h l xs] sort_pass_full(2)[of h l xs fuel lt] 0 by simp
  ultimately show ?case
    using h1 mset_pass_seq[of lt xs] less_func.pass_seq_stable[OF L, of _ xs] by blast
next
  case (Suc k h xs passes)
  then obtain n where n: "passes = Suc n" by (cases passes) auto
  let ?p = "fst (pass_seq lt xs)"
  obtain h1 where h1: "sort_pass fuel fuel h l lt (hd (xs @ [tail l])) 0
      = Inr (of_nat (snd (pass_seq lt xs)), h1)" "dll h1 l ?p" "frame (set (chain l xs)) h h1"
    using sort_pass_full(1)[of h l xs fuel lt] Suc.prems by blast
  have ms: "mset ?p = mset xs" and set: "set ?p = set xs" and len: "length ?p = length xs"
    using mset_pass_seq[of lt xs] by (auto dest: mset_eq_setD mset_eq_length)
  have st: "filter (equiv_to lt c) ?p = filter (equiv_to lt c) xs" for c
    by (rule less_func.pass_seq_stable[OF L])
  have nr: "nruns lt ?p \<le> 2 ^ k"
    using less_func.nruns_pass_seq[OF L, of xs] Suc.prems(3) by (simp add: pass_seq_count)
  have rd: "list_begin h l = Inr (hd (xs @ [tail l]))" by (rule dll_reads(1)[OF Suc.prems(1)])
  show ?case
  proof (cases "1 < snd (pass_seq lt xs)")
    case True
    have "k < n" "length ?p < fuel" using Suc.prems n len by simp_all
    from Suc.IH[OF h1(2) this(2) nr this(1)] obtain h2 ys where
      h2: "sort_loop n fuel h1 l lt = Inr h2" "dll h2 l ys" "mset ys = mset ?p" "adj lt ys"
        "\<forall>c. filter (equiv_to lt c) ys = filter (equiv_to lt c) ?p" "frame (set (chain l ?p)) h1 h2"
      by blast
    have "sort_loop passes fuel h l lt = Inr h2"
      using n rd h1(1) h2(1) True sort_pass_full(2)[OF Suc.prems(1,2), of lt] by simp
    moreover have "frame (set (chain l xs)) h h2"
      using frame_trans[OF h1(3)] h2(6) set by simp
    ultimately show ?thesis using h2 ms st by (metis (no_types, lifting))
  next
    case False
    then have "adj lt ?p" using less_func.nruns_pass_seq[OF L, of xs] by (simp add: adj_nruns)
    moreover have "sort_loop passes fuel h l lt = Inr h1"
      using n rd h1(1) False sort_pass_full(2)[OF Suc.prems(1,2), of lt] by simp
    ultimately show ?thesis using h1 ms st by blast
  qed
qed

lemma list_sort_sorts:
  assumes L: "less_func lt" and d: "dll h l xs" and "length xs < fuel" and "length xs \<le> 2 ^ k"
    and "k < passes"
  shows "\<exists>h' ys. list_sort passes fuel h l lt = Inr h' \<and> dll h' l ys \<and> mset ys = mset xs \<and>
    ordered lt ys \<and> (\<forall>c. filter (equiv_to lt c) ys = filter (equiv_to lt c) xs) \<and>
    frame (set (chain l xs)) h h'"
proof -
  have "nruns lt xs \<le> 2 ^ k" using assms(4) nruns_le_length[of lt xs] by simp
  from sort_loop_sorts[OF L d assms(3) this assms(5)] obtain h' ys where
    h': "sort_loop passes fuel h l lt = Inr h'" "dll h' l ys" "mset ys = mset xs" "adj lt ys"
      "\<forall>c. filter (equiv_to lt c) ys = filter (equiv_to lt c) xs" "frame (set (chain l xs)) h h'"
    by blast
  have "length ys \<le> fuel" using mset_eq_length[OF h'(3)] assms(3) by simp
  then have "is_sorted fuel h' lt (hd (ys @ [tail l])) (tail l) = Inr True"
    using is_sorted_adj[of h' l "[]" ys "[]" fuel lt] h'(2,4) by simp
  then have "list_sort passes fuel h l lt = Inr h'"
    using h'(1) dll_reads(1)[OF h'(2)] by (simp add: list_sort_def list_end_def)
  then show ?thesis using h' less_func.adj_ordered[OF L, of ys] by blast
qed

section \<open>Ordered insertion, duplicates, extrema\<close>

lemma insert_ordered_loop_seq:
  assumes "dll h l (ps @ xs)" and "length xs < fuel"
  shows "insert_ordered_loop fuel h l elem lt (hd (xs @ [tail l]))
    = Inr (hd (dropWhile (\<lambda>e. \<not> lt elem e) xs @ [tail l]))"
  using assms
proof (induction xs arbitrary: ps fuel)
  case Nil
  then show ?case by (cases fuel) (simp_all add: list_end_def)
next
  case (Cons x xs)
  then obtain f where f: "fuel = Suc f" by (cases fuel) auto
  have "x \<noteq> tail l" using Cons.prems(1) by (auto simp: dll_def)
  then show ?case
    using Cons.IH[of "ps @ [x]" f] Cons.prems f dll_next[OF Cons.prems(1)]
    by (simp add: list_end_def)
qed

definition insort_seq :: "('e \<Rightarrow> 'e \<Rightarrow> bool) \<Rightarrow> 'e \<Rightarrow> 'e list \<Rightarrow> 'e list" where
  "insort_seq lt e xs = takeWhile (\<lambda>x. \<not> lt e x) xs @ e # dropWhile (\<lambda>x. \<not> lt e x) xs"

lemma list_insert_ordered_seq:
  assumes "dll h l xs" and "e \<notin> set (chain l xs)" and "valid h e" and "length xs < fuel"
  shows "\<exists>h'. list_insert_ordered fuel h l e lt = Inr h' \<and> dll h' l (insort_seq lt e xs)
    \<and> frame (insert e (set (chain l xs))) h h'"
proof -
  let ?P = "\<lambda>x. \<not> lt e x"
  have "e \<noteq> NULL" using assms(3) by auto
  moreover have "insert_ordered_loop fuel h l e lt (hd (xs @ [tail l]))
      = Inr (hd (dropWhile ?P xs @ [tail l]))"
    using insert_ordered_loop_seq[of h l "[]" xs fuel e lt] assms by simp
  ultimately show ?thesis
    using dll_insert[of h l "takeWhile ?P xs" "dropWhile ?P xs" e] assms dll_reads(1)[OF assms(1)]
    by (simp add: list_insert_ordered_def insort_seq_def del: set_append set_simps)
qed

context less_func
begin

lemma insort_seq_ordered: "ordered lt xs \<Longrightarrow> ordered lt (insort_seq lt e xs)"
proof (induction xs)
  case (Cons x xs)
  show ?case
  proof (cases "lt e x")
    case True
    have "\<not> lt y e" if "y \<in> set xs" for y
      using True Cons.prems that less_asym less_negtrans by (metis sorted_wrt.simps(2))
    with True Cons.prems show ?thesis by (auto simp: insort_seq_def dest: less_asym)
  next
    case False
    have "set (insort_seq lt e xs) = insert e (set xs)"
      unfolding insort_seq_def by (metis Un_insert_right list.simps(15) set_append takeWhile_dropWhile_id)
    moreover have "insort_seq lt e (x # xs) = x # insort_seq lt e xs"
      using False by (simp add: insort_seq_def)
    ultimately show ?thesis using False Cons by simp
  qed
qed (simp add: insort_seq_def)

end

text \<open>\<open>uniq_seq\<close> keeps the first of each group of adjacent equivalent elements, \<open>dup_seq\<close>
  collects the others in order.\<close>

fun uniq_seq :: "('e \<Rightarrow> 'e \<Rightarrow> bool) \<Rightarrow> 'e \<Rightarrow> 'e list \<Rightarrow> 'e list" where
  "uniq_seq lt x [] = [x]"
| "uniq_seq lt x (y # ys) =
     (if equiv_to lt y x then uniq_seq lt x ys else x # uniq_seq lt y ys)"

fun dup_seq :: "('e \<Rightarrow> 'e \<Rightarrow> bool) \<Rightarrow> 'e \<Rightarrow> 'e list \<Rightarrow> 'e list" where
  "dup_seq lt x [] = []"
| "dup_seq lt x (y # ys) =
     (if equiv_to lt y x then y # dup_seq lt x ys else dup_seq lt y ys)"

lemma uniq_dup_mset: "mset (uniq_seq lt x xs) + mset (dup_seq lt x xs) = mset (x # xs)"
  by (induction lt x xs rule: uniq_seq.induct) auto

lemma unique_loop_seq:
  assumes "dll h l (ps @ x # xs)" and "dll h d ds" and "length xs < fuel"
    and "set (chain l (ps @ x # xs)) \<inter> set (chain d ds) = {}"
  shows "\<exists>h'. unique_loop fuel h l (Some d) lt x = Inr h' \<and> dll h' l (ps @ uniq_seq lt x xs)
    \<and> dll h' d (ds @ dup_seq lt x xs)
    \<and> frame (set (chain l (ps @ x # xs)) \<union> set (chain d ds)) h h'"
  using assms
proof (induction lt x xs arbitrary: ps ds h fuel rule: uniq_seq.induct)
  case (1 lt x)
  then show ?case using dll_next[of h l ps x "[]"] by (cases fuel) (simp_all add: list_end_def)
next
  case (2 lt x y ys)
  obtain f where f: "fuel = Suc f" using 2(5) by (cases fuel) auto
  have yt: "y \<noteq> tail l" using 2(3) by (auto simp: dll_def)
  have nx: "list_next h x = Inr y" using dll_next[OF 2(3)] by simp
  show ?case
  proof (cases "equiv_to lt y x")
    case False
    have "set (chain l ((ps @ [x]) @ y # ys)) = set (chain l (ps @ x # y # ys))" by auto
    with 2(2)[OF False, of h "ps @ [x]" ds f] 2(3-6) f False yt nx show ?thesis
      by (simp add: equiv_to_def list_end_def del: set_append set_simps) blast?
  next
    case True
    let ?C = "set (chain l (ps @ x # y # ys)) \<union> set (chain d ds)"
    have d0: "dll h l ((ps @ [x]) @ y # ys)" using 2(3) by simp
    have y: "y \<notin> set (chain l (ps @ x # ys))" "y \<notin> set (chain d ds)" "valid h y"
      using 2(3,6) dll_valid[OF 2(3), of y] by (auto simp: dll_def)
    obtain n h1 where h1: "list_remove h y = Inr (n, h1)" "dll h1 l (ps @ x # ys)"
      "frame (set (chain l (ps @ x # ys))) h h1" using dll_remove[OF d0] by auto
    have "dll h1 d ds" by (rule dll_frame[OF 2(4) h1(3)]) (use 2(6) in auto)
    from dll_push_back[OF this y(2)] obtain h2 where h2: "list_push_back h1 d y = Inr h2"
      "dll h2 d (ds @ [y])" "frame (insert y (set (chain d ds))) h1 h2"
      using frame_valid[OF h1(3)] y(3) by blast
    have "dll h2 l (ps @ x # ys)" by (rule dll_frame[OF h1(2) h2(3)]) (use 2(6) y(1) in auto)
    moreover have "set (chain l (ps @ x # ys)) \<inter> set (chain d (ds @ [y])) = {}"
      using 2(6) y(1) by auto
    ultimately obtain h3 where h3: "unique_loop f h2 l (Some d) lt x = Inr h3"
      "dll h3 l (ps @ uniq_seq lt x ys)" "dll h3 d ((ds @ [y]) @ dup_seq lt x ys)"
      "frame (set (chain l (ps @ x # ys)) \<union> set (chain d (ds @ [y]))) h2 h3"
      using 2(1)[OF True _ h2(2), of ps f] 2(5) f by auto
    have "frame ?C h h1" "frame ?C h1 h2" "frame ?C h2 h3"
      by (rule frame_mono[OF h1(3)], force) (rule frame_mono[OF h2(3)], force,
          rule frame_mono[OF h3(4)], force)
    then have "frame ?C h h3" by (blast intro: frame_trans)
    moreover have "unique_loop fuel h l (Some d) lt x = Inr h3"
      using f nx yt True h1(1) h2(1) h3(1) by (simp add: equiv_to_def list_end_def)
    ultimately show ?thesis using True h3(2,3) by simp
  qed
qed

lemma unique_loop_seq_none:
  assumes "dll h l (ps @ x # xs)" and "length xs < fuel"
  shows "\<exists>h'. unique_loop fuel h l None lt x = Inr h' \<and> dll h' l (ps @ uniq_seq lt x xs)
    \<and> frame (set (chain l (ps @ x # xs))) h h'"
  using assms
proof (induction lt x xs arbitrary: ps h fuel rule: uniq_seq.induct)
  case (1 lt x)
  then show ?case using dll_next[of h l ps x "[]"] by (cases fuel) (simp_all add: list_end_def)
next
  case (2 lt x y ys)
  obtain f where f: "fuel = Suc f" using 2(4) by (cases fuel) auto
  have yt: "y \<noteq> tail l" using 2(3) by (auto simp: dll_def)
  have nx: "list_next h x = Inr y" using dll_next[OF 2(3)] by simp
  show ?case
  proof (cases "equiv_to lt y x")
    case False
    have "set (chain l ((ps @ [x]) @ y # ys)) = set (chain l (ps @ x # y # ys))" by auto
    with 2(2)[OF False, of h "ps @ [x]" f] 2(3,4) f False yt nx show ?thesis
      by (simp add: equiv_to_def list_end_def del: set_append set_simps) blast
  next
    case True
    obtain n h1 where h1: "list_remove h y = Inr (n, h1)" "dll h1 l (ps @ x # ys)"
      "frame (set (chain l (ps @ x # ys))) h h1" using dll_remove[of h l "ps @ [x]" y ys] 2(3) by auto
    with 2(1)[OF True h1(2), of f] 2(4) f obtain h2 where h2: "unique_loop f h1 l None lt x = Inr h2"
      "dll h2 l (ps @ uniq_seq lt x ys)" "frame (set (chain l (ps @ x # ys))) h1 h2" by auto
    have "frame (set (chain l (ps @ x # y # ys))) h h2"
      by (rule frame_mono[OF frame_trans[OF h1(3) h2(3)]]) auto
    then show ?thesis using f nx yt True h1(1) h2(1,2) by (auto simp: equiv_to_def list_end_def)
  qed
qed

lemma max_loop_seq:
  assumes "dll h l (ps @ xs)" and "length xs < fuel"
  shows "max_loop fuel h l lt m (hd (xs @ [tail l]))
    = Inr (foldl (\<lambda>m e. if lt m e then e else m) m xs)"
  using assms
proof (induction xs arbitrary: ps m fuel)
  case Nil
  then show ?case by (cases fuel) (simp_all add: list_end_def)
next
  case (Cons x xs)
  then obtain f where f: "fuel = Suc f" by (cases fuel) auto
  have "x \<noteq> tail l" using Cons.prems(1) by (auto simp: dll_def)
  then show ?case
    using Cons.IH[of "ps @ [x]" f] Cons.prems f dll_next[OF Cons.prems(1)]
    by (simp add: list_end_def Let_def)
qed

lemma min_loop_max_loop: "min_loop fuel h l lt m = max_loop fuel h l (\<lambda>a b. lt b a) m"
proof (induction fuel arbitrary: m)
  case (Suc n)
  show ?case by (rule ext) (simp add: Suc.IH Let_def)
qed (rule ext, simp)

lemma list_min_list_max: "list_min fuel h l lt = list_max fuel h l (\<lambda>a b. lt b a)"
  by (simp add: list_min_def list_max_def min_loop_max_loop cong: if_cong)

lemma list_max_seq:
  assumes "dll h l (x # xs)" and "length xs < fuel"
  shows "list_max fuel h l lt = Inr (foldl (\<lambda>m e. if lt m e then e else m) x xs)"
proof -
  have "x \<noteq> tail l" using assms(1) by (auto simp: dll_def)
  moreover have "list_next h x = Inr (hd (xs @ [tail l]))"
    using dll_next[of h l "[]" x xs] assms(1) by simp
  ultimately show ?thesis
    using max_loop_seq[of h l "[x]" xs fuel lt x] assms dll_reads(1)[OF assms(1)]
    by (simp add: list_max_def list_end_def)
qed

text \<open>\<open>first_max lt xs m\<close>: \<open>m\<close> is the earliest of the greatest elements.\<close>

definition first_max :: "('e \<Rightarrow> 'e \<Rightarrow> bool) \<Rightarrow> 'e list \<Rightarrow> 'e \<Rightarrow> bool" where
  "first_max lt xs m \<longleftrightarrow> (\<forall>e \<in> set xs. \<not> lt m e) \<and>
     (\<exists>as bs. xs = as @ m # bs \<and> (\<forall>a \<in> set as. lt a m))"

context less_func
begin

lemma foldl_first_max: "first_max lt (x # xs) (foldl (\<lambda>m e. if lt m e then e else m) x xs)"
proof (induction xs rule: rev_induct)
  case Nil
  have "\<exists>as bs. [x] = as @ x # bs \<and> (\<forall>a \<in> set as. lt a x)"
    by (rule exI[of _ "[]"]) simp
  then show ?case by (simp add: first_max_def less_irrefl)
next
  case (snoc e xs)
  define m where "m = foldl (\<lambda>m e. if lt m e then e else m) x xs"
  from snoc obtain as bs where m: "x # xs = as @ m # bs" "\<forall>a \<in> set as. lt a m"
    "\<forall>a \<in> set (x # xs). \<not> lt m a" unfolding first_max_def m_def by blast
  show ?case
  proof (cases "lt m e")
    case True
    have "lt a e" if "a \<in> set (x # xs)" for a
      using True m(3) that less_negtrans by blast
    then have "\<forall>a \<in> set ((x # xs) @ [e]). \<not> lt e a" "\<forall>a \<in> set (x # xs). lt a e"
      using less_asym less_irrefl by auto
    then have "first_max lt ((x # xs) @ [e]) e" unfolding first_max_def by blast
    then show ?thesis using True by (simp add: m_def)
  next
    case False
    have "first_max lt ((x # xs) @ [e]) m"
    proof -
      have "(x # xs) @ [e] = as @ m # (bs @ [e])" using m(1) by simp
      moreover have "\<forall>a \<in> set ((x # xs) @ [e]). \<not> lt m a" using m(3) False by auto
      ultimately show ?thesis unfolding first_max_def using m(2) by blast
    qed
    then show ?thesis using False by (simp add: m_def)
  qed
qed

end

section \<open>A comparison function of the kernel\<close>

text \<open>
  \<open>page_less\<close> of \<open>vm/page.c\<close> orders supplemental page table entries by page number;
  \<open>pagenum e\<close> is the field of the entry that embeds the element at \<open>e\<close>.
\<close>

definition page_less :: "(ptr \<Rightarrow> 32 word) \<Rightarrow> ptr \<Rightarrow> ptr \<Rightarrow> bool" where
  "page_less pagenum a b = (pagenum a < pagenum b)"

interpretation page_order: less_func "page_less pagenum" for pagenum
  by unfold_locales (auto simp: page_less_def)

section \<open>Properties\<close>

text \<open>
  (C30) \<open>list_sort\<close> on a well-formed list and a strict weak order terminates, after at most
  \<open>k + 1\<close> passes for up to \<open>2 ^ k\<close> elements, with every internal \<open>ASSERT\<close> satisfied; the
  list is then a permutation of the original in nondecreasing order, elements that compare
  equal keep their relative order, and no memory outside the list is written.
\<close>

theorem list_sort_correct:
  assumes "\<And>a b. lt a b \<Longrightarrow> \<not> lt b a" and "\<And>a b c. \<not> lt a b \<Longrightarrow> \<not> lt b c \<Longrightarrow> \<not> lt a c"
    and "dll h l xs" and "length xs < fuel" and "length xs \<le> 2 ^ k" and "k < passes"
  shows "\<exists>h' ys. list_sort passes fuel h l lt = Inr h' \<and> dll h' l ys \<and> mset ys = mset xs \<and>
    ordered lt ys \<and> (\<forall>c. filter (equiv_to lt c) ys = filter (equiv_to lt c) xs) \<and>
    frame (set (chain l xs)) h h'"
proof -
  have "less_func lt" by (rule less_func.intro) (use assms(1,2) in blast)+
  from list_sort_sorts[OF this assms(3-6)] show ?thesis .
qed

theorem list_sort_correct_witness:
  "\<exists>h' ys. list_sort 2 3 demo_heap demo_list (page_less (\<lambda>p. 9 - p)) = Inr h' \<and>
    dll h' demo_list ys \<and> mset ys = mset [3, 4] \<and> ordered (page_less (\<lambda>p. 9 - p)) ys \<and>
    (\<forall>c. filter (equiv_to (page_less (\<lambda>p. 9 - p)) c) ys
      = filter (equiv_to (page_less (\<lambda>p. 9 - p)) c) [3, 4]) \<and>
    frame (set (chain demo_list [3, 4])) demo_heap h'"
  by (rule list_sort_correct[where k = 1], erule page_order.less_asym,
      erule page_order.less_negtrans, assumption, rule demo_dll, simp_all)

text \<open>
  (C31) \<open>list_insert_ordered\<close> puts the element behind every element it is not less than and
  before the first one it is less than; an ordered list stays ordered.
\<close>

theorem list_insert_ordered_correct:
  assumes "\<And>a b. lt a b \<Longrightarrow> \<not> lt b a" and "\<And>a b c. \<not> lt a b \<Longrightarrow> \<not> lt b c \<Longrightarrow> \<not> lt a c"
    and "dll h l xs" and "e \<notin> set (chain l xs)" and "valid h e" and "length xs < fuel"
    and "ordered lt xs"
  shows "\<exists>h' as bs. list_insert_ordered fuel h l e lt = Inr h' \<and> dll h' l (as @ e # bs) \<and>
    xs = as @ bs \<and> ordered lt (as @ e # bs) \<and> (\<forall>a \<in> set as. \<not> lt e a) \<and>
    (bs \<noteq> [] \<longrightarrow> lt e (hd bs))"
proof -
  have L: "less_func lt" by (rule less_func.intro) (use assms(1,2) in blast)+
  let ?as = "takeWhile (\<lambda>x. \<not> lt e x) xs" and ?bs = "dropWhile (\<lambda>x. \<not> lt e x) xs"
  from list_insert_ordered_seq[OF assms(3-6), of lt] obtain h' where
    "list_insert_ordered fuel h l e lt = Inr h'" "dll h' l (?as @ e # ?bs)"
    unfolding insort_seq_def by blast
  moreover have "ordered lt (?as @ e # ?bs)"
    using less_func.insort_seq_ordered[OF L assms(7), of e] unfolding insort_seq_def .
  moreover have "\<forall>a \<in> set ?as. \<not> lt e a" by (auto dest: set_takeWhileD)
  moreover have "?bs \<noteq> [] \<longrightarrow> lt e (hd ?bs)" using hd_dropWhile[of "\<lambda>x. \<not> lt e x" xs] by blast
  ultimately show ?thesis using takeWhile_dropWhile_id[of "\<lambda>x. \<not> lt e x" xs] by metis
qed

theorem list_insert_ordered_correct_witness:
  "\<exists>h' as bs. list_insert_ordered 3 demo_heap demo_list 5 (page_less (\<lambda>p. p)) = Inr h' \<and>
    dll h' demo_list (as @ 5 # bs) \<and> [3, 4] = as @ bs \<and>
    ordered (page_less (\<lambda>p. p)) (as @ 5 # bs) \<and> (\<forall>a \<in> set as. \<not> page_less (\<lambda>p. p) 5 a) \<and>
    (bs \<noteq> [] \<longrightarrow> page_less (\<lambda>p. p) 5 (hd bs))"
  by (rule list_insert_ordered_correct, erule page_order.less_asym,
      erule page_order.less_negtrans, assumption, rule demo_dll)
    (simp_all add: demo_valid demo_list_def page_less_def)

text \<open>
  \<open>list_unique\<close> with a \<open>duplicates\<close> list keeps the first element of each group of
  adjacent equivalent elements, in order, and moves all others to the end of
  \<open>duplicates\<close> in order; no element is lost.
\<close>

theorem list_unique_correct:
  assumes "dll h l (x # xs)" and "dll h d ds" and "length xs < fuel"
    and "set (chain l (x # xs)) \<inter> set (chain d ds) = {}"
  shows "\<exists>h'. list_unique fuel h l (Some d) lt = Inr h' \<and> dll h' l (uniq_seq lt x xs) \<and>
    dll h' d (ds @ dup_seq lt x xs) \<and>
    mset (uniq_seq lt x xs) + mset (dup_seq lt x xs) = mset (x # xs)"
proof -
  have "dll h l ([] @ x # xs)" using assms(1) by simp
  note * = unique_loop_seq[OF this assms(2,3), of lt]
  show ?thesis
    using * assms(4) dll_reads(1,3)[OF assms(1)] uniq_dup_mset[of lt x xs]
    by (auto simp: list_unique_def)
qed

definition demo_dups :: klist where
  "demo_dups = \<lparr>head = 6, tail = 7\<rparr>"

definition demo_heap2 :: heap where
  "demo_heap2 = demo_heap(6 \<mapsto> \<lparr>le_prev = 0, le_next = 7\<rparr>, 7 \<mapsto> \<lparr>le_prev = 6, le_next = 0\<rparr>)"

lemma demo_dll2: "dll demo_heap2 demo_list [3, 4]" "dll demo_heap2 demo_dups []"
  by (simp_all add: dll_def demo_heap2_def demo_heap_def demo_list_def demo_dups_def valid_def
      nx_def pv_def)

theorem list_unique_correct_witness:
  "\<exists>h'. list_unique 2 demo_heap2 demo_list (Some demo_dups) (page_less (\<lambda>p. 1)) = Inr h' \<and>
    dll h' demo_list [3] \<and> dll h' demo_dups [4]"
  using list_unique_correct[of demo_heap2 demo_list 3 "[4]" demo_dups "[]" 2 "page_less (\<lambda>p. 1)"]
    demo_dll2 by (simp add: demo_list_def demo_dups_def page_less_def equiv_to_def)

text \<open>
  \<open>list_max\<close> and \<open>list_min\<close> return the earliest of the greatest, respectively least,
  elements of a non-empty list.
\<close>

theorem list_max_min_correct:
  assumes "\<And>a b. lt a b \<Longrightarrow> \<not> lt b a" and "\<And>a b c. \<not> lt a b \<Longrightarrow> \<not> lt b c \<Longrightarrow> \<not> lt a c"
    and "dll h l xs" and "xs \<noteq> []" and "length xs \<le> fuel"
  shows "\<exists>m n. list_max fuel h l lt = Inr m \<and> first_max lt xs m \<and>
    list_min fuel h l lt = Inr n \<and> first_max (\<lambda>a b. lt b a) xs n"
proof -
  obtain x ys where xs: "xs = x # ys" using assms(4) by (cases xs) auto
  then have d: "dll h l (x # ys)" "length ys < fuel" using assms(3,5) by auto
  have L: "less_func lt" by (rule less_func.intro) (use assms(1,2) in blast)+
  have L': "less_func (\<lambda>a b. lt b a)" by (rule less_func.intro) (use assms(1,2) in blast)+
  show ?thesis
    unfolding list_min_list_max xs
    using list_max_seq[OF d] less_func.foldl_first_max[OF L, of x ys]
      less_func.foldl_first_max[OF L', of x ys] by blast
qed

theorem list_max_min_correct_witness:
  "\<exists>m n. list_max 2 demo_heap demo_list (page_less (\<lambda>p. p)) = Inr m \<and>
    first_max (page_less (\<lambda>p. p)) [3, 4] m \<and>
    list_min 2 demo_heap demo_list (page_less (\<lambda>p. p)) = Inr n \<and>
    first_max (\<lambda>a b. page_less (\<lambda>p. p) b a) [3, 4] n"
  by (rule list_max_min_correct, erule page_order.less_asym,
      erule page_order.less_negtrans, assumption, rule demo_dll) simp_all

end
