(* ===== verification/Kbitmap.thy ===== *)
theory Kbitmap
  imports Kernel_Prelude
begin

text \<open>
  The bitmaps of \<open>lib/kernel/bitmap.c\<close>: an array of 32-bit elements that stands for an
  array of \<open>bit_cnt\<close> bits. Bit indices and counts are \<open>size_t\<close> values and wrap around;
  an index past the allocated elements is a \<open>Fault\<close>. The abstraction \<open>bits_of\<close> reads the
  bit array, and the lemmas show that each operation acts on it as its comment says. The
  contract \<open>slot_allocator\<close> captures how the free map, the page allocator and the swap
  table use a bitmap, and is interpreted on \<open>bitmap_scan_and_flip\<close> and
  \<open>bitmap_set_multiple\<close>.
\<close>

unbundle bit_operations_syntax

section \<open>Operations\<close>

type_synonym elem_type = "32 word"

record bitmap =
  bit_cnt :: size_t
  bits :: "elem_type list"

abbreviation ELEM_BITS :: size_t where "ELEM_BITS \<equiv> 32"

abbreviation BITMAP_ERROR :: size_t where "BITMAP_ERROR \<equiv> - 1"

definition elem_idx :: "size_t \<Rightarrow> size_t" where
  "elem_idx bit_idx = bit_idx div ELEM_BITS"

definition bit_mask :: "size_t \<Rightarrow> elem_type" where
  "bit_mask bit_idx = push_bit (unat (bit_idx mod ELEM_BITS)) 1"

text \<open>\<open>DIV_ROUND_UP\<close> of \<open>lib/round.h\<close>; the sum may wrap around.\<close>

definition elem_cnt :: "size_t \<Rightarrow> size_t" where
  "elem_cnt n = (n + ELEM_BITS - 1) div ELEM_BITS"

definition byte_cnt :: "size_t \<Rightarrow> size_t" where
  "byte_cnt n = 4 * elem_cnt n"

definition last_mask :: "bitmap \<Rightarrow> elem_type" where
  "last_mask b =
     (let last_bits = bit_cnt b mod ELEM_BITS
      in if last_bits \<noteq> 0 then push_bit (unat last_bits) 1 - 1 else - 1)"

definition bitmap_size :: "bitmap \<Rightarrow> size_t" where
  "bitmap_size b = bit_cnt b"

text \<open>A read-modify-write of \<open>b->bits[idx]\<close>.\<close>

definition upd_elem :: "bitmap \<Rightarrow> size_t \<Rightarrow> (elem_type \<Rightarrow> elem_type) \<Rightarrow> bitmap res" where
  "upd_elem b idx f =
     (if unat idx < length (bits b)
      then Inr (b\<lparr>bits := (bits b)[unat idx := f (bits b ! unat idx)]\<rparr>)
      else Inl (Fault ''bitmap''))"

definition bitmap_mark :: "bitmap \<Rightarrow> size_t \<Rightarrow> bitmap res" where
  "bitmap_mark b bit_idx = upd_elem b (elem_idx bit_idx) (\<lambda>x. x OR bit_mask bit_idx)"

definition bitmap_reset :: "bitmap \<Rightarrow> size_t \<Rightarrow> bitmap res" where
  "bitmap_reset b bit_idx = upd_elem b (elem_idx bit_idx) (\<lambda>x. x AND NOT (bit_mask bit_idx))"

definition bitmap_flip :: "bitmap \<Rightarrow> size_t \<Rightarrow> bitmap res" where
  "bitmap_flip b bit_idx = upd_elem b (elem_idx bit_idx) (\<lambda>x. x XOR bit_mask bit_idx)"

definition bitmap_set :: "bitmap \<Rightarrow> size_t \<Rightarrow> bool \<Rightarrow> bitmap res" where
  "bitmap_set b idx value =
     asrt ''bitmap_set'' (idx < bit_cnt b)
       (if value then bitmap_mark b idx else bitmap_reset b idx)"

definition bitmap_test :: "bitmap \<Rightarrow> size_t \<Rightarrow> bool res" where
  "bitmap_test b idx =
     asrt ''bitmap_test'' (idx < bit_cnt b)
       (if unat (elem_idx idx) < length (bits b)
        then Inr (bits b ! unat (elem_idx idx) AND bit_mask idx \<noteq> 0)
        else Inl (Fault ''bitmap''))"

text \<open>
  The counted loops over \<open>i < cnt\<close>; their first argument is the number of iterations left
  and \<open>idx\<close> is \<open>start + i\<close>, which wraps around as in the source.
\<close>

fun set_multiple_loop :: "nat \<Rightarrow> bitmap \<Rightarrow> size_t \<Rightarrow> bool \<Rightarrow> bitmap res" where
  "set_multiple_loop 0 b idx value = Inr b"
| "set_multiple_loop (Suc n) b idx value =
     bnd (bitmap_set b idx value) (\<lambda>b. set_multiple_loop n b (idx + 1) value)"

definition bitmap_set_multiple :: "bitmap \<Rightarrow> size_t \<Rightarrow> size_t \<Rightarrow> bool \<Rightarrow> bitmap res" where
  "bitmap_set_multiple b start cnt value =
     asrt ''bitmap_set_multiple'' (start \<le> bit_cnt b) (
     asrt ''bitmap_set_multiple'' (start + cnt \<le> bit_cnt b) (
     set_multiple_loop (unat cnt) b start value))"

definition bitmap_set_all :: "bitmap \<Rightarrow> bool \<Rightarrow> bitmap res" where
  "bitmap_set_all b value = bitmap_set_multiple b 0 (bitmap_size b) value"

fun count_loop :: "nat \<Rightarrow> bitmap \<Rightarrow> size_t \<Rightarrow> bool \<Rightarrow> size_t \<Rightarrow> size_t res" where
  "count_loop 0 b idx value value_cnt = Inr value_cnt"
| "count_loop (Suc n) b idx value value_cnt =
     bnd (bitmap_test b idx) (\<lambda>t.
     count_loop n b (idx + 1) value (if t = value then value_cnt + 1 else value_cnt))"

definition bitmap_count :: "bitmap \<Rightarrow> size_t \<Rightarrow> size_t \<Rightarrow> bool \<Rightarrow> size_t res" where
  "bitmap_count b start cnt value =
     asrt ''bitmap_count'' (start \<le> bit_cnt b) (
     asrt ''bitmap_count'' (start + cnt \<le> bit_cnt b) (
     count_loop (unat cnt) b start value 0))"

fun contains_loop :: "nat \<Rightarrow> bitmap \<Rightarrow> size_t \<Rightarrow> bool \<Rightarrow> bool res" where
  "contains_loop 0 b idx value = Inr False"
| "contains_loop (Suc n) b idx value =
     bnd (bitmap_test b idx) (\<lambda>t.
     if t = value then Inr True else contains_loop n b (idx + 1) value)"

definition bitmap_contains :: "bitmap \<Rightarrow> size_t \<Rightarrow> size_t \<Rightarrow> bool \<Rightarrow> bool res" where
  "bitmap_contains b start cnt value =
     asrt ''bitmap_contains'' (start \<le> bit_cnt b) (
     asrt ''bitmap_contains'' (start + cnt \<le> bit_cnt b) (
     contains_loop (unat cnt) b start value))"

definition bitmap_any :: "bitmap \<Rightarrow> size_t \<Rightarrow> size_t \<Rightarrow> bool res" where
  "bitmap_any b start cnt = bitmap_contains b start cnt True"

definition bitmap_none :: "bitmap \<Rightarrow> size_t \<Rightarrow> size_t \<Rightarrow> bool res" where
  "bitmap_none b start cnt = bnd (bitmap_contains b start cnt True) (\<lambda>r. Inr (\<not> r))"

definition bitmap_all :: "bitmap \<Rightarrow> size_t \<Rightarrow> size_t \<Rightarrow> bool res" where
  "bitmap_all b start cnt = bnd (bitmap_contains b start cnt False) (\<lambda>r. Inr (\<not> r))"

text \<open>The loop over \<open>start <= i <= last\<close>.\<close>

fun scan_loop :: "nat \<Rightarrow> bitmap \<Rightarrow> size_t \<Rightarrow> size_t \<Rightarrow> bool \<Rightarrow> size_t res" where
  "scan_loop 0 b i cnt value = Inr BITMAP_ERROR"
| "scan_loop (Suc n) b i cnt value =
     bnd (bitmap_contains b i cnt (\<not> value)) (\<lambda>c.
     if \<not> c then Inr i else scan_loop n b (i + 1) cnt value)"

definition bitmap_scan :: "bitmap \<Rightarrow> size_t \<Rightarrow> size_t \<Rightarrow> bool \<Rightarrow> size_t res" where
  "bitmap_scan b start cnt value =
     asrt ''bitmap_scan'' (start \<le> bit_cnt b) (
     if cnt \<le> bit_cnt b
     then let last = bit_cnt b - cnt
          in scan_loop (unat last + 1 - unat start) b start cnt value
     else Inr BITMAP_ERROR)"

definition bitmap_scan_and_flip ::
  "bitmap \<Rightarrow> size_t \<Rightarrow> size_t \<Rightarrow> bool \<Rightarrow> (size_t \<times> bitmap) res" where
  "bitmap_scan_and_flip b start cnt value =
     bnd (bitmap_scan b start cnt value) (\<lambda>idx.
     if idx \<noteq> BITMAP_ERROR
     then bnd (bitmap_set_multiple b idx cnt (\<not> value)) (\<lambda>b. Inr (idx, b))
     else Inr (idx, b))"

definition bitmap_buf_size :: "size_t \<Rightarrow> size_t" where
  "bitmap_buf_size n = 8 + byte_cnt n"

text \<open>
  \<open>hdr\<close> says whether the allocation of the \<open>struct bitmap\<close> succeeds, \<open>malloc n\<close> is the
  storage returned for \<open>n\<close> bytes, with indeterminate contents.
\<close>

definition bitmap_create ::
  "bool \<Rightarrow> (size_t \<Rightarrow> elem_type list option) \<Rightarrow> size_t \<Rightarrow> bitmap option res" where
  "bitmap_create hdr malloc n =
     (if \<not> hdr then Inr None
      else case malloc (byte_cnt n) of
        Some store \<Rightarrow>
          bnd (bitmap_set_all \<lparr>bit_cnt = n, bits = store\<rparr> False) (\<lambda>b. Inr (Some b))
      | None \<Rightarrow>
          if n = 0 then bnd (bitmap_set_all \<lparr>bit_cnt = n, bits = []\<rparr> False) (\<lambda>b. Inr (Some b))
          else Inr None)"

definition bitmap_create_in_buf :: "size_t \<Rightarrow> elem_type list \<Rightarrow> size_t \<Rightarrow> bitmap res" where
  "bitmap_create_in_buf n store block_size =
     asrt ''bitmap_create_in_buf'' (bitmap_buf_size n \<le> block_size) (
     bitmap_set_all \<lparr>bit_cnt = n, bits = store\<rparr> False)"

definition bitmap_file_size :: "bitmap \<Rightarrow> size_t" where
  "bitmap_file_size b = byte_cnt (bit_cnt b)"

text \<open>
  The bytes of the bit array, which \<open>bitmap_write\<close> hands to \<open>file_write_at\<close>, and what \<open>bitmap_read\<close> does with the
  bytes that \<open>file_read_at\<close> has put at the beginning of the array: the bits beyond the last one are cleared. The calls
  on files are in the theory \<open>Bitmap_File\<close>.
\<close>

definition bitmap_bytes :: "bitmap \<Rightarrow> u8 list" where
  "bitmap_bytes b = take (unat (byte_cnt (bit_cnt b))) (words_bytes (bits b))"

definition load_bits :: "bitmap \<Rightarrow> u8 list \<Rightarrow> bitmap res" where
  "load_bits b data =
     upd_elem (b\<lparr>bits := bytes_words (data @ drop (length data) (words_bytes (bits b)))\<rparr>)
       (elem_cnt (bit_cnt b) - 1) (\<lambda>x. x AND last_mask b)"

section \<open>The bit array\<close>

definition bget :: "bitmap \<Rightarrow> nat \<Rightarrow> bool" where
  "bget b i = bit (bits b ! (i div 32)) (i mod 32)"

definition bits_of :: "bitmap \<Rightarrow> bool list" where
  "bits_of b = map (bget b) [0..<unat (bit_cnt b)]"

text \<open>Every bit has an element.\<close>

definition wf_bitmap :: "bitmap \<Rightarrow> bool" where
  "wf_bitmap b \<longleftrightarrow> unat (bit_cnt b) \<le> 32 * length (bits b)"

lemma length_bits_of [simp]: "length (bits_of b) = unat (bit_cnt b)"
  by (simp add: bits_of_def)

lemma nth_bits_of [simp]: "i < unat (bit_cnt b) \<Longrightarrow> bits_of b ! i = bget b i"
  by (simp add: bits_of_def)

lemma unat_elem_idx: "unat (elem_idx i) = unat i div 32"
  by (simp add: elem_idx_def unat_div)

lemma bit_mask_bit: "bit (bit_mask i) k \<longleftrightarrow> k = unat i mod 32"
proof -
  have "unat (i mod 32) = unat i mod 32" by (simp add: unat_mod)
  moreover have "unat i mod 32 < 32" by simp
  ultimately show ?thesis by (auto simp: bit_mask_def bit_simps)
qed

lemma and_bit_mask: "(x AND bit_mask i \<noteq> 0) = bit x (unat i mod 32)"
proof -
  have "bit_mask i = 2 ^ (unat i mod 32)" by (simp add: bit_mask_def unat_mod push_bit_eq_mult)
  then show ?thesis by (simp add: and_exp_eq_0_iff_not_bit)
qed

lemma wf_elem: "wf_bitmap b \<Longrightarrow> i < unat (bit_cnt b) \<Longrightarrow> i div 32 < length (bits b)"
  by (simp add: wf_bitmap_def)

lemma index_eq: "(i :: nat) = j \<longleftrightarrow> i div 32 = j div 32 \<and> i mod 32 = j mod 32"
  by (metis div_mod_decomp)

lemma upd_elem_bits:
  assumes "wf_bitmap b" and "i < bit_cnt b"
    and f: "\<And>x k. k < 32 \<Longrightarrow> bit (f x) k = (if k = unat i mod 32 then g (bit x k) else bit x k)"
  shows "\<exists>b'. upd_elem b (elem_idx i) f = Inr b' \<and> wf_bitmap b' \<and> bit_cnt b' = bit_cnt b
    \<and> bits_of b' = (bits_of b)[unat i := g (bits_of b ! unat i)]"
proof -
  have i: "unat i < unat (bit_cnt b)" using assms(2) by (simp add: word_less_nat_alt)
  then have e: "unat i div 32 < length (bits b)" by (rule wf_elem[OF assms(1)])
  define b' where "b' = b\<lparr>bits := (bits b)[unat i div 32 := f (bits b ! (unat i div 32))]\<rparr>"
  have "bget b' k = (if k = unat i then g (bget b k) else bget b k)" if "k < unat (bit_cnt b)" for k
    using e f[of "k mod 32" "bits b ! (unat i div 32)"] index_eq[of k "unat i"]
    by (auto simp: bget_def b'_def nth_list_update)
  then have "bits_of b' = (bits_of b)[unat i := g (bits_of b ! unat i)]"
    using i by (intro nth_equalityI) (auto simp: nth_list_update b'_def)
  then show ?thesis
    using e assms(1) by (auto simp: upd_elem_def unat_elem_idx b'_def wf_bitmap_def)
qed

lemma bitmap_single:
  assumes "wf_bitmap b" and "i < bit_cnt b"
  shows "\<exists>b'. bitmap_mark b i = Inr b' \<and> wf_bitmap b' \<and> bit_cnt b' = bit_cnt b
      \<and> bits_of b' = (bits_of b)[unat i := True]"
    and "\<exists>b'. bitmap_reset b i = Inr b' \<and> wf_bitmap b' \<and> bit_cnt b' = bit_cnt b
      \<and> bits_of b' = (bits_of b)[unat i := False]"
    and "\<exists>b'. bitmap_flip b i = Inr b' \<and> wf_bitmap b' \<and> bit_cnt b' = bit_cnt b
      \<and> bits_of b' = (bits_of b)[unat i := \<not> bits_of b ! unat i]"
    and "\<exists>b'. bitmap_set b i v = Inr b' \<and> wf_bitmap b' \<and> bit_cnt b' = bit_cnt b
      \<and> bits_of b' = (bits_of b)[unat i := v]"
    and "bitmap_test b i = Inr (bits_of b ! unat i)"
proof -
  show 1: "\<exists>b'. bitmap_mark b i = Inr b' \<and> wf_bitmap b' \<and> bit_cnt b' = bit_cnt b
      \<and> bits_of b' = (bits_of b)[unat i := True]"
    unfolding bitmap_mark_def
    by (rule upd_elem_bits[OF assms, where g = "\<lambda>_. True"]) (auto simp: bit_simps bit_mask_bit)
  show 2: "\<exists>b'. bitmap_reset b i = Inr b' \<and> wf_bitmap b' \<and> bit_cnt b' = bit_cnt b
      \<and> bits_of b' = (bits_of b)[unat i := False]"
    unfolding bitmap_reset_def
    by (rule upd_elem_bits[OF assms, where g = "\<lambda>_. False"]) (auto simp: bit_simps bit_mask_bit)
  show "\<exists>b'. bitmap_flip b i = Inr b' \<and> wf_bitmap b' \<and> bit_cnt b' = bit_cnt b
      \<and> bits_of b' = (bits_of b)[unat i := \<not> bits_of b ! unat i]"
    unfolding bitmap_flip_def
    by (rule upd_elem_bits[OF assms, where g = "\<lambda>x. \<not> x"]) (auto simp: bit_simps bit_mask_bit)
  show "\<exists>b'. bitmap_set b i v = Inr b' \<and> wf_bitmap b' \<and> bit_cnt b' = bit_cnt b
      \<and> bits_of b' = (bits_of b)[unat i := v]"
    using 1 2 assms(2) by (cases v) (simp_all add: bitmap_set_def)
  have "unat i < unat (bit_cnt b)" using assms(2) by (simp add: word_less_nat_alt)
  then show "bitmap_test b i = Inr (bits_of b ! unat i)"
    using wf_elem[OF assms(1), of "unat i"] assms(2)
    by (simp add: bitmap_test_def unat_elem_idx and_bit_mask bget_def)
qed

lemma bit_panics:
  assumes "\<not> i < bit_cnt b"
  shows "bitmap_set b i v = Inl (Panic ''bitmap_set'')"
    and "bitmap_test b i = Inl (Panic ''bitmap_test'')"
  using assms by (simp_all add: bitmap_set_def bitmap_test_def)

section \<open>Ranges of bits\<close>

text \<open>A list with the entries from \<open>s\<close> on, \<open>n\<close> of them, replaced by \<open>v\<close>.\<close>

definition set_range :: "'a list \<Rightarrow> nat \<Rightarrow> nat \<Rightarrow> 'a \<Rightarrow> 'a list" where
  "set_range xs s n v = map (\<lambda>i. if s \<le> i \<and> i < s + n then v else xs ! i) [0..<length xs]"

lemma length_set_range [simp]: "length (set_range xs s n v) = length xs"
  by (simp add: set_range_def)

lemma nth_set_range [simp]:
  "i < length xs \<Longrightarrow> set_range xs s n v ! i = (if s \<le> i \<and> i < s + n then v else xs ! i)"
  by (simp add: set_range_def)

lemma set_range_0 [simp]: "set_range xs s 0 v = xs"
  by (rule nth_equalityI) auto

lemma set_range_Suc: "set_range (xs[s := v]) (Suc s) n v = set_range xs s (Suc n) v"
  by (rule nth_equalityI) (auto simp: nth_list_update)

lemma in_range_word:
  assumes "unat s + Suc n \<le> unat (c :: size_t)"
  shows "s < c" and "unat (s + 1) = Suc (unat s)" and "unat (s + 1) + n \<le> unat c"
proof -
  have "unat s + 1 < 2 ^ 32" using assms unat32_lt[of c] by simp
  then show *: "unat (s + 1) = Suc (unat s)" by (simp add: unat_word_ariths)
  show "s < c" "unat (s + 1) + n \<le> unat c" using assms * by (simp_all add: word_less_nat_alt)
qed

lemma set_multiple_loop_bits:
  assumes "wf_bitmap b" and "unat s + n \<le> unat (bit_cnt b)"
  shows "\<exists>b'. set_multiple_loop n b s v = Inr b' \<and> wf_bitmap b' \<and> bit_cnt b' = bit_cnt b
    \<and> bits_of b' = set_range (bits_of b) (unat s) n v"
  using assms
proof (induction n arbitrary: b s)
  case (Suc n)
  note w = in_range_word[OF Suc.prems(2)]
  obtain b1 where b1: "bitmap_set b s v = Inr b1" "wf_bitmap b1" "bit_cnt b1 = bit_cnt b"
    "bits_of b1 = (bits_of b)[unat s := v]" using bitmap_single(4)[OF Suc.prems(1) w(1)] by blast
  with Suc.IH[of b1 "s + 1"] w show ?case by (auto simp: set_range_Suc)
qed auto

lemma no_wrap:
  assumes "unat s + unat n \<le> unat (c :: size_t)"
  shows "s \<le> c" and "s + n \<le> c" and "n \<le> c"
proof -
  have "unat s + unat n < 2 ^ 32" using assms unat32_lt[of c] by simp
  then have "unat (s + n) = unat s + unat n" by (simp add: unat_word_ariths)
  then show "s \<le> c" "s + n \<le> c" "n \<le> c" using assms by (simp_all add: word_le_nat_alt)
qed

lemma bitmap_set_multiple_bits:
  assumes "wf_bitmap b" and "unat s + unat n \<le> unat (bit_cnt b)"
  shows "\<exists>b'. bitmap_set_multiple b s n v = Inr b' \<and> wf_bitmap b' \<and> bit_cnt b' = bit_cnt b
    \<and> bits_of b' = set_range (bits_of b) (unat s) (unat n) v"
  using set_multiple_loop_bits[OF assms, of v] no_wrap[OF assms(2)]
  by (simp add: bitmap_set_multiple_def)

lemma bitmap_set_all_bits:
  assumes "wf_bitmap b"
  shows "\<exists>b'. bitmap_set_all b v = Inr b' \<and> wf_bitmap b' \<and> bit_cnt b' = bit_cnt b
    \<and> bits_of b' = replicate (unat (bit_cnt b)) v"
proof -
  have "set_range (bits_of b) 0 (unat (bit_cnt b)) v = replicate (unat (bit_cnt b)) v"
    by (rule nth_equalityI) auto
  with bitmap_set_multiple_bits[OF assms, of 0 "bit_cnt b" v] show ?thesis
    by (simp add: bitmap_set_all_def bitmap_size_def)
qed

abbreviation slice :: "'a list \<Rightarrow> nat \<Rightarrow> nat \<Rightarrow> 'a list" where
  "slice xs s n \<equiv> take n (drop s xs)"

lemma slice_Suc: "s < length xs \<Longrightarrow> slice xs s (Suc n) = xs ! s # slice xs (Suc s) n"
  by (metis Cons_nth_drop_Suc take_Suc_Cons)

lemma count_loop_bits:
  assumes "wf_bitmap b" and "unat s + n \<le> unat (bit_cnt b)"
  shows "count_loop n b s v c
    = Inr (c + of_nat (length (filter (\<lambda>x. x = v) (slice (bits_of b) (unat s) n))))"
  using assms
proof (induction n arbitrary: s c)
  case (Suc n)
  note w = in_range_word[OF Suc.prems(2)]
  have "slice (bits_of b) (unat s) (Suc n)
      = bits_of b ! unat s # slice (bits_of b) (unat (s + 1)) n"
    using Suc.prems(2) w(2) by (simp add: slice_Suc)
  then show ?case
    using Suc.IH[of "s + 1"] Suc.prems(1) w bitmap_single(5)[OF Suc.prems(1) w(1)] by simp
qed simp

lemma contains_loop_bits:
  assumes "wf_bitmap b" and "unat s + n \<le> unat (bit_cnt b)"
  shows "contains_loop n b s v = Inr (v \<in> set (slice (bits_of b) (unat s) n))"
  using assms
proof (induction n arbitrary: s)
  case (Suc n)
  note w = in_range_word[OF Suc.prems(2)]
  have "slice (bits_of b) (unat s) (Suc n)
      = bits_of b ! unat s # slice (bits_of b) (unat (s + 1)) n"
    using Suc.prems(2) w(2) by (simp add: slice_Suc)
  then show ?case
    using Suc.IH[of "s + 1"] Suc.prems(1) w bitmap_single(5)[OF Suc.prems(1) w(1)] by auto
qed simp

lemma bitmap_queries:
  assumes "wf_bitmap b" and "unat s + unat n \<le> unat (bit_cnt b)"
  defines "xs \<equiv> slice (bits_of b) (unat s) (unat n)"
  shows "bitmap_count b s n v = Inr (of_nat (length (filter (\<lambda>x. x = v) xs)))"
    and "bitmap_contains b s n v = Inr (v \<in> set xs)"
    and "bitmap_any b s n = Inr (True \<in> set xs)"
    and "bitmap_none b s n = Inr (True \<notin> set xs)"
    and "bitmap_all b s n = Inr (False \<notin> set xs)"
  using count_loop_bits[OF assms(1,2)] contains_loop_bits[OF assms(1,2)] no_wrap[OF assms(2)]
  by (simp_all add: bitmap_count_def bitmap_contains_def bitmap_any_def bitmap_none_def
      bitmap_all_def xs_def)

section \<open>Searching\<close>

text \<open>\<open>run_at xs i n v\<close>: the \<open>n\<close> entries from \<open>i\<close> on exist and all are \<open>v\<close>.\<close>

definition run_at :: "'a list \<Rightarrow> nat \<Rightarrow> nat \<Rightarrow> 'a \<Rightarrow> bool" where
  "run_at xs i n v \<longleftrightarrow> i + n \<le> length xs \<and> (\<forall>j < n. xs ! (i + j) = v)"

lemma run_at_slice:
  assumes "i + n \<le> length xs"
  shows "(\<not> v) \<notin> set (slice xs i n) \<longleftrightarrow> run_at xs i n v"
proof -
  have "length (slice xs i n) = n" using assms by simp
  then show ?thesis using assms by (auto simp: run_at_def in_set_conv_nth)
qed

lemma scan_loop_bits:
  assumes "wf_bitmap b" and "unat i + k + unat n = unat (bit_cnt b) + 1 \<or> k = 0"
  shows "\<exists>r. scan_loop k b i n v = Inr r \<and>
    ((\<exists>j. unat i \<le> j \<and> j < unat i + k \<and> run_at (bits_of b) j (unat n) v
        \<and> (\<forall>m. unat i \<le> m \<and> m < j \<longrightarrow> \<not> run_at (bits_of b) m (unat n) v) \<and> r = of_nat j)
     \<or> (\<forall>j. unat i \<le> j \<and> j < unat i + k \<longrightarrow> \<not> run_at (bits_of b) j (unat n) v)
        \<and> r = BITMAP_ERROR)"
  using assms
proof (induction k arbitrary: i)
  case (Suc k)
  have le: "unat i + unat n \<le> unat (bit_cnt b)" using Suc.prems(2) by auto
  have c: "bitmap_contains b i n (\<not> v) = Inr (\<not> run_at (bits_of b) (unat i) (unat n) v)"
    using bitmap_queries(2)[OF assms(1) le, of "\<not> v"] run_at_slice[of "unat i" "unat n" "bits_of b" v] le
    by auto
  show ?case
  proof (cases "run_at (bits_of b) (unat i) (unat n) v")
    case True
    then show ?thesis using c by (intro exI[of _ i]) auto
  next
    case False
    have k: "k = 0 \<or> unat (i + 1) = Suc (unat i)"
    proof (cases "k = 0")
      case False
      then have "Suc (unat i) < 4294967296" using Suc.prems(2) unat32_lt[of "bit_cnt b"] by simp
      then show ?thesis by (simp add: unat_word_ariths)
    qed simp
    have *: "(unat i \<le> m \<and> m < unat i + Suc k)
        = (m = unat i \<or> Suc (unat i) \<le> m \<and> m < Suc (unat i) + k)" for m by auto
    from k show ?thesis
    proof
      assume "k = 0"
      then show ?thesis using c False * by auto
    next
      assume u: "unat (i + 1) = Suc (unat i)"
      obtain r where r: "scan_loop k b (i + 1) n v = Inr r"
        "(\<exists>j. Suc (unat i) \<le> j \<and> j < Suc (unat i) + k \<and> run_at (bits_of b) j (unat n) v
          \<and> (\<forall>m. Suc (unat i) \<le> m \<and> m < j \<longrightarrow> \<not> run_at (bits_of b) m (unat n) v) \<and> r = of_nat j)
         \<or> (\<forall>j. Suc (unat i) \<le> j \<and> j < Suc (unat i) + k \<longrightarrow> \<not> run_at (bits_of b) j (unat n) v)
          \<and> r = BITMAP_ERROR"
        using Suc.IH[of "i + 1", unfolded u] Suc.prems by auto
      from r(2) show ?thesis
      proof (elim disjE exE conjE)
        fix j assume j: "Suc (unat i) \<le> j" "j < Suc (unat i) + k" "run_at (bits_of b) j (unat n) v"
          "\<forall>m. Suc (unat i) \<le> m \<and> m < j \<longrightarrow> \<not> run_at (bits_of b) m (unat n) v" "r = of_nat j"
        have "\<not> run_at (bits_of b) m (unat n) v" if "unat i \<le> m" "m < j" for m
          using that j(4) False by (cases "m = unat i") auto
        moreover have "scan_loop (Suc k) b i n v = Inr r" using c False r(1) by simp
        moreover have "unat i \<le> j" "j < unat i + Suc k" using j(1,2) by simp_all
        ultimately show ?thesis using j(3,5) by blast
      qed (use c False r(1) * in auto)
    qed
  qed
qed auto

text \<open>\<open>first_run xs s n v\<close>: the least index from \<open>s\<close> on at which such a run starts.\<close>

definition first_run :: "'a list \<Rightarrow> nat \<Rightarrow> nat \<Rightarrow> 'a \<Rightarrow> nat \<Rightarrow> bool" where
  "first_run xs s n v j \<longleftrightarrow> s \<le> j \<and> run_at xs j n v \<and> (\<forall>m. s \<le> m \<and> m < j \<longrightarrow> \<not> run_at xs m n v)"

lemma bitmap_scan_bits:
  assumes "wf_bitmap b" and "s \<le> bit_cnt b"
  shows "(\<exists>j. bitmap_scan b s n v = Inr (of_nat j) \<and> first_run (bits_of b) (unat s) (unat n) v j)
    \<or> bitmap_scan b s n v = Inr BITMAP_ERROR
      \<and> (\<forall>j. unat s \<le> j \<longrightarrow> \<not> run_at (bits_of b) j (unat n) v)"
proof (cases "n \<le> bit_cnt b")
  case True
  let ?k = "unat (bit_cnt b - n) + 1 - unat s"
  have u: "unat (bit_cnt b - n) = unat (bit_cnt b) - unat n"
    using True by (simp add: unat_sub)
  have nb: "unat n \<le> unat (bit_cnt b)" using True by (simp add: word_le_nat_alt)
  then have "unat s + ?k + unat n = unat (bit_cnt b) + 1 \<or> ?k = 0" unfolding u by linarith
  from scan_loop_bits[OF assms(1) this, of v] obtain r where
    r: "bitmap_scan b s n v = Inr r" and
    d: "(\<exists>j. unat s \<le> j \<and> j < unat s + ?k \<and> run_at (bits_of b) j (unat n) v
        \<and> (\<forall>m. unat s \<le> m \<and> m < j \<longrightarrow> \<not> run_at (bits_of b) m (unat n) v) \<and> r = of_nat j)
     \<or> (\<forall>j. unat s \<le> j \<and> j < unat s + ?k \<longrightarrow> \<not> run_at (bits_of b) j (unat n) v)
        \<and> r = BITMAP_ERROR"
    using True assms(2) by (auto simp: bitmap_scan_def Let_def)
  have "j < unat s + ?k" if "unat s \<le> j" "run_at (bits_of b) j (unat n) v" for j
    using that nb unfolding u run_at_def by auto
  with r d show ?thesis unfolding first_run_def by blast
next
  case False
  then have "\<not> run_at (bits_of b) j (unat n) v" for j
    by (auto simp: run_at_def word_le_nat_alt)
  then show ?thesis using False assms(2) by (simp add: bitmap_scan_def)
qed

lemma run_at_bounds:
  assumes "run_at (bits_of b) j (unat n) v"
  shows "unat (of_nat j :: size_t) = j" and "unat (of_nat j :: size_t) + unat n \<le> unat (bit_cnt b)"
proof -
  have *: "j + unat n \<le> unat (bit_cnt b)" using assms by (simp add: run_at_def)
  then have "j < 2 ^ 32" using unat32_lt[of "bit_cnt b"] by simp
  then show u: "unat (of_nat j :: size_t) = j" by (simp add: unat_of_nat take_bit_nat_eq_self)
  show "unat (of_nat j :: size_t) + unat n \<le> unat (bit_cnt b)" using * u by simp
qed

text \<open>The only index that could be confused with \<open>BITMAP_ERROR\<close> is ruled out for a non-empty run.\<close>

lemma run_at_not_error:
  assumes "run_at (bits_of b) j (unat n) v" and "0 < n"
  shows "(of_nat j :: size_t) \<noteq> BITMAP_ERROR"
proof
  assume "(of_nat j :: size_t) = BITMAP_ERROR"
  then have "unat (of_nat j :: size_t) = 4294967295"
    by (simp add: unsigned_minus_1_eq_mask mask_eq_exp_minus_1)
  then have "4294967295 + unat n \<le> unat (bit_cnt b)" using run_at_bounds[OF assms(1)] by simp
  moreover have "0 < unat n" using assms(2) by (simp add: word_less_nat_alt)
  ultimately show False using unat32_lt[of "bit_cnt b"] by simp
qed

lemma bitmap_scan_and_flip_bits:
  assumes "wf_bitmap b" and "s \<le> bit_cnt b" and "0 < n"
  shows "(\<exists>j b'. bitmap_scan_and_flip b s n v = Inr (of_nat j, b') \<and> of_nat j \<noteq> BITMAP_ERROR
      \<and> first_run (bits_of b) (unat s) (unat n) v j \<and> wf_bitmap b' \<and> bit_cnt b' = bit_cnt b
      \<and> bits_of b' = set_range (bits_of b) j (unat n) (\<not> v))
    \<or> bitmap_scan_and_flip b s n v = Inr (BITMAP_ERROR, b)
      \<and> (\<forall>j. unat s \<le> j \<longrightarrow> \<not> run_at (bits_of b) j (unat n) v)"
  using bitmap_scan_bits[OF assms(1,2), of n v]
proof (elim disjE exE conjE)
  fix j assume j: "bitmap_scan b s n v = Inr (of_nat j)" "first_run (bits_of b) (unat s) (unat n) v j"
  then have r: "run_at (bits_of b) j (unat n) v" by (simp add: first_run_def)
  note B = run_at_bounds[OF r] and E = run_at_not_error[OF r assms(3)]
  from bitmap_set_multiple_bits[OF assms(1) B(2), of "\<not> v"] j E show ?thesis
    by (auto simp: bitmap_scan_and_flip_def B(1))
qed (simp add: bitmap_scan_and_flip_def)

section \<open>Creation and files\<close>

lemma elem_cnt_unat:
  assumes "unat n + 31 < 2 ^ 32"
  shows "unat (elem_cnt n) = (unat n + 31) div 32"
    and "unat (byte_cnt n) = 4 * unat (elem_cnt n)"
proof -
  have "n + ELEM_BITS - 1 = n + 31" by simp
  moreover have "unat (n + 31) = unat n + 31" using assms by (simp add: unat_word_ariths)
  moreover have "unat (32 :: size_t) = 32" by simp
  ultimately show e: "unat (elem_cnt n) = (unat n + 31) div 32"
    unfolding elem_cnt_def unat_div by presburger
  have "4 * ((unat n + 31) div 32) < 2 ^ 32" using assms by linarith
  then show "unat (byte_cnt n) = 4 * unat (elem_cnt n)"
    using e by (simp add: byte_cnt_def unat_word_ariths)
qed

lemma bitmap_create_zeroed:
  assumes "unat n + 31 < 2 ^ 32" and "\<And>store. malloc (byte_cnt n) = Some store
    \<Longrightarrow> length store = unat (elem_cnt n)"
  shows "\<exists>r. bitmap_create hdr malloc n = Inr r \<and> (case r of
      Some b \<Rightarrow> wf_bitmap b \<and> bits_of b = replicate (unat n) False
    | None \<Rightarrow> \<not> hdr \<or> malloc (byte_cnt n) = None)"
proof -
  have "\<exists>b. bitmap_set_all \<lparr>bit_cnt = n, bits = store\<rparr> False = Inr b \<and> wf_bitmap b
      \<and> bits_of b = replicate (unat n) False" if "unat n \<le> 32 * length store" for store
    using bitmap_set_all_bits[of "\<lparr>bit_cnt = n, bits = store\<rparr>" False] that
    by (auto simp: wf_bitmap_def)
  note * = this
  show ?thesis
  proof (cases "malloc (byte_cnt n)")
    case None
    with *[of "[]"] show ?thesis by (auto simp: bitmap_create_def)
  next
    case (Some store)
    with assms elem_cnt_unat[OF assms(1)] have "unat n \<le> 32 * length store" by simp
    with *[of store] Some show ?thesis by (auto simp: bitmap_create_def)
  qed
qed

lemma last_mask_bit:
  "k < 32 \<Longrightarrow> bit (last_mask b) k \<longleftrightarrow> unat (bit_cnt b) mod 32 = 0 \<or> k < unat (bit_cnt b) mod 32"
proof -
  assume k: "k < 32"
  have u: "unat (bit_cnt b mod 32) = unat (bit_cnt b) mod 32" by (simp add: unat_mod)
  then have z: "(bit_cnt b mod 32 = 0) = (unat (bit_cnt b) mod 32 = 0)" by (metis unat_eq_0)
  show ?thesis
  proof (cases "bit_cnt b mod 32 = 0")
    case True
    then show ?thesis using k z by (simp add: last_mask_def)
  next
    case False
    have "last_mask b = mask (unat (bit_cnt b) mod 32)"
      using False u by (simp add: last_mask_def mask_eq_exp_minus_1 push_bit_eq_mult)
    then show ?thesis using False z k by (simp add: bit_simps)
  qed
qed

lemma last_element_index:
  fixes i c :: nat
  assumes "i div 32 = (c + 31) div 32 - 1" and "i < c" and "c mod 32 \<noteq> 0"
  shows "i mod 32 < c mod 32"
proof -
  obtain q r where c: "c = 32 * q + r" "r < 32" by (metis div_mod_decomp mult.commute mod_less_divisor zero_less_numeral)
  with assms(3) have "0 < r" by (cases r) simp_all
  then have "(c + 31) div 32 = q + 1" using c by simp
  then have "i div 32 = q" using assms(1) by simp
  then have "i = 32 * q + i mod 32" by (metis div_mod_decomp mult.commute)
  then show ?thesis using assms(2) c by simp
qed

lemma length_bitmap_bytes:
  "unat (bit_cnt b) + 31 < 2 ^ 32 \<Longrightarrow> length (bits b) = unat (elem_cnt (bit_cnt b)) \<Longrightarrow>
    length (bitmap_bytes b) = unat (byte_cnt (bit_cnt b))"
  using elem_cnt_unat(2)[of "bit_cnt b"] by (simp add: bitmap_bytes_def)

lemma load_bitmap_bytes:
  assumes "0 < bit_cnt b" and "unat (bit_cnt b) + 31 < 2 ^ 32" and "bit_cnt b0 = bit_cnt b"
    and "length (bits b) = unat (elem_cnt (bit_cnt b))"
    and "length (bits b0) = unat (elem_cnt (bit_cnt b))"
  shows "\<exists>b'. load_bits b0 (bitmap_bytes b) = Inr b' \<and> bit_cnt b' = bit_cnt b
    \<and> bits_of b' = bits_of b"
proof -
  let ?c = "unat (bit_cnt b)" and ?e = "unat (elem_cnt (bit_cnt b))"
  note E = elem_cnt_unat[OF assms(2)]
  have c: "0 < ?c" using assms(1) by (simp add: word_less_nat_alt)
  then have e: "0 < ?e" using E(1) by simp
  then have e0: "elem_cnt (bit_cnt b) \<noteq> 0" by auto
  have u: "unat (elem_cnt (bit_cnt b) - 1) = ?e - 1" using e0 by (simp add: unat_minus_one)
  have w: "bitmap_bytes b = words_bytes (bits b)"
    using assms(4) E(2) by (simp add: bitmap_bytes_def)
  let ?x = "bits b ! (?e - 1) AND last_mask b0"
  define b' where "b' = b0\<lparr>bits := (bits b)[?e - 1 := ?x]\<rparr>"
  have sz: "unat (byte_cnt (bit_cnt b)) = length (words_bytes (bits b))"
    "length (words_bytes (bits b)) = length (words_bytes (bits b0))"
    using assms(4,5) E(2) by simp_all
  have "upd_elem (b0\<lparr>bits := bits b\<rparr>) (elem_cnt (bit_cnt b) - 1) (\<lambda>x. x AND last_mask b0) = Inr b'"
    using e assms(4) unfolding upd_elem_def u b'_def by simp
  moreover have "take (unat (byte_cnt (bit_cnt b))) (words_bytes (bits b)) = words_bytes (bits b)"
    "drop (length (words_bytes (bits b))) (words_bytes (bits b0)) = []"
    unfolding sz by (simp_all only: take_all drop_all sz order_refl)
  ultimately have "load_bits b0 (bitmap_bytes b) = Inr b'"
    unfolding load_bits_def w assms(3) by (simp only: append_Nil2 bytes_words_words_bytes)
  moreover have "bget b' i = bget b i" if "i < ?c" for i
  proof (cases "i div 32 = ?e - 1")
    case True
    have m: "?c mod 32 = 0 \<or> i mod 32 < ?c mod 32"
      using last_element_index[of i ?c] True that E(1) by auto
    have "bget b' i = (bit (bits b ! (?e - 1)) (i mod 32) \<and> bit (last_mask b0) (i mod 32))"
      using True e assms(4) by (simp add: bget_def b'_def bit_simps)
    then show ?thesis using m True last_mask_bit[of "i mod 32" b0] assms(3) by (simp add: bget_def)
  qed (simp add: bget_def b'_def)
  then have "bits_of b' = bits_of b"
    using assms(3) by (intro nth_equalityI) (simp_all add: b'_def)
  ultimately show ?thesis using assms(3) by (auto simp: b'_def)
qed

section \<open>A bitmap as an allocator of slots\<close>

text \<open>
  What the users of a bitmap rely on: \<open>alloc s n\<close> finds the first \<open>n\<close> adjacent free slots
  and marks them used, or reports that there are none; \<open>release\<close> makes slots free again.
\<close>

locale slot_allocator =
  fixes inv :: "'s \<Rightarrow> bool" and cap :: "'s \<Rightarrow> nat" and used :: "'s \<Rightarrow> nat set"
    and alloc :: "'s \<Rightarrow> size_t \<Rightarrow> (nat option \<times> 's) res"
    and release :: "'s \<Rightarrow> size_t \<Rightarrow> size_t \<Rightarrow> 's res"
  assumes alloc_law: "inv s \<Longrightarrow> 0 < n \<Longrightarrow> \<exists>r s'. alloc s n = Inr (r, s') \<and> inv s' \<and> cap s' = cap s \<and>
      (case r of
         None \<Rightarrow> s' = s \<and> (\<forall>i. i + unat n \<le> cap s \<longrightarrow> {i..<i + unat n} \<inter> used s \<noteq> {})
       | Some i \<Rightarrow> i + unat n \<le> cap s \<and> {i..<i + unat n} \<inter> used s = {}
           \<and> used s' = used s \<union> {i..<i + unat n})"
    and release_law: "inv s \<Longrightarrow> unat i + unat n \<le> cap s \<Longrightarrow> \<exists>s'. release s i n = Inr s' \<and> inv s' \<and>
      cap s' = cap s \<and> used s' = used s - {unat i..<unat i + unat n}"
begin

lemma alloc_release:
  assumes "inv s" and "0 < n" and "alloc s n = Inr (Some i, s1)" and "cap s < 2 ^ 32"
  shows "\<exists>s2. release s1 (of_nat i) n = Inr s2 \<and> inv s2 \<and> used s2 = used s"
proof -
  from alloc_law[OF assms(1,2)] assms(3) have a: "inv s1" "cap s1 = cap s" "i + unat n \<le> cap s"
    "{i..<i + unat n} \<inter> used s = {}" "used s1 = used s \<union> {i..<i + unat n}" by auto
  have "unat (of_nat i :: size_t) = i" using a(3) assms(4) by (simp add: unat_of_nat take_bit_nat_eq_self)
  with release_law[OF a(1), of "of_nat i" n] a show ?thesis by (auto simp: Diff_triv Un_Diff)
qed

end

text \<open>A sequence of requests; the slots granted so far are collected.\<close>

fun alloc_all :: "('s \<Rightarrow> size_t \<Rightarrow> (nat option \<times> 's) res) \<Rightarrow> 's \<Rightarrow> size_t list
    \<Rightarrow> ((nat \<times> size_t) list \<times> 's) res" where
  "alloc_all alloc s [] = Inr ([], s)"
| "alloc_all alloc s (n # ns) =
     bnd (alloc s n) (\<lambda>(r, s).
     bnd (alloc_all alloc s ns) (\<lambda>(gs, s).
     Inr ((case r of None \<Rightarrow> gs | Some i \<Rightarrow> (i, n) # gs), s)))"

abbreviation slots :: "nat \<times> size_t \<Rightarrow> nat set" where
  "slots g \<equiv> {fst g..<fst g + unat (snd g)}"

context slot_allocator
begin

lemma alloc_all_disjoint:
  assumes "inv s" and "\<forall>n \<in> set ns. 0 < n"
  shows "\<exists>gs s'. alloc_all alloc s ns = Inr (gs, s') \<and> inv s' \<and> cap s' = cap s \<and>
    used s' = used s \<union> (\<Union>g \<in> set gs. slots g) \<and>
    (\<forall>g \<in> set gs. slots g \<inter> used s = {} \<and> fst g + unat (snd g) \<le> cap s) \<and>
    sorted_wrt (\<lambda>g g'. slots g \<inter> slots g' = {}) gs"
  using assms
proof (induction ns arbitrary: s)
  case (Cons n ns)
  then obtain r s1 where s1: "alloc s n = Inr (r, s1)" "inv s1" "cap s1 = cap s" and
    r: "case r of None \<Rightarrow> s1 = s | Some i \<Rightarrow> i + unat n \<le> cap s \<and> {i..<i + unat n} \<inter> used s = {}
      \<and> used s1 = used s \<union> {i..<i + unat n}"
    using alloc_law[of s n] by (force split: option.splits)
  from Cons.IH[OF s1(2)] Cons.prems obtain gs s2 where
    s2: "alloc_all alloc s1 ns = Inr (gs, s2)" "inv s2" "cap s2 = cap s1"
      "used s2 = used s1 \<union> (\<Union>g \<in> set gs. slots g)"
      "\<forall>g \<in> set gs. slots g \<inter> used s1 = {} \<and> fst g + unat (snd g) \<le> cap s1"
      "sorted_wrt (\<lambda>g g'. slots g \<inter> slots g' = {}) gs" by auto
  show ?case
  proof (cases r)
    case None
    with s1 s2 r show ?thesis by auto
  next
    case (Some i)
    with r have i: "i + unat n \<le> cap s" "{i..<i + unat n} \<inter> used s = {}"
      "used s1 = used s \<union> {i..<i + unat n}" by auto
    have "slots g \<inter> used s = {} \<and> slots (i, n) \<inter> slots g = {}" if "g \<in> set gs" for g
      using s2(5) that unfolding i(3) by fastforce
    with s1 s2 i Some show ?thesis by auto
  qed
qed simp

end

definition used_of :: "bitmap \<Rightarrow> nat set" where
  "used_of b = {i. i < unat (bit_cnt b) \<and> bits_of b ! i}"

definition bitmap_alloc :: "bitmap \<Rightarrow> size_t \<Rightarrow> (nat option \<times> bitmap) res" where
  "bitmap_alloc b n =
     bnd (bitmap_scan_and_flip b 0 n False) (\<lambda>(idx, b).
     Inr (if idx = BITMAP_ERROR then None else Some (unat idx), b))"

lemma run_at_used:
  "run_at (bits_of b) i n False \<longleftrightarrow> i + n \<le> unat (bit_cnt b) \<and> {i..<i + n} \<inter> used_of b = {}"
proof -
  have "(\<forall>j < n. \<not> bits_of b ! (i + j)) = (\<forall>k. i \<le> k \<and> k < i + n \<longrightarrow> \<not> bits_of b ! k)"
    by (metis add_less_cancel_left le_add1 le_add_diff_inverse)
  then show ?thesis by (auto simp: run_at_def used_of_def)
qed

lemma used_set_range:
  assumes "bit_cnt b' = bit_cnt b" and "bits_of b' = set_range (bits_of b) i n v"
    and "i + n \<le> unat (bit_cnt b)"
  shows "used_of b' = (if v then used_of b \<union> {i..<i + n} else used_of b - {i..<i + n})"
  using assms(1,3) by (auto simp: used_of_def assms(2) simp del: nth_bits_of split: if_splits)

lemma bitmap_alloc_cases:
  assumes "wf_bitmap b" and "0 < n"
  shows "(\<exists>i b'. bitmap_alloc b n = Inr (Some i, b') \<and> wf_bitmap b' \<and> bit_cnt b' = bit_cnt b \<and>
      run_at (bits_of b) i (unat n) False \<and> bits_of b' = set_range (bits_of b) i (unat n) True)
    \<or> bitmap_alloc b n = Inr (None, b) \<and> (\<forall>i. \<not> run_at (bits_of b) i (unat n) False)"
  using bitmap_scan_and_flip_bits[OF assms(1) _ assms(2), of 0 False]
proof (simp, elim disjE exE conjE)
  fix j b' assume j: "bitmap_scan_and_flip b 0 n False = Inr (of_nat j, b')" "of_nat j \<noteq> BITMAP_ERROR"
    "first_run (bits_of b) 0 (unat n) False j" "wf_bitmap b'" "bit_cnt b' = bit_cnt b"
    "bits_of b' = set_range (bits_of b) j (unat n) True"
  then have r: "run_at (bits_of b) j (unat n) False" by (simp add: first_run_def)
  with j run_at_bounds(1)[OF r] show ?thesis by (auto simp: bitmap_alloc_def)
qed (simp add: bitmap_alloc_def)

interpretation bma: slot_allocator wf_bitmap "\<lambda>b. unat (bit_cnt b)" used_of bitmap_alloc
  "\<lambda>b i n. bitmap_set_multiple b i n False"
proof
  fix b :: bitmap and n :: size_t assume "wf_bitmap b" "0 < n"
  from bitmap_alloc_cases[OF this]
  show "\<exists>r s'. bitmap_alloc b n = Inr (r, s') \<and> wf_bitmap s' \<and> unat (bit_cnt s') = unat (bit_cnt b) \<and>
      (case r of
         None \<Rightarrow> s' = b \<and> (\<forall>i. i + unat n \<le> unat (bit_cnt b) \<longrightarrow> {i..<i + unat n} \<inter> used_of b \<noteq> {})
       | Some i \<Rightarrow> i + unat n \<le> unat (bit_cnt b) \<and> {i..<i + unat n} \<inter> used_of b = {}
           \<and> used_of s' = used_of b \<union> {i..<i + unat n})"
    using \<open>wf_bitmap b\<close> used_set_range[of _ b _ "unat n" True] unfolding run_at_used
    by (elim disjE exE conjE) auto
next
  fix b :: bitmap and i n :: size_t assume "wf_bitmap b" "unat i + unat n \<le> unat (bit_cnt b)"
  from bitmap_set_multiple_bits[OF this, of False] this
  show "\<exists>s'. bitmap_set_multiple b i n False = Inr s' \<and> wf_bitmap s' \<and>
      unat (bit_cnt s') = unat (bit_cnt b) \<and> used_of s' = used_of b - {unat i..<unat i + unat n}"
    using used_set_range[of _ b "unat i" "unat n" False] by auto
qed

section \<open>Properties\<close>

definition demo_bitmap :: bitmap where
  "demo_bitmap = \<lparr>bit_cnt = 40, bits = [7, 1]\<rparr>"

lemma demo_bitmap_wf: "wf_bitmap demo_bitmap"
  by (simp add: wf_bitmap_def demo_bitmap_def)

text \<open>
  \<open>bitmap_scan\<close> returns the least index from \<open>start\<close> on at which \<open>cnt\<close> adjacent bits
  have the wanted value, and \<open>BITMAP_ERROR\<close> exactly when there is no such group.
\<close>

theorem bitmap_scan_correct:
  assumes "wf_bitmap b" and "s \<le> bit_cnt b"
  shows "(\<exists>j. bitmap_scan b s n v = Inr (of_nat j) \<and> first_run (bits_of b) (unat s) (unat n) v j)
    \<or> bitmap_scan b s n v = Inr BITMAP_ERROR
      \<and> (\<forall>j. unat s \<le> j \<longrightarrow> \<not> run_at (bits_of b) j (unat n) v)"
  by (rule bitmap_scan_bits[OF assms])

theorem bitmap_scan_correct_witness:
  "(\<exists>j. bitmap_scan demo_bitmap 1 4 False = Inr (of_nat j) \<and>
      first_run (bits_of demo_bitmap) 1 4 False j)
    \<or> bitmap_scan demo_bitmap 1 4 False = Inr BITMAP_ERROR
      \<and> (\<forall>j. 1 \<le> j \<longrightarrow> \<not> run_at (bits_of demo_bitmap) j 4 False)"
  using bitmap_scan_correct[OF demo_bitmap_wf, of 1 4 False] by (simp add: demo_bitmap_def)

text \<open>
  (C34) \<open>bitmap_scan_and_flip\<close> for a non-empty group changes exactly the bits of the group it
  returns and nothing on failure; an index is never confused with \<open>BITMAP_ERROR\<close>.
\<close>

theorem bitmap_scan_and_flip_correct:
  assumes "wf_bitmap b" and "s \<le> bit_cnt b" and "0 < n"
  shows "(\<exists>j b'. bitmap_scan_and_flip b s n v = Inr (of_nat j, b') \<and> of_nat j \<noteq> BITMAP_ERROR
      \<and> first_run (bits_of b) (unat s) (unat n) v j \<and> wf_bitmap b' \<and> bit_cnt b' = bit_cnt b
      \<and> bits_of b' = set_range (bits_of b) j (unat n) (\<not> v))
    \<or> bitmap_scan_and_flip b s n v = Inr (BITMAP_ERROR, b)
      \<and> (\<forall>j. unat s \<le> j \<longrightarrow> \<not> run_at (bits_of b) j (unat n) v)"
  by (rule bitmap_scan_and_flip_bits[OF assms])

theorem bitmap_scan_and_flip_correct_witness:
  "\<exists>r b'. bitmap_scan_and_flip demo_bitmap 0 2 False = Inr (r, b')"
  using bitmap_scan_and_flip_correct[OF demo_bitmap_wf, of 0 2 False]
  by (auto simp: demo_bitmap_def)

text \<open>
  Any sequence of allocations from a bitmap terminates without panic, never hands out
  a slot that was in use or was handed out before, stays inside the bitmap, and marks
  exactly the granted slots.
\<close>

theorem bitmap_allocations_disjoint:
  assumes "wf_bitmap b" and "\<forall>n \<in> set ns. 0 < n"
  shows "\<exists>gs b'. alloc_all bitmap_alloc b ns = Inr (gs, b') \<and> wf_bitmap b' \<and>
    used_of b' = used_of b \<union> (\<Union>g \<in> set gs. slots g) \<and>
    (\<forall>g \<in> set gs. slots g \<inter> used_of b = {} \<and> fst g + unat (snd g) \<le> unat (bit_cnt b)) \<and>
    sorted_wrt (\<lambda>g g'. slots g \<inter> slots g' = {}) gs"
  using bma.alloc_all_disjoint[OF assms] by blast

theorem bitmap_allocations_disjoint_witness:
  "\<exists>gs b'. alloc_all bitmap_alloc demo_bitmap [3, 1] = Inr (gs, b') \<and> wf_bitmap b' \<and>
    sorted_wrt (\<lambda>g g'. slots g \<inter> slots g' = {}) gs"
proof -
  have "\<forall>n \<in> set [3, 1 :: size_t]. 0 < n" by simp
  from bitmap_allocations_disjoint[OF demo_bitmap_wf this] show ?thesis by blast
qed

text \<open>
  \<open>bitmap_set_multiple\<close> and the queries \<open>bitmap_count\<close>, \<open>bitmap_any\<close>, \<open>bitmap_none\<close> and
  \<open>bitmap_all\<close> act on the addressed range of bits only: after setting a range to a value,
  the range holds that value throughout and all other bits are unchanged.
\<close>

theorem bitmap_set_multiple_correct:
  assumes "wf_bitmap b" and "unat s + unat n \<le> unat (bit_cnt b)"
  shows "\<exists>b'. bitmap_set_multiple b s n v = Inr b' \<and> wf_bitmap b' \<and> bit_cnt b' = bit_cnt b \<and>
    (\<forall>i < unat (bit_cnt b). bits_of b' ! i =
       (if unat s \<le> i \<and> i < unat s + unat n then v else bits_of b ! i)) \<and>
    bitmap_count b' s n v = Inr n \<and> bitmap_all b' s n = Inr (v \<or> n = 0) \<and>
    bitmap_none b' s n = Inr (\<not> v \<or> n = 0) \<and> bitmap_any b' s n = Inr (v \<and> n \<noteq> 0)"
proof -
  obtain b' where b': "bitmap_set_multiple b s n v = Inr b'" "wf_bitmap b'" "bit_cnt b' = bit_cnt b"
    "bits_of b' = set_range (bits_of b) (unat s) (unat n) v"
    using bitmap_set_multiple_bits[OF assms, of v] by blast
  have le: "unat s + unat n \<le> unat (bit_cnt b')" using assms(2) b'(3) by simp
  have sl: "slice (bits_of b') (unat s) (unat n) = replicate (unat n) v"
    using assms(2) b'(3) by (intro nth_equalityI) (simp_all add: b'(4) del: nth_bits_of)
  have z: "(unat n = 0) = (n = 0)" by (simp add: unat_eq_0)
  note q = bitmap_queries[OF b'(2) le, unfolded sl]
  have "bitmap_count b' s n v = Inr n" "bitmap_all b' s n = Inr (v \<or> n = 0)"
    "bitmap_none b' s n = Inr (\<not> v \<or> n = 0)" "bitmap_any b' s n = Inr (v \<and> n \<noteq> 0)"
    using q(1)[of v] q(3-5) z by (auto simp: set_replicate_conv_if)
  then show ?thesis using b' by (simp del: nth_bits_of)
qed

theorem bitmap_set_multiple_correct_witness:
  "\<exists>b'. bitmap_set_multiple demo_bitmap 5 20 True = Inr b' \<and> bitmap_count b' 5 20 True = Inr 20"
  using bitmap_set_multiple_correct[OF demo_bitmap_wf, of 5 20 True] by (auto simp: demo_bitmap_def)

text \<open>
  The comment of \<open>bitmap_scan_and_flip\<close> says that it returns 0 for an empty group; it
  returns \<open>start\<close>.
\<close>

theorem bitmap_scan_and_flip_empty_group:
  assumes "wf_bitmap b" and "s < bit_cnt b"
  shows "bitmap_scan_and_flip b s 0 v = Inr (s, b)"
proof -
  have u: "unat s < unat (bit_cnt b)" using assms(2) by (simp add: word_less_nat_alt)
  have "first_run (bits_of b) (unat s) 0 v j \<longleftrightarrow> j = unat s" for j
    using u by (auto simp: first_run_def run_at_def)
  moreover have "run_at (bits_of b) (unat s) 0 v" using u by (simp add: run_at_def)
  ultimately have "bitmap_scan b s 0 v = Inr s"
    using bitmap_scan_bits[OF assms(1) order_less_imp_le[OF assms(2)], of 0 v] by auto
  moreover have "s \<noteq> BITMAP_ERROR" using assms(2) by (metis word_not_simps(3) not_less_iff_gr_or_eq)
  ultimately show ?thesis
    using bitmap_set_multiple_bits[OF assms(1), of s 0 "\<not> v"] u assms(2)
    by (simp add: bitmap_scan_and_flip_def bitmap_set_multiple_def)
qed

theorem bitmap_scan_and_flip_empty_group_witness:
  "bitmap_scan_and_flip demo_bitmap 5 0 True = Inr (5, demo_bitmap)"
  using bitmap_scan_and_flip_empty_group[OF demo_bitmap_wf, of 5 True] by (simp add: demo_bitmap_def)

end
