(* ===== verification/Khash.thy ===== *)
theory Khash
  imports Klist_Order
begin

text \<open>
  The hash tables of \<open>lib/kernel/hash.c\<close>. A bucket is represented by the sequence of its
  elements; the list operations that hash.c performs on a bucket are those shown in
  \<open>Klist\<close> to act on the sequence this way. The hash and comparison functions are fields
  of the table, as in the source. Whether a \<open>malloc\<close> succeeds is an argument (\<open>mem\<close>) of
  the operations that allocate.

  The lemmas show the table invariant (power-of-two bucket count, every element in the
  bucket its hash selects, no two equal elements, an exact element count), that every
  operation keeps it whether or not memory is available, that find, insert, replace and
  delete act as on a set of elements up to equality, that rehashing keeps the elements and
  restores the load bound, and that iteration visits every element exactly once.
\<close>

unbundle bit_operations_syntax

section \<open>Data and operations\<close>

record 'e hash_tbl =
  h_elem_cnt :: size_t
  h_bucket_cnt :: size_t
  h_buckets :: "'e list list"
  h_hash :: "'e \<Rightarrow> 32 word"
  h_less :: "'e \<Rightarrow> 'e \<Rightarrow> bool"

definition bucket_idx :: "'e hash_tbl \<Rightarrow> 'e \<Rightarrow> nat" where
  "bucket_idx h e = unat (h_hash h e AND (h_bucket_cnt h - 1))"

definition find_bucket :: "'e hash_tbl \<Rightarrow> 'e \<Rightarrow> nat res" where
  "find_bucket h e =
     (if bucket_idx h e < length (h_buckets h) then Inr (bucket_idx h e)
      else Inl (Fault ''find_bucket''))"

fun find_elem :: "'e hash_tbl \<Rightarrow> 'e list \<Rightarrow> 'e \<Rightarrow> 'e option" where
  "find_elem h [] e = None"
| "find_elem h (hi # bucket) e =
     (if \<not> h_less h hi e \<and> \<not> h_less h e hi then Some hi else find_elem h bucket e)"

definition insert_elem :: "'e hash_tbl \<Rightarrow> nat \<Rightarrow> 'e \<Rightarrow> 'e hash_tbl" where
  "insert_elem h i e = h\<lparr>h_elem_cnt := h_elem_cnt h + 1,
     h_buckets := (h_buckets h)[i := e # h_buckets h ! i]\<rparr>"

text \<open>\<open>list_remove\<close> unlinks the element from whichever bucket holds it.\<close>

definition remove_elem :: "'e hash_tbl \<Rightarrow> 'e \<Rightarrow> 'e hash_tbl" where
  "remove_elem h e = h\<lparr>h_elem_cnt := h_elem_cnt h - 1,
     h_buckets := map (remove1 e) (h_buckets h)\<rparr>"

definition turn_off_least_1bit :: "size_t \<Rightarrow> size_t" where
  "turn_off_least_1bit x = x AND (x - 1)"

definition is_power_of_2 :: "size_t \<Rightarrow> bool" where
  "is_power_of_2 x \<longleftrightarrow> x \<noteq> 0 \<and> turn_off_least_1bit x = 0"

lemma turn_off_less: "x \<noteq> 0 \<Longrightarrow> turn_off_least_1bit x < x"
proof -
  assume "x \<noteq> 0"
  then have "x - 1 < x" by (metis word_gt_0 measure_unat word_less_nat_alt)
  moreover have "turn_off_least_1bit x \<le> x - 1" unfolding turn_off_least_1bit_def by (rule word_and_le1)
  ultimately show ?thesis by simp
qed

text \<open>The loop that turns off low bits until a power of two is left. It would run forever
  on 0, where \<open>turn_off_least_1bit\<close> changes nothing.\<close>

function pow2_loop :: "size_t \<Rightarrow> size_t res" where
  "pow2_loop n =
     (if is_power_of_2 n then Inr n
      else if n = 0 then Inl OutOfFuel
      else pow2_loop (turn_off_least_1bit n))"
  by pat_completeness auto
termination
  by (relation "measure unat") (auto simp: word_less_nat_alt[symmetric] turn_off_less)

declare pow2_loop.simps [simp del]

fun move_elems :: "'e hash_tbl \<Rightarrow> 'e list \<Rightarrow> 'e hash_tbl res" where
  "move_elems h [] = Inr h"
| "move_elems h (e # es) =
     bnd (find_bucket h e) (\<lambda>i.
     move_elems (h\<lparr>h_buckets := (h_buckets h)[i := e # h_buckets h ! i]\<rparr>) es)"

fun move_buckets :: "'e hash_tbl \<Rightarrow> 'e list list \<Rightarrow> 'e hash_tbl res" where
  "move_buckets h [] = Inr h"
| "move_buckets h (b # bs) = bnd (move_elems h b) (\<lambda>h. move_buckets h bs)"

definition rehash :: "bool \<Rightarrow> 'e hash_tbl \<Rightarrow> 'e hash_tbl res" where
  "rehash mem h =
     (let n = h_elem_cnt h div 2;
          n = (if n < 4 then 4 else n)
      in bnd (pow2_loop n) (\<lambda>new_bucket_cnt.
         if new_bucket_cnt = h_bucket_cnt h then Inr h
         else if \<not> mem then Inr h
         else move_buckets
                (h\<lparr>h_buckets := replicate (unat new_bucket_cnt) [],
                   h_bucket_cnt := new_bucket_cnt\<rparr>)
                (take (unat (h_bucket_cnt h)) (h_buckets h))))"

definition hash_clear :: "'e hash_tbl \<Rightarrow> ('e \<Rightarrow> 's \<Rightarrow> 's) option \<Rightarrow> 's \<Rightarrow> 's \<times> 'e hash_tbl" where
  "hash_clear h destructor s =
     (case destructor of
        Some d \<Rightarrow> fold (\<lambda>bucket s. fold d bucket s) (h_buckets h) s
      | None \<Rightarrow> s,
      h\<lparr>h_buckets := map (\<lambda>_. []) (h_buckets h), h_elem_cnt := 0\<rparr>)"

definition hash_init :: "bool \<Rightarrow> ('e \<Rightarrow> 32 word) \<Rightarrow> ('e \<Rightarrow> 'e \<Rightarrow> bool) \<Rightarrow> 'e hash_tbl option" where
  "hash_init mem hash lt =
     (if mem
      then Some (snd (hash_clear \<lparr>h_elem_cnt = 0, h_bucket_cnt = 4, h_buckets = replicate 4 [],
             h_hash = hash, h_less = lt\<rparr> None ()))
      else None)"

definition hash_destroy :: "'e hash_tbl \<Rightarrow> ('e \<Rightarrow> 's \<Rightarrow> 's) option \<Rightarrow> 's \<Rightarrow> 's" where
  "hash_destroy h destructor s =
     (case destructor of Some d \<Rightarrow> fst (hash_clear h (Some d) s) | None \<Rightarrow> s)"

definition hash_insert :: "bool \<Rightarrow> 'e hash_tbl \<Rightarrow> 'e \<Rightarrow> ('e option \<times> 'e hash_tbl) res" where
  "hash_insert mem h e =
     bnd (find_bucket h e) (\<lambda>i.
     let old = find_elem h (h_buckets h ! i) e
     in bnd (rehash mem (if old = None then insert_elem h i e else h)) (\<lambda>h. Inr (old, h)))"

definition hash_replace :: "bool \<Rightarrow> 'e hash_tbl \<Rightarrow> 'e \<Rightarrow> ('e option \<times> 'e hash_tbl) res" where
  "hash_replace mem h e =
     bnd (find_bucket h e) (\<lambda>i.
     let old = find_elem h (h_buckets h ! i) e;
         h = (case old of Some x \<Rightarrow> remove_elem h x | None \<Rightarrow> h)
     in bnd (rehash mem (insert_elem h i e)) (\<lambda>h. Inr (old, h)))"

definition hash_find :: "'e hash_tbl \<Rightarrow> 'e \<Rightarrow> 'e option res" where
  "hash_find h e = bnd (find_bucket h e) (\<lambda>i. Inr (find_elem h (h_buckets h ! i) e))"

definition hash_delete :: "bool \<Rightarrow> 'e hash_tbl \<Rightarrow> 'e \<Rightarrow> ('e option \<times> 'e hash_tbl) res" where
  "hash_delete mem h e =
     bnd (find_bucket h e) (\<lambda>i.
     case find_elem h (h_buckets h ! i) e of
       Some found \<Rightarrow> bnd (rehash mem (remove_elem h found)) (\<lambda>h. Inr (Some found, h))
     | None \<Rightarrow> Inr (None, h))"

definition hash_apply :: "'e hash_tbl \<Rightarrow> ('e \<Rightarrow> 's \<Rightarrow> 's) \<Rightarrow> 's \<Rightarrow> 's" where
  "hash_apply h action s = fold (\<lambda>bucket s. fold action bucket s) (h_buckets h) s"

text \<open>
  An iterator: the current bucket and the position in it, where 0 is the bucket's list head
  and \<open>length + 1\<close> its end.
\<close>

record hash_iterator =
  it_bucket :: nat
  it_pos :: nat

definition hash_first :: "hash_iterator" where
  "hash_first = \<lparr>it_bucket = 0, it_pos = 0\<rparr>"

function next_bucket :: "'e hash_tbl \<Rightarrow> hash_iterator \<Rightarrow> hash_iterator option" where
  "next_bucket h it =
     (if it_pos it = length (h_buckets h ! it_bucket it) + 1
      then if length (h_buckets h) \<le> Suc (it_bucket it) then None
           else next_bucket h \<lparr>it_bucket = Suc (it_bucket it), it_pos = 1\<rparr>
      else Some it)"
  by pat_completeness auto
termination
  by (relation "measure (\<lambda>(h, it). length (h_buckets h) - it_bucket it)") auto

declare next_bucket.simps [simp del]

definition hash_next :: "'e hash_tbl \<Rightarrow> hash_iterator \<Rightarrow> ('e \<times> hash_iterator) option" where
  "hash_next h it =
     (case next_bucket h (it\<lparr>it_pos := it_pos it + 1\<rparr>) of
        None \<Rightarrow> None
      | Some it \<Rightarrow> Some (h_buckets h ! it_bucket it ! (it_pos it - 1), it))"

definition hash_size :: "'e hash_tbl \<Rightarrow> size_t" where
  "hash_size h = h_elem_cnt h"

definition hash_empty :: "'e hash_tbl \<Rightarrow> bool" where
  "hash_empty h \<longleftrightarrow> h_elem_cnt h = 0"

subsection \<open>Hash functions\<close>

abbreviation FNV_32_PRIME :: "32 word" where "FNV_32_PRIME \<equiv> 16777619"
abbreviation FNV_32_BASIS :: "32 word" where "FNV_32_BASIS \<equiv> 2166136261"

definition hash_bytes :: "u8 list \<Rightarrow> 32 word" where
  "hash_bytes buf = foldl (\<lambda>hash b. (hash * FNV_32_PRIME) XOR ucast b) FNV_32_BASIS buf"

text \<open>The string ends at the first zero byte; running past the end of the memory is a fault.\<close>

fun hash_string_loop :: "32 word \<Rightarrow> u8 list \<Rightarrow> 32 word res" where
  "hash_string_loop hash [] = Inl (Fault ''hash_string'')"
| "hash_string_loop hash (c # s) =
     (if c = 0 then Inr hash else hash_string_loop ((hash * FNV_32_PRIME) XOR ucast c) s)"

definition hash_string :: "u8 list \<Rightarrow> 32 word res" where
  "hash_string s = hash_string_loop FNV_32_BASIS s"

definition hash_int :: "32 word \<Rightarrow> 32 word" where
  "hash_int i = hash_bytes (le_bytes i)"

definition page_hash :: "(ptr \<Rightarrow> 32 word) \<Rightarrow> ptr \<Rightarrow> 32 word" where
  "page_hash pagenum e = hash_bytes (le_bytes (pagenum e))"

section \<open>Powers of two\<close>

lemma bit_top: "2 ^ k \<le> x \<Longrightarrow> x < 2 ^ Suc k \<Longrightarrow> bit (x :: nat) k"
proof -
  assume "2 ^ k \<le> x" "x < 2 ^ Suc k"
  then have "x div 2 ^ k = 1" by (simp add: div_nat_eqI)
  then show ?thesis by (simp add: bit_iff_odd)
qed

lemma bit_ge: "bit (x :: nat) k \<Longrightarrow> 2 ^ k \<le> x"
  by (metis bit_iff_odd div_less even_zero not_le)

lemma turn_off_top:
  assumes "2 ^ k \<le> unat x" and "unat x < 2 ^ Suc k" and "unat x \<noteq> 2 ^ k"
  shows "2 ^ k \<le> unat (turn_off_least_1bit x)" and "unat (turn_off_least_1bit x) < unat x"
proof -
  have x: "x \<noteq> 0" using assms(1) by auto
  then have u: "unat (x - 1) = unat x - 1" by (simp add: unat_minus_one)
  have "bit (unat x) k" using assms by (rule_tac bit_top)
  moreover have "bit (unat (x - 1)) k" unfolding u using assms by (intro bit_top) linarith+
  ultimately have "bit (unat x AND unat (x - 1)) k" by (simp add: bit_and_iff)
  then show "2 ^ k \<le> unat (turn_off_least_1bit x)"
    unfolding turn_off_least_1bit_def unsigned_and_eq by (rule bit_ge)
  show "unat (turn_off_least_1bit x) < unat x"
    using turn_off_less[OF x] by (simp add: word_less_nat_alt)
qed

lemma power_is_power_of_2: "k < 32 \<Longrightarrow> is_power_of_2 (2 ^ k)"
proof -
  assume "k < 32"
  moreover have "(2 ^ k :: size_t) AND mask k = 0"
    by (rule bit_word_eqI) (auto simp: bit_simps)
  ultimately show ?thesis
    by (simp add: is_power_of_2_def turn_off_least_1bit_def mask_eq_exp_minus_1)
qed

lemma pow2_loop_top:
  assumes "2 ^ k \<le> unat n" and "unat n < 2 ^ Suc k" and "k < 32"
  shows "pow2_loop n = Inr (2 ^ k)"
  using assms(1,2)
proof (induction n rule: pow2_loop.induct)
  case (1 n)
  show ?case
  proof (cases "unat n = 2 ^ k")
    case True
    then have "n = 2 ^ k" by (metis of_nat_numeral of_nat_power of_nat_unat ucast_id)
    then show ?thesis using power_is_power_of_2[OF assms(3)] by (simp add: pow2_loop.simps)
  next
    case False
    note T = turn_off_top[OF 1(2,3) False]
    have "\<not> is_power_of_2 n" using T(1) by (auto simp: is_power_of_2_def)
    moreover have "n \<noteq> 0" using 1(2) by auto
    ultimately show ?thesis using 1 T by (subst pow2_loop.simps) simp
  qed
qed

section \<open>The table invariant\<close>

definition elems :: "'e hash_tbl \<Rightarrow> 'e multiset" where
  "elems h = mset (concat (h_buckets h))"

text \<open>The layout: a power-of-two number of buckets, every element in the bucket of its hash.\<close>

definition placed :: "nat \<Rightarrow> 'e hash_tbl \<Rightarrow> bool" where
  "placed k h \<longleftrightarrow> k < 32 \<and> h_bucket_cnt h = 2 ^ k \<and> length (h_buckets h) = 2 ^ k \<and>
     (\<forall>i < 2 ^ k. \<forall>e \<in> set (h_buckets h ! i). bucket_idx h e = i)"

definition uniq :: "('e \<Rightarrow> 'e \<Rightarrow> bool) \<Rightarrow> 'e multiset \<Rightarrow> bool" where
  "uniq lt E \<longleftrightarrow> (\<forall>a. count E a \<le> 1) \<and> (\<forall>a \<in># E. \<forall>b \<in># E. equiv_to lt a b \<longrightarrow> a = b)"

definition hash_ok :: "'e hash_tbl \<Rightarrow> bool" where
  "hash_ok h \<longleftrightarrow> (\<exists>k \<ge> 2. placed k h) \<and> uniq (h_less h) (elems h) \<and>
     size (elems h) < 2 ^ 32 \<and> h_elem_cnt h = of_nat (size (elems h))"

lemma mset_concat_update:
  "i < length bs \<Longrightarrow> mset (concat (bs[i := e # bs ! i])) = add_mset e (mset (concat bs))"
proof (induction bs arbitrary: i)
  case (Cons b bs)
  then show ?case by (cases i) auto
qed simp

lemma bucket_idx_less:
  assumes "k < 32" and "h_bucket_cnt h = 2 ^ k"
  shows "bucket_idx h e < 2 ^ k"
proof -
  have "h_hash h e AND (h_bucket_cnt h - 1) = take_bit k (h_hash h e)"
    unfolding assms(2) take_bit_eq_mask mask_eq_exp_minus_1 ..
  then have "bucket_idx h e = take_bit k (unat (h_hash h e))"
    by (simp add: bucket_idx_def unsigned_take_bit_eq)
  then show ?thesis by (simp add: take_bit_nat_less_exp)
qed

lemma find_bucket_placed: "placed k h \<Longrightarrow> find_bucket h e = Inr (bucket_idx h e)"
  using bucket_idx_less[of k h e] by (simp add: find_bucket_def placed_def)

lemma bucket_idx_buckets [simp]:
  "bucket_idx (h\<lparr>h_buckets := bs\<rparr>) e = bucket_idx h e"
  "bucket_idx (h\<lparr>h_elem_cnt := c\<rparr>) e = bucket_idx h e"
  by (simp_all add: bucket_idx_def)

lemma placed_cong:
  "h_bucket_cnt h' = h_bucket_cnt h \<Longrightarrow> h_hash h' = h_hash h \<Longrightarrow> bucket_idx h' e = bucket_idx h e"
  by (simp add: bucket_idx_def)

lemma cnt_irrelevant [simp]:
  "placed k (h\<lparr>h_elem_cnt := c\<rparr>) = placed k h" "elems (h\<lparr>h_elem_cnt := c\<rparr>) = elems h"
  by (simp_all add: placed_def elems_def)

lemma placed_push:
  fixes e :: 'e
  assumes "placed k h"
  defines "h' \<equiv> h\<lparr>h_buckets := (h_buckets h)[bucket_idx h e := e # h_buckets h ! bucket_idx h e]\<rparr>"
  shows "placed k h'" and "elems h' = add_mset e (elems h)"
proof -
  have i: "bucket_idx h e < length (h_buckets h)"
    using assms(1) bucket_idx_less[of k h e] by (simp add: placed_def)
  then show "elems h' = add_mset e (elems h)"
    by (simp add: elems_def h'_def mset_concat_update)
  show "placed k h'" using assms(1) i by (auto simp: placed_def h'_def nth_list_update)
qed

lemma move_elems_placed:
  assumes "placed k h"
  shows "\<exists>bs. move_elems h es = Inr (h\<lparr>h_buckets := bs\<rparr>) \<and> placed k (h\<lparr>h_buckets := bs\<rparr>)
    \<and> elems (h\<lparr>h_buckets := bs\<rparr>) = elems h + mset es"
  using assms
proof (induction es arbitrary: h)
  case Nil
  then show ?case by (intro exI[of _ "h_buckets h"]) simp
next
  case (Cons e es)
  from Cons.IH[OF placed_push(1)[OF Cons.prems, of e]] placed_push(2)[OF Cons.prems, of e]
    find_bucket_placed[OF Cons.prems, of e]
  show ?case by auto
qed

lemma move_buckets_placed:
  assumes "placed k h"
  shows "\<exists>bs'. move_buckets h bs = Inr (h\<lparr>h_buckets := bs'\<rparr>) \<and> placed k (h\<lparr>h_buckets := bs'\<rparr>)
    \<and> elems (h\<lparr>h_buckets := bs'\<rparr>) = elems h + mset (concat bs)"
  using assms
proof (induction bs arbitrary: h)
  case Nil
  then show ?case by (intro exI[of _ "h_buckets h"]) simp
next
  case (Cons b bs)
  obtain b1 where b1: "move_elems h b = Inr (h\<lparr>h_buckets := b1\<rparr>)" "placed k (h\<lparr>h_buckets := b1\<rparr>)"
    "elems (h\<lparr>h_buckets := b1\<rparr>) = elems h + mset b" using move_elems_placed[OF Cons.prems, of b] by blast
  with Cons.IH[OF b1(2)] show ?case by (auto simp: ac_simps)
qed

text \<open>The bucket count \<open>rehash\<close> aims at: the greatest power of two below half the elements.\<close>

lemma top_bit: "0 < n \<Longrightarrow> \<exists>k. 2 ^ k \<le> n \<and> n < 2 ^ Suc k" for n :: nat
  using ex_power_ivl1[of 2 n] by auto

lemma rehash_target:
  fixes c :: size_t
  defines "n \<equiv> (if c div 2 < 4 then 4 else c div 2)"
  shows "\<exists>k. 2 \<le> k \<and> k < 32 \<and> pow2_loop n = Inr (2 ^ k) \<and> unat c < 4 * 2 ^ k"
proof -
  have d: "unat (c div 2) = unat c div 2" by (simp add: unat_div)
  have n4: "4 \<le> unat n" and cn: "unat c div 2 \<le> unat n"
    using d by (auto simp: n_def word_less_nat_alt)
  obtain k where k: "2 ^ k \<le> unat n" "unat n < 2 ^ Suc k" using top_bit[of "unat n"] n4 by auto
  have "k < 32"
  proof (rule ccontr)
    assume "\<not> k < 32"
    then have "(2 :: nat) ^ 32 \<le> 2 ^ k" by (intro power_increasing) auto
    then show False using k(1) unat32_lt[of n] by simp
  qed
  moreover have "2 \<le> k"
  proof (rule ccontr)
    assume "\<not> 2 \<le> k"
    then have "(2 :: nat) ^ Suc k \<le> 2 ^ 2" by (intro power_increasing) auto
    then show False using k(2) n4 by simp
  qed
  moreover have "unat c < 4 * 2 ^ k" using cn k(2) by simp
  ultimately show ?thesis using pow2_loop_top[OF k] by blast
qed

lemma rehash_placed:
  assumes "placed k h" and "2 \<le> k"
  shows "\<exists>h' k'. rehash mem h = Inr h' \<and> placed k' h' \<and> 2 \<le> k' \<and> elems h' = elems h \<and>
    h_elem_cnt h' = h_elem_cnt h \<and> h_hash h' = h_hash h \<and> h_less h' = h_less h \<and>
    (mem \<longrightarrow> unat (h_elem_cnt h') < 4 * unat (h_bucket_cnt h'))"
proof -
  obtain m where m: "2 \<le> m" "m < 32" "pow2_loop (if h_elem_cnt h div 2 < 4 then 4
      else h_elem_cnt h div 2) = Inr (2 ^ m)" "unat (h_elem_cnt h) < 4 * 2 ^ m"
    using rehash_target[of "h_elem_cnt h"] by blast
  have um: "unat (2 ^ m :: size_t) = 2 ^ m" using m(2) by (rule unat_two_power)
  show ?thesis
  proof (cases "2 ^ m = h_bucket_cnt h \<or> \<not> mem")
    case True
    then have "rehash mem h = Inr h" using m(3) by (auto simp: rehash_def Let_def)
    moreover have "mem \<longrightarrow> unat (h_elem_cnt h) < 4 * unat (h_bucket_cnt h)"
      using True m(4) um by auto
    ultimately show ?thesis using assms by blast
  next
    case False
    define h0 where "h0 = h\<lparr>h_buckets := replicate (2 ^ m) [], h_bucket_cnt := 2 ^ m\<rparr>"
    have p0: "placed m h0" using m(2) by (simp add: placed_def h0_def)
    have e0: "elems h0 = {#}" by (simp add: elems_def h0_def)
    have all: "take (unat (h_bucket_cnt h)) (h_buckets h) = h_buckets h"
      using assms(1) by (auto simp: placed_def unat_two_power)
    obtain bs where bs: "move_buckets h0 (h_buckets h) = Inr (h0\<lparr>h_buckets := bs\<rparr>)"
      "placed m (h0\<lparr>h_buckets := bs\<rparr>)" "elems (h0\<lparr>h_buckets := bs\<rparr>) = elems h"
      using move_buckets_placed[OF p0, of "h_buckets h"] e0 by (auto simp: elems_def)
    have "rehash mem h = Inr (h0\<lparr>h_buckets := bs\<rparr>)"
      using False m(3) bs(1) all um by (simp add: rehash_def Let_def h0_def)
    then show ?thesis using bs m um by (intro exI[of _ "h0\<lparr>h_buckets := bs\<rparr>"] exI[of _ m]) (simp add: h0_def)
  qed
qed

lemma hash_ok_rehash:
  assumes "hash_ok h"
  shows "\<exists>h'. rehash mem h = Inr h' \<and> hash_ok h' \<and> elems h' = elems h \<and>
    h_hash h' = h_hash h \<and> h_less h' = h_less h \<and>
    (mem \<longrightarrow> unat (h_elem_cnt h') < 4 * unat (h_bucket_cnt h'))"
proof -
  from assms obtain k where "placed k h" "2 \<le> k" by (auto simp: hash_ok_def)
  from rehash_placed[OF this, of mem] obtain h' k' where h': "rehash mem h = Inr h'" "placed k' h'"
    "2 \<le> k'" "elems h' = elems h" "h_elem_cnt h' = h_elem_cnt h" "h_hash h' = h_hash h"
    "h_less h' = h_less h" "mem \<longrightarrow> unat (h_elem_cnt h') < 4 * unat (h_bucket_cnt h')" by blast
  moreover have "hash_ok h'" using assms h' by (auto simp: hash_ok_def)
  ultimately show ?thesis by blast
qed

section \<open>Search, insertion, deletion\<close>

text \<open>What the table relies on: a strict weak order, and equal elements hash alike.\<close>

locale hash_contract = less_func +
  fixes hash :: "'a \<Rightarrow> 32 word"
  assumes hash_equal: "equiv_to lt a b \<Longrightarrow> hash a = hash b"
begin

lemma equiv_refl: "equiv_to lt a a"
  by (simp add: equiv_to_def less_irrefl)

lemma equiv_sym: "equiv_to lt a b \<Longrightarrow> equiv_to lt b a"
  by (auto simp: equiv_to_def)

lemma equiv_trans: "equiv_to lt a b \<Longrightarrow> equiv_to lt b c \<Longrightarrow> equiv_to lt a c"
  unfolding equiv_to_def using less_negtrans by blast

end

lemma find_elem_cases:
  "case find_elem h b e of
     None \<Rightarrow> \<forall>x \<in> set b. \<not> equiv_to (h_less h) e x
   | Some x \<Rightarrow> x \<in> set b \<and> equiv_to (h_less h) e x"
  by (induction h b e rule: find_elem.induct) (auto simp: equiv_to_def split: option.splits)

text \<open>\<open>found h e r\<close>: \<open>r\<close> is the element of the table equal to \<open>e\<close>, if there is one.\<close>

definition found :: "'e hash_tbl \<Rightarrow> 'e \<Rightarrow> 'e option \<Rightarrow> bool" where
  "found h e r \<longleftrightarrow> (case r of
     None \<Rightarrow> \<forall>x \<in># elems h. \<not> equiv_to (h_less h) e x
   | Some x \<Rightarrow> x \<in># elems h \<and> equiv_to (h_less h) e x)"

lemma elems_bucket: "x \<in># elems h \<longleftrightarrow> (\<exists>i < length (h_buckets h). x \<in> set (h_buckets h ! i))"
proof -
  have "x \<in># elems h \<longleftrightarrow> (\<exists>b \<in> set (h_buckets h). x \<in> set b)" by (auto simp: elems_def)
  also have "\<dots> \<longleftrightarrow> (\<exists>i < length (h_buckets h). x \<in> set (h_buckets h ! i))"
    by (metis in_set_conv_nth)
  finally show ?thesis .
qed

lemma mset_concat_remove:
  assumes "distinct (concat bs)" and "x \<in> set (concat bs)"
  shows "mset (concat (map (remove1 x) bs)) = mset (concat bs) - {#x#}"
  using assms
proof (induction bs)
  case (Cons b bs)
  show ?case
  proof (cases "x \<in> set b")
    case True
    then have "x \<notin> set (concat bs)" using Cons.prems(1) by auto
    then have "map (remove1 x) bs = bs" by (intro map_idI remove1_idem) auto
    with True show ?thesis by simp
  next
    case False
    then have "remove1 x b = b" by (rule remove1_idem)
    with False Cons show ?thesis by (simp add: subset_mset.add_diff_assoc)
  qed
qed simp

lemma remove_elem_elems:
  assumes "uniq lt (elems h)" and "x \<in># elems h"
  shows "elems (remove_elem h x) = elems h - {#x#}"
proof -
  have "distinct (concat (h_buckets h))"
    using assms(1) by (auto simp: uniq_def elems_def distinct_count_atmost_1 le_Suc_eq count_list_0_iff
        not_in_iff[symmetric] count_mset)
  moreover have "x \<in> set (concat (h_buckets h))" using assms(2) by (simp add: elems_def)
  ultimately show ?thesis using mset_concat_remove by (simp add: elems_def remove_elem_def)
qed

lemma placed_remove: "placed k h \<Longrightarrow> placed k (remove_elem h x)"
  using notin_set_remove1 by (fastforce simp: placed_def remove_elem_def)

lemma size_count: "n < 2 ^ 32 \<Longrightarrow> 0 < n \<Longrightarrow> (of_nat n - 1 :: size_t) = of_nat (n - 1)"
  by (cases n) simp_all

lemma hash_ok_remove:
  assumes "hash_ok h" and "x \<in># elems h"
  shows "hash_ok (remove_elem h x)" and "elems (remove_elem h x) = elems h - {#x#}"
proof -
  have u: "uniq (h_less h) (elems h)" using assms(1) by (simp add: hash_ok_def)
  show e: "elems (remove_elem h x) = elems h - {#x#}" by (rule remove_elem_elems[OF u assms(2)])
  have sz: "size (elems h - {#x#}) = size (elems h) - 1" using assms(2) by (simp add: size_Diff_singleton)
  have "uniq (h_less h) (elems h - {#x#})"
  proof -
    have "count (elems h - {#x#}) a \<le> 1" for a
      using u unfolding uniq_def by (metis count_diff diff_le_self le_trans)
    moreover have "a \<in># elems h" if "a \<in># elems h - {#x#}" for a
      using that by (rule in_diffD)
    ultimately show ?thesis using u unfolding uniq_def by blast
  qed
  moreover have "\<exists>k \<ge> 2. placed k (remove_elem h x)"
    using assms(1) unfolding hash_ok_def by (blast intro: placed_remove)
  moreover have "0 < size (elems h)" using assms(2) by (metis size_eq_0_iff_empty gr0I empty_iff set_mset_empty)
  then have "h_elem_cnt (remove_elem h x) = of_nat (size (elems h - {#x#}))"
    using assms(1) size_count[of "size (elems h)"] by (simp add: sz hash_ok_def remove_elem_def)
  moreover have "size (elems h - {#x#}) < 2 ^ 32" "h_less (remove_elem h x) = h_less h"
    using assms(1) sz by (auto simp: hash_ok_def remove_elem_def)
  ultimately show "hash_ok (remove_elem h x)" unfolding hash_ok_def e by simp
qed

lemma hash_ok_insert:
  assumes "hash_ok h" and "found h e None" and "size (elems h) + 1 < 2 ^ 32"
    and "equiv_to (h_less h) e e" and "\<And>x. equiv_to (h_less h) x e \<Longrightarrow> equiv_to (h_less h) e x"
  shows "hash_ok (insert_elem h (bucket_idx h e) e)"
    and "elems (insert_elem h (bucket_idx h e) e) = add_mset e (elems h)"
proof -
  define h' where "h' = insert_elem h (bucket_idx h e) e"
  obtain k where k: "2 \<le> k" "placed k h" using assms(1) by (auto simp: hash_ok_def)
  have el: "elems h' = add_mset e (elems h)" and "placed k h'"
  proof -
    have "h' = h\<lparr>h_buckets := (h_buckets h)[bucket_idx h e := e # h_buckets h ! bucket_idx h e]\<rparr>
        \<lparr>h_elem_cnt := h_elem_cnt h + 1\<rparr>" by (simp add: h'_def insert_elem_def)
    then show "elems h' = add_mset e (elems h)" "placed k h'"
      using placed_push[OF k(2), of e] by (simp_all only: cnt_irrelevant)
  qed
  moreover have "e \<notin># elems h" using assms(2,4) by (auto simp: found_def)
  then have "uniq (h_less h) (add_mset e (elems h))"
  proof -
    assume ne: "e \<notin># elems h"
    have u: "uniq (h_less h) (elems h)" using assms(1) by (simp add: hash_ok_def)
    have "count (add_mset e (elems h)) a \<le> 1" for a
      using u ne by (cases "a = e") (simp_all add: uniq_def count_eq_zero_iff)
    moreover have "a = b" if "a \<in># add_mset e (elems h)" "b \<in># add_mset e (elems h)"
      "equiv_to (h_less h) a b" for a b
      using that u assms(2,5) unfolding uniq_def found_def by auto
    ultimately show ?thesis unfolding uniq_def by blast
  qed
  moreover have "h_elem_cnt h' = of_nat (size (add_mset e (elems h)))" "h_less h' = h_less h"
    using assms(1) by (simp_all add: hash_ok_def h'_def insert_elem_def)
  ultimately have "hash_ok h'"
    using assms(3) k(1) unfolding hash_ok_def el by auto
  with el show "hash_ok (insert_elem h (bucket_idx h e) e)"
    "elems (insert_elem h (bucket_idx h e) e) = add_mset e (elems h)" by (simp_all add: h'_def)
qed

lemma hash_ok_bucket: "hash_ok h \<Longrightarrow> find_bucket h e = Inr (bucket_idx h e)"
  unfolding hash_ok_def by (blast intro: find_bucket_placed)

context hash_contract
begin

lemma find_elem_found:
  assumes "hash_ok h" and "h_less h = lt" and "h_hash h = hash"
  shows "found h e (find_elem h (h_buckets h ! bucket_idx h e) e)"
proof -
  obtain k where k: "placed k h" using assms(1) by (auto simp: hash_ok_def)
  then have i: "bucket_idx h e < length (h_buckets h)"
    using bucket_idx_less[of k h e] by (simp add: placed_def)
  have "x \<in> set (h_buckets h ! bucket_idx h e)" if "x \<in># elems h" "equiv_to lt e x" for x
  proof -
    from that(1) obtain j where j: "j < length (h_buckets h)" "x \<in> set (h_buckets h ! j)"
      by (auto simp: elems_bucket)
    then have "bucket_idx h x = j" using k by (auto simp: placed_def)
    moreover have "bucket_idx h x = bucket_idx h e"
      using hash_equal[OF that(2)] assms(3) by (simp add: bucket_idx_def)
    ultimately show ?thesis using j(2) by simp
  qed
  note in_bucket = this
  let ?b = "h_buckets h ! bucket_idx h e"
  show ?thesis
  proof (cases "find_elem h ?b e")
    case None
    then have "\<forall>x \<in> set ?b. \<not> equiv_to lt e x"
      using find_elem_cases[where h = h and b = ?b and e = e] assms(2) by simp
    then show ?thesis using None in_bucket assms(2) by (auto simp: found_def)
  next
    case (Some x)
    then have "x \<in> set ?b" "equiv_to lt e x"
      using find_elem_cases[where h = h and b = ?b and e = e] assms(2) by simp_all
    moreover have "x \<in># elems h" using i calculation(1) unfolding elems_bucket by blast
    ultimately show ?thesis using Some assms(2) by (simp add: found_def)
  qed
qed

lemma hash_find_found:
  assumes "hash_ok h" and "h_less h = lt" and "h_hash h = hash"
  shows "\<exists>r. hash_find h e = Inr r \<and> found h e r"
  using find_elem_found[OF assms, of e] hash_ok_bucket[OF assms(1), of e]
  by (simp add: hash_find_def)

lemma hash_insert_elems:
  assumes "hash_ok h" and "h_less h = lt" and "h_hash h = hash" and "size (elems h) + 1 < 2 ^ 32"
  shows "\<exists>r h'. hash_insert mem h e = Inr (r, h') \<and> found h e r \<and> hash_ok h' \<and>
    elems h' = (if r = None then add_mset e (elems h) else elems h) \<and>
    h_less h' = lt \<and> h_hash h' = hash"
proof -
  define r h1 where "r = find_elem h (h_buckets h ! bucket_idx h e) e"
    and "h1 = (if r = None then insert_elem h (bucket_idx h e) e else h)"
  have f: "found h e r" unfolding r_def by (rule find_elem_found[OF assms(1-3)])
  have fb: "find_bucket h e = Inr (bucket_idx h e)"
    by (rule hash_ok_bucket[OF assms(1)])
  have h1: "hash_ok h1" "elems h1 = (if r = None then add_mset e (elems h) else elems h)"
    using hash_ok_insert[OF assms(1) _ assms(4), of e] f assms(1,2) equiv_refl equiv_sym
    by (auto simp: h1_def)
  have "h_less h1 = lt" "h_hash h1 = hash" using assms(2,3) by (simp_all add: h1_def insert_elem_def)
  with hash_ok_rehash[OF h1(1), of mem] fb f h1 show ?thesis
    by (auto simp: hash_insert_def Let_def r_def h1_def)
qed

lemma hash_delete_elems:
  assumes "hash_ok h" and "h_less h = lt" and "h_hash h = hash"
  shows "\<exists>r h'. hash_delete mem h e = Inr (r, h') \<and> found h e r \<and> hash_ok h' \<and>
    elems h' = (case r of None \<Rightarrow> elems h | Some x \<Rightarrow> elems h - {#x#}) \<and>
    h_less h' = lt \<and> h_hash h' = hash"
proof -
  define r where "r = find_elem h (h_buckets h ! bucket_idx h e) e"
  have f: "found h e r" unfolding r_def by (rule find_elem_found[OF assms])
  have fb: "find_bucket h e = Inr (bucket_idx h e)"
    by (rule hash_ok_bucket[OF assms(1)])
  show ?thesis
  proof (cases r)
    case None
    then show ?thesis using f fb assms by (simp add: hash_delete_def r_def)
  next
    case (Some x)
    then have "x \<in># elems h" using f by (simp add: found_def)
    note R = hash_ok_remove[OF assms(1) this]
    have "h_less (remove_elem h x) = lt" "h_hash (remove_elem h x) = hash"
      using assms(2,3) by (simp_all add: remove_elem_def)
    with hash_ok_rehash[OF R(1), of mem] R(2) Some f fb show ?thesis
      by (auto simp: hash_delete_def r_def)
  qed
qed

lemma hash_replace_elems:
  assumes "hash_ok h" and "h_less h = lt" and "h_hash h = hash" and "size (elems h) + 1 < 2 ^ 32"
  shows "\<exists>r h'. hash_replace mem h e = Inr (r, h') \<and> found h e r \<and> hash_ok h' \<and>
    elems h' = add_mset e (case r of None \<Rightarrow> elems h | Some x \<Rightarrow> elems h - {#x#}) \<and>
    h_less h' = lt \<and> h_hash h' = hash"
proof -
  define r h1 where "r = find_elem h (h_buckets h ! bucket_idx h e) e"
    and "h1 = (case r of Some x \<Rightarrow> remove_elem h x | None \<Rightarrow> h)"
  have f: "found h e r" unfolding r_def by (rule find_elem_found[OF assms(1-3)])
  have fb: "find_bucket h e = Inr (bucket_idx h e)"
    by (rule hash_ok_bucket[OF assms(1)])
  have h1: "hash_ok h1" "elems h1 = (case r of None \<Rightarrow> elems h | Some x \<Rightarrow> elems h - {#x#})"
    "h_less h1 = lt" "h_hash h1 = hash" "bucket_idx h1 e = bucket_idx h e"
    using assms f hash_ok_remove[OF assms(1)]
    by (auto simp: h1_def found_def remove_elem_def bucket_idx_def split: option.splits)
  have fn: "found h1 e None"
  proof (cases r)
    case None
    then show ?thesis using f by (simp add: h1_def)
  next
    case (Some x)
    have u: "uniq lt (elems h)" using assms(1,2) by (simp add: hash_ok_def)
    have x: "x \<in># elems h" "equiv_to lt e x" using f Some assms(2) by (simp_all add: found_def)
    have "\<not> equiv_to lt e y" if "y \<in># elems h - {#x#}" for y
    proof
      assume "equiv_to lt e y"
      then have "equiv_to lt x y" using x(2) equiv_sym equiv_trans by blast
      then have "y = x" using u x(1) in_diffD[OF that] unfolding uniq_def by blast
      then have "2 \<le> count (elems h) x" using that by (simp add: in_diff_count)
      then show False using u unfolding uniq_def by (metis Suc_1 not_less_eq_eq)
    qed
    then show ?thesis using h1 Some by (simp add: found_def)
  qed
  have "size (elems h1) \<le> size (elems h)"
    unfolding h1(2) by (cases r) (simp_all add: size_mset_mono)
  then have "size (elems h1) + 1 < 2 ^ 32" using assms(4) by simp
  note I = hash_ok_insert[OF h1(1) fn this, unfolded h1(3), OF equiv_refl equiv_sym]
  have "h_less (insert_elem h1 (bucket_idx h1 e) e) = lt" "h_hash (insert_elem h1 (bucket_idx h1 e) e) = hash"
    using h1(3,4) by (simp_all add: insert_elem_def)
  with hash_ok_rehash[OF I(1), of mem] I(2) f fb h1(2,5) show ?thesis
    by (auto simp: hash_replace_def Let_def r_def h1_def)
qed

end

section \<open>Iteration\<close>

text \<open>The elements an iterator has not yet returned, and the positions it may have.\<close>

definition remaining :: "'e hash_tbl \<Rightarrow> hash_iterator \<Rightarrow> 'e list" where
  "remaining h it = drop (it_pos it) (h_buckets h ! it_bucket it) @
     concat (drop (Suc (it_bucket it)) (h_buckets h))"

definition it_ok :: "'e hash_tbl \<Rightarrow> hash_iterator \<Rightarrow> bool" where
  "it_ok h it \<longleftrightarrow> it_bucket it < length (h_buckets h) \<and> it_pos it \<le> length (h_buckets h ! it_bucket it)"

lemma next_bucket_remaining:
  assumes "it_bucket it < length (h_buckets h)" and "1 \<le> it_pos it"
    and "it_pos it \<le> length (h_buckets h ! it_bucket it) + 1"
  shows "case next_bucket h it of
      None \<Rightarrow> remaining h (it\<lparr>it_pos := it_pos it - 1\<rparr>) = []
    | Some it' \<Rightarrow> it_ok h it' \<and> 1 \<le> it_pos it' \<and>
        remaining h (it\<lparr>it_pos := it_pos it - 1\<rparr>)
          = h_buckets h ! it_bucket it' ! (it_pos it' - 1) # remaining h it'"
  using assms
proof (induction h it rule: next_bucket.induct)
  case (1 h it)
  let ?b = "h_buckets h ! it_bucket it"
  show ?case
  proof (cases "it_pos it = length ?b + 1")
    case at_end: True
    show ?thesis
    proof (cases "length (h_buckets h) \<le> Suc (it_bucket it)")
      case True
      then show ?thesis using at_end by (simp add: next_bucket.simps[of h it] remaining_def)
    next
      case False
      let ?it = "\<lparr>it_bucket = Suc (it_bucket it), it_pos = 1\<rparr>"
      have "remaining h (it\<lparr>it_pos := it_pos it - 1\<rparr>) = remaining h (?it\<lparr>it_pos := 0\<rparr>)"
        using at_end False by (simp add: remaining_def Cons_nth_drop_Suc[symmetric])
      with 1(1)[OF at_end False] False at_end show ?thesis
        by (simp add: next_bucket.simps[of h it] split: option.splits)
    qed
  next
    case False
    then have "it_pos it - 1 < length ?b" using 1(3,4) by simp
    then have "drop (it_pos it - 1) ?b = ?b ! (it_pos it - 1) # drop (it_pos it) ?b"
      using Cons_nth_drop_Suc[of "it_pos it - 1" ?b] 1(3) by simp
    then show ?thesis
      using False 1(2-4) by (simp add: next_bucket.simps[of h it] remaining_def it_ok_def)
  qed
qed

lemma hash_next_remaining:
  assumes "it_ok h it"
  shows "case hash_next h it of
      None \<Rightarrow> remaining h it = []
    | Some (e, it') \<Rightarrow> it_ok h it' \<and> remaining h it = e # remaining h it'"
  using next_bucket_remaining[of "it\<lparr>it_pos := it_pos it + 1\<rparr>" h] assms
  by (auto simp: hash_next_def it_ok_def split: option.splits)

text \<open>The documented idiom: \<open>hash_first\<close>, then \<open>hash_next\<close> until it returns null.\<close>

fun hash_iterate :: "nat \<Rightarrow> 'e hash_tbl \<Rightarrow> hash_iterator \<Rightarrow> 'e list res" where
  "hash_iterate 0 h it = Inl OutOfFuel"
| "hash_iterate (Suc n) h it =
     (case hash_next h it of
        None \<Rightarrow> Inr []
      | Some (e, it) \<Rightarrow> bnd (hash_iterate n h it) (\<lambda>es. Inr (e # es)))"

lemma hash_iterate_remaining:
  "it_ok h it \<Longrightarrow> length (remaining h it) < n \<Longrightarrow> hash_iterate n h it = Inr (remaining h it)"
proof (induction n arbitrary: it)
  case (Suc n)
  from hash_next_remaining[OF Suc.prems(1)] Suc show ?case
    by (cases "hash_next h it") (auto split: prod.splits)
qed simp

lemma fold_concat: "fold (\<lambda>b s. fold f b s) bs s = fold f (concat bs) s"
  by (induction bs arbitrary: s) auto

lemma hash_apply_concat: "hash_apply h action s = fold action (concat (h_buckets h)) s"
  by (simp add: hash_apply_def fold_concat)

lemma hash_string_loop_bytes:
  "0 \<notin> set s \<Longrightarrow> hash_string_loop v (s @ 0 # rest)
    = Inr (foldl (\<lambda>hash b. (hash * FNV_32_PRIME) XOR ucast b) v s)"
  by (induction s arbitrary: v) auto

section \<open>The page table's functions meet the contract\<close>

interpretation page_table: hash_contract "page_less pagenum" "page_hash pagenum" for pagenum
  by unfold_locales (auto simp: equiv_to_def page_less_def page_hash_def)

section \<open>Properties\<close>

definition hash_funcs_ok :: "('e \<Rightarrow> 'e \<Rightarrow> bool) \<Rightarrow> ('e \<Rightarrow> 32 word) \<Rightarrow> bool" where
  "hash_funcs_ok lt hash \<longleftrightarrow> (\<forall>a b. lt a b \<longrightarrow> \<not> lt b a) \<and>
     (\<forall>a b c. \<not> lt a b \<longrightarrow> \<not> lt b c \<longrightarrow> \<not> lt a c) \<and> (\<forall>a b. equiv_to lt a b \<longrightarrow> hash a = hash b)"

lemma hash_funcs_contract: "hash_funcs_ok lt hash \<Longrightarrow> hash_contract lt hash"
  unfolding hash_funcs_ok_def
  by (intro hash_contract.intro less_func.intro hash_contract_axioms.intro) blast+

lemma page_funcs_ok: "hash_funcs_ok (page_less pagenum) (page_hash pagenum)"
  unfolding hash_funcs_ok_def
  using page_order.less_asym page_order.less_negtrans page_table.hash_equal by blast

definition demo_table :: "ptr hash_tbl" where
  "demo_table = \<lparr>h_elem_cnt = 0, h_bucket_cnt = 4, h_buckets = replicate 4 [],
     h_hash = page_hash (\<lambda>p. p), h_less = page_less (\<lambda>p. p)\<rparr>"

lemma demo_table_ok: "hash_ok demo_table" "elems demo_table = {#}"
  "h_less demo_table = page_less (\<lambda>p. p)" "h_hash demo_table = page_hash (\<lambda>p. p)"
proof -
  show e: "elems demo_table = {#}" by (simp add: elems_def demo_table_def)
  have "placed 2 demo_table" by (simp add: placed_def demo_table_def)
  then show "hash_ok demo_table" using e unfolding hash_ok_def by (auto simp: uniq_def demo_table_def)
qed (simp_all add: demo_table_def)

text \<open>
  (C32) \<open>hash_init\<close> with memory available yields an empty well-formed table. \<open>hash_find\<close>
  returns the element equal to the argument exactly when the table has one, and
  \<open>hash_insert\<close> returns that element and keeps the contents, or adds the new element,
  keeping the table invariant, whether or not memory for rehashing is available.
\<close>

theorem hash_insert_correct:
  assumes "hash_funcs_ok (h_less h) (h_hash h)" and "hash_ok h" and "size (elems h) + 1 < 2 ^ 32"
  shows "\<exists>r h'. hash_find h e = Inr r \<and> found h e r \<and> hash_insert mem h e = Inr (r, h') \<and>
    hash_ok h' \<and> elems h' = (if r = None then add_mset e (elems h) else elems h) \<and>
    h_less h' = h_less h \<and> h_hash h' = h_hash h"
proof -
  note C = hash_funcs_contract[OF assms(1)]
  from hash_contract.hash_insert_elems[OF C assms(2) refl refl assms(3), of mem e] obtain r h' where
    r: "hash_insert mem h e = Inr (r, h')" "found h e r" "hash_ok h'"
      "elems h' = (if r = None then add_mset e (elems h) else elems h)"
      "h_less h' = h_less h" "h_hash h' = h_hash h" by blast
  have "r = find_elem h (h_buckets h ! bucket_idx h e) e"
    using r(1) hash_ok_bucket[OF assms(2), of e] by (auto simp: hash_insert_def Let_def res_iffs)
  then have "hash_find h e = Inr r" using hash_ok_bucket[OF assms(2), of e] by (simp add: hash_find_def)
  with r show ?thesis by blast
qed

theorem hash_insert_correct_witness:
  "\<exists>r h'. hash_find demo_table 5 = Inr r \<and> hash_insert True demo_table 5 = Inr (r, h') \<and> hash_ok h'"
  using hash_insert_correct[of demo_table 5 True] demo_table_ok page_funcs_ok by auto

text \<open>
  \<open>hash_delete\<close> removes exactly the equal element, if there is one, and returns it;
  \<open>hash_replace\<close> removes it and adds the new element. Both keep the table invariant
  whether or not memory for rehashing is available.
\<close>

theorem hash_delete_replace_correct:
  assumes "hash_funcs_ok (h_less h) (h_hash h)" and "hash_ok h" and "size (elems h) + 1 < 2 ^ 32"
  shows "\<exists>r h1 h2. found h e r \<and> hash_delete mem h e = Inr (r, h1) \<and> hash_ok h1 \<and>
      elems h1 = (case r of None \<Rightarrow> elems h | Some x \<Rightarrow> elems h - {#x#}) \<and>
    hash_replace mem h e = Inr (r, h2) \<and> hash_ok h2 \<and> elems h2 = add_mset e (elems h1)"
proof -
  note C = hash_funcs_contract[OF assms(1)]
  from hash_contract.hash_delete_elems[OF C assms(2) refl refl, of mem e] obtain r h1 where
    r: "hash_delete mem h e = Inr (r, h1)" "found h e r" "hash_ok h1"
      "elems h1 = (case r of None \<Rightarrow> elems h | Some x \<Rightarrow> elems h - {#x#})" by blast
  from hash_contract.hash_replace_elems[OF C assms(2) refl refl assms(3), of mem e] obtain r' h2 where
    r': "hash_replace mem h e = Inr (r', h2)" "hash_ok h2"
      "elems h2 = add_mset e (case r' of None \<Rightarrow> elems h | Some x \<Rightarrow> elems h - {#x#})" by blast
  note B = hash_ok_bucket[OF assms(2), of e]
  have "r = find_elem h (h_buckets h ! bucket_idx h e) e"
    using r(1) B by (auto simp: hash_delete_def res_iffs split: option.splits)
  moreover have "r' = find_elem h (h_buckets h ! bucket_idx h e) e"
    using r'(1) B by (auto simp: hash_replace_def Let_def res_iffs)
  ultimately show ?thesis using r r' by auto
qed

theorem hash_delete_replace_correct_witness:
  "\<exists>r h1 h2. hash_delete True demo_table 5 = Inr (r, h1) \<and> hash_ok h1 \<and>
    hash_replace True demo_table 5 = Inr (r, h2) \<and> hash_ok h2"
  using hash_delete_replace_correct[of demo_table 5 True] demo_table_ok page_funcs_ok by auto

text \<open>
  \<open>rehash\<close> keeps the elements and the table invariant for every outcome of its
  allocation; when memory is available the resulting number of buckets is a power of two,
  at least 4, and there are fewer than four elements per bucket.
\<close>

theorem rehash_correct:
  assumes "hash_ok h"
  shows "\<exists>h'. rehash mem h = Inr h' \<and> hash_ok h' \<and> elems h' = elems h \<and>
    (\<exists>k. 2 \<le> k \<and> k < 32 \<and> h_bucket_cnt h' = 2 ^ k) \<and>
    (mem \<longrightarrow> unat (h_elem_cnt h') < 4 * unat (h_bucket_cnt h'))"
proof -
  from hash_ok_rehash[OF assms, of mem] obtain h' where h': "rehash mem h = Inr h'" "hash_ok h'"
    "elems h' = elems h" "mem \<longrightarrow> unat (h_elem_cnt h') < 4 * unat (h_bucket_cnt h')" by blast
  from h'(2) obtain k where "2 \<le> k" "placed k h'" by (auto simp: hash_ok_def)
  with h' show ?thesis by (auto simp: placed_def)
qed

theorem rehash_correct_witness:
  "\<exists>h'. rehash True demo_table = Inr h' \<and> hash_ok h' \<and> elems h' = {#}"
  using rehash_correct[OF demo_table_ok(1), of True] demo_table_ok(2) by auto

text \<open>
  (C33) Iterating with \<open>hash_first\<close> and \<open>hash_next\<close> ends after as many steps as there are
  elements and returns every element exactly once, in the order in which \<open>hash_apply\<close>
  visits them.
\<close>

theorem hash_iteration_complete:
  assumes "hash_ok h" and "size (elems h) < n"
  shows "\<exists>es. hash_iterate n h hash_first = Inr es \<and> mset es = elems h \<and> distinct es \<and>
    hash_apply h (\<lambda>e acc. acc @ [e]) [] = es"
proof -
  obtain k where k: "placed k h" using assms(1) by (auto simp: hash_ok_def)
  have ne: "h_buckets h \<noteq> []" using k by (auto simp: placed_def)
  then have r: "remaining h hash_first = concat (h_buckets h)"
    by (cases "h_buckets h") (simp_all add: remaining_def hash_first_def)
  have "it_ok h hash_first" using ne by (simp add: it_ok_def hash_first_def)
  moreover have "length (remaining h hash_first) < n" using assms(2) r by (simp add: elems_def)
  ultimately have "hash_iterate n h hash_first = Inr (concat (h_buckets h))"
    using hash_iterate_remaining r by metis
  moreover have "fold (\<lambda>e acc. acc @ [e]) es acc = acc @ es" for es acc :: "'a list"
    by (induction es arbitrary: acc) auto
  then have "hash_apply h (\<lambda>e acc. acc @ [e]) [] = concat (h_buckets h)"
    by (simp add: hash_apply_concat)
  moreover have "distinct (concat (h_buckets h))"
    using assms(1) by (auto simp: hash_ok_def uniq_def elems_def distinct_count_atmost_1 le_Suc_eq
        count_list_0_iff not_in_iff[symmetric] count_mset)
  ultimately show ?thesis by (auto simp: elems_def)
qed

theorem hash_iteration_complete_witness:
  "\<exists>es. hash_iterate 1 demo_table hash_first = Inr es \<and> mset es = {#}"
  using hash_iteration_complete[OF demo_table_ok(1), of 1] demo_table_ok(2) by auto

end
