(* ===== verification/Block_Dev.thy ===== *)
theory Block_Dev
  imports Kernel_Prelude
begin

text \<open>
  The block device layer of \<open>devices/block.c\<close>. A device carries its name, type, size,
  statistics counters and the contents of its medium: the driver's \<open>read\<close> and \<open>write\<close>
  operations (\<open>ops\<close>, \<open>aux\<close>) are represented by a function from sectors to the 512 bytes
  last written there. The registered devices form a list in probe order, and the four
  roles refer to positions in it. Critical sections on the device lock are atomic.
\<close>

section \<open>Data\<close>

datatype block_type = BLOCK_KERNEL | BLOCK_FILESYS | BLOCK_SCRATCH | BLOCK_SWAP
  | BLOCK_RAW | BLOCK_FOREIGN

abbreviation BLOCK_SECTOR_SIZE :: nat where "BLOCK_SECTOR_SIZE \<equiv> 512"

type_synonym sector_data = "u8 list"

record block_dev =
  blk_name :: string
  blk_type :: block_type
  blk_size :: block_sector_t
  blk_medium :: "block_sector_t \<Rightarrow> sector_data"
  read_cnt :: u64
  write_cnt :: u64

record blk_state =
  all_blocks :: "block_dev list"
  block_by_role :: "nat option list"

definition block_type_num :: "block_type \<Rightarrow> nat" where
  "block_type_num t = (case t of BLOCK_KERNEL \<Rightarrow> 0 | BLOCK_FILESYS \<Rightarrow> 1 | BLOCK_SCRATCH \<Rightarrow> 2
     | BLOCK_SWAP \<Rightarrow> 3 | BLOCK_RAW \<Rightarrow> 4 | BLOCK_FOREIGN \<Rightarrow> 5)"

abbreviation BLOCK_ROLE_CNT :: nat where "BLOCK_ROLE_CNT \<equiv> 4"
abbreviation BLOCK_CNT :: nat where "BLOCK_CNT \<equiv> 6"

section \<open>Operations\<close>

definition block_type_name :: "block_type \<Rightarrow> string" where
  "block_type_name t = [''kernel'', ''filesys'', ''scratch'', ''swap'', ''raw'', ''foreign'']
     ! block_type_num t"

definition block_get_role :: "blk_state \<Rightarrow> block_type \<Rightarrow> nat option res" where
  "block_get_role st role =
     asrt ''block_get_role'' (block_type_num role < BLOCK_ROLE_CNT)
       (Inr (block_by_role st ! block_type_num role))"

definition block_set_role :: "blk_state \<Rightarrow> block_type \<Rightarrow> nat option \<Rightarrow> blk_state res" where
  "block_set_role st role b =
     asrt ''block_set_role'' (block_type_num role < BLOCK_ROLE_CNT)
       (Inr (st\<lparr>block_by_role := (block_by_role st)[block_type_num role := b]\<rparr>))"

text \<open>\<open>list_elem_to_block\<close>: a position of the device list, or null at its end.\<close>

definition list_elem_to_block :: "blk_state \<Rightarrow> nat \<Rightarrow> nat option" where
  "list_elem_to_block st i = (if i \<noteq> length (all_blocks st) then Some i else None)"

definition block_first :: "blk_state \<Rightarrow> nat option" where
  "block_first st = list_elem_to_block st 0"

definition block_next :: "blk_state \<Rightarrow> nat \<Rightarrow> nat option" where
  "block_next st i = list_elem_to_block st (i + 1)"

fun name_loop :: "block_dev list \<Rightarrow> nat \<Rightarrow> string \<Rightarrow> nat option" where
  "name_loop [] i name = None"
| "name_loop (b # bs) i name = (if name = blk_name b then Some i else name_loop bs (i + 1) name)"

definition block_get_by_name :: "blk_state \<Rightarrow> string \<Rightarrow> nat option" where
  "block_get_by_name st name = name_loop (all_blocks st) 0 name"

definition check_sector :: "block_dev \<Rightarrow> block_sector_t \<Rightarrow> unit res" where
  "check_sector b sector =
     (if sector \<ge> blk_size b then Inl (Panic ''Access past end of device'') else Inr ())"

definition block_read :: "block_dev \<Rightarrow> block_sector_t \<Rightarrow> (sector_data \<times> block_dev) res" where
  "block_read b sector =
     bnd (check_sector b sector) (\<lambda>_.
     Inr (blk_medium b sector, b\<lparr>read_cnt := read_cnt b + 1\<rparr>))"

definition block_write :: "block_dev \<Rightarrow> block_sector_t \<Rightarrow> sector_data \<Rightarrow> block_dev res" where
  "block_write b sector buffer =
     bnd (check_sector b sector) (\<lambda>_.
     asrt ''block_write'' (blk_type b \<noteq> BLOCK_FOREIGN) (
     Inr (b\<lparr>blk_medium := (blk_medium b)(sector := buffer), write_cnt := write_cnt b + 1\<rparr>)))"

definition block_size :: "block_dev \<Rightarrow> block_sector_t" where
  "block_size b = blk_size b"

definition block_name :: "block_dev \<Rightarrow> string" where
  "block_name b = blk_name b"

text \<open>\<open>strlcpy\<close> into the 16-byte name field keeps at most 15 characters.\<close>

definition block_register ::
  "bool \<Rightarrow> blk_state \<Rightarrow> string \<Rightarrow> block_type \<Rightarrow> block_sector_t \<Rightarrow>
    (block_sector_t \<Rightarrow> sector_data) \<Rightarrow> (nat \<times> blk_state) res" where
  "block_register mem st name type sz medium =
     (if \<not> mem then Inl (Panic ''Failed to allocate memory for block device descriptor'')
      else Inr (length (all_blocks st),
        st\<lparr>all_blocks := all_blocks st @ [\<lparr>blk_name = take 15 name, blk_type = type,
             blk_size = sz, blk_medium = medium, read_cnt = 0, write_cnt = 0\<rparr>]\<rparr>))"

text \<open>
  The report of \<open>block_print_stats\<close>: its loop runs to \<open>BLOCK_CNT\<close>, while the array has
  \<open>BLOCK_ROLE_CNT\<close> entries.
\<close>

fun print_stats_loop :: "nat \<Rightarrow> blk_state \<Rightarrow> nat \<Rightarrow> (string \<times> string \<times> u64 \<times> u64) list res" where
  "print_stats_loop 0 st i = Inr []"
| "print_stats_loop (Suc n) st i =
     (if length (block_by_role st) \<le> i then Inl (Fault ''block_by_role'')
      else case block_by_role st ! i of
        None \<Rightarrow> print_stats_loop n st (i + 1)
      | Some j \<Rightarrow>
          if length (all_blocks st) \<le> j then Inl (Fault ''all_blocks'')
          else let b = all_blocks st ! j
               in bnd (print_stats_loop n st (i + 1)) (\<lambda>out.
                  Inr ((blk_name b, block_type_name (blk_type b), read_cnt b, write_cnt b) # out)))"

definition block_print_stats :: "blk_state \<Rightarrow> (string \<times> string \<times> u64 \<times> u64) list res" where
  "block_print_stats st = print_stats_loop BLOCK_CNT st 0"

section \<open>Lemmas\<close>

lemma block_read_ok:
  "s < blk_size b \<Longrightarrow> block_read b s = Inr (blk_medium b s, b\<lparr>read_cnt := read_cnt b + 1\<rparr>)"
  by (simp add: block_read_def check_sector_def not_le[symmetric])

lemma block_write_ok:
  "s < blk_size b \<Longrightarrow> blk_type b \<noteq> BLOCK_FOREIGN \<Longrightarrow> block_write b s d
    = Inr (b\<lparr>blk_medium := (blk_medium b)(s := d), write_cnt := write_cnt b + 1\<rparr>)"
  by (simp add: block_write_def check_sector_def not_le[symmetric])

lemma name_loop_first:
  "name_loop bs i name = Some k \<longleftrightarrow>
    (\<exists>j < length bs. k = i + j \<and> blk_name (bs ! j) = name \<and> (\<forall>m < j. blk_name (bs ! m) \<noteq> name))"
proof (induction bs arbitrary: i)
  case (Cons b bs)
  show ?case
  proof (cases "name = blk_name b")
    case True
    then show ?thesis by (auto simp: nth_Cons' intro: exI[of _ 0])
  next
    case False
    have "(\<exists>j < length (b # bs). k = i + j \<and> blk_name ((b # bs) ! j) = name
          \<and> (\<forall>m < j. blk_name ((b # bs) ! m) \<noteq> name))
      = (\<exists>j < length bs. k = Suc i + j \<and> blk_name (bs ! j) = name
          \<and> (\<forall>m < j. blk_name (bs ! m) \<noteq> name))" (is "?L = ?R")
    proof
      assume ?L
      then obtain j where j: "j < length (b # bs)" "k = i + j" "blk_name ((b # bs) ! j) = name"
        "\<forall>m < j. blk_name ((b # bs) ! m) \<noteq> name" by blast
      then obtain j' where j': "j = Suc j'" using False by (cases j) auto
      have "\<forall>m < j'. blk_name (bs ! m) \<noteq> name" using j(4) j' by (metis Suc_less_eq nth_Cons_Suc)
      then show ?R using j j' by auto
    next
      assume ?R
      then obtain j where j: "j < length bs" "k = Suc i + j" "blk_name (bs ! j) = name"
        "\<forall>m < j. blk_name (bs ! m) \<noteq> name" by blast
      have "\<forall>m < Suc j. blk_name ((b # bs) ! m) \<noteq> name"
        using j(4) False by (auto simp: less_Suc_eq_0_disj)
      then show ?L using j by (intro exI[of _ "Suc j"]) auto
    qed
    then show ?thesis using False Cons.IH[of "Suc i"] by simp
  qed
qed simp

text \<open>Walking \<open>block_first\<close>, \<open>block_next\<close> visits the registered devices in probe order.\<close>

fun probe_order :: "nat \<Rightarrow> blk_state \<Rightarrow> nat option \<Rightarrow> nat list" where
  "probe_order 0 st p = []"
| "probe_order (Suc n) st p = (case p of None \<Rightarrow> [] | Some i \<Rightarrow> i # probe_order n st (block_next st i))"

lemma probe_order_suffix:
  "i \<le> length (all_blocks st) \<Longrightarrow> length (all_blocks st) - i < n \<Longrightarrow>
    probe_order n st (list_elem_to_block st i) = [i..<length (all_blocks st)]"
proof (induction n arbitrary: i)
  case (Suc n)
  show ?case
  proof (cases "i = length (all_blocks st)")
    case False
    then have "probe_order n st (list_elem_to_block st (i + 1)) = [i + 1..<length (all_blocks st)]"
      using Suc by (intro Suc.IH) auto
    then show ?thesis using False Suc.prems(1)
      by (simp add: list_elem_to_block_def block_next_def upt_conv_Cons)
  qed (simp add: list_elem_to_block_def)
qed simp

section \<open>Properties\<close>

text \<open>
  A sector read returns what was last written to that sector and nothing else is
  affected; any access at or past the device size panics and leaves no effect.
\<close>

theorem block_read_write:
  "block_write b s d = Inr b' \<Longrightarrow> block_read b' t = Inr (x, b'') \<Longrightarrow>
    x = (if t = s then d else blk_medium b t) \<and> s < blk_size b \<and> t < blk_size b \<and>
    write_cnt b'' = write_cnt b + 1 \<and> read_cnt b'' = read_cnt b + 1"
  by (auto simp: block_write_def block_read_def check_sector_def res_iffs split: if_splits)

definition demo_dev :: block_dev where
  "demo_dev = \<lparr>blk_name = ''hda1'', blk_type = BLOCK_FILESYS, blk_size = 8,
     blk_medium = (\<lambda>s. [ucast s]), read_cnt = 0, write_cnt = 0\<rparr>"

theorem block_read_write_witness:
  "fst (projr (block_read (projr (block_write demo_dev 3 [9])) 3)) = [9]"
  using block_read_write[of demo_dev 3 "[9]" "projr (block_write demo_dev 3 [9])" 3 "[9]"]
  by (simp add: block_write_def block_read_def check_sector_def demo_dev_def)

text \<open>
  \<open>block_print_stats\<close> runs its loop over \<open>block_by_role\<close> up to \<open>BLOCK_CNT\<close> instead of
  \<open>BLOCK_ROLE_CNT\<close>: with the four role entries it always reads past the end of the array.
\<close>

theorem block_print_stats_overrun:
  assumes "length (block_by_role st) = BLOCK_ROLE_CNT"
    and "\<forall>r \<in> set (block_by_role st). case r of None \<Rightarrow> True | Some j \<Rightarrow> j < length (all_blocks st)"
  shows "block_print_stats st = Inl (Fault ''block_by_role'')"
proof -
  have *: "print_stats_loop n st i = Inl (Fault ''block_by_role'')"
    if "BLOCK_ROLE_CNT < n + i" "i \<le> BLOCK_ROLE_CNT" for n i
    using that
  proof (induction n arbitrary: i)
    case (Suc n)
    have "case block_by_role st ! i of None \<Rightarrow> True | Some j \<Rightarrow> j < length (all_blocks st)"
      if "i < BLOCK_ROLE_CNT" using assms that by (metis nth_mem)
    then show ?case
      using Suc assms(1) by (cases "i = BLOCK_ROLE_CNT") (auto simp: Let_def split: option.splits)
  qed simp
  show ?thesis unfolding block_print_stats_def by (rule *) simp_all
qed

theorem block_print_stats_overrun_witness:
  "block_print_stats \<lparr>all_blocks = [demo_dev], block_by_role = [None, Some 0, None, None]\<rparr>
    = Inl (Fault ''block_by_role'')"
  by (rule block_print_stats_overrun) simp_all

end
