(* ===== verification/Buffer_Cache.thy ===== *)
theory Buffer_Cache
  imports Block_Dev
begin

text \<open>
  The buffer cache of \<open>filesys/cache.c\<close>: 64 blocks in front of the file system device, with
  shared and exclusive holders per block, a semaphore that counts the evictable blocks and
  a clock hand for eviction.

  Every entry point is one critical section on the block's lock (or a sequence of them) and
  is modelled as one atomic step on the cache state; a caller that would sleep in
  \<open>sema_down\<close> or \<open>cond_wait\<close> gets \<open>Blocked\<close>. The eviction loop, which runs until it meets
  an evictable block, takes the number of blocks it may inspect.

  The lemmas show the invariant (readers/writer exclusion, the semaphore's value, dirty
  blocks are valid, clean blocks agree with the disk, no sector cached twice), that the
  eviction loop ends whenever the semaphore admits the caller, and that the cache is
  transparent: what a client sees of a sector changes only by its own writes, and flushing
  makes the disk agree with that view.
\<close>

section \<open>State\<close>

abbreviation CACHE_LIMIT :: nat where "CACHE_LIMIT \<equiv> 64"

record cache_block =
  bs_id :: block_sector_t
  dirty :: bool
  cvalid :: bool
  deleted :: bool
  num_readers :: int
  num_writers :: int
  pending_requests :: int
  cdata :: sector_data

record cache =
  blocks :: "cache_block list"
  num_evict :: nat
  clock :: nat
  fs_device :: block_dev

definition evictable :: "cache_block \<Rightarrow> bool" where
  "evictable b \<longleftrightarrow> num_readers b = 0 \<and> num_writers b = 0 \<and> pending_requests b = 0"

definition upd_block :: "cache \<Rightarrow> nat \<Rightarrow> (cache_block \<Rightarrow> cache_block) \<Rightarrow> cache" where
  "upd_block c i f = c\<lparr>blocks := (blocks c)[i := f (blocks c ! i)]\<rparr>"

section \<open>Operations\<close>

definition init_block :: "cache_block \<Rightarrow> block_sector_t \<Rightarrow> cache_block" where
  "init_block b sector = b\<lparr>bs_id := sector, cvalid := False, dirty := False, deleted := False,
     num_readers := 0, num_writers := 0, pending_requests := 0\<rparr>"

text \<open>\<open>store i\<close> is the memory \<open>malloc\<close> returned for block \<open>i\<close>, if any.\<close>

fun cache_init_loop :: "(nat \<Rightarrow> sector_data option) \<Rightarrow> nat \<Rightarrow> nat \<Rightarrow> cache_block list res" where
  "cache_init_loop store 0 i = Inr []"
| "cache_init_loop store (Suc n) i =
     (case store i of
        None \<Rightarrow> Inl (Panic ''Malloc failure in cache_init'')
      | Some d \<Rightarrow>
          bnd (cache_init_loop store n (i + 1)) (\<lambda>bs.
          Inr (init_block \<lparr>bs_id = 0, dirty = False, cvalid = False, deleted = False,
                 num_readers = 0, num_writers = 0, pending_requests = 0, cdata = d\<rparr> 0 # bs)))"

definition cache_init ::
  "block_dev option \<Rightarrow> (nat \<Rightarrow> sector_data option) \<Rightarrow> cache res" where
  "cache_init dev store =
     (case dev of
        None \<Rightarrow> Inl (Panic ''No file system device found, cannot initialize buffer cache.'')
      | Some d \<Rightarrow>
          bnd (cache_init_loop store CACHE_LIMIT 0) (\<lambda>bs.
          Inr \<lparr>blocks = bs, num_evict = CACHE_LIMIT, clock = 0, fs_device = d\<rparr>))"

definition writeback :: "cache \<Rightarrow> nat \<Rightarrow> cache res" where
  "writeback c i =
     (let b = blocks c ! i
      in if dirty b \<and> \<not> cvalid b then Inl (Panic ''Dirty but not valid!'')
         else if cvalid b \<and> dirty b \<and> \<not> deleted b
         then bnd (block_write (fs_device c) (bs_id b) (cdata b)) (\<lambda>dev.
              Inr (upd_block (c\<lparr>fs_device := dev\<rparr>) i (\<lambda>b. b\<lparr>dirty := False\<rparr>)))
         else Inr c)"

fun flush_loop :: "nat \<Rightarrow> cache \<Rightarrow> nat \<Rightarrow> cache res" where
  "flush_loop 0 c i = Inr c"
| "flush_loop (Suc n) c i = bnd (writeback c i) (\<lambda>c. flush_loop n c (i + 1))"

definition cache_flush :: "cache \<Rightarrow> cache res" where
  "cache_flush c = flush_loop CACHE_LIMIT c 0"

definition evict_down :: "cache \<Rightarrow> cache res" where
  "evict_down c =
     (if num_evict c = 0 then Inl (Blocked ''num_evict'')
      else Inr (c\<lparr>num_evict := num_evict c - 1\<rparr>))"

fun evict_loop :: "nat \<Rightarrow> cache \<Rightarrow> nat \<Rightarrow> (nat \<times> cache) res" where
  "evict_loop 0 c i = Inl OutOfFuel"
| "evict_loop (Suc n) c i =
     (if evictable (blocks c ! i) then Inr (i, c)
      else evict_loop n (c\<lparr>clock := i\<rparr>) ((i + 1 + CACHE_LIMIT) mod CACHE_LIMIT))"

definition evict :: "cache \<Rightarrow> block_sector_t \<Rightarrow> (nat \<times> cache) res" where
  "evict c sector =
     bnd (evict_down c) (\<lambda>c.
     bnd (evict_loop CACHE_LIMIT c (clock c)) (\<lambda>(i, c).
     bnd (writeback c i) (\<lambda>c.
     Inr (i, upd_block c i (\<lambda>b. init_block b sector)))))"

fun find_cached :: "cache_block list \<Rightarrow> nat \<Rightarrow> block_sector_t \<Rightarrow> nat option" where
  "find_cached [] i sector = None"
| "find_cached (b # bs) i sector =
     (if cvalid b \<and> bs_id b = sector then Some i else find_cached bs (i + 1) sector)"

definition obtain_block :: "cache \<Rightarrow> block_sector_t \<Rightarrow> (nat \<times> cache) res" where
  "obtain_block c sector =
     (case find_cached (blocks c) 0 sector of
        Some i \<Rightarrow>
          if evictable (blocks c ! i) then bnd (evict_down c) (\<lambda>c. Inr (i, c)) else Inr (i, c)
      | None \<Rightarrow> evict c sector)"

definition cache_get_block :: "cache \<Rightarrow> block_sector_t \<Rightarrow> bool \<Rightarrow> (nat \<times> cache) res" where
  "cache_get_block c sector exclusive =
     bnd (obtain_block c sector) (\<lambda>(i, c).
     let c = upd_block c i (\<lambda>b. b\<lparr>pending_requests := pending_requests b + 1\<rparr>);
         b = blocks c ! i
     in asrt ''cache_get_block'' (pending_requests b > 0) (
        if exclusive \<and> (num_readers b > 0 \<or> num_writers b > 0) then Inl (Blocked ''cond_write'')
        else if \<not> exclusive \<and> num_writers b > 0 then Inl (Blocked ''cond_read'')
        else let c = upd_block c i (\<lambda>b.
                   if exclusive then b\<lparr>num_writers := num_writers b + 1\<rparr>
                   else b\<lparr>num_readers := num_readers b + 1\<rparr>);
                 c = upd_block c i (\<lambda>b. b\<lparr>pending_requests := pending_requests b - 1\<rparr>);
                 b = blocks c ! i
             in asrt ''cache_get_block'' (pending_requests b \<ge> 0) (
                asrt ''cache_get_block'' (bs_id b = sector) (Inr (i, c)))))"

definition cache_put_block :: "cache \<Rightarrow> nat \<Rightarrow> cache res" where
  "cache_put_block c i =
     (let b = blocks c ! i
      in if num_writers b > 0
         then asrt ''cache_put_block'' (num_writers b - 1 = 0) (
              let c = upd_block c i (\<lambda>b. b\<lparr>num_writers := num_writers b - 1\<rparr>)
              in Inr (if pending_requests b = 0 then c\<lparr>num_evict := num_evict c + 1\<rparr> else c))
         else let c = upd_block c i (\<lambda>b. b\<lparr>num_readers := num_readers b - 1\<rparr>)
              in if num_readers b - 1 = 0
                 then Inr (if pending_requests b = 0 then c\<lparr>num_evict := num_evict c + 1\<rparr> else c)
                 else Inr c)"

definition cache_read_block :: "cache \<Rightarrow> nat \<Rightarrow> (sector_data \<times> cache) res" where
  "cache_read_block c i =
     (if \<not> cvalid (blocks c ! i)
      then bnd (block_read (fs_device c) (bs_id (blocks c ! i))) (\<lambda>(d, dev).
           Inr (d, upd_block (c\<lparr>fs_device := dev\<rparr>) i (\<lambda>b. b\<lparr>cdata := d, cvalid := True\<rparr>)))
      else Inr (cdata (blocks c ! i), c))"

definition cache_zero_block :: "cache \<Rightarrow> nat \<Rightarrow> cache" where
  "cache_zero_block c i =
     upd_block c i (\<lambda>b. b\<lparr>cdata := replicate BLOCK_SECTOR_SIZE 0, cvalid := True, dirty := True\<rparr>)"

definition cache_mark_block_dirty :: "cache \<Rightarrow> nat \<Rightarrow> cache" where
  "cache_mark_block_dirty c i = upd_block c i (\<lambda>b. b\<lparr>dirty := True\<rparr>)"

definition cache_get_sector :: "cache \<Rightarrow> nat \<Rightarrow> block_sector_t" where
  "cache_get_sector c i = bs_id (blocks c ! i)"

definition cache_mark_deleted :: "cache \<Rightarrow> nat \<Rightarrow> cache" where
  "cache_mark_deleted c i = upd_block c i (\<lambda>b. b\<lparr>deleted := True\<rparr>)"

text \<open>A store by the holder of a block through the data pointer it was given.\<close>

definition cache_poke :: "cache \<Rightarrow> nat \<Rightarrow> sector_data \<Rightarrow> cache" where
  "cache_poke c i d = upd_block c i (\<lambda>b. b\<lparr>cdata := d\<rparr>)"

section \<open>Invariant\<close>

definition block_ok :: "block_dev \<Rightarrow> cache_block \<Rightarrow> bool" where
  "block_ok dev b \<longleftrightarrow> 0 \<le> num_readers b \<and> 0 \<le> pending_requests b \<and>
     (num_writers b = 0 \<or> num_writers b = 1 \<and> num_readers b = 0) \<and>
     (dirty b \<longrightarrow> cvalid b) \<and> (cvalid b \<longrightarrow> bs_id b < blk_size dev) \<and>
     (cvalid b \<and> \<not> dirty b \<longrightarrow> cdata b = blk_medium dev (bs_id b))"

definition once :: "cache_block list \<Rightarrow> bool" where
  "once bs \<longleftrightarrow> (\<forall>i j. i < length bs \<longrightarrow> j < length bs \<longrightarrow> cvalid (bs ! i) \<longrightarrow> cvalid (bs ! j) \<longrightarrow>
     bs_id (bs ! i) = bs_id (bs ! j) \<longrightarrow> i = j)"

definition n_evictable :: "cache \<Rightarrow> nat" where
  "n_evictable c = length (filter evictable (blocks c))"

definition cache_wf :: "cache \<Rightarrow> bool" where
  "cache_wf c \<longleftrightarrow> length (blocks c) = CACHE_LIMIT \<and> clock c < CACHE_LIMIT \<and>
     blk_type (fs_device c) \<noteq> BLOCK_FOREIGN \<and>
     (\<forall>b \<in> set (blocks c). block_ok (fs_device c) b) \<and> once (blocks c)"

definition cache_ok :: "cache \<Rightarrow> bool" where
  "cache_ok c \<longleftrightarrow> cache_wf c \<and> num_evict c = n_evictable c"

text \<open>What a client sees of a sector.\<close>

definition view :: "cache \<Rightarrow> block_sector_t \<Rightarrow> sector_data" where
  "view c s = (case find_cached (blocks c) 0 s of
     Some i \<Rightarrow> cdata (blocks c ! i) | None \<Rightarrow> blk_medium (fs_device c) s)"

lemma length_upd_block [simp]: "length (blocks (upd_block c i f)) = length (blocks c)"
  by (simp add: upd_block_def)

lemma upd_block_fields [simp]:
  "num_evict (upd_block c i f) = num_evict c" "clock (upd_block c i f) = clock c"
  "fs_device (upd_block c i f) = fs_device c"
  by (simp_all add: upd_block_def)

lemma nth_upd_block:
  "i < length (blocks c) \<Longrightarrow> blocks (upd_block c i f) ! j = (if j = i then f (blocks c ! i) else blocks c ! j)"
  by (auto simp: upd_block_def nth_list_update)

lemma init_block_fields [simp]:
  "bs_id (init_block b s) = s" "\<not> cvalid (init_block b s)" "\<not> dirty (init_block b s)"
  "\<not> deleted (init_block b s)" "num_readers (init_block b s) = 0" "num_writers (init_block b s) = 0"
  "pending_requests (init_block b s) = 0"
  by (simp_all add: init_block_def)

lemma find_cached_Some:
  "find_cached bs k s = Some i \<Longrightarrow>
    k \<le> i \<and> i < k + length bs \<and> cvalid (bs ! (i - k)) \<and> bs_id (bs ! (i - k)) = s"
proof (induction bs arbitrary: k)
  case (Cons b bs)
  show ?case
  proof (cases "cvalid b \<and> bs_id b = s")
    case True
    then show ?thesis using Cons.prems by simp
  next
    case False
    then have "find_cached bs (k + 1) s = Some i" using Cons.prems by (auto split: if_splits)
    note IH = Cons.IH[OF this]
    then have "k + 1 \<le> i" by simp
    then have "i - k = Suc (i - (k + 1))" by arith
    with IH show ?thesis by simp
  qed
qed simp

lemma find_cached_None:
  "find_cached bs k s = None \<longleftrightarrow> (\<forall>b \<in> set bs. \<not> (cvalid b \<and> bs_id b = s))"
  by (induction bs arbitrary: k) auto

text \<open>On a cache that holds no sector twice, the view is determined by any valid block.\<close>

lemma find_cached_once:
  assumes "once bs" and "i < length bs" and "cvalid (bs ! i)"
  shows "find_cached bs 0 (bs_id (bs ! i)) = Some i"
proof (cases "find_cached bs 0 (bs_id (bs ! i))")
  case None
  then show ?thesis using assms(2,3) by (auto simp: find_cached_None)
next
  case (Some j)
  from find_cached_Some[OF Some] assms show ?thesis unfolding once_def using Some by auto
qed

lemma view_cached:
  "once (blocks c) \<Longrightarrow> i < length (blocks c) \<Longrightarrow> cvalid (blocks c ! i) \<Longrightarrow>
    view c (bs_id (blocks c ! i)) = cdata (blocks c ! i)"
  by (simp add: view_def find_cached_once)

lemma view_uncached:
  "(\<And>i. i < length (blocks c) \<Longrightarrow> cvalid (blocks c ! i) \<Longrightarrow> bs_id (blocks c ! i) \<noteq> s) \<Longrightarrow>
    view c s = blk_medium (fs_device c) s"
proof -
  assume "\<And>i. i < length (blocks c) \<Longrightarrow> cvalid (blocks c ! i) \<Longrightarrow> bs_id (blocks c ! i) \<noteq> s"
  then have "find_cached (blocks c) 0 s = None" unfolding find_cached_None by (metis in_set_conv_nth)
  then show ?thesis by (simp add: view_def)
qed

lemma view_upd:
  assumes "once (blocks c)" and "once (blocks (upd_block c i f))" and i: "i < length (blocks c)"
  shows "view (upd_block c i f) s =
    (let b = blocks c ! i in
     if cvalid (f b) \<and> bs_id (f b) = s then cdata (f b)
     else if cvalid b \<and> bs_id b = s then blk_medium (fs_device c) s else view c s)"
proof -
  let ?c = "upd_block c i f" and ?b = "blocks c ! i"
  note nth = nth_upd_block[OF i]
  consider (new) "cvalid (f ?b)" "bs_id (f ?b) = s"
    | (old) "\<not> (cvalid (f ?b) \<and> bs_id (f ?b) = s)" "cvalid ?b" "bs_id ?b = s"
    | (other) "\<not> (cvalid (f ?b) \<and> bs_id (f ?b) = s)" "\<not> (cvalid ?b \<and> bs_id ?b = s)" by blast
  then show ?thesis
  proof cases
    case new
    then show ?thesis using view_cached[OF assms(2), of i] i by (simp add: nth)
  next
    case old
    have "bs_id (blocks ?c ! j) \<noteq> s" if "j < length (blocks ?c)" "cvalid (blocks ?c ! j)" for j
      using that old assms(1) i unfolding once_def by (cases "j = i") (auto simp: nth)
    then have "view ?c s = blk_medium (fs_device c) s" using view_uncached[of ?c s] by auto
    then show ?thesis using old by (auto simp: Let_def)
  next
    case other
    show ?thesis
    proof (cases "\<exists>j < length (blocks c). cvalid (blocks c ! j) \<and> bs_id (blocks c ! j) = s")
      case True
      then obtain j where j: "j < length (blocks c)" "cvalid (blocks c ! j)" "bs_id (blocks c ! j) = s"
        by blast
      then have "j \<noteq> i" using other by auto
      then show ?thesis
        using view_cached[OF assms(1) j(1,2)] view_cached[OF assms(2), of j] j other
        by (auto simp: nth Let_def)
    next
      case False
      then have "view c s = blk_medium (fs_device c) s" by (intro view_uncached) blast
      moreover have "view ?c s = blk_medium (fs_device ?c) s"
        using False other by (intro view_uncached) (auto simp: nth split: if_splits)
      ultimately show ?thesis using other by auto
    qed
  qed
qed

lemma once_upd:
  assumes "once (blocks c)" and "i < length (blocks c)"
    and "cvalid (f (blocks c ! i)) \<Longrightarrow>
      (cvalid (blocks c ! i) \<and> bs_id (f (blocks c ! i)) = bs_id (blocks c ! i)) \<or>
      (\<forall>j < length (blocks c). j \<noteq> i \<longrightarrow> cvalid (blocks c ! j) \<longrightarrow>
         bs_id (blocks c ! j) \<noteq> bs_id (f (blocks c ! i)))"
  shows "once (blocks (upd_block c i f))"
  using assms unfolding once_def by (auto simp: nth_upd_block)

lemma wf_upd:
  assumes "cache_wf c" and "i < CACHE_LIMIT" and "block_ok (fs_device c) (f (blocks c ! i))"
    and "once (blocks (upd_block c i f))"
  shows "cache_wf (upd_block c i f)"
proof -
  have "set (blocks (upd_block c i f)) \<subseteq> insert (f (blocks c ! i)) (set (blocks c))"
    by (simp add: upd_block_def set_update_subset_insert)
  with assms show ?thesis by (auto simp: cache_wf_def)
qed

lemma n_evictable_upd:
  "i < length (blocks c) \<Longrightarrow> n_evictable (upd_block c i f) + (if evictable (blocks c ! i) then 1 else 0)
    = n_evictable c + (if evictable (f (blocks c ! i)) then 1 else 0)"
  using filter_update_length[of i "blocks c" evictable "f (blocks c ! i)"]
  by (simp add: n_evictable_def upd_block_def)

lemma wf_block: "cache_wf c \<Longrightarrow> i < CACHE_LIMIT \<Longrightarrow> block_ok (fs_device c) (blocks c ! i)"
  by (simp add: cache_wf_def)

text \<open>A block whose dirty data will be dropped instead of written back.\<close>

definition dropped :: "cache_block \<Rightarrow> bool" where
  "dropped b \<longleftrightarrow> cvalid b \<and> dirty b \<and> deleted b"

section \<open>Write-back, flush\<close>

lemma writeback_ok:
  assumes wf: "cache_wf c" and i: "i < CACHE_LIMIT"
  shows "\<exists>c'. writeback c i = Inr c' \<and> cache_wf c' \<and> view c' = view c \<and>
    num_evict c' = num_evict c \<and> clock c' = clock c \<and> n_evictable c' = n_evictable c \<and>
    blk_size (fs_device c') = blk_size (fs_device c) \<and>
    (\<forall>j. blocks c' ! j = (if j = i \<and> \<not> dropped (blocks c ! i) then (blocks c ! i)\<lparr>dirty := False\<rparr>
       else blocks c ! j))"
proof -
  let ?b = "blocks c ! i"
  have len: "length (blocks c) = CACHE_LIMIT" and on: "once (blocks c)"
    and bo: "block_ok (fs_device c) ?b" using wf i by (simp_all add: cache_wf_def)
  show ?thesis
  proof (cases "cvalid ?b \<and> dirty ?b \<and> \<not> deleted ?b")
    case False
    then have "writeback c i = Inr c" using bo by (auto simp: writeback_def Let_def block_ok_def)
    moreover have "(blocks c ! i)\<lparr>dirty := False\<rparr> = blocks c ! i" if "\<not> dropped ?b"
      using that False bo by (cases ?b) (auto simp: dropped_def block_ok_def)
    ultimately show ?thesis using wf by auto
  next
    case True
    define dev where "dev = (fs_device c)\<lparr>blk_medium := (blk_medium (fs_device c))(bs_id ?b := cdata ?b),
      write_cnt := write_cnt (fs_device c) + 1\<rparr>"
    define c0 where "c0 = c\<lparr>fs_device := dev\<rparr>"
    define c' where "c' = upd_block c0 i (\<lambda>b. b\<lparr>dirty := False\<rparr>)"
    have b0: "blocks c0 = blocks c" by (simp add: c0_def)
    have wb: "writeback c i = Inr c'"
      using True bo wf by (auto simp: writeback_def Let_def block_ok_def cache_wf_def block_write_ok
          dev_def c0_def c'_def)
    have nth: "blocks c' ! j = (if j = i then ?b\<lparr>dirty := False\<rparr> else blocks c ! j)" for j
      using i len by (simp add: c'_def nth_upd_block b0)
    have ne: "bs_id (blocks c ! j) \<noteq> bs_id ?b"
      if "j < CACHE_LIMIT" "j \<noteq> i" "cvalid (blocks c ! j)" for j
      using that on i len True unfolding once_def by auto
    have "block_ok dev (blocks c ! j)" if "j < CACHE_LIMIT" "j \<noteq> i" for j
      using wf_block[OF wf that(1)] ne[OF that] by (auto simp: block_ok_def dev_def)
    moreover have "block_ok dev (?b\<lparr>dirty := False\<rparr>)"
      using bo by (auto simp: block_ok_def dev_def)
    ultimately have "block_ok dev (blocks c' ! j)" if "j < CACHE_LIMIT" for j
      using that by (cases "j = i") (simp_all add: nth)
    then have all: "\<forall>b \<in> set (blocks c'). block_ok dev b"
      using len by (auto simp: in_set_conv_nth c'_def c0_def)
    have on0: "once (blocks c0)" using on by (simp add: b0)
    have on': "once (blocks c')"
      unfolding c'_def by (rule once_upd[OF on0]) (use i len b0 in auto)
    have "cache_wf c'"
      using wf all on' by (simp add: cache_wf_def c'_def c0_def dev_def)
    moreover have "view c' s = view c s" for s
    proof -
      have "view c0 s = (if find_cached (blocks c) 0 s = None then blk_medium dev s else view c s)"
        by (simp add: view_def c0_def split: option.splits)
      moreover have "blk_medium dev s = blk_medium (fs_device c) s" if "find_cached (blocks c) 0 s = None"
        using that True i len unfolding find_cached_None dev_def by auto
      ultimately have v0: "view c0 s = view c s" by (auto simp: view_def)
      have "view c (bs_id ?b) = cdata ?b" using view_cached[OF on] i len True by simp
      then show ?thesis
        using view_upd[OF on0, of i "\<lambda>b. b\<lparr>dirty := False\<rparr>" s] on' i len v0 True
        by (auto simp: c'_def b0 Let_def)
    qed
    moreover have "n_evictable c' = n_evictable c"
    proof -
      have "evictable (b\<lparr>dirty := False\<rparr>) = evictable b" for b by (simp add: evictable_def)
      then show ?thesis
        using n_evictable_upd[of i c0 "\<lambda>b. b\<lparr>dirty := False\<rparr>"] i len
        by (simp add: c'_def b0 n_evictable_def[of c0] n_evictable_def[of c] split: if_splits)
    qed
    ultimately show ?thesis
      using wb nth True by (intro exI[of _ c']) (auto simp: dropped_def c'_def c0_def dev_def)
  qed
qed

text \<open>After \<open>cache_flush\<close> no block is dirty but those marked deleted.\<close>

lemma flush_loop_ok:
  assumes "cache_wf c" and "i + n = CACHE_LIMIT"
    and "\<forall>j < i. dirty (blocks c ! j) \<longrightarrow> dropped (blocks c ! j)"
  shows "\<exists>c'. flush_loop n c i = Inr c' \<and> cache_wf c' \<and> view c' = view c \<and>
    num_evict c' = num_evict c \<and> n_evictable c' = n_evictable c \<and>
    (\<forall>j < CACHE_LIMIT. (dirty (blocks c' ! j) \<longrightarrow> dropped (blocks c' ! j)) \<and>
       cvalid (blocks c' ! j) = cvalid (blocks c ! j) \<and> bs_id (blocks c' ! j) = bs_id (blocks c ! j) \<and>
       deleted (blocks c' ! j) = deleted (blocks c ! j))"
  using assms
proof (induction n arbitrary: c i)
  case 0
  then show ?case by auto
next
  case (Suc n)
  have i: "i < CACHE_LIMIT" using Suc.prems(2) by simp
  from writeback_ok[OF Suc.prems(1) i] obtain c1 where
    c1: "writeback c i = Inr c1" "cache_wf c1" "view c1 = view c" "num_evict c1 = num_evict c"
      "n_evictable c1 = n_evictable c" and
    nth: "\<forall>j. blocks c1 ! j = (if j = i \<and> \<not> dropped (blocks c ! i) then (blocks c ! i)\<lparr>dirty := False\<rparr>
       else blocks c ! j)" by blast
  have "\<forall>j < i + 1. dirty (blocks c1 ! j) \<longrightarrow> dropped (blocks c1 ! j)"
    using Suc.prems(3) nth by (auto simp: less_Suc_eq)
  with Suc.IH[OF c1(2), of "i + 1"] Suc.prems(2) obtain c2 where
    c2: "flush_loop n c1 (i + 1) = Inr c2" "cache_wf c2" "view c2 = view c1"
      "num_evict c2 = num_evict c1" "n_evictable c2 = n_evictable c1"
      "\<forall>j < CACHE_LIMIT. (dirty (blocks c2 ! j) \<longrightarrow> dropped (blocks c2 ! j)) \<and>
       cvalid (blocks c2 ! j) = cvalid (blocks c1 ! j) \<and> bs_id (blocks c2 ! j) = bs_id (blocks c1 ! j) \<and>
       deleted (blocks c2 ! j) = deleted (blocks c1 ! j)" by auto
  have "cvalid (blocks c1 ! j) = cvalid (blocks c ! j) \<and> bs_id (blocks c1 ! j) = bs_id (blocks c ! j) \<and>
       deleted (blocks c1 ! j) = deleted (blocks c ! j)" for j using nth by auto
  with c1 c2 show ?case by auto
qed

lemma flush_medium:
  assumes "cache_wf c" and "\<forall>j < CACHE_LIMIT. dirty (blocks c ! j) \<longrightarrow> dropped (blocks c ! j)"
    and "\<forall>j < CACHE_LIMIT. cvalid (blocks c ! j) \<and> bs_id (blocks c ! j) = s \<longrightarrow> \<not> dropped (blocks c ! j)"
  shows "blk_medium (fs_device c) s = view c s"
proof (cases "find_cached (blocks c) 0 s")
  case None
  then show ?thesis by (simp add: view_def)
next
  case (Some i)
  from find_cached_Some[OF Some] assms(1) have i: "i < CACHE_LIMIT" "cvalid (blocks c ! i)"
    "bs_id (blocks c ! i) = s" by (auto simp: cache_wf_def)
  then have "\<not> dirty (blocks c ! i)" using assms(2,3) by blast
  then show ?thesis using wf_block[OF assms(1) i(1)] i Some by (auto simp: view_def block_ok_def)
qed

section \<open>Eviction\<close>

lemma evict_loop_finds:
  assumes "\<exists>d < n. evictable (blocks c ! ((i + d) mod CACHE_LIMIT))" and "i < CACHE_LIMIT"
    and "clock c < CACHE_LIMIT"
  shows "\<exists>j k. evict_loop n c i = Inr (j, c\<lparr>clock := k\<rparr>) \<and> j < CACHE_LIMIT \<and> k < CACHE_LIMIT \<and>
    evictable (blocks c ! j)"
  using assms
proof (induction n arbitrary: c i)
  case (Suc n)
  show ?case
  proof (cases "evictable (blocks c ! i)")
    case True
    then have "evict_loop (Suc n) c i = Inr (i, c\<lparr>clock := clock c\<rparr>)" by simp
    with True Suc.prems show ?thesis by blast
  next
    case False
    let ?i = "(i + 1 + CACHE_LIMIT) mod CACHE_LIMIT" and ?c = "c\<lparr>clock := i\<rparr>"
    obtain d where d: "d < Suc n" "evictable (blocks c ! ((i + d) mod CACHE_LIMIT))"
      using Suc.prems(1) by blast
    then obtain e where e: "d = Suc e" using False Suc.prems(2) by (cases d) auto
    have "(?i + e) mod CACHE_LIMIT = (i + 1 + CACHE_LIMIT + e) mod CACHE_LIMIT"
      by (rule mod_add_left_eq)
    also have "i + 1 + CACHE_LIMIT + e = (i + d) + CACHE_LIMIT" using e by simp
    also have "((i + d) + CACHE_LIMIT) mod CACHE_LIMIT = (i + d) mod CACHE_LIMIT" by (rule mod_add_self2)
    finally have "(?i + e) mod CACHE_LIMIT = (i + d) mod CACHE_LIMIT" .
    then have "\<exists>d < n. evictable (blocks ?c ! ((?i + d) mod CACHE_LIMIT))" using d e by auto
    from Suc.IH[OF this] Suc.prems(2) False show ?thesis by auto
  qed
qed simp

lemma evict_loop_total:
  assumes "cache_wf c" and "0 < n_evictable c"
  shows "\<exists>j k. evict_loop CACHE_LIMIT c (clock c) = Inr (j, c\<lparr>clock := k\<rparr>) \<and> j < CACHE_LIMIT \<and>
    k < CACHE_LIMIT \<and> evictable (blocks c ! j)"
proof -
  have "\<exists>b \<in> set (blocks c). evictable b"
    using assms(2) by (metis filter_False length_greater_0_conv n_evictable_def)
  then obtain j where j: "j < CACHE_LIMIT" "evictable (blocks c ! j)"
    using assms(1) by (metis cache_wf_def in_set_conv_nth)
  have cl: "clock c < CACHE_LIMIT" using assms(1) by (simp add: cache_wf_def)
  let ?d = "(j + CACHE_LIMIT - clock c) mod CACHE_LIMIT"
  have "(clock c + ?d) mod CACHE_LIMIT = (clock c + (j + CACHE_LIMIT - clock c)) mod CACHE_LIMIT"
    by (rule mod_add_right_eq)
  also have "\<dots> = j" using j(1) cl by simp
  finally have "evictable (blocks c ! ((clock c + ?d) mod CACHE_LIMIT))" using j(2) by simp
  moreover have "?d < CACHE_LIMIT" by simp
  ultimately show ?thesis using evict_loop_finds[of CACHE_LIMIT c "clock c"] cl by blast
qed

lemma view_counters [simp]:
  "view (c\<lparr>clock := k\<rparr>) = view c" "view (c\<lparr>num_evict := m\<rparr>) = view c"
  by (rule ext, simp add: view_def split: option.splits)+

lemma evict_ok:
  assumes ok: "cache_ok c" and "0 < num_evict c"
  shows "\<exists>i c'. evict c s = Inr (i, c') \<and> i < CACHE_LIMIT \<and> cache_wf c' \<and>
    num_evict c' = num_evict c - 1 \<and> n_evictable c' = n_evictable c \<and> evictable (blocks c ! i) \<and>
    blk_size (fs_device c') = blk_size (fs_device c) \<and>
    (\<forall>j. blocks c' ! j = (if j = i then init_block (blocks c ! i) s else blocks c ! j)) \<and>
    (\<forall>t. \<not> (dropped (blocks c ! i) \<and> bs_id (blocks c ! i) = t) \<longrightarrow> view c' t = view c t)"
proof -
  have wf: "cache_wf c" and ne: "num_evict c = n_evictable c" using ok by (simp_all add: cache_ok_def)
  define c0 where "c0 = c\<lparr>num_evict := num_evict c - 1\<rparr>"
  have wf0: "cache_wf c0" and ne0: "n_evictable c0 = n_evictable c"
    using wf by (simp_all add: cache_wf_def c0_def n_evictable_def)
  from evict_loop_total[OF wf0] ne0 ne assms(2) obtain i k where
    L: "evict_loop CACHE_LIMIT c0 (clock c0) = Inr (i, c0\<lparr>clock := k\<rparr>)" "i < CACHE_LIMIT"
      "k < CACHE_LIMIT" "evictable (blocks c0 ! i)" by auto
  define c1 where "c1 = c0\<lparr>clock := k\<rparr>"
  have wf1: "cache_wf c1" and v1: "view c1 = view c" and b1: "blocks c1 = blocks c"
    and n1: "n_evictable c1 = n_evictable c"
    using wf0 L(3) by (simp_all add: cache_wf_def c1_def c0_def n_evictable_def)
  from writeback_ok[OF wf1 L(2)] obtain c2 where
    c2: "writeback c1 i = Inr c2" "cache_wf c2" "view c2 = view c1" "num_evict c2 = num_evict c1"
      "n_evictable c2 = n_evictable c1" "blk_size (fs_device c2) = blk_size (fs_device c1)" and
    nth2: "\<forall>j. blocks c2 ! j = (if j = i \<and> \<not> dropped (blocks c1 ! i)
      then (blocks c1 ! i)\<lparr>dirty := False\<rparr> else blocks c1 ! j)" by blast
  define c3 where "c3 = upd_block c2 i (\<lambda>b. init_block b s)"
  have len2: "length (blocks c2) = CACHE_LIMIT" and on2: "once (blocks c2)"
    using c2(2) by (simp_all add: cache_wf_def)
  have i2: "i < length (blocks c2)" using L(2) len2 by simp
  have on3: "once (blocks c3)"
    unfolding c3_def by (rule once_upd[OF on2 i2]) (simp add: init_block_def)
  have wf3: "cache_wf c3"
    unfolding c3_def by (rule wf_upd[OF c2(2) L(2)])
      (use on3 in \<open>simp_all add: c3_def block_ok_def init_block_def\<close>)
  have ini: "init_block (blocks c2 ! i) s = init_block (blocks c ! i) s"
    using nth2 b1 by (simp add: init_block_def)
  have nth3: "\<forall>j. blocks c3 ! j = (if j = i then init_block (blocks c ! i) s else blocks c ! j)"
    using nth2 b1 ini by (auto simp: c3_def nth_upd_block[OF i2])
  have ev: "evictable (blocks c2 ! i)" "evictable (init_block (blocks c2 ! i) s)"
    using L(4) nth2 b1 by (auto simp: c0_def evictable_def init_block_def)
  have "view c3 t = view c t" if "\<not> (dropped (blocks c ! i) \<and> bs_id (blocks c ! i) = t)" for t
  proof -
    have "blk_medium (fs_device c2) t = view c2 t" if "cvalid (blocks c2 ! i)" "bs_id (blocks c2 ! i) = t"
    proof -
      have "\<not> dropped (blocks c ! i)"
        using that \<open>\<not> (dropped (blocks c ! i) \<and> bs_id (blocks c ! i) = t)\<close> nth2 b1 by auto
      then have "\<not> dirty (blocks c2 ! i)" using nth2 b1 by simp
      then have "cdata (blocks c2 ! i) = blk_medium (fs_device c2) t"
        using wf_block[OF c2(2) L(2)] that by (auto simp: block_ok_def)
      then show ?thesis using view_cached[OF on2 i2] that by simp
    qed
    then show ?thesis
      using view_upd[OF on2 _ i2, of "\<lambda>b. init_block b s" t] on3 c2(3) v1
      by (auto simp: c3_def Let_def init_block_def)
  qed
  moreover have "evict c s = Inr (i, c3)"
    using L(1) c2(1) assms(2) by (simp add: evict_def evict_down_def c0_def c1_def c3_def)
  moreover have "n_evictable c3 = n_evictable c"
    using n_evictable_upd[OF i2, of "\<lambda>b. init_block b s"] ev c2(5) n1 by (simp add: c3_def)
  ultimately show ?thesis
    using wf3 nth3 L(2,4) c2(4,6) by (intro exI[of _ i] exI[of _ c3]) (simp add: c3_def c1_def c0_def)
qed

section \<open>Getting and releasing blocks\<close>

text \<open>What is seen of every sector stays the same, but for sectors whose block was marked
  deleted while dirty.\<close>

definition keeps :: "cache \<Rightarrow> cache \<Rightarrow> bool" where
  "keeps c c' \<longleftrightarrow> (\<forall>t. view c' t = view c t \<or>
     (\<exists>j < CACHE_LIMIT. dropped (blocks c ! j) \<and> bs_id (blocks c ! j) = t))"

text \<open>No conflicting holder of the sector's block.\<close>

definition available :: "cache \<Rightarrow> block_sector_t \<Rightarrow> bool \<Rightarrow> bool" where
  "available c s exclusive \<longleftrightarrow> (\<forall>j < CACHE_LIMIT. cvalid (blocks c ! j) \<and> bs_id (blocks c ! j) = s \<longrightarrow>
     num_writers (blocks c ! j) = 0 \<and> (exclusive \<longrightarrow> num_readers (blocks c ! j) = 0))"

definition uncached :: "cache \<Rightarrow> block_sector_t \<Rightarrow> bool" where
  "uncached c s \<longleftrightarrow> (\<forall>j < CACHE_LIMIT. \<not> (cvalid (blocks c ! j) \<and> bs_id (blocks c ! j) = s))"

lemma find_cached_uncached:
  "cache_wf c \<Longrightarrow> find_cached (blocks c) 0 s = None \<longleftrightarrow> uncached c s"
  unfolding find_cached_None uncached_def cache_wf_def by (metis in_set_conv_nth)

lemma n_evictable_pos: "i < length (blocks c) \<Longrightarrow> evictable (blocks c ! i) \<Longrightarrow> 0 < n_evictable c"
  unfolding n_evictable_def by (metis filter_empty_conv length_greater_0_conv nth_mem)

lemma obtain_ok:
  assumes ok: "cache_ok c" and "0 < num_evict c"
  shows "\<exists>i c'. obtain_block c s = Inr (i, c') \<and> i < CACHE_LIMIT \<and> cache_wf c' \<and>
    num_evict c' + (if evictable (blocks c' ! i) then 1 else 0) = n_evictable c' \<and> keeps c c' \<and>
    bs_id (blocks c' ! i) = s \<and> blk_size (fs_device c') = blk_size (fs_device c) \<and>
    (\<forall>j. j \<noteq> i \<longrightarrow> blocks c' ! j = blocks c ! j) \<and>
    (cvalid (blocks c' ! i) \<and> blocks c' = blocks c
     \<or> uncached c' s \<and> blocks c' ! i = init_block (blocks c ! i) s)"
proof -
  have wf: "cache_wf c" and ne: "num_evict c = n_evictable c" using ok by (simp_all add: cache_ok_def)
  show ?thesis
  proof (cases "find_cached (blocks c) 0 s")
    case (Some i)
    from find_cached_Some[OF Some] wf have i: "i < CACHE_LIMIT" "cvalid (blocks c ! i)"
      "bs_id (blocks c ! i) = s" by (auto simp: cache_wf_def)
    define c' where "c' = (if evictable (blocks c ! i) then c\<lparr>num_evict := num_evict c - 1\<rparr> else c)"
    have "obtain_block c s = Inr (i, c')"
      using Some assms(2) by (simp add: obtain_block_def evict_down_def c'_def)
    moreover have "cache_wf c'" "n_evictable c' = n_evictable c"
      using wf by (simp_all add: c'_def cache_wf_def n_evictable_def)
    moreover have "view c' = view c" by (simp add: c'_def)
    ultimately show ?thesis
      using i assms(2) ne by (intro exI[of _ i] exI[of _ c']) (auto simp: c'_def keeps_def)
  next
    case None
    from evict_ok[OF assms, of s] obtain i c' where
      e: "evict c s = Inr (i, c')" "i < CACHE_LIMIT" "cache_wf c'" "num_evict c' = num_evict c - 1"
        "n_evictable c' = n_evictable c" "blk_size (fs_device c') = blk_size (fs_device c)" and
      nth: "\<forall>j. blocks c' ! j = (if j = i then init_block (blocks c ! i) s else blocks c ! j)" and
      v: "\<forall>t. \<not> (dropped (blocks c ! i) \<and> bs_id (blocks c ! i) = t) \<longrightarrow> view c' t = view c t" by blast
    have "uncached c s" using None wf find_cached_uncached by blast
    then have "uncached c' s" using nth by (auto simp: uncached_def init_block_def)
    moreover have "keeps c c'" using v e(2) unfolding keeps_def by blast
    moreover have "obtain_block c s = Inr (i, c')" using None e(1) by (simp add: obtain_block_def)
    moreover have "num_evict c' + (if evictable (blocks c' ! i) then 1 else 0) = n_evictable c'"
      using e(4,5) ne assms(2) nth by (simp add: evictable_def init_block_def)
    moreover have "bs_id (blocks c' ! i) = s" using nth by (simp add: init_block_def)
    ultimately show ?thesis using e nth by auto
  qed
qed

lemma get_eq:
  assumes "obtain_block c s = Inr (i, c1)" and "i < length (blocks c1)" and "bs_id (blocks c1 ! i) = s"
    and "0 \<le> pending_requests (blocks c1 ! i)" and "num_writers (blocks c1 ! i) = 0"
    and "x \<Longrightarrow> num_readers (blocks c1 ! i) = 0"
  shows "cache_get_block c s x = Inr (i, upd_block c1 i (\<lambda>b.
    if x then b\<lparr>num_writers := num_writers b + 1\<rparr> else b\<lparr>num_readers := num_readers b + 1\<rparr>))"
  using assms by (cases x) (simp_all add: cache_get_block_def Let_def nth_upd_block upd_block_def)

lemma upd_counters_ok:
  assumes wf: "cache_wf c" and i: "i < CACHE_LIMIT"
    and f: "block_ok (fs_device c) (f (blocks c ! i))" "cvalid (f (blocks c ! i)) = cvalid (blocks c ! i)"
      "bs_id (f (blocks c ! i)) = bs_id (blocks c ! i)" "cdata (f (blocks c ! i)) = cdata (blocks c ! i)"
  shows "cache_wf (upd_block c i f)" and "view (upd_block c i f) = view c"
proof -
  have len: "length (blocks c) = CACHE_LIMIT" and on: "once (blocks c)" using wf by (simp_all add: cache_wf_def)
  have on': "once (blocks (upd_block c i f))" by (rule once_upd[OF on]) (use i len f in auto)
  show "cache_wf (upd_block c i f)" by (rule wf_upd[OF wf i f(1) on'])
  show "view (upd_block c i f) = view c"
  proof
    fix t
    show "view (upd_block c i f) t = view c t"
      using view_upd[OF on on', of t] view_cached[OF on, of i] i len f by (auto simp: Let_def)
  qed
qed

lemma get_ok:
  assumes ok: "cache_ok c" and ne: "0 < num_evict c" and av: "available c s x"
  shows "\<exists>i c'. cache_get_block c s x = Inr (i, c') \<and> i < CACHE_LIMIT \<and> cache_ok c' \<and> keeps c c' \<and>
    bs_id (blocks c' ! i) = s \<and> blk_size (fs_device c') = blk_size (fs_device c) \<and>
    (\<forall>j. j \<noteq> i \<longrightarrow> blocks c' ! j = blocks c ! j) \<and>
    (if x then num_writers (blocks c' ! i) = 1 else num_readers (blocks c' ! i) > 0) \<and>
    (evictable (blocks c ! i) \<longrightarrow> pending_requests (blocks c' ! i) = 0 \<and>
       num_readers (blocks c' ! i) + num_writers (blocks c' ! i) = 1) \<and>
    (cvalid (blocks c' ! i) \<and> deleted (blocks c' ! i) = deleted (blocks c ! i) \<and>
       cvalid (blocks c ! i) \<and> bs_id (blocks c ! i) = s
     \<or> uncached c' s \<and> \<not> cvalid (blocks c' ! i) \<and> \<not> dirty (blocks c' ! i) \<and> \<not> deleted (blocks c' ! i))"
proof -
  from obtain_ok[OF ok ne, of s] obtain i c1 where
    o: "obtain_block c s = Inr (i, c1)" "i < CACHE_LIMIT" "cache_wf c1"
      "num_evict c1 + (if evictable (blocks c1 ! i) then 1 else 0) = n_evictable c1" "keeps c c1"
      "bs_id (blocks c1 ! i) = s" "blk_size (fs_device c1) = blk_size (fs_device c)" and
    oth: "\<forall>j. j \<noteq> i \<longrightarrow> blocks c1 ! j = blocks c ! j" and
    hit: "cvalid (blocks c1 ! i) \<and> blocks c1 = blocks c
     \<or> uncached c1 s \<and> blocks c1 ! i = init_block (blocks c ! i) s" by blast
  define f where "f = (\<lambda>b :: cache_block. if x then b\<lparr>num_writers := num_writers b + 1\<rparr>
      else b\<lparr>num_readers := num_readers b + 1\<rparr>)"
  define c' where "c' = upd_block c1 i f"
  have len: "length (blocks c1) = CACHE_LIMIT" using o(3) by (simp add: cache_wf_def)
  have bo: "block_ok (fs_device c1) (blocks c1 ! i)" by (rule wf_block[OF o(3,2)])
  have "num_writers (blocks c1 ! i) = 0 \<and> (x \<longrightarrow> num_readers (blocks c1 ! i) = 0)"
    using hit
  proof (elim disjE conjE)
    assume "blocks c1 ! i = init_block (blocks c ! i) s"
    then show ?thesis by simp
  qed (use av o(2,6) in \<open>auto simp: available_def\<close>)
  then have free: "num_writers (blocks c1 ! i) = 0" "x \<Longrightarrow> num_readers (blocks c1 ! i) = 0" by simp_all
  have g: "cache_get_block c s x = Inr (i, c')"
    unfolding c'_def f_def using o(2,6) len bo free
    by (intro get_eq[OF o(1)]) (simp_all add: block_ok_def)
  have fb: "block_ok (fs_device c1) (f (blocks c1 ! i))" "\<not> evictable (f (blocks c1 ! i))"
    using bo free by (auto simp: f_def block_ok_def evictable_def)
  have fs: "cvalid (f b) = cvalid b" "bs_id (f b) = bs_id b" "cdata (f b) = cdata b"
    "deleted (f b) = deleted b" "dirty (f b) = dirty b" for b by (auto simp: f_def)
  note U = upd_counters_ok[where f = f, OF o(3,2) fb(1) fs(1-3), folded c'_def]
  have nth: "blocks c' ! j = (if j = i then f (blocks c1 ! i) else blocks c1 ! j)" for j
    using o(2) len by (simp add: c'_def nth_upd_block)
  have "num_evict c' = n_evictable c'"
    using n_evictable_upd[of i c1 f] o(2,4) len fb(2) by (simp add: c'_def split: if_splits)
  then have "cache_ok c'" using U(1) by (simp add: cache_ok_def)
  moreover have "keeps c c'" using o(5) U(2) by (simp add: keeps_def)
  moreover have "if x then num_writers (blocks c' ! i) = 1 else num_readers (blocks c' ! i) > 0"
    using free bo by (auto simp: nth f_def block_ok_def)
  moreover have "evictable (blocks c ! i) \<longrightarrow> pending_requests (blocks c' ! i) = 0 \<and>
       num_readers (blocks c' ! i) + num_writers (blocks c' ! i) = 1"
    using hit
  proof (elim disjE conjE)
    assume "blocks c1 ! i = init_block (blocks c ! i) s"
    then show ?thesis by (simp add: nth f_def)
  qed (simp add: nth f_def evictable_def)
  moreover have "uncached c' s" if "uncached c1 s"
    using that o(2) by (auto simp: uncached_def nth fs)
  then have "cvalid (blocks c' ! i) \<and> deleted (blocks c' ! i) = deleted (blocks c ! i) \<and>
       cvalid (blocks c ! i) \<and> bs_id (blocks c ! i) = s
     \<or> uncached c' s \<and> \<not> cvalid (blocks c' ! i) \<and> \<not> dirty (blocks c' ! i) \<and> \<not> deleted (blocks c' ! i)"
    using hit
  proof (elim disjE conjE)
    assume "blocks c1 ! i = init_block (blocks c ! i) s" "uncached c1 s"
    then show ?thesis using \<open>uncached c1 s \<Longrightarrow> uncached c' s\<close> by (simp add: nth fs)
  qed (use o(6) in \<open>simp add: nth fs\<close>)
  moreover have "bs_id (blocks c' ! i) = s" "blk_size (fs_device c') = blk_size (fs_device c)"
    "\<forall>j. j \<noteq> i \<longrightarrow> blocks c' ! j = blocks c ! j"
    using o(6,7) oth by (simp_all add: nth fs) (simp add: c'_def)
  ultimately show ?thesis using g o(2) by blast
qed

lemma put_ok:
  assumes ok: "cache_ok c" and i: "i < CACHE_LIMIT"
    and held: "num_writers (blocks c ! i) > 0 \<or> num_readers (blocks c ! i) > 0"
  shows "\<exists>c'. cache_put_block c i = Inr c' \<and> cache_ok c' \<and> view c' = view c \<and>
    fs_device c' = fs_device c \<and> (\<forall>j. dirty (blocks c' ! j) = dirty (blocks c ! j) \<and>
      deleted (blocks c' ! j) = deleted (blocks c ! j) \<and> cvalid (blocks c' ! j) = cvalid (blocks c ! j) \<and>
      bs_id (blocks c' ! j) = bs_id (blocks c ! j)) \<and> (\<forall>j. j \<noteq> i \<longrightarrow> blocks c' ! j = blocks c ! j) \<and>
    (pending_requests (blocks c ! i) = 0 \<and> num_readers (blocks c ! i) + num_writers (blocks c ! i) = 1
      \<longrightarrow> evictable (blocks c' ! i))"
proof -
  let ?b = "blocks c ! i"
  have wf: "cache_wf c" and ne: "num_evict c = n_evictable c" using ok by (simp_all add: cache_ok_def)
  have len: "i < length (blocks c)" using wf i by (simp add: cache_wf_def)
  have bo: "block_ok (fs_device c) ?b" by (rule wf_block[OF wf i])
  define f where "f = (\<lambda>b :: cache_block. if num_writers ?b > 0 then b\<lparr>num_writers := num_writers b - 1\<rparr>
      else b\<lparr>num_readers := num_readers b - 1\<rparr>)"
  define c1 where "c1 = upd_block c i f"
  have fs: "cvalid (f b) = cvalid b" "bs_id (f b) = bs_id b" "cdata (f b) = cdata b"
    "deleted (f b) = deleted b" "dirty (f b) = dirty b" for b by (auto simp: f_def)
  have fb: "block_ok (fs_device c) (f ?b)" using bo held by (auto simp: f_def block_ok_def)
  have nev: "\<not> evictable ?b" using held by (auto simp: evictable_def)
  note U = upd_counters_ok[where f = f, OF wf i fb fs(1-3), folded c1_def]
  have n1: "n_evictable c1 = n_evictable c + (if evictable (f ?b) then 1 else 0)"
    using n_evictable_upd[OF len, of f] nev by (simp add: c1_def)
  define c' where "c' = (if evictable (f ?b) then c1\<lparr>num_evict := num_evict c1 + 1\<rparr> else c1)"
  have "cache_put_block c i = Inr c'"
    using bo held by (auto simp: cache_put_block_def Let_def c'_def c1_def f_def evictable_def block_ok_def)
  moreover have "cache_ok c'"
    using U(1) n1 ne by (auto simp: cache_ok_def c'_def cache_wf_def n_evictable_def c1_def)
  moreover have "view c' = view c" using U(2) by (simp add: c'_def)
  moreover have nth: "blocks c' ! j = (if j = i then f ?b else blocks c ! j)" for j
    using len by (simp add: c'_def c1_def nth_upd_block)
  moreover have "pending_requests ?b = 0 \<and> num_readers ?b + num_writers ?b = 1 \<longrightarrow> evictable (f ?b)"
    using bo by (auto simp: f_def evictable_def block_ok_def)
  ultimately show ?thesis
    by (intro exI[of _ c']) (auto simp: fs, simp_all add: c'_def c1_def)
qed

lemma read_ok:
  assumes ok: "cache_ok c" and i: "i < CACHE_LIMIT" and "bs_id (blocks c ! i) < blk_size (fs_device c)"
    and once: "\<not> cvalid (blocks c ! i) \<Longrightarrow> uncached c (bs_id (blocks c ! i)) \<and> \<not> dirty (blocks c ! i)"
  shows "\<exists>c'. cache_read_block c i = Inr (view c (bs_id (blocks c ! i)), c') \<and> cache_ok c' \<and>
    view c' = view c \<and> blk_size (fs_device c') = blk_size (fs_device c) \<and>
    blocks c' ! i = (blocks c ! i)\<lparr>cvalid := True, cdata := view c (bs_id (blocks c ! i))\<rparr> \<and>
    (\<forall>j. j \<noteq> i \<longrightarrow> blocks c' ! j = blocks c ! j)"
proof -
  let ?b = "blocks c ! i"
  have wf: "cache_wf c" and ne: "num_evict c = n_evictable c" using ok by (simp_all add: cache_ok_def)
  have len: "i < length (blocks c)" and on: "once (blocks c)" using wf i by (simp_all add: cache_wf_def)
  show ?thesis
  proof (cases "cvalid ?b")
    case True
    then have "view c (bs_id ?b) = cdata ?b" using view_cached[OF on len] by simp
    moreover have "?b\<lparr>cvalid := True, cdata := cdata ?b\<rparr> = ?b" using True by (cases ?b) simp
    ultimately show ?thesis using True ok by (auto simp: cache_read_block_def)
  next
    case False
    let ?d = "blk_medium (fs_device c) (bs_id ?b)"
    have un: "uncached c (bs_id ?b)" "\<not> dirty ?b" using once[OF False] by simp_all
    then have d: "view c (bs_id ?b) = ?d"
      using wf by (intro view_uncached) (auto simp: uncached_def cache_wf_def)
    define c0 where "c0 = c\<lparr>fs_device := (fs_device c)\<lparr>read_cnt := read_cnt (fs_device c) + 1\<rparr>\<rparr>"
    define f where "f = (\<lambda>b :: cache_block. b\<lparr>cdata := ?d, cvalid := True\<rparr>)"
    have b0: "blocks c0 = blocks c" "n_evictable c0 = n_evictable c" "num_evict c0 = num_evict c"
      "blk_size (fs_device c0) = blk_size (fs_device c)" by (simp_all add: c0_def n_evictable_def)
    have v0: "view c0 = view c" by (rule ext) (simp add: view_def c0_def split: option.splits)
    have wf0: "cache_wf c0" using wf by (simp add: cache_wf_def c0_def block_ok_def)
    have on0: "once (blocks c0)" and len0: "i < length (blocks c0)" using on len by (simp_all add: b0)
    have on': "once (blocks (upd_block c0 i f))"
      using un(1) wf by (intro once_upd[OF on0 len0]) (auto simp: uncached_def b0 f_def cache_wf_def)
    have fb: "block_ok (fs_device c0) (f (blocks c0 ! i))"
      using wf_block[OF wf i] assms(3) un(2) by (auto simp: block_ok_def f_def c0_def)
    have "cache_read_block c i = Inr (?d, upd_block c0 i f)"
      using False assms(3) by (simp add: cache_read_block_def block_read_ok c0_def f_def)
    moreover have "cache_wf (upd_block c0 i f)" by (rule wf_upd[OF wf0 i fb on'])
    moreover have "evictable (f b) = evictable b" for b by (simp add: f_def evictable_def)
    then have "n_evictable (upd_block c0 i f) = n_evictable c"
      using n_evictable_upd[OF len0, of f] by (simp add: b0 split: if_splits)
    moreover have "view (upd_block c0 i f) t = view c t" for t
      using view_upd[OF on0 on' len0, of t] False d v0 by (auto simp: b0 f_def Let_def)
    ultimately show ?thesis
      using ne d by (intro exI[of _ "upd_block c0 i f"])
        (auto simp: cache_ok_def nth_upd_block[OF len0] b0 f_def)
  qed
qed

section \<open>The cache as a store of sectors\<close>

text \<open>
  The way \<open>inode.c\<close> uses the cache: get the block, read it, copy out or store and mark
  dirty, put it back.
\<close>

definition sector_read :: "cache \<Rightarrow> block_sector_t \<Rightarrow> (sector_data \<times> cache) res" where
  "sector_read c s =
     bnd (cache_get_block c s False) (\<lambda>(i, c).
     bnd (cache_read_block c i) (\<lambda>(d, c).
     bnd (cache_put_block c i) (\<lambda>c. Inr (d, c))))"

definition sector_write :: "cache \<Rightarrow> block_sector_t \<Rightarrow> sector_data \<Rightarrow> cache res" where
  "sector_write c s d =
     bnd (cache_get_block c s True) (\<lambda>(i, c).
     bnd (cache_read_block c i) (\<lambda>(_, c).
     cache_put_block (cache_mark_block_dirty (cache_poke c i d) i) i))"

text \<open>No block is held and none is marked deleted.\<close>

definition quiet :: "cache \<Rightarrow> bool" where
  "quiet c \<longleftrightarrow> (\<forall>j < CACHE_LIMIT. evictable (blocks c ! j) \<and> \<not> deleted (blocks c ! j))"

lemma quiet_num_evict:
  assumes "cache_ok c" and "quiet c"
  shows "0 < num_evict c" and "available c s x"
proof -
  have len: "length (blocks c) = CACHE_LIMIT" using assms(1) by (simp add: cache_ok_def cache_wf_def)
  have "0 < n_evictable c" by (rule n_evictable_pos[of 0]) (use assms(2) len in \<open>simp_all add: quiet_def\<close>)
  then show "0 < num_evict c" using assms(1) by (simp add: cache_ok_def)
  show "available c s x" using assms(2) by (simp add: available_def quiet_def evictable_def)
qed

lemma quiet_keeps: "quiet c \<Longrightarrow> keeps c c' \<Longrightarrow> view c' = view c"
  by (rule ext) (auto simp: quiet_def keeps_def dropped_def)

lemma get_read_ok:
  assumes ok: "cache_ok c" and q: "quiet c" and sz: "s < blk_size (fs_device c)"
  shows "\<exists>i c1 c2. cache_get_block c s x = Inr (i, c1) \<and> cache_read_block c1 i = Inr (view c s, c2) \<and>
    i < CACHE_LIMIT \<and> cache_ok c2 \<and> view c2 = view c \<and>
    blk_size (fs_device c2) = blk_size (fs_device c) \<and> (\<forall>j. j \<noteq> i \<longrightarrow> blocks c2 ! j = blocks c ! j) \<and>
    cvalid (blocks c2 ! i) \<and> bs_id (blocks c2 ! i) = s \<and> \<not> deleted (blocks c2 ! i) \<and>
    (if x then num_writers (blocks c2 ! i) = 1 else num_readers (blocks c2 ! i) > 0) \<and>
    pending_requests (blocks c2 ! i) = 0 \<and>
    num_readers (blocks c2 ! i) + num_writers (blocks c2 ! i) = 1"
proof -
  from get_ok[OF ok quiet_num_evict(1)[OF ok q] quiet_num_evict(2)[OF ok q], of s x]
  obtain i c1 where g: "cache_get_block c s x = Inr (i, c1)" "i < CACHE_LIMIT" "cache_ok c1"
    "keeps c c1" "bs_id (blocks c1 ! i) = s" "blk_size (fs_device c1) = blk_size (fs_device c)"
    "\<forall>j. j \<noteq> i \<longrightarrow> blocks c1 ! j = blocks c ! j"
    "if x then num_writers (blocks c1 ! i) = 1 else num_readers (blocks c1 ! i) > 0"
    "evictable (blocks c ! i) \<longrightarrow> pending_requests (blocks c1 ! i) = 0 \<and>
       num_readers (blocks c1 ! i) + num_writers (blocks c1 ! i) = 1"
    "cvalid (blocks c1 ! i) \<and> deleted (blocks c1 ! i) = deleted (blocks c ! i) \<and>
       cvalid (blocks c ! i) \<and> bs_id (blocks c ! i) = s
     \<or> uncached c1 s \<and> \<not> cvalid (blocks c1 ! i) \<and> \<not> dirty (blocks c1 ! i) \<and> \<not> deleted (blocks c1 ! i)"
    by blast
  have v1: "view c1 = view c" by (rule quiet_keeps[OF q g(4)])
  have nd: "\<not> deleted (blocks c1 ! i)" using g(2,10) q by (auto simp: quiet_def)
  have "bs_id (blocks c1 ! i) < blk_size (fs_device c1)" using sz g(5,6) by simp
  moreover have "\<not> cvalid (blocks c1 ! i) \<Longrightarrow> uncached c1 (bs_id (blocks c1 ! i)) \<and> \<not> dirty (blocks c1 ! i)"
    using g(5,10) by auto
  ultimately obtain c2 where r: "cache_read_block c1 i = Inr (view c1 s, c2)" "cache_ok c2"
    "view c2 = view c1" "blk_size (fs_device c2) = blk_size (fs_device c1)"
    "blocks c2 ! i = (blocks c1 ! i)\<lparr>cvalid := True, cdata := view c1 s\<rparr>"
    "\<forall>j. j \<noteq> i \<longrightarrow> blocks c2 ! j = blocks c1 ! j"
    using read_ok[OF g(3,2)] g(5) by auto
  have "evictable (blocks c ! i)" using q g(2) by (simp add: quiet_def)
  then show ?thesis
    using g r v1 nd by (intro exI[of _ i] exI[of _ c1] exI[of _ c2]) (simp add: r(5))
qed

lemma sector_read_ok:
  assumes ok: "cache_ok c" and q: "quiet c" and sz: "s < blk_size (fs_device c)"
  shows "\<exists>c'. sector_read c s = Inr (view c s, c') \<and> cache_ok c' \<and> quiet c' \<and> view c' = view c \<and>
    blk_size (fs_device c') = blk_size (fs_device c)"
proof -
  from get_read_ok[OF assms, of False] obtain i c1 c2 where
    g: "cache_get_block c s False = Inr (i, c1)" "cache_read_block c1 i = Inr (view c s, c2)"
      "i < CACHE_LIMIT" "cache_ok c2" "view c2 = view c" "blk_size (fs_device c2) = blk_size (fs_device c)"
      "\<forall>j. j \<noteq> i \<longrightarrow> blocks c2 ! j = blocks c ! j" "\<not> deleted (blocks c2 ! i)"
      "num_readers (blocks c2 ! i) > 0" "pending_requests (blocks c2 ! i) = 0"
      "num_readers (blocks c2 ! i) + num_writers (blocks c2 ! i) = 1" by auto
  from put_ok[OF g(4,3)] g(9) obtain c3 where
    p: "cache_put_block c2 i = Inr c3" "cache_ok c3" "view c3 = view c2" "fs_device c3 = fs_device c2"
      "\<forall>j. deleted (blocks c3 ! j) = deleted (blocks c2 ! j)" "\<forall>j. j \<noteq> i \<longrightarrow> blocks c3 ! j = blocks c2 ! j"
      "evictable (blocks c3 ! i)" using g(10,11) by auto
  have "quiet c3"
    unfolding quiet_def
  proof (intro allI impI)
    fix j assume "j < CACHE_LIMIT"
    then show "evictable (blocks c3 ! j) \<and> \<not> deleted (blocks c3 ! j)"
      using q g(7,8) p(5-7) by (cases "j = i") (auto simp: quiet_def)
  qed
  then show ?thesis using g p by (auto simp: sector_read_def)
qed

lemma sector_write_ok:
  assumes ok: "cache_ok c" and q: "quiet c" and sz: "s < blk_size (fs_device c)"
  shows "\<exists>c'. sector_write c s d = Inr c' \<and> cache_ok c' \<and> quiet c' \<and> view c' = (view c)(s := d) \<and>
    blk_size (fs_device c') = blk_size (fs_device c)"
proof -
  from get_read_ok[OF assms, of True] obtain i c1 c2 where
    g: "cache_get_block c s True = Inr (i, c1)" "cache_read_block c1 i = Inr (view c s, c2)"
      "i < CACHE_LIMIT" "cache_ok c2" "view c2 = view c" "blk_size (fs_device c2) = blk_size (fs_device c)"
      "\<forall>j. j \<noteq> i \<longrightarrow> blocks c2 ! j = blocks c ! j" "cvalid (blocks c2 ! i)" "bs_id (blocks c2 ! i) = s"
      "\<not> deleted (blocks c2 ! i)" "num_writers (blocks c2 ! i) = 1" "pending_requests (blocks c2 ! i) = 0"
      "num_readers (blocks c2 ! i) + num_writers (blocks c2 ! i) = 1" by auto
  define f where "f = (\<lambda>b :: cache_block. b\<lparr>cdata := d, dirty := True\<rparr>)"
  define c3 where "c3 = upd_block c2 i f"
  have wf: "cache_wf c2" and ne: "num_evict c2 = n_evictable c2" using g(4) by (simp_all add: cache_ok_def)
  have len: "i < length (blocks c2)" and on: "once (blocks c2)" using wf g(3) by (simp_all add: cache_wf_def)
  have c3: "cache_mark_block_dirty (cache_poke c2 i d) i = c3"
    using len by (simp add: cache_mark_block_dirty_def cache_poke_def c3_def f_def upd_block_def)
  have on3: "once (blocks c3)"
    unfolding c3_def by (rule once_upd[OF on len]) (use g(8) in \<open>simp add: f_def\<close>)
  have "block_ok (fs_device c2) (f (blocks c2 ! i))"
    using wf_block[OF wf g(3)] g(8) by (auto simp: block_ok_def f_def)
  then have wf3: "cache_wf c3" unfolding c3_def by (rule wf_upd[OF wf g(3)]) (use on3 in \<open>simp add: c3_def\<close>)
  have ev: "evictable (f b) = evictable b" for b by (simp add: f_def evictable_def)
  have ok3: "cache_ok c3"
    using wf3 ne n_evictable_upd[OF len, of f] by (simp add: cache_ok_def c3_def ev split: if_splits)
  have v3: "view c3 = (view c)(s := d)"
  proof
    fix t show "view c3 t = ((view c)(s := d)) t"
      using view_upd[OF on _ len, of f t] on3 g(5,8,9) by (auto simp: c3_def f_def Let_def)
  qed
  have nth: "blocks c3 ! j = (if j = i then f (blocks c2 ! i) else blocks c2 ! j)" for j
    using len by (simp add: c3_def nth_upd_block)
  have "num_writers (blocks c3 ! i) > 0" using g(11) by (simp add: nth f_def)
  with put_ok[OF ok3 g(3)] obtain c4 where
    p: "cache_put_block c3 i = Inr c4" "cache_ok c4" "view c4 = view c3" "fs_device c4 = fs_device c3"
      "\<forall>j. deleted (blocks c4 ! j) = deleted (blocks c3 ! j)" "\<forall>j. j \<noteq> i \<longrightarrow> blocks c4 ! j = blocks c3 ! j"
      "evictable (blocks c4 ! i)" using g(12,13) by (auto simp: nth f_def)
  have "quiet c4"
    unfolding quiet_def
  proof (intro allI impI)
    fix j assume "j < CACHE_LIMIT"
    then show "evictable (blocks c4 ! j) \<and> \<not> deleted (blocks c4 ! j)"
      using q g(7,10) p(5-7) by (cases "j = i") (auto simp: quiet_def nth f_def)
  qed
  then show ?thesis using g(1,2,6) c3 p v3 by (auto simp: sector_write_def c3_def)
qed

text \<open>The contract of a store of sectors, and what a client that issues a sequence of
  requests sees of it.\<close>

datatype sector_req = Rd block_sector_t | Wr block_sector_t sector_data

fun req_sector :: "sector_req \<Rightarrow> block_sector_t" where
  "req_sector (Rd s) = s"
| "req_sector (Wr s d) = s"

fun run_reqs :: "('s \<Rightarrow> block_sector_t \<Rightarrow> (sector_data \<times> 's) res) \<Rightarrow>
    ('s \<Rightarrow> block_sector_t \<Rightarrow> sector_data \<Rightarrow> 's res) \<Rightarrow> 's \<Rightarrow> sector_req list \<Rightarrow>
    (sector_data list \<times> 's) res" where
  "run_reqs rd wr st [] = Inr ([], st)"
| "run_reqs rd wr st (Rd s # rs) =
     bnd (rd st s) (\<lambda>(d, st). bnd (run_reqs rd wr st rs) (\<lambda>(ds, st). Inr (d # ds, st)))"
| "run_reqs rd wr st (Wr s d # rs) = bnd (wr st s d) (\<lambda>st. run_reqs rd wr st rs)"

text \<open>The same requests on a plain array of sectors.\<close>

fun array_reqs :: "(block_sector_t \<Rightarrow> sector_data) \<Rightarrow> sector_req list \<Rightarrow>
    sector_data list \<times> (block_sector_t \<Rightarrow> sector_data)" where
  "array_reqs m [] = ([], m)"
| "array_reqs m (Rd s # rs) = (let (ds, m') = array_reqs m rs in (m s # ds, m'))"
| "array_reqs m (Wr s d # rs) = array_reqs (m(s := d)) rs"

locale sector_store =
  fixes inv :: "'s \<Rightarrow> bool" and look :: "'s \<Rightarrow> block_sector_t \<Rightarrow> sector_data"
    and limit :: "'s \<Rightarrow> block_sector_t"
    and rd :: "'s \<Rightarrow> block_sector_t \<Rightarrow> (sector_data \<times> 's) res"
    and wr :: "'s \<Rightarrow> block_sector_t \<Rightarrow> sector_data \<Rightarrow> 's res"
  assumes rd_law: "inv st \<Longrightarrow> s < limit st \<Longrightarrow>
      \<exists>st'. rd st s = Inr (look st s, st') \<and> inv st' \<and> look st' = look st \<and> limit st' = limit st"
    and wr_law: "inv st \<Longrightarrow> s < limit st \<Longrightarrow>
      \<exists>st'. wr st s d = Inr st' \<and> inv st' \<and> look st' = (look st)(s := d) \<and> limit st' = limit st"
begin

lemma run_reqs_array:
  "inv st \<Longrightarrow> \<forall>r \<in> set rs. req_sector r < limit st \<Longrightarrow>
    \<exists>st'. run_reqs rd wr st rs = Inr (fst (array_reqs (look st) rs), st') \<and> inv st' \<and>
      look st' = snd (array_reqs (look st) rs) \<and> limit st' = limit st"
proof (induction rs arbitrary: st)
  case (Cons r rs)
  show ?case
  proof (cases r)
    case (Rd s)
    then obtain st1 where st1: "rd st s = Inr (look st s, st1)" "inv st1" "look st1 = look st"
      "limit st1 = limit st" using rd_law[OF Cons.prems(1), of s] Cons.prems(2) by auto
    with Cons.IH[OF st1(2)] Cons.prems(2) Rd show ?thesis by (auto simp: case_prod_beta)
  next
    case (Wr s d)
    then obtain st1 where st1: "wr st s d = Inr st1" "inv st1" "look st1 = (look st)(s := d)"
      "limit st1 = limit st" using wr_law[OF Cons.prems(1), of s d] Cons.prems(2) by auto
    from Cons.IH[OF st1(2)] Cons.prems(2) obtain st2 where
      "run_reqs rd wr st1 rs = Inr (fst (array_reqs (look st1) rs), st2)" "inv st2"
      "look st2 = snd (array_reqs (look st1) rs)" "limit st2 = limit st1" by (auto simp: st1(4))
    then show ?thesis using Wr st1 by simp
  qed
qed simp

end

interpretation cache_store: sector_store "\<lambda>c. cache_ok c \<and> quiet c" view
  "\<lambda>c. blk_size (fs_device c)" sector_read sector_write
  by unfold_locales (use sector_read_ok sector_write_ok in \<open>blast+\<close>)

lemma cache_init_loop_ok:
  "(\<And>j. j < i + n \<Longrightarrow> store j \<noteq> None) \<Longrightarrow> \<exists>bs. cache_init_loop store n i = Inr bs \<and> length bs = n \<and>
    (\<forall>b \<in> set bs. \<not> cvalid b \<and> \<not> dirty b \<and> \<not> deleted b \<and> evictable b)"
proof (induction n arbitrary: i)
  case (Suc n)
  from Suc.IH[of "i + 1"] Suc.prems obtain bs where
    "cache_init_loop store n (i + 1) = Inr bs" "length bs = n"
    "\<forall>b \<in> set bs. \<not> cvalid b \<and> \<not> dirty b \<and> \<not> deleted b \<and> evictable b" by auto
  moreover obtain d where "store i = Some d" using Suc.prems[of i] by auto
  ultimately show ?case by (auto simp: evictable_def)
qed simp

lemma cache_init_ok:
  assumes "\<And>j. j < CACHE_LIMIT \<Longrightarrow> store j \<noteq> None" and "blk_type dev \<noteq> BLOCK_FOREIGN"
  shows "\<exists>c. cache_init (Some dev) store = Inr c \<and> cache_ok c \<and> quiet c \<and> view c = blk_medium dev \<and>
    fs_device c = dev"
proof -
  from cache_init_loop_ok[of 0 CACHE_LIMIT store] assms(1) obtain bs where
    bs: "cache_init_loop store CACHE_LIMIT 0 = Inr bs" "length bs = CACHE_LIMIT"
      "\<forall>b \<in> set bs. \<not> cvalid b \<and> \<not> dirty b \<and> \<not> deleted b \<and> evictable b" by auto
  define c where "c = \<lparr>blocks = bs, num_evict = CACHE_LIMIT, clock = 0, fs_device = dev\<rparr>"
  have nv: "\<not> cvalid (bs ! j)" "evictable (bs ! j)" "\<not> deleted (bs ! j)" if "j < CACHE_LIMIT" for j
    using bs(2,3) that by auto
  have "filter evictable bs = bs" using bs(3) by (simp add: filter_id_conv)
  then have "num_evict c = n_evictable c" using bs(2) by (simp add: c_def n_evictable_def)
  moreover have "cache_wf c"
    using assms(2) bs nv by (auto simp: cache_wf_def c_def once_def block_ok_def evictable_def)
  moreover have "quiet c" using nv by (simp add: quiet_def c_def)
  moreover have "view c = blk_medium dev"
  proof
    fix s show "view c s = blk_medium dev s"
      using view_uncached[of c s] bs(2) nv(1) by (auto simp: c_def)
  qed
  ultimately show ?thesis using bs(1) by (auto simp: cache_init_def cache_ok_def c_def)
qed

section \<open>Properties\<close>

definition demo_cache :: cache where
  "demo_cache = projr (cache_init (Some demo_dev) (\<lambda>j. Some []))"

lemma demo_cache_ok:
  "cache_ok demo_cache" "quiet demo_cache" "view demo_cache = blk_medium demo_dev"
  "fs_device demo_cache = demo_dev"
proof -
  obtain c where "cache_init (Some demo_dev) (\<lambda>j. Some []) = Inr c" "cache_ok c" "quiet c"
    "view c = blk_medium demo_dev" "fs_device c = demo_dev"
    using cache_init_ok[of "\<lambda>j. Some []" demo_dev] by (auto simp: demo_dev_def)
  then show "cache_ok demo_cache" "quiet demo_cache" "view demo_cache = blk_medium demo_dev"
    "fs_device demo_cache = demo_dev" by (simp_all add: demo_cache_def)
qed

text \<open>
  (C8) The buffer cache is transparent. Started by \<open>cache_init\<close> on a device, any sequence of
  sector reads and writes through the cache (with whatever evictions it causes) completes
  without blocking or panicking and returns exactly what the same requests on a plain array
  of sectors return; \<open>cache_flush\<close> then makes the medium equal to that array.
\<close>

theorem cache_transparent:
  assumes "\<And>j. j < CACHE_LIMIT \<Longrightarrow> store j \<noteq> None" and "blk_type dev \<noteq> BLOCK_FOREIGN"
    and "\<forall>r \<in> set rs. req_sector r < blk_size dev"
  shows "\<exists>c c1 c2. cache_init (Some dev) store = Inr c \<and>
    run_reqs sector_read sector_write c rs = Inr (fst (array_reqs (blk_medium dev) rs), c1) \<and>
    cache_flush c1 = Inr c2 \<and> blk_medium (fs_device c2) = snd (array_reqs (blk_medium dev) rs)"
proof -
  obtain c where c: "cache_init (Some dev) store = Inr c"
    "cache_ok c" "quiet c" "view c = blk_medium dev" "fs_device c = dev"
    using cache_init_ok[of store dev] assms(1,2) by blast
  from cache_store.run_reqs_array[of c rs] c assms(3) obtain c1 where
    c1: "run_reqs sector_read sector_write c rs = Inr (fst (array_reqs (blk_medium dev) rs), c1)"
      "cache_ok c1" "quiet c1" "view c1 = snd (array_reqs (blk_medium dev) rs)" by auto
  have wf1: "cache_wf c1" using c1(2) by (simp add: cache_ok_def)
  from flush_loop_ok[OF wf1, of 0 CACHE_LIMIT] obtain c2 where
    c2: "cache_flush c1 = Inr c2" "cache_wf c2" "view c2 = view c1"
      "\<forall>j < CACHE_LIMIT. (dirty (blocks c2 ! j) \<longrightarrow> dropped (blocks c2 ! j)) \<and>
        deleted (blocks c2 ! j) = deleted (blocks c1 ! j)" by (auto simp: cache_flush_def)
  have "blk_medium (fs_device c2) s = view c2 s" for s
    by (rule flush_medium[OF c2(2)]) (use c2(4) c1(3) in \<open>auto simp: quiet_def dropped_def\<close>)
  then have "blk_medium (fs_device c2) = snd (array_reqs (blk_medium dev) rs)"
    using c2(3) c1(4) by auto
  with c c1 c2 show ?thesis by blast
qed

theorem cache_transparent_witness:
  "\<exists>c c1 c2. cache_init (Some demo_dev) (\<lambda>j. Some []) = Inr c \<and>
    run_reqs sector_read sector_write c [Wr 3 [9], Rd 3, Rd 2] = Inr ([[9], [2]], c1) \<and>
    cache_flush c1 = Inr c2 \<and> blk_medium (fs_device c2) = (blk_medium demo_dev)(3 := [9])"
  using cache_transparent[of "\<lambda>j. Some []" demo_dev "[Wr 3 [9], Rd 3, Rd 2]"]
  by (simp add: demo_dev_def)

text \<open>
  \<open>cache_get_block\<close> succeeds whenever the semaphore admits the caller and no conflicting
  holder has the sector: the eviction loop ends within one turn of the clock, the returned
  block belongs to the sector and is held in the requested mode (a writer excludes readers),
  the invariant is kept, and no other sector's visible contents change.
\<close>

theorem cache_get_block_correct:
  assumes "cache_ok c" and "0 < num_evict c" and "available c s x"
  shows "\<exists>i c'. cache_get_block c s x = Inr (i, c') \<and> i < CACHE_LIMIT \<and> cache_ok c' \<and> keeps c c' \<and>
    bs_id (blocks c' ! i) = s \<and> (\<forall>j. j \<noteq> i \<longrightarrow> blocks c' ! j = blocks c ! j) \<and>
    (if x then num_writers (blocks c' ! i) = 1 \<and> num_readers (blocks c' ! i) = 0
     else num_readers (blocks c' ! i) > 0 \<and> num_writers (blocks c' ! i) = 0)"
proof -
  from get_ok[OF assms] obtain i c' where g: "cache_get_block c s x = Inr (i, c')" "i < CACHE_LIMIT"
    "cache_ok c'" "keeps c c'" "bs_id (blocks c' ! i) = s" "\<forall>j. j \<noteq> i \<longrightarrow> blocks c' ! j = blocks c ! j"
    "if x then num_writers (blocks c' ! i) = 1 else num_readers (blocks c' ! i) > 0" by blast
  moreover have "block_ok (fs_device c') (blocks c' ! i)"
    using g(2,3) wf_block by (simp add: cache_ok_def)
  ultimately show ?thesis by (intro exI[of _ i] exI[of _ c']) (auto simp: block_ok_def)
qed

theorem cache_get_block_correct_witness:
  "\<exists>i c'. cache_get_block demo_cache 3 True = Inr (i, c') \<and> cache_ok c' \<and> bs_id (blocks c' ! i) = 3"
  using cache_get_block_correct[OF demo_cache_ok(1) quiet_num_evict(1)[OF demo_cache_ok(1,2)]
      quiet_num_evict(2)[OF demo_cache_ok(1,2)], of 3 True] by blast

text \<open>
  Two holders can end up with two different blocks for one sector: \<open>obtain_block\<close> only
  recognises blocks whose data has been read, so a second \<open>cache_get_block\<close> for a sector
  that was just granted and not yet read evicts another block for it.
\<close>

theorem cache_duplicate_block:
  assumes "cache_ok c" and "quiet c" and "uncached c s"
  shows "\<exists>i c1 j c2. cache_get_block c s True = Inr (i, c1) \<and>
    cache_get_block c1 s True = Inr (j, c2) \<and> i \<noteq> j \<and>
    bs_id (blocks c2 ! i) = s \<and> bs_id (blocks c2 ! j) = s \<and>
    num_writers (blocks c2 ! i) = 1 \<and> num_writers (blocks c2 ! j) = 1"
proof -
  note Q = quiet_num_evict[OF assms(1,2)]
  from get_ok[OF assms(1) Q(1) Q(2), of s True] obtain i c1 where
    g: "cache_get_block c s True = Inr (i, c1)" "i < CACHE_LIMIT" "cache_ok c1"
      "bs_id (blocks c1 ! i) = s" "num_writers (blocks c1 ! i) = 1"
      "\<forall>j. j \<noteq> i \<longrightarrow> blocks c1 ! j = blocks c ! j" and
    m: "cvalid (blocks c ! i) \<and> bs_id (blocks c ! i) = s \<or> uncached c1 s" by auto
  have un: "uncached c1 s" using m assms(3) g(2) by (auto simp: uncached_def)
  let ?k = "if i = 0 then 1 else 0 :: nat"
  have "evictable (blocks c1 ! ?k)" using g(6) assms(2) by (simp add: quiet_def)
  moreover have "?k < length (blocks c1)" using g(3) by (simp add: cache_ok_def cache_wf_def)
  ultimately have "0 < num_evict c1" using n_evictable_pos g(3) by (simp add: cache_ok_def)
  moreover have "available c1 s True" using un by (auto simp: available_def uncached_def)
  ultimately obtain j c2 where
    h: "cache_get_block c1 s True = Inr (j, c2)" "j < CACHE_LIMIT" "cache_ok c2"
      "bs_id (blocks c2 ! j) = s" "num_writers (blocks c2 ! j) = 1"
      "\<forall>k. k \<noteq> j \<longrightarrow> blocks c2 ! k = blocks c1 ! k"
      "cache_get_block c1 s True = Inr (j, c2)"
    using get_ok[OF g(3), of s True] by auto
  have "j \<noteq> i"
  proof
    assume "j = i"
    obtain k c3 where o: "obtain_block c1 s = Inr (k, c3)" "evict c1 s = Inr (k, c3)"
      using h(1) un find_cached_uncached[of c1 s] g(3)
      by (auto simp: cache_get_block_def obtain_block_def cache_ok_def res_iffs)
    then have "k = j" using h(1) by (auto simp: cache_get_block_def Let_def res_iffs split: if_splits)
    moreover have "evictable (blocks c1 ! k)"
      using evict_ok[OF g(3) \<open>0 < num_evict c1\<close>, of s] o(2) by auto
    ultimately show False using \<open>j = i\<close> g(5) by (simp add: evictable_def)
  qed
  then show ?thesis using g h by auto
qed

theorem cache_duplicate_block_witness:
  "\<exists>i c1 j c2. cache_get_block demo_cache 3 True = Inr (i, c1) \<and>
    cache_get_block c1 3 True = Inr (j, c2) \<and> i \<noteq> j"
proof -
  have "uncached demo_cache 3"
  proof -
    have "cache_init_loop (\<lambda>j. Some []) n i = Inr bs \<Longrightarrow> \<forall>b \<in> set bs. \<not> cvalid b" for n i bs
      by (induction n arbitrary: i bs) (auto simp: res_iffs)
    then show ?thesis
      using cache_init_loop_ok[of 0 CACHE_LIMIT "\<lambda>j. Some []"]
      by (auto simp: uncached_def demo_cache_def cache_init_def)
  qed
  from cache_duplicate_block[OF demo_cache_ok(1,2) this] show ?thesis by blast
qed

text \<open>
  A write to a sector whose cached block was marked deleted is lost: the mark outlives
  the release of the block, so when the sector is reused while still cached, neither flushing
  nor eviction writes the new contents to the medium.
\<close>

theorem cache_deleted_write_lost:
  fixes d :: sector_data
  assumes "cache_wf c" and "i < CACHE_LIMIT" and "cvalid (blocks c ! i)" and "deleted (blocks c ! i)"
  defines "c1 \<equiv> cache_mark_block_dirty (cache_poke c i d) i"
  shows "writeback c1 i = Inr c1 \<and> dirty (blocks c1 ! i) \<and> cdata (blocks c1 ! i) = d \<and>
    blk_medium (fs_device c1) (bs_id (blocks c1 ! i)) = blk_medium (fs_device c) (bs_id (blocks c ! i))"
proof -
  have i: "i < length (blocks c)" using assms(1,2) by (simp add: cache_wf_def)
  have "blocks c1 ! i = (blocks c ! i)\<lparr>cdata := d, dirty := True\<rparr>" "fs_device c1 = fs_device c"
    using i by (simp_all add: c1_def cache_mark_block_dirty_def cache_poke_def upd_block_def)
  then show ?thesis using assms(3,4) by (simp add: writeback_def Let_def)
qed

theorem cache_deleted_write_lost_witness:
  "\<exists>c. cache_wf c \<and> cvalid (blocks c ! 0) \<and> deleted (blocks c ! 0) \<and>
    writeback (cache_mark_block_dirty (cache_poke c 0 [7]) 0) 0
      = Inr (cache_mark_block_dirty (cache_poke c 0 [7]) 0)"
proof -
  define f where "f = (\<lambda>b :: cache_block. b\<lparr>cvalid := True, deleted := True, bs_id := 1, cdata := [1]\<rparr>)"
  let ?c = "upd_block demo_cache 0 f"
  obtain bs where bs: "blocks demo_cache = bs" "length bs = CACHE_LIMIT"
    "\<forall>b \<in> set bs. \<not> cvalid b \<and> \<not> dirty b \<and> \<not> deleted b \<and> evictable b"
    using cache_init_loop_ok[of 0 CACHE_LIMIT "\<lambda>j. Some []"] by (auto simp: demo_cache_def cache_init_def)
  have wf: "cache_wf demo_cache" using demo_cache_ok(1) by (simp add: cache_ok_def)
  have on: "once (blocks demo_cache)" using wf by (simp add: cache_wf_def)
  have on': "once (blocks ?c)" by (rule once_upd[OF on]) (use bs in auto)
  have "bs ! 0 \<in> set bs" using bs(2) by simp
  then have "block_ok (fs_device demo_cache) (f (blocks demo_cache ! 0))"
    using bs demo_cache_ok(4) by (auto simp: f_def block_ok_def demo_dev_def evictable_def)
  then have "cache_wf ?c" using wf_upd[OF wf, of 0 f] on' by simp
  moreover have "blocks ?c ! 0 = f (bs ! 0)" using bs(1,2) by (simp add: nth_upd_block)
  then have "cvalid (blocks ?c ! 0)" "deleted (blocks ?c ! 0)" by (simp_all add: f_def)
  ultimately show ?thesis using cache_deleted_write_lost[of ?c 0 "[7]"] by auto
qed

end
