(* ===== verification/Fixed_Point.thy ===== *)
theory Fixed_Point
  imports Kernel_Prelude
begin

text \<open>
  The 17.14 fixed-point arithmetic of \<open>threads/fixed-point.h\<close> and the formulas of the
  multi-level feedback queue scheduler in \<open>threads/thread.c\<close> that use it. A
  \<open>fixed_point_t\<close> is its 32-bit number; sums and products that leave the range of \<open>int\<close>
  wrap around, quotients truncate towards zero, and a division by zero is a \<open>Trap\<close>.

  The lemmas give the rounding of the conversions, the error bounds of multiplication and
  division, and the range of the load average and of the computed priorities.
\<close>

section \<open>Operations\<close>

abbreviation FLOAT :: int where "FLOAT \<equiv> 16384"

record fixed_point_t =
  num :: int

definition fp :: "int \<Rightarrow> fixed_point_t" where
  "fp n = \<lparr>num = wrap32 n\<rparr>"

definition int_to_fixed :: "int \<Rightarrow> fixed_point_t" where
  "int_to_fixed n = fp (n * FLOAT)"

definition fixed_to_int :: "fixed_point_t \<Rightarrow> int" where
  "fixed_to_int x =
     (if num x \<ge> 0 then cdiv (wrap32 (num x + cdiv FLOAT 2)) FLOAT
      else cdiv (wrap32 (num x - cdiv FLOAT 2)) FLOAT)"

definition fixed_to_int_down :: "fixed_point_t \<Rightarrow> int" where
  "fixed_to_int_down x = cdiv (num x) FLOAT"

definition fixed_add :: "fixed_point_t \<Rightarrow> fixed_point_t \<Rightarrow> fixed_point_t" where
  "fixed_add x y = fp (num x + num y)"

definition fixed_sub :: "fixed_point_t \<Rightarrow> fixed_point_t \<Rightarrow> fixed_point_t" where
  "fixed_sub x y = fp (num x - num y)"

definition fixed_add_int :: "fixed_point_t \<Rightarrow> int \<Rightarrow> fixed_point_t" where
  "fixed_add_int x n = fp (num x + wrap32 (n * FLOAT))"

definition fixed_sub_int :: "fixed_point_t \<Rightarrow> int \<Rightarrow> fixed_point_t" where
  "fixed_sub_int x n = fp (num x - wrap32 (n * FLOAT))"

text \<open>The product is formed in 64 bits, which two 32-bit factors cannot exceed.\<close>

definition fixed_mult :: "fixed_point_t \<Rightarrow> fixed_point_t \<Rightarrow> fixed_point_t" where
  "fixed_mult x y = fp (cdiv (num x * num y) FLOAT)"

definition fixed_mult_int :: "fixed_point_t \<Rightarrow> int \<Rightarrow> fixed_point_t" where
  "fixed_mult_int x n = fp (num x * n)"

definition fixed_div :: "fixed_point_t \<Rightarrow> fixed_point_t \<Rightarrow> fixed_point_t res" where
  "fixed_div x y =
     (if num y = 0 then Inl (Trap ''divide error'') else Inr (fp (cdiv (num x * FLOAT) (num y))))"

definition fixed_div_int :: "fixed_point_t \<Rightarrow> int \<Rightarrow> fixed_point_t res" where
  "fixed_div_int x n =
     (if n = 0 \<or> num x = - (2 ^ 31) \<and> n = - 1 then Inl (Trap ''divide error'')
      else Inr (fp (cdiv (num x) n)))"

subsection \<open>The scheduler's formulas\<close>

abbreviation (input) PRI_MIN :: int where "PRI_MIN \<equiv> 0"
abbreviation (input) PRI_DEFAULT :: int where "PRI_DEFAULT \<equiv> 31"
abbreviation (input) PRI_MAX :: int where "PRI_MAX \<equiv> 63"

definition calc_priority :: "fixed_point_t \<Rightarrow> int \<Rightarrow> int res" where
  "calc_priority recent_cpu nice =
     bnd (fixed_div_int recent_cpu 4) (\<lambda>q.
     let ans = wrap32 (wrap32 (PRI_MAX - fixed_to_int_down q) - wrap32 (nice * 2))
     in Inr (if ans < PRI_MIN then PRI_MIN else if ans > PRI_MAX then PRI_MAX else ans))"

definition calc_recent_cpu :: "fixed_point_t \<Rightarrow> int \<Rightarrow> fixed_point_t \<Rightarrow> fixed_point_t" where
  "calc_recent_cpu recent_cpu nice coeff = fixed_add_int (fixed_mult coeff recent_cpu) nice"

definition calc_load_avg :: "fixed_point_t \<Rightarrow> int \<Rightarrow> fixed_point_t res" where
  "calc_load_avg load_avg ready_threads =
     bnd (fixed_div_int (int_to_fixed 59) 60) (\<lambda>coeff.
     bnd (fixed_div_int (int_to_fixed 1) 60) (\<lambda>coeff2.
     Inr (fixed_add (fixed_mult coeff load_avg) (fixed_mult_int coeff2 ready_threads))))"

text \<open>The coefficient \<open>once_a_second\<close> passes to \<open>update_recent_cpu\<close>.\<close>

definition recent_cpu_coeff :: "fixed_point_t \<Rightarrow> fixed_point_t res" where
  "recent_cpu_coeff load_avg =
     (let coeff = fixed_mult_int load_avg 2
      in fixed_div coeff (fixed_add_int coeff 1))"

definition get_load_avg100 :: "fixed_point_t \<Rightarrow> int" where
  "get_load_avg100 load_avg = fixed_to_int (fixed_mult_int load_avg 100)"

section \<open>Truncating division\<close>

lemma cdiv_float_bounds:
  assumes "0 < b"
  shows "\<bar>b * cdiv a b - a\<bar> < b"
proof (cases "0 \<le> a")
  case True
  have "a mod b < b" "0 \<le> a mod b" using assms by simp_all
  moreover have "b * (a div b) = a - a mod b" by (simp add: minus_mod_eq_mult_div)
  ultimately show ?thesis using True assms by (simp add: cdiv_pos_pos abs_less_iff)
next
  case False
  have "(- a) mod b < b" "0 \<le> (- a) mod b" using assms by simp_all
  moreover have "b * ((- a) div b) = - a - (- a) mod b" by (simp add: minus_mod_eq_mult_div)
  ultimately show ?thesis using False assms by (simp add: cdiv_neg_pos abs_less_iff)
qed

lemma cdiv_mono: "0 < b \<Longrightarrow> a \<le> a' \<Longrightarrow> cdiv a b \<le> cdiv a' b"
proof -
  assume b: "0 < b" and le: "a \<le> a'"
  consider "0 \<le> a" | "a < 0" "0 \<le> a'" | "a' < 0" using le by linarith
  then show ?thesis
  proof cases
    case 1
    then show ?thesis using b le by (simp add: cdiv_pos_pos zdiv_mono1)
  next
    case 2
    have "0 \<le> (- a) div b" "0 \<le> a' div b" using 2 b by (simp_all add: pos_imp_zdiv_nonneg_iff)
    then show ?thesis using 2 b by (simp add: cdiv_neg_pos cdiv_pos_pos)
  next
    case 3
    have "(- a') div b \<le> (- a) div b" using le b by (intro zdiv_mono1) simp_all
    then show ?thesis using 3 le b by (simp add: cdiv_neg_pos)
  qed
qed

lemma in_int32_iff: "in_int32 x \<longleftrightarrow> - 2147483648 \<le> x \<and> x \<le> 2147483647"
  by (auto simp: in_int32_def)

lemma num_fp: "in_int32 n \<Longrightarrow> num (fp n) = n"
  by (simp add: fp_def wrap32_id)

section \<open>Conversions and products\<close>

lemma fixed_to_int_near:
  assumes "\<bar>num x\<bar> \<le> 2147475455"
  shows "\<bar>2 * (FLOAT * fixed_to_int x - num x)\<bar> \<le> FLOAT"
proof (cases "num x \<ge> 0")
  case True
  then have "in_int32 (num x + 8192)" using assms unfolding in_int32_iff by linarith
  then have e: "fixed_to_int x = (num x + 8192) div FLOAT"
    using True by (simp add: fixed_to_int_def cdiv_pos_pos wrap32_id)
  have "FLOAT * ((num x + 8192) div FLOAT) = num x + 8192 - (num x + 8192) mod FLOAT"
    by (simp add: minus_mod_eq_mult_div)
  moreover have "0 \<le> (num x + 8192) mod FLOAT" "(num x + 8192) mod FLOAT < FLOAT" by simp_all
  ultimately show ?thesis unfolding e abs_le_iff by simp
next
  case False
  then have "in_int32 (num x - 8192)" using assms unfolding in_int32_iff by linarith
  then have e: "fixed_to_int x = - ((8192 - num x) div FLOAT)"
    using False by (simp add: fixed_to_int_def cdiv_neg_pos cdiv_pos_pos wrap32_id)
  have "FLOAT * ((8192 - num x) div FLOAT) = 8192 - num x - (8192 - num x) mod FLOAT"
    by (simp add: minus_mod_eq_mult_div)
  moreover have "0 \<le> (8192 - num x) mod FLOAT" "(8192 - num x) mod FLOAT < FLOAT" by simp_all
  ultimately show ?thesis unfolding e abs_le_iff by simp
qed

lemma int_to_fixed_num: "\<bar>n\<bar> \<le> 131071 \<Longrightarrow> num (int_to_fixed n) = n * FLOAT"
  unfolding int_to_fixed_def by (rule num_fp) (unfold in_int32_iff, linarith)

lemma fixed_mult_error:
  assumes "in_int32 (cdiv (num x * num y) FLOAT)"
  shows "\<bar>FLOAT * num (fixed_mult x y) - num x * num y\<bar> < FLOAT"
  using cdiv_float_bounds[of FLOAT "num x * num y"] assms by (simp add: fixed_mult_def num_fp)

section \<open>Load average and priorities\<close>

lemma load_coefficients:
  "fixed_div_int (int_to_fixed 59) 60 = Inr \<lparr>num = 16110\<rparr>"
  "fixed_div_int (int_to_fixed 1) 60 = Inr \<lparr>num = 273\<rparr>"
  by (simp_all add: fixed_div_int_def int_to_fixed_def fp_def wrap32_def cdiv_def)

lemma calc_load_avg_range:
  assumes "0 \<le> num la" and "num la \<le> n * FLOAT" and "0 \<le> ready" and "ready \<le> n" and "n \<le> 131071"
  shows "\<exists>la'. calc_load_avg la ready = Inr la' \<and>
    num la' = 16110 * num la div FLOAT + 273 * ready \<and> 0 \<le> num la' \<and> num la' \<le> n * FLOAT"
proof -
  let ?q = "16110 * num la div FLOAT"
  have q0: "0 \<le> ?q" using assms(1) by (simp add: pos_imp_zdiv_nonneg_iff)
  have "16110 * num la \<le> 16110 * (n * FLOAT)" using assms(2) by simp
  then have "?q \<le> (16110 * n) * FLOAT div FLOAT" by (intro zdiv_mono1) simp_all
  then have q1: "?q \<le> 16110 * n" by simp
  have m: "fixed_mult \<lparr>num = 16110\<rparr> la = \<lparr>num = ?q\<rparr>"
    using assms(1,5) q0 q1
    by (simp add: fixed_mult_def fp_def cdiv_pos_pos wrap32_id in_int32_iff)
  have i: "fixed_mult_int \<lparr>num = 273\<rparr> ready = \<lparr>num = 273 * ready\<rparr>"
    using assms(3-5) by (simp add: fixed_mult_int_def fp_def wrap32_id in_int32_iff)
  have "in_int32 (?q + 273 * ready)" using q0 q1 assms(3-5) by (simp add: in_int32_iff)
  then have "calc_load_avg la ready = Inr \<lparr>num = ?q + 273 * ready\<rparr>"
    unfolding calc_load_avg_def load_coefficients bnd_simps m i
    by (simp add: fixed_add_def fp_def wrap32_id)
  then show ?thesis using q0 q1 assms(3,4) by simp
qed

lemma recent_cpu_coeff_range:
  assumes "0 \<le> num la" and "num la \<le> 131070 * 8192"
  shows "\<exists>c. recent_cpu_coeff la = Inr c \<and> 0 \<le> num c \<and> num c < FLOAT"
proof -
  let ?c = "num la * 2"
  have i: "in_int32 ?c" "in_int32 (?c + FLOAT)" using assms unfolding in_int32_iff by auto
  have c: "num (fixed_mult_int la 2) = ?c" by (simp add: fixed_mult_int_def num_fp i)
  have d: "num (fixed_add_int (fixed_mult_int la 2) 1) = ?c + FLOAT"
    using i by (simp add: fixed_add_int_def c num_fp wrap32_id in_int32_iff)
  have dp: "0 < ?c + FLOAT" using assms(1) by simp
  let ?q = "?c * FLOAT div (?c + FLOAT)"
  have q0: "0 \<le> ?q" using assms(1) dp by (simp add: pos_imp_zdiv_nonneg_iff)
  have q1: "?q < FLOAT"
  proof (rule ccontr)
    assume "\<not> ?q < FLOAT"
    then have "FLOAT * (?c + FLOAT) \<le> ?q * (?c + FLOAT)" using dp by (intro mult_right_mono) simp_all
    also have "\<dots> = ?c * FLOAT - ?c * FLOAT mod (?c + FLOAT)" by (simp add: minus_mod_eq_div_mult)
    also have "\<dots> \<le> ?c * FLOAT" using dp by simp
    finally show False by simp
  qed
  have "cdiv (?c * FLOAT) (?c + FLOAT) = ?q" using assms(1) dp by (simp add: cdiv_pos_pos)
  then have "recent_cpu_coeff la = Inr (fp ?q)"
    unfolding recent_cpu_coeff_def Let_def fixed_div_def using c d dp by simp
  then show ?thesis using q0 q1 by (simp add: num_fp in_int32_iff)
qed

lemma calc_priority_eq:
  assumes "in_int32 (num rc)" and "\<bar>nice\<bar> \<le> 1000000"
  shows "calc_priority rc nice
    = Inr (max PRI_MIN (min PRI_MAX (PRI_MAX - cdiv (cdiv (num rc) 4) FLOAT - nice * 2)))"
proof -
  let ?q = "cdiv (num rc) 4"
  have b4: "\<bar>4 * ?q - num rc\<bar> < 4" by (rule cdiv_float_bounds) simp
  then have iq: "in_int32 ?q" using assms(1) unfolding in_int32_iff by linarith
  have q: "fixed_div_int rc 4 = Inr (fp ?q)" by (simp add: fixed_div_int_def)
  let ?d = "cdiv ?q FLOAT"
  have bd: "\<bar>FLOAT * ?d - ?q\<bar> < FLOAT" by (rule cdiv_float_bounds) simp
  have dd: "fixed_to_int_down (fp ?q) = ?d" using iq by (simp add: fixed_to_int_down_def num_fp)
  have d: "\<bar>?d\<bar> \<le> 131073" using bd iq unfolding in_int32_iff by linarith
  have w: "wrap32 (63 - ?d) = 63 - ?d" "wrap32 (nice * 2) = nice * 2"
    "wrap32 (63 - ?d - nice * 2) = 63 - ?d - nice * 2"
    using d assms(2) by (auto intro!: wrap32_id simp: in_int32_iff)
  show ?thesis unfolding calc_priority_def q bnd_simps dd Let_def w by (simp add: max_def min_def)
qed

section \<open>Properties\<close>

text \<open>
  Converting to fixed point and back is the identity on every integer that fits, and
  \<open>fixed_to_int\<close> rounds to a nearest integer (the error is at most one half).
\<close>

theorem fixed_conversions:
  assumes "\<bar>n\<bar> \<le> 131071" and "\<bar>num x\<bar> \<le> 2147475455"
  shows "fixed_to_int (int_to_fixed n) = n \<and> \<bar>2 * (FLOAT * fixed_to_int x - num x)\<bar> \<le> FLOAT"
proof -
  have m: "num (int_to_fixed n) = n * FLOAT" using assms(1) by (rule int_to_fixed_num)
  then have "\<bar>num (int_to_fixed n)\<bar> \<le> 2147475455" using assms(1) by simp
  from fixed_to_int_near[OF this] m have "\<bar>2 * (FLOAT * fixed_to_int (int_to_fixed n) - n * FLOAT)\<bar> \<le> FLOAT"
    by simp
  then have "\<bar>2 * (fixed_to_int (int_to_fixed n) - n)\<bar> \<le> 1" by (simp add: abs_le_iff algebra_simps)
  then have "fixed_to_int (int_to_fixed n) = n" by (simp add: abs_le_iff)
  then show ?thesis using fixed_to_int_near[OF assms(2)] by simp
qed

theorem fixed_conversions_witness:
  "fixed_to_int (int_to_fixed 42) = 42"
  using fixed_conversions[of 42 "\<lparr>num = 5\<rparr>"] by simp

text \<open>
  The load average computed once a second stays between 0 and the greatest number of
  ready threads seen, no intermediate value overflows, and the decay coefficient derived
  from it is a proper fraction, so that its division never traps.
\<close>

theorem load_avg_bounded:
  assumes "0 \<le> num la" and "num la \<le> n * FLOAT" and "0 \<le> ready" and "ready \<le> n" and "n \<le> 65535"
  shows "\<exists>la' c. calc_load_avg la ready = Inr la' \<and> 0 \<le> num la' \<and> num la' \<le> n * FLOAT \<and>
    recent_cpu_coeff la' = Inr c \<and> 0 \<le> num c \<and> num c < FLOAT"
proof -
  have "n \<le> 131071" using assms(5) by simp
  from calc_load_avg_range[OF assms(1-4) this] obtain la' where
    la: "calc_load_avg la ready = Inr la'" "0 \<le> num la'" "num la' \<le> n * FLOAT" by blast
  then have "num la' \<le> 131070 * 8192" using assms(5) by linarith
  from recent_cpu_coeff_range[OF la(2) this] la show ?thesis by blast
qed

theorem load_avg_bounded_witness:
  "\<exists>la' c. calc_load_avg \<lparr>num = 16384\<rparr> 3 = Inr la' \<and> recent_cpu_coeff la' = Inr c \<and> num c < FLOAT"
  using load_avg_bounded[of "\<lparr>num = 16384\<rparr>" 5 3] by auto

text \<open>
  The priority of the feedback scheduler always lies between \<open>PRI_MIN\<close> and \<open>PRI_MAX\<close>,
  and it does not increase when a thread has used more processor time or is nicer.
\<close>

theorem calc_priority_bounds_mono:
  assumes "in_int32 (num rc)" and "in_int32 (num rc')" and "num rc \<le> num rc'"
    and "- 20 \<le> nice" and "nice \<le> nice'" and "nice' \<le> 20"
  shows "\<exists>p p'. calc_priority rc nice = Inr p \<and> calc_priority rc' nice' = Inr p' \<and>
    PRI_MIN \<le> p' \<and> p' \<le> p \<and> p \<le> PRI_MAX"
proof -
  have n: "\<bar>nice\<bar> \<le> 1000000" "\<bar>nice'\<bar> \<le> 1000000" using assms(4-6) by simp_all
  have "cdiv (cdiv (num rc) 4) FLOAT \<le> cdiv (cdiv (num rc') 4) FLOAT"
    using assms(3) by (intro cdiv_mono) simp_all
  then show ?thesis
    using calc_priority_eq[OF assms(1) n(1)] calc_priority_eq[OF assms(2) n(2)] assms(5)
    by (simp add: max_def min_def)
qed

theorem calc_priority_bounds_mono_witness:
  "\<exists>p p'. calc_priority \<lparr>num = 0\<rparr> 0 = Inr p \<and> calc_priority \<lparr>num = 900000\<rparr> 5 = Inr p' \<and> p' \<le> p"
  using calc_priority_bounds_mono[of "\<lparr>num = 0\<rparr>" "\<lparr>num = 900000\<rparr>" 0 5] by (auto simp: in_int32_iff)

text \<open>
  \<open>fixed_to_int_down\<close>, whose comment says that it rounds down, truncates towards zero:
  on every negative number that is not an integer the result is above the floor.
\<close>

theorem fixed_to_int_down_truncates:
  assumes "num x < 0" and "num x mod FLOAT \<noteq> 0"
  shows "fixed_to_int_down x = num x div FLOAT + 1"
proof -
  have "- ((- num x) div FLOAT) = num x div FLOAT + 1"
    using assms(2) by (simp add: zdiv_zminus1_eq_if)
  then show ?thesis using assms(1) by (simp add: fixed_to_int_down_def cdiv_neg_pos)
qed

theorem fixed_to_int_down_truncates_witness:
  "fixed_to_int_down \<lparr>num = - 1\<rparr> = 0"
  using fixed_to_int_down_truncates[of "\<lparr>num = - 1\<rparr>"] by simp

end
