(* ===== verification/Scheduler.thy ===== *)
theory Scheduler
  imports Fixed_Point
begin

text \<open>
  The thread system of \<open>threads/thread.c\<close>: thread states, the 64 priority run queues, the
  scheduler, thread creation and exit, priorities, priority donation and the feedback
  scheduler's periodic updates.

  A \<open>struct thread\<close> is identified by the address of its page (\<open>thr\<close>); \<open>threads\<close> maps the
  live ones to their fields, and a lookup that fails is the \<open>magic\<close> check of \<open>is_thread\<close>
  failing. The run queues, \<open>all_list\<close> and \<open>donation_list\<close> are the sequences of threads
  they link. Code that runs with interrupts off is atomic. A call to \<open>schedule\<close> changes
  the running thread; what the old thread does after it resumes is a later step. Locks and
  semaphores are part of the state because donation walks through them; their operations
  are in \<open>Synch\<close>.
\<close>

section \<open>State\<close>

type_synonym thr = nat
type_synonym lockid = nat

text \<open>
  Semaphores are embedded in other structures: in a lock, in the exit structure of a child
  process, in the \<open>semaphore_elem\<close> on the stack of a thread that waits for a condition, or they
  stand alone.
\<close>

datatype sema_id = LockSema lockid | ExitSema nat | WaiterSema thr | PlainSema nat

datatype thread_status = THREAD_RUNNING | THREAD_READY | THREAD_BLOCKED | THREAD_DYING

record thread =
  t_tid :: int
  parent_tid :: int
  status :: thread_status
  t_name :: string
  priority :: int
  old_priority :: int
  donation_locks :: "lockid list"
  nice :: int
  recent_cpu :: fixed_point_t
  has_pagedir :: bool
  exit_of :: "nat option"
  exit_list :: "nat list"

text \<open>
  The \<open>struct exit\<close> a parent shares with a child; its \<open>status\<close> is not written when it is
  allocated.
\<close>

record exit_rec =
  ex_abandoned :: bool
  ex_status :: "int option"
  ex_child :: int
  ex_parent :: int

record semaphore =
  sema_value :: nat
  waiters :: "thr list"

record lock =
  holder :: "thr option"
  donated :: bool

record sched =
  threads :: "thr \<Rightarrow> thread option"
  all_list :: "thr list"
  ready_list :: "thr list list"
  donation_list :: "thr list"
  running :: thr
  idle_thread :: "thr option"
  initial_thread :: thr
  highest_priority :: int
  ready_threads :: int
  thread_ticks :: nat
  idle_ticks :: int
  kernel_ticks :: int
  user_ticks :: int
  load_avg :: fixed_point_t
  thread_mlfqs :: bool
  next_tid :: int
  intr_context :: bool
  yield_on_return :: bool
  semas :: "sema_id \<Rightarrow> semaphore"
  locks :: "lockid \<Rightarrow> lock"
  exits :: "nat \<Rightarrow> exit_rec option"
  conds :: "nat \<Rightarrow> thr list"

abbreviation PRI_CNT :: nat where "PRI_CNT \<equiv> 64"
abbreviation TIME_SLICE :: nat where "TIME_SLICE \<equiv> 4"
abbreviation TIMER_FREQ :: int where "TIMER_FREQ \<equiv> 100"

definition is_thread :: "sched \<Rightarrow> thr \<Rightarrow> bool" where
  "is_thread s t \<longleftrightarrow> threads s t \<noteq> None"

text \<open>The fields of a thread that exists, and an update of them.\<close>

definition th :: "sched \<Rightarrow> thr \<Rightarrow> thread" where
  "th s t = the (threads s t)"

definition upd_thread :: "sched \<Rightarrow> thr \<Rightarrow> (thread \<Rightarrow> thread) \<Rightarrow> sched" where
  "upd_thread s t f = s\<lparr>threads := (threads s)(t := map_option f (threads s t))\<rparr>"

definition upd_lock :: "sched \<Rightarrow> lockid \<Rightarrow> (lock \<Rightarrow> lock) \<Rightarrow> sched" where
  "upd_lock s l f = s\<lparr>locks := (locks s)(l := f (locks s l))\<rparr>"

text \<open>\<open>list_push_back (&ready_list[p], ...)\<close>: the index is not checked by the source.\<close>

definition push_ready :: "sched \<Rightarrow> int \<Rightarrow> thr \<Rightarrow> sched res" where
  "push_ready s p t =
     (if 0 \<le> p \<and> p < 64
      then Inr (s\<lparr>ready_list := (ready_list s)[nat p := ready_list s ! nat p @ [t]]\<rparr>)
      else Inl (Fault ''ready_list''))"

text \<open>\<open>list_remove\<close> of a thread's \<open>elem\<close> from the run queue that links it.\<close>

definition unlink_ready :: "sched \<Rightarrow> thr \<Rightarrow> sched" where
  "unlink_ready s t = s\<lparr>ready_list := map (remove1 t) (ready_list s)\<rparr>"

section \<open>Choosing and switching\<close>

definition thread_current :: "sched \<Rightarrow> thr res" where
  "thread_current s =
     asrt ''thread_current'' (is_thread s (running s)) (
     asrt ''thread_current'' (status (th s (running s)) = THREAD_RUNNING) (Inr (running s)))"

text \<open>The loop over the queues from \<open>PRI_MAX\<close> down; the argument is one above the index.\<close>

fun next_loop :: "nat \<Rightarrow> sched \<Rightarrow> thr option \<Rightarrow> thr option \<times> sched" where
  "next_loop 0 s next = (next, s)"
| "next_loop (Suc i) s next =
     (case (if next = None then ready_list s ! i else []) of
        t # ts \<Rightarrow>
          if ts \<noteq> [] then (Some t, s\<lparr>ready_list := (ready_list s)[i := ts]\<rparr>)
          else next_loop i (s\<lparr>ready_list := (ready_list s)[i := ts]\<rparr>) (Some t)
      | [] \<Rightarrow>
          if next \<noteq> None \<and> ready_list s ! i \<noteq> []
          then (next, s\<lparr>highest_priority := int i\<rparr>)
          else next_loop i s next)"

definition next_thread_to_run :: "sched \<Rightarrow> thr option \<times> sched" where
  "next_thread_to_run s =
     (case next_loop PRI_CNT s None of
        (None, s) \<Rightarrow> (idle_thread s, s\<lparr>highest_priority := PRI_MIN\<rparr>)
      | (Some t, s) \<Rightarrow> (Some t, s))"

definition thread_schedule_tail :: "sched \<Rightarrow> thr option \<Rightarrow> sched res" where
  "thread_schedule_tail s prev =
     (let cur = running s;
          s = upd_thread s cur (\<lambda>t. t\<lparr>status := THREAD_RUNNING\<rparr>);
          s = s\<lparr>thread_ticks := 0\<rparr>
      in case prev of
           None \<Rightarrow> Inr s
         | Some p \<Rightarrow>
             if status (th s p) = THREAD_DYING \<and> p \<noteq> initial_thread s
             then asrt ''thread_schedule_tail'' (p \<noteq> cur) (
                  Inr (s\<lparr>ready_threads := ready_threads s - 1,
                         threads := (threads s)(p := None)\<rparr>))
             else Inr s)"

definition schedule :: "sched \<Rightarrow> sched res" where
  "schedule s =
     (let cur = running s;
          (next, s) = next_thread_to_run s
      in asrt ''schedule'' (status (th s cur) \<noteq> THREAD_RUNNING) (
         case next of
           None \<Rightarrow> Inl (Panic ''schedule'')
         | Some n \<Rightarrow>
             asrt ''schedule'' (is_thread s n) (
             thread_schedule_tail (s\<lparr>running := n\<rparr>) (if cur \<noteq> n then Some cur else None))))"

section \<open>Blocking, unblocking, yielding, exiting\<close>

definition thread_block :: "sched \<Rightarrow> sched res" where
  "thread_block s =
     asrt ''thread_block'' (\<not> intr_context s) (
     bnd (thread_current s) (\<lambda>cur.
     bnd (if Some cur \<noteq> idle_thread s
          then asrt ''thread_block'' (ready_threads s > 0)
                 (Inr (s\<lparr>ready_threads := ready_threads s - 1\<rparr>))
          else Inr s) (\<lambda>s.
     schedule (upd_thread s cur (\<lambda>t. t\<lparr>status := THREAD_BLOCKED\<rparr>)))))"

definition thread_yield :: "sched \<Rightarrow> sched res" where
  "thread_yield s =
     bnd (thread_current s) (\<lambda>cur.
     asrt ''thread_yield'' (\<not> intr_context s) (
     bnd (if Some cur \<noteq> idle_thread s then push_ready s (priority (th s cur)) cur else Inr s) (\<lambda>s.
     schedule (upd_thread s cur (\<lambda>t. t\<lparr>status := THREAD_READY\<rparr>)))))"

definition thread_unblock :: "sched \<Rightarrow> thr \<Rightarrow> sched res" where
  "thread_unblock s t =
     asrt ''thread_unblock'' (is_thread s t) (
     let s = (if Some t \<noteq> idle_thread s then s\<lparr>ready_threads := ready_threads s + 1\<rparr> else s)
     in asrt ''thread_unblock'' (status (th s t) = THREAD_BLOCKED) (
     bnd (push_ready s (priority (th s t)) t) (\<lambda>s.
     let s = upd_thread s t (\<lambda>t. t\<lparr>status := THREAD_READY\<rparr>)
     in if priority (th s t) > highest_priority s
        then let s = s\<lparr>highest_priority := priority (th s t)\<rparr>
             in if \<not> intr_context s then thread_yield s else Inr s
        else Inr s)))"

text \<open>\<open>process_exit\<close> of the user program layer, which comes first, does not touch the
  scheduler's state.\<close>

definition thread_exit :: "sched \<Rightarrow> sched res" where
  "thread_exit s =
     asrt ''thread_exit'' (\<not> intr_context s) (
     bnd (thread_current s) (\<lambda>cur.
     schedule (upd_thread (s\<lparr>all_list := remove1 cur (all_list s)\<rparr>) cur
       (\<lambda>t. t\<lparr>status := THREAD_DYING\<rparr>))))"

section \<open>Creation\<close>

text \<open>\<open>memset\<close> clears the page, so \<open>nice\<close> and \<open>recent_cpu\<close> start at 0.\<close>

definition init_thread :: "sched \<Rightarrow> thr \<Rightarrow> string \<Rightarrow> int \<Rightarrow> sched res" where
  "init_thread s t name pri =
     asrt ''init_thread'' (PRI_MIN \<le> pri \<and> pri \<le> PRI_MAX) (
     Inr (s\<lparr>threads := (threads s)(t \<mapsto> \<lparr>t_tid = 0, parent_tid = 0, status = THREAD_BLOCKED,
              t_name = take 15 name, priority = pri, old_priority = - 1, donation_locks = [],
              nice = 0, recent_cpu = \<lparr>num = 0\<rparr>, has_pagedir = False,
              exit_of = None, exit_list = []\<rparr>),
            all_list := all_list s @ [t]\<rparr>))"

text \<open>
  \<open>allocate_tid\<close> takes its number under \<open>tid_lock\<close>. The call of \<open>lock_acquire\<close> asserts that it is not made by an interrupt handler; when the
  lock is free, acquiring and releasing it leave the state as it was (\<open>Synch\<close> shows this of its locks), and when it is not, the
  caller would have to wait: this model of the call then stops with \<open>Blocked\<close>.
\<close>

definition tid_lock :: lockid where
  "tid_lock = 99"

definition lock_free :: "sched \<Rightarrow> lockid \<Rightarrow> bool" where
  "lock_free s l \<longleftrightarrow> holder (locks s l) = None \<and> \<not> donated (locks s l) \<and> semas s (LockSema l) = \<lparr>sema_value = 1, waiters = []\<rparr>"

definition allocate_tid :: "sched \<Rightarrow> (int \<times> sched) res" where
  "allocate_tid s =
     asrt ''lock_acquire'' (\<not> intr_context s) (
     if \<not> lock_free s tid_lock then Inl (Blocked ''tid_lock'')
     else Inr (next_tid s, s\<lparr>next_tid := wrap32 (next_tid s + 1)\<rparr>))"

text \<open>
  \<open>page\<close> is the result of \<open>palloc_get_page\<close> and \<open>mem\<close> that of \<open>malloc\<close> for the exit structure,
  which is used unchecked. The stack frames for the context switch and the directory handle
  the thread inherits are not part of this state.
\<close>

definition thread_create :: "sched \<Rightarrow> thr option \<Rightarrow> nat option \<Rightarrow> string \<Rightarrow> int \<Rightarrow> (int \<times> sched) res" where
  "thread_create s page mem name pri =
     (case page of
        None \<Rightarrow> Inr (- 1, s)
      | Some t \<Rightarrow>
          bnd (init_thread s t name pri) (\<lambda>s.
          bnd (allocate_tid s) (\<lambda>(tid, s).
          bnd (thread_current s) (\<lambda>cur.
             let c = th s cur;
                 s = upd_thread s t (\<lambda>t. t\<lparr>t_tid := tid, parent_tid := t_tid c\<rparr>);
                 s = (if thread_mlfqs s
                      then upd_thread s t (\<lambda>t. t\<lparr>recent_cpu := recent_cpu c, nice := nice c,
                             priority := priority c\<rparr>)
                      else s)
             in case mem of
                  None \<Rightarrow> Inl (Fault ''exit structure'')
                | Some e \<Rightarrow>
                    let s = s\<lparr>exits := (exits s)(e \<mapsto> \<lparr>ex_abandoned = False, ex_status = None,
                                 ex_child = tid, ex_parent = t_tid c\<rparr>),
                              semas := (semas s)(ExitSema e := \<lparr>sema_value = 0, waiters = []\<rparr>)\<rparr>;
                        s = upd_thread s cur (\<lambda>x. x\<lparr>exit_list := exit_list x @ [e]\<rparr>);
                        s = upd_thread s t (\<lambda>x. x\<lparr>exit_of := Some e\<rparr>)
                    in bnd (thread_unblock s t) (\<lambda>s. Inr (tid, s))))))"

section \<open>Priorities\<close>

fun highest_loop :: "nat \<Rightarrow> thr list list \<Rightarrow> int" where
  "highest_loop 0 rl = 0"
| "highest_loop (Suc i) rl = (if rl ! i \<noteq> [] then int i else highest_loop i rl)"

definition update_highest_priority :: "sched \<Rightarrow> sched" where
  "update_highest_priority s = s\<lparr>highest_priority := highest_loop PRI_CNT (ready_list s)\<rparr>"

definition thread_set_priority_without_lower :: "sched \<Rightarrow> int \<Rightarrow> sched res" where
  "thread_set_priority_without_lower s new_priority =
     bnd (thread_current s) (\<lambda>cur.
     let s = upd_thread s cur (\<lambda>t. t\<lparr>priority := new_priority\<rparr>)
     in if new_priority < highest_priority s
        then thread_yield (s\<lparr>highest_priority := highest_loop PRI_CNT (ready_list s)\<rparr>)
        else Inr s)"

definition thread_set_priority :: "sched \<Rightarrow> int \<Rightarrow> sched res" where
  "thread_set_priority s new_priority =
     (if thread_mlfqs s then Inr s
      else bnd (thread_current s) (\<lambda>cur.
           if donation_locks (th s cur) \<noteq> []
           then Inr (upd_thread s cur (\<lambda>t. t\<lparr>old_priority := new_priority\<rparr>))
           else thread_set_priority_without_lower s new_priority))"

definition thread_get_priority :: "sched \<Rightarrow> int res" where
  "thread_get_priority s = bnd (thread_current s) (\<lambda>cur. Inr (priority (th s cur)))"

definition update_priority :: "sched \<Rightarrow> thr \<Rightarrow> sched res" where
  "update_priority s t =
     (if Some t = idle_thread s then Inr s
      else bnd (calc_priority (recent_cpu (th s t)) (nice (th s t))) (\<lambda>p.
           let old = priority (th s t);
               s = upd_thread s t (\<lambda>t. t\<lparr>priority := p\<rparr>)
           in if p \<noteq> old \<and> t \<noteq> running s \<and> status (th s t) \<noteq> THREAD_BLOCKED
              then push_ready (unlink_ready s t) p t
              else Inr s))"

definition update_recent_cpu :: "fixed_point_t \<Rightarrow> sched \<Rightarrow> thr \<Rightarrow> sched res" where
  "update_recent_cpu coeff s t =
     Inr (upd_thread s t (\<lambda>t. t\<lparr>recent_cpu := calc_recent_cpu (recent_cpu t) (nice t) coeff\<rparr>))"

fun foreach_loop :: "(sched \<Rightarrow> thr \<Rightarrow> sched res) \<Rightarrow> sched \<Rightarrow> thr list \<Rightarrow> sched res" where
  "foreach_loop func s [] = Inr s"
| "foreach_loop func s (t # ts) = bnd (func s t) (\<lambda>s. foreach_loop func s ts)"

definition thread_foreach :: "sched \<Rightarrow> (sched \<Rightarrow> thr \<Rightarrow> sched res) \<Rightarrow> sched res" where
  "thread_foreach s func = foreach_loop func s (all_list s)"

definition update_load_avg :: "sched \<Rightarrow> sched res" where
  "update_load_avg s =
     bnd (calc_load_avg (load_avg s) (ready_threads s)) (\<lambda>la. Inr (s\<lparr>load_avg := la\<rparr>))"

definition once_a_second :: "sched \<Rightarrow> sched res" where
  "once_a_second s =
     bnd (update_load_avg s) (\<lambda>s.
     bnd (recent_cpu_coeff (load_avg s)) (\<lambda>coeff.
     bnd (thread_foreach s (update_recent_cpu coeff)) (\<lambda>s.
     thread_foreach s update_priority)))"

definition thread_set_nice :: "sched \<Rightarrow> int \<Rightarrow> sched res" where
  "thread_set_nice s newnice =
     (let n = (if newnice < - 20 then - 20 else if newnice > 20 then 20 else newnice)
      in bnd (thread_current s) (\<lambda>t.
         bnd (update_priority (upd_thread s t (\<lambda>t. t\<lparr>nice := n\<rparr>)) t) (\<lambda>s.
         if priority (th s t) < highest_priority s then thread_yield s else Inr s)))"

definition thread_get_nice :: "sched \<Rightarrow> int res" where
  "thread_get_nice s = bnd (thread_current s) (\<lambda>cur. Inr (nice (th s cur)))"

definition thread_get_load_avg :: "sched \<Rightarrow> int" where
  "thread_get_load_avg s = get_load_avg100 (load_avg s)"

definition thread_get_recent_cpu :: "sched \<Rightarrow> int res" where
  "thread_get_recent_cpu s =
     bnd (thread_current s) (\<lambda>cur. Inr (fixed_to_int (fixed_mult_int (recent_cpu (th s cur)) 100)))"

text \<open>\<open>intr_yield_on_return\<close> of \<open>threads/interrupt.c\<close> and the parts of \<open>intr_handler\<close> before and after the handler of an external
  interrupt.\<close>

definition intr_yield_on_return :: "sched \<Rightarrow> sched res" where
  "intr_yield_on_return s = asrt ''intr_yield_on_return'' (intr_context s) (Inr (s\<lparr>yield_on_return := True\<rparr>))"

definition intr_enter :: "sched \<Rightarrow> sched res" where
  "intr_enter s = asrt ''intr_handler'' (\<not> intr_context s) (Inr (s\<lparr>intr_context := True, yield_on_return := False\<rparr>))"

definition intr_leave :: "sched \<Rightarrow> sched res" where
  "intr_leave s =
     asrt ''intr_handler'' (intr_context s) (
     let s = s\<lparr>intr_context := False\<rparr> in if yield_on_return s then thread_yield s else Inr s)"

text \<open>The timer tick; \<open>ticks\<close> is the value of \<open>timer_ticks ()\<close>.\<close>

definition thread_tick :: "sched \<Rightarrow> int \<Rightarrow> sched res" where
  "thread_tick s ticks =
     bnd (thread_current s) (\<lambda>t.
     let s = (if Some t = idle_thread s then s\<lparr>idle_ticks := idle_ticks s + 1\<rparr>
              else if has_pagedir (th s t) then s\<lparr>user_ticks := user_ticks s + 1\<rparr>
              else s\<lparr>kernel_ticks := kernel_ticks s + 1\<rparr>);
         s = (if thread_mlfqs s \<and> Some t \<noteq> idle_thread s
              then upd_thread s t (\<lambda>t. t\<lparr>recent_cpu := fixed_add_int (recent_cpu t) 1\<rparr>) else s)
     in bnd (if cmod ticks TIMER_FREQ = 0 \<and> thread_mlfqs s then once_a_second s else Inr s) (\<lambda>s.
        bnd (if cmod ticks 4 = 0 \<and> thread_mlfqs s
             then bnd (thread_current s) (\<lambda>cur.
                  bnd (calc_priority (recent_cpu (th s cur)) (nice (th s cur))) (\<lambda>p.
                  let s = upd_thread s cur (\<lambda>t. t\<lparr>priority := p\<rparr>)
                  in if p < highest_priority s
                     then intr_yield_on_return (update_highest_priority s)
                     else Inr s))
             else Inr s) (\<lambda>s.
        let s = s\<lparr>thread_ticks := thread_ticks s + 1\<rparr>
        in if thread_ticks s \<ge> TIME_SLICE then intr_yield_on_return s else Inr s)))"

section \<open>The choice of the next thread\<close>

lemma next_loop_Some:
  "\<exists>h. next_loop n s (Some t) = (Some t, s\<lparr>highest_priority := h\<rparr>)"
proof (induction n arbitrary: s)
  case 0
  show ?case by (rule exI[of _ "highest_priority s"]) simp
next
  case (Suc n)
  then show ?case by auto
qed

lemma next_loop_None:
  "(\<And>i. i < n \<Longrightarrow> ready_list s ! i = []) \<Longrightarrow> next_loop n s None = (None, s)"
  by (induction n) auto

lemma next_loop_top:
  assumes "m < n" and "ready_list s ! m \<noteq> []" and "\<And>i. m < i \<Longrightarrow> i < n \<Longrightarrow> ready_list s ! i = []"
  shows "\<exists>h. next_loop n s None = (Some (hd (ready_list s ! m)),
    s\<lparr>ready_list := (ready_list s)[m := tl (ready_list s ! m)], highest_priority := h\<rparr>)"
  using assms
proof (induction n)
  case (Suc n)
  show ?case
  proof (cases "n = m")
    case True
    obtain t ts where ts: "ready_list s ! m = t # ts" using Suc.prems(2) by (cases "ready_list s ! m") auto
    let ?s = "s\<lparr>ready_list := (ready_list s)[m := ts]\<rparr>"
    have "s\<lparr>ready_list := (ready_list s)[m := ts], highest_priority := highest_priority s\<rparr> = ?s" by simp
    then show ?thesis
      using True ts next_loop_Some[of n ?s t] by (cases "ts = []") (auto intro: exI[of _ "highest_priority s"])
  next
    case False
    then have "ready_list s ! n = []" "m < n" using Suc.prems by auto
    then show ?thesis using Suc.IH Suc.prems by auto
  qed
qed simp

text \<open>The highest non-empty queue.\<close>

definition top_queue :: "sched \<Rightarrow> nat \<Rightarrow> bool" where
  "top_queue s m \<longleftrightarrow> m < PRI_CNT \<and> ready_list s ! m \<noteq> [] \<and>
     (\<forall>i. m < i \<and> i < PRI_CNT \<longrightarrow> ready_list s ! i = [])"

lemma top_queue_exists:
  assumes "i < PRI_CNT" and "ready_list s ! i \<noteq> []"
  shows "\<exists>m. top_queue s m"
proof -
  let ?P = "\<lambda>i. i < PRI_CNT \<and> ready_list s ! i \<noteq> []"
  define m where "m = (GREATEST i. ?P i)"
  have b: "\<And>y. ?P y \<Longrightarrow> y \<le> PRI_CNT" by simp
  have "?P m" unfolding m_def by (rule GreatestI_nat[of ?P i PRI_CNT]) (use assms in auto)
  moreover have "ready_list s ! j = []" if "m < j" "j < PRI_CNT" for j
  proof (rule ccontr)
    assume "ready_list s ! j \<noteq> []"
    then have "j \<le> m" unfolding m_def using that(2) by (intro Greatest_le_nat[of ?P j PRI_CNT]) auto
    then show False using that(1) by simp
  qed
  ultimately show ?thesis unfolding top_queue_def by blast
qed

lemma next_thread_top:
  assumes "top_queue s m"
  shows "\<exists>h. next_thread_to_run s = (Some (hd (ready_list s ! m)),
    s\<lparr>ready_list := (ready_list s)[m := tl (ready_list s ! m)], highest_priority := h\<rparr>)"
  using next_loop_top[of m PRI_CNT s] assms
  by (auto simp: next_thread_to_run_def top_queue_def)

lemma next_thread_idle:
  assumes "\<And>i. i < PRI_CNT \<Longrightarrow> ready_list s ! i = []"
  shows "next_thread_to_run s = (idle_thread s, s\<lparr>highest_priority := PRI_MIN\<rparr>)"
  using next_loop_None[of PRI_CNT s] assms by (simp add: next_thread_to_run_def)

section \<open>Invariant\<close>

text \<open>
  The invariant, stated of the components of the state it constrains: the threads \<open>T\<close>, the
  run queues \<open>rl\<close>, the idle thread \<open>idle\<close>, the counter \<open>rt\<close> and the list of all threads
  \<open>al\<close>. The queues hold exactly the ready threads other than the idle thread, each once and
  in the queue of its priority; priorities are in range; \<open>ready_threads\<close> counts the threads
  that are not blocked; \<open>all_list\<close> holds the threads that are not dying.
\<close>

type_synonym tmap = "thr \<Rightarrow> thread option"

definition queue_ok :: "tmap \<Rightarrow> thr list list \<Rightarrow> thr \<Rightarrow> bool" where
  "queue_ok T rl idle \<longleftrightarrow> length rl = PRI_CNT \<and> distinct (concat rl) \<and>
     (\<forall>i < PRI_CNT. \<forall>t \<in> set (rl ! i). t \<noteq> idle \<and>
        (\<exists>x. T t = Some x \<and> status x = THREAD_READY \<and> priority x = int i)) \<and>
     (\<forall>t x. T t = Some x \<and> status x = THREAD_READY \<and> t \<noteq> idle \<longrightarrow> t \<in> set (concat rl))"

definition active :: "tmap \<Rightarrow> thr \<Rightarrow> thr set" where
  "active T idle = {t. t \<noteq> idle \<and> (\<exists>x. T t = Some x \<and> status x \<noteq> THREAD_BLOCKED)}"

definition living :: "tmap \<Rightarrow> thr set" where
  "living T = {t. \<exists>x. T t = Some x \<and> status x \<noteq> THREAD_DYING}"

definition pri_ok :: "tmap \<Rightarrow> bool" where
  "pri_ok T \<longleftrightarrow> (\<forall>t x. T t = Some x \<longrightarrow> 0 \<le> priority x \<and> priority x < 64)"

definition base :: "tmap \<Rightarrow> thr list list \<Rightarrow> thr \<Rightarrow> int \<Rightarrow> thr list \<Rightarrow> bool" where
  "base T rl idle rt al \<longleftrightarrow> queue_ok T rl idle \<and> finite (dom T) \<and> pri_ok T \<and>
     idle \<in> living T \<and> rt = int (card (active T idle)) \<and> distinct al \<and> set al = living T"

text \<open>Exactly one thread runs.\<close>

definition sched_ok :: "sched \<Rightarrow> bool" where
  "sched_ok s \<longleftrightarrow> (\<exists>idle. idle_thread s = Some idle \<and>
     base (threads s) (ready_list s) idle (ready_threads s) (all_list s)) \<and>
     is_thread s (running s) \<and>
     (\<forall>t x. threads s t = Some x \<longrightarrow> (status x = THREAD_RUNNING \<longleftrightarrow> t = running s))"

text \<open>The state in which \<open>schedule\<close> is called: the old thread has given up the processor.\<close>

definition pre_sched :: "sched \<Rightarrow> bool" where
  "pre_sched s \<longleftrightarrow> (\<exists>idle. idle_thread s = Some idle \<and>
     base (threads s) (ready_list s) idle (ready_threads s) (all_list s)) \<and>
     is_thread s (running s) \<and>
     (\<forall>t x. threads s t = Some x \<longrightarrow> status x \<noteq> THREAD_RUNNING)"

lemma mset_concat_append:
  "i < length bs \<Longrightarrow> mset (concat (bs[i := bs ! i @ [e]])) = mset (e # concat bs)"
proof (induction bs arbitrary: i)
  case (Cons b bs)
  then show ?case by (cases i) auto
qed simp

lemma mset_concat_tl:
  "i < length bs \<Longrightarrow> bs ! i \<noteq> [] \<Longrightarrow> mset (hd (bs ! i) # concat (bs[i := tl (bs ! i)])) = mset (concat bs)"
proof (induction bs arbitrary: i)
  case (Cons b bs)
  then show ?case by (cases i) (auto simp: neq_Nil_conv)
qed simp

subsection \<open>Steps on the components\<close>

lemma finite_active: "finite (dom T) \<Longrightarrow> finite (active T idle)"
  by (rule finite_subset[of _ "dom T"]) (auto simp: active_def)

lemma queue_ok_mem:
  assumes "queue_ok T rl idle"
  shows "t \<in> set (concat rl) \<longleftrightarrow> t \<noteq> idle \<and> (\<exists>x. T t = Some x \<and> status x = THREAD_READY)"
proof
  assume "t \<in> set (concat rl)"
  then obtain q where q: "q \<in> set rl" "t \<in> set q" by auto
  then obtain i where "i < length rl" "t \<in> set (rl ! i)" by (metis in_set_conv_nth)
  then show "t \<noteq> idle \<and> (\<exists>x. T t = Some x \<and> status x = THREAD_READY)"
    using assms unfolding queue_ok_def by (metis (no_types, lifting))
next
  assume "t \<noteq> idle \<and> (\<exists>x. T t = Some x \<and> status x = THREAD_READY)"
  then show "t \<in> set (concat rl)" using assms unfolding queue_ok_def by blast
qed

lemma queue_ok_pri:
  assumes "queue_ok T rl idle" and "i < PRI_CNT" and "t \<in> set (rl ! i)" and "T t = Some x"
  shows "priority x = int i"
  using assms unfolding queue_ok_def by (metis option.inject)

lemma concat_nth: "i < length rl \<Longrightarrow> t \<in> set (rl ! i) \<Longrightarrow> t \<in> set (concat rl)"
  by (metis UN_I nth_mem set_concat)

text \<open>Replacing one thread: the queues stay right if its membership is still justified.\<close>

lemma queue_ok_upd:
  assumes q: "queue_ok T rl idle"
    and stay: "\<And>x. T t = Some x \<Longrightarrow> status x = THREAD_READY \<Longrightarrow> t \<noteq> idle \<Longrightarrow>
      \<exists>y. y' = Some y \<and> status y = THREAD_READY \<and> priority y = priority x"
    and new: "\<And>y. y' = Some y \<Longrightarrow> status y = THREAD_READY \<Longrightarrow> t \<noteq> idle \<Longrightarrow>
      \<exists>x. T t = Some x \<and> status x = THREAD_READY"
  shows "queue_ok (T(t := y')) rl idle"
  unfolding queue_ok_def
proof (intro conjI allI impI ballI)
  show "length rl = PRI_CNT" "distinct (concat rl)" using q by (simp_all add: queue_ok_def)
  fix i u assume i: "i < PRI_CNT" "u \<in> set (rl ! i)"
  then have c: "u \<in> set (concat rl)" using q concat_nth by (metis queue_ok_def)
  then show "u \<noteq> idle" using queue_ok_mem[OF q] by blast
  from c obtain x where x: "T u = Some x" "status x = THREAD_READY" "u \<noteq> idle" using queue_ok_mem[OF q] by blast
  moreover have "priority x = int i" by (rule queue_ok_pri[OF q i x(1)])
  ultimately show "\<exists>x. (T(t := y')) u = Some x \<and> status x = THREAD_READY \<and> priority x = int i"
    using stay[of x] by (cases "u = t") auto
next
  fix u y assume "(T(t := y')) u = Some y \<and> status y = THREAD_READY \<and> u \<noteq> idle"
  then show "u \<in> set (concat rl)" unfolding queue_ok_mem[OF q] using new[of y] by (cases "u = t") auto
qed

lemma base_fields:
  assumes b: "base T rl idle rt al" and t: "T t = Some x" and st: "status y = status x"
    and p: "priority y = priority x \<or> (status x \<noteq> THREAD_READY \<or> t = idle) \<and> 0 \<le> priority y \<and> priority y < 64"
  shows "base (T(t \<mapsto> y)) rl idle rt al"
proof -
  have "queue_ok (T(t \<mapsto> y)) rl idle"
    by (rule queue_ok_upd) (use b t st p in \<open>auto simp: base_def\<close>)
  moreover have "active (T(t \<mapsto> y)) idle = active T idle" "living (T(t \<mapsto> y)) = living T"
    using t st by (auto simp: active_def living_def)
  moreover have "pri_ok (T(t \<mapsto> y))" using b t p unfolding base_def pri_ok_def by auto
  ultimately show ?thesis using b by (simp add: base_def)
qed

text \<open>A change between states that are not in the queues.\<close>

lemma base_status:
  assumes "base T rl idle rt al" and "T t = Some x" and "status x \<noteq> THREAD_READY \<or> t = idle"
    and "st \<noteq> THREAD_READY \<or> t = idle"
    and rt: "rt' = rt - (if t \<noteq> idle \<and> status x \<noteq> THREAD_BLOCKED \<and> st = THREAD_BLOCKED then 1 else 0)
      + (if t \<noteq> idle \<and> status x = THREAD_BLOCKED \<and> st \<noteq> THREAD_BLOCKED then 1 else 0)"
    and al: "distinct al'" "set al' = living (T(t \<mapsto> x\<lparr>status := st\<rparr>))" and "t = idle \<longrightarrow> st \<noteq> THREAD_DYING"
  shows "base (T(t \<mapsto> x\<lparr>status := st\<rparr>)) rl idle rt' al'"
proof -
  let ?T = "T(t \<mapsto> x\<lparr>status := st\<rparr>)"
  have q: "queue_ok ?T rl idle"
    by (rule queue_ok_upd) (use assms(1-4) in \<open>auto simp: base_def\<close>)
  have fin: "finite (active T idle)" using assms(1) by (simp add: base_def finite_active)
  have "active ?T idle = (if t \<noteq> idle \<and> st \<noteq> THREAD_BLOCKED then insert t (active T idle)
      else active T idle - (if t = idle then {} else {t}))"
    by (auto simp: active_def)
  moreover have "t \<in> active T idle \<longleftrightarrow> t \<noteq> idle \<and> status x \<noteq> THREAD_BLOCKED"
    using assms(2) by (auto simp: active_def)
  moreover have "0 < card (active T idle)" if "t \<in> active T idle" using that fin card_gt_0_iff by blast
  ultimately have "rt' = int (card (active ?T idle))"
    using assms(1) fin rt unfolding base_def by (auto simp: card_insert_if)
  moreover have "pri_ok ?T" using assms(1,2) unfolding base_def pri_ok_def by auto
  moreover have "idle \<in> living ?T" using assms(1,8) by (auto simp: base_def living_def)
  ultimately show ?thesis using q al assms(1) by (simp add: base_def)
qed

lemma base_push:
  assumes b: "base T rl idle rt al" and t: "T t = Some x" "status x \<noteq> THREAD_READY" "t \<noteq> idle"
    "status x \<noteq> THREAD_DYING"
    and rt: "rt' = rt + (if status x = THREAD_BLOCKED then 1 else 0)"
  shows "base (T(t \<mapsto> x\<lparr>status := THREAD_READY\<rparr>)) (rl[nat (priority x) := rl ! nat (priority x) @ [t]])
    idle rt' al"
proof -
  let ?T = "T(t \<mapsto> x\<lparr>status := THREAD_READY\<rparr>)" and ?p = "nat (priority x)"
  let ?rl = "rl[?p := rl ! ?p @ [t]]"
  have "0 \<le> priority x" "priority x < 64" using b t(1) by (auto simp: base_def pri_ok_def)
  then have p: "?p < PRI_CNT" "int ?p = priority x" by linarith+
  have q: "queue_ok T rl idle" and len: "length rl = PRI_CNT" using b by (simp_all add: base_def queue_ok_def)
  have ms: "mset (concat ?rl) = mset (t # concat rl)" using p len by (intro mset_concat_append) simp
  have set: "set (concat ?rl) = insert t (set (concat rl))" using mset_eq_setD[OF ms] by simp
  have tn: "t \<notin> set (concat rl)" using queue_ok_mem[OF q] t by auto
  have "distinct (concat ?rl) = distinct (t # concat rl)" by (rule mset_eq_imp_distinct_iff[OF ms])
  then have "distinct (concat ?rl)" using tn b by (simp add: base_def queue_ok_def)
  moreover have "u \<noteq> idle \<and> (\<exists>y. ?T u = Some y \<and> status y = THREAD_READY \<and> priority y = int i)"
    if "i < PRI_CNT" "u \<in> set (?rl ! i)" for i u
  proof (cases "u = t")
    case True
    then have "i = ?p" using that tn len concat_nth[of i rl t] by (cases "i = ?p") auto
    then show ?thesis using True t(3) p(2) by simp
  next
    case False
    then have "u \<in> set (rl ! i)" using that p(1) len by (cases "i = ?p") auto
    then show ?thesis using q that(1) False unfolding queue_ok_def by (metis fun_upd_other)
  qed
  moreover have "u \<in> set (concat ?rl)" if "?T u = Some y" "status y = THREAD_READY" "u \<noteq> idle" for u y
    unfolding set using that queue_ok_mem[OF q, of u] by (cases "u = t") auto
  ultimately have "queue_ok ?T ?rl idle" using len unfolding queue_ok_def by (simp del: set_concat)
  moreover have "active ?T idle = insert t (active T idle)" using t(3) by (auto simp: active_def)
  moreover have "t \<in> active T idle \<longleftrightarrow> status x \<noteq> THREAD_BLOCKED" using t by (auto simp: active_def)
  moreover have "living ?T = living T" using t by (auto simp: living_def)
  moreover have "pri_ok ?T" using b t(1) unfolding base_def pri_ok_def by auto
  moreover have "finite (active T idle)" using b by (simp add: base_def finite_active)
  ultimately show ?thesis using b rt by (auto simp: base_def card_insert_if)
qed

lemma base_pop:
  assumes b: "base T rl idle rt al" and m: "m < PRI_CNT" "rl ! m \<noteq> []"
  defines "n \<equiv> hd (rl ! m)"
  shows "\<exists>x. T n = Some x \<and> status x = THREAD_READY \<and> priority x = int m \<and> n \<noteq> idle \<and>
    base (T(n \<mapsto> x\<lparr>status := THREAD_RUNNING\<rparr>)) (rl[m := tl (rl ! m)]) idle rt al"
proof -
  have len: "length rl = PRI_CNT" using b by (simp add: base_def queue_ok_def)
  have nm: "n \<in> set (rl ! m)" using m(2) by (simp add: n_def)
  then obtain x where x: "T n = Some x" "status x = THREAD_READY" "priority x = int m" "n \<noteq> idle"
    using b m(1) unfolding base_def queue_ok_def by blast
  let ?T = "T(n \<mapsto> x\<lparr>status := THREAD_RUNNING\<rparr>)" and ?rl = "rl[m := tl (rl ! m)]"
  have ms: "mset (n # concat ?rl) = mset (concat rl)"
    unfolding n_def by (rule mset_concat_tl) (use m len in auto)
  have "distinct (concat rl)" using b by (simp add: base_def queue_ok_def)
  then have d: "distinct (n # concat ?rl)" using mset_eq_imp_distinct_iff[OF ms] by simp
  have set: "set (concat rl) = insert n (set (concat ?rl))" using mset_eq_setD[OF ms] by simp
  have sub: "set (?rl ! i) \<subseteq> set (rl ! i)" if "i < PRI_CNT" for i
    using that len m(2) by (cases "i = m") (auto dest: list.set_sel(2))
  have nin: "n \<notin> set (?rl ! i)" if "i < PRI_CNT" for i
    using d that len concat_nth[of i ?rl n] by auto
  have "u \<noteq> idle \<and> (\<exists>y. ?T u = Some y \<and> status y = THREAD_READY \<and> priority y = int i)"
    if "i < PRI_CNT" "u \<in> set (?rl ! i)" for i u
    using b that sub[OF that(1)] nin[OF that(1)] unfolding base_def queue_ok_def by (metis fun_upd_other subsetD)
  moreover have "u \<in> set (concat ?rl)" if "?T u = Some y" "status y = THREAD_READY" "u \<noteq> idle" for u y
  proof -
    have "u \<noteq> n" using that by auto
    then have "u \<in> set (concat rl)" using that b unfolding base_def queue_ok_def by (metis fun_upd_other)
    then show ?thesis using set \<open>u \<noteq> n\<close> by (metis insertE)
  qed
  ultimately have "queue_ok ?T ?rl idle" using d len unfolding queue_ok_def by (simp del: set_concat)
  moreover have "active ?T idle = active T idle" "living ?T = living T"
    using x by (auto simp: active_def living_def)
  moreover have "pri_ok ?T" using b x(1) unfolding base_def pri_ok_def by auto
  ultimately show ?thesis using b x by (auto simp: base_def)
qed

lemma base_free:
  assumes b: "base T rl idle rt al" and t: "T t = Some x" "status x = THREAD_DYING" "t \<noteq> idle"
  shows "base (T(t := None)) rl idle (rt - 1) al"
proof -
  have "queue_ok (T(t := None)) rl idle"
    by (rule queue_ok_upd) (use b t in \<open>auto simp: base_def\<close>)
  moreover have "active (T(t := None)) idle = active T idle - {t}" "t \<in> active T idle"
    "living (T(t := None)) = living T" using t by (auto simp: active_def living_def)
  moreover have "0 < card (active T idle)"
    using b calculation(3) finite_active card_gt_0_iff unfolding base_def by blast
  moreover have "pri_ok (T(t := None))" using b unfolding base_def pri_ok_def by auto
  ultimately show ?thesis using b by (auto simp: base_def)
qed

lemma base_new:
  assumes b: "base T rl idle rt al" and t: "T t = None" "status x = THREAD_BLOCKED"
    "0 \<le> priority x" "priority x < 64"
  shows "base (T(t \<mapsto> x)) rl idle rt (al @ [t])"
proof -
  have ti: "t \<noteq> idle" using b t(1) by (auto simp: base_def living_def)
  have "queue_ok (T(t \<mapsto> x)) rl idle"
    by (rule queue_ok_upd) (use b t in \<open>auto simp: base_def\<close>)
  moreover have "active (T(t \<mapsto> x)) idle = active T idle" "living (T(t \<mapsto> x)) = insert t (living T)"
    "t \<notin> living T" using t(1,2) by (auto simp: active_def living_def)
  moreover have "pri_ok (T(t \<mapsto> x))" using b t(3,4) unfolding base_def pri_ok_def by auto
  ultimately show ?thesis using b by (auto simp: base_def)
qed

text \<open>Taking a ready thread out of its queue, and putting it back with another priority.\<close>

lemma unlink_filter:
  assumes "distinct (concat rl)"
  shows "map (remove1 t) rl = map (filter (\<lambda>u. u \<noteq> t)) rl"
proof (rule map_cong[OF refl])
  fix q assume "q \<in> set rl"
  then have "distinct q" using assms by (auto simp: distinct_concat_iff)
  then show "remove1 t q = filter (\<lambda>u. u \<noteq> t) q" by (simp add: distinct_remove1_removeAll removeAll_filter_not_eq eq_commute)
qed

lemma base_unlink:
  assumes b: "base T rl idle rt al" and x: "T t = Some x" "status x = THREAD_READY" "t \<noteq> idle"
  shows "base (T(t \<mapsto> x\<lparr>status := THREAD_RUNNING\<rparr>)) (map (remove1 t) rl) idle rt al"
proof -
  let ?T = "T(t \<mapsto> x\<lparr>status := THREAD_RUNNING\<rparr>)" and ?rl = "map (filter (\<lambda>u. u \<noteq> t)) rl"
  have q: "queue_ok T rl idle" and len: "length rl = PRI_CNT" and d: "distinct (concat rl)"
    using b by (simp_all add: base_def queue_ok_def)
  have c: "concat ?rl = filter (\<lambda>u. u \<noteq> t) (concat rl)" by (simp add: filter_concat)
  have "u \<noteq> idle \<and> (\<exists>y. ?T u = Some y \<and> status y = THREAD_READY \<and> priority y = int i)"
    if "i < PRI_CNT" "u \<in> set (?rl ! i)" for i u
  proof -
    have "u \<in> set (rl ! i)" "u \<noteq> t" using that len by auto
    then show ?thesis using q that(1) unfolding queue_ok_def by (metis fun_upd_other)
  qed
  moreover have "u \<in> set (concat ?rl)" if "?T u = Some y" "status y = THREAD_READY" "u \<noteq> idle" for u y
  proof -
    have "u \<noteq> t" using that by auto
    moreover from this have "u \<in> set (concat rl)" using that queue_ok_mem[OF q, of u] by auto
    ultimately show ?thesis unfolding c by simp
  qed
  moreover have "distinct (concat ?rl)" unfolding c using d by (rule distinct_filter)
  ultimately have "queue_ok ?T ?rl idle" using len unfolding queue_ok_def by (simp del: set_concat)
  moreover have "active ?T idle = active T idle" "living ?T = living T"
    using x by (auto simp: active_def living_def)
  moreover have "pri_ok ?T" using b x(1) unfolding base_def pri_ok_def by auto
  ultimately show ?thesis using b by (simp add: base_def unlink_filter[OF d])
qed

lemma base_requeue:
  assumes b: "base T rl idle rt al" and x: "T t = Some x" "status x = THREAD_READY" "t \<noteq> idle"
    and y: "status y = THREAD_READY" and p: "0 \<le> priority y" "priority y < 64"
  defines "rl' \<equiv> map (remove1 t) rl"
  shows "base (T(t \<mapsto> y)) (rl'[nat (priority y) := rl' ! nat (priority y) @ [t]]) idle rt al"
proof -
  let ?z = "y\<lparr>status := THREAD_RUNNING\<rparr>"
  have "base (T(t \<mapsto> x\<lparr>status := THREAD_RUNNING\<rparr>)) rl' idle rt al"
    unfolding rl'_def by (rule base_unlink[OF b x])
  then have "base ((T(t \<mapsto> x\<lparr>status := THREAD_RUNNING\<rparr>))(t \<mapsto> ?z)) rl' idle rt al"
    by (rule base_fields) (use p in auto)
  then have "base (T(t \<mapsto> ?z)) rl' idle rt al" by simp
  then have "base ((T(t \<mapsto> ?z))(t \<mapsto> ?z\<lparr>status := THREAD_READY\<rparr>))
     (rl'[nat (priority ?z) := rl' ! nat (priority ?z) @ [t]]) idle rt al"
    by (rule base_push) (use x in auto)
  moreover have "?z\<lparr>status := THREAD_READY\<rparr> = y" using y by simp
  ultimately show ?thesis by simp
qed

subsection \<open>The scheduler establishes the invariant\<close>

lemma upd_thread_fields [simp]:
  "ready_list (upd_thread s t f) = ready_list s" "idle_thread (upd_thread s t f) = idle_thread s"
  "running (upd_thread s t f) = running s" "all_list (upd_thread s t f) = all_list s"
  "ready_threads (upd_thread s t f) = ready_threads s"
  "highest_priority (upd_thread s t f) = highest_priority s"
  "initial_thread (upd_thread s t f) = initial_thread s"
  "intr_context (upd_thread s t f) = intr_context s" "thread_mlfqs (upd_thread s t f) = thread_mlfqs s"
  "next_tid (upd_thread s t f) = next_tid s" "locks (upd_thread s t f) = locks s"
  "semas (upd_thread s t f) = semas s" "exits (upd_thread s t f) = exits s" "conds (upd_thread s t f) = conds s" "load_avg (upd_thread s t f) = load_avg s"
  "thread_ticks (upd_thread s t f) = thread_ticks s" "donation_list (upd_thread s t f) = donation_list s"
  "threads (upd_thread s t f) = (threads s)(t := map_option f (threads s t))"
  by (simp_all add: upd_thread_def)

text \<open>The parts of the state that scheduling leaves alone.\<close>

definition same_env :: "sched \<Rightarrow> sched \<Rightarrow> bool" where
  "same_env s s' \<longleftrightarrow> idle_thread s' = idle_thread s \<and> initial_thread s' = initial_thread s \<and>
     intr_context s' = intr_context s \<and> semas s' = semas s \<and> locks s' = locks s \<and> exits s' = exits s \<and>
     conds s' = conds s \<and>      thread_mlfqs s' = thread_mlfqs s \<and> load_avg s' = load_avg s"

lemma same_env_refl [simp]: "same_env s s"
  by (simp add: same_env_def)

lemma same_env_trans: "same_env s s' \<Longrightarrow> same_env s' s'' \<Longrightarrow> same_env s s''"
  by (simp add: same_env_def)

text \<open>A switch to \<open>n\<close> changes the status of \<open>n\<close> and may free a dying thread.\<close>

definition switched :: "tmap \<Rightarrow> tmap \<Rightarrow> thr \<Rightarrow> bool" where
  "switched T T' n \<longleftrightarrow> (\<forall>t. T' t = (if t = n then map_option (\<lambda>x. x\<lparr>status := THREAD_RUNNING\<rparr>) (T n) else T t) \<or>
     T' t = None \<and> t \<noteq> n \<and> (\<exists>x. T t = Some x \<and> status x = THREAD_DYING))"

lemma switched_running: "switched T T' n \<Longrightarrow> T n = Some x \<Longrightarrow> T' n = Some (x\<lparr>status := THREAD_RUNNING\<rparr>)"
  unfolding switched_def by (drule spec[of _ n]) simp

text \<open>The scheduler's choice from the queues \<open>rl\<close>: the front of the highest non-empty one.\<close>

definition picks :: "thr option \<Rightarrow> thr list list \<Rightarrow> thr \<Rightarrow> thr list list \<Rightarrow> bool" where
  "picks idle rl n rl' \<longleftrightarrow>
     (if \<forall>i < PRI_CNT. rl ! i = [] then Some n = idle \<and> rl' = rl
      else \<exists>m < PRI_CNT. rl ! m \<noteq> [] \<and> (\<forall>i. m < i \<and> i < PRI_CNT \<longrightarrow> rl ! i = []) \<and>
             n = hd (rl ! m) \<and> rl' = rl[m := tl (rl ! m)])"

text \<open>Strict priority: no ready thread has a higher priority than the running one.\<close>

definition top_runs :: "sched \<Rightarrow> bool" where
  "top_runs s \<longleftrightarrow> (\<forall>t x. threads s t = Some x \<and> status x = THREAD_READY \<and> Some t \<noteq> idle_thread s \<longrightarrow>
     Some (running s) \<noteq> idle_thread s \<and> priority x \<le> priority (th s (running s)))"

lemma ready_queued:
  assumes "sched_ok s" and "threads s t = Some x" and "status x = THREAD_READY" and "Some t \<noteq> idle_thread s"
  obtains i where "i < PRI_CNT" "t \<in> set (ready_list s ! i)" "priority x = int i"
proof -
  from assms(1) obtain idle where idle: "idle_thread s = Some idle" and
    q: "queue_ok (threads s) (ready_list s) idle" unfolding sched_ok_def base_def by blast
  have "t \<noteq> idle" using assms(4) idle by auto
  then have "t \<in> set (concat (ready_list s))" using queue_ok_mem[OF q, of t] assms(2,3) by blast
  then obtain l where "l \<in> set (ready_list s)" "t \<in> set l" by auto
  then obtain i where "i < length (ready_list s)" "t \<in> set (ready_list s ! i)" by (metis in_set_conv_nth)
  moreover have "length (ready_list s) = PRI_CNT" using q by (simp add: queue_ok_def)
  ultimately show ?thesis using that queue_ok_pri[OF q _ _ assms(2)] by auto
qed

lemma schedule_tail_ok:
  assumes idle: "idle_thread s = Some idle" and n: "threads s (running s) = Some x"
    and b': "base ((threads s)(running s \<mapsto> x\<lparr>status := THREAD_RUNNING\<rparr>)) (ready_list s) idle
      (ready_threads s) (all_list s)"
    and nr: "\<And>t y. t \<noteq> running s \<Longrightarrow> threads s t = Some y \<Longrightarrow> status y \<noteq> THREAD_RUNNING"
    and prev: "\<And>p. prev = Some p \<Longrightarrow> p \<noteq> running s \<and> is_thread s p \<and>
      (status (th s p) = THREAD_DYING \<longrightarrow> p \<noteq> idle)"
  shows "\<exists>s'. thread_schedule_tail s prev = Inr s' \<and> sched_ok s' \<and> running s' = running s \<and>
    ready_list s' = ready_list s \<and> same_env s s' \<and> thread_ticks s' = 0 \<and>
    switched (threads s) (threads s') (running s)"
proof -
  define s1 where "s1 = (upd_thread s (running s) (\<lambda>t. t\<lparr>status := THREAD_RUNNING\<rparr>))\<lparr>thread_ticks := 0\<rparr>"
  have f1: "threads s1 = (threads s)(running s \<mapsto> x\<lparr>status := THREAD_RUNNING\<rparr>)"
    "ready_list s1 = ready_list s" "ready_threads s1 = ready_threads s" "all_list s1 = all_list s"
    "idle_thread s1 = Some idle" "running s1 = running s" "same_env s s1" "thread_ticks s1 = 0"
    using n idle by (simp_all add: s1_def same_env_def)
  have run: "threads s1 t = Some y \<Longrightarrow> (status y = THREAD_RUNNING \<longleftrightarrow> t = running s)" for t y
    using nr[of t y] by (cases "t = running s") (auto simp: f1)
  have ok1: "sched_ok s1"
    using b' f1 run by (auto simp: sched_ok_def is_thread_def)
  show ?thesis
  proof (cases "\<exists>p. prev = Some p \<and> status (th s1 p) = THREAD_DYING \<and> p \<noteq> initial_thread s")
    case False
    then have "thread_schedule_tail s prev = Inr s1"
      by (auto simp: thread_schedule_tail_def Let_def s1_def split: option.splits)
    moreover have "switched (threads s) (threads s1) (running s)" using n by (auto simp: switched_def f1)
    ultimately show ?thesis using ok1 f1 by auto
  next
    case True
    then obtain p where p: "prev = Some p" "status (th s1 p) = THREAD_DYING" "p \<noteq> initial_thread s" by blast
    obtain y where y: "threads s p = Some y" "p \<noteq> running s" using prev[OF p(1)] by (auto simp: is_thread_def)
    have yd: "status y = THREAD_DYING" "threads s1 p = Some y" using p(2) y by (auto simp: th_def f1)
    then have pi: "p \<noteq> idle" using prev[OF p(1)] y(1) by (auto simp: th_def)
    define s2 where "s2 = s1\<lparr>ready_threads := ready_threads s1 - 1, threads := (threads s1)(p := None)\<rparr>"
    have "thread_schedule_tail s prev = Inr s2"
      using p y(2) by (simp add: thread_schedule_tail_def Let_def s1_def s2_def)
    moreover have "base ((threads s1)(p := None)) (ready_list s1) idle (ready_threads s1 - 1) (all_list s1)"
      by (rule base_free[of _ _ _ _ _ _ y]) (use b' f1 yd pi in auto)
    then have "sched_ok s2"
      using f1 run y(2) by (auto simp: sched_ok_def s2_def is_thread_def split: if_splits)
    moreover have "switched (threads s) (threads s2) (running s)"
      using n y yd by (auto simp: switched_def f1 s2_def)
    ultimately show ?thesis using f1 by (auto simp: s2_def same_env_def)
  qed
qed

lemma schedule_switch_ok:
  fixes h :: int
  assumes pre: "pre_sched s" and idle: "idle_thread s = Some idle"
    and dying: "status (th s (running s)) = THREAD_DYING \<Longrightarrow> running s \<noteq> idle"
    and x: "threads s n = Some x"
    and bx: "base ((threads s)(n \<mapsto> x\<lparr>status := THREAD_RUNNING\<rparr>)) rl idle (ready_threads s) (all_list s)"
  defines "s1 \<equiv> s\<lparr>ready_list := rl, highest_priority := h, running := n\<rparr>"
  shows "\<exists>s'. thread_schedule_tail s1 (if running s \<noteq> n then Some (running s) else None) = Inr s' \<and>
    sched_ok s' \<and> running s' = n \<and> ready_list s' = rl \<and> same_env s s' \<and> thread_ticks s' = 0 \<and>
    switched (threads s) (threads s') n"
proof -
  have f: "threads s1 = threads s" "running s1 = n" "idle_thread s1 = Some idle" "ready_list s1 = rl"
    "ready_threads s1 = ready_threads s" "all_list s1 = all_list s" "same_env s s1"
    using idle by (simp_all add: s1_def same_env_def)
  have cur: "is_thread s (running s)" using pre by (simp add: pre_sched_def)
  have "\<exists>s'. thread_schedule_tail s1 (if running s \<noteq> n then Some (running s) else None) = Inr s' \<and>
    sched_ok s' \<and> running s' = running s1 \<and> ready_list s' = ready_list s1 \<and> same_env s1 s' \<and>
    thread_ticks s' = 0 \<and> switched (threads s1) (threads s') (running s1)"
  proof (rule schedule_tail_ok)
    show "idle_thread s1 = Some idle" by (rule f)
    show "threads s1 (running s1) = Some x" using x f by simp
    show "base ((threads s1)(running s1 \<mapsto> x\<lparr>status := THREAD_RUNNING\<rparr>)) (ready_list s1) idle
      (ready_threads s1) (all_list s1)" unfolding f by (rule bx)
    show "status y \<noteq> THREAD_RUNNING" if "threads s1 t = Some y" for t y
      using pre that unfolding f pre_sched_def by blast
    show "p \<noteq> running s1 \<and> is_thread s1 p \<and> (status (th s1 p) = THREAD_DYING \<longrightarrow> p \<noteq> idle)"
      if "(if running s \<noteq> n then Some (running s) else None) = Some p" for p
    proof -
      have "p = running s" "p \<noteq> n" using that by (auto split: if_splits)
      then show ?thesis using cur dying f by (simp add: is_thread_def th_def)
    qed
  qed
  then show ?thesis using f same_env_trans[OF f(7)] by auto
qed

lemma schedule_ok:
  assumes pre: "pre_sched s"
    and dying: "status (th s (running s)) = THREAD_DYING \<Longrightarrow> Some (running s) \<noteq> idle_thread s"
  shows "\<exists>s'. schedule s = Inr s' \<and> sched_ok s' \<and> same_env s s' \<and> thread_ticks s' = 0 \<and>
    picks (idle_thread s) (ready_list s) (running s') (ready_list s') \<and>
    switched (threads s) (threads s') (running s') \<and> top_runs s' \<and>
    (Some (running s') \<noteq> idle_thread s \<longrightarrow> (\<exists>x. threads s (running s') = Some x \<and> status x = THREAD_READY))"
proof -
  from pre obtain idle where idle: "idle_thread s = Some idle" and
    b: "base (threads s) (ready_list s) idle (ready_threads s) (all_list s)" and
    cur: "is_thread s (running s)" and
    nr: "\<And>t x. threads s t = Some x \<Longrightarrow> status x \<noteq> THREAD_RUNNING" unfolding pre_sched_def by blast
  have di: "status (th s (running s)) = THREAD_DYING \<Longrightarrow> running s \<noteq> idle" using dying idle by auto
  have cr: "status (th s (running s)) \<noteq> THREAD_RUNNING" using cur nr by (auto simp: is_thread_def th_def)
  show ?thesis
  proof (cases "\<exists>i < PRI_CNT. ready_list s ! i \<noteq> []")
    case True
    then obtain m where m: "top_queue s m" using top_queue_exists by blast
    then have mm: "m < PRI_CNT" "ready_list s ! m \<noteq> []" by (simp_all add: top_queue_def)
    let ?n = "hd (ready_list s ! m)" and ?rl = "(ready_list s)[m := tl (ready_list s ! m)]"
    obtain h where nx: "next_thread_to_run s = (Some ?n, s\<lparr>ready_list := ?rl, highest_priority := h\<rparr>)"
      using next_thread_top[OF m] by blast
    obtain x where x: "threads s ?n = Some x" "status x = THREAD_READY" "?n \<noteq> idle" "priority x = int m" and
      bx: "base ((threads s)(?n \<mapsto> x\<lparr>status := THREAD_RUNNING\<rparr>)) ?rl idle (ready_threads s) (all_list s)"
      using base_pop[OF b mm] by blast
    obtain s' where s': "thread_schedule_tail (s\<lparr>ready_list := ?rl, highest_priority := h, running := ?n\<rparr>)
        (if running s \<noteq> ?n then Some (running s) else None) = Inr s'" "sched_ok s'" "running s' = ?n"
      "ready_list s' = ?rl" "same_env s s'" "thread_ticks s' = 0"
      "switched (threads s) (threads s') (running s')"
      using schedule_switch_ok[OF pre idle di x(1) bx] by metis
    have "is_thread s ?n" using x(1) by (simp add: is_thread_def)
    then have "schedule s = Inr s'"
      using nx s'(1) cr unfolding schedule_def by (simp add: th_def is_thread_def cong: if_cong)
    moreover have "picks (idle_thread s) (ready_list s) ?n ?rl"
      using True m unfolding picks_def top_queue_def by auto
    moreover have "top_runs s'"
      unfolding top_runs_def
    proof (intro allI impI)
      fix t y assume "threads s' t = Some y \<and> status y = THREAD_READY \<and> Some t \<noteq> idle_thread s'"
      then obtain i where i: "i < PRI_CNT" "t \<in> set (ready_list s' ! i)" "priority y = int i"
        using ready_queued[OF s'(2)] by metis
      have "ready_list s ! i \<noteq> []" using i(1,2) s'(4) mm by (cases "i = m") auto
      then have "i \<le> m" using m i(1) unfolding top_queue_def by (meson not_le)
      moreover have "priority (th s' ?n) = int m"
        using switched_running[OF s'(7)] s'(3) x(1,4) by (simp add: th_def)
      ultimately show "Some (running s') \<noteq> idle_thread s' \<and> priority y \<le> priority (th s' (running s'))"
        using i(3) s'(3,5) x(3) idle by (simp add: same_env_def)
    qed
    ultimately show ?thesis using s' x(1,2) by simp
  next
    case False
    then have em: "\<And>i. i < PRI_CNT \<Longrightarrow> ready_list s ! i = []" by blast
    have nx: "next_thread_to_run s = (Some idle, s\<lparr>highest_priority := PRI_MIN\<rparr>)"
      using next_thread_idle[OF em] idle by simp
    obtain x where x: "threads s idle = Some x" "status x \<noteq> THREAD_DYING"
      using b by (auto simp: base_def living_def)
    have "living ((threads s)(idle \<mapsto> x\<lparr>status := THREAD_RUNNING\<rparr>)) = living (threads s)"
      using x by (auto simp: living_def)
    then have bx: "base ((threads s)(idle \<mapsto> x\<lparr>status := THREAD_RUNNING\<rparr>)) (ready_list s) idle
        (ready_threads s) (all_list s)"
      using b by (intro base_status[OF b x(1)]) (auto simp: base_def)
    obtain s' where s': "thread_schedule_tail (s\<lparr>ready_list := ready_list s, highest_priority := PRI_MIN,
        running := idle\<rparr>) (if running s \<noteq> idle then Some (running s) else None) = Inr s'" "sched_ok s'"
      "running s' = idle" "ready_list s' = ready_list s" "same_env s s'" "thread_ticks s' = 0"
      "switched (threads s) (threads s') (running s')"
      using schedule_switch_ok[OF pre idle di x(1) bx] by metis
    have "is_thread s idle" using x(1) by (simp add: is_thread_def)
    then have "schedule s = Inr s'"
      using nx s'(1) cr unfolding schedule_def by (simp add: th_def is_thread_def cong: if_cong)
    moreover have "top_runs s'" unfolding top_runs_def
      using ready_queued[OF s'(2)] em s'(4) by (metis empty_iff empty_set)
    ultimately show ?thesis using s' em idle by (simp add: picks_def)
  qed
qed


section \<open>The operations keep the invariant\<close>

lemma sched_okE:
  assumes "sched_ok s"
  obtains idle x where "idle_thread s = Some idle"
    "base (threads s) (ready_list s) idle (ready_threads s) (all_list s)"
    "threads s (running s) = Some x" "status x = THREAD_RUNNING"
    "\<And>t y. threads s t = Some y \<Longrightarrow> (status y = THREAD_RUNNING) = (t = running s)"
  using assms unfolding sched_ok_def is_thread_def by blast

lemma sched_okI:
  assumes "idle_thread s = Some idle" "base (threads s) (ready_list s) idle (ready_threads s) (all_list s)"
    "threads s (running s) = Some x" "\<And>t y. threads s t = Some y \<Longrightarrow> (status y = THREAD_RUNNING) = (t = running s)"
  shows "sched_ok s"
  using assms unfolding sched_ok_def is_thread_def by blast

lemma pre_schedI:
  assumes "idle_thread s = Some idle" "base (threads s) (ready_list s) idle (ready_threads s) (all_list s)"
    "threads s (running s) = Some x" "\<And>t y. threads s t = Some y \<Longrightarrow> status y \<noteq> THREAD_RUNNING"
  shows "pre_sched s"
  using assms unfolding pre_sched_def is_thread_def by blast

lemma thread_current_ok [simp]: "sched_ok s \<Longrightarrow> thread_current s = Inr (running s)"
  by (erule sched_okE) (simp add: thread_current_def is_thread_def th_def)

definition dispatched :: "sched \<Rightarrow> thr list list \<Rightarrow> tmap \<Rightarrow> sched \<Rightarrow> bool" where
  "dispatched s rl T s' \<longleftrightarrow> sched_ok s' \<and> same_env s s' \<and> thread_ticks s' = 0 \<and>
     picks (idle_thread s) rl (running s') (ready_list s') \<and> switched T (threads s') (running s') \<and> top_runs s' \<and>
     (Some (running s') \<noteq> idle_thread s \<longrightarrow> (\<exists>x. T (running s') = Some x \<and> status x = THREAD_READY))"

lemma schedule_dispatched:
  assumes "pre_sched s1" and "status (th s1 (running s1)) = THREAD_DYING \<Longrightarrow> Some (running s1) \<noteq> idle_thread s1"
    and "same_env s s1" and "ready_list s1 = rl" and "threads s1 = T"
  shows "\<exists>s'. schedule s1 = Inr s' \<and> dispatched s rl T s'"
proof -
  obtain s' where "schedule s1 = Inr s'" "sched_ok s'" "same_env s1 s'" "thread_ticks s' = 0"
    "picks (idle_thread s1) (ready_list s1) (running s') (ready_list s')"
    "switched (threads s1) (threads s') (running s')" "top_runs s'"
    "Some (running s') \<noteq> idle_thread s1 \<longrightarrow> (\<exists>x. threads s1 (running s') = Some x \<and> status x = THREAD_READY)"
    using schedule_ok[OF assms(1,2)] by metis
  moreover have "idle_thread s1 = idle_thread s" using assms(3) by (simp add: same_env_def)
  ultimately show ?thesis using assms(3-5) same_env_trans[OF assms(3)] by (auto simp: dispatched_def)
qed

text \<open>The running thread's status changes to \<open>st\<close> and the processor is given up.\<close>

definition with_status :: "tmap \<Rightarrow> thr \<Rightarrow> thread_status \<Rightarrow> tmap" where
  "with_status T t st = T(t := map_option (\<lambda>x. x\<lparr>status := st\<rparr>) (T t))"

lemma thread_block_ok:
  assumes ok: "sched_ok s" and ic: "\<not> intr_context s"
  shows "\<exists>s'. thread_block s = Inr s' \<and>
    dispatched s (ready_list s) (with_status (threads s) (running s) THREAD_BLOCKED) s'"
proof -
  from ok obtain idle x where idle: "idle_thread s = Some idle" and
    b: "base (threads s) (ready_list s) idle (ready_threads s) (all_list s)" and
    x: "threads s (running s) = Some x" "status x = THREAD_RUNNING" and
    run: "\<And>t y. threads s t = Some y \<Longrightarrow> (status y = THREAD_RUNNING) = (t = running s)"
    by (rule sched_okE) blast
  let ?r = "running s" and ?T = "(threads s)(running s \<mapsto> x\<lparr>status := THREAD_BLOCKED\<rparr>)"
  let ?rt = "ready_threads s - (if ?r = idle then 0 else 1)"
  define s1 where "s1 = upd_thread (s\<lparr>ready_threads := ?rt\<rparr>) ?r (\<lambda>t. t\<lparr>status := THREAD_BLOCKED\<rparr>)"
  have fin: "finite (active (threads s) idle)" using b by (simp add: base_def finite_active)
  have "?r \<noteq> idle \<Longrightarrow> ?r \<in> active (threads s) idle" using x by (auto simp: active_def)
  then have pos: "?r \<noteq> idle \<Longrightarrow> 0 < ready_threads s"
    using b fin card_gt_0_iff unfolding base_def by fastforce
  have "living ?T = living (threads s)" using x by (auto simp: living_def)
  then have b1: "base ?T (ready_list s) idle ?rt (all_list s)"
    using b x by (intro base_status[OF b x(1)]) (auto simp: base_def)
  have f: "threads s1 = ?T" "ready_list s1 = ready_list s" "same_env s s1" "running s1 = ?r"
    "ready_threads s1 = ?rt" "all_list s1 = all_list s" "idle_thread s1 = Some idle"
    using x idle by (simp_all add: s1_def same_env_def)
  have "pre_sched s1"
    by (rule pre_schedI[of _ idle "x\<lparr>status := THREAD_BLOCKED\<rparr>"]) (use b1 run in \<open>auto simp: f split: if_splits\<close>)
  then have "\<exists>s'. schedule s1 = Inr s' \<and> dispatched s (ready_list s) ?T s'"
    by (rule schedule_dispatched) (use f in \<open>auto simp: th_def\<close>)
  moreover have "thread_block s = schedule s1"
    using ok ic pos idle by (simp add: thread_block_def s1_def)
  ultimately show ?thesis using x by (simp add: with_status_def)
qed

lemma thread_yield_ok:
  assumes ok: "sched_ok s" and ic: "\<not> intr_context s"
  shows "\<exists>s' rl. thread_yield s = Inr s' \<and>
    rl = (if Some (running s) = idle_thread s then ready_list s
      else let p = nat (priority (th s (running s))) in (ready_list s)[p := ready_list s ! p @ [running s]]) \<and>
    dispatched s rl (with_status (threads s) (running s) THREAD_READY) s'"
proof -
  from ok obtain idle x where idle: "idle_thread s = Some idle" and
    b: "base (threads s) (ready_list s) idle (ready_threads s) (all_list s)" and
    x: "threads s (running s) = Some x" "status x = THREAD_RUNNING" and
    run: "\<And>t y. threads s t = Some y \<Longrightarrow> (status y = THREAD_RUNNING) = (t = running s)"
    by (rule sched_okE) blast
  let ?r = "running s" and ?T = "(threads s)(running s \<mapsto> x\<lparr>status := THREAD_READY\<rparr>)"
  let ?p = "nat (priority x)"
  define rl where "rl = (if ?r = idle then ready_list s else (ready_list s)[?p := ready_list s ! ?p @ [?r]])"
  define s1 where "s1 = upd_thread (s\<lparr>ready_list := rl\<rparr>) ?r (\<lambda>t. t\<lparr>status := THREAD_READY\<rparr>)"
  have lv: "living ?T = living (threads s)" using x by (auto simp: living_def)
  have b1: "base ?T rl idle (ready_threads s) (all_list s)"
  proof (cases "?r = idle")
    case True
    show ?thesis unfolding rl_def if_P[OF True]
      by (rule base_status[OF b x(1)]) (use True b x lv in \<open>auto simp: base_def\<close>)
  next
    case False
    then show ?thesis using base_push[OF b x(1)] x(2) by (simp add: rl_def)
  qed
  have f: "threads s1 = ?T" "ready_list s1 = rl" "same_env s s1" "running s1 = ?r"
    "ready_threads s1 = ready_threads s" "all_list s1 = all_list s" "idle_thread s1 = Some idle"
    using x idle by (simp_all add: s1_def same_env_def)
  have "pre_sched s1"
    by (rule pre_schedI[of _ idle "x\<lparr>status := THREAD_READY\<rparr>"]) (use b1 run in \<open>auto simp: f split: if_splits\<close>)
  then have "\<exists>s'. schedule s1 = Inr s' \<and> dispatched s rl ?T s'"
    by (rule schedule_dispatched) (use f in \<open>auto simp: th_def\<close>)
  moreover have "0 \<le> priority x" "priority x < 64" using b x(1) by (auto simp: base_def pri_ok_def)
  then have "thread_yield s = schedule s1"
    using ok ic idle x(1) by (simp add: thread_yield_def s1_def rl_def push_ready_def th_def)
  ultimately show ?thesis using x idle by (auto simp: with_status_def rl_def th_def Let_def)
qed


lemma sched_ok_fields [simp]:
  "sched_ok (s\<lparr>highest_priority := h\<rparr>) = sched_ok s"
  "sched_ok (s\<lparr>thread_ticks := k\<rparr>) = sched_ok s"
  "sched_ok (s\<lparr>yield_on_return := b\<rparr>) = sched_ok s"
  "sched_ok (s\<lparr>idle_ticks := n\<rparr>) = sched_ok s"
  "sched_ok (s\<lparr>kernel_ticks := n\<rparr>) = sched_ok s"
  "sched_ok (s\<lparr>user_ticks := n\<rparr>) = sched_ok s"
  "sched_ok (s\<lparr>load_avg := f\<rparr>) = sched_ok s"
  "sched_ok (s\<lparr>next_tid := n\<rparr>) = sched_ok s"
  "sched_ok (s\<lparr>intr_context := b\<rparr>) = sched_ok s"
  "sched_ok (s\<lparr>semas := sm\<rparr>) = sched_ok s"
  "sched_ok (s\<lparr>locks := lk\<rparr>) = sched_ok s"
  "sched_ok (s\<lparr>exits := ex\<rparr>) = sched_ok s"
  "sched_ok (s\<lparr>conds := cv\<rparr>) = sched_ok s"
  "sched_ok (s\<lparr>donation_list := dl\<rparr>) = sched_ok s"
  by (simp_all add: sched_ok_def is_thread_def)

text \<open>The state after \<open>thread_unblock\<close> has queued the thread, before it considers yielding.\<close>

definition unblocked :: "sched \<Rightarrow> thr \<Rightarrow> sched" where
  "unblocked s t = (let p = nat (priority (th s t)) in
     upd_thread (s\<lparr>ready_threads := ready_threads s + 1,
       ready_list := (ready_list s)[p := ready_list s ! p @ [t]]\<rparr>) t (\<lambda>t. t\<lparr>status := THREAD_READY\<rparr>))"

lemma unblocked_ok:
  assumes ok: "sched_ok s" and t: "threads s t = Some y" "status y = THREAD_BLOCKED" "Some t \<noteq> idle_thread s"
  shows "sched_ok (unblocked s t)" and "same_env s (unblocked s t)" and "running (unblocked s t) = running s"
    and "threads (unblocked s t) = with_status (threads s) t THREAD_READY"
proof -
  from ok obtain idle x where idle: "idle_thread s = Some idle" and
    b: "base (threads s) (ready_list s) idle (ready_threads s) (all_list s)" and
    x: "threads s (running s) = Some x" "status x = THREAD_RUNNING" and
    run: "\<And>t y. threads s t = Some y \<Longrightarrow> (status y = THREAD_RUNNING) = (t = running s)"
    by (rule sched_okE) blast
  have nt: "t \<noteq> running s" using run[OF t(1)] t(2) by auto
  have "base ((threads s)(t \<mapsto> y\<lparr>status := THREAD_READY\<rparr>))
     ((ready_list s)[nat (priority y) := ready_list s ! nat (priority y) @ [t]]) idle (ready_threads s + 1) (all_list s)"
    by (rule base_push[OF b t(1)]) (use t idle in auto)
  then show "sched_ok (unblocked s t)"
    by (intro sched_okI[of _ idle x])
      (use run idle x nt t in \<open>auto simp: unblocked_def Let_def th_def split: if_splits\<close>)
  show "same_env s (unblocked s t)" "running (unblocked s t) = running s"
    "threads (unblocked s t) = with_status (threads s) t THREAD_READY"
    by (simp_all add: same_env_def unblocked_def Let_def with_status_def)
qed

lemma pri_range:
  assumes "sched_ok s" and "threads s t = Some x"
  shows "0 \<le> priority x" and "priority x < 64"
  using assms by (auto elim!: sched_okE simp: base_def pri_ok_def)

lemma thread_unblock_eq:
  assumes ok: "sched_ok s" and t: "threads s t = Some y" "status y = THREAD_BLOCKED" "Some t \<noteq> idle_thread s"
  shows "thread_unblock s t =
    (if priority y > highest_priority s
     then if intr_context s then Inr ((unblocked s t)\<lparr>highest_priority := priority y\<rparr>)
          else thread_yield ((unblocked s t)\<lparr>highest_priority := priority y\<rparr>)
     else Inr (unblocked s t))"
  using t pri_range[OF ok t(1)]
  by (simp add: thread_unblock_def unblocked_def Let_def is_thread_def th_def push_ready_def upd_thread_def)

lemma thread_unblock_ok:
  assumes ok: "sched_ok s" and t: "threads s t = Some y" "status y = THREAD_BLOCKED" "Some t \<noteq> idle_thread s"
  shows "\<exists>s'. thread_unblock s t = Inr s' \<and> sched_ok s' \<and> same_env s s'"
proof -
  note u = unblocked_ok[OF assms]
  let ?s = "(unblocked s t)\<lparr>highest_priority := priority y\<rparr>"
  have e: "same_env s ?s" using u(2) by (simp add: same_env_def)
  show ?thesis
  proof (cases "priority y > highest_priority s \<and> \<not> intr_context s")
    case True
    then have "sched_ok ?s" "\<not> intr_context ?s" using u(1) e by (simp_all add: same_env_def)
    then obtain s' where "thread_yield ?s = Inr s'" "sched_ok s'" "same_env ?s s'"
      using thread_yield_ok unfolding dispatched_def by blast
    then show ?thesis using True thread_unblock_eq[OF assms] same_env_trans[OF e] by auto
  next
    case False
    then show ?thesis using u(1,2) e thread_unblock_eq[OF assms] by auto
  qed
qed

lemma thread_exit_ok:
  assumes ok: "sched_ok s" and ic: "\<not> intr_context s" and ni: "Some (running s) \<noteq> idle_thread s"
  shows "\<exists>s'. thread_exit s = Inr s' \<and>
    dispatched s (ready_list s) (with_status (threads s) (running s) THREAD_DYING) s'"
proof -
  from ok obtain idle x where idle: "idle_thread s = Some idle" and
    b: "base (threads s) (ready_list s) idle (ready_threads s) (all_list s)" and
    x: "threads s (running s) = Some x" "status x = THREAD_RUNNING" and
    run: "\<And>t y. threads s t = Some y \<Longrightarrow> (status y = THREAD_RUNNING) = (t = running s)"
    by (rule sched_okE) blast
  let ?r = "running s" and ?T = "(threads s)(running s \<mapsto> x\<lparr>status := THREAD_DYING\<rparr>)"
  define s1 where "s1 = upd_thread (s\<lparr>all_list := remove1 ?r (all_list s)\<rparr>) ?r (\<lambda>t. t\<lparr>status := THREAD_DYING\<rparr>)"
  have lv: "living ?T = living (threads s) - {?r}" using x by (auto simp: living_def)
  have b1: "base ?T (ready_list s) idle (ready_threads s) (remove1 ?r (all_list s))"
    by (rule base_status[OF b x(1)]) (use b x lv ni idle in \<open>auto simp: base_def\<close>)
  have f: "threads s1 = ?T" "ready_list s1 = ready_list s" "same_env s s1" "running s1 = ?r"
    "ready_threads s1 = ready_threads s" "all_list s1 = remove1 ?r (all_list s)" "idle_thread s1 = Some idle"
    using x idle by (simp_all add: s1_def same_env_def)
  have "pre_sched s1"
    by (rule pre_schedI[of _ idle "x\<lparr>status := THREAD_DYING\<rparr>"]) (use b1 run in \<open>auto simp: f split: if_splits\<close>)
  then have "\<exists>s'. schedule s1 = Inr s' \<and> dispatched s (ready_list s) ?T s'"
    by (rule schedule_dispatched) (use f ni idle in \<open>auto simp: th_def\<close>)
  moreover have "thread_exit s = schedule s1" using ok ic by (simp add: thread_exit_def s1_def)
  ultimately show ?thesis using x by (simp add: with_status_def)
qed


lemma calc_priority_range: "\<exists>p. calc_priority rc n = Inr p \<and> 0 \<le> p \<and> p < 64"
  by (simp add: calc_priority_def fixed_div_int_def Let_def)

text \<open>A change of one thread that keeps its status, and its priority where it is queued.\<close>

lemma sched_ok_upd:
  assumes ok: "sched_ok s" and x: "threads s t = Some x" and st: "status (f x) = status x"
    and p: "priority (f x) = priority x \<or>
      status x \<noteq> THREAD_READY \<and> 0 \<le> priority (f x) \<and> priority (f x) < 64"
  shows "sched_ok (upd_thread s t f)"
proof -
  from ok obtain idle r where idle: "idle_thread s = Some idle" and
    b: "base (threads s) (ready_list s) idle (ready_threads s) (all_list s)" and
    r: "threads s (running s) = Some r" and
    run: "\<And>t y. threads s t = Some y \<Longrightarrow> (status y = THREAD_RUNNING) = (t = running s)"
    by (rule sched_okE) blast
  have "base ((threads s)(t \<mapsto> f x)) (ready_list s) idle (ready_threads s) (all_list s)"
    using b x st by (rule base_fields) (use p in auto)
  moreover have "(status y = THREAD_RUNNING) = (u = running s)" if "((threads s)(t \<mapsto> f x)) u = Some y" for u y
    using that run[of u] st x by (cases "u = t") auto
  ultimately show ?thesis using idle x r
    by (intro sched_okI[of _ idle "if running s = t then f x else r"]) auto
qed

text \<open>The parts of the state that the periodic updates leave alone.\<close>

definition undisturbed :: "sched \<Rightarrow> sched \<Rightarrow> bool" where
  "undisturbed s s' \<longleftrightarrow> same_env s s' \<and> running s' = running s \<and> all_list s' = all_list s \<and>
     thread_ticks s' = thread_ticks s \<and> ready_threads s' = ready_threads s"

lemma undisturbed_upd [simp]: "undisturbed s (upd_thread s t f)"
  by (simp add: undisturbed_def same_env_def)

lemma update_priority_ok:
  assumes ok: "sched_ok s" and t: "t \<in> set (all_list s)"
  shows "\<exists>s'. update_priority s t = Inr s' \<and> sched_ok s' \<and> undisturbed s s'"
proof -
  from ok obtain idle r where idle: "idle_thread s = Some idle" and
    b: "base (threads s) (ready_list s) idle (ready_threads s) (all_list s)" and
    r: "threads s (running s) = Some r" and
    run: "\<And>t y. threads s t = Some y \<Longrightarrow> (status y = THREAD_RUNNING) = (t = running s)"
    by (rule sched_okE) blast
  obtain x where x: "threads s t = Some x" "status x \<noteq> THREAD_DYING"
    using b t by (auto simp: base_def living_def)
  obtain p where p: "calc_priority (recent_cpu x) (nice x) = Inr p" "0 \<le> p" "p < 64"
    using calc_priority_range by blast
  let ?f = "\<lambda>t. t\<lparr>priority := p\<rparr>"
  show ?thesis
  proof (cases "t = idle \<or> \<not> (p \<noteq> priority x \<and> t \<noteq> running s \<and> status x \<noteq> THREAD_BLOCKED)")
    case True
    then have "update_priority s t = Inr (if t = idle then s else upd_thread s t ?f)"
      using idle p x by (auto simp: update_priority_def th_def Let_def)
    moreover have "sched_ok (upd_thread s t ?f)" if "t \<noteq> idle"
      by (rule sched_ok_upd[OF ok x(1)]) (use True that p run[OF x(1)] in auto)
    ultimately show ?thesis using ok by (auto simp: undisturbed_def same_env_def)
  next
    case False
    then have f: "t \<noteq> idle" "p \<noteq> priority x" "t \<noteq> running s" "status x = THREAD_READY"
      using run[OF x(1)] x(2) by (auto intro: thread_status.exhaust[of "status x"])
    define rl where "rl = map (remove1 t) (ready_list s)"
    define s' where "s' = (upd_thread s t ?f)\<lparr>ready_list := rl[nat p := rl ! nat p @ [t]]\<rparr>"
    have "update_priority s t = Inr s'"
      using f idle p x by (simp add: update_priority_def th_def Let_def unlink_ready_def push_ready_def s'_def rl_def)
    moreover have "base ((threads s)(t \<mapsto> ?f x)) (rl[nat p := rl ! nat p @ [t]]) idle (ready_threads s) (all_list s)"
      using base_requeue[OF b x(1) f(4,1), of "?f x"] f p by (simp add: rl_def)
    then have "sched_ok s'"
      by (intro sched_okI[of _ idle r]) (use idle x r run f in \<open>auto simp: s'_def split: if_splits\<close>)
    ultimately show ?thesis by (auto simp: s'_def undisturbed_def same_env_def)
  qed
qed

lemma foreach_ok:
  assumes step: "\<And>s t. sched_ok s \<Longrightarrow> t \<in> set (all_list s) \<Longrightarrow> \<exists>s'. f s t = Inr s' \<and> sched_ok s' \<and> undisturbed s s'"
    and "sched_ok s" and "set ts \<subseteq> set (all_list s)"
  shows "\<exists>s'. foreach_loop f s ts = Inr s' \<and> sched_ok s' \<and> undisturbed s s'"
  using assms(2,3)
proof (induction ts arbitrary: s)
  case Nil
  then show ?case by (simp add: undisturbed_def)
next
  case (Cons t ts)
  then obtain s1 where s1: "f s t = Inr s1" "sched_ok s1" "undisturbed s s1" using step[of s t] by auto
  with Cons obtain s2 where "foreach_loop f s1 ts = Inr s2" "sched_ok s2" "undisturbed s1 s2"
    by (fastforce simp: undisturbed_def)
  then show ?case using s1 by (auto simp: undisturbed_def intro: same_env_trans)
qed

lemma thread_foreach_ok:
  assumes "\<And>s t. sched_ok s \<Longrightarrow> t \<in> set (all_list s) \<Longrightarrow> \<exists>s'. f s t = Inr s' \<and> sched_ok s' \<and> undisturbed s s'"
    and "sched_ok s"
  shows "\<exists>s'. thread_foreach s f = Inr s' \<and> sched_ok s' \<and> undisturbed s s'"
  unfolding thread_foreach_def by (rule foreach_ok[OF assms]) simp_all

lemma update_recent_cpu_ok:
  assumes "sched_ok s" and "t \<in> set (all_list s)"
  shows "\<exists>s'. update_recent_cpu c s t = Inr s' \<and> sched_ok s' \<and> undisturbed s s'"
proof -
  obtain x where "threads s t = Some x"
    using assms by (elim sched_okE) (auto simp: base_def living_def)
  from sched_ok_upd[OF assms(1) this] show ?thesis by (simp add: update_recent_cpu_def)
qed

text \<open>The load average stays a number the fixed-point format can hold.\<close>

abbreviation max_threads :: int where "max_threads \<equiv> 65535"

definition load_ok :: "sched \<Rightarrow> bool" where
  "load_ok s \<longleftrightarrow> 0 \<le> num (load_avg s) \<and> num (load_avg s) \<le> max_threads * FLOAT"

lemma ready_threads_nonneg: "sched_ok s \<Longrightarrow> 0 \<le> ready_threads s"
  by (auto elim!: sched_okE simp: base_def)

lemma once_a_second_ok:
  assumes ok: "sched_ok s" and la: "load_ok s" and n: "ready_threads s \<le> max_threads"
  shows "\<exists>s'. once_a_second s = Inr s' \<and> sched_ok s' \<and> load_ok s' \<and> running s' = running s \<and>
    thread_ticks s' = thread_ticks s \<and> thread_mlfqs s' = thread_mlfqs s \<and> idle_thread s' = idle_thread s \<and>
    intr_context s' = intr_context s"
proof -
  have "0 \<le> ready_threads s" by (rule ready_threads_nonneg[OF ok])
  from calc_load_avg_range[OF la[unfolded load_ok_def, THEN conjunct1] la[unfolded load_ok_def, THEN conjunct2] this n]
  obtain l where l: "calc_load_avg (load_avg s) (ready_threads s) = Inr l" "0 \<le> num l" "num l \<le> max_threads * FLOAT"
    by auto
  define s1 where "s1 = s\<lparr>load_avg := l\<rparr>"
  have ok1: "sched_ok s1" using ok by (simp add: s1_def)
  obtain c where c: "recent_cpu_coeff l = Inr c" using recent_cpu_coeff_range[of l] l by auto
  obtain s2 where s2: "thread_foreach s1 (update_recent_cpu c) = Inr s2" "sched_ok s2" "undisturbed s1 s2"
    using thread_foreach_ok[where f = "update_recent_cpu c", OF update_recent_cpu_ok[where c = c] ok1] by blast
  obtain s3 where s3: "thread_foreach s2 update_priority = Inr s3" "sched_ok s3" "undisturbed s2 s3"
    using thread_foreach_ok[where f = update_priority, OF update_priority_ok s2(2)] by blast
  have "once_a_second s = Inr s3"
    using l(1) c s2(1) s3(1) by (simp add: once_a_second_def update_load_avg_def s1_def)
  moreover have "load_avg s3 = l" using s2(3) s3(3) by (simp add: undisturbed_def same_env_def s1_def)
  ultimately show ?thesis using s2(3) s3(2,3) l(2,3)
    by (simp add: undisturbed_def same_env_def s1_def load_ok_def)
qed


lemma running_upd_ok:
  assumes ok: "sched_ok s" and "\<And>x. status (f x) = status x"
    and "\<And>x. threads s (running s) = Some x \<Longrightarrow> priority (f x) = priority x \<or> 0 \<le> priority (f x) \<and> priority (f x) < 64"
  shows "sched_ok (upd_thread s (running s) f)"
proof -
  from ok obtain x where x: "threads s (running s) = Some x" "status x = THREAD_RUNNING" by (rule sched_okE) blast
  show ?thesis by (rule sched_ok_upd[OF ok x(1)]) (use assms(2) assms(3)[OF x(1)] x(2) in auto)
qed

lemma sched_ok_update_highest [simp]: "sched_ok (update_highest_priority s) = sched_ok s"
  by (simp add: update_highest_priority_def)

text \<open>The recomputation of the running thread's priority every fourth tick.\<close>

lemma tick_priority_ok:
  assumes ok: "sched_ok s" and ic: "intr_context s"
  defines "r \<equiv> bnd (thread_current s) (\<lambda>cur.
       bnd (calc_priority (recent_cpu (th s cur)) (nice (th s cur))) (\<lambda>p.
       let s = upd_thread s cur (\<lambda>t. t\<lparr>priority := p\<rparr>)
       in if p < highest_priority s then intr_yield_on_return (update_highest_priority s) else Inr s))"
  shows "\<exists>s'. r = Inr s' \<and> sched_ok s' \<and> load_avg s' = load_avg s \<and> running s' = running s \<and>
    thread_ticks s' = thread_ticks s \<and> intr_context s' = intr_context s"
proof -
  obtain p where p: "calc_priority (recent_cpu (th s (running s))) (nice (th s (running s))) = Inr p" "0 \<le> p" "p < 64"
    using calc_priority_range by blast
  have "sched_ok (upd_thread s (running s) (\<lambda>t. t\<lparr>priority := p\<rparr>))"
    by (rule running_upd_ok[OF ok]) (use p in auto)
  then show ?thesis using ok ic p by (simp add: r_def Let_def update_highest_priority_def intr_yield_on_return_def)
qed

lemma thread_tick_ok:
  assumes ok: "sched_ok s" and la: "load_ok s" and ic: "intr_context s" and n: "ready_threads s \<le> max_threads"
  shows "\<exists>s'. thread_tick s k = Inr s' \<and> sched_ok s' \<and> load_ok s' \<and> running s' = running s \<and>
    thread_ticks s' = thread_ticks s + 1 \<and> intr_context s' = intr_context s \<and>
    (TIME_SLICE \<le> thread_ticks s + 1 \<longrightarrow> yield_on_return s')"
proof -
  let ?t = "running s"
  define s1 where "s1 = (if Some ?t = idle_thread s then s\<lparr>idle_ticks := idle_ticks s + 1\<rparr>
     else if has_pagedir (th s ?t) then s\<lparr>user_ticks := user_ticks s + 1\<rparr>
     else s\<lparr>kernel_ticks := kernel_ticks s + 1\<rparr>)"
  define s2 where "s2 = (if thread_mlfqs s1 \<and> Some ?t \<noteq> idle_thread s1
     then upd_thread s1 ?t (\<lambda>t. t\<lparr>recent_cpu := fixed_add_int (recent_cpu t) 1\<rparr>) else s1)"
  have f1: "sched_ok s1" "running s1 = ?t" "load_avg s1 = load_avg s" "ready_threads s1 = ready_threads s"
    "thread_ticks s1 = thread_ticks s" "intr_context s1 = intr_context s" using ok by (simp_all add: s1_def)
  then have f2: "sched_ok s2" "running s2 = ?t" "load_avg s2 = load_avg s" "ready_threads s2 = ready_threads s"
    "thread_ticks s2 = thread_ticks s" "intr_context s2 = intr_context s"
    using running_upd_ok[OF f1(1)] by (auto simp: s2_def)
  obtain s3 where s3: "(if cmod k TIMER_FREQ = 0 \<and> thread_mlfqs s2 then once_a_second s2 else Inr s2) = Inr s3"
    "sched_ok s3" "load_ok s3" "running s3 = ?t" "thread_ticks s3 = thread_ticks s" "intr_context s3 = intr_context s"
    using once_a_second_ok[OF f2(1)] f2 la n
    by (cases "cmod k TIMER_FREQ = 0 \<and> thread_mlfqs s2") (auto simp: load_ok_def)
  define g where "g = (\<lambda>s. bnd (thread_current s) (\<lambda>cur.
       bnd (calc_priority (recent_cpu (th s cur)) (nice (th s cur))) (\<lambda>p.
       let s = upd_thread s cur (\<lambda>t. t\<lparr>priority := p\<rparr>)
       in if p < highest_priority s then intr_yield_on_return (update_highest_priority s) else Inr s)))"
  obtain s4 where s4: "(if cmod k 4 = 0 \<and> thread_mlfqs s3 then g s3 else Inr s3) = Inr s4"
    "sched_ok s4" "load_ok s4" "running s4 = ?t" "thread_ticks s4 = thread_ticks s" "intr_context s4 = intr_context s"
    using tick_priority_ok[OF s3(2)] s3 ic
    by (cases "cmod k 4 = 0 \<and> thread_mlfqs s3") (auto simp: g_def load_ok_def)
  have "thread_tick s k = bnd (if cmod k TIMER_FREQ = 0 \<and> thread_mlfqs s2 then once_a_second s2 else Inr s2)
     (\<lambda>s. bnd (if cmod k 4 = 0 \<and> thread_mlfqs s then g s else Inr s) (\<lambda>s.
        let s = s\<lparr>thread_ticks := thread_ticks s + 1\<rparr>
        in if thread_ticks s \<ge> TIME_SLICE then intr_yield_on_return s else Inr s))"
    unfolding thread_tick_def thread_current_ok[OF ok] bnd_simps
    by (simp only: Let_def s1_def[symmetric] s2_def[symmetric] g_def)
  then show ?thesis using s3(1) s4 ic by (auto simp: Let_def load_ok_def intr_yield_on_return_def)
qed



lemma running_in_all:
  assumes "sched_ok s" shows "running s \<in> set (all_list s)"
proof -
  from assms obtain idle x where "base (threads s) (ready_list s) idle (ready_threads s) (all_list s)"
    "threads s (running s) = Some x" "status x = THREAD_RUNNING" by (rule sched_okE) blast
  then show ?thesis by (simp add: base_def living_def)
qed

lemma upd_thread_comp: "upd_thread (upd_thread s t f) t g = upd_thread s t (g \<circ> f)"
  by (simp add: upd_thread_def option.map_comp)

lemma set_without_lower_ok:
  assumes ok: "sched_ok s" and ic: "\<not> intr_context s" and p: "0 \<le> p" "p < 64"
  shows "\<exists>s'. thread_set_priority_without_lower s p = Inr s' \<and> sched_ok s' \<and> same_env s s'"
proof -
  let ?s = "upd_thread s (running s) (\<lambda>t. t\<lparr>priority := p\<rparr>)"
  let ?h = "?s\<lparr>highest_priority := highest_loop PRI_CNT (ready_list s)\<rparr>"
  have o: "sched_ok ?s" by (rule running_upd_ok[OF ok]) (use p in auto)
  then obtain s' where "thread_yield ?h = Inr s'" "sched_ok s'" "same_env ?h s'"
    using thread_yield_ok[of ?h] ic unfolding dispatched_def by auto
  then show ?thesis using o ok
    by (auto simp: thread_set_priority_without_lower_def Let_def same_env_def)
qed

lemma thread_set_priority_ok:
  assumes ok: "sched_ok s" and ic: "\<not> intr_context s" and p: "0 \<le> p" "p < 64"
  shows "\<exists>s'. thread_set_priority s p = Inr s' \<and> sched_ok s' \<and> same_env s s'"
proof -
  have "sched_ok (upd_thread s (running s) (\<lambda>t. t\<lparr>old_priority := p\<rparr>))"
    by (rule running_upd_ok[OF ok]) auto
  then show ?thesis using ok set_without_lower_ok[OF assms]
    by (auto simp: thread_set_priority_def same_env_def)
qed

lemma thread_set_nice_ok:
  assumes ok: "sched_ok s" and ic: "\<not> intr_context s"
  shows "\<exists>s'. thread_set_nice s n = Inr s' \<and> sched_ok s' \<and> same_env s s'"
proof -
  define m where "m = (if n < - 20 then - 20 else if n > 20 then 20 else n)"
  let ?s = "upd_thread s (running s) (\<lambda>t. t\<lparr>nice := m\<rparr>)"
  have o: "sched_ok ?s" by (rule running_upd_ok[OF ok]) auto
  have "running s \<in> set (all_list ?s)" using running_in_all[OF ok] by simp
  from update_priority_ok[OF o this] obtain s1 where s1: "update_priority ?s (running s) = Inr s1"
    "sched_ok s1" "undisturbed ?s s1" by blast
  then have e: "same_env s s1" "\<not> intr_context s1" using ic by (simp_all add: undisturbed_def same_env_def)
  then obtain s2 where "thread_yield s1 = Inr s2" "sched_ok s2" "same_env s1 s2"
    using thread_yield_ok[OF s1(2)] unfolding dispatched_def by blast
  then show ?thesis using ok s1 e same_env_trans[OF e(1)]
    by (auto simp: thread_set_nice_def m_def[symmetric] Let_def)
qed

lemma thread_create_ok:
  assumes ok: "sched_ok s" and ic: "\<not> intr_context s" and tl: "lock_free s tid_lock" and fresh: "threads s t = None" and p: "PRI_MIN \<le> pri" "pri \<le> PRI_MAX"
  shows "\<exists>s'. thread_create s (Some t) (Some e) name pri = Inr (next_tid s, s') \<and> sched_ok s' \<and>
    load_avg s' = load_avg s"
proof -
  from ok obtain idle r where idle: "idle_thread s = Some idle" and
    b: "base (threads s) (ready_list s) idle (ready_threads s) (all_list s)" and
    r: "threads s (running s) = Some r" "status r = THREAD_RUNNING" and
    run: "\<And>t y. threads s t = Some y \<Longrightarrow> (status y = THREAD_RUNNING) = (t = running s)"
    by (rule sched_okE) blast
  have tr: "t \<noteq> running s" "t \<noteq> idle" using fresh r b by (auto simp: base_def living_def)
  obtain y s1 where y: "y = \<lparr>t_tid = 0, parent_tid = 0, status = THREAD_BLOCKED,
      t_name = take 15 name, priority = pri, old_priority = - 1, donation_locks = [],
      nice = 0, recent_cpu = \<lparr>num = 0\<rparr>, has_pagedir = False,
              exit_of = None, exit_list = []\<rparr>"
    and s1: "s1 = s\<lparr>threads := (threads s)(t \<mapsto> y), all_list := all_list s @ [t], next_tid := wrap32 (next_tid s + 1)\<rparr>"
    by blast
  have "base ((threads s)(t \<mapsto> y)) (ready_list s) idle (ready_threads s) (all_list s @ [t])"
    by (rule base_new[OF b fresh]) (use p y in auto)
  then have ok1: "sched_ok s1"
    by (intro sched_okI[of _ idle r]) (use run idle r tr in \<open>auto simp: s1 y split: if_splits\<close>)
  define f :: "thread \<Rightarrow> thread" where "f = (\<lambda>t. t\<lparr>t_tid := next_tid s, parent_tid := t_tid r\<rparr>)"
  define g :: "thread \<Rightarrow> thread" where "g = (if thread_mlfqs s then (\<lambda>t. t\<lparr>recent_cpu := recent_cpu r, nice := nice r,
      priority := priority r\<rparr>) else (\<lambda>t. t))"
  define s3 where "s3 = upd_thread s1 t (g \<circ> f)"
  define s4 where "s4 = s3\<lparr>exits := (exits s3)(e \<mapsto> \<lparr>ex_abandoned = False, ex_status = None,
      ex_child = next_tid s, ex_parent = t_tid r\<rparr>),
      semas := (semas s3)(ExitSema e := \<lparr>sema_value = 0, waiters = []\<rparr>)\<rparr>"
  define s5 where "s5 = upd_thread s4 (running s4) (\<lambda>x. x\<lparr>exit_list := exit_list x @ [e]\<rparr>)"
  define s6 where "s6 = upd_thread s5 t (\<lambda>x. x\<lparr>exit_of := Some e\<rparr>)"
  have gf: "status (g (f y)) = THREAD_BLOCKED" by (simp add: g_def f_def y)
  have "sched_ok s3" unfolding s3_def
    by (rule sched_ok_upd[OF ok1, of _ y])
      (use p pri_range[OF ok r(1)] in \<open>auto simp: s1 g_def f_def y\<close>)
  then have "sched_ok s4" by (simp add: s4_def)
  then have ok5: "sched_ok s5" unfolding s5_def by (rule running_upd_ok) auto
  have f5: "threads s5 t = Some (g (f y))" "running s4 = running s" "idle_thread s5 = Some idle" "load_avg s5 = load_avg s"
    using tr idle by (simp_all add: s5_def s4_def s3_def s1)
  have "sched_ok s6" unfolding s6_def by (rule sched_ok_upd[OF ok5 f5(1)]) auto
  moreover have "threads s6 t = Some ((g (f y))\<lparr>exit_of := Some e\<rparr>)" using f5(1) by (simp add: s6_def)
  ultimately obtain s' where s': "thread_unblock s6 t = Inr s'" "sched_ok s'" "same_env s6 s'"
    using thread_unblock_ok[of s6 t "(g (f y))\<lparr>exit_of := Some e\<rparr>"] gf tr f5(3) by (auto simp: s6_def)
  have i: "init_thread s t name pri = Inr (s\<lparr>threads := (threads s)(t \<mapsto> y), all_list := all_list s @ [t]\<rparr>)"
    using p by (simp add: init_thread_def y)
  have a: "allocate_tid (s\<lparr>threads := (threads s)(t \<mapsto> y), all_list := all_list s @ [t]\<rparr>) = Inr (next_tid s, s1)"
    and m: "thread_mlfqs s1 = thread_mlfqs s" and ru: "running s4 = running s1"
    using ic tl by (simp_all add: allocate_tid_def s1 s4_def s3_def lock_free_def)
  have c: "th s1 (running s1) = r" using r tr by (simp add: th_def s1)
  have u: "s3 = (if thread_mlfqs s1 then upd_thread (upd_thread s1 t f) t g else upd_thread s1 t f)"
    by (simp add: s3_def upd_thread_comp g_def s1 comp_def)
  have "thread_create s (Some t) (Some e) name pri = bnd (thread_unblock s6 t) (\<lambda>s'. Inr (next_tid s, s'))"
    unfolding s6_def s5_def ru unfolding s4_def
    by (simp add: thread_create_def i a c m thread_current_ok[OF ok1] u f_def g_def Let_def)
  then show ?thesis using s' f5(4) by (simp add: s6_def same_env_def)
qed

section \<open>Frame\<close>

text \<open>
  Scheduling does not touch the synchronisation objects, whatever the state, and a thread
  that is blocked when the processor is given up is still blocked afterwards.
\<close>

definition objs :: "sched \<Rightarrow> (sema_id \<Rightarrow> semaphore) \<times> (lockid \<Rightarrow> lock) \<times> (nat \<Rightarrow> thr list) \<times> (nat \<Rightarrow> exit_rec option)" where
  "objs s = (semas s, locks s, conds s, exits s)"

lemma objs_simps [simp]:
  "objs (upd_thread s t f) = objs s" "objs (s\<lparr>ready_list := rl\<rparr>) = objs s" "objs (s\<lparr>highest_priority := h\<rparr>) = objs s"
  "objs (s\<lparr>running := t\<rparr>) = objs s" "objs (s\<lparr>thread_ticks := k\<rparr>) = objs s" "objs (s\<lparr>ready_threads := n\<rparr>) = objs s"
  "objs (s\<lparr>threads := T\<rparr>) = objs s" "objs (s\<lparr>donation_list := d\<rparr>) = objs s"
  by (simp_all add: objs_def)

lemma objs_next_loop: "next_loop n s next = (t, s') \<Longrightarrow> objs s' = objs s"
  by (induction n s "next" rule: next_loop.induct) (auto split: list.splits if_splits)

lemma objs_schedule:
  assumes "schedule s = Inr s'" shows "objs s' = objs s"
proof -
  obtain n s1 where n: "next_thread_to_run s = (n, s1)" by (cases "next_thread_to_run s")
  then have "objs s1 = objs s"
    by (cases "next_loop PRI_CNT s None") (auto simp: next_thread_to_run_def split: option.splits dest: objs_next_loop)
  then show ?thesis using assms n
    by (auto simp: schedule_def thread_schedule_tail_def Let_def res_iffs split: option.splits if_splits)
qed

lemma objs_push: "push_ready s p t = Inr s' \<Longrightarrow> objs s' = objs s"
  by (auto simp: push_ready_def split: if_splits)

lemma objs_yield: "thread_yield s = Inr s' \<Longrightarrow> objs s' = objs s"
  by (auto simp: thread_yield_def res_iffs split: if_splits dest!: objs_schedule objs_push)

lemma objs_block: "thread_block s = Inr s' \<Longrightarrow> objs s' = objs s"
  by (auto simp: thread_block_def res_iffs split: if_splits dest!: objs_schedule)

lemma objs_unblock: "thread_unblock s t = Inr s' \<Longrightarrow> objs s' = objs s"
  by (auto simp: thread_unblock_def Let_def res_iffs split: if_splits dest!: objs_yield objs_push)

lemma objs_set_without_lower: "thread_set_priority_without_lower s p = Inr s' \<Longrightarrow> objs s' = objs s"
  by (auto simp: thread_set_priority_without_lower_def Let_def res_iffs split: if_splits dest!: objs_yield)

definition is_blocked :: "tmap \<Rightarrow> thr \<Rightarrow> bool" where
  "is_blocked T t \<longleftrightarrow> (\<exists>x. T t = Some x \<and> status x = THREAD_BLOCKED)"

lemma dispatched_blocked:
  assumes "dispatched s rl T s'" and "is_blocked T t" and "Some t \<noteq> idle_thread s"
  shows "is_blocked (threads s') t"
proof -
  have "t \<noteq> running s'" using assms by (auto simp: dispatched_def is_blocked_def)
  then show ?thesis using assms unfolding dispatched_def switched_def is_blocked_def
    by (metis option.inject thread_status.distinct(11))
qed

section \<open>The scheduler as a state machine\<close>

text \<open>
  One step is one operation of the running thread, the beginning or the end of an external interrupt, or a timer tick in an interrupt.
  The guards are the conditions under which the kernel makes the call: a thread that is woken
  is blocked and is not the idle thread, the idle thread does not exit, priorities are in
  range, and a new thread's page is not in use. The donation of priorities by locks (\<open>Synch\<close>) is not a step: it can leave a ready thread in
  the queue of a priority it no longer has.
\<close>

inductive sched_step :: "sched \<Rightarrow> sched \<Rightarrow> bool" where
  block: "thread_block s = Inr s' \<Longrightarrow> sched_step s s'"
| yield: "thread_yield s = Inr s' \<Longrightarrow> sched_step s s'"
| unblock: "threads s t = Some x \<Longrightarrow> status x = THREAD_BLOCKED \<Longrightarrow> Some t \<noteq> idle_thread s \<Longrightarrow>
    thread_unblock s t = Inr s' \<Longrightarrow> sched_step s s'"
| exit: "Some (running s) \<noteq> idle_thread s \<Longrightarrow> thread_exit s = Inr s' \<Longrightarrow> sched_step s s'"
| create: "threads s t = None \<Longrightarrow> PRI_MIN \<le> pri \<Longrightarrow> pri \<le> PRI_MAX \<Longrightarrow>
    thread_create s (Some t) (Some e) name pri = Inr (tid, s') \<Longrightarrow> sched_step s s'"
| set_priority: "\<not> intr_context s \<Longrightarrow> PRI_MIN \<le> p \<Longrightarrow> p \<le> PRI_MAX \<Longrightarrow> thread_set_priority s p = Inr s' \<Longrightarrow>
    sched_step s s'"
| set_nice: "\<not> intr_context s \<Longrightarrow> thread_set_nice s n = Inr s' \<Longrightarrow> sched_step s s'"
| tick: "intr_context s \<Longrightarrow> ready_threads s \<le> max_threads \<Longrightarrow> thread_tick s k = Inr s' \<Longrightarrow> sched_step s s'"
| enter: "intr_enter s = Inr s' \<Longrightarrow> sched_step s s'"
| leave: "intr_leave s = Inr s' \<Longrightarrow> sched_step s s'"

inductive_cases sched_stepE: "sched_step s s'"

definition sched_inv :: "sched \<Rightarrow> bool" where
  "sched_inv s \<longleftrightarrow> sched_ok s \<and> load_ok s"

lemma sched_inv_env:
  assumes "sched_inv s" and "sched_ok s'" and "load_avg s' = load_avg s"
  shows "sched_inv s'"
  using assms by (simp add: sched_inv_def load_ok_def)

lemma thread_block_intr: "thread_block s = Inr s' \<Longrightarrow> \<not> intr_context s"
  by (auto simp: thread_block_def split: if_splits)

lemma thread_yield_intr: "sched_ok s \<Longrightarrow> thread_yield s = Inr s' \<Longrightarrow> \<not> intr_context s"
  by (auto simp: thread_yield_def split: if_splits)

lemma thread_exit_intr: "thread_exit s = Inr s' \<Longrightarrow> \<not> intr_context s"
  by (auto simp: thread_exit_def split: if_splits)

lemma thread_create_pre:
  "thread_create s (Some t) e name pri = Inr r \<Longrightarrow> \<not> intr_context s \<and> lock_free s tid_lock"
  by (auto simp: thread_create_def init_thread_def allocate_tid_def lock_free_def res_iffs split: if_splits)

lemma intr_leave_ok:
  assumes "sched_ok s" and "intr_context s"
  shows "\<exists>s'. intr_leave s = Inr s' \<and> sched_ok s' \<and> load_avg s' = load_avg s \<and> \<not> intr_context s' \<and> (yield_on_return s \<longrightarrow> thread_ticks s' = 0 \<and> top_runs s')"
proof -
  have "sched_ok (s\<lparr>intr_context := False\<rparr>)" "\<not> intr_context (s\<lparr>intr_context := False\<rparr>)" using assms(1) by simp_all
  from thread_yield_ok[OF this] show ?thesis using assms
    by (cases "yield_on_return s") (auto simp: intr_leave_def dispatched_def same_env_def)
qed

lemma sched_step_inv:
  assumes inv: "sched_inv s" and step: "sched_step s s'"
  shows "sched_inv s'"
proof -
  have ok: "sched_ok s" and la: "load_ok s" using inv by (simp_all add: sched_inv_def)
  from step show ?thesis
  proof cases
    case block
    with thread_block_ok[OF ok thread_block_intr[OF block]] inv show ?thesis
      by (auto simp: dispatched_def same_env_def intro: sched_inv_env)
  next
    case yield
    with thread_yield_ok[OF ok thread_yield_intr[OF ok yield]] inv show ?thesis
      by (auto simp: dispatched_def same_env_def intro: sched_inv_env)
  next
    case (unblock t x)
    with thread_unblock_ok[OF ok unblock(1-3)] inv show ?thesis by (auto simp: same_env_def intro: sched_inv_env)
  next
    case exit
    with thread_exit_ok[OF ok thread_exit_intr[OF exit(2)]] inv show ?thesis
      by (auto simp: dispatched_def same_env_def intro: sched_inv_env)
  next
    case (create t pri e name tid)
    with thread_create_ok[OF ok _ _ create(1-3), of e name] thread_create_pre[OF create(4)] inv show ?thesis
      by (auto simp: same_env_def intro: sched_inv_env)
  next
    case (set_priority p)
    with thread_set_priority_ok[OF ok, of p] inv show ?thesis by (auto simp: same_env_def intro: sched_inv_env)
  next
    case (set_nice n)
    with thread_set_nice_ok[OF ok, of n] inv show ?thesis by (auto simp: same_env_def intro: sched_inv_env)
  next
    case (tick k)
    with thread_tick_ok[OF ok la, of k] show ?thesis by (auto simp: sched_inv_def)
  next
    case enter
    with inv show ?thesis by (auto simp: intr_enter_def sched_inv_def load_ok_def res_iffs)
  next
    case leave
    then have "intr_context s" by (auto simp: intr_leave_def res_iffs)
    from intr_leave_ok[OF ok this] leave inv show ?thesis by (auto intro: sched_inv_env)
  qed
qed

text \<open>
  The state after \<open>thread_init\<close> and \<open>thread_start\<close>: the main thread, in page 10, runs; the idle
  thread, in page 20, has blocked (with the feedback scheduler it has inherited the priority of the main thread); all locks are free.
\<close>

definition boot_thread :: "int \<Rightarrow> string \<Rightarrow> thread_status \<Rightarrow> int \<Rightarrow> thread" where
  "boot_thread tid name st pri = \<lparr>t_tid = tid, parent_tid = tid - 1, status = st, t_name = name, priority = pri,
     old_priority = - 1, donation_locks = [], nice = 0, recent_cpu = \<lparr>num = 0\<rparr>, has_pagedir = False,
              exit_of = None, exit_list = []\<rparr>"

definition boot_sched :: "bool \<Rightarrow> sched" where
  "boot_sched mlfqs = \<lparr>threads = [10 \<mapsto> boot_thread 1 ''main'' THREAD_RUNNING PRI_DEFAULT,
        20 \<mapsto> boot_thread 2 ''idle'' THREAD_BLOCKED (if mlfqs then PRI_DEFAULT else PRI_MIN)],
     all_list = [10, 20], ready_list = replicate PRI_CNT [], donation_list = [], running = 10,
     idle_thread = Some 20, initial_thread = 10, highest_priority = PRI_DEFAULT, ready_threads = 1,
     thread_ticks = 0, idle_ticks = 0, kernel_ticks = 0, user_ticks = 0, load_avg = \<lparr>num = 0\<rparr>,
     thread_mlfqs = mlfqs, next_tid = 3, intr_context = False, yield_on_return = False,
     semas = (\<lambda>i. \<lparr>sema_value = (case i of LockSema _ \<Rightarrow> 1 | _ \<Rightarrow> 0), waiters = []\<rparr>), locks = (\<lambda>_. \<lparr>holder = None, donated = False\<rparr>),
     exits = (\<lambda>_. None), conds = (\<lambda>_. [])\<rparr>"

lemma boot_fields:
  "threads (boot_sched m) = [10 \<mapsto> boot_thread 1 ''main'' THREAD_RUNNING PRI_DEFAULT,
     20 \<mapsto> boot_thread 2 ''idle'' THREAD_BLOCKED (if m then PRI_DEFAULT else PRI_MIN)]"
  "running (boot_sched m) = 10" "idle_thread (boot_sched m) = Some 20" "all_list (boot_sched m) = [10, 20]"
  "ready_list (boot_sched m) = replicate PRI_CNT []" "highest_priority (boot_sched m) = PRI_DEFAULT"
  "ready_threads (boot_sched m) = 1" "thread_mlfqs (boot_sched m) = m" "next_tid (boot_sched m) = 3"
  "intr_context (boot_sched m) = False" "exits (boot_sched m) = (\<lambda>_. None)" "thread_ticks (boot_sched m) = 0"
  "semas (boot_sched m) = (\<lambda>i. \<lparr>sema_value = (case i of LockSema _ \<Rightarrow> 1 | _ \<Rightarrow> 0), waiters = []\<rparr>)"
  "locks (boot_sched m) = (\<lambda>_. \<lparr>holder = None, donated = False\<rparr>)" "conds (boot_sched m) = (\<lambda>_. [])"
  by (simp_all add: boot_sched_def)

lemmas boot_ready = boot_fields(5)

lemma boot_thread_fields:
  "t_tid (boot_thread i n st p) = i" "status (boot_thread i n st p) = st" "priority (boot_thread i n st p) = p"
  "exit_list (boot_thread i n st p) = []"
  by (simp_all add: boot_thread_def)

lemma boot_locks: "lock_free (boot_sched m) l"
  by (simp add: lock_free_def boot_fields)

lemma boot_sched_inv: "sched_inv (boot_sched m)"
proof -
  let ?T = "threads (boot_sched m)"
  have a: "active ?T 20 = {10}" and l: "living ?T = {10, 20}"
    by (auto simp: active_def living_def boot_sched_def boot_thread_def split: if_splits)
  have "queue_ok ?T (replicate PRI_CNT []) 20"
    by (auto simp: queue_ok_def boot_sched_def boot_thread_def split: if_splits)
  moreover have "pri_ok ?T" by (auto simp: pri_ok_def boot_sched_def boot_thread_def)
  moreover have "finite (dom ?T)" by (simp add: boot_sched_def)
  ultimately have "base ?T (ready_list (boot_sched m)) 20 (ready_threads (boot_sched m)) (all_list (boot_sched m))"
    unfolding base_def a l by (auto simp: boot_sched_def)
  moreover have "(status y = THREAD_RUNNING) = (t = running (boot_sched m))" if "?T t = Some y" for t y
    using that by (auto simp: boot_sched_def boot_thread_def split: if_splits)
  ultimately have "sched_ok (boot_sched m)"
    by (intro sched_okI[of _ 20 "boot_thread 1 ''main'' THREAD_RUNNING PRI_DEFAULT"]) (auto simp: boot_sched_def)
  then show ?thesis by (simp add: sched_inv_def load_ok_def boot_sched_def)
qed

interpretation scheduler: machine "\<lambda>s. \<exists>m. s = boot_sched m" sched_step sched_inv
  by unfold_locales (auto intro: boot_sched_inv sched_step_inv)



section \<open>The run queue of one priority\<close>

text \<open>
  While no thread of a higher priority is ready, the queue of priority \<open>p\<close> is a first-in
  first-out queue between \<open>list_push_back\<close> and \<open>next_thread_to_run\<close>.
\<close>

definition queue_rep :: "nat \<Rightarrow> sched \<Rightarrow> thr list \<Rightarrow> bool" where
  "queue_rep p s xs \<longleftrightarrow> p < PRI_CNT \<and> length (ready_list s) = PRI_CNT \<and> ready_list s ! p = xs \<and>
     (\<forall>i. p < i \<and> i < PRI_CNT \<longrightarrow> ready_list s ! i = [])"

definition dispatch :: "sched \<Rightarrow> (thr \<times> sched) res" where
  "dispatch s = (case next_thread_to_run s of
     (Some t, s) \<Rightarrow> Inr (t, s) | (None, s) \<Rightarrow> Inl (Panic ''schedule''))"

lemma dispatch_top:
  assumes "queue_rep p s (x # xs)"
  shows "\<exists>s'. dispatch s = Inr (x, s') \<and> queue_rep p s' xs"
proof -
  have "top_queue s p" using assms by (auto simp: queue_rep_def top_queue_def)
  from next_thread_top[OF this] assms show ?thesis by (auto simp: dispatch_def queue_rep_def)
qed

lemma queue_push:
  "queue_rep p s xs \<Longrightarrow> \<exists>s'. push_ready s (int p) t = Inr s' \<and> queue_rep p s' (xs @ [t])"
  by (auto simp: queue_rep_def push_ready_def)

interpretation run_queue: fifo_queue "queue_rep p" "\<lambda>_ _. True" "\<lambda>s. push_ready s (int p)"
  dispatch "\<lambda>s. Inr (ready_list s ! p = [])" for p
  by unfold_locales (use queue_push dispatch_top in \<open>auto simp: queue_rep_def[of _ _ "_"]\<close>)

text \<open>The state in which the main thread has created a thread of priority 20.\<close>

definition low_sched :: sched where
  "low_sched = (boot_sched False)\<lparr>
     threads := [10 \<mapsto> (boot_thread 1 ''main'' THREAD_RUNNING PRI_DEFAULT)\<lparr>exit_list := [40]\<rparr>,
        20 \<mapsto> boot_thread 2 ''idle'' THREAD_BLOCKED PRI_MIN,
        30 \<mapsto> (boot_thread 3 ''low'' THREAD_READY 20)\<lparr>parent_tid := 1, exit_of := Some 40\<rparr>],
     all_list := [10, 20, 30], ready_list := (replicate PRI_CNT [])[20 := [30]], ready_threads := 2, next_tid := 4,
     exits := [40 \<mapsto> \<lparr>ex_abandoned = False, ex_status = None, ex_child = 3, ex_parent = 1\<rparr>]\<rparr>"

lemma created_low: "thread_create (boot_sched False) (Some 30) (Some 40) ''low'' 20 = Inr (3, low_sched)"
proof -
  let ?y = "boot_thread 3 ''low'' THREAD_BLOCKED 20"
  let ?T = "\<lambda>y. [10 \<mapsto> boot_thread 1 ''main'' THREAD_RUNNING PRI_DEFAULT,
        20 \<mapsto> boot_thread 2 ''idle'' THREAD_BLOCKED PRI_MIN, 30 \<mapsto> y]"
  let ?yz = "?y\<lparr>t_tid := 0, parent_tid := 0\<rparr>"
  have i: "init_thread (boot_sched False) 30 ''low'' 20 = Inr ((boot_sched False)\<lparr>threads := ?T ?yz, all_list := [10, 20, 30]\<rparr>)"
    by (simp add: init_thread_def boot_fields boot_thread_def)
  have c: "thread_current ((boot_sched False)\<lparr>threads := ?T ?yz, all_list := [10, 20, 30], next_tid := 4\<rparr>) = Inr 10"
    by (simp add: thread_current_def is_thread_def th_def boot_fields boot_thread_fields)
  define s6 where "s6 = low_sched\<lparr>threads := (threads low_sched)(30 \<mapsto> ?y\<lparr>parent_tid := 1, exit_of := Some 40\<rparr>),
     ready_list := replicate PRI_CNT [], ready_threads := 1\<rparr>"
  have f6: "threads s6 30 = Some (?y\<lparr>parent_tid := 1, exit_of := Some 40\<rparr>)" "idle_thread s6 = Some 20"
    "highest_priority s6 = 31" "ready_list s6 = replicate PRI_CNT []" by (simp_all add: s6_def low_sched_def boot_fields)
  have "thread_create (boot_sched False) (Some 30) (Some 40) ''low'' 20
      = bnd (thread_unblock s6 30) (\<lambda>s. Inr (3, s))"
    unfolding thread_create_def option.case i bnd_simps allocate_tid_def
    using boot_locks[of False tid_lock]
    by (simp add: c boot_fields wrap32_def Let_def lock_free_def)
      (rule arg_cong[where f = "\<lambda>s. bnd (thread_unblock s 30) (\<lambda>s. Inr (3, s))"], rule sched.equality,
       simp_all add: upd_thread_def th_def s6_def low_sched_def boot_fields boot_thread_def fun_eq_iff)
  also have "thread_unblock s6 30 = Inr low_sched"
    using f6 by (simp add: thread_unblock_def is_thread_def th_def boot_thread_fields push_ready_def upd_thread_def)
      (rule sched.equality, simp_all add: s6_def low_sched_def boot_fields boot_thread_def fun_eq_iff)
  finally show ?thesis by simp
qed

section \<open>Properties\<close>

text \<open>
  (C1) In every state that the operations of \<open>thread.c\<close> other than priority donation reach from the state after boot (creation, exit,
  blocking, waking, yielding, priorities, nice values, interrupts and ticks), exactly one
  thread runs, the run queues hold exactly the ready threads (each once, in the queue of its
  priority, the idle thread in none), all priorities are in range, \<open>ready_threads\<close> counts the
  threads that are not blocked, \<open>all_list\<close> holds the threads that are not dying, and the load
  average fits the fixed-point format.
\<close>

theorem scheduler_invariant:
  assumes "rtranclp sched_step (boot_sched m) s"
  shows "sched_ok s \<and> load_ok s"
  using scheduler.reach_inv[OF _ assms] unfolding sched_inv_def by blast

lemma boot_current: "sched_ok (boot_sched m)"
  using boot_sched_inv by (simp add: sched_inv_def)

theorem scheduler_invariant_witness:
  "\<exists>s. sched_step (boot_sched False) s \<and> sched_ok s \<and> load_ok s"
proof -
  obtain s where "thread_block (boot_sched False) = Inr s"
    using thread_block_ok[OF boot_current, of False] by (auto simp: boot_sched_def)
  then have "sched_step (boot_sched False) s" by (rule sched_step.block)
  with scheduler_invariant[of False s] show ?thesis by auto
qed

text \<open>
  (C2) No assertion of the scheduler fails. In a state that satisfies the invariant, outside interrupts,
  blocking, yielding, waking a blocked thread, exiting, creating a thread (while \<open>tid_lock\<close> is free),
  setting the priority or the nice value and the beginning of an interrupt all complete and keep the invariant; in an interrupt
  waking a blocked thread, a timer tick and the end of the interrupt do. A tick at the end of the time slice makes the end of the interrupt
  yield, and yielding, blocking and exiting begin a new time slice.
\<close>

theorem scheduler_operations_complete:
  assumes "sched_inv s"
  shows "(\<forall>t x. threads s t = Some x \<and> status x = THREAD_BLOCKED \<and> Some t \<noteq> idle_thread s \<longrightarrow>
       (\<exists>s'. thread_unblock s t = Inr s' \<and> sched_inv s')) \<and>
    (\<not> intr_context s \<longrightarrow>
      (\<exists>s'. thread_block s = Inr s' \<and> sched_inv s' \<and> thread_ticks s' = 0) \<and>
      (\<exists>s'. thread_yield s = Inr s' \<and> sched_inv s' \<and> thread_ticks s' = 0) \<and>
      (Some (running s) \<noteq> idle_thread s \<longrightarrow> (\<exists>s'. thread_exit s = Inr s' \<and> sched_inv s' \<and> thread_ticks s' = 0)) \<and>
      (\<forall>t e name pri. lock_free s tid_lock \<and> threads s t = None \<and> PRI_MIN \<le> pri \<and> pri \<le> PRI_MAX \<longrightarrow>
         (\<exists>s'. thread_create s (Some t) (Some e) name pri = Inr (next_tid s, s') \<and> sched_inv s')) \<and>
      (\<forall>p. PRI_MIN \<le> p \<and> p \<le> PRI_MAX \<longrightarrow> (\<exists>s'. thread_set_priority s p = Inr s' \<and> sched_inv s')) \<and>
      (\<forall>n. \<exists>s'. thread_set_nice s n = Inr s' \<and> sched_inv s') \<and>
      (\<exists>s'. intr_enter s = Inr s' \<and> sched_inv s' \<and> intr_context s')) \<and>
    (intr_context s \<longrightarrow>
      (\<forall>k. ready_threads s \<le> max_threads \<longrightarrow> (\<exists>s'. thread_tick s k = Inr s' \<and> sched_inv s' \<and> intr_context s' \<and>
         thread_ticks s' = thread_ticks s + 1 \<and> (TIME_SLICE \<le> thread_ticks s + 1 \<longrightarrow> yield_on_return s'))) \<and>
      (\<exists>s'. intr_leave s = Inr s' \<and> sched_inv s' \<and> \<not> intr_context s' \<and> (yield_on_return s \<longrightarrow> thread_ticks s' = 0 \<and> top_runs s')))"
proof -
  have ok: "sched_ok s" and la: "load_ok s" using assms(1) by (simp_all add: sched_inv_def)
  have env: "\<And>s'. sched_ok s' \<Longrightarrow> same_env s s' \<Longrightarrow> sched_inv s'"
    using sched_inv_env[OF assms(1)] by (simp add: same_env_def)
  note load = sched_inv_env[OF assms(1)]
  show ?thesis
  proof (intro conjI allI impI)
    fix t x assume "threads s t = Some x \<and> status x = THREAD_BLOCKED \<and> Some t \<noteq> idle_thread s"
    then show "\<exists>s'. thread_unblock s t = Inr s' \<and> sched_inv s'" using thread_unblock_ok[OF ok] env by blast
  next
    assume ic: "\<not> intr_context s"
    show "\<exists>s'. thread_block s = Inr s' \<and> sched_inv s' \<and> thread_ticks s' = 0"
      using thread_block_ok[OF ok ic] env unfolding dispatched_def by blast
    show "\<exists>s'. thread_yield s = Inr s' \<and> sched_inv s' \<and> thread_ticks s' = 0"
      using thread_yield_ok[OF ok ic] env unfolding dispatched_def by blast
    show "\<exists>s'. thread_exit s = Inr s' \<and> sched_inv s' \<and> thread_ticks s' = 0" if "Some (running s) \<noteq> idle_thread s"
      using thread_exit_ok[OF ok ic that] env unfolding dispatched_def by blast
    show "\<exists>s'. thread_create s (Some t) (Some e) name pri = Inr (next_tid s, s') \<and> sched_inv s'"
      if "lock_free s tid_lock \<and> threads s t = None \<and> PRI_MIN \<le> pri \<and> pri \<le> PRI_MAX" for t e name and pri :: int
    proof -
      have h: "lock_free s tid_lock" "threads s t = None" "PRI_MIN \<le> pri" "pri \<le> PRI_MAX" using that by simp_all
      from thread_create_ok[OF ok ic h, of e name] obtain s' where
        "thread_create s (Some t) (Some e) name pri = Inr (next_tid s, s')" "sched_ok s'" "load_avg s' = load_avg s" by blast
      then show ?thesis using load by blast
    qed
    show "\<exists>s'. thread_set_priority s p = Inr s' \<and> sched_inv s'" if "PRI_MIN \<le> p \<and> p \<le> PRI_MAX" for p :: int
      using thread_set_priority_ok[OF ok ic, of p] env that by auto
    show "\<exists>s'. thread_set_nice s n = Inr s' \<and> sched_inv s'" for n
      using thread_set_nice_ok[OF ok ic] env by blast
    show "\<exists>s'. intr_enter s = Inr s' \<and> sched_inv s' \<and> intr_context s'"
      using assms ic by (simp add: intr_enter_def sched_inv_def load_ok_def)
  next
    assume ic: "intr_context s"
    show "\<exists>s'. thread_tick s k = Inr s' \<and> sched_inv s' \<and> intr_context s' \<and> thread_ticks s' = thread_ticks s + 1 \<and>
        (TIME_SLICE \<le> thread_ticks s + 1 \<longrightarrow> yield_on_return s')" if "ready_threads s \<le> max_threads" for k
      using thread_tick_ok[OF ok la ic that] ic unfolding sched_inv_def by blast
    show "\<exists>s'. intr_leave s = Inr s' \<and> sched_inv s' \<and> \<not> intr_context s' \<and> (yield_on_return s \<longrightarrow> thread_ticks s' = 0 \<and> top_runs s')"
      using intr_leave_ok[OF ok ic] load by blast
  qed
qed

theorem scheduler_operations_complete_witness:
  "\<exists>s'. thread_tick ((boot_sched True)\<lparr>intr_context := True, thread_ticks := 3\<rparr>) 100 = Inr s' \<and> sched_inv s' \<and> yield_on_return s'"
proof -
  have "sched_inv ((boot_sched True)\<lparr>intr_context := True, thread_ticks := 3\<rparr>)"
    using boot_sched_inv[of True] by (simp add: sched_inv_def load_ok_def)
  from scheduler_operations_complete[OF this] show ?thesis by (auto simp: boot_fields)
qed

text \<open>
  (C3) Scheduling is by strict priority: whenever the running thread yields, blocks or exits,
  the thread that runs next is the front of the highest non-empty run queue, so that no ready
  thread has a higher priority; the idle thread runs only when no other thread is ready. A
  yield puts the old thread at the back of the queue of its priority.
\<close>

theorem schedule_strict_priority:
  assumes "sched_ok s" and "\<not> intr_context s"
  shows "(\<exists>s'. thread_yield s = Inr s' \<and> top_runs s' \<and>
      picks (idle_thread s) (if Some (running s) = idle_thread s then ready_list s
        else let p = nat (priority (th s (running s))) in (ready_list s)[p := ready_list s ! p @ [running s]])
        (running s') (ready_list s')) \<and>
    (\<exists>s'. thread_block s = Inr s' \<and> top_runs s' \<and>
      picks (idle_thread s) (ready_list s) (running s') (ready_list s')) \<and>
    (Some (running s) \<noteq> idle_thread s \<longrightarrow> (\<exists>s'. thread_exit s = Inr s' \<and> top_runs s' \<and>
      picks (idle_thread s) (ready_list s) (running s') (ready_list s')))"
  using thread_yield_ok[OF assms] thread_block_ok[OF assms] thread_exit_ok[OF assms]
  unfolding dispatched_def by blast

theorem schedule_strict_priority_witness:
  "\<exists>s'. thread_yield (boot_sched False) = Inr s' \<and> top_runs s'"
  using schedule_strict_priority[OF boot_current, of False] by (auto simp: boot_sched_def)

text \<open>
  Threads of one priority are served round robin: as long as no thread of a higher
  priority is ready, the threads queued at priority \<open>p\<close>, followed by any that are pushed
  later, are dispatched exactly in that order.
\<close>

theorem run_queue_round_robin:
  assumes "p < PRI_CNT" and "length (ready_list s) = PRI_CNT"
    and "\<And>i. p < i \<Longrightarrow> i < PRI_CNT \<Longrightarrow> ready_list s ! i = []"
  shows "\<exists>s1 s2. enq_all (\<lambda>s. push_ready s (int p)) s ts = Inr s1 \<and>
    deq_n dispatch (length (ready_list s ! p) + length ts) s1 = Inr (ready_list s ! p @ ts, s2)"
proof -
  have r: "queue_rep p s (ready_list s ! p)" using assms by (simp add: queue_rep_def)
  have "allows (\<lambda>_ _. True) xs ts" for xs :: "thr list" by (induction ts arbitrary: xs) simp_all
  from run_queue.fifo_order[OF r this] show ?thesis by blast
qed

theorem run_queue_round_robin_witness:
  "\<exists>s1 s2. enq_all (\<lambda>s. push_ready s (int 31)) (boot_sched False) [7, 5, 9] = Inr s1 \<and>
    deq_n dispatch 3 s1 = Inr ([7, 5, 9], s2)"
proof -
  have l: "length (ready_list (boot_sched False) ! 31) + length [7, 5, 9::thr] = 3"
    and a: "ready_list (boot_sched False) ! 31 @ [7, 5, 9] = [7, 5, 9]" by (simp_all add: boot_ready)
  have "\<exists>s1 s2. enq_all (\<lambda>s. push_ready s (int 31)) (boot_sched False) [7, 5, 9] = Inr s1 \<and>
    deq_n dispatch (length (ready_list (boot_sched False) ! 31) + length [7, 5, 9::thr]) s1
      = Inr (ready_list (boot_sched False) ! 31 @ [7, 5, 9], s2)"
    by (rule run_queue_round_robin) (simp_all add: boot_ready)
  then show ?thesis unfolding l a .
qed

text \<open>
  \<open>thread_unblock\<close> does not always let a woken thread of higher priority run, although its comment says so: whenever
  \<open>highest_priority\<close> is at least the priority of the thread, the thread is made ready and the running thread goes on, however low its own priority is.
  \<open>next_thread_to_run\<close> does not lower \<open>highest_priority\<close> when it empties the last run queue, so that such states are reached from boot.
\<close>

theorem unblock_misses_preemption:
  assumes "sched_ok s" and "threads s t = Some x" and "status x = THREAD_BLOCKED" and "Some t \<noteq> idle_thread s"
    and "priority x \<le> highest_priority s" and "priority (th s (running s)) < priority x"
  shows "\<exists>s'. thread_unblock s t = Inr s' \<and> sched_ok s' \<and> running s' = running s \<and> status (th s' t) = THREAD_READY \<and>
    priority (th s' (running s')) < priority (th s' t) \<and> \<not> top_runs s'"
proof -
  note u = unblocked_ok[OF assms(1-4)]
  have "thread_unblock s t = Inr (unblocked s t)" using thread_unblock_eq[OF assms(1-4)] assms(5) by simp
  moreover have "t \<noteq> running s" using assms(1,2,3) by (auto elim!: sched_okE)
  then have t: "threads (unblocked s t) t = Some (x\<lparr>status := THREAD_READY\<rparr>)" "th (unblocked s t) (running s) = th s (running s)"
    using u(4) assms(2) by (auto simp: th_def with_status_def)
  moreover have "idle_thread (unblocked s t) = idle_thread s" using u(2) by (simp add: same_env_def)
  then have "\<not> top_runs (unblocked s t)" using t u(3) assms(4,6) unfolding top_runs_def by fastforce
  ultimately show ?thesis using u assms(6) by (auto simp: th_def)
qed

lemma low_runs:
  "case thread_block low_sched of Inr s \<Rightarrow> running s = 30 \<and> highest_priority s = 31 \<and> priority (th s 30) = 20 \<and>
     map_option status (threads s 10) = Some THREAD_BLOCKED \<and> priority (th s 10) = 31 \<and> idle_thread s = Some 20 | Inl _ \<Rightarrow> False"
  by code_simp

theorem unblock_misses_preemption_witness:
  "\<exists>s s'. rtranclp sched_step (boot_sched False) s \<and> running s = 30 \<and> priority (th s 30) = 20 \<and> thread_unblock s 10 = Inr s' \<and>
     running s' = 30 \<and> status (th s' 10) = THREAD_READY \<and> priority (th s 10) = 31"
proof -
  obtain s x where s: "thread_block low_sched = Inr s" "running s = 30" "highest_priority s = 31" "priority (th s 30) = 20"
    "threads s 10 = Some x" "status x = THREAD_BLOCKED" "priority x = 31" "idle_thread s = Some 20"
    using low_runs by (auto simp: th_def split: sum.splits)
  have "sched_step (boot_sched False) low_sched" by (rule sched_step.create[OF _ _ _ created_low]) (simp_all add: boot_fields)
  moreover have "sched_step low_sched s" using s(1) by (rule sched_step.block)
  ultimately have r: "rtranclp sched_step (boot_sched False) s" by auto
  have "sched_ok s" using scheduler.reach_inv[OF _ r] unfolding sched_inv_def by blast
  from unblock_misses_preemption[OF this s(5,6)] s r show ?thesis by (auto simp: th_def)
qed

text \<open>
  \<open>thread_create\<close> uses the memory for the exit structure without checking that \<open>malloc\<close>
  returned any: out of kernel memory it faults instead of returning \<open>TID_ERROR\<close>.
\<close>

theorem thread_create_unchecked_malloc:
  assumes "sched_ok s" and "\<not> intr_context s" and "lock_free s tid_lock" and "threads s t = None" and "PRI_MIN \<le> pri" and "pri \<le> PRI_MAX"
  shows "thread_create s (Some t) None name pri = Inl (Fault ''exit structure'')"
proof -
  obtain s1 tid s2 where i: "init_thread s t name pri = Inr s1" and a: "allocate_tid s1 = Inr (tid, s2)"
    using assms(2,3,5,6) by (simp add: init_thread_def allocate_tid_def lock_free_def)
  show ?thesis
  proof (cases "thread_current s2")
    case (Inl e)
    then show ?thesis using thread_create_ok[OF assms, of 0 name] by (auto simp: thread_create_def i a)
  next
    case (Inr c)
    then show ?thesis by (simp add: thread_create_def i a Let_def)
  qed
qed

theorem thread_create_unchecked_malloc_witness:
  "thread_create (boot_sched False) (Some 30) None ''low'' 20 = Inl (Fault ''exit structure'')"
  using thread_create_unchecked_malloc[OF boot_current, of False 30 20] boot_locks by (simp add: boot_fields)

end
