(* ===== verification/Synch.thy ===== *)
theory Synch
  imports Scheduler
begin

text \<open>
  Semaphores, locks and condition variables of \<open>threads/synch.c\<close>, and the priority donation
  of \<open>threads/thread.c\<close> that locks use, over the scheduler's state.

  A call that gives up the processor in the middle (\<open>sema_down\<close> that blocks, \<open>sema_up\<close> that
  yields to the thread it woke) is cut there. What the calling thread still has to do is
  returned as a list of pending actions; \<open>resume\<close> is what the thread does when it runs again.
  An empty list means that the call has returned.
\<close>

section \<open>Semaphores\<close>

definition upd_sema :: "sched \<Rightarrow> sema_id \<Rightarrow> (semaphore \<Rightarrow> semaphore) \<Rightarrow> sched" where
  "upd_sema s i f = s\<lparr>semas := (semas s)(i := f (semas s i))\<rparr>"

definition sema_init :: "sched \<Rightarrow> sema_id \<Rightarrow> nat \<Rightarrow> sched" where
  "sema_init s i v = upd_sema s i (\<lambda>_. \<lparr>sema_value = v, waiters = []\<rparr>)"

text \<open>
  One round of the loop of \<open>sema_down\<close>: either the value is taken, or the thread queues itself
  and blocks; when it runs again it starts the next round.
\<close>

definition sema_down :: "sched \<Rightarrow> sema_id \<Rightarrow> (bool \<times> sched) res" where
  "sema_down s i =
     asrt ''sema_down'' (\<not> intr_context s) (
     if sema_value (semas s i) = 0
     then bnd (thread_current s) (\<lambda>cur.
          bnd (thread_block (upd_sema s i (\<lambda>m. m\<lparr>waiters := waiters m @ [cur]\<rparr>))) (\<lambda>s.
          Inr (False, s)))
     else Inr (True, upd_sema s i (\<lambda>m. m\<lparr>sema_value := sema_value m - 1\<rparr>)))"

definition sema_try_down :: "sched \<Rightarrow> sema_id \<Rightarrow> bool \<times> sched" where
  "sema_try_down s i =
     (if sema_value (semas s i) > 0
      then (True, upd_sema s i (\<lambda>m. m\<lparr>sema_value := sema_value m - 1\<rparr>))
      else (False, s))"

text \<open>The loop that looks for the waiter of highest priority, starting from \<open>t\<close>.\<close>

fun best_waiter :: "sched \<Rightarrow> thr \<Rightarrow> thr list \<Rightarrow> thr" where
  "best_waiter s t [] = t"
| "best_waiter s t (e # es) =
     best_waiter s (if priority (th s t) < priority (th s e) then e else t) es"

definition sema_up :: "sched \<Rightarrow> sema_id \<Rightarrow> sched res" where
  "sema_up s i =
     (let s = upd_sema s i (\<lambda>m. m\<lparr>sema_value := (sema_value m + 1) mod 2 ^ 32\<rparr>)
      in case waiters (semas s i) of
           [] \<Rightarrow> Inr s
         | w # ws \<Rightarrow>
             let t = best_waiter s w (w # ws);
                 s = upd_sema s i (\<lambda>m. m\<lparr>waiters := remove1 t (waiters m)\<rparr>)
             in thread_unblock s t)"

section \<open>Priority donation\<close>

text \<open>
  The search of \<open>donate_priority_to\<close> for a chain of donations. Its variables are the state,
  \<open>donated_thread\<close>, \<open>search_for_thread\<close> and \<open>thread_found\<close>.
\<close>

record dsearch =
  d_sched :: sched
  d_thread :: thr
  d_search :: bool
  d_found :: bool

fun waiters_loop :: "thr list \<Rightarrow> lockid \<Rightarrow> dsearch \<Rightarrow> dsearch res" where
  "waiters_loop [] l d = Inr d"
| "waiters_loop (w # ws) l d =
     (if w = d_thread d
      then case holder (locks (d_sched d) l) of
             None \<Rightarrow> Inl (Fault ''lock holder'')
           | Some h \<Rightarrow>
               bnd (thread_get_priority (d_sched d)) (\<lambda>p.
               Inr (d\<lparr>d_sched := upd_thread (d_sched d) h (\<lambda>x.
                        (if old_priority x = - 1 then x\<lparr>old_priority := priority x\<rparr> else x)\<lparr>priority := p\<rparr>),
                      d_thread := h, d_search := True\<rparr>))
      else waiters_loop ws l d)"

fun locks_loop :: "lockid list \<Rightarrow> dsearch \<Rightarrow> dsearch res" where
  "locks_loop [] d = Inr d"
| "locks_loop (l # ls) d =
     bnd (waiters_loop (waiters (semas (d_sched d) (LockSema l))) l d) (\<lambda>d. locks_loop ls d)"

fun donees_loop :: "thr list \<Rightarrow> thr \<Rightarrow> dsearch \<Rightarrow> dsearch res" where
  "donees_loop [] t d = Inr d"
| "donees_loop (e # es) t d =
     (let d = (if t = e then d\<lparr>d_found := True\<rparr> else d)
      in bnd (if status (th (d_sched d) (d_thread d)) = THREAD_BLOCKED
              then locks_loop (donation_locks (th (d_sched d) e)) d else Inr d) (\<lambda>d.
         donees_loop es t d))"

text \<open>The loop ends unless the threads wait for each other in a circle; hence the fuel.\<close>

fun search_loop :: "nat \<Rightarrow> thr \<Rightarrow> dsearch \<Rightarrow> dsearch res" where
  "search_loop n t d =
     (if d_search d
      then case n of
             0 \<Rightarrow> Inl OutOfFuel
           | Suc n \<Rightarrow> bnd (donees_loop (donation_list (d_sched d)) t (d\<lparr>d_search := False\<rparr>)) (\<lambda>d.
                      search_loop n t d)
      else Inr d)"

definition donate_priority_to :: "nat \<Rightarrow> sched \<Rightarrow> lockid \<Rightarrow> sched res" where
  "donate_priority_to fuel s l =
     (case holder (locks s l) of
        None \<Rightarrow> Inl (Fault ''lock holder'')
      | Some t \<Rightarrow>
          let s = upd_lock s l (\<lambda>k. k\<lparr>donated := True\<rparr>);
              s = upd_thread s t (\<lambda>x. if old_priority x = - 1 then x\<lparr>old_priority := priority x\<rparr> else x)
          in bnd (thread_get_priority s) (\<lambda>p.
             let s = upd_thread s t (\<lambda>x. x\<lparr>priority := p\<rparr>)
             in bnd (search_loop fuel t \<lparr>d_sched = s, d_thread = t, d_search = True, d_found = False\<rparr>) (\<lambda>d.
                let s = d_sched d;
                    s = (if \<not> d_found d
                         then upd_thread (s\<lparr>donation_list := donation_list s @ [t]\<rparr>) t
                                (\<lambda>x. x\<lparr>donation_locks := donation_locks x @ [l]\<rparr>)
                         else if l \<in> set (donation_locks (th s t)) then s
                         else upd_thread s t (\<lambda>x. x\<lparr>donation_locks := donation_locks x @ [l]\<rparr>))
                in if status (th s t) = THREAD_READY
                   then push_ready (unlink_ready s t) (priority (th s t)) t
                   else Inr s)))"

fun max_waiter :: "sched \<Rightarrow> int \<Rightarrow> thr list \<Rightarrow> int" where
  "max_waiter s p [] = p"
| "max_waiter s p (w # ws) = max_waiter s (if priority (th s w) > p then priority (th s w) else p) ws"

fun max_donation :: "sched \<Rightarrow> int \<Rightarrow> lockid list \<Rightarrow> int" where
  "max_donation s p [] = p"
| "max_donation s p (l # ls) = max_donation s (max_waiter s p (waiters (semas s (LockSema l)))) ls"

definition return_priority :: "sched \<Rightarrow> lockid \<Rightarrow> (int \<times> sched) res" where
  "return_priority s l =
     bnd (thread_current s) (\<lambda>cur.
     let s = upd_thread s cur (\<lambda>x. x\<lparr>donation_locks := remove1 l (donation_locks x)\<rparr>);
         s = upd_lock s l (\<lambda>k. k\<lparr>donated := False\<rparr>)
     in if donation_locks (th s cur) = []
        then Inr (old_priority (th s cur),
                  (upd_thread s cur (\<lambda>x. x\<lparr>old_priority := - 1\<rparr>))
                    \<lparr>donation_list := remove1 cur (donation_list s)\<rparr>)
        else Inr (max_donation s PRI_MIN (donation_locks (th s cur)), s))"

section \<open>Locks\<close>

text \<open>What a thread that was switched out inside a call has left to do.\<close>

datatype pending = PDown sema_id | PTake lockid | PAcquire lockid | PSetPri int | PBroadcast nat lockid

definition lock_init :: "sched \<Rightarrow> lockid \<Rightarrow> sched" where
  "lock_init s l = sema_init (upd_lock s l (\<lambda>k. k\<lparr>holder := None, donated := False\<rparr>)) (LockSema l) 1"

definition lock_held_by_current_thread :: "sched \<Rightarrow> lockid \<Rightarrow> bool res" where
  "lock_held_by_current_thread s l =
     bnd (thread_current s) (\<lambda>cur. Inr (holder (locks s l) = Some cur))"

text \<open>\<open>sema_down (&lock->semaphore); lock->holder = thread_current ();\<close>\<close>

definition lock_take :: "sched \<Rightarrow> lockid \<Rightarrow> (bool \<times> sched) res" where
  "lock_take s l =
     bnd (sema_down s (LockSema l)) (\<lambda>(ok, s).
     if ok then bnd (thread_current s) (\<lambda>cur. Inr (True, upd_lock s l (\<lambda>k. k\<lparr>holder := Some cur\<rparr>)))
     else Inr (False, s))"

text \<open>The part of \<open>lock_acquire\<close> before \<open>sema_down\<close>.\<close>

definition acquire_donate :: "nat \<Rightarrow> sched \<Rightarrow> lockid \<Rightarrow> sched res" where
  "acquire_donate fuel s l =
     asrt ''lock_acquire'' (\<not> intr_context s) (
     bnd (lock_held_by_current_thread s l) (\<lambda>held.
     asrt ''lock_acquire'' (\<not> held) (
     case holder (locks s l) of
       None \<Rightarrow> Inr s
     | Some h \<Rightarrow>
         bnd (thread_get_priority s) (\<lambda>p.
         if priority (th s h) < p then donate_priority_to fuel s l else Inr s))))"

definition lock_acquire :: "nat \<Rightarrow> sched \<Rightarrow> lockid \<Rightarrow> (pending list \<times> sched) res" where
  "lock_acquire fuel s l =
     bnd (acquire_donate fuel s l) (\<lambda>s.
     bnd (lock_take s l) (\<lambda>(ok, s). Inr (if ok then [] else [PTake l], s)))"

definition lock_try_acquire :: "sched \<Rightarrow> lockid \<Rightarrow> (bool \<times> sched) res" where
  "lock_try_acquire s l =
     bnd (lock_held_by_current_thread s l) (\<lambda>held.
     asrt ''lock_try_acquire'' (\<not> held) (
     let (success, s) = sema_try_down s (LockSema l)
     in if success
        then bnd (thread_current s) (\<lambda>cur. Inr (True, upd_lock s l (\<lambda>k. k\<lparr>holder := Some cur\<rparr>)))
        else Inr (False, s)))"

definition lock_release :: "sched \<Rightarrow> lockid \<Rightarrow> (pending list \<times> sched) res" where
  "lock_release s l =
     bnd (lock_held_by_current_thread s l) (\<lambda>held.
     asrt ''lock_release'' held (
     let cur = running s
     in bnd (if old_priority (th s cur) \<noteq> - 1 \<and> donated (locks s l)
             then return_priority s l else Inr (PRI_MIN - 1, s)) (\<lambda>(new_priority, s).
        let s = upd_lock s l (\<lambda>k. k\<lparr>holder := None\<rparr>)
        in bnd (sema_up s (LockSema l)) (\<lambda>s.
           if new_priority > PRI_MIN - 1
           then if running s = cur
                then bnd (thread_set_priority_without_lower s new_priority) (\<lambda>s. Inr ([], s))
                else Inr ([PSetPri new_priority], s)
           else Inr ([], s)))))"

section \<open>Condition variables\<close>

text \<open>
  The \<open>semaphore_elem\<close> of a waiting thread \<open>t\<close> is on its stack; its semaphore is
  \<open>WaiterSema t\<close> and its place in \<open>cond->waiters\<close> is \<open>t\<close>.
\<close>

definition cond_init :: "sched \<Rightarrow> nat \<Rightarrow> sched" where
  "cond_init s c = s\<lparr>conds := (conds s)(c := [])\<rparr>"

text \<open>\<open>list_front (&temp->semaphore.waiters)\<close> asserts that the list is not empty.\<close>

definition front_waiter :: "sched \<Rightarrow> thr \<Rightarrow> thr res" where
  "front_waiter s e = (case waiters (semas s (WaiterSema e)) of [] \<Rightarrow> Inl (Panic ''list_front'') | t # _ \<Rightarrow> Inr t)"

fun best_elem :: "sched \<Rightarrow> thr \<Rightarrow> thr list \<Rightarrow> thr res" where
  "best_elem s b [] = Inr b"
| "best_elem s b (e # es) =
     bnd (front_waiter s e) (\<lambda>t.
     bnd (front_waiter s b) (\<lambda>u.
     best_elem s (if priority (th s t) > priority (th s u) then e else b) es))"

definition cond_signal :: "sched \<Rightarrow> nat \<Rightarrow> lockid \<Rightarrow> sched res" where
  "cond_signal s c l =
     asrt ''cond_signal'' (\<not> intr_context s) (
     bnd (lock_held_by_current_thread s l) (\<lambda>held.
     asrt ''cond_signal'' held (
     case conds s c of
       [] \<Rightarrow> Inr s
     | e # es \<Rightarrow>
         bnd (best_elem s e (e # es)) (\<lambda>b.
         sema_up (s\<lparr>conds := (conds s)(c := remove1 b (conds s c))\<rparr>) (WaiterSema b)))))"

text \<open>The loop of \<open>cond_broadcast\<close>, for the number of waiters; it stops when the thread is
  switched out.\<close>

fun broadcast_loop :: "nat \<Rightarrow> sched \<Rightarrow> nat \<Rightarrow> lockid \<Rightarrow> (pending list \<times> sched) res" where
  "broadcast_loop 0 s c l = Inr ([], s)"
| "broadcast_loop (Suc n) s c l =
     bnd (cond_signal s c l) (\<lambda>s'.
     if running s' = running s then broadcast_loop n s' c l else Inr ([PBroadcast c l], s'))"

definition cond_broadcast :: "sched \<Rightarrow> nat \<Rightarrow> lockid \<Rightarrow> (pending list \<times> sched) res" where
  "cond_broadcast s c l = broadcast_loop (length (conds s c)) s c l"

section \<open>Resuming a call\<close>

fun resume :: "nat \<Rightarrow> pending list \<Rightarrow> sched \<Rightarrow> (pending list \<times> sched) res" where
  "resume fuel [] s = Inr ([], s)"
| "resume fuel (PDown i # ps) s =
     bnd (sema_down s i) (\<lambda>(ok, s). if ok then resume fuel ps s else Inr (PDown i # ps, s))"
| "resume fuel (PTake l # ps) s =
     bnd (lock_take s l) (\<lambda>(ok, s). if ok then resume fuel ps s else Inr (PTake l # ps, s))"
| "resume fuel (PAcquire l # ps) s =
     bnd (lock_acquire fuel s l) (\<lambda>(qs, s). if qs = [] then resume fuel ps s else Inr (qs @ ps, s))"
| "resume fuel (PSetPri p # ps) s =
     bnd (thread_set_priority_without_lower s p) (\<lambda>s'.
     if running s' = running s then resume fuel ps s' else Inr (ps, s'))"
| "resume fuel (PBroadcast c l # ps) s =
     bnd (cond_broadcast s c l) (\<lambda>(qs, s). if qs = [] then resume fuel ps s else Inr (qs @ ps, s))"

definition cond_wait :: "nat \<Rightarrow> sched \<Rightarrow> nat \<Rightarrow> lockid \<Rightarrow> (pending list \<times> sched) res" where
  "cond_wait fuel s c l =
     asrt ''cond_wait'' (\<not> intr_context s) (
     bnd (lock_held_by_current_thread s l) (\<lambda>held.
     asrt ''cond_wait'' held (
     let cur = running s;
         s = sema_init s (WaiterSema cur) 0;
         s = s\<lparr>conds := (conds s)(c := conds s c @ [cur])\<rparr>
     in bnd (lock_release s l) (\<lambda>(ps, s).
        let rest = ps @ [PDown (WaiterSema cur), PAcquire l]
        in if running s = cur then resume fuel rest s else Inr (rest, s)))))"

section \<open>Waiting threads\<close>

text \<open>
  Every thread in a waiters list is blocked (and is not the idle thread), and it waits in one
  place only.
\<close>

definition waiters_ok :: "tmap \<Rightarrow> thr option \<Rightarrow> (sema_id \<Rightarrow> semaphore) \<Rightarrow> bool" where
  "waiters_ok T idle M \<longleftrightarrow>
     (\<forall>i. distinct (waiters (M i)) \<and> (\<forall>t \<in> set (waiters (M i)). is_blocked T t \<and> Some t \<noteq> idle)) \<and>
     (\<forall>i j. i \<noteq> j \<longrightarrow> set (waiters (M i)) \<inter> set (waiters (M j)) = {})"

definition synch_ok :: "sched \<Rightarrow> bool" where
  "synch_ok s \<longleftrightarrow> sched_ok s \<and> waiters_ok (threads s) (idle_thread s) (semas s)"

lemma upd_sema_fields [simp]:
  "threads (upd_sema s i f) = threads s" "idle_thread (upd_sema s i f) = idle_thread s"
  "running (upd_sema s i f) = running s" "intr_context (upd_sema s i f) = intr_context s"
  "semas (upd_sema s i f) = (semas s)(i := f (semas s i))" "locks (upd_sema s i f) = locks s"
  "sched_ok (upd_sema s i f) = sched_ok s" "ready_list (upd_sema s i f) = ready_list s"
  "highest_priority (upd_sema s i f) = highest_priority s"
  by (simp_all add: upd_sema_def)

lemma running_not_blocked: "sched_ok s \<Longrightarrow> is_blocked (threads s) t \<Longrightarrow> t \<noteq> running s"
  by (auto elim!: sched_okE simp: is_blocked_def)

lemma with_status_blocked:
  "is_blocked (with_status T r st) t \<longleftrightarrow> (if t = r then T r \<noteq> None \<and> st = THREAD_BLOCKED else is_blocked T t)"
  by (auto simp: is_blocked_def with_status_def)

lemma waiters_ok_mono:
  assumes "waiters_ok T idle M" and "\<And>i t. t \<in> set (waiters (M i)) \<Longrightarrow> is_blocked T' t"
  shows "waiters_ok T' idle M"
  using assms unfolding waiters_ok_def by blast

lemma waiters_ok_sub:
  assumes "waiters_ok T idle M" and "\<And>i. distinct (waiters (M' i))"
    and "\<And>i. set (waiters (M' i)) \<subseteq> set (waiters (M i))"
  shows "waiters_ok T idle M'"
  unfolding waiters_ok_def
proof (intro conjI allI ballI impI)
  fix i j :: sema_id assume "i \<noteq> j"
  then have "set (waiters (M i)) \<inter> set (waiters (M j)) = {}" using assms(1) by (simp add: waiters_ok_def)
  then show "set (waiters (M' i)) \<inter> set (waiters (M' j)) = {}" using assms(3)[of i] assms(3)[of j] by blast
next
  fix i t assume "t \<in> set (waiters (M' i))"
  then have "t \<in> set (waiters (M i))" using assms(3) by blast
  then show "is_blocked T t" "Some t \<noteq> idle" using assms(1) unfolding waiters_ok_def by blast+
qed (rule assms(2))

lemma waiters_ok_one:
  "waiters_ok T idle M \<Longrightarrow> t \<in> set (waiters (M i)) \<Longrightarrow> t \<in> set (waiters (M j)) \<Longrightarrow> i = j"
  unfolding waiters_ok_def by blast

lemma same_env_objs: "same_env s s' \<Longrightarrow> semas s' = semas s \<and> idle_thread s' = idle_thread s"
  by (simp add: same_env_def)

text \<open>The waiter that \<open>sema_up\<close> chooses: the first of those with the highest priority.\<close>

definition first_max :: "('a \<Rightarrow> int) \<Rightarrow> 'a list \<Rightarrow> 'a \<Rightarrow> bool" where
  "first_max p xs r \<longleftrightarrow> (\<exists>pre post. xs = pre @ r # post \<and> (\<forall>e \<in> set pre. p e < p r) \<and> (\<forall>e \<in> set post. p e \<le> p r))"

lemma first_max_Cons:
  assumes "first_max p (b # es) r" and "p e \<le> p b \<and> b = t \<or> p t < p e \<and> b = e"
  shows "first_max p (t # e # es) r"
proof -
  from assms(1) obtain pre post where d: "b # es = pre @ r # post"
    "\<forall>e \<in> set pre. p e < p r" "\<forall>e \<in> set post. p e \<le> p r" unfolding first_max_def by blast
  from assms(2) show ?thesis
  proof
    assume e: "p e \<le> p b \<and> b = t"
    show ?thesis
    proof (cases pre)
      case Nil
      then show ?thesis using d e unfolding first_max_def
        by (intro exI[of _ "[]"] exI[of _ "e # post"]) auto
    next
      case (Cons a pre')
      then show ?thesis using d e unfolding first_max_def
        by (intro exI[of _ "t # e # pre'"] exI[of _ post]) auto
    qed
  next
    assume e: "p t < p e \<and> b = e"
    then have "p t < p r" using d by (cases pre) auto
    then show ?thesis using d e unfolding first_max_def
      by (intro exI[of _ "t # pre"] exI[of _ post]) auto
  qed
qed

lemma best_waiter_first_max: "first_max (\<lambda>t. priority (th s t)) (t # es) (best_waiter s t es)"
proof (induction es arbitrary: t)
  case Nil
  then show ?case by (auto simp: first_max_def intro: exI[of _ "[]"])
next
  case (Cons e es)
  show ?case
    by (simp, intro conjI impI; rule first_max_Cons, rule Cons.IH) auto
qed

lemma first_max_mem: "first_max p xs r \<Longrightarrow> r \<in> set xs"
  by (auto simp: first_max_def)

section \<open>Semaphore operations keep the invariant\<close>

lemma sema_down_ok:
  assumes ok: "synch_ok s" and ic: "\<not> intr_context s" and ni: "Some (running s) \<noteq> idle_thread s"
  shows "\<exists>b s'. sema_down s i = Inr (b, s') \<and> synch_ok s' \<and> (b \<longleftrightarrow> 0 < sema_value (semas s i)) \<and>
    sema_value (semas s' i) = sema_value (semas s i) - 1 \<and>
    waiters (semas s' i) = waiters (semas s i) @ (if b then [] else [running s]) \<and>
    (\<forall>j. j \<noteq> i \<longrightarrow> semas s' j = semas s j)"
proof (cases "sema_value (semas s i) = 0")
  case False
  let ?s = "upd_sema s i (\<lambda>m. m\<lparr>sema_value := sema_value m - 1\<rparr>)"
  have "synch_ok ?s" using ok by (simp add: synch_ok_def waiters_ok_def)
  then show ?thesis using False ic by (auto simp: sema_down_def)
next
  case True
  let ?r = "running s" and ?s = "upd_sema s i (\<lambda>m. m\<lparr>waiters := waiters m @ [running s]\<rparr>)"
  have so: "sched_ok s" and w: "waiters_ok (threads s) (idle_thread s) (semas s)"
    using ok by (simp_all add: synch_ok_def)
  have "sched_ok ?s" "\<not> intr_context ?s" using so ic by simp_all
  from thread_block_ok[OF this] obtain s' where s': "thread_block ?s = Inr s'" and
    d: "dispatched ?s (ready_list s) (with_status (threads s) ?r THREAD_BLOCKED) s'" by auto
  have nr: "?r \<notin> set (waiters (semas s j))" for j
    using w running_not_blocked[OF so] unfolding waiters_ok_def by blast
  have "threads s ?r \<noteq> None" using so by (auto elim!: sched_okE)
  then have "waiters_ok (with_status (threads s) ?r THREAD_BLOCKED) (idle_thread s) (semas ?s)"
    using w nr ni unfolding waiters_ok_def by (auto simp: with_status_blocked)
  moreover have "is_blocked (threads s') t"
    if "t \<in> set (waiters (semas ?s j))" for t j
    using dispatched_blocked[OF d, of t] calculation that unfolding waiters_ok_def by simp
  ultimately have "waiters_ok (threads s') (idle_thread s) (semas ?s)" by (rule waiters_ok_mono)
  moreover have e: "semas s' = semas ?s" "idle_thread s' = idle_thread s" "sched_ok s'"
    using d by (simp_all add: dispatched_def same_env_def)
  ultimately have "synch_ok s'" by (simp add: synch_ok_def)
  then show ?thesis using True ic so s' e by (auto simp: sema_down_def)
qed

lemma thread_unblock_blocked:
  assumes ok: "sched_ok s" and t: "threads s t = Some y" "status y = THREAD_BLOCKED" "Some t \<noteq> idle_thread s"
    and u: "is_blocked (threads s) u" "u \<noteq> t" "Some u \<noteq> idle_thread s"
    and s': "thread_unblock s t = Inr s'"
  shows "is_blocked (threads s') u"
proof -
  note n = unblocked_ok[OF ok t]
  let ?s = "(unblocked s t)\<lparr>highest_priority := priority y\<rparr>"
  have b: "is_blocked (threads (unblocked s t)) u" using u n(4) by (simp add: with_status_blocked)
  show ?thesis
  proof (cases "priority y > highest_priority s \<and> \<not> intr_context s")
    case True
    then have "sched_ok ?s" "\<not> intr_context ?s" using n(1,2) by (simp_all add: same_env_def)
    then obtain rl where d: "dispatched ?s rl (with_status (threads ?s) (running ?s) THREAD_READY) s'"
      using thread_yield_ok[of ?s] True s' thread_unblock_eq[OF ok t] by auto
    have "u \<noteq> running s" by (rule running_not_blocked[OF ok u(1)])
    then show ?thesis using b n(2,3) u(3)
      by (intro dispatched_blocked[OF d]) (simp_all add: with_status_blocked same_env_def)
  next
    case False
    then show ?thesis using b s' thread_unblock_eq[OF ok t] by (auto split: if_splits)
  qed
qed

lemma dispatched_not_blocked:
  assumes "dispatched s rl T s'" and "\<not> is_blocked T t"
  shows "\<not> is_blocked (threads s') t"
  using assms unfolding dispatched_def switched_def is_blocked_def
  by (cases "t = running s'") (auto dest!: spec[of _ t])

lemma thread_unblock_woken:
  assumes ok: "sched_ok s" and t: "threads s t = Some y" "status y = THREAD_BLOCKED" "Some t \<noteq> idle_thread s"
    and s': "thread_unblock s t = Inr s'"
  shows "\<not> is_blocked (threads s') t"
proof -
  note n = unblocked_ok[OF ok t]
  let ?s = "(unblocked s t)\<lparr>highest_priority := priority y\<rparr>"
  have b: "\<not> is_blocked (threads (unblocked s t)) t" using n(4) by (simp add: with_status_blocked)
  show ?thesis
  proof (cases "priority y > highest_priority s \<and> \<not> intr_context s")
    case True
    then have "sched_ok ?s" "\<not> intr_context ?s" using n(1,2) by (simp_all add: same_env_def)
    then obtain rl where d: "dispatched ?s rl (with_status (threads ?s) (running ?s) THREAD_READY) s'"
      using thread_yield_ok[of ?s] True s' thread_unblock_eq[OF ok t] by auto
    show ?thesis using b by (intro dispatched_not_blocked[OF d]) (simp add: with_status_blocked)
  next
    case False
    then show ?thesis using b s' thread_unblock_eq[OF ok t] by (auto split: if_splits)
  qed
qed

lemma sema_up_ok:
  assumes ok: "synch_ok s"
  shows "\<exists>s'. sema_up s i = Inr s' \<and> synch_ok s' \<and>
    sema_value (semas s' i) = (sema_value (semas s i) + 1) mod 2 ^ 32 \<and> (\<forall>j. j \<noteq> i \<longrightarrow> semas s' j = semas s j) \<and>
    (waiters (semas s i) = [] \<longrightarrow> waiters (semas s' i) = [] \<and> running s' = running s) \<and>
    (waiters (semas s i) \<noteq> [] \<longrightarrow> (\<exists>t. first_max (\<lambda>t. priority (th s t)) (waiters (semas s i)) t \<and>
       waiters (semas s' i) = remove1 t (waiters (semas s i)) \<and> \<not> is_blocked (threads s') t))"
proof -
  let ?s1 = "upd_sema s i (\<lambda>m. m\<lparr>sema_value := (sema_value m + 1) mod 2 ^ 32\<rparr>)"
  have so: "sched_ok s" and w: "waiters_ok (threads s) (idle_thread s) (semas s)"
    using ok by (simp_all add: synch_ok_def)
  have w1: "waiters_ok (threads s) (idle_thread s) (semas ?s1)" using w by (simp add: waiters_ok_def)
  show ?thesis
  proof (cases "waiters (semas s i)")
    case Nil
    then show ?thesis using so w1 by (auto simp: sema_up_def synch_ok_def)
  next
    case (Cons a as)
    define t where "t = best_waiter s a as"
    define s2 where "s2 = upd_sema ?s1 i (\<lambda>m. m\<lparr>waiters := remove1 t (waiters m)\<rparr>)"
    have fm: "first_max (\<lambda>t. priority (th s t)) (waiters (semas s i)) t"
      unfolding Cons t_def by (rule best_waiter_first_max)
    then have tm: "t \<in> set (waiters (semas s i))" by (rule first_max_mem)
    then obtain y where y: "threads s t = Some y" "status y = THREAD_BLOCKED" "Some t \<noteq> idle_thread s"
      using w unfolding waiters_ok_def is_blocked_def by blast
    have y2: "sched_ok s2" "threads s2 t = Some y" "status y = THREAD_BLOCKED" "Some t \<noteq> idle_thread s2"
      using so y by (simp_all add: s2_def)
    have "best_waiter ?s1 a (a # as) = t"
    proof -
      have "best_waiter ?s1 x xs = best_waiter s x xs" for x xs by (induction xs arbitrary: x) (simp_all add: th_def)
      then show ?thesis by (simp add: t_def)
    qed
    then have up: "sema_up s i = thread_unblock s2 t" using Cons by (simp add: sema_up_def Let_def s2_def)
    obtain s' where s': "thread_unblock s2 t = Inr s'" "sched_ok s'" "same_env s2 s'"
      using thread_unblock_ok[OF y2] by blast
    have dis: "distinct (waiters (semas s i))" using w by (simp add: waiters_ok_def)
    have tn: "t \<notin> set (waiters (semas s2 j))" for j
      using tm waiters_ok_one[OF w, of t i j] dis unfolding s2_def by (cases "j = i") auto
    have w2: "waiters_ok (threads s) (idle_thread s) (semas s2)"
      by (rule waiters_ok_sub[OF w]) (use w in \<open>auto simp: s2_def waiters_ok_def dest: notin_set_remove1\<close>)
    have "is_blocked (threads s') u" if "u \<in> set (waiters (semas s2 j))" for u j
    proof (rule thread_unblock_blocked[OF y2(1-4) _ _ _ s'(1)])
      show "is_blocked (threads s2) u" "Some u \<noteq> idle_thread s2"
        using that w2 unfolding waiters_ok_def by (auto simp: s2_def)
      show "u \<noteq> t" using that tn by blast
    qed
    then have "waiters_ok (threads s') (idle_thread s) (semas s2)" by (rule waiters_ok_mono[OF w2])
    moreover have e: "semas s' = semas s2" "idle_thread s' = idle_thread s" using s'(3) by (simp_all add: same_env_def s2_def)
    ultimately have "synch_ok s'" using s'(2) by (simp add: synch_ok_def)
    moreover have "\<not> is_blocked (threads s') t" by (rule thread_unblock_woken[OF y2 s'(1)])
    ultimately show ?thesis using up s'(1) e fm by (auto simp: s2_def Cons)
  qed
qed

section \<open>Mutual exclusion\<close>

text \<open>
  A lock is free, its semaphore 1, or held, its semaphore 0. No operation looks at anything
  else to grant a lock, so the invariant does not depend on the scheduler's.
\<close>

definition lock_state :: "sched \<Rightarrow> lockid \<Rightarrow> bool" where
  "lock_state s l \<longleftrightarrow> sema_value (semas s (LockSema l)) = (if holder (locks s l) = None then 1 else 0)"

definition locks_ok :: "sched \<Rightarrow> bool" where
  "locks_ok s \<longleftrightarrow> (\<forall>l. lock_state s l)"

lemma objs_locks_ok: "objs s' = objs s \<Longrightarrow> locks_ok s' = locks_ok s"
  by (simp add: objs_def locks_ok_def lock_state_def)

lemma objs_value: "objs s' = objs s \<Longrightarrow> sema_value (semas s' i) = sema_value (semas s i) \<and> locks s' = locks s"
  by (simp add: objs_def)

text \<open>Updates that leave every semaphore's value and every lock's holder alone.\<close>

definition same_locks :: "sched \<Rightarrow> sched \<Rightarrow> bool" where
  "same_locks s s' \<longleftrightarrow> (\<forall>l. holder (locks s' l) = holder (locks s l)) \<and>
     (\<forall>l. sema_value (semas s' (LockSema l)) = sema_value (semas s (LockSema l)))"

lemma same_locks_refl [simp]: "same_locks s s"
  by (simp add: same_locks_def)

lemma same_locks_trans: "same_locks s s' \<Longrightarrow> same_locks s' s'' \<Longrightarrow> same_locks s s''"
  by (simp add: same_locks_def)

lemma same_locks_ok: "same_locks s s' \<Longrightarrow> locks_ok s' = locks_ok s"
  by (simp add: same_locks_def locks_ok_def lock_state_def)

lemma objs_same_locks: "objs s' = objs s \<Longrightarrow> same_locks s s'"
  by (simp add: objs_def same_locks_def)

lemma same_locks_upd [simp]:
  "same_locks s (upd_thread s t f)"
  "(\<And>k. holder (fl k) = holder k) \<Longrightarrow> same_locks s (upd_lock s l fl)"
  "(\<And>m. sema_value (fm m) = sema_value m) \<Longrightarrow> same_locks s (upd_sema s i fm)"
  "\<forall>l. i \<noteq> LockSema l \<Longrightarrow> same_locks s (upd_sema s i g)"
  "same_locks s (s\<lparr>conds := c\<rparr>)" "same_locks s (s\<lparr>donation_list := d\<rparr>)" "same_locks s (unlink_ready s t)"
  by (auto simp: same_locks_def upd_lock_def upd_sema_def unlink_ready_def)

lemma waiters_loop_locks: "waiters_loop ws l d = Inr d' \<Longrightarrow> same_locks (d_sched d) (d_sched d')"
  by (induction ws l d rule: waiters_loop.induct) (auto simp: res_iffs split: if_splits option.splits)

lemma locks_loop_locks: "locks_loop ls d = Inr d' \<Longrightarrow> same_locks (d_sched d) (d_sched d')"
proof (induction ls arbitrary: d)
  case (Cons l ls)
  then obtain e where e: "waiters_loop (waiters (semas (d_sched d) (LockSema l))) l d = Inr e"
    "locks_loop ls e = Inr d'" by (auto simp: res_iffs)
  show ?case by (rule same_locks_trans[OF waiters_loop_locks[OF e(1)] Cons.IH[OF e(2)]])
qed simp

lemma donees_loop_locks: "donees_loop es t d = Inr d' \<Longrightarrow> same_locks (d_sched d) (d_sched d')"
proof (induction es arbitrary: d)
  case (Cons e es)
  define d1 where "d1 = (if t = e then d\<lparr>d_found := True\<rparr> else d)"
  obtain d2 where d2: "(if status (th (d_sched d1) (d_thread d1)) = THREAD_BLOCKED
      then locks_loop (donation_locks (th (d_sched d1) e)) d1 else Inr d1) = Inr d2" "donees_loop es t d2 = Inr d'"
    using Cons.prems unfolding donees_loop.simps Let_def d1_def[symmetric] by (auto simp: res_iffs)
  have "same_locks (d_sched d1) (d_sched d2)" using d2(1) by (auto split: if_splits dest: locks_loop_locks)
  moreover have "d_sched d1 = d_sched d" by (simp add: d1_def)
  ultimately show ?case using same_locks_trans Cons.IH[OF d2(2)] by auto
qed simp

lemma search_loop_locks: "search_loop n t d = Inr d' \<Longrightarrow> same_locks (d_sched d) (d_sched d')"
proof (induction n arbitrary: d)
  case (Suc n)
  show ?case
  proof (cases "d_search d")
    case True
    then obtain e where e: "donees_loop (donation_list (d_sched d)) t (d\<lparr>d_search := False\<rparr>) = Inr e"
      "search_loop n t e = Inr d'" using Suc.prems by (auto simp: res_iffs)
    then show ?thesis using Suc.IH[OF e(2)] donees_loop_locks[OF e(1)] by (auto intro: same_locks_trans)
  qed (use Suc.prems in simp)
qed (auto split: if_splits)

lemma push_ready_locks: "push_ready s p t = Inr s' \<Longrightarrow> same_locks s s'"
  by (rule objs_same_locks[OF objs_push])

lemma donate_locks: "donate_priority_to fuel s l = Inr s' \<Longrightarrow> same_locks s s'"
proof -
  assume a: "donate_priority_to fuel s l = Inr s'"
  then obtain t where t: "holder (locks s l) = Some t" by (auto simp: donate_priority_to_def split: option.splits)
  let ?s1 = "upd_thread (upd_lock s l (\<lambda>k. k\<lparr>donated := True\<rparr>)) t
     (\<lambda>x. if old_priority x = - 1 then x\<lparr>old_priority := priority x\<rparr> else x)"
  from a t obtain p d where p: "thread_get_priority ?s1 = Inr p"
    and d: "search_loop fuel t \<lparr>d_sched = upd_thread ?s1 t (\<lambda>x. x\<lparr>priority := p\<rparr>), d_thread = t, d_search = True, d_found = False\<rparr> = Inr d"
    and r: "(let s = d_sched d;
                    s = (if \<not> d_found d
                         then upd_thread (s\<lparr>donation_list := donation_list s @ [t]\<rparr>) t
                                (\<lambda>x. x\<lparr>donation_locks := donation_locks x @ [l]\<rparr>)
                         else if l \<in> set (donation_locks (th s t)) then s
                         else upd_thread s t (\<lambda>x. x\<lparr>donation_locks := donation_locks x @ [l]\<rparr>))
                in if status (th s t) = THREAD_READY
                   then push_ready (unlink_ready s t) (priority (th s t)) t
                   else Inr s) = Inr s'"
    unfolding donate_priority_to_def by (auto simp: res_iffs Let_def simp del: search_loop.simps)
  have "same_locks s (upd_thread ?s1 t (\<lambda>x. x\<lparr>priority := p\<rparr>))" by (simp add: same_locks_def upd_lock_def)
  then have "same_locks s (d_sched d)" using search_loop_locks[OF d] same_locks_trans by auto
  moreover have "same_locks (d_sched d) s'"
    using r by (auto simp: Let_def same_locks_def unlink_ready_def split: if_splits dest!: push_ready_locks)
  ultimately show ?thesis by (rule same_locks_trans)
qed

lemma sema_down_locks:
  assumes "sema_down s i = Inr (ok, s')"
  shows "if ok then 0 < sema_value (semas s i) \<and> s' = upd_sema s i (\<lambda>m. m\<lparr>sema_value := sema_value m - 1\<rparr>)
    else sema_value (semas s i) = 0 \<and> same_locks s s'"
proof (cases "sema_value (semas s i) = 0")
  case True
  then obtain cur where "ok = False" "thread_block (upd_sema s i (\<lambda>m. m\<lparr>waiters := waiters m @ [cur]\<rparr>)) = Inr s'"
    using assms by (auto simp: sema_down_def res_iffs)
  then show ?thesis using True objs_same_locks[OF objs_block] by (auto simp: same_locks_def upd_sema_def)
qed (use assms in \<open>auto simp: sema_down_def res_iffs\<close>)

lemma sema_up_locks:
  assumes "sema_up s i = Inr s'"
  shows "same_locks (upd_sema s i (\<lambda>m. m\<lparr>sema_value := (sema_value m + 1) mod 2 ^ 32\<rparr>)) s'"
proof -
  let ?s = "upd_sema s i (\<lambda>m. m\<lparr>sema_value := (sema_value m + 1) mod 2 ^ 32\<rparr>)"
  show ?thesis
  proof (cases "waiters (semas s i)")
    case Nil
    then show ?thesis using assms by (simp add: sema_up_def)
  next
    case (Cons w ws)
    then obtain t where "thread_unblock (upd_sema ?s i (\<lambda>m. m\<lparr>waiters := remove1 t (waiters m)\<rparr>)) t = Inr s'"
      using assms by (simp add: sema_up_def Let_def)
    then show ?thesis using objs_same_locks[OF objs_unblock] by (fastforce simp: same_locks_def upd_sema_def)
  qed
qed

lemma sema_up_other:
  "sema_up s i = Inr s' \<Longrightarrow> \<forall>l. i \<noteq> LockSema l \<Longrightarrow> same_locks s s'"
  using sema_up_locks[of s i s'] by (auto simp: same_locks_def upd_sema_def)

lemma thread_current_running: "thread_current s = Inr c \<Longrightarrow> c = running s"
  by (auto simp: thread_current_def res_iffs)

lemma lock_take_ok:
  assumes "locks_ok s" and "lock_take s l = Inr (ok, s')"
  shows "locks_ok s' \<and> (if ok then holder (locks s l) = None \<and> holder (locks s' l) = Some (running s)
    else holder (locks s l) \<noteq> None \<and> same_locks s s')"
proof -
  from assms(2) obtain b s1 where d: "sema_down s (LockSema l) = Inr (b, s1)" and
    r: "if b then ok \<and> thread_current s1 = Inr (running s1) \<and> s' = upd_lock s1 l (\<lambda>k. k\<lparr>holder := Some (running s1)\<rparr>)
      else \<not> ok \<and> s' = s1"
    by (fastforce simp: lock_take_def res_iffs split: if_splits dest: thread_current_running)
  show ?thesis
  proof (cases b)
    case True
    then show ?thesis using sema_down_locks[OF d] r assms(1)
      by (auto simp: locks_ok_def lock_state_def upd_lock_def split: if_splits)
  next
    case False
    then have "same_locks s s'" "sema_value (semas s (LockSema l)) = 0" "\<not> ok" using sema_down_locks[OF d] r by auto
    then show ?thesis using assms(1) same_locks_ok by (auto simp: locks_ok_def lock_state_def split: if_splits)
  qed
qed

lemma acquire_donate_locks: "acquire_donate fuel s l = Inr s' \<Longrightarrow> same_locks s s' \<and> holder (locks s l) \<noteq> Some (running s)"
  by (auto simp: acquire_donate_def lock_held_by_current_thread_def res_iffs split: option.splits if_splits
    dest: donate_locks thread_current_running)

lemma lock_acquire_ok:
  assumes "locks_ok s" and "lock_acquire fuel s l = Inr (ps, s')"
  shows "locks_ok s' \<and> (ps = [] \<longrightarrow> holder (locks s l) = None) \<and> (holder (locks s l) \<noteq> None \<longrightarrow> ps = [PTake l] \<and> same_locks s s')"
proof -
  obtain s1 ok where a: "acquire_donate fuel s l = Inr s1" and t: "lock_take s1 l = Inr (ok, s')"
    and ps: "ps = (if ok then [] else [PTake l])" using assms(2) by (auto simp: lock_acquire_def res_iffs)
  have sl: "same_locks s s1" using acquire_donate_locks[OF a] by blast
  then have "locks_ok s1" using assms(1) same_locks_ok by blast
  from lock_take_ok[OF this t] sl show ?thesis
    by (auto simp: ps same_locks_def split: if_splits)
qed

lemma return_priority_locks: "return_priority s l = Inr (p, s') \<Longrightarrow> same_locks s s'"
  by (auto simp: return_priority_def res_iffs Let_def same_locks_def upd_lock_def split: if_splits)

lemma lock_release_ok:
  assumes "locks_ok s" and "lock_release s l = Inr (ps, s')"
  shows "holder (locks s l) = Some (running s)" and "holder (locks s' l) = None" and "locks_ok s'"
proof -
  from assms(2) obtain p s1 s2 where held: "holder (locks s l) = Some (running s)" and
    r: "(if old_priority (th s (running s)) \<noteq> - 1 \<and> donated (locks s l) then return_priority s l
         else Inr (PRI_MIN - 1, s)) = Inr (p, s1)" and
    u: "sema_up (upd_lock s1 l (\<lambda>k. k\<lparr>holder := None\<rparr>)) (LockSema l) = Inr s2" and
    f: "s' = s2 \<or> thread_set_priority_without_lower s2 p = Inr s'"
    by (auto simp: lock_release_def lock_held_by_current_thread_def res_iffs Let_def split: if_splits
      dest: thread_current_running)
  show "holder (locks s l) = Some (running s)" by (rule held)
  have s1: "same_locks s s1" using r by (auto split: if_splits dest: return_priority_locks)
  have v: "sema_value (semas s1 (LockSema l)) = 0"
    using assms(1) held s1 by (simp add: locks_ok_def lock_state_def same_locks_def)
  have "locks_ok s1" using assms(1) same_locks_ok[OF s1] by blast
  then have "locks_ok s2" "holder (locks s2 l) = None"
    using sema_up_locks[OF u] v by (auto simp: locks_ok_def lock_state_def same_locks_def upd_lock_def upd_sema_def)
  moreover have "same_locks s2 s'" using f objs_same_locks[OF objs_set_without_lower] by auto
  ultimately show "locks_ok s'" "holder (locks s' l) = None"
    using same_locks_ok by (blast, simp add: same_locks_def)
qed

lemma cond_signal_locks: "cond_signal s c l = Inr s' \<Longrightarrow> same_locks s s'"
  by (auto simp: cond_signal_def res_iffs same_locks_def split: list.splits dest!: sema_up_other)

lemma broadcast_locks: "broadcast_loop n s c l = Inr (ps, s') \<Longrightarrow> same_locks s s'"
proof (induction n arbitrary: s)
  case (Suc n)
  then obtain s1 where s1: "cond_signal s c l = Inr s1"
    "s' = s1 \<or> broadcast_loop n s1 c l = Inr (ps, s')" by (auto simp: res_iffs split: if_splits)
  from cond_signal_locks[OF s1(1)] s1(2) show ?case using Suc.IH same_locks_trans by blast
qed simp

text \<open>A pending action never waits on a lock's semaphore outside \<open>lock_acquire\<close>.\<close>

definition proper :: "pending list \<Rightarrow> bool" where
  "proper ps \<longleftrightarrow> (\<forall>l. PDown (LockSema l) \<notin> set ps)"

lemma resume_ok:
  assumes "locks_ok s" and "proper ps" and "resume fuel ps s = Inr (qs, s')"
  shows "locks_ok s'"
  using assms
proof (induction fuel ps s rule: resume.induct)
  case (2 fuel i ps s)
  then obtain b s1 where d: "sema_down s i = Inr (b, s1)" and r: "if b then resume fuel ps s1 = Inr (qs, s') else s' = s1"
    by (auto simp: res_iffs split: if_splits)
  have "\<forall>l. i \<noteq> LockSema l" using 2(3) by (auto simp: proper_def)
  then have "same_locks s s1" using sema_down_locks[OF d] same_locks_upd(4) by (auto split: if_splits)
  then have "locks_ok s1" using 2(2) same_locks_ok by blast
  then show ?case using 2(1)[OF d refl _ _ _] r 2(3) by (cases b) (auto simp: proper_def)
next
  case (3 fuel l ps s)
  then obtain b s1 where d: "lock_take s l = Inr (b, s1)" and r: "if b then resume fuel ps s1 = Inr (qs, s') else s' = s1"
    by (auto simp: res_iffs split: if_splits)
  then show ?case using 3(1)[OF d refl _ _ _] lock_take_ok[OF 3(2) d] 3(3) by (cases b) (auto simp: proper_def)
next
  case (4 fuel l ps s)
  then obtain rs s1 where d: "lock_acquire fuel s l = Inr (rs, s1)" and
    r: "if rs = [] then resume fuel ps s1 = Inr (qs, s') else s' = s1" by (auto simp: res_iffs split: if_splits)
  then show ?case using 4(1)[OF d refl _ _ _] lock_acquire_ok[OF 4(2) d] 4(3) by (cases "rs = []") (auto simp: proper_def)
next
  case (5 fuel p ps s)
  then obtain s1 where d: "thread_set_priority_without_lower s p = Inr s1" and
    r: "if running s1 = running s then resume fuel ps s1 = Inr (qs, s') else s' = s1"
    by (auto simp: res_iffs split: if_splits)
  then have "locks_ok s1" using 5(2) objs_locks_ok[OF objs_set_without_lower[OF d]] by simp
  then show ?case using 5(1)[OF d] r 5(3) by (cases "running s1 = running s") (auto simp: proper_def)
next
  case (6 fuel c l ps s)
  then obtain rs s1 where d: "cond_broadcast s c l = Inr (rs, s1)" and
    r: "if rs = [] then resume fuel ps s1 = Inr (qs, s') else s' = s1" by (auto simp: res_iffs split: if_splits)
  then have "locks_ok s1" using 6(2) same_locks_ok[OF broadcast_locks] unfolding cond_broadcast_def by blast
  then show ?case using 6(1)[OF d refl] r 6(3) by (cases "rs = []") (auto simp: proper_def)
qed simp

lemma cond_wait_ok:
  assumes "locks_ok s" and "cond_wait fuel s c l = Inr (ps, s')"
  shows "locks_ok s' \<and> holder (locks s l) = Some (running s)"
proof -
  let ?s = "(sema_init s (WaiterSema (running s)) 0)\<lparr>conds := (conds s)(c := conds s c @ [running s])\<rparr>"
  have e: "conds (sema_init s (WaiterSema (running s)) 0) = conds s" by (simp add: sema_init_def upd_sema_def)
  obtain qs s1 where r: "lock_release ?s l = Inr (qs, s1)" and
    f: "s' = s1 \<or> resume fuel (qs @ [PDown (WaiterSema (running s)), PAcquire l]) s1 = Inr (ps, s')" and
    h: "holder (locks s l) = Some (running s)"
    using assms(2) by (auto simp: cond_wait_def lock_held_by_current_thread_def res_iffs Let_def e split: if_splits
      dest: thread_current_running)
  have "same_locks s ?s" by (auto simp: same_locks_def sema_init_def upd_sema_def)
  then have "locks_ok ?s" using assms(1) same_locks_ok by blast
  from lock_release_ok(3)[OF this r] have "locks_ok s1" .
  moreover have "proper (qs @ [PDown (WaiterSema (running s)), PAcquire l])"
    using r by (auto simp: lock_release_def res_iffs Let_def proper_def split: if_splits)
  ultimately show ?thesis using f h resume_ok by blast
qed

text \<open>
  The steps of all threads on the synchronisation objects. The last rule covers every
  operation that leaves them alone, in particular all of the scheduler's.
\<close>

inductive lock_step :: "sched \<Rightarrow> sched \<Rightarrow> bool" where
  init: "holder (locks s l) = None \<Longrightarrow> lock_step s (lock_init s l)"
| acquire: "lock_acquire fuel s l = Inr (ps, s') \<Longrightarrow> lock_step s s'"
| try_acquire: "lock_try_acquire s l = Inr (ok, s') \<Longrightarrow> lock_step s s'"
| release: "lock_release s l = Inr (ps, s') \<Longrightarrow> lock_step s s'"
| wait: "cond_wait fuel s c l = Inr (ps, s') \<Longrightarrow> lock_step s s'"
| signal: "cond_signal s c l = Inr s' \<Longrightarrow> lock_step s s'"
| broadcast: "cond_broadcast s c l = Inr (ps, s') \<Longrightarrow> lock_step s s'"
| continue: "proper ps \<Longrightarrow> resume fuel ps s = Inr (qs, s') \<Longrightarrow> lock_step s s'"
| down: "\<forall>l. i \<noteq> LockSema l \<Longrightarrow> sema_down s i = Inr (ok, s') \<Longrightarrow> lock_step s s'"
| up: "\<forall>l. i \<noteq> LockSema l \<Longrightarrow> sema_up s i = Inr s' \<Longrightarrow> lock_step s s'"
| other: "objs s' = objs s \<Longrightarrow> lock_step s s'"

lemma lock_try_acquire_ok:
  assumes "locks_ok s" and "lock_try_acquire s l = Inr (ok, s')"
  shows "locks_ok s' \<and> (ok \<longrightarrow> holder (locks s l) = None \<and> holder (locks s' l) = Some (running s)) \<and>
    (holder (locks s l) \<noteq> None \<longrightarrow> \<not> ok \<and> s' = s)"
proof (cases "0 < sema_value (semas s (LockSema l))")
  case True
  let ?s = "upd_sema s (LockSema l) (\<lambda>m. m\<lparr>sema_value := sema_value m - 1\<rparr>)"
  have st: "lock_state s k" for k using assms(1) by (simp add: locks_ok_def)
  have s': "ok" "s' = upd_lock ?s l (\<lambda>k. k\<lparr>holder := Some (running s)\<rparr>)"
    using True assms(2) by (auto simp: lock_try_acquire_def sema_try_down_def res_iffs dest!: thread_current_running)
  have "lock_state s' k" for k
    using st[of k] st[of l] True by (cases "k = l") (auto simp: s'(2) lock_state_def upd_lock_def split: if_splits)
  then have "locks_ok s'" by (simp add: locks_ok_def)
  then show ?thesis using st[of l] s' True by (simp add: lock_state_def upd_lock_def split: if_splits)
next
  case False
  then show ?thesis using assms
    by (auto simp: lock_try_acquire_def sema_try_down_def res_iffs locks_ok_def lock_state_def split: if_splits)
qed

lemma lock_step_ok:
  assumes inv: "locks_ok s" and step: "lock_step s s'"
  shows "locks_ok s'"
  using step
proof cases
  case (init l)
  then show ?thesis using inv by (auto simp: lock_init_def sema_init_def upd_lock_def locks_ok_def lock_state_def)
next
  case (signal c l)
  then show ?thesis using inv same_locks_ok[OF cond_signal_locks] by blast
next
  case (broadcast c l ps)
  then show ?thesis using inv same_locks_ok[OF broadcast_locks] unfolding cond_broadcast_def by blast
next
  case (down i ok)
  then have "same_locks s s'" using sema_down_locks[OF down(2)] same_locks_upd(4) by (auto split: if_splits)
  then show ?thesis using inv same_locks_ok by blast
next
  case (up i)
  then show ?thesis using inv same_locks_ok[OF sema_up_other[OF up(2,1)]] by blast
next
  case (acquire fuel l ps)
  then show ?thesis using lock_acquire_ok[OF inv] by blast
next
  case (try_acquire l ok)
  then show ?thesis using lock_try_acquire_ok[OF inv] by blast
next
  case (release l ps)
  then show ?thesis using lock_release_ok(3)[OF inv] by blast
next
  case (wait fuel c l ps)
  then show ?thesis using cond_wait_ok[OF inv] by blast
next
  case (continue ps fuel qs)
  then show ?thesis using resume_ok[OF inv] by blast
next
  case other
  then show ?thesis using inv objs_locks_ok by blast
qed

interpretation lock_protocol: machine locks_ok lock_step locks_ok
  by (unfold_locales, assumption, erule lock_step_ok)

section \<open>Donation\<close>

lemma donees_ready:
  "status (th (d_sched d) (d_thread d)) \<noteq> THREAD_BLOCKED \<Longrightarrow>
   donees_loop es t d = Inr (d\<lparr>d_found := d_found d \<or> t \<in> set es\<rparr>)"
proof (induction es arbitrary: d)
  case (Cons e es)
  show ?case using Cons.prems Cons.IH[of d] Cons.IH[of "d\<lparr>d_found := True\<rparr>"] by (auto simp: Let_def)
qed simp

lemma search_ready:
  assumes "status (th (d_sched d) (d_thread d)) \<noteq> THREAD_BLOCKED" and "d_search d"
  shows "search_loop (Suc n) t d = Inr (d\<lparr>d_search := False, d_found := d_found d \<or> t \<in> set (donation_list (d_sched d))\<rparr>)"
  using assms donees_ready[of "d\<lparr>d_search := False\<rparr>" "donation_list (d_sched d)" t] by simp

lemma donate_ready:
  assumes ok: "sched_ok s" and h: "holder (locks s l) = Some h"
    and x: "threads s h = Some x" "status x = THREAD_READY" "Some h \<noteq> idle_thread s"
  defines "p \<equiv> priority (th s (running s))"
  shows "\<exists>s' y. donate_priority_to (Suc n) s l = Inr s' \<and> sched_ok s' \<and> threads s' = (threads s)(h \<mapsto> y) \<and>
    status y = THREAD_READY \<and> priority y = p \<and>
    old_priority y = (if old_priority x = - 1 then priority x else old_priority x) \<and>
    l \<in> set (donation_locks y) \<and> donated (locks s' l) \<and> h \<in> set (ready_list s' ! nat p)"
proof -
  from ok obtain idle r where idle: "idle_thread s = Some idle" and
    b: "base (threads s) (ready_list s) idle (ready_threads s) (all_list s)" and
    r: "threads s (running s) = Some r" "status r = THREAD_RUNNING" and
    run: "\<And>t y. threads s t = Some y \<Longrightarrow> (status y = THREAD_RUNNING) = (t = running s)"
    by (rule sched_okE) blast
  have hr: "h \<noteq> running s" using x(2) r x(1) by auto
  have p: "p = priority r" "0 \<le> p" "p < 64" using pri_range[OF ok r(1)] r(1) by (simp_all add: p_def th_def)
  define x1 where "x1 = (if old_priority x = - 1 then x\<lparr>old_priority := priority x\<rparr> else x)"
  define x2 where "x2 = x1\<lparr>priority := p\<rparr>"
  define f where "f = (h \<in> set (donation_list s))"
  define y where "y = (if f \<and> l \<in> set (donation_locks x2) then x2 else x2\<lparr>donation_locks := donation_locks x2 @ [l]\<rparr>)"
  define s2 where "s2 = upd_thread (upd_lock s l (\<lambda>k. k\<lparr>donated := True\<rparr>)) h
     (\<lambda>x. if old_priority x = - 1 then x\<lparr>old_priority := priority x\<rparr> else x)"
  define s3 where "s3 = upd_thread s2 h (\<lambda>x. x\<lparr>priority := p\<rparr>)"
  define s4 where "s4 = (if \<not> f then upd_thread (s3\<lparr>donation_list := donation_list s3 @ [h]\<rparr>) h
        (\<lambda>x. x\<lparr>donation_locks := donation_locks x @ [l]\<rparr>)
     else if l \<in> set (donation_locks (th s3 h)) then s3
     else upd_thread s3 h (\<lambda>x. x\<lparr>donation_locks := donation_locks x @ [l]\<rparr>))"
  have st: "status x1 = THREAD_READY" using x(2) by (simp add: x1_def)
  have gp: "thread_get_priority s2 = Inr p"
    using r hr p(1) by (simp add: s2_def upd_lock_def thread_get_priority_def thread_current_def is_thread_def th_def)
  have t3: "threads s3 = (threads s)(h \<mapsto> x2)" "donation_list s3 = donation_list s"
    using x(1) by (simp_all add: s3_def s2_def upd_lock_def x2_def x1_def)
  have f4: "threads s4 = (threads s)(h \<mapsto> y)" "ready_list s4 = ready_list s" "idle_thread s4 = Some idle"
    "ready_threads s4 = ready_threads s" "all_list s4 = all_list s" "running s4 = running s" "donated (locks s4 l)"
    using t3 idle by (auto simp: s4_def y_def th_def s3_def s2_def upd_lock_def)
  have y: "status y = THREAD_READY" "priority y = p" "l \<in> set (donation_locks y)"
    "old_priority y = (if old_priority x = - 1 then priority x else old_priority x)"
    using st by (auto simp: y_def x2_def x1_def)
  have se: "search_loop (Suc n) h \<lparr>d_sched = s3, d_thread = h, d_search = True, d_found = False\<rparr>
      = Inr \<lparr>d_sched = s3, d_thread = h, d_search = False, d_found = f\<rparr>"
    using search_ready[of "\<lparr>d_sched = s3, d_thread = h, d_search = True, d_found = False\<rparr>" n h] st t3
    by (simp add: th_def x2_def f_def del: search_loop.simps)
  define rl where "rl = map (remove1 h) (ready_list s)"
  define s5 where "s5 = s4\<lparr>ready_list := rl[nat p := rl ! nat p @ [h]]\<rparr>"
  have "donate_priority_to (Suc n) s l = (if status (th s4 h) = THREAD_READY
      then push_ready (unlink_ready s4 h) (priority (th s4 h)) h else Inr s4)"
    unfolding donate_priority_to_def h option.case Let_def s2_def[symmetric] gp bnd_simps s3_def[symmetric] se dsearch.simps
    by (simp add: s4_def)
  then have d: "donate_priority_to (Suc n) s l = Inr s5"
    using f4(1) y(1,2) p(2,3) by (simp add: th_def push_ready_def unlink_ready_def s5_def f4(2) rl_def)
  have hi: "h \<noteq> idle" using x(3) idle by simp
  have "base ((threads s)(h \<mapsto> y)) (rl[nat p := rl ! nat p @ [h]]) idle (ready_threads s) (all_list s)"
    using base_requeue[OF b x(1,2) hi y(1)] y(2) p(2,3) by (simp add: rl_def)
  then have ok5: "sched_ok s5"
    by (intro sched_okI[of _ idle r]) (use f4 r hr run y x in \<open>auto simp: s5_def split: if_splits\<close>)
  have "length rl = PRI_CNT" using b by (simp add: rl_def base_def queue_ok_def)
  then have "h \<in> set (ready_list s5 ! nat p)" using p(2,3) by (simp add: s5_def)
  then show ?thesis using d ok5 f4 y by (auto simp: s5_def)
qed

section \<open>Properties\<close>

text \<open>
  (C5) Semaphores: in a state where every waiter is blocked and waits in one place, \<open>sema_down\<close>
  takes a unit if there is one and otherwise queues the running thread last and blocks it;
  \<open>sema_up\<close> adds a unit and wakes exactly the first of the waiters with the highest priority.
  Neither fails an assertion, both keep the invariant and touch no other semaphore.
\<close>

theorem semaphore_operations:
  assumes "synch_ok s"
  shows "(\<not> intr_context s \<and> Some (running s) \<noteq> idle_thread s \<longrightarrow>
      (\<exists>b s'. sema_down s i = Inr (b, s') \<and> synch_ok s' \<and> (b \<longleftrightarrow> 0 < sema_value (semas s i)) \<and>
        sema_value (semas s' i) = sema_value (semas s i) - 1 \<and>
        waiters (semas s' i) = waiters (semas s i) @ (if b then [] else [running s]) \<and>
        (\<forall>j. j \<noteq> i \<longrightarrow> semas s' j = semas s j))) \<and>
    (\<exists>s'. sema_up s i = Inr s' \<and> synch_ok s' \<and>
      sema_value (semas s' i) = (sema_value (semas s i) + 1) mod 2 ^ 32 \<and> (\<forall>j. j \<noteq> i \<longrightarrow> semas s' j = semas s j) \<and>
      (waiters (semas s i) = [] \<longrightarrow> waiters (semas s' i) = [] \<and> running s' = running s) \<and>
      (waiters (semas s i) \<noteq> [] \<longrightarrow> (\<exists>t. first_max (\<lambda>t. priority (th s t)) (waiters (semas s i)) t \<and>
         waiters (semas s' i) = remove1 t (waiters (semas s i)) \<and> \<not> is_blocked (threads s') t)))"
  using sema_down_ok[OF assms] sema_up_ok[OF assms] by blast

lemma boot_synch: "synch_ok (boot_sched m)"
  using boot_current by (simp add: synch_ok_def waiters_ok_def boot_fields)

theorem semaphore_operations_witness:
  "\<exists>s'. sema_down (boot_sched False) (PlainSema 3) = Inr (False, s') \<and> waiters (semas s' (PlainSema 3)) = [10]"
  using semaphore_operations[OF boot_synch, of False "PlainSema 3"] by (auto simp: boot_fields)

text \<open>
  (C4) Mutual exclusion: from any state in which all locks are initialised, whatever the threads
  do with locks, condition variables, other semaphores and the scheduler, a lock that is held
  is not granted again: an attempt to take it leaves it with its holder and the caller waiting,
  a try fails, and a release is only accepted from the holder, after which the lock is free.
\<close>

theorem lock_mutual_exclusion:
  assumes "locks_ok s0" and "rtranclp lock_step s0 s" and "holder (locks s l) = Some h"
  shows "sema_value (semas s (LockSema l)) = 0 \<and>
    (\<forall>fuel ps s'. lock_acquire fuel s l = Inr (ps, s') \<longrightarrow> ps = [PTake l] \<and> holder (locks s' l) = Some h) \<and>
    (\<forall>ok s'. lock_take s l = Inr (ok, s') \<longrightarrow> \<not> ok \<and> holder (locks s' l) = Some h) \<and>
    (\<forall>ok s'. lock_try_acquire s l = Inr (ok, s') \<longrightarrow> \<not> ok \<and> s' = s) \<and>
    (\<forall>ps s'. lock_release s l = Inr (ps, s') \<longrightarrow> running s = h \<and> holder (locks s' l) = None \<and>
       sema_value (semas s' (LockSema l)) = 1)"
proof -
  have inv: "locks_ok s" using lock_protocol.reach_inv[OF assms(1,2)] .
  have v: "sema_value (semas s (LockSema l)) = 0" using inv assms(3) by (simp add: locks_ok_def lock_state_def)
  moreover have "ps = [PTake l] \<and> holder (locks s' l) = Some h" if "lock_acquire fuel s l = Inr (ps, s')" for fuel ps s'
    using lock_acquire_ok[OF inv that] assms(3) by (simp add: same_locks_def)
  moreover have "\<not> ok \<and> holder (locks s' l) = Some h" if "lock_take s l = Inr (ok, s')" for ok s'
    using lock_take_ok[OF inv that] assms(3) by (simp add: same_locks_def split: if_splits)
  moreover have "\<not> ok \<and> s' = s" if "lock_try_acquire s l = Inr (ok, s')" for ok s'
    using lock_try_acquire_ok[OF inv that] assms(3) by simp
  moreover have "running s = h \<and> holder (locks s' l) = None \<and> sema_value (semas s' (LockSema l)) = 1"
    if "lock_release s l = Inr (ps, s')" for ps s'
    using lock_release_ok[OF inv that] assms(3) by (simp add: locks_ok_def lock_state_def)
  ultimately show ?thesis by blast
qed

text \<open>A critical section under a lock that is free and that nobody asks for in the meantime leaves the lock as it was.\<close>

lemma free_lock_section:
  assumes ok: "sched_ok s" and ic: "\<not> intr_context s" and l: "lock_free s l"
  shows "\<exists>s1. lock_acquire fuel s l = Inr ([], s1) \<and> lock_release s1 l = Inr ([], s)"
proof -
  have f: "holder (locks s l) = None" "\<not> donated (locks s l)" "semas s (LockSema l) = \<lparr>sema_value = 1, waiters = []\<rparr>"
    using l by (simp_all add: lock_free_def)
  define s1 where "s1 = upd_lock (upd_sema s (LockSema l) (\<lambda>m. m\<lparr>sema_value := sema_value m - 1\<rparr>)) l (\<lambda>k. k\<lparr>holder := Some (running s)\<rparr>)"
  have c: "thread_current s = Inr (running s)" using thread_current_ok[OF ok] .
  then have c1: "thread_current (upd_sema s i g) = Inr (running s)" "thread_current s1 = Inr (running s)" "running s1 = running s" for i g
    by (simp_all add: thread_current_def s1_def upd_sema_def upd_lock_def is_thread_def th_def)
  have a: "lock_acquire fuel s l = Inr ([], s1)"
    using c c1 ic f by (simp add: lock_acquire_def acquire_donate_def lock_held_by_current_thread_def lock_take_def sema_down_def s1_def)
  have u: "upd_sema (upd_lock s1 l (\<lambda>k. k\<lparr>holder := None\<rparr>)) (LockSema l) (\<lambda>m. m\<lparr>sema_value := (sema_value m + 1) mod 2 ^ 32\<rparr>) = s"
    using f by (intro sched.equality) (auto simp: s1_def upd_sema_def upd_lock_def fun_eq_iff)
  have w: "waiters (semas (upd_lock s1 l (\<lambda>k. k\<lparr>holder := None\<rparr>)) (LockSema l)) = []" "\<not> donated (locks s1 l)"
    "holder (locks s1 l) = Some (running s)"
    using f by (simp_all add: s1_def upd_sema_def upd_lock_def)
  have "sema_up (upd_lock s1 l (\<lambda>k. k\<lparr>holder := None\<rparr>)) (LockSema l) = Inr s" unfolding sema_up_def Let_def u using f by simp
  then have "lock_release s1 l = Inr ([], s)" using c1 w by (simp add: lock_release_def lock_held_by_current_thread_def)
  then show ?thesis using a by blast
qed

definition all_locks_free :: sched where
  "all_locks_free = (boot_sched False)\<lparr>semas := (\<lambda>i. case i of LockSema l \<Rightarrow> \<lparr>sema_value = 1, waiters = []\<rparr>
     | _ \<Rightarrow> \<lparr>sema_value = 0, waiters = []\<rparr>)\<rparr>"

lemma all_locks_free_ok: "locks_ok all_locks_free" "sched_ok all_locks_free"
  by (simp_all add: all_locks_free_def locks_ok_def lock_state_def boot_fields boot_current)

theorem lock_mutual_exclusion_witness:
  "\<exists>s. lock_acquire 1 all_locks_free 7 = Inr ([], s) \<and> holder (locks s 7) = Some 10 \<and>
     sema_value (semas s (LockSema 7)) = 0"
proof -
  have r: "running all_locks_free = 10" "intr_context all_locks_free = False" "holder (locks all_locks_free l) = None"
    "sema_value (semas all_locks_free (LockSema l)) = 1" for l
    by (simp_all add: all_locks_free_def boot_fields)
  have c: "thread_current all_locks_free = Inr 10" using thread_current_ok[OF all_locks_free_ok(2)] r(1) by simp
  obtain s where s: "lock_acquire 1 all_locks_free 7 = Inr ([], s)" "holder (locks s 7) = Some 10"
    using c all_locks_free_ok(2) r
    by (auto simp: lock_acquire_def acquire_donate_def lock_held_by_current_thread_def lock_take_def sema_down_def upd_lock_def)
  have "rtranclp lock_step all_locks_free s" using lock_step.acquire[OF s(1)] by blast
  from lock_mutual_exclusion[OF all_locks_free_ok(1) this s(2)] s show ?thesis by blast
qed

text \<open>
  (C6) Priority donation: when a thread asks for a lock whose holder is ready and has a lower
  priority, the holder gets the priority of the caller and is moved to the run queue of that
  priority (the scheduler's invariant is kept), its own priority is remembered once, and the
  lock is recorded as the reason.
\<close>

theorem donation_raises_holder:
  assumes "sched_ok s" and "holder (locks s l) = Some h" and "threads s h = Some x"
    and "status x = THREAD_READY" and "Some h \<noteq> idle_thread s" and "\<not> intr_context s"
    and "priority x < priority (th s (running s))"
  shows "\<exists>s' y. acquire_donate (Suc n) s l = Inr s' \<and> sched_ok s' \<and> threads s' = (threads s)(h \<mapsto> y) \<and>
    priority y = priority (th s (running s)) \<and>
    old_priority y = (if old_priority x = - 1 then priority x else old_priority x) \<and>
    l \<in> set (donation_locks y) \<and> donated (locks s' l) \<and> h \<in> set (ready_list s' ! nat (priority y))"
proof -
  have "h \<noteq> running s" using assms(1,3,4) by (auto elim!: sched_okE)
  then have "acquire_donate (Suc n) s l = donate_priority_to (Suc n) s l"
    using assms by (simp add: acquire_donate_def lock_held_by_current_thread_def thread_get_priority_def th_def)
  moreover obtain s' y where "donate_priority_to (Suc n) s l = Inr s'" "sched_ok s'" "threads s' = (threads s)(h \<mapsto> y)"
    "priority y = priority (th s (running s))" "old_priority y = (if old_priority x = - 1 then priority x else old_priority x)"
    "l \<in> set (donation_locks y)" "donated (locks s' l)" "h \<in> set (ready_list s' ! nat (priority (th s (running s))))"
    using donate_ready[OF assms(1-5), of n] by metis
  ultimately show ?thesis by auto
qed

text \<open>A state in which the main thread runs and thread 30, of priority 20, holds lock 5.\<close>

definition held_sched :: sched where
  "held_sched = upd_lock (upd_sema low_sched (LockSema 5) (\<lambda>m. m\<lparr>sema_value := 0\<rparr>)) 5 (\<lambda>k. k\<lparr>holder := Some 30\<rparr>)"

lemma low_sched_ok: "sched_ok low_sched"
  using thread_create_ok[OF boot_current, of False 30 20 40 "''low''"] created_low boot_locks by (simp add: boot_fields)

theorem donation_raises_holder_witness:
  "\<exists>s' y. acquire_donate 1 held_sched 5 = Inr s' \<and> sched_ok s' \<and> threads s' 30 = Some y \<and> priority y = 31 \<and>
     old_priority y = 20"
proof -
  let ?x = "(boot_thread 3 ''low'' THREAD_READY 20)\<lparr>parent_tid := 1, exit_of := Some 40\<rparr>"
  have "sched_ok held_sched" using low_sched_ok by (simp add: held_sched_def upd_lock_def upd_sema_def)
  moreover have "threads held_sched 30 = Some ?x" "holder (locks held_sched 5) = Some 30"
    "idle_thread held_sched = Some 20" "\<not> intr_context held_sched" "priority (th held_sched (running held_sched)) = 31"
    by (simp_all add: held_sched_def upd_lock_def upd_sema_def low_sched_def boot_fields th_def boot_thread_def)
  ultimately show ?thesis using donation_raises_holder[of held_sched 5 30 ?x 0] by (auto simp: boot_thread_def)
qed

text \<open>
  A donation that is passed on along a chain of locks raises the priority of the last
  holder but leaves it, when it is ready, in the run queue of its old priority. Here the
  running thread (priority 50) waits for a lock of thread 30, which waits for a lock of
  thread 40; thread 40 now has priority 50 and is ready, but thread 50 of priority 40 runs.
\<close>

definition nest_sched :: sched where
  "nest_sched = (boot_sched False)\<lparr>
     threads := [10 \<mapsto> boot_thread 1 ''high'' THREAD_RUNNING 50, 20 \<mapsto> boot_thread 2 ''idle'' THREAD_BLOCKED 0,
       30 \<mapsto> boot_thread 3 ''mid'' THREAD_BLOCKED 20,
       40 \<mapsto> (boot_thread 4 ''low'' THREAD_READY 20)\<lparr>old_priority := 10, donation_locks := [2]\<rparr>,
       50 \<mapsto> boot_thread 5 ''other'' THREAD_READY 40],
     all_list := [10, 20, 30, 40, 50], ready_list := (replicate PRI_CNT [])[20 := [40], 40 := [50]],
     ready_threads := 3, donation_list := [40],
     semas := (\<lambda>i. \<lparr>sema_value = (case i of LockSema l \<Rightarrow> if l = 1 \<or> l = 2 then 0 else 1 | _ \<Rightarrow> 0),
       waiters = if i = LockSema 2 then [30] else []\<rparr>),
     locks := (\<lambda>l. if l = 1 then \<lparr>holder = Some 30, donated = False\<rparr>
       else if l = 2 then \<lparr>holder = Some 40, donated = True\<rparr> else \<lparr>holder = None, donated = False\<rparr>)\<rparr>"

theorem nested_donation_not_requeued:
  "(case lock_acquire 5 nest_sched 1 of
      Inr (ps, s) \<Rightarrow> ps = [PTake 1] \<and> running s = 50 \<and> priority (th s 50) = 40 \<and>
        status (th s 40) = THREAD_READY \<and> priority (th s 40) = 50 \<and> 40 \<in> set (ready_list s ! 20)
    | Inl _ \<Rightarrow> False)"
  by code_simp

lemma best_elem_empty:
  "e \<in> set es \<Longrightarrow> waiters (semas s (WaiterSema e)) = [] \<Longrightarrow> \<exists>m. best_elem s b es = Inl (Panic m) \<and> m = ''list_front''"
proof (induction es arbitrary: b)
  case (Cons a es)
  then show ?case by (auto simp: bnd_def front_waiter_def split: sum.splits list.splits)
qed simp

text \<open>The other steps of \<open>cond_wait\<close> up to the release leave the new entry without a waiter.\<close>

lemma release_keeps_waiters:
  assumes "lock_release s l = Inr (ps, s')"
  shows "conds s' = conds s \<and> waiters (semas s' (WaiterSema t)) = waiters (semas s (WaiterSema t))"
proof -
  from assms obtain p s1 s2 where
    r: "(if old_priority (th s (running s)) \<noteq> - 1 \<and> donated (locks s l) then return_priority s l
         else Inr (PRI_MIN - 1, s)) = Inr (p, s1)" and
    u: "sema_up (upd_lock s1 l (\<lambda>k. k\<lparr>holder := None\<rparr>)) (LockSema l) = Inr s2" and
    f: "s' = s2 \<or> thread_set_priority_without_lower s2 p = Inr s'"
    by (auto simp: lock_release_def res_iffs Let_def split: if_splits)
  have 1: "conds s1 = conds s \<and> semas s1 = semas s"
    using r by (auto simp: return_priority_def res_iffs Let_def upd_lock_def split: if_splits)
  have 2: "conds s2 = conds s1 \<and> waiters (semas s2 (WaiterSema t)) = waiters (semas s1 (WaiterSema t))"
    using u by (auto simp: sema_up_def Let_def upd_lock_def upd_sema_def objs_def split: list.splits dest!: objs_unblock)
  have "objs s' = objs s2" using f objs_set_without_lower by auto
  then show ?thesis using 1 2 by (simp add: objs_def)
qed

text \<open>
  \<open>cond_signal\<close> can panic the kernel. A thread that calls \<open>cond_wait\<close> enters the condition's
  list before it waits on its semaphore. When releasing the lock switches to another thread,
  that thread, once it holds the lock and signals the condition, runs into the assertion of
  \<open>list_front\<close> on the empty list of waiters.
\<close>

theorem cond_signal_panics:
  assumes "lock_release ((sema_init s (WaiterSema t) 0)\<lparr>conds := (conds s)(c := conds s c @ [t])\<rparr>) l = Inr (ps, s1)"
    and "conds s2 = conds s1" and "semas s2 (WaiterSema t) = semas s1 (WaiterSema t)"
    and "\<not> intr_context s2" and "lock_held_by_current_thread s2 l = Inr True"
  shows "cond_signal s2 c l = Inl (Panic ''list_front'')"
proof -
  have c: "conds s2 c = conds s c @ [t]" and w: "waiters (semas s2 (WaiterSema t)) = []"
    using release_keeps_waiters[OF assms(1), of t] assms(2,3) by (simp_all add: sema_init_def)
  have "conds s2 c \<noteq> []" using c by simp
  then obtain a as where a: "conds s2 c = a # as" unfolding neq_Nil_conv by blast
  have "t \<in> set (a # as)" using c unfolding a[symmetric] by simp
  then have "best_elem s2 a (a # as) = Inl (Panic ''list_front'')" using best_elem_empty w by blast
  then show ?thesis using assms(4,5) by (simp add: cond_signal_def a del: best_elem.simps)
qed

theorem cond_signal_panics_witness:
  "\<exists>ps s1 s2. lock_release ((sema_init (upd_lock all_locks_free 0 (\<lambda>k. k\<lparr>holder := Some 10\<rparr>)) (WaiterSema 10) 0)
      \<lparr>conds := (\<lambda>_. [])(0 := [10])\<rparr>) 0 = Inr (ps, s1) \<and> cond_signal s2 0 0 = Inl (Panic ''list_front'')"
proof -
  let ?s = "upd_lock all_locks_free 0 (\<lambda>k. k\<lparr>holder := Some 10\<rparr>)"
  let ?w = "(sema_init ?s (WaiterSema 10) 0)\<lparr>conds := (conds ?s)(0 := conds ?s 0 @ [10])\<rparr>"
  have f: "conds ?s = (\<lambda>_. [])" "running ?w = 10" "intr_context ?w = False" "donated (locks ?w 0) = False"
    "waiters (semas ?w (LockSema 0)) = []" "holder (locks ?w 0) = Some 10"
    by (simp_all add: upd_lock_def all_locks_free_def boot_fields sema_init_def upd_sema_def)
  have ok: "sched_ok ?w" using all_locks_free_ok(2) by (simp add: upd_lock_def sema_init_def upd_sema_def)
  define s1 where "s1 = upd_sema (upd_lock ?w 0 (\<lambda>k. k\<lparr>holder := None\<rparr>)) (LockSema 0)
     (\<lambda>m. m\<lparr>sema_value := (sema_value m + 1) mod 2 ^ 32\<rparr>)"
  have r: "lock_release ?w 0 = Inr ([], s1)"
    using thread_current_ok[OF ok] f
    by (simp add: lock_release_def lock_held_by_current_thread_def Let_def sema_up_def s1_def upd_lock_def upd_sema_def)
  define s2 where "s2 = upd_lock s1 0 (\<lambda>k. k\<lparr>holder := Some 10\<rparr>)"
  have "sched_ok s2" using ok by (simp add: s2_def s1_def upd_lock_def)
  then have h: "lock_held_by_current_thread s2 0 = Inr True"
    using f(2) by (simp add: lock_held_by_current_thread_def s2_def s1_def upd_lock_def)
  have "cond_signal s2 0 0 = Inl (Panic ''list_front'')"
    by (rule cond_signal_panics[OF r _ _ _ h]) (use f(3) in \<open>simp_all add: s2_def s1_def upd_lock_def\<close>)
  then show ?thesis using r f(1) by auto
qed

end
