(* ===== verification/Inode.thy ===== *)
theory Inode
  imports Block_Dev Kbitmap "HOL-Library.Sublist"
begin

text \<open>
  The inode layer of \<open>filesys/inode.c\<close> and the free map of \<open>filesys/free-map.c\<close>: multi-level
  index files that grow on demand, open inodes, reads and writes at an offset, deletion.

  The state holds the sectors of the device as they are seen through the buffer cache
  (\<open>Buffer_Cache\<close> shows that the cache is transparent while no block is marked deleted), the
  set of sectors whose cached block carries the mark of \<open>cache_mark_deleted\<close>, the free map, and
  the open inodes by address. A sector is its 512 bytes; \<open>struct inode_disk\<close> and \<open>struct index_block\<close> are arrays
  of 128 words laid over them: words 0 to 122 of an inode are the direct blocks, then
  \<open>indirect\<close>, \<open>indirect_two\<close>, \<open>length\<close>, \<open>is_dir\<close> and \<open>magic\<close>. The file that backs the free map is
  kept as its contents; its own sectors are allocated when it is created and never change.
  Operations are sequential: a lock that is already held when it is acquired again by the
  same thread is the assertion failure of \<open>lock_acquire\<close>.
\<close>

section \<open>State\<close>

abbreviation NDIRECT :: nat where "NDIRECT \<equiv> 123"
abbreviation INDEX_SIZE :: nat where "INDEX_SIZE \<equiv> 128"
abbreviation INODE_MAGIC :: "32 word" where "INODE_MAGIC \<equiv> 0x494e4f44"

record inode =
  i_sector :: block_sector_t
  i_locked :: bool
  open_cnt :: int
  removed :: bool
  i_is_dir :: bool
  i_dirty :: bool
  deny_write_cnt :: int
  i_length :: int

record fs =
  disk :: "block_sector_t \<Rightarrow> u8 list"
  dsize :: block_sector_t
  fmap :: bitmap
  map_file :: "u8 list option"
  map_writable :: bool
  init_complete :: bool
  inodes :: "nat \<Rightarrow> inode option"
  open_inodes :: "nat list"
  marked :: "block_sector_t set"

subsection \<open>Words of a sector\<close>

definition wget :: "u8 list \<Rightarrow> nat \<Rightarrow> 32 word" where
  "wget d i = le_word (d ! (4 * i)) (d ! (4 * i + 1)) (d ! (4 * i + 2)) (d ! (4 * i + 3))"

definition wset :: "u8 list \<Rightarrow> nat \<Rightarrow> 32 word \<Rightarrow> u8 list" where
  "wset d i w = take (4 * i) d @ le_bytes w @ drop (4 * i + 4) d"

text \<open>\<open>cache_get_block\<close>, \<open>cache_read_block\<close> and \<open>cache_put_block\<close> of a sector.\<close>

definition get_sector :: "fs \<Rightarrow> block_sector_t \<Rightarrow> u8 list res" where
  "get_sector s n = (if n < dsize s then Inr (disk s n) else Inl (Panic ''check_sector''))"

definition put_sector :: "fs \<Rightarrow> block_sector_t \<Rightarrow> u8 list \<Rightarrow> fs" where
  "put_sector s n d = s\<lparr>disk := (disk s)(n := d)\<rparr>"

text \<open>
  \<open>cache_mark_deleted\<close> on the block of a sector. The cache never writes such a block back
  (\<open>cache.c:86\<close>): when its slot is taken for another sector, what the cache held is lost and the
  sector has again the contents of the device. The mark goes with the slot.
\<close>

definition mark_deleted :: "fs \<Rightarrow> block_sector_t \<Rightarrow> fs" where
  "mark_deleted s n = s\<lparr>marked := insert n (marked s)\<rparr>"

definition lose_sector :: "fs \<Rightarrow> block_sector_t \<Rightarrow> u8 list \<Rightarrow> fs" where
  "lose_sector s n d = s\<lparr>disk := (disk s)(n := d), marked := marked s - {n}\<rparr>"

section \<open>The free map\<close>

text \<open>\<open>bitmap_write (free_map, free_map_file)\<close>.\<close>

definition write_map :: "fs \<Rightarrow> bool \<times> fs" where
  "write_map s = (if map_writable s then (True, s\<lparr>map_file := Some (bitmap_bytes (fmap s))\<rparr>) else (False, s))"

definition free_map_allocate :: "fs \<Rightarrow> size_t \<Rightarrow> (block_sector_t option \<times> fs) res" where
  "free_map_allocate s cnt =
     asrt ''free_map_allocate'' (cnt = 1) (
     bnd (bitmap_scan_and_flip (fmap s) 0 cnt False) (\<lambda>(sector, b).
     let s = s\<lparr>fmap := b\<rparr>
     in if init_complete s \<and> sector \<noteq> BITMAP_ERROR \<and> map_file s \<noteq> None
        then let (ok, s) = write_map s
             in if ok then Inr (Some sector, s)
                else bnd (bitmap_set_multiple (fmap s) sector cnt False) (\<lambda>b. Inr (None, s\<lparr>fmap := b\<rparr>))
        else Inr (if sector \<noteq> BITMAP_ERROR then Some sector else None, s)))"

definition free_map_release :: "fs \<Rightarrow> block_sector_t \<Rightarrow> size_t \<Rightarrow> fs res" where
  "free_map_release s sector cnt =
     bnd (bitmap_all (fmap s) sector cnt) (\<lambda>a.
     asrt ''free_map_release'' a (
     bnd (bitmap_set_multiple (fmap s) sector cnt False) (\<lambda>b.
     let s = s\<lparr>fmap := b\<rparr>
     in if map_file s = None then Inl (Fault ''free map file'') else Inr (snd (write_map s)))))"

definition free_map_flush :: "fs \<Rightarrow> (bool \<times> fs) res" where
  "free_map_flush s =
     (if map_file s = None then Inl (Panic ''free_map_flush'')
      else let (ok, s) = write_map s in if ok then Inr (True, s) else Inl (Panic ''free_map_flush''))"

section \<open>Translation of block numbers\<close>

definition expand_by_one :: "fs \<Rightarrow> (block_sector_t \<times> fs) res" where
  "expand_by_one s =
     bnd (free_map_allocate s 1) (\<lambda>(r, s).
     case r of
       None \<Rightarrow> Inr (0, s)
     | Some sector \<Rightarrow> Inr (sector, put_sector s sector (replicate 512 0)))"

text \<open>
  The step that \<open>MLI_translate\<close> makes in the inode and in each index block: read an entry of
  the sector \<open>n\<close>; if it is empty, allocate a sector and store its number. The index is not
  checked against the size of the block.
\<close>

definition index_entry :: "fs \<Rightarrow> block_sector_t \<Rightarrow> nat \<Rightarrow> (block_sector_t \<times> fs) res" where
  "index_entry s n i =
     bnd (get_sector s n) (\<lambda>d.
     if i \<ge> INDEX_SIZE then Inl (Fault ''index block'')
     else if wget d i = 0
     then bnd (expand_by_one s) (\<lambda>(w, s). Inr (w, put_sector s n (wset (disk s n) i w)))
     else Inr (wget d i, s))"

definition MLI_translate :: "fs \<Rightarrow> block_sector_t \<Rightarrow> 32 word \<Rightarrow> (block_sector_t \<times> fs) res" where
  "MLI_translate s sector blockno =
     (if unat blockno < NDIRECT then index_entry s sector (unat blockno)
      else if unat blockno < NDIRECT + INDEX_SIZE
      then bnd (index_entry s sector NDIRECT) (\<lambda>(indirect, s).
           if indirect = 0 then Inr (0, s)
           else index_entry s indirect (unat blockno - NDIRECT))
      else let b = unat blockno - NDIRECT - INDEX_SIZE;
               di_block_no = b div INDEX_SIZE;
               di_offset = b mod INDEX_SIZE
           in bnd (index_entry s sector (NDIRECT + 1)) (\<lambda>(id_two, s).
              if id_two = 0 then Inr (0, s)
              else bnd (index_entry s id_two di_block_no) (\<lambda>(second, s).
                   if second = 0 then Inr (0, s)
                   else index_entry s second di_offset)))"

definition byte_to_sector :: "fs \<Rightarrow> block_sector_t \<Rightarrow> int \<Rightarrow> (block_sector_t \<times> fs) res" where
  "byte_to_sector s sector pos = MLI_translate s sector (word_of_int (cdiv pos 512))"

section \<open>Open inodes\<close>

definition ino :: "fs \<Rightarrow> nat \<Rightarrow> inode" where
  "ino s a = the (inodes s a)"

definition upd_inode :: "fs \<Rightarrow> nat \<Rightarrow> (inode \<Rightarrow> inode) \<Rightarrow> fs" where
  "upd_inode s a f = s\<lparr>inodes := (inodes s)(a := map_option f (inodes s a))\<rparr>"

definition inode_lock :: "fs \<Rightarrow> nat \<Rightarrow> fs res" where
  "inode_lock s a = asrt ''lock_acquire'' (\<not> i_locked (ino s a)) (Inr (upd_inode s a (\<lambda>x. x\<lparr>i_locked := True\<rparr>)))"

definition inode_release :: "fs \<Rightarrow> nat \<Rightarrow> fs res" where
  "inode_release s a = asrt ''lock_release'' (i_locked (ino s a)) (Inr (upd_inode s a (\<lambda>x. x\<lparr>i_locked := False\<rparr>)))"

definition inode_is_dir :: "fs \<Rightarrow> nat \<Rightarrow> bool" where
  "inode_is_dir s a = i_is_dir (ino s a)"

definition inode_get_inumber :: "fs \<Rightarrow> nat \<Rightarrow> block_sector_t" where
  "inode_get_inumber s a = i_sector (ino s a)"

definition inode_open_count :: "fs \<Rightarrow> nat \<Rightarrow> int" where
  "inode_open_count s a = open_cnt (ino s a)"

text \<open>The lock of a file's inode is taken and released around the read of its length.\<close>

definition inode_length :: "fs \<Rightarrow> nat \<Rightarrow> int res" where
  "inode_length s a = asrt ''lock_acquire'' (i_is_dir (ino s a) \<or> \<not> i_locked (ino s a)) (Inr (i_length (ino s a)))"

section \<open>Reading and writing\<close>

function read_loop :: "fs \<Rightarrow> nat \<Rightarrow> int \<Rightarrow> int \<Rightarrow> u8 list \<Rightarrow> (u8 list \<times> fs) res" where
  "read_loop s a sz offset acc =
     (if sz \<le> 0 then Inr (acc, s)
      else bnd (inode_length s a) (\<lambda>len.
           if len - offset \<le> 0 then Inr (acc, s)
           else bnd (byte_to_sector s (i_sector (ino s a)) offset) (\<lambda>(sector_idx, s).
                let sector_ofs = cmod offset 512;
                    inode_left = len - offset;
                    sector_left = 512 - sector_ofs;
                    min_left = (if inode_left < sector_left then inode_left else sector_left);
                    chunk_size = (if sz < min_left then sz else min_left)
                in if chunk_size \<le> 0 then Inr (acc, s)
                   else bnd (get_sector s sector_idx) (\<lambda>d.
                        read_loop s a (sz - chunk_size) (offset + chunk_size)
                          (acc @ take (nat chunk_size) (drop (nat sector_ofs) d))))))"
  by pat_completeness auto
termination
  by (relation "measure (\<lambda>(s, a, sz, offset, acc). nat sz)") (auto simp: Let_def)

declare read_loop.simps [simp del]

definition inode_read_at :: "fs \<Rightarrow> nat \<Rightarrow> int \<Rightarrow> int \<Rightarrow> (u8 list \<times> fs) res" where
  "inode_read_at s a sz offset = read_loop s a sz offset []"

text \<open>\<open>memcpy\<close> into a sector.\<close>

definition overwrite :: "'a list \<Rightarrow> nat \<Rightarrow> 'a list \<Rightarrow> 'a list" where
  "overwrite d i xs = take i d @ xs @ drop (i + length xs) d"

function write_loop :: "fs \<Rightarrow> nat \<Rightarrow> u8 list \<Rightarrow> int \<Rightarrow> int \<Rightarrow> int \<Rightarrow> (int \<times> int \<times> int \<times> fs) res" where
  "write_loop s a buf sz offset bytes_written =
     (if sz \<le> 0 then Inr (bytes_written, sz, offset, s)
      else bnd (byte_to_sector s (i_sector (ino s a)) offset) (\<lambda>(sector_idx, s).
           if sector_idx = 0 then Inr (bytes_written, sz, offset, s)
           else let sector_ofs = cmod offset 512;
                    min_left = 512 - sector_ofs;
                    chunk_size = (if sz < min_left then sz else min_left)
                in if chunk_size \<le> 0 then Inr (bytes_written, sz, offset, s)
                   else bnd (get_sector s sector_idx) (\<lambda>d.
                        let s = put_sector s sector_idx (overwrite d (nat sector_ofs)
                                  (take (nat chunk_size) (drop (nat bytes_written) buf)))
                        in write_loop s a buf (sz - chunk_size) (offset + chunk_size)
                             (bytes_written + chunk_size))))"
  by pat_completeness auto
termination
  by (relation "measure (\<lambda>(s, a, buf, sz, offset, n). nat sz)") (auto simp: Let_def)

declare write_loop.simps [simp del]

definition inode_write_at :: "fs \<Rightarrow> nat \<Rightarrow> u8 list \<Rightarrow> int \<Rightarrow> int \<Rightarrow> (int \<times> fs) res" where
  "inode_write_at s a buf sz offset =
     (if deny_write_cnt (ino s a) \<noteq> 0 then Inr (0, s)
      else bnd (write_loop s a buf sz offset 0) (\<lambda>(bytes_written, sz, offset, s).
           asrt ''lock_acquire'' (i_is_dir (ino s a) \<or> \<not> i_locked (ino s a)) (
           Inr (bytes_written,
                if i_length (ino s a) < sz + offset
                then upd_inode s a (\<lambda>x. x\<lparr>i_dirty := True, i_length := sz + offset\<rparr>) else s))))"

section \<open>Opening, creating, closing, removing\<close>

fun find_open :: "fs \<Rightarrow> nat list \<Rightarrow> block_sector_t \<Rightarrow> nat option" where
  "find_open s [] sector = None"
| "find_open s (a # as) sector = (if i_sector (ino s a) = sector then Some a else find_open s as sector)"

definition inode_reopen :: "fs \<Rightarrow> nat \<Rightarrow> fs" where
  "inode_reopen s a = upd_inode s a (\<lambda>x. x\<lparr>open_cnt := open_cnt x + 1\<rparr>)"

text \<open>\<open>mem\<close> is the result of \<open>malloc\<close>.\<close>

definition inode_open :: "fs \<Rightarrow> block_sector_t \<Rightarrow> nat option \<Rightarrow> (nat option \<times> fs) res" where
  "inode_open s sector mem =
     (case find_open s (open_inodes s) sector of
        Some a \<Rightarrow> Inr (Some a, inode_reopen s a)
      | None \<Rightarrow>
          case mem of
            None \<Rightarrow> Inr (None, s)
          | Some a \<Rightarrow>
              bnd (get_sector s sector) (\<lambda>d.
              Inr (Some a, s\<lparr>open_inodes := a # open_inodes s,
                inodes := (inodes s)(a \<mapsto> \<lparr>i_sector = sector, i_locked = False, open_cnt = 1, removed = False,
                  i_is_dir = (d ! 504 \<noteq> 0), i_dirty = False, deny_write_cnt = 0,
                  i_length = sint (wget d 125)\<rparr>)\<rparr>)))"

text \<open>The loops of \<open>inode_free_data\<close> release every entry of a block that is not empty.\<close>

fun release_loop :: "fs \<Rightarrow> block_sector_t list \<Rightarrow> fs res" where
  "release_loop s [] = Inr s"
| "release_loop s (w # ws) = bnd (if w \<noteq> 0 then free_map_release s w 1 else Inr s) (\<lambda>s. release_loop s ws)"

definition entries :: "u8 list \<Rightarrow> nat \<Rightarrow> block_sector_t list" where
  "entries d n = map (wget d) [0..<n]"

fun release_inner :: "fs \<Rightarrow> block_sector_t list \<Rightarrow> fs res" where
  "release_inner s [] = Inr s"
| "release_inner s (w # ws) =
     bnd (if w \<noteq> 0
          then bnd (get_sector s w) (\<lambda>d.
               bnd (release_loop s (entries d INDEX_SIZE)) (\<lambda>s. Inr (mark_deleted s w)))
          else Inr s) (\<lambda>s.
     release_inner s ws)"

definition inode_free_data :: "fs \<Rightarrow> nat \<Rightarrow> fs res" where
  "inode_free_data s a =
     bnd (get_sector s (i_sector (ino s a))) (\<lambda>d.
     bnd (release_loop s (entries d NDIRECT)) (\<lambda>s.
     let indirect = wget d NDIRECT; indirect_two = wget d (NDIRECT + 1);
         s = mark_deleted s (i_sector (ino s a))
     in bnd (if indirect \<noteq> 0
             then bnd (get_sector s indirect) (\<lambda>d.
                  bnd (release_loop s (entries d INDEX_SIZE)) (\<lambda>s.
                  bnd (free_map_release s indirect 1) (\<lambda>s. Inr (mark_deleted s indirect))))
             else Inr s) (\<lambda>s.
        if indirect_two \<noteq> 0
        then bnd (get_sector s indirect_two) (\<lambda>d.
             bnd (release_inner s (entries d INDEX_SIZE)) (\<lambda>s.
             bnd (free_map_release s indirect_two 1) (\<lambda>s. Inr (mark_deleted s indirect_two))))
        else Inr s)))"

definition inode_close :: "fs \<Rightarrow> nat option \<Rightarrow> fs res" where
  "inode_close s i =
     (case i of
        None \<Rightarrow> Inr s
      | Some a \<Rightarrow>
          bnd (if i_dirty (ino s a)
               then bnd (get_sector s (i_sector (ino s a))) (\<lambda>d.
                    Inr (upd_inode (put_sector s (i_sector (ino s a)) (wset d 125 (word_of_int (i_length (ino s a))))) a
                      (\<lambda>x. x\<lparr>i_dirty := False\<rparr>)))
               else Inr s) (\<lambda>s.
          let s = upd_inode s a (\<lambda>x. x\<lparr>open_cnt := open_cnt x - 1\<rparr>)
          in if open_cnt (ino s a) = 0
             then let s = s\<lparr>open_inodes := remove1 a (open_inodes s)\<rparr>
                  in bnd (if removed (ino s a)
                          then bnd (inode_free_data s a) (\<lambda>s. free_map_release s (i_sector (ino s a)) 1)
                          else Inr s) (\<lambda>s.
                     Inr (s\<lparr>inodes := (inodes s)(a := None)\<rparr>))
             else Inr s))"

definition inode_remove :: "fs \<Rightarrow> nat \<Rightarrow> fs" where
  "inode_remove s a = upd_inode s a (\<lambda>x. x\<lparr>removed := True\<rparr>)"

definition inode_deny_write :: "fs \<Rightarrow> nat \<Rightarrow> fs res" where
  "inode_deny_write s a =
     (let s = upd_inode s a (\<lambda>x. x\<lparr>deny_write_cnt := deny_write_cnt x + 1\<rparr>)
      in asrt ''inode_deny_write'' (deny_write_cnt (ino s a) \<le> open_cnt (ino s a)) (Inr s))"

definition inode_allow_write :: "fs \<Rightarrow> nat \<Rightarrow> fs res" where
  "inode_allow_write s a =
     asrt ''inode_allow_write'' (deny_write_cnt (ino s a) > 0) (
     asrt ''inode_allow_write'' (deny_write_cnt (ino s a) \<le> open_cnt (ino s a)) (
     Inr (upd_inode s a (\<lambda>x. x\<lparr>deny_write_cnt := deny_write_cnt x - 1\<rparr>))))"

text \<open>The bytes of a fresh \<open>struct inode_disk\<close>.\<close>

definition new_inode_disk :: "int \<Rightarrow> bool \<Rightarrow> u8 list" where
  "new_inode_disk len is_dir =
     wset (wset (wset (replicate 512 0) 125 (word_of_int len)) 126 (if is_dir then 1 else 0)) 127 INODE_MAGIC"

text \<open>\<open>mem\<close> says whether \<open>calloc\<close> succeeds and \<open>mem2\<close> is the result of \<open>malloc\<close> in \<open>inode_open\<close>.\<close>

definition inode_create :: "fs \<Rightarrow> block_sector_t \<Rightarrow> int \<Rightarrow> bool \<Rightarrow> bool \<Rightarrow> nat option \<Rightarrow> (bool \<times> fs) res" where
  "inode_create s sector len is_dir mem mem2 =
     asrt ''inode_create'' (len \<ge> 0) (
     let s = (if mem then put_sector s sector (new_inode_disk len is_dir) else s)
     in if len > 0
        then bnd (inode_open s sector mem2) (\<lambda>(i, s).
             case i of
               None \<Rightarrow> Inl (Fault ''inode'')
             | Some a \<Rightarrow>
                 bnd (inode_write_at s a [0] 1 (len - 1)) (\<lambda>(_, s).
                 bnd (inode_close s (Some a)) (\<lambda>s. Inr (mem, s))))
        else Inr (mem, s))"

section \<open>Words over bytes\<close>

lemma nth_wset:
  assumes "4 * i + 4 \<le> length d"
  shows "wset d i w ! k = (if 4 * i \<le> k \<and> k < 4 * i + 4 then le_bytes w ! (k - 4 * i) else d ! k)"
  using assms by (auto simp: wset_def nth_append min_def)

lemma length_wset: "4 * i + 4 \<le> length d \<Longrightarrow> length (wset d i w) = length d"
  by (simp add: wset_def)

lemma le_bytes_nth [simp]:
  "le_bytes w ! 0 = ucast w" "le_bytes w ! Suc 0 = ucast (drop_bit 8 w)"
  "le_bytes w ! 2 = ucast (drop_bit 16 w)" "le_bytes w ! 3 = ucast (drop_bit 24 w)"
  by (simp_all add: le_bytes_def numeral_2_eq_2 numeral_3_eq_3)

lemma wget_wset:
  assumes "length d = 512" and "i < 128" and "j < 128"
  shows "wget (wset d i w) j = (if i = j then w else wget d j)"
proof (cases "i = j")
  case True
  then show ?thesis using assms by (simp add: wget_def nth_wset le_word_le_bytes)
next
  case False
  then have n: "\<not> (4 * i \<le> 4 * j + c \<and> 4 * j + c < 4 * i + 4)" if "c < 4" for c using that by linarith
  have e: "wset d i w ! (4 * j + c) = d ! (4 * j + c)" if "c < 4" for c
    by (subst nth_wset) (use n[OF that] assms in auto)
  show ?thesis using False e[of 0] e[of 1] e[of 2] e[of 3] by (simp add: wget_def)
qed

lemma wget_zero [simp]: "i < 128 \<Longrightarrow> wget (replicate 512 0) i = 0"
  by (simp add: wget_def le_word_def)

lemma le_bytes_le_word: "le_bytes (le_word a b c d) = [a, b, c, d]"
  unfolding le_bytes_def le_word_def
  by (simp, intro conjI; rule bit_word_eqI; auto simp: bit_simps dest: bit_imp_le_length)

lemma wset_same:
  assumes "length d = 512" and "i < 128"
  shows "wset d i (wget d i) = d"
proof (rule nth_equalityI)
  show "length (wset d i (wget d i)) = length d" using assms by (simp add: length_wset)
  fix k assume "k < length (wset d i (wget d i))"
  have "le_bytes (wget d i) ! (k - 4 * i) = d ! k" if "4 * i \<le> k" "k < 4 * i + 4"
  proof -
    define c where "c = k - 4 * i"
    have c: "k = 4 * i + c" "c < 4" using that by (simp_all add: c_def)
    then consider "c = 0" | "c = 1" | "c = 2" | "c = 3" by linarith
    then have "[d ! (4 * i), d ! (4 * i + 1), d ! (4 * i + 2), d ! (4 * i + 3)] ! c = d ! (4 * i + c)"
      by cases (simp_all add: numeral_2_eq_2 numeral_3_eq_3)
    then show ?thesis using c(1) by (simp add: wget_def le_bytes_le_word)
  qed
  then show "wset d i (wget d i) ! k = d ! k" using assms by (simp add: nth_wset)
qed

section \<open>The index tree\<close>

text \<open>
  The path of a block number through the index blocks, and the sector that a path leads to
  (0 when an entry on the way is empty).
\<close>

abbreviation MAX_BLOCKS :: nat where "MAX_BLOCKS \<equiv> 16635"

definition path :: "nat \<Rightarrow> nat list" where
  "path b = (if b < 123 then [b] else if b < 251 then [123, b - 123]
     else [124, (b - 251) div 128, (b - 251) mod 128])"

fun follow :: "(block_sector_t \<Rightarrow> u8 list) \<Rightarrow> block_sector_t \<Rightarrow> nat list \<Rightarrow> block_sector_t" where
  "follow D n [] = n"
| "follow D n (i # is) = (if wget (D n) i = 0 then 0 else follow D (wget (D n) i) is)"

text \<open>The beginnings of paths: the places in the tree.\<close>

definition places :: "nat list set" where
  "places = {\<rho>. \<exists>b < MAX_BLOCKS. prefix \<rho> (path b)}"

lemma follow_snoc:
  "n \<noteq> 0 \<Longrightarrow> follow D n (\<rho> @ [j]) = (if follow D n \<rho> = 0 then 0 else wget (D (follow D n \<rho>)) j)"
  by (induction \<rho> arbitrary: n) auto

lemma follow_append_zero: "follow D n \<rho> = 0 \<Longrightarrow> n \<noteq> 0 \<Longrightarrow> follow D n (\<rho> @ \<sigma>) = 0"
  by (induction \<sigma> rule: rev_induct) (simp_all add: follow_snoc append_assoc[symmetric] del: append_assoc)

lemma places_snoc: "\<rho> @ [j] \<in> places \<Longrightarrow> \<rho> \<in> places"
  unfolding places_def using append_prefixD by blast

lemma places_append: "\<rho> @ \<sigma> \<in> places \<Longrightarrow> \<rho> \<in> places"
  unfolding places_def using append_prefixD by blast

lemma path_places: "b < MAX_BLOCKS \<Longrightarrow> path b \<in> places"
  by (auto simp: places_def)

lemma path_index: "b < MAX_BLOCKS \<Longrightarrow> j \<in> set (path b) \<Longrightarrow> j < 128"
  by (auto simp: path_def split: if_splits)

lemma places_index: "\<rho> @ j # \<sigma> \<in> places \<Longrightarrow> j < 128"
  unfolding places_def using path_index set_mono_prefix by (fastforce)

lemma path_inj: "path b = path c \<Longrightarrow> b = c"
proof -
  assume p: "path b = path c"
  have "b < 123 \<longleftrightarrow> length (path b) = 1" "b < 251 \<longleftrightarrow> length (path b) \<le> 2" for b
    by (auto simp: path_def)
  then have "b < 123 \<longleftrightarrow> c < 123" "b < 251 \<longleftrightarrow> c < 251" using p by metis+
  moreover have "b - 251 = c - 251" if "\<not> b < 251" "\<not> c < 251"
    using p that by (simp add: path_def) (metis div_mult_mod_eq)
  ultimately show "b = c" using p by (cases "b < 123"; cases "b < 251") (auto simp: path_def)
qed

lemma places_root: "[i] \<in> places \<Longrightarrow> i < 125"
  by (auto simp: places_def path_def prefix_def split: if_splits)

lemma Nil_places [simp]: "[] \<in> places"
  using path_places[of 0] places_append[of "[]" "path 0"] by simp

lemma path_Nil [simp]: "path b \<noteq> []"
  by (simp add: path_def)

lemma path_leaf: "path b @ [i] \<notin> places"
proof
  assume "path b @ [i] \<in> places"
  then obtain c where c: "prefix (path b @ [i]) (path c)" by (auto simp: places_def)
  then show False by (auto simp: path_def prefix_def split: if_splits)
qed

definition tree_ok :: "block_sector_t set \<Rightarrow> (block_sector_t \<Rightarrow> u8 list) \<Rightarrow> block_sector_t \<Rightarrow> bool" where
  "tree_ok U D n \<longleftrightarrow> n \<noteq> 0 \<and> (\<forall>\<rho> \<in> places. follow D n \<rho> \<noteq> 0 \<longrightarrow> follow D n \<rho> \<in> U) \<and>
     (\<forall>\<rho> \<in> places. \<forall>\<sigma> \<in> places. follow D n \<rho> \<noteq> 0 \<and> follow D n \<rho> = follow D n \<sigma> \<longrightarrow> \<rho> = \<sigma>)"

lemma tree_root: "tree_ok U D n \<Longrightarrow> n \<in> U"
  using Nil_places unfolding tree_ok_def by (metis follow.simps(1))

lemma tree_at_root: "tree_ok U D n \<Longrightarrow> \<rho> \<in> places \<Longrightarrow> follow D n \<rho> = n \<Longrightarrow> \<rho> = []"
  using Nil_places unfolding tree_ok_def by (metis follow.simps(1))

text \<open>Filling an empty entry with a fresh zeroed sector adds one place and nothing else.\<close>

lemma follow_grow:
  assumes ok: "tree_ok U D n" and len: "\<And>x. length (D x) = 512"
    and \<pi>: "\<pi> @ [i] \<in> places" and m: "m = follow D n \<pi>" "m \<noteq> 0" "wget (D m) i = 0"
    and w: "w \<notin> U" "w \<noteq> 0" and \<rho>: "\<rho> \<in> places"
  defines "D' \<equiv> D(w := replicate 512 0, m := wset (D m) i w)"
  shows "follow D' n \<rho> = (if \<rho> = \<pi> @ [i] then w else if strict_prefix (\<pi> @ [i]) \<rho> then 0 else follow D n \<rho>)"
  using \<rho>
proof (induction \<rho> rule: rev_induct)
  case Nil
  then show ?case by simp
next
  case (snoc j \<rho>)
  have n: "n \<noteq> 0" and i: "i < 128" and j: "j < 128"
    using ok places_index[of \<pi> i "[]"] places_index[of \<rho> j "[]"] \<pi> snoc.prems by (simp_all add: tree_ok_def)
  have \<rho>p: "\<rho> \<in> places" and \<pi>p: "\<pi> \<in> places" using snoc.prems \<pi> places_snoc by blast+
  have mU: "m \<in> U" using ok \<pi>p m(1,2) by (auto simp: tree_ok_def)
  then have mw: "m \<noteq> w" using w by auto
  note IH = snoc.IH[OF \<rho>p]
  have sp: "strict_prefix (\<pi> @ [i]) (\<rho> @ [j]) \<longleftrightarrow> prefix (\<pi> @ [i]) \<rho>"
    by (auto simp: strict_prefix_def)
  show ?case
  proof (cases "prefix (\<pi> @ [i]) \<rho>")
    case True
    then have "\<rho> @ [j] \<noteq> \<pi> @ [i]" by (auto simp: prefix_def)
    moreover have "follow D' n (\<rho> @ [j]) = 0"
    proof (cases "\<rho> = \<pi> @ [i]")
      case True
      then have "follow D' n \<rho> = w" using IH by simp
      then show ?thesis using n w(2) mw j by (simp add: follow_snoc D'_def)
    next
      case False
      then have "follow D' n \<rho> = 0" using IH True by (simp add: strict_prefix_def)
      then show ?thesis using n by (simp add: follow_snoc)
    qed
    ultimately show ?thesis using True sp by auto
  next
    case False
    then have e: "follow D' n \<rho> = follow D n \<rho>" using IH by (auto simp: strict_prefix_def)
    let ?x = "follow D n \<rho>"
    have inj: "?x = m \<Longrightarrow> \<rho> = \<pi>" using ok \<rho>p \<pi>p m(1,2) by (auto simp: tree_ok_def)
    have eqs: "\<rho> @ [j] = \<pi> @ [i] \<longleftrightarrow> \<rho> = \<pi> \<and> j = i" by simp
    show ?thesis
    proof (cases "?x = 0")
      case True
      then have "\<rho> \<noteq> \<pi>" using m by auto
      then show ?thesis using True e n False sp by (simp add: follow_snoc)
    next
      case x0: False
      then have xw: "?x \<noteq> w" using ok \<rho>p w(1) by (auto simp: tree_ok_def)
      have "wget (D' ?x) j = (if ?x = m \<and> j = i then w else wget (D ?x) j)"
        using xw wget_wset[OF len i j, of m w] by (auto simp: D'_def)
      moreover have "?x = m \<longleftrightarrow> \<rho> = \<pi>" using inj m(1) by auto
      ultimately show ?thesis using x0 e n False sp eqs by (auto simp: follow_snoc)
    qed
  qed
qed

lemma tree_grow:
  assumes ok: "tree_ok U D n" and len: "\<And>x. length (D x) = 512"
    and \<pi>: "\<pi> @ [i] \<in> places" and m: "m = follow D n \<pi>" "m \<noteq> 0" "wget (D m) i = 0"
    and w: "w \<notin> U" "w \<noteq> 0"
  defines "D' \<equiv> D(w := replicate 512 0, m := wset (D m) i w)"
  shows "tree_ok (insert w U) D' n"
proof -
  note g = follow_grow[OF ok len \<pi> m w, folded D'_def]
  have n: "n \<noteq> 0" using ok by (simp add: tree_ok_def)
  have "follow D' n \<rho> \<in> insert w U" if "\<rho> \<in> places" "follow D' n \<rho> \<noteq> 0" for \<rho>
    using g[OF that(1)] that ok by (auto simp: tree_ok_def split: if_splits)
  moreover have "\<rho> = \<sigma>" if \<rho>: "\<rho> \<in> places" and \<sigma>: "\<sigma> \<in> places" and nz: "follow D' n \<rho> \<noteq> 0"
    and eq: "follow D' n \<rho> = follow D' n \<sigma>" for \<rho> \<sigma>
  proof -
    have fr: "follow D n \<tau> \<noteq> w" if "\<tau> \<in> places" for \<tau> using ok that w by (auto simp: tree_ok_def)
    show ?thesis
    proof (cases "\<rho> = \<pi> @ [i] \<or> \<sigma> = \<pi> @ [i]")
      case True
      then show ?thesis using g[OF \<rho>] g[OF \<sigma>] eq nz fr \<rho> \<sigma> w(2) by (auto split: if_splits)
    next
      case False
      then have "follow D n \<rho> = follow D n \<sigma>" "follow D n \<rho> \<noteq> 0"
        using g[OF \<rho>] g[OF \<sigma>] eq nz by (auto split: if_splits)
      then show ?thesis using ok \<rho> \<sigma> by (auto simp: tree_ok_def)
    qed
  qed
  ultimately show ?thesis using n unfolding tree_ok_def by blast
qed

section \<open>Contents of a file\<close>

text \<open>The 512 bytes of a block; a block that has no sector reads as zeros.\<close>

definition block_data :: "(block_sector_t \<Rightarrow> u8 list) \<Rightarrow> block_sector_t \<Rightarrow> nat \<Rightarrow> u8 list" where
  "block_data D n b = (if follow D n (path b) = 0 then replicate 512 0 else D (follow D n (path b)))"

definition file_byte :: "(block_sector_t \<Rightarrow> u8 list) \<Rightarrow> block_sector_t \<Rightarrow> nat \<Rightarrow> u8" where
  "file_byte D n p = block_data D n (p div 512) ! (p mod 512)"

text \<open>The sectors of the tree.\<close>

definition nodes :: "(block_sector_t \<Rightarrow> u8 list) \<Rightarrow> block_sector_t \<Rightarrow> block_sector_t set" where
  "nodes D n = {follow D n \<rho> | \<rho>. \<rho> \<in> places \<and> follow D n \<rho> \<noteq> 0}"

lemma data_grow:
  assumes ok: "tree_ok U D n" and len: "\<And>x. length (D x) = 512"
    and \<pi>: "\<pi> @ [i] \<in> places" and m: "m = follow D n \<pi>" "m \<noteq> 0" "wget (D m) i = 0"
    and w: "w \<notin> U" "w \<noteq> 0" and b: "b < MAX_BLOCKS"
  defines "D' \<equiv> D(w := replicate 512 0, m := wset (D m) i w)"
  shows "block_data D' n b = block_data D n b"
    and "follow D n (path b) \<noteq> 0 \<Longrightarrow> follow D' n (path b) = follow D n (path b)"
proof -
  let ?x = "follow D n (path b)"
  have n: "n \<noteq> 0" and \<pi>p: "\<pi> \<in> places" and bp: "path b \<in> places"
    using ok \<pi> places_snoc path_places[OF b] by (auto simp: tree_ok_def)
  note g = follow_grow[OF ok len \<pi> m w bp, folded D'_def]
  have mw: "m \<noteq> w" using ok \<pi>p m(1,2) w(1) by (auto simp: tree_ok_def)
  have hole: "follow D n (\<pi> @ [i]) = 0" using n m by (simp add: follow_snoc)
  have ext: "prefix (\<pi> @ [i]) (path b) \<Longrightarrow> ?x = 0" using follow_append_zero[OF hole n] by (auto simp: prefix_def)
  have "\<pi> \<noteq> path b" using \<pi> path_leaf by auto
  then have xm: "?x \<noteq> 0 \<Longrightarrow> ?x \<noteq> m" using ok \<pi>p bp m(1) by (auto simp: tree_ok_def)
  have xw: "?x \<noteq> 0 \<Longrightarrow> ?x \<noteq> w" using ok bp w(1) by (auto simp: tree_ok_def)
  show "?x \<noteq> 0 \<Longrightarrow> follow D' n (path b) = ?x" using g ext by (auto simp: strict_prefix_def split: if_splits)
  show "block_data D' n b = block_data D n b"
  proof (cases "prefix (\<pi> @ [i]) (path b)")
    case True
    then show ?thesis using g ext mw by (auto simp: block_data_def D'_def strict_prefix_def)
  next
    case False
    then have "follow D' n (path b) = ?x" using g by (auto simp: strict_prefix_def)
    then show ?thesis using xm xw by (auto simp: block_data_def D'_def)
  qed
qed

section \<open>Allocation\<close>

definition used :: "fs \<Rightarrow> block_sector_t set" where
  "used s = {x. unat x \<in> used_of (fmap s)}"

definition fs_ok :: "fs \<Rightarrow> bool" where
  "fs_ok s \<longleftrightarrow> wf_bitmap (fmap s) \<and> bit_cnt (fmap s) = dsize s \<and> 0 \<in> used s \<and>
     (\<forall>n. length (disk s n) = 512) \<and> map_writable s \<and> map_file s \<noteq> None"

text \<open>What allocation does not touch.\<close>

definition same_inodes :: "fs \<Rightarrow> fs \<Rightarrow> bool" where
  "same_inodes s s' \<longleftrightarrow> inodes s' = inodes s \<and> open_inodes s' = open_inodes s \<and> dsize s' = dsize s"

lemma same_inodes_refl [simp]: "same_inodes s s"
  by (simp add: same_inodes_def)

lemma same_inodes_trans: "same_inodes s s' \<Longrightarrow> same_inodes s' s'' \<Longrightarrow> same_inodes s s''"
  by (simp add: same_inodes_def)

lemma used_lt: "fs_ok s \<Longrightarrow> x \<in> used s \<Longrightarrow> x < dsize s"
  by (auto simp: fs_ok_def used_def used_of_def word_less_nat_alt)

definition full :: "fs \<Rightarrow> bool" where
  "full s \<longleftrightarrow> (\<forall>x < dsize s. x \<in> used s)"

lemma free_map_allocate_ok:
  assumes ok: "fs_ok s"
  shows "\<exists>r s'. free_map_allocate s 1 = Inr (r, s') \<and> fs_ok s' \<and> same_inodes s s' \<and> disk s' = disk s \<and>
    (case r of None \<Rightarrow> full s \<and> used s' = used s
     | Some x \<Rightarrow> x \<notin> used s \<and> x \<noteq> 0 \<and> x < dsize s \<and> used s' = insert x (used s))"
proof -
  have wf: "wf_bitmap (fmap s)" and cap: "bit_cnt (fmap s) = dsize s" and mw: "map_writable s"
    using ok by (simp_all add: fs_ok_def)
  have u1: "unat (1 :: size_t) = 1" by simp
  obtain r b where a: "bitmap_alloc (fmap s) 1 = Inr (r, b)" "wf_bitmap b"
    "unat (bit_cnt b) = unat (dsize s)" and
    r: "case r of None \<Rightarrow> b = fmap s \<and> (\<forall>i. i + 1 \<le> unat (dsize s) \<longrightarrow> {i..<i + 1} \<inter> used_of (fmap s) \<noteq> {})
      | Some i \<Rightarrow> i + 1 \<le> unat (dsize s) \<and> {i..<i + 1} \<inter> used_of (fmap s) = {} \<and>
          used_of b = used_of (fmap s) \<union> {i..<i + 1}"
    using bma.alloc_law[OF wf, of 1] unfolding u1 cap by auto
  from a(1) obtain idx where i: "bitmap_scan_and_flip (fmap s) 0 1 False = Inr (idx, b)"
    and ir: "r = (if idx = BITMAP_ERROR then None else Some (unat idx))"
    by (auto simp: bitmap_alloc_def res_iffs)
  have cb: "bit_cnt b = dsize s" using a(3) by (simp add: word_unat_eq_iff)
  define s1 where "s1 = s\<lparr>fmap := b\<rparr>"
  define s2 where "s2 = (if init_complete s \<and> idx \<noteq> BITMAP_ERROR \<and> map_file s \<noteq> None
     then s1\<lparr>map_file := Some (bitmap_bytes b)\<rparr> else s1)"
  have e: "free_map_allocate s 1 = Inr (if idx \<noteq> BITMAP_ERROR then Some idx else None, s2)"
    using i mw by (auto simp: free_map_allocate_def Let_def write_map_def s2_def s1_def)
  have f2: "fmap s2 = b" "disk s2 = disk s" "same_inodes s s2" "dsize s2 = dsize s" "map_writable s2" "map_file s2 \<noteq> None"
    using mw ok by (simp_all add: s2_def s1_def same_inodes_def fs_ok_def)
  show ?thesis
  proof (cases "idx = BITMAP_ERROR")
    case True
    then have b: "b = fmap s" and fl: "\<And>i. i < unat (dsize s) \<Longrightarrow> i \<in> used_of (fmap s)" using r ir by auto
    have "fs_ok s2" using ok f2 b by (simp add: fs_ok_def used_def)
    moreover have "full s" using fl by (simp add: full_def used_def word_less_nat_alt)
    ultimately show ?thesis using e True f2 b by (auto simp: used_def)
  next
    case False
    then have u: "unat idx < unat (dsize s)" "unat idx \<notin> used_of (fmap s)" "used_of b = insert (unat idx) (used_of (fmap s))"
      using r ir by auto
    have us: "used s2 = insert idx (used s)" using u(3) f2(1) by (auto simp: used_def word_unat_eq_iff)
    have "idx \<noteq> 0" using ok u(2) by (auto simp: fs_ok_def used_def)
    moreover have "fs_ok s2" using ok f2 a(2) cb us by (simp add: fs_ok_def)
    ultimately show ?thesis using e False f2 u us by (auto simp: used_def word_less_nat_alt)
  qed
qed

lemma expand_by_one_ok:
  assumes ok: "fs_ok s"
  shows "\<exists>w s'. expand_by_one s = Inr (w, s') \<and> fs_ok s' \<and> same_inodes s s' \<and>
    (if w = 0 then full s \<and> used s' = used s \<and> disk s' = disk s
     else w \<notin> used s \<and> used s' = insert w (used s) \<and> disk s' = (disk s)(w := replicate 512 0))"
proof -
  from free_map_allocate_ok[OF ok] obtain r s1 where a: "free_map_allocate s 1 = Inr (r, s1)" "fs_ok s1"
    "same_inodes s s1" "disk s1 = disk s" and
    r: "case r of None \<Rightarrow> full s \<and> used s1 = used s
     | Some x \<Rightarrow> x \<notin> used s \<and> x \<noteq> 0 \<and> x < dsize s \<and> used s1 = insert x (used s)" by blast
  show ?thesis
  proof (cases r)
    case None
    then show ?thesis using a r by (auto simp: expand_by_one_def)
  next
    case (Some x)
    then have "fs_ok (put_sector s1 x (replicate 512 0))" using a(2) by (simp add: put_sector_def fs_ok_def used_def)
    then show ?thesis using a r Some by (auto simp: expand_by_one_def put_sector_def used_def same_inodes_def)
  qed
qed

section \<open>Walking the tree\<close>

text \<open>The three cases of \<open>MLI_translate\<close> are one walk along the path of the block number.\<close>

fun walk :: "fs \<Rightarrow> block_sector_t \<Rightarrow> nat list \<Rightarrow> (block_sector_t \<times> fs) res" where
  "walk s n [] = Inr (n, s)"
| "walk s n (i # is) = bnd (index_entry s n i) (\<lambda>(w, s). if w = 0 then Inr (0, s) else walk s w is)"

lemma MLI_translate_walk: "MLI_translate s n b = walk s n (path (unat b))"
proof -
  have w1: "walk s n [i] = index_entry s n i" for s n i
    by (auto simp: bnd_def split: sum.splits if_splits)
  have w2: "walk s n [i, j] = bnd (index_entry s n i) (\<lambda>(w, s). if w = 0 then Inr (0, s) else index_entry s w j)" for s n i j
    by (subst walk.simps(2)) (simp only: w1)
  have w3: "walk s n [i, j, k] = bnd (index_entry s n i) (\<lambda>(w, s). if w = 0 then Inr (0, s) else
      bnd (index_entry s w j) (\<lambda>(w, s). if w = 0 then Inr (0, s) else index_entry s w k))" for s n i j k
    by (subst walk.simps(2)) (simp only: w2)
  show ?thesis by (simp add: MLI_translate_def path_def w1 w2 w3 Let_def diff_diff_left del: walk.simps)
qed

text \<open>What a step in the tree \<open>n\<close> may change.\<close>

definition grows :: "block_sector_t \<Rightarrow> fs \<Rightarrow> fs \<Rightarrow> bool" where
  "grows n s s' \<longleftrightarrow> fs_ok s' \<and> tree_ok (used s') (disk s') n \<and> used s \<subseteq> used s' \<and> same_inodes s s' \<and>
     (\<forall>b < MAX_BLOCKS. follow (disk s) n (path b) \<noteq> 0 \<longrightarrow> follow (disk s') n (path b) = follow (disk s) n (path b)) \<and>
     (\<forall>x \<in> used s - nodes (disk s) n. disk s' x = disk s x) \<and>
     nodes (disk s) n \<subseteq> nodes (disk s') n \<and> nodes (disk s') n \<inter> used s \<subseteq> nodes (disk s) n \<and>
     (\<forall>k \<in> {500..<512}. disk s' n ! k = disk s n ! k)"

definition extends :: "block_sector_t \<Rightarrow> fs \<Rightarrow> fs \<Rightarrow> bool" where
  "extends n s s' \<longleftrightarrow> grows n s s' \<and> (\<forall>b < MAX_BLOCKS. block_data (disk s') n b = block_data (disk s) n b)"

lemmas extends_defs = extends_def grows_def

lemma grows_refl: "fs_ok s \<Longrightarrow> tree_ok (used s) (disk s) n \<Longrightarrow> grows n s s"
  by (auto simp: grows_def)

lemma grows_trans: "grows n s s' \<Longrightarrow> grows n s' s'' \<Longrightarrow> grows n s s''"
proof -
  assume a: "grows n s s'" "grows n s' s''"
  have "disk s'' x = disk s x" if "x \<in> used s - nodes (disk s) n" for x
  proof -
    have "x \<in> used s' - nodes (disk s') n" "disk s' x = disk s x" using a(1) that unfolding grows_def by blast+
    then show ?thesis using a(2) unfolding grows_def by metis
  qed
  moreover have "nodes (disk s'') n \<inter> used s \<subseteq> nodes (disk s) n" "nodes (disk s) n \<subseteq> nodes (disk s'') n"
    "used s \<subseteq> used s''" using a unfolding grows_def by blast+
  moreover have "same_inodes s s''" using a same_inodes_trans by (auto simp: grows_def)
  moreover have "follow (disk s'') n (path b) = follow (disk s) n (path b)"
    if "b < MAX_BLOCKS" "follow (disk s) n (path b) \<noteq> 0" for b using a that by (simp add: grows_def)
  moreover have "fs_ok s''" "tree_ok (used s'') (disk s'') n" using a(2) by (simp_all add: grows_def)
  moreover have "\<forall>k \<in> {500..<512}. disk s'' n ! k = disk s n ! k" using a by (simp add: grows_def)
  ultimately show ?thesis unfolding grows_def by blast
qed

lemma extends_refl: "fs_ok s \<Longrightarrow> tree_ok (used s) (disk s) n \<Longrightarrow> extends n s s"
  by (simp add: extends_def grows_refl)

lemma extends_trans: "extends n s s' \<Longrightarrow> extends n s' s'' \<Longrightarrow> extends n s s''"
  by (auto simp: extends_def intro: grows_trans)

lemma index_entry_ok:
  assumes ok: "fs_ok s" "tree_ok (used s) (disk s) n" and \<pi>: "\<pi> @ [i] \<in> places"
    and m: "m = follow (disk s) n \<pi>" "m \<noteq> 0"
  shows "\<exists>w s'. index_entry s m i = Inr (w, s') \<and> extends n s s' \<and> w = follow (disk s') n (\<pi> @ [i]) \<and>
    follow (disk s') n \<pi> = m \<and> (w = 0 \<longrightarrow> full s)"
proof -
  have i: "i < 128" using places_index[of \<pi> i "[]"] \<pi> by simp
  have n: "n \<noteq> 0" and \<pi>p: "\<pi> \<in> places" using ok(2) places_snoc[OF \<pi>] by (auto simp: tree_ok_def)
  have mU: "m \<in> used s" using ok(2) \<pi>p m by (auto simp: tree_ok_def)
  have len: "\<And>x. length (disk s x) = 512" using ok(1) by (simp add: fs_ok_def)
  have gm: "get_sector s m = Inr (disk s m)" using used_lt[OF ok(1) mU] by (simp add: get_sector_def)
  show ?thesis
  proof (cases "wget (disk s m) i = 0")
    case False
    then have "index_entry s m i = Inr (wget (disk s m) i, s)" using gm i by (simp add: index_entry_def)
    then show ?thesis using False extends_refl[OF ok] n m by (simp add: follow_snoc)
  next
    case hole: True
    from expand_by_one_ok[OF ok(1)] obtain w s1 where e: "expand_by_one s = Inr (w, s1)" "fs_ok s1" "same_inodes s s1"
      and r: "if w = 0 then full s \<and> used s1 = used s \<and> disk s1 = disk s
        else w \<notin> used s \<and> used s1 = insert w (used s) \<and> disk s1 = (disk s)(w := replicate 512 0)" by blast
    define s2 where "s2 = put_sector s1 m (wset (disk s1 m) i w)"
    have ie: "index_entry s m i = Inr (w, s2)" using gm i hole e(1) by (simp add: index_entry_def s2_def)
    have us2: "used s2 = used s1" by (simp add: s2_def put_sector_def used_def)
    have fs2: "fs_ok s2" "same_inodes s s2"
      using e(2,3) i by (auto simp: s2_def put_sector_def fs_ok_def used_def same_inodes_def length_wset)
    show ?thesis
    proof (cases "w = 0")
      case True
      then have d: "disk s2 = disk s" using r wset_same[OF len i, of m] hole by (simp add: s2_def put_sector_def)
      have "extends n s s2" using extends_refl[OF ok] fs2 d us2 r True
        by (auto simp: extends_defs)
      then show ?thesis using ie True d n m hole r by (simp add: follow_snoc)
    next
      case False
      then have w: "w \<notin> used s" "w \<noteq> 0" and u1: "used s1 = insert w (used s)"
        and d1: "disk s1 = (disk s)(w := replicate 512 0)" using r by auto
      have mw: "m \<noteq> w" using mU w by auto
      let ?D = "(disk s)(w := replicate 512 0, m := wset (disk s m) i w)"
      have d2: "disk s2 = ?D" using d1 mw by (simp add: s2_def put_sector_def)
      note g = follow_grow[OF ok(2) len \<pi> m hole w] and dg = data_grow[OF ok(2) len \<pi> m hole w]
      have nd: "nodes ?D n = insert w (nodes (disk s) n)"
      proof -
        have h: "follow (disk s) n (\<pi> @ [i]) = 0" using n m hole by (simp add: follow_snoc)
        have z: "strict_prefix (\<pi> @ [i]) \<rho> \<Longrightarrow> follow (disk s) n \<rho> = 0" for \<rho>
          using follow_append_zero[OF h n] by (auto simp: strict_prefix_def prefix_def)
        have "follow ?D n \<rho> = (if \<rho> = \<pi> @ [i] then w else follow (disk s) n \<rho>)" if "\<rho> \<in> places" for \<rho>
          using g[OF that] z[of \<rho>] by simp
        then show ?thesis unfolding nodes_def using \<pi> w(2) h by (auto split: if_splits) metis+
      qed
      have "extends n s s2"
        unfolding extends_defs d2 us2 u1 nd
      proof (intro conjI allI impI ballI)
        show "tree_ok (insert w (used s)) ?D n" by (rule tree_grow[OF ok(2) len \<pi> m hole w])
        show "fs_ok s2" "same_inodes s s2" by (rule fs2)+
        fix x assume "x \<in> used s - nodes (disk s) n"
        moreover have "m \<in> nodes (disk s) n" using \<pi>p m by (auto simp: nodes_def)
        ultimately show "?D x = disk s x" using w(1) by auto
      next
        fix k :: nat assume k: "k \<in> {500..<512}"
        have nU: "n \<in> used s" using tree_root[OF ok(2)] .
        show "?D n ! k = disk s n ! k"
        proof (cases "m = n")
          case True
          then have "i < 125" using tree_at_root[OF ok(2) \<pi>p] m \<pi> places_root by auto
          then show ?thesis using True k len by (subst fun_upd_apply) (simp add: nth_wset)
        next
          case False
          then show ?thesis using nU w(1) by auto
        qed
      qed (use dg w in auto)
      moreover have "follow ?D n \<pi> = m" using g[OF \<pi>p] m(1) by (auto simp: strict_prefix_def prefix_def)
      ultimately show ?thesis using ie False d2 g[OF \<pi>] by simp
    qed
  qed
qed

lemma walk_ok:
  assumes "fs_ok s" and "tree_ok (used s) (disk s) n" and "\<pi> @ is \<in> places" and "m = follow (disk s) n \<pi>" and "m \<noteq> 0"
  shows "\<exists>r s'. walk s m is = Inr (r, s') \<and> extends n s s' \<and> r = follow (disk s') n (\<pi> @ is) \<and>
    (r = 0 \<longrightarrow> full s')"
  using assms
proof (induction "is" arbitrary: s m \<pi>)
  case Nil
  then show ?case using extends_refl by auto
next
  case (Cons i "is")
  have pl: "\<pi> @ [i] \<in> places" using Cons.prems(3) places_append[of "\<pi> @ [i]" "is"] by simp
  from index_entry_ok[OF Cons.prems(1,2) pl Cons.prems(4,5)] obtain w s1 where
    w: "index_entry s m i = Inr (w, s1)" "extends n s s1" "w = follow (disk s1) n (\<pi> @ [i])" "w = 0 \<longrightarrow> full s" by blast
  have n: "n \<noteq> 0" using Cons.prems(2) by (simp add: tree_ok_def)
  show ?case
  proof (cases "w = 0")
    case True
    then have "follow (disk s1) n (\<pi> @ i # is) = 0" using follow_append_zero[of "disk s1" n "\<pi> @ [i]" "is"] w(3) n by simp
    moreover have "full s1" using w(2,4) True by (auto simp: full_def extends_defs same_inodes_def)
    ultimately show ?thesis using w True by auto
  next
    case False
    have "fs_ok s1" "tree_ok (used s1) (disk s1) n" "(\<pi> @ [i]) @ is \<in> places"
      using w(2) Cons.prems(3) by (auto simp: extends_defs)
    from Cons.IH[OF this w(3) False] obtain r s2 where "walk s1 w is = Inr (r, s2)" "extends n s1 s2"
      "r = follow (disk s2) n (\<pi> @ i # is)" "r = 0 \<longrightarrow> full s2" by auto
    then show ?thesis using w(1,2) False extends_trans by auto
  qed
qed

lemma walk_mapped:
  assumes "fs_ok s" and "tree_ok (used s) (disk s) n" and "\<pi> @ is \<in> places" and "m = follow (disk s) n \<pi>"
    and "follow (disk s) n (\<pi> @ is) \<noteq> 0"
  shows "walk s m is = Inr (follow (disk s) n (\<pi> @ is), s)"
  using assms(3-5)
proof (induction "is" arbitrary: m \<pi>)
  case (Cons i "is")
  have pl: "\<pi> @ [i] \<in> places" using Cons.prems(1) places_append[of "\<pi> @ [i]" "is"] by simp
  have n: "n \<noteq> 0" using assms(2) by (simp add: tree_ok_def)
  have nz: "follow (disk s) n (\<pi> @ [i]) \<noteq> 0"
    using Cons.prems(3) follow_append_zero[of "disk s" n "\<pi> @ [i]" "is"] n by auto
  then have m0: "m \<noteq> 0" and w: "follow (disk s) n (\<pi> @ [i]) = wget (disk s m) i"
    using Cons.prems(2) n by (auto simp: follow_snoc split: if_splits)
  have "m \<in> used s" using assms(2) places_snoc[OF pl] Cons.prems(2) m0 by (auto simp: tree_ok_def)
  then have "index_entry s m i = Inr (wget (disk s m) i, s)"
    using used_lt[OF assms(1)] places_index[of \<pi> i "[]"] pl nz w by (simp add: index_entry_def get_sector_def)
  then show ?case using Cons.IH[of "\<pi> @ [i]" "wget (disk s m) i"] Cons.prems w nz by simp
qed simp

lemma block_number:
  assumes "0 \<le> pos" and "pos < int (MAX_BLOCKS * 512)"
  shows "unat (word_of_int (cdiv pos 512) :: 32 word) = nat pos div 512" and "nat pos div 512 < MAX_BLOCKS"
proof -
  have d: "cdiv pos 512 = int (nat pos div 512)" using assms(1) by (simp add: cdiv_pos_pos zdiv_int)
  show l: "nat pos div 512 < MAX_BLOCKS" using assms by (simp add: less_mult_imp_div_less)
  show "unat (word_of_int (cdiv pos 512) :: 32 word) = nat pos div 512"
    unfolding d using l by (simp add: unat_small)
qed

lemma byte_to_sector_ok:
  assumes "fs_ok s" and "tree_ok (used s) (disk s) n" and "0 \<le> pos" and "pos < int (MAX_BLOCKS * 512)"
  shows "\<exists>r s'. byte_to_sector s n pos = Inr (r, s') \<and> extends n s s' \<and>
    r = follow (disk s') n (path (nat pos div 512)) \<and> (r = 0 \<longrightarrow> full s')"
  unfolding byte_to_sector_def MLI_translate_walk block_number(1)[OF assms(3,4)]
  using walk_ok[OF assms(1,2), of "[]" "path (nat pos div 512)" n] path_places[OF block_number(2)[OF assms(3,4)]]
    assms(2) by (simp add: tree_ok_def)

lemma byte_to_sector_mapped:
  assumes "fs_ok s" and "tree_ok (used s) (disk s) n" and "0 \<le> pos" and "pos < int (MAX_BLOCKS * 512)"
    and "follow (disk s) n (path (nat pos div 512)) \<noteq> 0"
  shows "byte_to_sector s n pos = Inr (follow (disk s) n (path (nat pos div 512)), s)"
  unfolding byte_to_sector_def MLI_translate_walk block_number(1)[OF assms(3,4)]
  using walk_mapped[OF assms(1,2), of "[]" "path (nat pos div 512)" n] path_places[OF block_number(2)[OF assms(3,4)]]
    assms(5) by simp

section \<open>Reading\<close>

lemma block_data_length: "fs_ok s \<Longrightarrow> length (block_data (disk s) n b) = 512"
  by (simp add: block_data_def fs_ok_def)

lemma same_block:
  fixes o1 :: nat
  assumes "o1 mod 512 + k < 512"
  shows "(o1 + k) div 512 = o1 div 512" and "(o1 + k) mod 512 = o1 mod 512 + k"
proof -
  have k: "k div 512 = 0" "k mod 512 = k" "(o1 mod 512 + k) div 512 = 0" using assms by simp_all
  show "(o1 + k) div 512 = o1 div 512" by (subst div_add1_eq) (simp only: k add_0_right)
  show "(o1 + k) mod 512 = o1 mod 512 + k" using assms by (metis mod_add_left_eq mod_less)
qed

lemma chunk_bytes:
  assumes "length (block_data D n (o1 div 512)) = 512" and "o1 mod 512 + c \<le> 512"
  shows "take c (drop (o1 mod 512) (block_data D n (o1 div 512))) = map (file_byte D n) [o1..<o1 + c]"
proof (rule nth_equalityI)
  fix k assume "k < length (take c (drop (o1 mod 512) (block_data D n (o1 div 512))))"
  then have k: "k < c" "o1 mod 512 + k < 512" using assms by auto
  then show "take c (drop (o1 mod 512) (block_data D n (o1 div 512))) ! k = map (file_byte D n) [o1..<o1 + c] ! k"
    using assms same_block[OF k(2)] by (simp add: file_byte_def)
qed (use assms in simp)

text \<open>The hypotheses under which a file can be read and written.\<close>

definition file_ok :: "fs \<Rightarrow> nat \<Rightarrow> inode \<Rightarrow> bool" where
  "file_ok s a x \<longleftrightarrow> fs_ok s \<and> inodes s a = Some x \<and> tree_ok (used s) (disk s) (i_sector x) \<and>
     (i_is_dir x \<or> \<not> i_locked x) \<and> 0 \<le> i_length x \<and> i_length x \<le> int (MAX_BLOCKS * 512)"

definition mapped :: "(block_sector_t \<Rightarrow> u8 list) \<Rightarrow> block_sector_t \<Rightarrow> int \<Rightarrow> int \<Rightarrow> bool" where
  "mapped D n lo hi \<longleftrightarrow> (\<forall>p. lo \<le> p \<and> p < hi \<longrightarrow> follow D n (path (nat p div 512)) \<noteq> 0)"

lemma upt_join: "a \<le> b \<Longrightarrow> b \<le> c \<Longrightarrow> [a..<c] = [a..<b] @ [b..<c]"
  using upt_add_eq_append[of a b "c - b"] by simp

text \<open>
  Reading allocates the blocks it finds missing, which does not change the contents. On a full
  device the block of a hole is taken to be in sector 0.
\<close>

definition hole :: "(block_sector_t \<Rightarrow> u8 list) \<Rightarrow> block_sector_t \<Rightarrow> nat \<Rightarrow> bool" where
  "hole D n p \<longleftrightarrow> follow D n (path (p div 512)) = 0"

lemma extends_file_ok: "file_ok s a x \<Longrightarrow> extends (i_sector x) s s' \<Longrightarrow> file_ok s' a x"
  by (auto simp: file_ok_def extends_defs same_inodes_def)

lemma extends_file_byte:
  "extends n s s' \<Longrightarrow> p < MAX_BLOCKS * 512 \<Longrightarrow> file_byte (disk s') n p = file_byte (disk s) n p"
  by (simp add: extends_def file_byte_def less_mult_imp_div_less)

lemma extends_hole: "extends n s s' \<Longrightarrow> p < MAX_BLOCKS * 512 \<Longrightarrow> hole (disk s') n p \<Longrightarrow> hole (disk s) n p"
  unfolding hole_def extends_defs by (metis less_mult_imp_div_less)

lemma read_chunk:
  assumes ok: "fs_ok s" "tree_ok (used s) (disk s) n" and r: "r = follow (disk s) n (path (o1 div 512))"
    and o1: "o1 < MAX_BLOCKS * 512" and c: "o1 mod 512 + c \<le> 512"
  defines "bs \<equiv> take c (drop (o1 mod 512) (disk s r))"
  shows "get_sector s r = Inr (disk s r)" and "length bs = c"
    and "i < c \<Longrightarrow> hole (disk s) n (o1 + i) \<and> r = 0 \<or> bs ! i = file_byte (disk s) n (o1 + i)"
proof -
  have b: "o1 div 512 < MAX_BLOCKS" using o1 by (simp add: less_mult_imp_div_less)
  have len: "length (disk s r) = 512" and z: "0 \<in> used s" using ok(1) by (simp_all add: fs_ok_def)
  have "r \<in> used s" using ok(2) path_places[OF b] r z unfolding tree_ok_def by metis
  then show "get_sector s r = Inr (disk s r)" using used_lt[OF ok(1)] by (simp add: get_sector_def)
  show "length bs = c" using len c by (simp add: bs_def)
  assume i: "i < c"
  then have "o1 mod 512 + i < 512" using c by simp
  note sb = same_block[OF this]
  show "hole (disk s) n (o1 + i) \<and> r = 0 \<or> bs ! i = file_byte (disk s) n (o1 + i)"
  proof (cases "r = 0")
    case True
    then show ?thesis using r by (simp add: hole_def sb)
  next
    case False
    then show ?thesis using r i len c by (simp add: bs_def file_byte_def block_data_def sb)
  qed
qed

lemma read_loop_ok:
  assumes "file_ok s a x" and "0 \<le> off"
  shows "\<exists>bs s'. read_loop s a sz off acc = Inr (acc @ bs, s') \<and> extends (i_sector x) s s' \<and>
    length bs = nat (min (off + sz) (i_length x) - off) \<and>
    (\<forall>i < length bs. hole (disk s) (i_sector x) (nat off + i) \<and> full s' \<or>
       bs ! i = file_byte (disk s) (i_sector x) (nat off + i)) \<and>
    (mapped (disk s) (i_sector x) off (min (off + sz) (i_length x)) \<longrightarrow> s' = s)"
  using assms
proof (induction "nat sz" arbitrary: s sz off acc rule: less_induct)
  case less
  let ?n = "i_sector x" and ?len = "i_length x" and ?o = "nat off"
  have ok: "fs_ok s" "tree_ok (used s) (disk s) ?n" and x: "inodes s a = Some x" "i_is_dir x \<or> \<not> i_locked x"
    and bd: "?len \<le> int (MAX_BLOCKS * 512)" using less.prems(1) by (auto simp: file_ok_def)
  have ix: "ino s a = x" using x(1) by (simp add: ino_def)
  have len: "inode_length s a = Inr ?len" using x(2) ix by (simp add: inode_length_def)
  show ?case
  proof (cases "sz \<le> 0 \<or> ?len \<le> off")
    case True
    then have "min (off + sz) ?len \<le> off" by (auto simp: min_def)
    moreover have "read_loop s a sz off acc = Inr (acc, s)" using True len by (subst read_loop.simps) auto
    ultimately show ?thesis using extends_refl[OF ok] by auto
  next
    case False
    then have sz: "0 < sz" and ol: "off < ?len" by auto
    define c where "c = min sz (min (?len - off) (512 - off mod 512))"
    have c: "0 < c" "c \<le> sz" "off + c \<le> ?len" "off mod 512 + c \<le> 512"
      using sz ol by (auto simp: c_def min_def)
    have cm: "cmod off 512 = off mod 512" using less.prems(2) by (simp add: cmod_pos_pos)
    have no: "nat (off mod 512) = ?o mod 512" using less.prems(2) by (simp add: nat_mod_distrib)
    have o1: "?o < MAX_BLOCKS * 512" and fit: "?o mod 512 + nat c \<le> 512" using ol bd c no less.prems(2) by linarith+
    from byte_to_sector_ok[OF ok less.prems(2)] ol bd obtain r s1 where r: "byte_to_sector s ?n off = Inr (r, s1)"
      "extends ?n s s1" "r = follow (disk s1) ?n (path (?o div 512))" "r = 0 \<longrightarrow> full s1" by auto
    have fo: "file_ok s1 a x" by (rule extends_file_ok[OF less.prems(1) r(2)])
    then have ok1: "fs_ok s1" "tree_ok (used s1) (disk s1) ?n" by (simp_all add: file_ok_def)
    define cs where "cs = take (nat c) (drop (?o mod 512) (disk s1 r))"
    note rc = read_chunk[OF ok1 r(3) o1 fit, folded cs_def]
    have step: "read_loop s a sz off acc = read_loop s1 a (sz - c) (off + c) (acc @ cs)"
    proof -
      have c': "(if sz < (if ?len - off < 512 - off mod 512 then ?len - off else 512 - off mod 512) then sz
          else (if ?len - off < 512 - off mod 512 then ?len - off else 512 - off mod 512)) = c"
        by (auto simp: c_def min_def)
      show ?thesis using sz ol c(1)
        by (subst read_loop.simps) (simp add: len ix r(1) rc(1) cm c' no cs_def Let_def)
    qed
    have pre: "nat (sz - c) < nat sz" "0 \<le> off + c" using c sz less.prems(2) by auto
    from less.hyps[OF pre(1) fo pre(2)] obtain bs s' where
      k: "read_loop s1 a (sz - c) (off + c) (acc @ cs) = Inr ((acc @ cs) @ bs, s')" "extends ?n s1 s'"
      "length bs = nat (min (off + c + (sz - c)) ?len - (off + c))"
      "mapped (disk s1) ?n (off + c) (min (off + c + (sz - c)) ?len) \<longrightarrow> s' = s1"
      and b: "\<And>i. i < length bs \<Longrightarrow> hole (disk s1) ?n (nat (off + c) + i) \<and> full s' \<or>
         bs ! i = file_byte (disk s1) ?n (nat (off + c) + i)" by metis
    have e: "extends ?n s s'" by (rule extends_trans[OF r(2) k(2)])
    have oc: "nat (off + c) = ?o + nat c" using less.prems(2) c by (simp add: nat_add_distrib)
    have l: "length (cs @ bs) = nat (min (off + sz) ?len - off)"
      using k(3) rc(2) c sz ol by (simp add: nat_add_distrib[symmetric])
    have inb: "?o + i < MAX_BLOCKS * 512" if "i < length (cs @ bs)" for i using that l bd less.prems(2) by linarith
    have "hole (disk s) ?n (?o + i) \<and> full s' \<or> (cs @ bs) ! i = file_byte (disk s) ?n (?o + i)"
      if i: "i < length (cs @ bs)" for i
    proof (cases "i < nat c")
      case True
      have "hole (disk s1) ?n (?o + i) \<and> r = 0 \<or> cs ! i = file_byte (disk s1) ?n (?o + i)" by (rule rc(3)[OF True])
      moreover have "hole (disk s) ?n (?o + i)" if "hole (disk s1) ?n (?o + i)"
        using extends_hole[OF r(2) inb[OF i] that] .
      moreover have "full s'" if "r = 0" using r(4) that k(2) by (auto simp: extends_defs full_def same_inodes_def)
      ultimately show ?thesis using True rc(2) extends_file_byte[OF r(2) inb[OF i]] by (auto simp: nth_append)
    next
      case False
      then have "i - nat c < length bs" "?o + nat c + (i - nat c) = ?o + i" using i rc(2) by auto
      then show ?thesis using b[of "i - nat c"] oc False rc(2) extends_file_byte[OF r(2) inb[OF i]]
          extends_hole[OF r(2) inb[OF i]] by (auto simp: nth_append)
    qed
    moreover have "s' = s" if m: "mapped (disk s) ?n off (min (off + sz) ?len)"
    proof -
      have "follow (disk s) ?n (path (?o div 512)) \<noteq> 0" using m sz ol by (auto simp: mapped_def)
      then have s1: "s1 = s" using byte_to_sector_mapped[OF ok less.prems(2)] r(1) ol bd by simp
      have "mapped (disk s) ?n (off + c) (min (off + c + (sz - c)) ?len)" using m c by (auto simp: mapped_def)
      then show ?thesis using k(4) s1 by simp
    qed
    ultimately show ?thesis using step k(1) e l by (intro exI[of _ "cs @ bs"] exI[of _ s']) simp
  qed
qed

section \<open>Writing\<close>

text \<open>Writing a data sector leaves the index tree as it is and changes one block of the file.\<close>

lemma follow_leaf:
  assumes "tree_ok U D n" and "b < MAX_BLOCKS" and "r = follow D n (path b)" and "r \<noteq> 0" and "\<rho> \<in> places"
  shows "follow (D(r := d)) n \<rho> = follow D n \<rho>"
  using assms(5)
proof (induction \<rho> rule: rev_induct)
  case (snoc j \<rho>)
  have \<rho>: "\<rho> \<in> places" using places_snoc[OF snoc.prems] .
  have "follow D n \<rho> \<noteq> r"
  proof
    assume "follow D n \<rho> = r"
    then have "\<rho> = path b" using assms(1,3,4) \<rho> path_places[OF assms(2)] unfolding tree_ok_def by metis
    then show False using snoc.prems path_leaf by simp
  qed
  then show ?case using snoc.IH[OF \<rho>] assms(1) by (simp add: follow_snoc tree_ok_def)
qed simp

lemma write_leaf:
  assumes ok: "fs_ok s" "tree_ok (used s) (disk s) n" and b: "b < MAX_BLOCKS"
    and r: "r = follow (disk s) n (path b)" "r \<noteq> 0" and d: "length d = 512"
  shows "grows n s (put_sector s r d)"
    and "c < MAX_BLOCKS \<Longrightarrow> block_data (disk (put_sector s r d)) n c = (if c = b then d else block_data (disk s) n c)"
proof -
  let ?D = "(disk s)(r := d)"
  have D: "disk (put_sector s r d) = ?D" and U: "used (put_sector s r d) = used s"
    by (simp_all add: put_sector_def used_def)
  note f = follow_leaf[OF ok(2) b r]
  have nd: "nodes ?D n = nodes (disk s) n" unfolding nodes_def using f by (auto intro: exI) metis+
  have rn: "r \<in> nodes (disk s) n" using r path_places[OF b] by (auto simp: nodes_def)
  have "tree_ok (used s) ?D n" using ok(2) f unfolding tree_ok_def by auto
  moreover have "fs_ok (put_sector s r d)" using ok(1) d U by (simp add: fs_ok_def put_sector_def)
  moreover have "same_inodes s (put_sector s r d)" by (simp add: same_inodes_def put_sector_def)
  moreover have "r \<noteq> n" using tree_at_root[OF ok(2) path_places[OF b]] r by auto
  ultimately show "grows n s (put_sector s r d)"
    unfolding grows_def D U nd using rn f[OF path_places] by auto
  assume c: "c < MAX_BLOCKS"
  have "follow (disk s) n (path c) = r \<longleftrightarrow> c = b"
    using ok(2) path_places[OF c] path_places[OF b] r path_inj unfolding tree_ok_def by metis
  then show "block_data (disk (put_sector s r d)) n c = (if c = b then d else block_data (disk s) n c)"
    unfolding D using f[OF path_places[OF c]] r(2) by (auto simp: block_data_def)
qed

lemma nth_overwrite:
  "i + length xs \<le> length d \<Longrightarrow> k < length d \<Longrightarrow> overwrite d i xs ! k = (if i \<le> k \<and> k < i + length xs then xs ! (k - i) else d ! k)"
  by (auto simp: overwrite_def nth_append min_def)

lemma length_overwrite: "i + length xs \<le> length d \<Longrightarrow> length (overwrite d i xs) = length d"
  by (simp add: overwrite_def)

lemma grows_mapped: "grows n s s' \<Longrightarrow> mapped (disk s) n lo hi \<Longrightarrow> hi \<le> int (MAX_BLOCKS * 512) \<Longrightarrow> 0 \<le> lo \<Longrightarrow> mapped (disk s') n lo hi"
  unfolding mapped_def grows_def using block_number(2) by (smt (verit))

lemma grows_full: "grows n s s' \<Longrightarrow> full s \<Longrightarrow> full s'"
  by (auto simp: grows_def full_def same_inodes_def)

text \<open>One chunk of a write.\<close>

lemma write_chunk:
  assumes ok: "fs_ok s" "tree_ok (used s) (disk s) n" and r: "r = follow (disk s) n (path (o1 div 512))" "r \<noteq> 0"
    and o1: "o1 < MAX_BLOCKS * 512" and xs: "o1 mod 512 + length xs \<le> 512"
  defines "s' \<equiv> put_sector s r (overwrite (disk s r) (o1 mod 512) xs)"
  shows "grows n s s'"
    and "p < MAX_BLOCKS * 512 \<Longrightarrow>
      file_byte (disk s') n p = (if o1 \<le> p \<and> p < o1 + length xs then xs ! (p - o1) else file_byte (disk s) n p)"
proof -
  have b: "o1 div 512 < MAX_BLOCKS" using o1 by (simp add: less_mult_imp_div_less)
  have len: "length (disk s r) = 512" using ok(1) by (simp add: fs_ok_def)
  have l: "length (overwrite (disk s r) (o1 mod 512) xs) = 512" using len xs by (simp add: length_overwrite)
  show "grows n s s'" unfolding s'_def by (rule write_leaf(1)[OF ok b r l])
  assume "p < MAX_BLOCKS * 512"
  then have c: "p div 512 < MAX_BLOCKS" by (simp add: less_mult_imp_div_less)
  note bd = write_leaf(2)[OF ok b r l c, folded s'_def]
  have dr: "block_data (disk s) n (o1 div 512) = disk s r" using r by (simp add: block_data_def)
  show "file_byte (disk s') n p = (if o1 \<le> p \<and> p < o1 + length xs then xs ! (p - o1) else file_byte (disk s) n p)"
  proof (cases "p div 512 = o1 div 512")
    case True
    have po: "p = 512 * (o1 div 512) + p mod 512" "o1 = 512 * (o1 div 512) + o1 mod 512"
      using True mult_div_mod_eq by metis+
    then have "o1 \<le> p \<longleftrightarrow> o1 mod 512 \<le> p mod 512" "p < o1 + length xs \<longleftrightarrow> p mod 512 < o1 mod 512 + length xs"
      "p - o1 = p mod 512 - o1 mod 512" by linarith+
    then show ?thesis using True bd dr len xs by (simp add: file_byte_def nth_overwrite)
  next
    case False
    have "\<not> (o1 \<le> p \<and> p < o1 + length xs)"
    proof
      assume "o1 \<le> p \<and> p < o1 + length xs"
      then have "o1 mod 512 + (p - o1) < 512" "p = o1 + (p - o1)" using xs by auto
      then show False using same_block(1)[of o1 "p - o1"] False by simp
    qed
    then show ?thesis using False bd by (auto simp: file_byte_def)
  qed
qed

lemma write_loop_ok:
  assumes "fs_ok s" and "tree_ok (used s) (disk s) n" and "inodes s a = Some x" and "n = i_sector x"
    and "0 \<le> off" and "0 \<le> sz" and "off + sz \<le> int (MAX_BLOCKS * 512)" and "0 \<le> w" and "nat w + nat sz \<le> length buf"
  shows "\<exists>k s'. write_loop s a buf sz off w = Inr (w + k, sz - k, off + k, s') \<and> 0 \<le> k \<and> k \<le> sz \<and>
    grows n s s' \<and> mapped (disk s') n off (off + k) \<and> (k < sz \<longrightarrow> full s') \<and>
    (mapped (disk s) n off (off + sz) \<longrightarrow> k = sz) \<and>
    (\<forall>p < MAX_BLOCKS * 512. file_byte (disk s') n p =
       (if nat off \<le> p \<and> p < nat (off + k) then buf ! (nat w + (p - nat off)) else file_byte (disk s) n p))"
  using assms
proof (induction "nat sz" arbitrary: s sz off w rule: less_induct)
  case less
  note ok = less.prems(1,2) and off = less.prems(5) and sz = less.prems(6) and bd = less.prems(7)
  have ix: "ino s a = x" using less.prems(3) by (simp add: ino_def)
  show ?case
  proof (cases "sz = 0")
    case True
    then show ?thesis using grows_refl[OF ok] by (subst write_loop.simps) (auto simp: mapped_def)
  next
    case False
    then have sz0: "0 < sz" using sz by simp
    let ?o = "nat off"
    have o1: "?o < MAX_BLOCKS * 512" using off sz0 bd by simp
    from byte_to_sector_ok[OF ok off] sz0 bd obtain r s1 where r: "byte_to_sector s n off = Inr (r, s1)" "extends n s s1"
      "r = follow (disk s1) n (path (?o div 512))" "r = 0 \<longrightarrow> full s1" by auto
    have ok1: "fs_ok s1" "tree_ok (used s1) (disk s1) n" "grows n s s1" "inodes s1 a = Some x"
      using r(2) less.prems(3) by (auto simp: extends_defs same_inodes_def)
    have fb1: "file_byte (disk s1) n p = file_byte (disk s) n p" if "p < MAX_BLOCKS * 512" for p
      using r(2) that by (simp add: extends_def file_byte_def less_mult_imp_div_less)
    show ?thesis
    proof (cases "r = 0")
      case True
      then have "write_loop s a buf sz off w = Inr (w, sz, off, s1)"
        using sz0 r(1) ix less.prems(4) by (subst write_loop.simps) simp
      moreover have "\<not> mapped (disk s) n off (off + sz)"
      proof
        assume "mapped (disk s) n off (off + sz)"
        then have "follow (disk s) n (path (?o div 512)) \<noteq> 0" using sz0 by (simp add: mapped_def)
        then show False using True r(2,3) block_number(2)[OF off] sz0 bd by (simp add: extends_defs)
      qed
      ultimately show ?thesis using True r(4) ok1(3) fb1 sz by (auto simp: mapped_def intro!: exI[of _ 0])
    next
      case rnz: False
      define c where "c = min sz (512 - off mod 512)"
      have c: "0 < c" "c \<le> sz" "off mod 512 + c \<le> 512" using sz0 by (auto simp: c_def min_def)
      define xs where "xs = take (nat c) (drop (nat w) buf)"
      have lxs: "length xs = nat c" using c less.prems(9) by (simp add: xs_def)
      have no: "nat (off mod 512) = ?o mod 512" using off by (simp add: nat_mod_distrib)
      have fit: "?o mod 512 + length xs \<le> 512" using c(1,3) lxs no by linarith
      define s2 where "s2 = put_sector s1 r (overwrite (disk s1 r) (?o mod 512) xs)"
      note wc = write_chunk[OF ok1(1,2) r(3) rnz o1 fit, folded s2_def]
      have rU: "r \<in> used s1" using ok1(2) r(3) rnz path_places[of "?o div 512"] o1
        by (auto simp: tree_ok_def less_mult_imp_div_less)
      then have gs: "get_sector s1 r = Inr (disk s1 r)" using used_lt[OF ok1(1)] by (simp add: get_sector_def)
      have c': "(if sz < 512 - off mod 512 then sz else 512 - off mod 512) = c" by (auto simp: c_def min_def)
      have step: "write_loop s a buf sz off w = write_loop s2 a buf (sz - c) (off + c) (w + c)"
        using sz0 r(1) rnz ix less.prems(4) c(1) off
        by (subst write_loop.simps) (simp add: cmod_pos_pos c' gs no Let_def s2_def xs_def)
      have ok2: "fs_ok s2" "tree_ok (used s2) (disk s2) n" "inodes s2 a = Some x" "grows n s s2"
        using wc(1) ok1(4) grows_trans[OF ok1(3) wc(1)] by (auto simp: grows_def same_inodes_def)
      have pre: "nat (sz - c) < nat sz" "0 \<le> off + c" "0 \<le> sz - c" "off + c + (sz - c) \<le> int (MAX_BLOCKS * 512)"
        "0 \<le> w + c" "nat (w + c) + nat (sz - c) \<le> length buf"
        using c off sz0 bd less.prems(8,9) by (simp_all add: nat_add_distrib nat_diff_distrib)
      obtain k s' where k: "write_loop s2 a buf (sz - c) (off + c) (w + c) = Inr (w + c + k, sz - c - k, off + c + k, s')"
        "0 \<le> k" "k \<le> sz - c" "grows n s2 s'" "mapped (disk s') n (off + c) (off + c + k)" "k < sz - c \<longrightarrow> full s'" "mapped (disk s2) n (off + c) (off + c + (sz - c)) \<longrightarrow> k = sz - c"
        and fb: "\<And>p. p < MAX_BLOCKS * 512 \<Longrightarrow> file_byte (disk s') n p =
          (if nat (off + c) \<le> p \<and> p < nat (off + c + k) then buf ! (nat (w + c) + (p - nat (off + c))) else file_byte (disk s2) n p)"
        using less.hyps[OF pre(1) ok2(1,2,3) less.prems(4) pre(2-6)] by metis
      have g: "grows n s s'" using grows_trans[OF ok2(4) k(4)] .
      have m1: "mapped (disk s') n off (off + c)"
      proof -
        have "path (nat p div 512) = path (?o div 512)" if "off \<le> p" "p < off + c" for p
        proof -
          have "nat p = ?o + nat (p - off)" using that off by (simp add: nat_add_distrib[symmetric])
          moreover have "?o mod 512 + nat (p - off) < 512" using that fit lxs by simp
          ultimately show ?thesis using same_block(1)[of ?o "nat (p - off)"] by simp
        qed
        then have "mapped (disk s1) n off (off + c)" using r(3) rnz unfolding mapped_def by metis
        then show ?thesis using grows_mapped[OF grows_trans[OF wc(1) k(4)]] off bd c by simp
      qed
      have m: "mapped (disk s') n off (off + (c + k))"
        using m1 k(5) unfolding mapped_def by (metis add.assoc not_le)
      have "file_byte (disk s') n p =
          (if ?o \<le> p \<and> p < nat (off + (c + k)) then buf ! (nat w + (p - ?o)) else file_byte (disk s) n p)"
        if p: "p < MAX_BLOCKS * 512" for p
      proof -
        have e: "nat (off + c) = ?o + nat c" "nat (off + c + k) = ?o + nat c + nat k" "nat (off + (c + k)) = ?o + nat c + nat k"
          "nat (w + c) = nat w + nat c" using off c k less.prems(8) by (simp_all add: nat_add_distrib)
        have x: "xs ! (p - ?o) = buf ! (nat w + (p - ?o))" if "?o \<le> p" "p < ?o + nat c"
          using that less.prems(9) c by (simp add: xs_def)
        show ?thesis using fb[OF p] wc(2)[OF p] fb1[OF p] x lxs unfolding e by (auto simp: not_le)
      qed
      moreover have "c + k = sz" if "mapped (disk s) n off (off + sz)"
      proof -
        have "mapped (disk s2) n off (off + sz)" by (rule grows_mapped[OF ok2(4) that bd off])
        then have "mapped (disk s2) n (off + c) (off + c + (sz - c))" using c by (auto simp: mapped_def)
        then show ?thesis using k(7) by simp
      qed
      ultimately show ?thesis using step k(1,2,3,6) c g m by (intro exI[of _ "c + k"] exI[of _ s']) (auto simp: algebra_simps)
    qed
  qed
qed

end
