(* ===== verification/Volume.thy ===== *)
theory Volume
  imports Inode
begin

text \<open>
  The files of a volume seen together. A volume has a set of inode sectors, each the root of an
  index tree; the trees share no sector. The invariant \<open>vol_ok\<close> ties the trees, the free map and
  the table of open inodes together, and every operation of \<open>filesys/inode.c\<close> keeps it. On top of
  it, a file is a sequence of bytes and \<open>inode_read_at\<close> and \<open>inode_write_at\<close> implement reads and
  writes of that sequence.
\<close>

section \<open>The volume invariant\<close>

definition file_len :: "fs \<Rightarrow> block_sector_t \<Rightarrow> int" where
  "file_len s n = (case find_open s (open_inodes s) n of
     Some a \<Rightarrow> i_length (ino s a) | None \<Rightarrow> sint (wget (disk s n) 125))"

definition contents :: "fs \<Rightarrow> block_sector_t \<Rightarrow> u8 list" where
  "contents s n = map (file_byte (disk s) n) [0..<nat (file_len s n)]"

text \<open>The table of open inodes.\<close>

definition open_ok :: "block_sector_t set \<Rightarrow> fs \<Rightarrow> bool" where
  "open_ok R s \<longleftrightarrow> distinct (open_inodes s) \<and> set (open_inodes s) = dom (inodes s) \<and>
     (\<forall>a x. inodes s a = Some x \<longrightarrow> i_sector x \<in> R \<and> open_cnt x \<ge> 1 \<and> (i_is_dir x \<or> \<not> i_locked x) \<and>
        (i_dirty x \<or> sint (wget (disk s (i_sector x)) 125) = i_length x)) \<and>
     (\<forall>a b x y. inodes s a = Some x \<and> inodes s b = Some y \<and> i_sector x = i_sector y \<longrightarrow> a = b)"

definition len_ok :: "fs \<Rightarrow> block_sector_t \<Rightarrow> bool" where
  "len_ok s n \<longleftrightarrow> 0 \<le> file_len s n \<and> file_len s n \<le> int (MAX_BLOCKS * 512) \<and>
     (\<forall>p < MAX_BLOCKS * 512. file_len s n \<le> int p \<longrightarrow> file_byte (disk s) n p = 0)"

definition vol_base :: "block_sector_t set \<Rightarrow> fs \<Rightarrow> bool" where
  "vol_base R s \<longleftrightarrow> fs_ok s \<and> (\<forall>n \<in> R. tree_ok (used s) (disk s) n) \<and>
     (\<forall>m \<in> R. \<forall>n \<in> R. m \<noteq> n \<longrightarrow> nodes (disk s) m \<inter> nodes (disk s) n = {}) \<and> open_ok R s"

definition vol_ok :: "block_sector_t set \<Rightarrow> fs \<Rightarrow> bool" where
  "vol_ok R s \<longleftrightarrow> vol_base R s \<and> (\<forall>n \<in> R. len_ok s n)"

lemma vol_baseD:
  assumes "vol_base R s"
  shows "fs_ok s" and "n \<in> R \<Longrightarrow> tree_ok (used s) (disk s) n" and "open_ok R s"
    and "m \<in> R \<Longrightarrow> n \<in> R \<Longrightarrow> m \<noteq> n \<Longrightarrow> nodes (disk s) m \<inter> nodes (disk s) n = {}"
  using assms by (auto simp: vol_base_def)

lemma vol_okD:
  assumes "vol_ok R s"
  shows "fs_ok s" and "n \<in> R \<Longrightarrow> tree_ok (used s) (disk s) n" and "open_ok R s" and "n \<in> R \<Longrightarrow> len_ok s n"
    and "m \<in> R \<Longrightarrow> n \<in> R \<Longrightarrow> m \<noteq> n \<Longrightarrow> nodes (disk s) m \<inter> nodes (disk s) n = {}" and "vol_base R s"
  using assms by (auto simp: vol_ok_def vol_base_def)

text \<open>A tree whose sectors do not change stays the same tree with the same data.\<close>

lemma nodesI: "\<rho> \<in> places \<Longrightarrow> follow D n \<rho> \<noteq> 0 \<Longrightarrow> follow D n \<rho> \<in> nodes D n"
  by (auto simp: nodes_def)

lemma follow_same:
  assumes "n \<noteq> 0" and "\<forall>x \<in> nodes D n. D' x = D x" and "\<rho> \<in> places"
  shows "follow D' n \<rho> = follow D n \<rho>"
  using assms(3)
proof (induction \<rho> rule: rev_induct)
  case (snoc j \<rho>)
  have "\<rho> \<in> places" using places_snoc[OF snoc.prems] .
  then show ?case using snoc.IH assms(1,2) nodesI[of \<rho> D n] by (simp add: follow_snoc)
qed simp

lemma tree_same:
  assumes "tree_ok U D n" and "\<forall>x \<in> nodes D n. D' x = D x" and "nodes D n \<inter> U \<subseteq> U'"
  shows "tree_ok U' D' n" and "nodes D' n = nodes D n" and "b < MAX_BLOCKS \<Longrightarrow> block_data D' n b = block_data D n b"
    and "D' n = D n"
proof -
  have n: "n \<noteq> 0" using assms(1) by (simp add: tree_ok_def)
  note f = follow_same[OF n assms(2)]
  show nd: "nodes D' n = nodes D n" unfolding nodes_def by (rule Collect_cong) (use f in metis)
  have "follow D n \<rho> \<in> U'" if "\<rho> \<in> places" "follow D n \<rho> \<noteq> 0" for \<rho>
    using that nodesI assms(1,3) unfolding tree_ok_def by blast
  then show "tree_ok U' D' n" using assms(1) f unfolding tree_ok_def by auto
  show "D' n = D n" using assms(2) nodesI[of "[]" D n] n by simp
  assume b: "b < MAX_BLOCKS"
  show "block_data D' n b = block_data D n b"
    using f[OF path_places[OF b]] assms(2) nodesI[OF path_places[OF b], of D n] by (auto simp: block_data_def)
qed

lemma data_file_byte:
  "(\<forall>b < MAX_BLOCKS. block_data D' n b = block_data D n b) \<Longrightarrow> p < MAX_BLOCKS * 512 \<Longrightarrow>
    file_byte D' n p = file_byte D n p"
  by (simp add: file_byte_def less_mult_imp_div_less)

lemma wget_bytes:
  assumes "\<And>c. c < 4 \<Longrightarrow> d' ! (4 * i + c) = d ! (4 * i + c)"
  shows "wget d' i = wget d i"
  using assms[of 0] assms[of 1] assms[of 2] assms[of 3] by (simp add: wget_def)

lemma grows_meta: "grows n s s' \<Longrightarrow> wget (disk s' n) 125 = wget (disk s n) 125"
  by (rule wget_bytes) (simp add: grows_def)

lemma find_open_same: "inodes s' = inodes s \<Longrightarrow> find_open s' as n = find_open s as n"
  by (induction as) (simp_all add: ino_def)

lemma len_ok_cong:
  assumes "file_len s' n = file_len s n" and "\<forall>p < MAX_BLOCKS * 512. file_byte (disk s') n p = file_byte (disk s) n p"
  shows "len_ok s' n = len_ok s n" and "len_ok s n \<Longrightarrow> contents s' n = contents s n"
proof -
  show "len_ok s' n = len_ok s n" using assms by (simp add: len_ok_def)
  assume "len_ok s n"
  then have "\<forall>p \<in> set [0..<nat (file_len s n)]. file_byte (disk s') n p = file_byte (disk s) n p"
    using assms(2) by (auto simp: len_ok_def)
  then show "contents s' n = contents s n" unfolding contents_def assms(1) by (simp add: map_eq_conv)
qed

text \<open>When one tree grows, the other files and the table of open inodes stay as they are.\<close>

lemma grows_other:
  assumes ok: "vol_ok R s" and n: "n \<in> R" and g: "grows n s s'" and m: "m \<in> R" "m \<noteq> n"
  shows "tree_ok (used s') (disk s') m" and "nodes (disk s') m = nodes (disk s) m" and "disk s' m = disk s m"
    and "len_ok s' m" and "contents s' m = contents s m" and "file_len s' m = file_len s m"
    and "nodes (disk s') m \<inter> nodes (disk s') n = {}"
proof -
  have t: "tree_ok (used s) (disk s) m" using vol_okD(2)[OF ok m(1)] .
  have dj: "nodes (disk s) m \<inter> nodes (disk s) n = {}" by (rule vol_okD(5)[OF ok m(1) n m(2)])
  have sub: "nodes (disk s) m \<subseteq> used s" using t by (auto simp: tree_ok_def nodes_def)
  have d: "\<forall>x \<in> nodes (disk s) m. disk s' x = disk s x" using dj sub g unfolding grows_def by blast
  have u: "nodes (disk s) m \<inter> used s \<subseteq> used s'" using g by (auto simp: grows_def)
  note ts = tree_same[OF t d u]
  show "tree_ok (used s') (disk s') m" "nodes (disk s') m = nodes (disk s) m" "disk s' m = disk s m"
    using ts(1,2,4) by simp_all
  show l: "file_len s' m = file_len s m" using g find_open_same[of s' s] ts(4)
    by (auto simp: file_len_def ino_def grows_def same_inodes_def split: option.splits)
  show "len_ok s' m" "contents s' m = contents s m"
    using len_ok_cong[OF l] data_file_byte[of "disk s'" m "disk s"] ts(3) vol_okD(4)[OF ok m(1)] by auto
  show "nodes (disk s') m \<inter> nodes (disk s') n = {}" using g dj sub ts(2) unfolding grows_def by blast
qed

lemma grows_len: "grows n s s' \<Longrightarrow> file_len s' n = file_len s n"
  using grows_meta[of n s s'] find_open_same[of s' s]
  by (auto simp: file_len_def ino_def grows_def same_inodes_def split: option.splits)

lemma grows_disk: "grows n s s' \<Longrightarrow> sint (wget (disk s' n) 125) = sint (wget (disk s n) 125)"
  by (simp add: grows_meta)

lemma grows_base:
  assumes ok: "vol_ok R s" and n: "n \<in> R" and g: "grows n s s'"
  shows "vol_base R s'"
  unfolding vol_base_def
proof (intro conjI ballI impI)
  have gn: "fs_ok s'" "tree_ok (used s') (disk s') n" "same_inodes s s'" using g by (simp_all add: grows_def)
  note go = grows_other[OF ok n g]
  show "fs_ok s'" by (rule gn(1))
  show "tree_ok (used s') (disk s') m" if "m \<in> R" for m using go(1)[OF that] gn(2) by auto
  show "nodes (disk s') m \<inter> nodes (disk s') k = {}" if "m \<in> R" "k \<in> R" "m \<noteq> k" for m k
    using go(7)[OF that(1)] go(7)[OF that(2)] go(2)[OF that(1)] go(2)[OF that(2)] vol_okD(5)[OF ok that]
    by (metis Int_commute that(3))
  have "sint (wget (disk s' m) 125) = sint (wget (disk s m) 125)" if "m \<in> R" for m
    using go(3)[OF that] grows_disk[OF g] by metis
  then show "open_ok R s'" using vol_okD(3)[OF ok] gn(3) unfolding open_ok_def same_inodes_def by auto
qed

lemma extends_vol:
  assumes ok: "vol_ok R s" and n: "n \<in> R" and e: "extends n s s'"
  shows "vol_ok R s'" and "m \<in> R \<Longrightarrow> contents s' m = contents s m"
proof -
  have g: "grows n s s'" using e by (simp add: extends_def)
  have fb: "\<forall>p < MAX_BLOCKS * 512. file_byte (disk s') n p = file_byte (disk s) n p" using extends_file_byte[OF e] by blast
  note lc = len_ok_cong[OF grows_len[OF g] fb]
  have "len_ok s' m" if "m \<in> R" for m using grows_other(4)[OF ok n g that] lc(1) vol_okD(4)[OF ok n] by auto
  then show "vol_ok R s'" using grows_base[OF ok n g] by (simp add: vol_ok_def)
  assume "m \<in> R"
  then show "contents s' m = contents s m" using grows_other(5)[OF ok n g] lc(2) vol_okD(4)[OF ok n] by metis
qed

text \<open>The open inode of a sector.\<close>

lemma find_open_Some: "find_open s as n = Some a \<Longrightarrow> a \<in> set as \<and> i_sector (ino s a) = n"
  by (induction as) (auto split: if_splits)

lemma find_open_None: "find_open s as n = None \<longleftrightarrow> (\<forall>a \<in> set as. i_sector (ino s a) \<noteq> n)"
  by (induction as) auto

lemma find_open_iff:
  assumes "open_ok R s"
  shows "find_open s (open_inodes s) n = Some a \<longleftrightarrow> (\<exists>x. inodes s a = Some x \<and> i_sector x = n)"
proof
  assume "find_open s (open_inodes s) n = Some a"
  then show "\<exists>x. inodes s a = Some x \<and> i_sector x = n"
    using find_open_Some[of s "open_inodes s" n a] assms by (auto simp: open_ok_def ino_def)
next
  assume "\<exists>x. inodes s a = Some x \<and> i_sector x = n"
  then obtain x where x: "inodes s a = Some x" "i_sector x = n" by blast
  then have "a \<in> set (open_inodes s)" using assms by (auto simp: open_ok_def)
  then obtain b where b: "find_open s (open_inodes s) n = Some b"
    using find_open_None[of s "open_inodes s" n] x by (cases "find_open s (open_inodes s) n") (auto simp: ino_def)
  then obtain y where "inodes s b = Some y" "i_sector y = n"
    using find_open_Some[OF b] assms by (auto simp: open_ok_def ino_def)
  then have "a = b" using assms x unfolding open_ok_def by metis
  then show "find_open s (open_inodes s) n = Some a" using b by simp
qed

lemma find_open_none_iff:
  "open_ok R s \<Longrightarrow> find_open s (open_inodes s) n = None \<longleftrightarrow> (\<forall>a x. inodes s a = Some x \<longrightarrow> i_sector x \<noteq> n)"
  using find_open_iff[of R s n] by (metis option.exhaust option.distinct(1))

lemma file_len_open: "open_ok R s \<Longrightarrow> inodes s a = Some x \<Longrightarrow> file_len s (i_sector x) = i_length x"
  using find_open_iff[of R s "i_sector x" a] by (auto simp: file_len_def ino_def)

lemma vol_file_ok: "vol_ok R s \<Longrightarrow> inodes s a = Some x \<Longrightarrow> file_ok s a x"
proof -
  assume ok: "vol_ok R s" and x: "inodes s a = Some x"
  have n: "i_sector x \<in> R" "i_is_dir x \<or> \<not> i_locked x" using vol_okD(3)[OF ok] x by (auto simp: open_ok_def)
  then show ?thesis using vol_okD(1)[OF ok] vol_okD(2,4)[OF ok n(1)] file_len_open[OF vol_okD(3)[OF ok] x] x
    by (simp add: file_ok_def len_ok_def)
qed

section \<open>Updates of an open inode\<close>

lemma upd_inode_fields [simp]:
  "disk (upd_inode s a f) = disk s" "dsize (upd_inode s a f) = dsize s" "fmap (upd_inode s a f) = fmap s"
  "open_inodes (upd_inode s a f) = open_inodes s" "used (upd_inode s a f) = used s" "fs_ok (upd_inode s a f) = fs_ok s"
  "full (upd_inode s a f) = full s" "inodes (upd_inode s a f) b = (if b = a then map_option f (inodes s a) else inodes s b)"
  by (simp_all add: upd_inode_def used_def fs_ok_def full_def)

lemma upd_find_open:
  "inodes s a = Some x \<Longrightarrow> i_sector (f x) = i_sector x \<Longrightarrow> find_open (upd_inode s a f) as m = find_open s as m"
  by (induction as) (simp_all add: ino_def)

lemma upd_file_len:
  assumes "open_ok R s" and "inodes s a = Some x" and "i_sector (f x) = i_sector x"
  shows "file_len (upd_inode s a f) m = (if m = i_sector x then i_length (f x) else file_len s m)"
proof (cases "find_open s (open_inodes s) m")
  case None
  then have "m \<noteq> i_sector x" using find_open_iff[OF assms(1), of "i_sector x" a] assms(2) by auto
  then show ?thesis using None upd_find_open[where f = f, OF assms(2,3)] by (simp add: file_len_def)
next
  case (Some b)
  then have b: "\<exists>y. inodes s b = Some y \<and> i_sector y = m" using find_open_iff[OF assms(1)] by blast
  show ?thesis
  proof (cases "b = a")
    case True
    then show ?thesis using Some b assms upd_find_open[where f = f, OF assms(2,3)] by (auto simp: file_len_def ino_def)
  next
    case False
    then have "m \<noteq> i_sector x" using b assms(1,2) unfolding open_ok_def by metis
    then show ?thesis using Some False upd_find_open[where f = f, OF assms(2,3)] by (simp add: file_len_def ino_def)
  qed
qed

lemma upd_base:
  assumes "vol_base R s" and x: "inodes s a = Some x" and f: "i_sector (f x) = i_sector x" "open_cnt (f x) \<ge> 1"
    "i_is_dir (f x) \<or> \<not> i_locked (f x)" "i_dirty (f x) \<or> sint (wget (disk s (i_sector x)) 125) = i_length (f x)"
  shows "vol_base R (upd_inode s a f)"
proof -
  have o: "open_ok R s" using vol_baseD(3)[OF assms(1)] .
  have dm: "dom (inodes (upd_inode s a f)) = dom (inodes s)" using x by (auto simp: upd_inode_def)
  have el: "i_sector y \<in> R \<and> open_cnt y \<ge> 1 \<and> (i_is_dir y \<or> \<not> i_locked y) \<and>
      (i_dirty y \<or> sint (wget (disk s (i_sector y)) 125) = i_length y)" if "inodes (upd_inode s a f) b = Some y" for b y
    using that o x f by (cases "b = a") (auto simp: open_ok_def)
  have inj: "b = c" if e: "inodes (upd_inode s a f) b = Some y" "inodes (upd_inode s a f) c = Some z" "i_sector y = i_sector z"
    for b c y z
  proof -
    obtain y' z' where "inodes s b = Some y'" "inodes s c = Some z'" "i_sector y' = i_sector z'"
      using e x f(1) by (cases "b = a"; cases "c = a") auto
    then show ?thesis using o unfolding open_ok_def by metis
  qed
  have "open_ok R (upd_inode s a f)"
    using o dm el inj unfolding open_ok_def upd_inode_fields(1,4) by metis
  then show ?thesis using assms(1) by (simp add: vol_base_def)
qed

text \<open>Updates that keep the length.\<close>

lemma upd_vol:
  assumes ok: "vol_ok R s" and x: "inodes s a = Some x" and f: "i_sector (f x) = i_sector x" "open_cnt (f x) \<ge> 1"
    "i_is_dir (f x) \<or> \<not> i_locked (f x)" "i_dirty x \<Longrightarrow> i_dirty (f x)" "i_length (f x) = i_length x"
  shows "vol_ok R (upd_inode s a f)" and "contents (upd_inode s a f) m = contents s m"
proof -
  have o: "open_ok R s" using vol_okD(3)[OF ok] .
  have l: "file_len (upd_inode s a f) m = file_len s m" for m
    using upd_file_len[where f = f, OF o x f(1)] file_len_open[OF o x] f(5) by auto
  then show "contents (upd_inode s a f) m = contents s m" by (simp add: contents_def)
  have d: "i_dirty (f x) \<or> sint (wget (disk s (i_sector x)) 125) = i_length (f x)"
    using o x f unfolding open_ok_def by metis
  have "len_ok (upd_inode s a f) m = len_ok s m" for m using l by (simp add: len_ok_def)
  then show "vol_ok R (upd_inode s a f)"
    using upd_base[where f = f, OF vol_okD(6)[OF ok] x f(1-3) d] ok by (simp add: vol_ok_def)
qed

section \<open>Reading and writing files\<close>

lemma inode_read_vol:
  assumes ok: "vol_ok R s" and x: "inodes s a = Some x" and off: "0 \<le> off"
  shows "\<exists>bs s'. inode_read_at s a sz off = Inr (bs, s') \<and> vol_ok R s' \<and> same_inodes s s' \<and>
    used s \<subseteq> used s' \<and> (\<forall>m \<in> R. contents s' m = contents s m) \<and> length bs = nat (min (off + sz) (i_length x) - off) \<and>
    (mapped (disk s) (i_sector x) off (min (off + sz) (i_length x)) \<or> \<not> full s' \<longrightarrow>
       bs = take (nat sz) (drop (nat off) (contents s (i_sector x)))) \<and>
    (mapped (disk s) (i_sector x) off (min (off + sz) (i_length x)) \<longrightarrow> s' = s)"
proof -
  let ?n = "i_sector x"
  have o: "open_ok R s" using vol_okD(3)[OF ok] .
  have n: "?n \<in> R" using o x by (auto simp: open_ok_def)
  have l: "file_len s ?n = i_length x" using file_len_open[OF o x] .
  have ln: "0 \<le> i_length x" "i_length x \<le> int (MAX_BLOCKS * 512)" using vol_okD(4)[OF ok n] l by (auto simp: len_ok_def)
  from read_loop_ok[OF vol_file_ok[OF ok x] off, of sz "[]"] obtain bs s' where
    r: "read_loop s a sz off [] = Inr (bs, s')" "extends ?n s s'" "length bs = nat (min (off + sz) (i_length x) - off)"
    and b: "\<And>i. i < length bs \<Longrightarrow> hole (disk s) ?n (nat off + i) \<and> full s' \<or> bs ! i = file_byte (disk s) ?n (nat off + i)"
    and m: "mapped (disk s) ?n off (min (off + sz) (i_length x)) \<longrightarrow> s' = s" by auto
  have "bs = take (nat sz) (drop (nat off) (contents s ?n))"
    if "mapped (disk s) ?n off (min (off + sz) (i_length x)) \<or> \<not> full s'"
  proof (rule nth_equalityI)
    show len: "length bs = length (take (nat sz) (drop (nat off) (contents s ?n)))"
      using r(3) off ln l by (simp add: contents_def min_def) linarith
    fix i assume i: "i < length bs"
    then have "\<not> hole (disk s) ?n (nat off + i) \<or> \<not> full s'"
    proof (cases "full s'")
      case True
      moreover have "off \<le> off + int i" "off + int i < min (off + sz) (i_length x)" using i r(3) by linarith+
      moreover have "nat (off + int i) = nat off + i" using off by simp
      ultimately show ?thesis using that unfolding mapped_def hole_def by metis
    qed simp
    moreover have "nat off + i < length (contents s ?n)" "i < nat sz" using i len by auto
    ultimately show "bs ! i = take (nat sz) (drop (nat off) (contents s ?n)) ! i"
      using b[OF i] by (auto simp: contents_def nth_drop)
  qed
  then show ?thesis using r m extends_vol[OF ok n r(2)] by (auto simp: inode_read_at_def extends_defs)
qed

text \<open>
  The write of a sequence of bytes: the file is extended with zeros to the end of the request,
  then the bytes that were written replace what is there.
\<close>

definition file_put :: "u8 list \<Rightarrow> nat \<Rightarrow> nat \<Rightarrow> u8 list \<Rightarrow> u8 list" where
  "file_put xs i n ys = overwrite (xs @ replicate (i + n - length xs) 0) i ys"

lemma nth_file_put:
  "length ys \<le> n \<Longrightarrow> p < max (length xs) (i + n) \<Longrightarrow> file_put xs i n ys ! p =
    (if i \<le> p \<and> p < i + length ys then ys ! (p - i) else if p < length xs then xs ! p else 0)"
  unfolding file_put_def by (subst nth_overwrite) (auto simp: nth_append max_def split: if_splits)

lemma length_file_put: "length ys \<le> n \<Longrightarrow> length (file_put xs i n ys) = max (length xs) (i + n)"
  unfolding file_put_def by (subst length_overwrite) auto

lemma inode_write_vol:
  assumes ok: "vol_ok R s" and x: "inodes s a = Some x" and dw: "deny_write_cnt x = 0"
    and off: "0 \<le> off" "off + int (length buf) \<le> int (MAX_BLOCKS * 512)"
  shows "\<exists>k s'. inode_write_at s a buf (int (length buf)) off = Inr (int k, s') \<and> k \<le> length buf \<and> vol_ok R s' \<and>
    (k < length buf \<longrightarrow> full s') \<and> mapped (disk s') (i_sector x) off (off + int k) \<and>
    (mapped (disk s) (i_sector x) off (off + int (length buf)) \<longrightarrow> k = length buf) \<and>
    contents s' (i_sector x) = file_put (contents s (i_sector x)) (nat off) (length buf) (take k buf) \<and>
    (\<forall>m \<in> R. m \<noteq> i_sector x \<longrightarrow> contents s' m = contents s m) \<and>
    (\<exists>d. inodes s' = (inodes s)(a \<mapsto> x\<lparr>i_dirty := d, i_length := max (i_length x) (off + int (length buf))\<rparr>)) \<and>
    open_inodes s' = open_inodes s \<and> dsize s' = dsize s \<and> used s \<subseteq> used s' \<and>
    (\<forall>lo hi. 0 \<le> lo \<and> hi \<le> int (MAX_BLOCKS * 512) \<and> mapped (disk s) (i_sector x) lo hi \<longrightarrow>
      mapped (disk s') (i_sector x) lo hi)"
proof -
  let ?n = "i_sector x" and ?e = "off + int (length buf)" and ?len = "i_length x"
  have o: "open_ok R s" using vol_okD(3)[OF ok] .
  have n: "?n \<in> R" and lk: "i_is_dir x \<or> \<not> i_locked x" using o x by (auto simp: open_ok_def)
  have l: "file_len s ?n = ?len" using file_len_open[OF o x] .
  have lo: "0 \<le> ?len" "?len \<le> int (MAX_BLOCKS * 512)"
    and z: "\<And>p. p < MAX_BLOCKS * 512 \<Longrightarrow> ?len \<le> int p \<Longrightarrow> file_byte (disk s) ?n p = 0"
    using vol_okD(4)[OF ok n] l by (auto simp: len_ok_def)
  from write_loop_ok[OF vol_okD(1)[OF ok] vol_okD(2)[OF ok n] x refl off(1) _ off(2), of 0 buf]
  obtain k s1 where w: "write_loop s a buf (int (length buf)) off 0 = Inr (k, int (length buf) - k, off + k, s1)"
    "0 \<le> k" "k \<le> int (length buf)" "grows ?n s s1" "mapped (disk s1) ?n off (off + k)" "k < int (length buf) \<longrightarrow> full s1"
    "mapped (disk s) ?n off ?e \<longrightarrow> k = int (length buf)"
    and fb: "\<And>p. p < MAX_BLOCKS * 512 \<Longrightarrow> file_byte (disk s1) ?n p =
      (if nat off \<le> p \<and> p < nat (off + k) then buf ! (p - nat off) else file_byte (disk s) ?n p)" by auto
  have x1: "inodes s1 = inodes s" "open_inodes s1 = open_inodes s" "dsize s1 = dsize s" "used s \<subseteq> used s1" and o1: "open_ok R s1"
    using w(4) vol_baseD(3)[OF grows_base[OF ok n w(4)]] by (auto simp: grows_def same_inodes_def)
  have x1a: "inodes s1 a = Some x" using x1 x by simp
  define f where "f = (\<lambda>y::inode. if ?len < ?e then y\<lparr>i_dirty := True, i_length := ?e\<rparr> else y)"
  have f: "i_sector (f x) = i_sector x" "open_cnt (f x) \<ge> 1" "i_is_dir (f x) \<or> \<not> i_locked (f x)"
    "i_dirty (f x) \<or> sint (wget (disk s1 (i_sector x)) 125) = i_length (f x)" "i_length (f x) = max ?len ?e"
    using o1 x1a unfolding open_ok_def f_def by (auto simp: max_def)
  define s' where "s' = upd_inode s1 a f"
  have wr: "inode_write_at s a buf (int (length buf)) off = Inr (k, s')"
  proof -
    have i: "ino s a = x" "ino s1 a = x" using x x1 by (simp_all add: ino_def)
    have "\<not> ?len < ?e \<Longrightarrow> s' = s1" using x1a by (simp add: s'_def f_def upd_inode_def fun_upd_idem)
    then show ?thesis using dw w(1) i lk by (auto simp: inode_write_at_def s'_def f_def add.commute[of "int (length buf)" off])
  qed
  have b: "vol_base R s'" unfolding s'_def by (rule upd_base[where f = f, OF grows_base[OF ok n w(4)] x1a f(1-4)])
  note fl = upd_file_len[where f = f, OF o1 x1a f(1), folded s'_def]
  have d: "disk s' = disk s1" by (simp add: s'_def)
  have ln: "len_ok s' ?n"
    unfolding len_ok_def d fl using f(5) lo off(2) fb z w(2,3) by auto
  have other: "len_ok s' m \<and> contents s' m = contents s m" if m: "m \<in> R" "m \<noteq> ?n" for m
    using grows_other(4,5)[OF ok n w(4) m] fl[of m] m(2) by (simp add: len_ok_def contents_def d)
  then have v: "vol_ok R s'" using b ln by (auto simp: vol_ok_def)
  have c: "contents s' ?n = file_put (contents s ?n) (nat off) (length buf) (take (nat k) buf)"
  proof (rule nth_equalityI)
    have lt: "length (take (nat k) buf) \<le> length buf" by simp
    show le: "length (contents s' ?n) = length (file_put (contents s ?n) (nat off) (length buf) (take (nat k) buf))"
      unfolding length_file_put[OF lt] using fl f(5) l lo off(1) by (simp add: contents_def nat_add_distrib max_def)
    fix p assume p: "p < length (contents s' ?n)"
    then have pm: "p < max (length (contents s ?n)) (nat off + length buf)" using le length_file_put[OF lt] by metis
    have pb: "p < MAX_BLOCKS * 512" using p fl f(5) lo off(2) by (auto simp: contents_def)
    have "contents s' ?n ! p = file_byte (disk s1) ?n p" using p by (simp add: contents_def d)
    moreover have "contents s ?n ! p = file_byte (disk s) ?n p" if "p < length (contents s ?n)"
      using that by (simp add: contents_def)
    moreover have "file_byte (disk s) ?n p = 0" if "\<not> p < length (contents s ?n)"
      using z[OF pb] that l by (simp add: contents_def)
    moreover have "nat (off + k) = nat off + length (take (nat k) buf)" using off(1) w(2,3) by (simp add: nat_add_distrib)
    moreover have "take (nat k) buf ! (p - nat off) = buf ! (p - nat off)"
      if "nat off \<le> p" "p < nat off + length (take (nat k) buf)" using that by (intro nth_take) simp
    ultimately show "contents s' ?n ! p = file_put (contents s ?n) (nat off) (length buf) (take (nat k) buf) ! p"
      unfolding nth_file_put[OF lt pm] using fb[OF pb] by auto
  qed
  have "inodes s' = (inodes s)(a \<mapsto> x\<lparr>i_dirty := i_dirty (f x), i_length := max ?len ?e\<rparr>)"
    using x1 x by (auto simp: s'_def f_def max_def)
  moreover have "mapped (disk s') ?n lo hi"
    if "0 \<le> lo" "hi \<le> int (MAX_BLOCKS * 512)" "mapped (disk s) ?n lo hi" for lo hi
    unfolding d by (rule grows_mapped[OF w(4) that(3,2,1)])
  ultimately show ?thesis using wr v c other w(2,3,5,6,7) x1 d
    by (intro exI[of _ "nat k"] exI[of _ s']) (auto simp: s'_def)
qed

text \<open>What every operation keeps of the trees: the kind of each file, and the blocks it has.\<close>

definition keeps :: "block_sector_t set \<Rightarrow> fs \<Rightarrow> fs \<Rightarrow> bool" where
  "keeps R s s' \<longleftrightarrow> (\<forall>n \<in> R. disk s' n ! 504 = disk s n ! 504 \<and>
     (\<forall>b < MAX_BLOCKS. follow (disk s) n (path b) \<noteq> 0 \<longrightarrow> follow (disk s') n (path b) \<noteq> 0))"

lemma keeps_refl: "disk s' = disk s \<Longrightarrow> keeps R s s'"
  by (simp add: keeps_def)

lemma keeps_trans: "keeps R s s' \<Longrightarrow> keeps R s' s'' \<Longrightarrow> keeps R s s''"
  by (simp add: keeps_def)

lemma keeps_same:
  assumes "\<forall>n \<in> R. n \<noteq> 0 \<and> (\<forall>x \<in> nodes (disk s) n. disk s' x = disk s x)"
  shows "keeps R s s'"
  unfolding keeps_def
proof (intro ballI conjI allI impI)
  fix n assume n: "n \<in> R"
  have "n \<in> nodes (disk s) n" using nodesI[OF Nil_places, of "disk s" n] assms n by (auto simp: follow.simps)
  then show "disk s' n ! 504 = disk s n ! 504" using assms n by simp
  fix b assume "b < MAX_BLOCKS" "follow (disk s) n (path b) \<noteq> 0"
  then show "follow (disk s') n (path b) \<noteq> 0" using follow_same[of n "disk s" "disk s'"] path_places assms n by auto
qed

lemma grows_keeps:
  assumes ok: "vol_ok R s" and n: "n \<in> R" and g: "grows n s s'"
  shows "keeps R s s'"
proof -
  have "keeps (R - {n}) s s'"
  proof (rule keeps_same, intro ballI conjI)
    fix m assume m: "m \<in> R - {n}"
    then have t: "tree_ok (used s) (disk s) m" using vol_okD(2)[OF ok] by blast
    then show "m \<noteq> 0" by (simp add: tree_ok_def)
    fix x assume "x \<in> nodes (disk s) m"
    moreover have "nodes (disk s) m \<subseteq> used s" using t by (auto simp: tree_ok_def nodes_def)
    moreover have "nodes (disk s) m \<inter> nodes (disk s) n = {}" using vol_okD(5)[OF ok _ n] m by blast
    ultimately show "disk s' x = disk s x" using g unfolding grows_def by blast
  qed
  moreover have "disk s' n ! 504 = disk s n ! 504" "\<forall>b < MAX_BLOCKS. follow (disk s) n (path b) \<noteq> 0 \<longrightarrow> follow (disk s') n (path b) \<noteq> 0"
    using g by (simp_all add: grows_def)
  ultimately show ?thesis by (auto simp: keeps_def)
qed

lemma inode_write_keeps:
  assumes ok: "vol_ok R s" and x: "inodes s a = Some x" and off: "0 \<le> off" "off + int (length buf) \<le> int (MAX_BLOCKS * 512)"
    and w: "inode_write_at s a buf (int (length buf)) off = Inr (k, s')"
  shows "keeps R s s'"
proof (cases "deny_write_cnt x = 0")
  case True
  have n: "i_sector x \<in> R" using vol_okD(3)[OF ok] x by (auto simp: open_ok_def)
  from write_loop_ok[OF vol_okD(1)[OF ok] vol_okD(2)[OF ok n] x refl off(1) _ off(2), of 0 buf]
  obtain k1 s1 where l: "write_loop s a buf (int (length buf)) off 0 = Inr (k1, int (length buf) - k1, off + k1, s1)"
    "grows (i_sector x) s s1" by auto
  have "disk s' = disk s1" using w l(1) True x by (auto simp: inode_write_at_def ino_def asrt_def split: if_splits)
  then show ?thesis using grows_keeps[OF ok n l(2)] by (simp add: keeps_def)
next
  case False
  then show ?thesis using w x by (simp add: inode_write_at_def ino_def keeps_refl)
qed

text \<open>A write to one file leaves the sectors of the others as they were.\<close>

lemma inode_write_other:
  assumes ok: "vol_ok R s" and x: "inodes s a = Some x" and off: "0 \<le> off" "off + int (length buf) \<le> int (MAX_BLOCKS * 512)"
    and w: "inode_write_at s a buf (int (length buf)) off = Inr (k, s')" and m: "m \<in> R" "m \<noteq> i_sector x"
  shows "\<forall>y \<in> nodes (disk s) m. disk s' y = disk s y"
proof (cases "deny_write_cnt x = 0")
  case True
  have n: "i_sector x \<in> R" using vol_okD(3)[OF ok] x by (auto simp: open_ok_def)
  from write_loop_ok[OF vol_okD(1)[OF ok] vol_okD(2)[OF ok n] x refl off(1) _ off(2), of 0 buf]
  obtain k1 s1 where l: "write_loop s a buf (int (length buf)) off 0 = Inr (k1, int (length buf) - k1, off + k1, s1)"
    "grows (i_sector x) s s1" by auto
  have d: "disk s' = disk s1" using w l(1) True x by (auto simp: inode_write_at_def ino_def asrt_def split: if_splits)
  have "nodes (disk s) m \<subseteq> used s" using vol_okD(2)[OF ok m(1)] by (auto simp: tree_ok_def nodes_def)
  then show ?thesis using l(2) vol_okD(5)[OF ok m(1) n m(2)] unfolding grows_def d by blast
next
  case False
  then show ?thesis using w x by (simp add: inode_write_at_def ino_def)
qed

section \<open>Opening and closing\<close>

lemma follow_meta:
  assumes "tree_ok U D n" and "\<And>j. j < 125 \<Longrightarrow> wget d j = wget (D n) j" and "\<rho> \<in> places"
  shows "follow (D(n := d)) n \<rho> = follow D n \<rho>"
  using assms(3)
proof (induction \<rho> rule: rev_induct)
  case (snoc j \<rho>)
  have \<rho>: "\<rho> \<in> places" using places_snoc[OF snoc.prems] .
  have "follow D n \<rho> = n \<Longrightarrow> j < 125" using tree_at_root[OF assms(1) \<rho>] places_root snoc.prems by auto
  then show ?case using snoc.IH[OF \<rho>] assms(1,2) by (auto simp: follow_snoc tree_ok_def)
qed simp

text \<open>The write of an inode's length.\<close>

definition set_len :: "fs \<Rightarrow> block_sector_t \<Rightarrow> int \<Rightarrow> fs" where
  "set_len s n len = put_sector s n (wset (disk s n) 125 (word_of_int len))"

lemma set_len_fields [simp]:
  "used (set_len s n l) = used s" "inodes (set_len s n l) = inodes s" "open_inodes (set_len s n l) = open_inodes s"
  "dsize (set_len s n l) = dsize s" "fmap (set_len s n l) = fmap s"
  "find_open (set_len s n l) as m = find_open s as m" "ino (set_len s n l) a = ino s a"
  by (simp_all add: set_len_def put_sector_def used_def ino_def) (rule find_open_same, simp)

lemma sint_len: "0 \<le> len \<Longrightarrow> len \<le> int (MAX_BLOCKS * 512) \<Longrightarrow> sint (word_of_int len :: 32 word) = len"
  by (simp add: sint_sbintrunc' signed_take_bit_int_eq_self)

lemma set_len_ok:
  assumes ok: "vol_ok R s" and n: "n \<in> R" and l: "len = file_len s n"
  defines "s' \<equiv> set_len s n len"
  shows "vol_ok R s'" and "m \<in> R \<Longrightarrow> contents s' m = contents s m" and "file_len s' m = file_len s m"
    and "sint (wget (disk s' n) 125) = len" and "\<rho> \<in> places \<Longrightarrow> follow (disk s') n \<rho> = follow (disk s) n \<rho>"
proof -
  have t: "tree_ok (used s) (disk s) n" and fo: "fs_ok s" and o: "open_ok R s" using vol_okD[OF ok] n by auto
  have lr: "0 \<le> len" "len \<le> int (MAX_BLOCKS * 512)" using vol_okD(4)[OF ok n] l by (auto simp: len_ok_def)
  have len: "\<And>m. length (disk s m) = 512" using fo by (simp add: fs_ok_def)
  let ?d = "wset (disk s n) 125 (word_of_int len)"
  have D: "disk s' = (disk s)(n := ?d)" by (simp add: s'_def set_len_def put_sector_def)
  have g: "wget ?d j = (if j = 125 then word_of_int len else wget (disk s n) j)" if "j < 128" for j
    using wget_wset[OF len, of 125 j n "word_of_int len"] that by auto
  show s125: "sint (wget (disk s' n) 125) = len" using g[of 125] sint_len[OF lr] by (simp add: D)
  show f: "\<rho> \<in> places \<Longrightarrow> follow (disk s') n \<rho> = follow (disk s) n \<rho>" for \<rho>
    unfolding D by (rule follow_meta[OF t]) (simp_all add: g)
  have nd: "nodes (disk s') n = nodes (disk s) n" unfolding nodes_def by (rule Collect_cong) (use f in metis)
  have bd: "block_data (disk s') n b = block_data (disk s) n b" if "b < MAX_BLOCKS" for b
    using f[OF path_places[OF that]] tree_at_root[OF t path_places[OF that]] by (auto simp: block_data_def D)
  have tn: "tree_ok (used s') (disk s') n" using t f unfolding tree_ok_def by (auto simp: s'_def)
  have on: "tree_ok (used s') (disk s') m \<and> nodes (disk s') m = nodes (disk s) m \<and> disk s' m = disk s m \<and>
      (\<forall>b < MAX_BLOCKS. block_data (disk s') m b = block_data (disk s) m b)" if m: "m \<in> R" "m \<noteq> n" for m
  proof -
    have "n \<in> nodes (disk s) n" using nodesI[of "[]" "disk s" n] t by (simp add: tree_ok_def)
    then have "\<forall>x \<in> nodes (disk s) m. disk s' x = disk s x" using vol_okD(5)[OF ok m(1) n m(2)] by (auto simp: D)
    then show ?thesis using tree_same[OF vol_okD(2)[OF ok m(1)], of "disk s'" "used s'"] by (auto simp: s'_def)
  qed
  show fl: "file_len s' m = file_len s m" for m
    using s125 l D by (cases "m = n") (auto simp: file_len_def s'_def split: option.splits)
  have fb: "file_byte (disk s') m p = file_byte (disk s) m p" if "m \<in> R" "p < MAX_BLOCKS * 512" for m p
    using that on bd data_file_byte[of "disk s'" m "disk s"] by metis
  have lk: "len_ok s' m" if "m \<in> R" for m
    using len_ok_cong(1)[OF fl, of m] fb[OF that] vol_okD(4)[OF ok that] by blast
  show "m \<in> R \<Longrightarrow> contents s' m = contents s m"
    using len_ok_cong(2)[OF fl, of m] fb vol_okD(4)[OF ok] by blast
  have "fs_ok s'" using fo len by (simp add: s'_def fs_ok_def set_len_def put_sector_def used_def length_wset)
  moreover have "open_ok R s'"
  proof -
    have "sint (wget (disk s' (i_sector x)) 125) = i_length x"
      if "inodes s a = Some x" "i_dirty x \<or> sint (wget (disk s (i_sector x)) 125) = i_length x" "\<not> i_dirty x" for a x
      using that s125 l file_len_open[OF o that(1)] D by (cases "i_sector x = n") auto
    then show ?thesis using o unfolding open_ok_def s'_def by simp blast
  qed
  moreover have "nodes (disk s') m \<inter> nodes (disk s') k = {}" if "m \<in> R" "k \<in> R" "m \<noteq> k" for m k
    using vol_okD(5)[OF ok that] on nd that by metis
  moreover have "tree_ok (used s') (disk s') m" if "m \<in> R" for m using on[OF that] tn by auto
  ultimately show "vol_ok R s'" using lk by (simp add: vol_ok_def vol_base_def)
qed

lemma inode_open_vol:
  assumes ok: "vol_ok R s" and n: "n \<in> R" and b: "inodes s b = None"
  shows "\<exists>a s' y. inode_open s n (Some b) = Inr (Some a, s') \<and> vol_ok R s' \<and> disk s' = disk s \<and> used s' = used s \<and>
    (\<forall>m. contents s' m = contents s m) \<and> inodes s' = (inodes s)(a \<mapsto> y) \<and> i_sector y = n \<and> i_length y = file_len s n \<and>
    ((\<forall>c z. inodes s c = Some z \<longrightarrow> i_sector z \<noteq> n) \<longrightarrow> a = b \<and> deny_write_cnt y = 0 \<and> open_cnt y = 1 \<and> \<not> removed y \<and>
      i_is_dir y = (disk s n ! 504 \<noteq> 0) \<and> \<not> i_locked y) \<and>
    (\<forall>z. inodes s a = Some z \<longrightarrow> y = z\<lparr>open_cnt := open_cnt z + 1\<rparr>)"
proof (cases "find_open s (open_inodes s) n")
  case (Some a)
  have o: "open_ok R s" using vol_okD(3)[OF ok] .
  obtain x where x: "inodes s a = Some x" "i_sector x = n" using find_open_iff[OF o] Some by blast
  let ?f = "\<lambda>x::inode. x\<lparr>open_cnt := open_cnt x + 1\<rparr>"
  have c: "open_cnt (?f x) \<ge> 1" "i_is_dir (?f x) \<or> \<not> i_locked (?f x)" using o x(1) by (force simp: open_ok_def)+
  have u: "vol_ok R (upd_inode s a ?f)" "\<And>m. contents (upd_inode s a ?f) m = contents s m"
    using upd_vol[where f = ?f, OF ok x(1) _ c] by auto
  have "inode_open s n (Some b) = Inr (Some a, upd_inode s a ?f)" using Some by (simp add: inode_open_def inode_reopen_def)
  moreover have "inodes (upd_inode s a ?f) = (inodes s)(a \<mapsto> ?f x)" using x by (auto simp: upd_inode_def)
  moreover have "i_length (?f x) = file_len s n" using file_len_open[OF o x(1)] x(2) by simp
  ultimately show ?thesis using u x by (intro exI[of _ a] exI[of _ "upd_inode s a ?f"] exI[of _ "?f x"]) auto
next
  case None
  have o: "open_ok R s" and fo: "fs_ok s" using vol_okD[OF ok] by auto
  have t: "tree_ok (used s) (disk s) n" using vol_okD(2)[OF ok n] .
  define y where "y = \<lparr>i_sector = n, i_locked = False, open_cnt = 1, removed = False,
    i_is_dir = (disk s n ! 504 \<noteq> 0), i_dirty = False, deny_write_cnt = 0, i_length = sint (wget (disk s n) 125)\<rparr>"
  define s' where "s' = s\<lparr>open_inodes := b # open_inodes s, inodes := (inodes s)(b \<mapsto> y)\<rparr>"
  have e: "inode_open s n (Some b) = Inr (Some b, s')"
    using None used_lt[OF fo tree_root[OF t]] by (simp add: inode_open_def get_sector_def s'_def y_def)
  have u: "used s' = used s" and d: "disk s' = disk s" and fs': "fs_ok s' = fs_ok s"
    by (simp_all add: s'_def used_def fs_ok_def)
  have bn: "b \<notin> set (open_inodes s)" using o b by (auto simp: open_ok_def)
  have fo2: "find_open s' (open_inodes s) m = find_open s (open_inodes s) m" for m
  proof -
    have "set as \<subseteq> dom (inodes s) \<Longrightarrow> find_open s' as m = find_open s as m" for as
      using b by (induction as) (auto simp: s'_def ino_def)
    then show ?thesis using o by (simp add: open_ok_def)
  qed
  have l: "file_len s' m = file_len s m" for m
  proof -
    have i: "ino s' b = y" "\<And>c. c \<noteq> b \<Longrightarrow> ino s' c = ino s c" by (simp_all add: s'_def ino_def)
    have op: "open_inodes s' = b # open_inodes s" by (simp add: s'_def)
    show ?thesis
    proof (cases "m = n")
      case True
      then show ?thesis using None i op by (simp add: file_len_def y_def)
    next
      case False
      then have "find_open s' (open_inodes s') m = find_open s (open_inodes s) m" using i op fo2 by (simp add: y_def)
      moreover have "c \<noteq> b" if "find_open s (open_inodes s) m = Some c" for c
        using that b find_open_iff[OF o] by auto
      ultimately show ?thesis using i(2) d by (auto simp: file_len_def split: option.splits)
    qed
  qed
  then have c: "contents s' m = contents s m" "len_ok s' m = len_ok s m" for m
    by (simp_all add: contents_def len_ok_def d)
  have "open_ok R s'"
  proof -
    have "i_sector z \<noteq> n" if "inodes s c = Some z" for c z
      using None that find_open_iff[OF o, of n c] by auto
    then show ?thesis using o n b bn unfolding open_ok_def s'_def by (auto simp: y_def)
  qed
  then have "vol_ok R s'" using ok c u d fs' by (simp add: vol_ok_def vol_base_def)
  moreover have "inodes s' = (inodes s)(b \<mapsto> y)" by (simp add: s'_def)
  moreover have "i_length y = file_len s n" using None by (simp add: file_len_def y_def)
  ultimately show ?thesis using e u d c(1) b by (intro exI[of _ b] exI[of _ s'] exI[of _ y]) (simp add: y_def)
qed

text \<open>Closing first writes the length of a changed inode to its sector.\<close>

definition clean :: "fs \<Rightarrow> nat \<Rightarrow> fs" where
  "clean s a = (if i_dirty (ino s a)
     then upd_inode (set_len s (i_sector (ino s a)) (i_length (ino s a))) a (\<lambda>x. x\<lparr>i_dirty := False\<rparr>) else s)"

lemma clean_ok:
  assumes ok: "vol_ok R s" and x: "inodes s a = Some x"
  shows "vol_ok R (clean s a)" and "m \<in> R \<Longrightarrow> contents (clean s a) m = contents s m"
    and "file_len (clean s a) m = file_len s m"
    and "inodes (clean s a) = (inodes s)(a \<mapsto> x\<lparr>i_dirty := False\<rparr>)" and "used (clean s a) = used s"
    and "open_inodes (clean s a) = open_inodes s"
    and "\<rho> \<in> places \<Longrightarrow> follow (disk (clean s a)) (i_sector x) \<rho> = follow (disk s) (i_sector x) \<rho>"
proof -
  have o: "open_ok R s" using vol_okD(3)[OF ok] .
  have n: "i_sector x \<in> R" using o x by (auto simp: open_ok_def)
  have i: "ino s a = x" using x by (simp add: ino_def)
  note sl = set_len_ok[OF ok n file_len_open[OF o x, symmetric]]
  let ?s = "set_len s (i_sector x) (i_length x)" and ?f = "\<lambda>x::inode. x\<lparr>i_dirty := False\<rparr>"
  have x1: "inodes ?s a = Some x" using x by simp
  have c: "open_cnt (?f x) \<ge> 1" "i_is_dir (?f x) \<or> \<not> i_locked (?f x)" using o x by (force simp: open_ok_def)+
  have l: "file_len (upd_inode ?s a ?f) m = file_len s m" for m
    using upd_file_len[where f = ?f, OF vol_okD(3)[OF sl(1)] x1] sl(3)[of m] file_len_open[OF o x] by auto
  have v: "vol_ok R (upd_inode ?s a ?f)"
  proof -
    have "vol_base R (upd_inode ?s a ?f)"
      using upd_base[where f = ?f, OF vol_okD(6)[OF sl(1)] x1 _ c] sl(4) by simp
    moreover have "len_ok (upd_inode ?s a ?f) m" if "m \<in> R" for m
      using vol_okD(4)[OF sl(1) that] l[of m] sl(3)[of m] by (simp add: len_ok_def)
    ultimately show ?thesis by (simp add: vol_ok_def)
  qed
  show "vol_ok R (clean s a)" using v ok i by (simp add: clean_def)
  show fl: "file_len (clean s a) m = file_len s m" for m using l i by (simp add: clean_def)
  show "m \<in> R \<Longrightarrow> contents (clean s a) m = contents s m"
    using sl(2,3)[of m] l i by (simp add: clean_def contents_def)
  show "inodes (clean s a) = (inodes s)(a \<mapsto> x\<lparr>i_dirty := False\<rparr>)" using x i by (auto simp: clean_def upd_inode_def)
  show "used (clean s a) = used s" "open_inodes (clean s a) = open_inodes s" by (simp_all add: clean_def)
  show "\<rho> \<in> places \<Longrightarrow> follow (disk (clean s a)) (i_sector x) \<rho> = follow (disk s) (i_sector x) \<rho>"
    using sl(5) i by (simp add: clean_def)
qed

lemma inode_close_eq:
  assumes ok: "vol_ok R s" and x: "inodes s a = Some x"
  shows "inode_close s (Some a) =
    (let s = upd_inode (clean s a) a (\<lambda>x. x\<lparr>open_cnt := open_cnt x - 1\<rparr>)
     in if open_cnt x = 1
        then let s = s\<lparr>open_inodes := remove1 a (open_inodes s)\<rparr>
             in bnd (if removed x then bnd (inode_free_data s a) (\<lambda>s. free_map_release s (i_sector (ino s a)) 1) else Inr s)
                  (\<lambda>s. Inr (s\<lparr>inodes := (inodes s)(a := None)\<rparr>))
        else Inr s)"
proof -
  have o: "open_ok R s" and fo: "fs_ok s" using vol_okD[OF ok] by auto
  have n: "i_sector x \<in> R" using o x by (auto simp: open_ok_def)
  have gs: "get_sector s (i_sector x) = Inr (disk s (i_sector x))"
    using used_lt[OF fo tree_root[OF vol_okD(2)[OF ok n]]] by (simp add: get_sector_def)
  have i: "ino s a = x" using x by (simp add: ino_def)
  have "bnd (if i_dirty (ino s a)
       then bnd (get_sector s (i_sector (ino s a))) (\<lambda>d.
            Inr (upd_inode (put_sector s (i_sector (ino s a)) (wset d 125 (word_of_int (i_length (ino s a))))) a
              (\<lambda>x. x\<lparr>i_dirty := False\<rparr>)))
       else Inr s) f = f (clean s a)" for f :: "fs \<Rightarrow> fs res"
    using gs by (simp add: clean_def set_len_def i)
  moreover have "open_cnt (ino (upd_inode (clean s a) a (\<lambda>x. x\<lparr>open_cnt := open_cnt x - 1\<rparr>)) a) = open_cnt x - 1"
    "removed (ino (upd_inode (clean s a) a (\<lambda>x. x\<lparr>open_cnt := open_cnt x - 1\<rparr>) \<lparr>open_inodes := y\<rparr>) a) = removed x" for y
    using clean_ok(4)[OF ok x] by (simp_all add: ino_def upd_inode_def)
  ultimately show ?thesis unfolding inode_close_def by (simp add: Let_def)
qed

text \<open>The last close of a file takes it out of the table.\<close>

lemma close_table:
  assumes ok: "vol_ok R s" and x: "inodes s a = Some x" "\<not> i_dirty x"
  defines "s' \<equiv> s\<lparr>open_inodes := remove1 a (open_inodes s), inodes := (inodes s)(a := None)\<rparr>"
  shows "vol_ok R s'" and "contents s' m = contents s m" and "file_len s' m = file_len s m"
proof -
  have o: "open_ok R s" using vol_okD(3)[OF ok] .
  have sm: "used s' = used s" "disk s' = disk s" "fs_ok s' = fs_ok s" by (simp_all add: s'_def used_def fs_ok_def)
  have o': "open_ok R s'" using o unfolding open_ok_def s'_def by (auto simp: distinct_remove1)
  show l: "file_len s' m = file_len s m" for m
  proof (cases "find_open s (open_inodes s) m")
    case None
    then have "find_open s' (open_inodes s') m = None"
      unfolding find_open_none_iff[OF o] find_open_none_iff[OF o'] by (auto simp: s'_def)
    then show ?thesis using None sm by (simp add: file_len_def)
  next
    case (Some b)
    then obtain y where y: "inodes s b = Some y" "i_sector y = m" using find_open_iff[OF o] by blast
    show ?thesis
    proof (cases "b = a")
      case True
      then have "find_open s' (open_inodes s') m = None"
        unfolding find_open_none_iff[OF o'] using y o unfolding open_ok_def by (auto simp: s'_def)
      moreover have "sint (wget (disk s m) 125) = i_length x" using o x y True unfolding open_ok_def by auto
      ultimately show ?thesis using Some True x sm by (simp add: file_len_def ino_def)
    next
      case False
      then have "find_open s' (open_inodes s') m = Some b" using find_open_iff[OF o'] y by (auto simp: s'_def)
      then show ?thesis using Some False by (simp add: file_len_def ino_def s'_def)
    qed
  qed
  then show "contents s' m = contents s m" by (simp add: contents_def sm)
  have "len_ok s' m = len_ok s m" for m using l by (simp add: len_ok_def sm)
  then show "vol_ok R s'" using ok o' sm by (simp add: vol_ok_def vol_base_def)
qed

lemma inode_close_vol:
  assumes ok: "vol_ok R s" and x: "inodes s a = Some x" and rm: "\<not> (removed x \<and> open_cnt x = 1)"
  shows "\<exists>s'. inode_close s (Some a) = Inr s' \<and> vol_ok R s' \<and> (\<forall>m \<in> R. contents s' m = contents s m) \<and>
    used s' = used s \<and> inodes s' = (inodes s)(a := if open_cnt x = 1 then None
      else Some (x\<lparr>i_dirty := False, open_cnt := open_cnt x - 1\<rparr>))"
proof -
  note c = clean_ok[OF ok x]
  let ?g = "\<lambda>x::inode. x\<lparr>open_cnt := open_cnt x - 1\<rparr>" and ?x = "x\<lparr>i_dirty := False\<rparr>"
  have xc: "inodes (clean s a) a = Some ?x" using c(4) by simp
  show ?thesis
  proof (cases "open_cnt x = 1")
    case True
    define s' where "s' = (clean s a)\<lparr>open_inodes := remove1 a (open_inodes (clean s a)), inodes := (inodes (clean s a))(a := None)\<rparr>"
    have "inode_close s (Some a) = Inr s'"
      unfolding inode_close_eq[OF ok x] using True rm xc by (simp add: Let_def s'_def upd_inode_def)
    moreover have "inodes s' = (inodes s)(a := None)" using c(4) by (simp add: s'_def)
    moreover have "used s' = used s" using c(5) by (simp add: s'_def used_def)
    ultimately show ?thesis using True close_table[OF c(1) xc] c(2) by (simp add: s'_def)
  next
    case False
    have o: "open_ok R s" using vol_okD(3)[OF ok] .
    have oc: "open_cnt (?g ?x) \<ge> 1" "i_is_dir (?g ?x) \<or> \<not> i_locked (?g ?x)" using o x False by (force simp: open_ok_def)+
    let ?s = "upd_inode (clean s a) a ?g"
    have "vol_ok R ?s" "\<And>m. contents ?s m = contents (clean s a) m"
      using upd_vol[where f = ?g, OF c(1) xc _ oc] by auto
    moreover have "inode_close s (Some a) = Inr ?s" unfolding inode_close_eq[OF ok x] using False by (simp add: Let_def)
    moreover have "inodes ?s = (inodes s)(a \<mapsto> x\<lparr>i_dirty := False, open_cnt := open_cnt x - 1\<rparr>)"
      using c(4) by (auto simp: upd_inode_def)
    ultimately show ?thesis using False c(2,5) by (intro exI[of _ ?s]) auto
  qed
qed

end
