(* ===== verification/Volume_Ops.thy ===== *)
theory Volume_Ops
  imports Volume
begin

text \<open>
  Creating and deleting files, and the properties of the inode layer. \<open>inode_free_data\<close> releases
  the data blocks, the indirect block and the doubly indirect block of a tree, and \<open>inode_close\<close>
  then releases the inode; \<open>inode_create\<close> makes a file of zeros.
\<close>

section \<open>Deleting\<close>

declare follow.simps [simp del] upt_rec_numeral [simp del]

lemma free_map_release_ok:
  assumes ok: "fs_ok s" and x: "x \<in> used s" "x \<noteq> 0"
  shows "\<exists>s'. free_map_release s x 1 = Inr s' \<and> fs_ok s' \<and> same_inodes s s' \<and> disk s' = disk s \<and> used s' = used s - {x}"
proof -
  have wf: "wf_bitmap (fmap s)" and cap: "bit_cnt (fmap s) = dsize s" and mw: "map_writable s" "map_file s \<noteq> None"
    using ok by (simp_all add: fs_ok_def)
  have u1: "unat (1 :: size_t) = 1" by simp
  have ux: "unat x < unat (bit_cnt (fmap s))" "bits_of (fmap s) ! unat x" using x by (simp_all add: used_def used_of_def)
  then have le: "unat x + unat (1 :: size_t) \<le> unat (bit_cnt (fmap s))" by simp
  have "slice (bits_of (fmap s)) (unat x) 1 = [True]" using ux by (simp add: slice_def take_Suc_conv_app_nth)
  then have al: "bitmap_all (fmap s) x 1 = Inr True" using bitmap_queries(5)[OF wf le] by simp
  from bma.release_law[OF wf, of x 1] le obtain b where b: "bitmap_set_multiple (fmap s) x 1 False = Inr b"
    "wf_bitmap b" "unat (bit_cnt b) = unat (bit_cnt (fmap s))" "used_of b = used_of (fmap s) - {unat x}" by auto
  define s' where "s' = s\<lparr>fmap := b, map_file := Some (bitmap_bytes b)\<rparr>"
  have "free_map_release s x 1 = Inr s'" using al b(1) mw by (simp add: free_map_release_def Let_def write_map_def s'_def)
  moreover have "unat y = unat x \<longleftrightarrow> y = x" for y by (simp add: word_unat_eq_iff)
  then have us: "used s' = used s - {x}" using b(4) by (auto simp: used_def s'_def)
  moreover have "bit_cnt b = dsize s" using b(3) cap by (simp add: word_unat_eq_iff)
  then have "fs_ok s'" using ok b(2) us x(2) by (simp add: fs_ok_def s'_def)
  ultimately show ?thesis by (auto simp: s'_def same_inodes_def)
qed

lemma release_loop_ok:
  assumes "fs_ok s" and "set ws - {0} \<subseteq> used s" and "distinct (filter (\<lambda>w. w \<noteq> 0) ws)"
  shows "\<exists>s'. release_loop s ws = Inr s' \<and> fs_ok s' \<and> same_inodes s s' \<and> disk s' = disk s \<and>
    used s' = used s - (set ws - {0})"
  using assms
proof (induction ws arbitrary: s)
  case Nil
  then show ?case by simp
next
  case (Cons w ws)
  show ?case
  proof (cases "w = 0")
    case True
    then show ?thesis using Cons.IH[OF Cons.prems(1)] Cons.prems(2,3) by auto
  next
    case False
    from free_map_release_ok[OF Cons.prems(1) _ False] Cons.prems(2) False obtain s1 where
      s1: "free_map_release s w 1 = Inr s1" "fs_ok s1" "same_inodes s s1" "disk s1 = disk s" "used s1 = used s - {w}" by auto
    have "set ws - {0} \<subseteq> used s1" "distinct (filter (\<lambda>w. w \<noteq> 0) ws)" using Cons.prems False s1(5) by auto
    from Cons.IH[OF s1(2) this] obtain s' where "release_loop s1 ws = Inr s'" "fs_ok s'" "same_inodes s1 s'" "disk s' = disk s1"
      "used s' = used s1 - (set ws - {0})" by blast
    then show ?thesis using s1 False same_inodes_trans[OF s1(3)] by auto
  qed
qed

lemma bnd_Inr [simp]: "bnd r Inr = r"
  by (cases r) simp_all

lemma release_loop_append: "release_loop s (xs @ ys) = bnd (release_loop s xs) (\<lambda>s. release_loop s ys)"
  by (induction xs arbitrary: s) (auto simp: bnd_def split: sum.splits)

lemma release_loop_zero: "set ws \<subseteq> {0} \<Longrightarrow> release_loop s ws = Inr s"
  by (induction ws) auto

lemma free_map_release_frame: "free_map_release s w c = Inr s' \<Longrightarrow> disk s' = disk s \<and> same_inodes s s'"
  by (auto simp: free_map_release_def res_iffs Let_def write_map_def same_inodes_def split: if_splits)

lemma release_loop_frame: "release_loop s ws = Inr s' \<Longrightarrow> disk s' = disk s \<and> same_inodes s s'"
proof (induction ws arbitrary: s)
  case (Cons w ws)
  then obtain s1 where s1: "(if w \<noteq> 0 then free_map_release s w 1 else Inr s) = Inr s1" "release_loop s1 ws = Inr s'"
    by (auto simp: res_iffs)
  have "disk s1 = disk s \<and> same_inodes s s1" using s1(1) free_map_release_frame by (auto split: if_splits)
  then show ?case using Cons.IH[OF s1(2)] same_inodes_trans by auto
qed simp

lemma free_map_release_marked: "free_map_release s w c = Inr s' \<Longrightarrow> marked s' = marked s"
  by (auto simp: free_map_release_def res_iffs Let_def write_map_def split: if_splits)

lemma release_loop_marked: "release_loop s ws = Inr s' \<Longrightarrow> marked s' = marked s"
proof (induction ws arbitrary: s)
  case (Cons w ws)
  then obtain s1 where s1: "(if w \<noteq> 0 then free_map_release s w 1 else Inr s) = Inr s1" "release_loop s1 ws = Inr s'"
    by (auto simp: res_iffs)
  have "marked s1 = marked s" using s1(1) free_map_release_marked by (auto split: if_splits)
  then show ?case using Cons.IH[OF s1(2)] by simp
qed simp

text \<open>The places whose sectors are released, in the order of the code.\<close>

definition inner_places :: "nat list \<Rightarrow> nat list list" where
  "inner_places is = concat (map (\<lambda>i. map (\<lambda>j. [124, i, j]) [0..<128]) is)"

definition freed_places :: "nat list list" where
  "freed_places = map (\<lambda>i. [i]) [0..<123] @ (map (\<lambda>j. [123, j]) [0..<128] @ [[123]]) @
     (inner_places [0..<128] @ [[124]])"

lemma set_inner_places: "set (inner_places is) = {[124, i, j] | i j. i \<in> set is \<and> j < 128}"
  unfolding inner_places_def by auto

lemma set_freed_places:
  "set freed_places = {[i] | i. i < 125} \<union> {[123, j] | j. j < 128} \<union> {[124, i, j] | i j. i < 128 \<and> j < 128}"
proof -
  have m: "set (map f [0..<k]) = {f i | i. i < k}" for f :: "nat \<Rightarrow> nat list" and k by auto
  have "i < 125 \<longleftrightarrow> i < 123 \<or> i = 123 \<or> i = (124 :: nat)" for i by linarith
  then have e: "{[i] | i. i < 125} = {[i] | i. i < (123 :: nat)} \<union> {[123], [124]}" by auto
  have "set [0..<128] = {i. i < (128 :: nat)}" by auto
  then show ?thesis unfolding freed_places_def set_append m e set_inner_places by (simp only: mem_Collect_eq list.set) blast
qed

lemma distinct_inner: "distinct is \<Longrightarrow> distinct (inner_places is)"
  unfolding inner_places_def by (induction "is") (auto simp: distinct_map inj_on_def)

lemma distinct_freed: "distinct freed_places"
  unfolding freed_places_def using distinct_inner[of "[0..<128]"]
  by (auto simp: distinct_map inj_on_def inner_places_def)

lemma freed_subset: "set freed_places \<subseteq> places"
proof -
  have "[i] \<in> places" if "i < 125" for i
  proof -
    have "prefix [i] (path (if i < 123 then i else if i = 123 then 123 else 251))" using that by (simp add: path_def)
    moreover have "(if i < 123 then i else if i = 123 then 123 else 251) < MAX_BLOCKS" by simp
    ultimately show ?thesis unfolding places_def by blast
  qed
  moreover have "[123, j] \<in> places" if "j < 128" for j
    using path_places[of "123 + j"] that by (simp add: path_def)
  moreover have "[124, i, j] \<in> places" if "i < 128" "j < 128" for i j
  proof -
    have "path (251 + (128 * i + j)) = [124, i, j]" using that by (simp add: path_def)
    moreover have "251 + (128 * i + j) < MAX_BLOCKS" using that by simp
    ultimately show ?thesis using path_places by metis
  qed
  ultimately show ?thesis unfolding set_freed_places by blast
qed

lemma inner_place: "i < 128 \<Longrightarrow> [124, i] \<in> places"
proof -
  assume "i < 128"
  then have "[124, i, 0] \<in> set freed_places" unfolding set_freed_places by simp
  then have "[124, i] @ [0] \<in> places" using freed_subset by auto
  then show ?thesis by (rule places_append)
qed

lemma index_places: "[123] \<in> places" "[124] \<in> places"
  using freed_subset unfolding set_freed_places by auto

lemma places_freed:
  assumes "\<rho> \<in> places" and "\<rho> \<noteq> []" and "\<And>i. \<rho> \<noteq> [124, i]"
  shows "\<rho> \<in> set freed_places"
proof -
  from assms(1) obtain b where b: "b < MAX_BLOCKS" "prefix \<rho> (path b)" by (auto simp: places_def)
  have pc: "prefix \<rho> [p] \<Longrightarrow> \<rho> = [p]" "prefix \<rho> [p, q] \<Longrightarrow> \<rho> = [p] \<or> \<rho> = [p, q]"
    "prefix \<rho> [p, q, r] \<Longrightarrow> \<rho> = [p] \<or> \<rho> = [p, q] \<or> \<rho> = [p, q, r]" for p q r
    using assms(2) by (auto simp: prefix_Cons)
  consider "b < 123" | "123 \<le> b" "b < 251" | "251 \<le> b" by linarith
  then show ?thesis
  proof cases
    case 1
    then show ?thesis using b pc(1)[of b] by (auto simp: path_def set_freed_places)
  next
    case 2
    then show ?thesis using b pc(2)[of 123 "b - 123"] by (auto simp: path_def set_freed_places)
  next
    case 3
    then have "\<rho> = [124] \<or> \<rho> = [124, (b - 251) div 128, (b - 251) mod 128]"
      using b assms(3) pc(3)[of 124 "(b - 251) div 128" "(b - 251) mod 128"] by (auto simp: path_def)
    moreover have "(b - 251) div 128 < 128" using b(1) 3 by (simp add: less_mult_imp_div_less)
    ultimately show ?thesis by (auto simp: set_freed_places)
  qed
qed

text \<open>\<open>inode_free_data\<close> is one pass over these places.\<close>

lemma entries_follow:
  "n \<noteq> 0 \<Longrightarrow> map (\<lambda>j. follow D n (\<rho> @ [j])) [0..<k] = (if follow D n \<rho> = 0 then replicate k 0 else entries (D (follow D n \<rho>)) k)"
  by (auto simp: follow_snoc entries_def map_replicate_trivial)

text \<open>The marks do not matter to the free map.\<close>

definition marks :: "fs \<Rightarrow> block_sector_t set \<Rightarrow> fs" where
  "marks s M = s\<lparr>marked := M \<union> marked s\<rparr>"

lemma marks_simps [simp]:
  "mark_deleted (marks s M) n = marks s (insert n M)" "marks s {} = s" "disk (marks s M) = disk s" "dsize (marks s M) = dsize s"
  "inodes (marks s M) = inodes s" "open_inodes (marks s M) = open_inodes s" "used (marks s M) = used s"
  "fs_ok (marks s M) = fs_ok s" "get_sector (marks s M) w = get_sector s w" "marked (marks s M) = M \<union> marked s"
  "ino (marks s M) a = ino s a"
  by (simp_all add: marks_def mark_deleted_def used_def fs_ok_def get_sector_def ino_def)

lemma mark_deleted_marks: "mark_deleted s n = marks s {n}"
  by (simp add: marks_def mark_deleted_def)

lemma free_map_release_marks: "free_map_release s w c = Inr s' \<Longrightarrow> free_map_release (marks s M) w c = Inr (marks s' M)"
  by (auto simp: free_map_release_def res_iffs Let_def write_map_def marks_def split: if_splits)

lemma release_loop_marks: "release_loop s ws = Inr s' \<Longrightarrow> release_loop (marks s M) ws = Inr (marks s' M)"
proof (induction ws arbitrary: s)
  case (Cons w ws)
  then obtain s1 where "(if w \<noteq> 0 then free_map_release s w 1 else Inr s) = Inr s1" "release_loop s1 ws = Inr s'"
    by (auto simp: res_iffs)
  then show ?case using Cons.IH[of s1] free_map_release_marks[of s w 1 s1 M] by (auto split: if_splits)
qed simp

lemma release_inner_loop:
  assumes "n \<noteq> 0" and "disk s = D" and "\<And>i. i \<in> set is \<Longrightarrow> follow D n [124, i] < dsize s"
    and "release_loop s (map (follow D n) (inner_places is)) = Inr s'"
  shows "release_inner (marks s M) (map (\<lambda>i. follow D n [124, i]) is)
    = Inr (marks s' ((\<lambda>i. follow D n [124, i]) ` set is - {0} \<union> M))"
  using assms(2-4)
proof (induction "is" arbitrary: s M)
  case Nil
  then show ?case by (simp add: inner_places_def)
next
  case (Cons i "is")
  let ?w = "follow D n [124, i]" and ?h = "\<lambda>i. map (follow D n) (map (\<lambda>j. [124, i, j]) [0..<128])"
  have m: "?h i = (if ?w = 0 then replicate 128 0 else entries (D ?w) 128)"
    using entries_follow[OF assms(1), of D "[124, i]" 128] by (simp add: comp_def)
  have "map (follow D n) (inner_places (i # is)) = ?h i @ map (follow D n) (inner_places is)" by (simp add: inner_places_def)
  then obtain s1 where s1: "release_loop s (?h i) = Inr s1" "release_loop s1 (map (follow D n) (inner_places is)) = Inr s'"
    using Cons.prems(3) by (auto simp: release_loop_append res_iffs simp del: map_map)
  have f: "disk s1 = D" "\<And>i. i \<in> set is \<Longrightarrow> follow D n [124, i] < dsize s1"
    using release_loop_frame[OF s1(1)] Cons.prems by (auto simp: same_inodes_def)
  have w: "?w < dsize s" using Cons.prems(2) by simp
  show ?case
  proof (cases "?w = 0")
    case True
    then have "s1 = s" using s1(1) release_loop_zero[of "replicate 128 0" s] by (simp add: m del: map_map)
    then show ?thesis using True Cons.IH[OF f s1(2), of M] by simp
  next
    case False
    then have "release_loop (marks s M) (entries (D ?w) 128) = Inr (marks s1 M)"
      using release_loop_marks[OF s1(1)] m by (simp del: map_map)
    then show ?thesis using False w Cons.prems(1) Cons.IH[OF f s1(2), of "insert ?w M"]
      by (simp add: get_sector_def insert_Diff_if Un_commute Un_left_commute)
  qed
qed

text \<open>The index blocks of a file, which \<open>inode_free_data\<close> marks deleted.\<close>

definition index_blocks :: "(block_sector_t \<Rightarrow> u8 list) \<Rightarrow> block_sector_t \<Rightarrow> block_sector_t set" where
  "index_blocks D n = insert n (insert (follow D n [123]) (insert (follow D n [124]) {follow D n [124, i] | i. i < 128}) - {0})"

lemma inode_free_data_loop:
  assumes ok: "fs_ok s" and t: "tree_ok (used s) (disk s) (i_sector (ino s a))"
    and r: "release_loop s (map (follow (disk s) (i_sector (ino s a))) freed_places) = Inr s'"
  shows "inode_free_data s a = Inr (marks s' (index_blocks (disk s) (i_sector (ino s a))))"
proof -
  let ?n = "i_sector (ino s a)" and ?D = "disk s"
  have n: "?n \<noteq> 0" using t by (simp add: tree_ok_def)
  have lt: "follow ?D ?n \<rho> < dsize s" if "\<rho> \<in> places" for \<rho>
    using used_lt[OF ok] t that ok unfolding tree_ok_def fs_ok_def by metis
  have g0: "get_sector s ?n = Inr (?D ?n)" using lt[of "[]"] by (simp add: get_sector_def follow.simps)
  have w: "wget (?D ?n) i = follow ?D ?n [i]" for i by (simp add: follow.simps)
  note p = index_places inner_place
  let ?ind = "follow ?D ?n [123]" and ?two = "follow ?D ?n [124]"
  have d: "entries (?D ?n) 123 = map (follow ?D ?n) (map (\<lambda>i. [i]) [0..<123])" by (simp add: entries_def w)
  define xs ys zs where "xs = map (follow ?D ?n) (map (\<lambda>i. [i]) [0..<123])"
    and "ys = map (follow ?D ?n) (map (\<lambda>j. [123, j]) [0..<128])" and "zs = map (follow ?D ?n) (inner_places [0..<128])"
  have fp: "map (follow ?D ?n) freed_places = xs @ (ys @ [?ind]) @ (zs @ [?two])"
    by (simp add: freed_places_def xs_def ys_def zs_def)
  obtain s1 s2 s3 s4 where r1: "release_loop s xs = Inr s1" and r2: "release_loop s1 ys = Inr s2"
    and r3: "release_loop s2 [?ind] = Inr s3" and r4: "release_loop s3 zs = Inr s4" and r5: "release_loop s4 [?two] = Inr s'"
    using r unfolding fp release_loop_append bnd_eq_Inr_iff by blast
  have f1: "disk s1 = ?D" "dsize s1 = dsize s" "ino s1 a = ino s a"
    using release_loop_frame[OF r1] by (auto simp: same_inodes_def ino_def)
  have f3: "disk s3 = ?D" "dsize s3 = dsize s"
    using release_loop_frame[OF r2] release_loop_frame[OF r3] f1 by (auto simp: same_inodes_def)
  have y: "(if ?ind \<noteq> 0 then bnd (get_sector (marks s1 {?n}) ?ind) (\<lambda>d. bnd (release_loop (marks s1 {?n}) (entries d 128)) (\<lambda>s.
      bnd (free_map_release s ?ind 1) (\<lambda>s. Inr (mark_deleted s ?ind)))) else Inr (marks s1 {?n}))
      = Inr (marks s3 ({?ind} - {0} \<union> {?n}))"
  proof (cases "?ind = 0")
    case True
    then have "s2 = s1" using r2 release_loop_zero[of "replicate 128 0" s1] entries_follow[OF n, of ?D "[123]" 128] by (simp add: ys_def comp_def)
    then show ?thesis using True r3 by simp
  next
    case False
    then have "ys = entries (?D ?ind) 128" using entries_follow[OF n, of ?D "[123]" 128] by (simp add: ys_def comp_def)
    moreover have "free_map_release s2 ?ind 1 = Inr s3" using r3 False by simp
    ultimately show ?thesis
      using False lt[OF p(1)] f1 release_loop_marks[OF r2] free_map_release_marks
      by (simp add: get_sector_def insert_commute)
  qed
  let ?M = "{?ind} - {0} \<union> {?n}" and ?I = "{follow ?D ?n [124, i] | i. i < 128}"
  have z: "(if ?two \<noteq> 0 then bnd (get_sector (marks s3 ?M) ?two) (\<lambda>d. bnd (release_inner (marks s3 ?M) (entries d 128)) (\<lambda>s.
      bnd (free_map_release s ?two 1) (\<lambda>s. Inr (mark_deleted s ?two)))) else Inr (marks s3 ?M))
      = Inr (marks s' (index_blocks ?D ?n))"
  proof (cases "?two = 0")
    case True
    then have z0: "follow ?D ?n ([124] @ \<sigma>) = 0" for \<sigma> using follow_append_zero n by metis
    then have "set zs \<subseteq> {0}" by (auto simp: zs_def set_inner_places)
    then have "s4 = s3" using r4 release_loop_zero by simp
    moreover have "?I = {0}" using z0[of "[i]" for i] by (auto intro: exI[of _ 0])
    then have "index_blocks ?D ?n = ?M" using True n by (auto simp: index_blocks_def)
    ultimately show ?thesis using True r5 by simp
  next
    case False
    have "entries (?D ?two) 128 = map (\<lambda>i. follow ?D ?n [124, i]) [0..<128]"
      using entries_follow[OF n, of ?D "[124]" 128] False by simp
    moreover have "(\<lambda>i. follow ?D ?n [124, i]) ` set [0..<128] = ?I" by auto
    ultimately have i: "release_inner (marks s3 ?M) (entries (?D ?two) 128) = Inr (marks s4 (?I - {0} \<union> ?M))"
      using release_inner_loop[OF n f3(1), of "[0..<128]" s4 ?M] lt[OF p(3)] f3(2) r4 by (simp add: zs_def)
    have "insert ?two (?I - {0} \<union> ?M) = index_blocks ?D ?n" using False n by (auto simp: index_blocks_def)
    moreover have "free_map_release s4 ?two 1 = Inr s'" using r5 False by simp
    ultimately show ?thesis using False lt[OF p(2)] f3 i free_map_release_marks by (simp add: get_sector_def)
  qed
  have t124: "NDIRECT + 1 = (124 :: nat)" by simp
  show ?thesis
    unfolding inode_free_data_def g0 bnd_simps Let_def d xs_def[symmetric] r1 t124 w mark_deleted_marks[of s1] f1(3) y z ..
qed

lemma table_upd [simp]:
  "used (s\<lparr>inodes := i\<rparr>) = used s" "fs_ok (s\<lparr>inodes := i\<rparr>) = fs_ok s"
  "used (s\<lparr>open_inodes := l\<rparr>) = used s" "fs_ok (s\<lparr>open_inodes := l\<rparr>) = fs_ok s"
  by (simp_all add: used_def fs_ok_def)

text \<open>The last close of a removed file.\<close>

lemma nodes_freed:
  "nodes D n - {follow D n [124, i] | i. i < 128} \<subseteq> insert n (set (map (follow D n) freed_places))"
proof
  fix y assume "y \<in> nodes D n - {follow D n [124, i] | i. i < 128}"
  then obtain \<rho> where r: "\<rho> \<in> places" "y = follow D n \<rho>" "\<forall>i < 128. y \<noteq> follow D n [124, i]" by (auto simp: nodes_def)
  have "\<rho> \<noteq> [124, i]" for i using r places_index[of "[124]" i "[]"] by auto
  then show "y \<in> insert n (set (map (follow D n) freed_places))"
    using places_freed[OF r(1)] r(2) by (cases "\<rho> = []") (auto simp: follow.simps)
qed

lemma freed_nodes:
  assumes t: "tree_ok U D n"
  shows "(set (map (follow D n) freed_places) - {0}) \<union> {n} = nodes D n - {follow D n [124, i] | i. i < 128}"
    (is "?F \<union> {n} = _ - ?I")
proof
  have n: "n \<noteq> 0" "n \<in> nodes D n" using t nodesI[of "[]" D n] by (auto simp: tree_ok_def follow.simps)
  have inj: "\<rho> = \<sigma>" if "\<rho> \<in> places" "\<sigma> \<in> places" "follow D n \<rho> = follow D n \<sigma>" "follow D n \<rho> \<noteq> 0" for \<rho> \<sigma>
    using t that unfolding tree_ok_def by metis
  note p = inner_place
  have a1: "?F \<subseteq> nodes D n" using freed_subset by (auto simp: nodes_def)
  have nf: "[124, i] \<notin> set freed_places" for i unfolding set_freed_places by auto
  have a2: "?F \<inter> ?I = {}"
  proof (rule ccontr)
    assume "?F \<inter> ?I \<noteq> {}"
    then obtain y where y: "y \<in> ?F" "y \<in> ?I" by blast
    from y(1) obtain \<rho> where "\<rho> \<in> set freed_places" "y = follow D n \<rho>" "y \<noteq> 0" by auto
    moreover from y(2) obtain i where "i < 128" "y = follow D n [124, i]" by auto
    ultimately have r: "\<rho> \<in> set freed_places" "follow D n \<rho> \<noteq> 0" "i < 128" "follow D n \<rho> = follow D n [124, i]" by auto
    then have "\<rho> = [124, i]" using inj[of \<rho> "[124, i]"] p freed_subset by auto
    then show False using r(1) nf by simp
  qed
  have a3: "n \<notin> ?I"
  proof
    assume "n \<in> ?I"
    then obtain i where "i < 128" "follow D n [124, i] = n" by auto
    then have "[124, i] = []" using tree_at_root[OF t p] by blast
    then show False by simp
  qed
  have a4: "A \<subseteq> N \<Longrightarrow> A \<inter> I = {} \<Longrightarrow> n \<notin> I \<Longrightarrow> n \<in> N \<Longrightarrow> A \<union> {n} \<subseteq> N - I" for A I N by auto
  show "?F \<union> {n} \<subseteq> nodes D n - ?I" by (rule a4[OF a1 a2 a3 n(2)])
  have "0 \<notin> nodes D n" by (auto simp: nodes_def)
  then have a5: "A \<subseteq> nodes D n \<Longrightarrow> A \<subseteq> insert n B \<Longrightarrow> A \<subseteq> (B - {0}) \<union> {n}" for A B by blast
  show "nodes D n - ?I \<subseteq> ?F \<union> {n}" by (rule a5[OF Diff_subset nodes_freed])
qed

lemma tree_shrink:
  assumes ok: "vol_ok R s" and n: "n \<in> R" and m: "m \<in> R" "m \<noteq> n" and u: "used s - nodes (disk s) n \<subseteq> U"
  shows "tree_ok U (disk s) m"
proof -
  have "nodes (disk s) m \<inter> used s \<subseteq> U" using vol_okD(5)[OF ok m(1) n m(2)] u by auto
  then show ?thesis using tree_same(1)[OF vol_okD(2)[OF ok m(1)], of "disk s" U] by simp
qed

lemma inode_close_removed_vol:
  assumes ok: "vol_ok R s" and x: "inodes s a = Some x" and rm: "removed x" "open_cnt x = 1"
  shows "\<exists>s'. inode_close s (Some a) = Inr s' \<and> vol_ok (R - {i_sector x}) s' \<and>
    (\<forall>m \<in> R - {i_sector x}. contents s' m = contents s m) \<and> inodes s' = (inodes s)(a := None) \<and>
    used s' = used s - (nodes (disk s) (i_sector x) - {follow (disk s) (i_sector x) [124, i] | i. i < 128}) \<and>
    marked s' = marked s \<union> index_blocks (disk s) (i_sector x)"
proof -
  let ?n = "i_sector x"
  note c = clean_ok[OF ok x]
  let ?x = "x\<lparr>i_dirty := False, open_cnt := 0\<rparr>" and ?D = "disk (clean s a)"
  define s1 where "s1 = (upd_inode (clean s a) a (\<lambda>x. x\<lparr>open_cnt := open_cnt x - 1\<rparr>))\<lparr>open_inodes := remove1 a (open_inodes s)\<rparr>"
  have n: "?n \<in> R" using vol_okD(3)[OF ok] x by (auto simp: open_ok_def)
  have i1: "inodes s1 = (inodes s)(a \<mapsto> ?x)" using c(4) rm by (auto simp: s1_def)
  have s1: "disk s1 = ?D" "used s1 = used s" "fs_ok s1" "ino s1 a = ?x" "dsize s1 = dsize (clean s a)"
    using c(5) vol_okD(1)[OF c(1)] i1 by (simp_all add: s1_def used_def fs_ok_def ino_def upd_inode_def)
  have t: "tree_ok (used s1) (disk s1) ?n" using vol_okD(2)[OF c(1) n] c(5) s1 by simp
  have t': "tree_ok (used s) ?D ?n" using t s1 by simp
  let ?F = "map (follow ?D ?n) freed_places"
  have sub: "set ?F - {0} \<subseteq> used s1" using t' freed_subset s1(2) unfolding tree_ok_def by auto
  have dis: "distinct (filter (\<lambda>w. w \<noteq> 0) ?F)"
  proof -
    have "inj_on (follow ?D ?n) (set (filter (\<lambda>\<rho>. follow ?D ?n \<rho> \<noteq> 0) freed_places))"
    proof (rule inj_onI)
      fix \<rho> \<sigma> assume e: "\<rho> \<in> set (filter (\<lambda>\<rho>. follow ?D ?n \<rho> \<noteq> 0) freed_places)"
        "\<sigma> \<in> set (filter (\<lambda>\<rho>. follow ?D ?n \<rho> \<noteq> 0) freed_places)" "follow ?D ?n \<rho> = follow ?D ?n \<sigma>"
      then have "\<rho> \<in> places" "\<sigma> \<in> places" "follow ?D ?n \<rho> \<noteq> 0" using freed_subset by auto
      then show "\<rho> = \<sigma>" using t' e(3) unfolding tree_ok_def by metis
    qed
    then show ?thesis using distinct_freed by (simp add: filter_map comp_def distinct_map)
  qed
  from release_loop_ok[OF s1(3) sub dis] obtain r where r: "release_loop s1 ?F = Inr r" "fs_ok r" "same_inodes s1 r"
    "disk r = ?D" "used r = used s - (set ?F - {0})" using s1 by auto
  define s2 where "s2 = marks r (index_blocks ?D ?n)"
  have s2: "fs_ok s2" "same_inodes s1 s2" "disk s2 = ?D" "used s2 = used s - (set ?F - {0})"
    using r by (simp_all add: s2_def same_inodes_def)
  have fd: "inode_free_data s1 a = Inr s2" using inode_free_data_loop[OF s1(3), of a] t s1 r(1) by (simp add: s2_def)
  have nF: "?n \<notin> set ?F"
  proof
    assume "?n \<in> set ?F"
    then obtain \<rho> where r: "\<rho> \<in> set freed_places" "follow ?D ?n \<rho> = ?n" by auto
    then have "\<rho> = []" using tree_at_root[OF t'] freed_subset by auto
    then show False using r(1) unfolding set_freed_places by auto
  qed
  have i2: "ino s2 a = ?x" using s2(2) s1(4) by (simp add: same_inodes_def ino_def)
  have "?n \<in> used s2" "?n \<noteq> 0" using s2(4) nF tree_root[OF t'] t' by (auto simp: tree_ok_def)
  from free_map_release_ok[OF s2(1) this] obtain s3 where s3: "free_map_release s2 ?n 1 = Inr s3" "fs_ok s3" "same_inodes s2 s3"
    "disk s3 = ?D" "used s3 = used s - (set ?F - {0}) - {?n}" using s2 by auto
  define s' where "s' = s3\<lparr>inodes := (inodes s3)(a := None)\<rparr>"
  have cl: "inode_close s (Some a) = Inr s'"
    unfolding inode_close_eq[OF ok x] using rm fd i2 s3(1) c(6) by (simp add: Let_def s'_def s1_def)
  have f: "disk s' = ?D" "used s' = used s3" "fs_ok s'" "inodes s' = (inodes s)(a := None)"
    "open_inodes s' = remove1 a (open_inodes s)"
    using s3 s2(2) i1 by (simp_all add: s'_def same_inodes_def s1_def)
  have inn: "{follow ?D ?n [124, i] | i. i < 128} = {follow (disk s) ?n [124, i] | i. i < 128}"
    using c(7)[OF inner_place] by force
  have "marked s1 = marked s" by (simp add: s1_def clean_def set_len_def put_sector_def upd_inode_def)
  moreover have "index_blocks ?D ?n = index_blocks (disk s) ?n"
    unfolding index_blocks_def inn c(7)[OF index_places(1)] c(7)[OF index_places(2)] ..
  ultimately have mk: "marked s' = marked s \<union> index_blocks (disk s) ?n"
    using release_loop_marked[OF r(1)] free_map_release_marked[OF s3(1)] by (auto simp: s'_def s2_def)
  define q where "q = (clean s a)\<lparr>open_inodes := remove1 a (open_inodes (clean s a)), inodes := (inodes (clean s a))(a := None)\<rparr>"
  have xc: "inodes (clean s a) a = Some (x\<lparr>i_dirty := False\<rparr>)" "\<not> i_dirty (x\<lparr>i_dirty := False\<rparr>)" using c(4) by simp_all
  note q = close_table[OF c(1) xc, folded q_def]
  have eq: "disk q = disk s'" "inodes q = inodes s'" "open_inodes q = open_inodes s'" "used q = used s"
    using f c(4-6) by (simp_all add: q_def used_def)
  have fl: "file_len s' m = file_len q m" for m
    using eq find_open_same[of s' q] by (auto simp: file_len_def ino_def split: option.splits)
  have co: "contents s' m = contents s m" if "m \<in> R" for m
    using fl q(2) c(2)[OF that] eq by (simp add: contents_def)
  have nd: "nodes ?D ?n = nodes (disk s) ?n" unfolding nodes_def by (rule Collect_cong) (use c(7) in metis)
  have us: "used s' = used s - (nodes (disk s) ?n - {follow (disk s) ?n [124, i] | i. i < 128})"
  proof -
    have "A - B - C = A - (B \<union> C)" for A B C :: "block_sector_t set" by auto
    then have "used s' = used s - ((set ?F - {0}) \<union> {?n})" using f(2) s3(5) by simp
    then show ?thesis unfolding freed_nodes[OF t'] nd inn .
  qed
  have "vol_ok (R - {?n}) s'"
    unfolding vol_ok_def vol_base_def
  proof (intro conjI ballI impI)
    show "fs_ok s'" by (rule f(3))
    fix m assume m: "m \<in> R - {?n}"
    show "tree_ok (used s') (disk s') m"
      using tree_shrink[OF q(1) n, of m "used s'"] m us eq nd f(1) by auto
    show "len_ok s' m" using vol_okD(4)[OF q(1), of m] m fl eq by (simp add: len_ok_def)
    fix k assume "k \<in> R - {?n}" "m \<noteq> k"
    then show "nodes (disk s') m \<inter> nodes (disk s') k = {}" using vol_okD(5)[OF q(1), of m k] m eq by auto
  next
    have "i_sector y \<noteq> ?n" if "inodes s' b = Some y" for b y
      using that f(4) vol_okD(3)[OF ok] x unfolding open_ok_def by (auto split: if_splits)
    then show "open_ok (R - {?n}) s'" using vol_okD(3)[OF q(1)] eq unfolding open_ok_def by auto
  qed
  then show ?thesis using cl co f(4) us mk by auto
qed

section \<open>Creating\<close>

lemma new_inode_words:
  "length (new_inode_disk len dir) = 512"
  "j < 125 \<Longrightarrow> wget (new_inode_disk len dir) j = 0"
  "0 \<le> len \<Longrightarrow> len \<le> int (MAX_BLOCKS * 512) \<Longrightarrow> sint (wget (new_inode_disk len dir) 125) = len"
  "new_inode_disk len dir ! 504 = (if dir then 1 else 0)"
  by (simp_all add: new_inode_disk_def wget_wset length_wset nth_wset sint_len)

lemma new_root:
  fixes dir :: bool
  assumes ok: "vol_ok R s" and n: "n \<in> used s" "n \<noteq> 0" "n \<notin> R" "\<forall>m \<in> R. n \<notin> nodes (disk s) m"
    and len: "0 \<le> len" "len \<le> int (MAX_BLOCKS * 512)"
  defines "s' \<equiv> put_sector s n (new_inode_disk len dir)"
  shows "vol_ok (insert n R) s'" and "contents s' n = replicate (nat len) 0" and "m \<in> R \<Longrightarrow> contents s' m = contents s m"
    and "file_len s' n = len" and "nodes (disk s') n = {n}"
proof -
  have o: "open_ok R s" and fo: "fs_ok s" using vol_okD[OF ok] by auto
  let ?d = "new_inode_disk len dir"
  have D: "disk s' = (disk s)(n := ?d)" and same: "used s' = used s" "inodes s' = inodes s" "open_inodes s' = open_inodes s"
    by (simp_all add: s'_def put_sector_def used_def)
  have z: "follow (disk s') n \<rho> = 0" if "\<rho> \<in> places" "\<rho> \<noteq> []" for \<rho>
  proof (cases \<rho>)
    case (Cons i \<sigma>)
    have "i < 125" using places_root[of i] places_append[of "[i]" \<sigma>] that(1) Cons by simp
    then show ?thesis using Cons new_inode_words(2)[of i len dir] by (simp add: follow.simps D)
  qed (use that in simp)
  show nd: "nodes (disk s') n = {n}" using z n(2) nodesI[of "[]" "disk s'" n] unfolding nodes_def by (auto simp: follow.simps) metis
  have t: "tree_ok (used s') (disk s') n"
    unfolding tree_ok_def
  proof (intro conjI ballI impI)
    show "n \<noteq> 0" by (rule n(2))
    fix \<rho> assume r: "\<rho> \<in> places"
    show "follow (disk s') n \<rho> \<noteq> 0 \<Longrightarrow> follow (disk s') n \<rho> \<in> used s'"
      using z[OF r] n(1) same(1) by (cases "\<rho> = []") (auto simp: follow.simps)
    fix \<sigma> assume "\<sigma> \<in> places" "follow (disk s') n \<rho> \<noteq> 0 \<and> follow (disk s') n \<rho> = follow (disk s') n \<sigma>"
    then show "\<rho> = \<sigma>" using z[OF r] z[of \<sigma>] by metis
  qed
  have fb: "file_byte (disk s') n p = 0" if "p < MAX_BLOCKS * 512" for p
    using z[OF path_places[of "p div 512"]] that by (simp add: file_byte_def block_data_def less_mult_imp_div_less)
  have no: "find_open s (open_inodes s) n = None"
    unfolding find_open_none_iff[OF o] using o n(3) unfolding open_ok_def by metis
  show fl: "file_len s' n = len"
    using no find_open_same[of s' s "open_inodes s" n] same new_inode_words(3)[OF len] by (simp add: file_len_def D)
  then show "contents s' n = replicate (nat len) 0"
    using fb len by (auto simp: contents_def intro!: nth_equalityI)
  have on: "tree_ok (used s') (disk s') m \<and> nodes (disk s') m = nodes (disk s) m \<and> disk s' m = disk s m \<and>
      (\<forall>b < MAX_BLOCKS. block_data (disk s') m b = block_data (disk s) m b)" if m: "m \<in> R" for m
  proof -
    have "\<forall>x \<in> nodes (disk s) m. disk s' x = disk s x" using n(4) m by (auto simp: D)
    then show ?thesis using tree_same[OF vol_okD(2)[OF ok m], of "disk s'" "used s'"] same by auto
  qed
  have flm: "file_len s' m = file_len s m" if "m \<in> R" for m
    using on[OF that] same find_open_same[of s' s] by (auto simp: file_len_def ino_def split: option.splits)
  have c: "len_ok s' m = len_ok s m" "len_ok s m \<Longrightarrow> contents s' m = contents s m" if "m \<in> R" for m
    using len_ok_cong[OF flm[OF that]] data_file_byte[of "disk s'" m "disk s"] on[OF that] by auto
  show "m \<in> R \<Longrightarrow> contents s' m = contents s m" using c vol_okD(4)[OF ok] by metis
  have "len_ok s' n" using fl fb len by (simp add: len_ok_def)
  moreover have "open_ok (insert n R) s'" using o on same unfolding open_ok_def by auto
  moreover have "fs_ok s'" using fo same new_inode_words(1)[of len dir] by (simp add: fs_ok_def s'_def put_sector_def)
  moreover have "nodes (disk s') m \<inter> nodes (disk s') k = {}" if "m \<in> insert n R" "k \<in> insert n R" "m \<noteq> k" for m k
    using that nd on n(4) vol_okD(5)[OF ok, of m k] by auto
  ultimately show "vol_ok (insert n R) s'"
    using on t c vol_okD(4)[OF ok] unfolding vol_ok_def vol_base_def by auto
qed

lemma inode_create_vol:
  assumes ok: "vol_ok R s" and n: "n \<in> used s" "n \<noteq> 0" "n \<notin> R" "\<forall>m \<in> R. n \<notin> nodes (disk s) m"
    and len: "0 \<le> len" "len \<le> int (MAX_BLOCKS * 512)" and b: "inodes s b = None"
  shows "\<exists>s'. inode_create s n len dir True (Some b) = Inr (True, s') \<and> vol_ok (insert n R) s' \<and>
    contents s' n = replicate (nat len) 0 \<and> (\<forall>m \<in> R. contents s' m = contents s m) \<and> inodes s' = inodes s"
proof -
  define s1 where "s1 = put_sector s n (new_inode_disk len dir)"
  note r = new_root[OF ok n len, where dir = dir, folded s1_def]
  have i1: "inodes s1 = inodes s" by (simp add: s1_def put_sector_def)
  show ?thesis
  proof (cases "len > 0")
    case False
    then have "inode_create s n len dir True (Some b) = Inr (True, s1)" using len by (simp add: inode_create_def s1_def)
    then show ?thesis using r i1 by auto
  next
    case True
    have nopen: "\<forall>c z. inodes s1 c = Some z \<longrightarrow> i_sector z \<noteq> n" using vol_okD(3)[OF ok] n(3) i1 unfolding open_ok_def by metis
    have nR: "n \<in> insert n R" by simp
    from inode_open_vol[OF r(1) nR, of b] b i1 nopen obtain s2 y where op: "inode_open s1 n (Some b) = Inr (Some b, s2)"
      "vol_ok (insert n R) s2" "\<And>m. contents s2 m = contents s1 m" "inodes s2 = (inodes s1)(b \<mapsto> y)" "i_sector y = n"
      "i_length y = file_len s1 n" "deny_write_cnt y = 0" "open_cnt y = 1" "\<not> removed y" by auto
    have y: "inodes s2 b = Some y" using op(4) by simp
    have e: "len - 1 + int (length [0 :: u8]) = len" by simp
    from inode_write_vol[OF op(2) y op(7), of "len - 1" "[0]"] True len(2) obtain k s3 d where
      w: "inode_write_at s2 b [0] 1 (len - 1) = Inr (int k, s3)" "k \<le> 1" "vol_ok (insert n R) s3"
      "contents s3 n = file_put (contents s2 n) (nat (len - 1)) 1 (take k [0])"
      "\<forall>m \<in> insert n R. m \<noteq> n \<longrightarrow> contents s3 m = contents s2 m"
      "inodes s3 = (inodes s2)(b \<mapsto> y\<lparr>i_dirty := d, i_length := max (i_length y) len\<rparr>)"
      unfolding e op(5) by auto
    define y3 where "y3 = y\<lparr>i_dirty := d, i_length := max (i_length y) len\<rparr>"
    have y3: "inodes s3 b = Some y3" "\<not> (removed y3 \<and> open_cnt y3 = 1)" "open_cnt y3 = 1" using w(6) op(8,9) by (simp_all add: y3_def)
    from inode_close_vol[OF w(3) y3(1,2)] y3(3) obtain s4 where
      c: "inode_close s3 (Some b) = Inr s4" "vol_ok (insert n R) s4" "\<forall>m \<in> insert n R. contents s4 m = contents s3 m"
      "inodes s4 = (inodes s3)(b := None)" by auto
    have "inode_create s n len dir True (Some b) = Inr (True, s4)"
      using op(1) w(1) c(1) True len by (simp add: inode_create_def s1_def)
    moreover have "contents s4 n = replicate (nat len) 0"
    proof -
      have c2: "contents s2 n = replicate (nat len) 0" using op(3) r(2) by simp
      have tk: "take k [0 :: u8] = replicate k 0" using w(2) by (cases k) auto
      have "file_put (replicate (nat len) 0) (nat (len - 1)) 1 (replicate k (0 :: u8)) = replicate (nat len) 0"
      proof (rule nth_equalityI)
        have lk: "length (replicate k (0 :: u8)) \<le> 1" using w(2) by simp
        show ln: "length (file_put (replicate (nat len) 0) (nat (len - 1)) 1 (replicate k (0 :: u8))) = length (replicate (nat len) (0 :: u8))"
          unfolding length_file_put[OF lk] using True by simp
        fix p assume "p < length (file_put (replicate (nat len) 0) (nat (len - 1)) 1 (replicate k (0 :: u8)))"
        then have p: "p < nat len" using ln by simp
        then show "file_put (replicate (nat len) 0) (nat (len - 1)) 1 (replicate k (0 :: u8)) ! p = replicate (nat len) 0 ! p"
          by (subst nth_file_put[OF lk]) auto
      qed
      then show ?thesis using c(3) w(4) c2 tk by simp
    qed
    moreover have "contents s4 m = contents s m" if "m \<in> R" for m
      using c(3) w(5) op(3) r(3)[OF that] that n(3) by auto
    moreover have "inodes s4 = inodes s" using c(4) w(6) op(4) i1 b by auto
    ultimately show ?thesis using c(2) by blast
  qed
qed

end
