(* ===== verification/Inode_Props.thy ===== *)
theory Inode_Props
  imports Volume_Ops
begin

text \<open>
  The contract of the inode layer as an interface of byte files, its interpretation on
  \<open>inode_read_at\<close> and \<open>inode_write_at\<close>, and the properties of \<open>filesys/inode.c\<close>.
\<close>

section \<open>Byte files\<close>

datatype 'h fop = FRead 'h nat nat | FWrite 'h "u8 list" nat

datatype fout = Got "u8 list" | Put int

fun run_fops :: "('s \<Rightarrow> 'h \<Rightarrow> nat \<Rightarrow> nat \<Rightarrow> (u8 list \<times> 's) res) \<Rightarrow> ('s \<Rightarrow> 'h \<Rightarrow> u8 list \<Rightarrow> nat \<Rightarrow> (int \<times> 's) res) \<Rightarrow>
    's \<Rightarrow> 'h fop list \<Rightarrow> (fout list \<times> 's) res" where
  "run_fops rd wr s [] = Inr ([], s)"
| "run_fops rd wr s (FRead h n i # ops) = bnd (rd s h n i) (\<lambda>(bs, s).
     bnd (run_fops rd wr s ops) (\<lambda>(os, s). Inr (Got bs # os, s)))"
| "run_fops rd wr s (FWrite h bs i # ops) = bnd (wr s h bs i) (\<lambda>(k, s).
     bnd (run_fops rd wr s ops) (\<lambda>(os, s). Inr (Put k # os, s)))"

text \<open>The same requests on a map from files to byte sequences.\<close>

fun spec_fops :: "('h \<Rightarrow> 'f option) \<Rightarrow> ('f \<Rightarrow> u8 list) \<Rightarrow> 'h fop list \<Rightarrow> fout list \<times> ('f \<Rightarrow> u8 list)" where
  "spec_fops r c [] = ([], c)"
| "spec_fops r c (FRead h n i # ops) = (let (os, c') = spec_fops r c ops
     in (Got (take n (drop i (c (the (r h))))) # os, c'))"
| "spec_fops r c (FWrite h bs i # ops) = (let f = the (r h);
     (os, c') = spec_fops r (c(f := file_put (c f) i (length bs) bs)) ops in (Put (int (length bs)) # os, c'))"

fun fop_ok :: "nat \<Rightarrow> ('h \<Rightarrow> 'f option) \<Rightarrow> 'h fop \<Rightarrow> bool" where
  "fop_ok lim r (FRead h n i) = (r h \<noteq> None)"
| "fop_ok lim r (FWrite h bs i) = (r h \<noteq> None \<and> i + length bs \<le> lim)"

locale byte_store =
  fixes inv :: "'s \<Rightarrow> bool" and live :: "'f set" and refers :: "'s \<Rightarrow> 'h \<Rightarrow> 'f option"
    and content :: "'s \<Rightarrow> 'f \<Rightarrow> u8 list" and exhausted :: "'s \<Rightarrow> bool" and lim :: nat
    and rd :: "'s \<Rightarrow> 'h \<Rightarrow> nat \<Rightarrow> nat \<Rightarrow> (u8 list \<times> 's) res"
    and wr :: "'s \<Rightarrow> 'h \<Rightarrow> u8 list \<Rightarrow> nat \<Rightarrow> (int \<times> 's) res"
  assumes refers_live: "inv s \<Longrightarrow> refers s h = Some f \<Longrightarrow> f \<in> live"
    and rd_law: "inv s \<Longrightarrow> refers s h = Some f \<Longrightarrow> \<exists>bs s'. rd s h n i = Inr (bs, s') \<and> inv s' \<and> refers s' = refers s \<and>
      (\<forall>g \<in> live. content s' g = content s g) \<and> (exhausted s \<longrightarrow> exhausted s') \<and>
      (\<not> exhausted s' \<longrightarrow> bs = take n (drop i (content s f)))"
    and wr_law: "inv s \<Longrightarrow> refers s h = Some f \<Longrightarrow> i + length bs \<le> lim \<Longrightarrow>
      \<exists>k s'. wr s h bs i = Inr (int k, s') \<and> k \<le> length bs \<and> inv s' \<and> refers s' = refers s \<and>
      (exhausted s \<longrightarrow> exhausted s') \<and> (k < length bs \<longrightarrow> exhausted s') \<and>
      content s' f = file_put (content s f) i (length bs) (take k bs) \<and>
      (\<forall>g \<in> live. g \<noteq> f \<longrightarrow> content s' g = content s g)"
begin

lemma run_refines:
  assumes "inv s" and "\<forall>x \<in> set ops. fop_ok lim (refers s) x" and "\<forall>g \<in> live. content s g = c g"
  shows "\<exists>os s'. run_fops rd wr s ops = Inr (os, s') \<and> inv s' \<and> refers s' = refers s \<and>
    (exhausted s \<longrightarrow> exhausted s') \<and> (\<not> exhausted s' \<longrightarrow> os = fst (spec_fops (refers s) c ops) \<and>
      (\<forall>g \<in> live. content s' g = snd (spec_fops (refers s) c ops) g))"
  using assms
proof (induction ops arbitrary: s c)
  case Nil
  then show ?case by simp
next
  case (Cons x ops)
  show ?case
  proof (cases x)
    case (FRead h n i)
    then obtain f where f: "refers s h = Some f" using Cons.prems(2) by auto
    from rd_law[OF Cons.prems(1) f, of n i] obtain bs s1 where r: "rd s h n i = Inr (bs, s1)" "inv s1" "refers s1 = refers s"
      "\<forall>g \<in> live. content s1 g = content s g" "exhausted s \<longrightarrow> exhausted s1"
      "\<not> exhausted s1 \<longrightarrow> bs = take n (drop i (content s f))" by blast
    have "\<forall>x \<in> set ops. fop_ok lim (refers s1) x" "\<forall>g \<in> live. content s1 g = c g" using Cons.prems r by auto
    from Cons.IH[OF r(2) this] obtain os s' where q: "run_fops rd wr s1 ops = Inr (os, s')" "inv s'" "refers s' = refers s"
      "exhausted s1 \<longrightarrow> exhausted s'" "\<not> exhausted s' \<longrightarrow> os = fst (spec_fops (refers s) c ops) \<and>
      (\<forall>g \<in> live. content s' g = snd (spec_fops (refers s) c ops) g)" using r(3) by auto
    have "content s f = c f" using Cons.prems(3) refers_live[OF Cons.prems(1) f] by blast
    then show ?thesis using FRead r q f by (auto simp: case_prod_beta Let_def)
  next
    case (FWrite h bs i)
    then obtain f where f: "refers s h = Some f" and l: "i + length bs \<le> lim" using Cons.prems(2) by auto
    have fl: "f \<in> live" using refers_live[OF Cons.prems(1) f] .
    from wr_law[OF Cons.prems(1) f l] obtain k s1 where w: "wr s h bs i = Inr (int k, s1)" "k \<le> length bs" "inv s1"
      "refers s1 = refers s" "exhausted s \<longrightarrow> exhausted s1" "k < length bs \<longrightarrow> exhausted s1"
      "content s1 f = file_put (content s f) i (length bs) (take k bs)"
      "\<forall>g \<in> live. g \<noteq> f \<longrightarrow> content s1 g = content s g" by blast
    let ?c = "\<lambda>g. if exhausted s1 then content s1 g else (c(f := file_put (c f) i (length bs) bs)) g"
    have ops: "\<forall>x \<in> set ops. fop_ok lim (refers s1) x" using Cons.prems w by auto
    have "\<forall>g \<in> live. content s1 g = ?c g" using w Cons.prems(3) fl by auto
    from Cons.IH[OF w(3) ops this] obtain os s' where q: "run_fops rd wr s1 ops = Inr (os, s')" "inv s'" "refers s' = refers s"
      "exhausted s1 \<longrightarrow> exhausted s'" "\<not> exhausted s' \<longrightarrow> os = fst (spec_fops (refers s) ?c ops) \<and>
      (\<forall>g \<in> live. content s' g = snd (spec_fops (refers s) ?c ops) g)" using w(4) by auto
    have e: "?c = c(f := file_put (c f) i (length bs) bs)" "k = length bs" if "\<not> exhausted s'"
      using that q(4) w(2,6) by auto
    show ?thesis using FWrite w(1,5) q f e by (auto simp: case_prod_beta Let_def simp del: fun_upd_apply)
  qed
qed

end

text \<open>The open file that a handle stands for, when it may be written.\<close>

definition inode_file :: "fs \<Rightarrow> nat \<Rightarrow> block_sector_t option" where
  "inode_file s a = (case inodes s a of Some x \<Rightarrow> if deny_write_cnt x = 0 then Some (i_sector x) else None | None \<Rightarrow> None)"

lemma inode_file_Some: "inode_file s a = Some f \<longleftrightarrow> (\<exists>x. inodes s a = Some x \<and> deny_write_cnt x = 0 \<and> i_sector x = f)"
  by (auto simp: inode_file_def split: option.splits)

definition read_file :: "fs \<Rightarrow> nat \<Rightarrow> nat \<Rightarrow> nat \<Rightarrow> (u8 list \<times> fs) res" where
  "read_file s a n i = inode_read_at s a (int n) (int i)"

definition write_file :: "fs \<Rightarrow> nat \<Rightarrow> u8 list \<Rightarrow> nat \<Rightarrow> (int \<times> fs) res" where
  "write_file s a bs i = inode_write_at s a bs (int (length bs)) (int i)"

interpretation inode_store: byte_store "vol_ok R" R inode_file contents full "MAX_BLOCKS * 512" read_file write_file for R
proof
  fix s a f assume ok: "vol_ok R s" and a: "inode_file s a = Some f"
  then obtain x where x: "inodes s a = Some x" "deny_write_cnt x = 0" "i_sector x = f" using inode_file_Some by blast
  show "f \<in> R" using vol_okD(3)[OF ok] x by (auto simp: open_ok_def)
  show "\<exists>bs s'. read_file s a n i = Inr (bs, s') \<and> vol_ok R s' \<and> inode_file s' = inode_file s \<and>
      (\<forall>g \<in> R. contents s' g = contents s g) \<and> (full s \<longrightarrow> full s') \<and>
      (\<not> full s' \<longrightarrow> bs = take n (drop i (contents s f)))" for n i
  proof -
    from inode_read_vol[OF ok x(1), of "int i" "int n"] x(3) obtain bs s' where
      r: "inode_read_at s a (int n) (int i) = Inr (bs, s')" "vol_ok R s'" "same_inodes s s'" "used s \<subseteq> used s'"
      "\<forall>m \<in> R. contents s' m = contents s m" "\<not> full s' \<longrightarrow> bs = take n (drop i (contents s f))" by auto
    have "inode_file s' = inode_file s" using r(3) by (auto simp: inode_file_def same_inodes_def fun_eq_iff)
    moreover have "full s \<longrightarrow> full s'" using r(3,4) by (auto simp: full_def same_inodes_def)
    ultimately show ?thesis using r by (auto simp: read_file_def)
  qed
  show "\<exists>k s'. write_file s a bs i = Inr (int k, s') \<and> k \<le> length bs \<and> vol_ok R s' \<and> inode_file s' = inode_file s \<and>
      (full s \<longrightarrow> full s') \<and> (k < length bs \<longrightarrow> full s') \<and>
      contents s' f = file_put (contents s f) i (length bs) (take k bs) \<and>
      (\<forall>g \<in> R. g \<noteq> f \<longrightarrow> contents s' g = contents s g)" if "i + length bs \<le> MAX_BLOCKS * 512" for bs i
  proof -
    have l: "int i + int (length bs) \<le> int (MAX_BLOCKS * 512)" using that by linarith
    from inode_write_vol[OF ok x(1,2) _ l] x(3) obtain k s' d where
      w: "inode_write_at s a bs (int (length bs)) (int i) = Inr (int k, s')" "k \<le> length bs" "vol_ok R s'"
      "k < length bs \<longrightarrow> full s'" "contents s' f = file_put (contents s f) i (length bs) (take k bs)"
      "\<forall>g \<in> R. g \<noteq> f \<longrightarrow> contents s' g = contents s g" "used s \<subseteq> used s'" "dsize s' = dsize s"
      "inodes s' = (inodes s)(a \<mapsto> x\<lparr>i_dirty := d, i_length := max (i_length x) (int i + int (length bs))\<rparr>)" by auto
    have "inode_file s' = inode_file s" using w(9) x by (auto simp: inode_file_def fun_eq_iff)
    moreover have "full s \<longrightarrow> full s'" using w(7,8) by (auto simp: full_def)
    ultimately show ?thesis using w by (auto simp: write_file_def)
  qed
qed

section \<open>The volume as a machine\<close>

lemma allocate_vol:
  assumes ok: "vol_ok R s" and a: "free_map_allocate s 1 = Inr (r, s')"
  shows "vol_ok R s'"
proof -
  have u: "fs_ok s'" "same_inodes s s'" "disk s' = disk s" "used s \<subseteq> used s'"
    using free_map_allocate_ok[OF vol_okD(1)[OF ok]] a by (auto split: option.splits)
  have "tree_ok (used s') (disk s') n" if "n \<in> R" for n
    using vol_okD(2)[OF ok that] u unfolding tree_ok_def by (simp add: u(3)) blast
  moreover have "file_len s' n = file_len s n" for n
    using u find_open_same[of s' s] by (auto simp: file_len_def ino_def same_inodes_def split: option.splits)
  then have "len_ok s' n = len_ok s n" for n using u(3) by (simp add: len_ok_def)
  moreover have "open_ok R s'" using vol_okD(3)[OF ok] u by (simp add: open_ok_def same_inodes_def)
  ultimately show ?thesis using ok u by (simp add: vol_ok_def vol_base_def)
qed

text \<open>
  The operations of the inode layer, on the set of files and the state. A sector is given to
  \<open>inode_create\<close> after it was allocated, and a file is not opened through two addresses. At any
  time the cache may take the slot of a block that is marked deleted for another sector: the block is
  not written back, and its sector shows again whatever the device holds (\<open>v_evict\<close>).
\<close>

inductive vstep :: "block_sector_t set \<times> fs \<Rightarrow> block_sector_t set \<times> fs \<Rightarrow> bool" where
  v_alloc: "free_map_allocate s 1 = Inr (r, s') \<Longrightarrow> vstep (R, s) (R, s')"
| v_create: "n \<in> used s \<Longrightarrow> n \<noteq> 0 \<Longrightarrow> n \<notin> R \<Longrightarrow> \<forall>m \<in> R. n \<notin> nodes (disk s) m \<Longrightarrow> 0 \<le> len \<Longrightarrow>
    len \<le> int (MAX_BLOCKS * 512) \<Longrightarrow> inodes s b = None \<Longrightarrow>
    inode_create s n len dir True (Some b) = Inr (ok, s') \<Longrightarrow> vstep (R, s) (insert n R, s')"
| v_open: "n \<in> R \<Longrightarrow> inodes s b = None \<Longrightarrow> inode_open s n (Some b) = Inr (r, s') \<Longrightarrow> vstep (R, s) (R, s')"
| v_reopen: "inodes s a = Some x \<Longrightarrow> vstep (R, s) (R, inode_reopen s a)"
| v_read: "inodes s a = Some x \<Longrightarrow> 0 \<le> off \<Longrightarrow> inode_read_at s a sz off = Inr (bs, s') \<Longrightarrow> vstep (R, s) (R, s')"
| v_write: "inodes s a = Some x \<Longrightarrow> 0 \<le> off \<Longrightarrow> off + int (length buf) \<le> int (MAX_BLOCKS * 512) \<Longrightarrow>
    inode_write_at s a buf (int (length buf)) off = Inr (k, s') \<Longrightarrow> vstep (R, s) (R, s')"
| v_remove: "inodes s a = Some x \<Longrightarrow> vstep (R, s) (R, inode_remove s a)"
| v_deny: "inodes s a = Some x \<Longrightarrow> inode_deny_write s a = Inr s' \<Longrightarrow> vstep (R, s) (R, s')"
| v_allow: "inodes s a = Some x \<Longrightarrow> inode_allow_write s a = Inr s' \<Longrightarrow> vstep (R, s) (R, s')"
| v_close: "inodes s a = Some x \<Longrightarrow> inode_close s (Some a) = Inr s' \<Longrightarrow>
    vstep (R, s) (if removed x \<and> open_cnt x = 1 then R - {i_sector x} else R, s')"
| v_evict: "n \<in> marked s \<Longrightarrow> length d = 512 \<Longrightarrow> vstep (R, s) (R, lose_sector s n d)"

text \<open>
  No sector of a file is marked deleted. The cache loses what is written to a sector that is
  allocated again while its block still carries the mark of the file it belonged to before.
\<close>

definition unmarked :: "block_sector_t set \<times> fs \<Rightarrow> bool" where
  "unmarked p \<longleftrightarrow> (\<forall>n \<in> fst p. nodes (disk (snd p)) n \<inter> marked (snd p) = {})"

definition sstep :: "block_sector_t set \<times> fs \<Rightarrow> block_sector_t set \<times> fs \<Rightarrow> bool" where
  "sstep p q \<longleftrightarrow> unmarked p \<and> vstep p q"

lemma lose_sector_vol:
  assumes ok: "vol_ok R s" and u: "\<forall>m \<in> R. n \<notin> nodes (disk s) m" and d: "length d = 512"
  shows "vol_ok R (lose_sector s n d)" and "m \<in> R \<Longrightarrow> contents (lose_sector s n d) m = contents s m"
proof -
  let ?s = "lose_sector s n d"
  have f: "inodes ?s = inodes s" "open_inodes ?s = open_inodes s" "used ?s = used s" "disk ?s = (disk s)(n := d)" "fs_ok ?s"
    using vol_okD(1)[OF ok] d by (simp_all add: lose_sector_def used_def fs_ok_def)
  note t = tree_same[OF vol_okD(2)[OF ok], of _ "disk ?s" "used ?s"]
  have ag: "\<forall>x \<in> nodes (disk s) m. disk ?s x = disk s x" if "m \<in> R" for m using u that f(4) by auto
  have tr: "tree_ok (used ?s) (disk ?s) m" "nodes (disk ?s) m = nodes (disk s) m" "disk ?s m = disk s m" if "m \<in> R" for m
    using t[OF that ag[OF that]] f(3) by simp_all
  have fb: "file_byte (disk ?s) m p = file_byte (disk s) m p" if "m \<in> R" "p < MAX_BLOCKS * 512" for m p
    using t(3)[OF that(1) ag[OF that(1)], of "p div 512"] that(2) f(3)
    by (simp add: file_byte_def less_mult_imp_div_less)
  have fl: "file_len ?s m = file_len s m" if "m \<in> R" for m
    using f(1,2) tr(3)[OF that] find_open_same[OF f(1)] by (simp add: file_len_def ino_def split: option.splits)
  have lc: "len_ok ?s m" "contents ?s m = contents s m" if "m \<in> R" for m
    using len_ok_cong[OF fl[OF that]] fb[OF that] vol_okD(4)[OF ok that] by auto
  then show "m \<in> R \<Longrightarrow> contents ?s m = contents s m" by simp
  have "open_ok R ?s" using vol_okD(3)[OF ok] f(1,2) tr(3) unfolding open_ok_def by metis
  then show "vol_ok R ?s" using f(5) tr(1,2) lc(1) vol_okD(5)[OF ok] by (simp add: vol_ok_def vol_base_def)
qed

lemma open_inodeD: "vol_ok R s \<Longrightarrow> inodes s a = Some x \<Longrightarrow> open_cnt x \<ge> 1 \<and> (i_is_dir x \<or> \<not> i_locked x)"
  using vol_okD(3)[of R s] by (auto simp: open_ok_def)

lemma inode_write_denied: "inodes s a = Some x \<Longrightarrow> deny_write_cnt x \<noteq> 0 \<Longrightarrow> inode_write_at s a buf sz off = Inr (0, s)"
  by (simp add: inode_write_at_def ino_def)

lemma vstep_vol: "vstep p q \<Longrightarrow> unmarked p \<Longrightarrow> vol_ok (fst p) (snd p) \<Longrightarrow> vol_ok (fst q) (snd q)"
proof (induction rule: vstep.induct)
  case (v_alloc s r s' R)
  then show ?case using allocate_vol by simp
next
  case (v_create n s R len b dir ok s')
  then show ?case using inode_create_vol[of R s n len b dir] by auto
next
  case (v_open n R s b r s')
  then show ?case using inode_open_vol[of R s n b] by auto
next
  case (v_reopen s a x R)
  then show ?case using upd_vol(1)[where f = "\<lambda>x. x\<lparr>open_cnt := open_cnt x + 1\<rparr>", of R s a x] open_inodeD[of R s a x]
    by (simp add: inode_reopen_def)
next
  case (v_read s a x off sz bs s' R)
  then show ?case using inode_read_vol[of R s a x off sz] by auto
next
  case (v_write s a x off buf k s' R)
  then show ?case using inode_write_vol[of R s a x off buf] inode_write_denied[of s a x] by (cases "deny_write_cnt x = 0") auto
next
  case (v_remove s a x R)
  then show ?case using upd_vol(1)[where f = "\<lambda>x. x\<lparr>removed := True\<rparr>", of R s a x] open_inodeD[of R s a x]
    by (simp add: inode_remove_def)
next
  case (v_deny s a x s' R)
  then show ?case using upd_vol(1)[where f = "\<lambda>x. x\<lparr>deny_write_cnt := deny_write_cnt x + 1\<rparr>", of R s a x] open_inodeD[of R s a x]
    by (simp add: inode_deny_write_def Let_def res_iffs)
next
  case (v_allow s a x s' R)
  then show ?case using upd_vol(1)[where f = "\<lambda>x. x\<lparr>deny_write_cnt := deny_write_cnt x - 1\<rparr>", of R s a x] open_inodeD[of R s a x]
    by (simp add: inode_allow_write_def res_iffs)
next
  case (v_close s a x s' R)
  then show ?case using inode_close_vol[of R s a x] inode_close_removed_vol[of R s a x]
    by (cases "removed x \<and> open_cnt x = 1") auto
next
  case (v_evict n s d R)
  then show ?case using lose_sector_vol(1)[of R s n d] by (auto simp: unmarked_def)
qed

text \<open>A volume with nothing on it.\<close>

definition blank :: "fs \<Rightarrow> bool" where
  "blank s \<longleftrightarrow> fs_ok s \<and> inodes s = Map.empty \<and> open_inodes s = [] \<and> marked s = {}"

lemma blank_vol: "blank s \<Longrightarrow> vol_ok {} s"
  by (simp add: blank_def vol_ok_def vol_base_def open_ok_def)

interpretation volume: machine "\<lambda>p. fst p = {} \<and> blank (snd p)" sstep "\<lambda>p. vol_ok (fst p) (snd p)"
  by unfold_locales (auto simp: blank_vol sstep_def intro: vstep_vol)

section \<open>Full devices\<close>

lemma walk_full:
  assumes "fs_ok s" and "tree_ok (used s) (disk s) n" and "full s" and "\<pi> @ is \<in> places" and "m = follow (disk s) n \<pi>"
    and "m \<noteq> 0" and "follow (disk s) n (\<pi> @ is) = 0"
  shows "\<exists>s'. walk s m is = Inr (0, s')"
  using assms(4-7)
proof (induction "is" arbitrary: m \<pi>)
  case (Cons i "is")
  have pl: "\<pi> @ [i] \<in> places" using Cons.prems(1) places_append[of "\<pi> @ [i]" "is"] by simp
  have i: "i < 128" using places_index[of \<pi> i "[]"] pl by simp
  have n: "n \<noteq> 0" using assms(2) by (simp add: tree_ok_def)
  have "m \<in> used s" using assms(2) places_snoc[OF pl] Cons.prems(2,3) by (auto simp: tree_ok_def)
  then have g: "get_sector s m = Inr (disk s m)" using used_lt[OF assms(1)] by (simp add: get_sector_def)
  show ?case
  proof (cases "wget (disk s m) i = 0")
    case True
    from expand_by_one_ok[OF assms(1)] obtain w s1 where e: "expand_by_one s = Inr (w, s1)"
      "w \<noteq> 0 \<longrightarrow> w \<notin> used s \<and> w \<in> used s1 \<and> fs_ok s1 \<and> dsize s1 = dsize s" by (force simp: same_inodes_def)
    then have "w = 0" using assms(3) used_lt[of s1 w] by (auto simp: full_def)
    then show ?thesis using g i True e(1) by (simp add: index_entry_def)
  next
    case False
    have "follow (disk s) n (\<pi> @ [i]) = wget (disk s m) i" using Cons.prems(2,3) n by (simp add: follow_snoc)
    then show ?thesis using Cons.IH[of "\<pi> @ [i]" "wget (disk s m) i"] Cons.prems False g i by (simp add: index_entry_def)
  qed
qed simp

lemma byte_to_sector_full:
  assumes "fs_ok s" and "tree_ok (used s) (disk s) n" and "full s" and "0 \<le> pos" and "pos < int (MAX_BLOCKS * 512)"
    and "hole (disk s) n (nat pos)"
  shows "\<exists>s'. byte_to_sector s n pos = Inr (0, s') \<and> extends n s s'"
proof -
  have "\<exists>s'. walk s n (path (nat pos div 512)) = Inr (0, s')"
    using walk_full[OF assms(1-3), of "[]" "path (nat pos div 512)" n] path_places[OF block_number(2)[OF assms(4,5)]]
      assms(2,6) by (simp add: tree_ok_def hole_def follow.simps)
  then have "\<exists>s'. byte_to_sector s n pos = Inr (0, s')"
    unfolding byte_to_sector_def MLI_translate_walk block_number(1)[OF assms(4,5)] by simp
  then show ?thesis using byte_to_sector_ok[OF assms(1,2,4,5)] by auto
qed

section \<open>Properties\<close>

text \<open>A device of \<open>n\<close> sectors with the first three in use; sector 2 holds a file of 100 bytes.\<close>

definition blank_fs :: "block_sector_t \<Rightarrow> fs" where
  "blank_fs n = \<lparr>disk = (\<lambda>_. replicate 512 0), dsize = n, fmap = \<lparr>bit_cnt = n, bits = [7, 0]\<rparr>, map_file = Some [],
     map_writable = True, init_complete = True, inodes = Map.empty, open_inodes = [],
     marked = {}\<rparr>"

definition demo_inode :: inode where
  "demo_inode = \<lparr>i_sector = 2, i_locked = False, open_cnt = 1, removed = False, i_is_dir = False, i_dirty = False,
     deny_write_cnt = 0, i_length = 100\<rparr>"

definition demo_fs :: "block_sector_t \<Rightarrow> fs" where
  "demo_fs n = (put_sector (blank_fs n) 2 (new_inode_disk 100 False))\<lparr>inodes := [10 \<mapsto> demo_inode], open_inodes := [10]\<rparr>"

lemma used_blank: "3 \<le> n \<Longrightarrow> n \<le> 64 \<Longrightarrow> used (blank_fs n) = {0, 1, 2}"
proof -
  assume n: "3 \<le> n" "n \<le> 64"
  have b: "bget \<lparr>bit_cnt = n, bits = [7, 0]\<rparr> i \<longleftrightarrow> i < 3" if "i < 64" for i
  proof (cases "i < 32")
    case True
    have "bit (7 :: 32 word) i \<longleftrightarrow> i < 3"
    proof -
      have m: "(7 :: 32 word) = mask 3" by (simp add: mask_eq_exp_minus_1)
      show ?thesis unfolding m bit_mask_iff using True by simp
    qed
    then show ?thesis using True by (simp add: bget_def)
  next
    case False
    then have "i div 32 = 1" using that by simp
    then show ?thesis using False by (simp add: bget_def)
  qed
  have "x \<in> used (blank_fs n) \<longleftrightarrow> unat x < 3" for x
    using n b[of "unat x"] by (auto simp: used_def used_of_def blank_fs_def bits_of_def word_le_nat_alt)
  moreover have "unat x < 3 \<longleftrightarrow> x = 0 \<or> x = 1 \<or> x = 2" for x :: "32 word"
    by (auto simp: word_unat_eq_iff)
  ultimately show ?thesis by auto
qed

lemma blank_fs_ok: "3 \<le> n \<Longrightarrow> n \<le> 64 \<Longrightarrow> blank (blank_fs n)"
  using used_blank[of n] by (simp add: blank_def fs_ok_def wf_bitmap_def blank_fs_def word_le_nat_alt)

lemma demo_fs_ok:
  assumes "3 \<le> n" and "n \<le> 64"
  shows "vol_ok {2} (demo_fs n)" and "inodes (demo_fs n) 10 = Some demo_inode" and "contents (demo_fs n) 2 = replicate 100 0"
proof -
  let ?s = "put_sector (blank_fs n) 2 (new_inode_disk 100 False)"
  have u: "2 \<in> used (blank_fs n)" using used_blank[OF assms] by simp
  note r = new_root[OF blank_vol[OF blank_fs_ok[OF assms]] u, where len = 100 and dir = False]
  have v: "vol_ok {2} ?s" "contents ?s 2 = replicate 100 0" using r by simp_all
  have "inode_open ?s 2 (Some 10) = Inr (Some 10, demo_fs n)"
    using assms by (simp add: inode_open_def get_sector_def blank_fs_def put_sector_def demo_fs_def demo_inode_def
        new_inode_words(3,4) word_less_nat_alt word_le_nat_alt)
  then show "vol_ok {2} (demo_fs n)" "contents (demo_fs n) 2 = replicate 100 0"
    using inode_open_vol[OF v(1), of 2 10] v(2) by (auto simp: blank_fs_def put_sector_def)
  show "inodes (demo_fs n) 10 = Some demo_inode" by (simp add: demo_fs_def)
qed

text \<open>
  (C10) Files are byte sequences: any sequence of reads and writes through open inodes completes
  without panic, keeps the volume invariant, and, unless the device has run out of sectors, returns
  exactly what the same requests on a map from files to byte sequences return (a write beyond the
  end fills with zeros), leaving every file with the contents of that map. Blocks that are
  allocated on the way, sparse files and the three kinds of index blocks are invisible.
\<close>

theorem file_io_refines:
  assumes "vol_ok R s" and "\<forall>x \<in> set ops. fop_ok (MAX_BLOCKS * 512) (inode_file s) x"
  shows "\<exists>os s'. run_fops read_file write_file s ops = Inr (os, s') \<and> vol_ok R s' \<and>
    (full s' \<or> os = fst (spec_fops (inode_file s) (contents s) ops) \<and>
      (\<forall>n \<in> R. contents s' n = snd (spec_fops (inode_file s) (contents s) ops) n))"
  using inode_store.run_refines[OF assms, of "contents s"] by auto

theorem file_io_refines_witness:
  "\<exists>os s'. run_fops read_file write_file (demo_fs 64) [FWrite 10 [7, 8] 600, FRead 10 4 599] = Inr (os, s') \<and>
    (full s' \<or> os = [Put 2, Got [0, 7, 8]])"
proof -
  have i: "inode_file (demo_fs 64) 10 = Some 2" by (simp add: inode_file_def demo_fs_def demo_inode_def)
  have c: "contents (demo_fs 64) 2 = replicate 100 0" using demo_fs_ok(3)[of 64] by simp
  have r: "file_put (replicate 100 0) 600 2 [7, 8] = replicate 600 (0 :: u8) @ [7, 8]"
    by (simp add: file_put_def overwrite_def replicate_add[symmetric])
  have t: "take 4 (drop 599 (replicate 600 (0 :: u8) @ [7, 8])) = [0, 7, 8]" by (simp add: numeral_eq_Suc)
  have "fst (spec_fops (inode_file (demo_fs 64)) (contents (demo_fs 64)) [FWrite 10 [7, 8] 600, FRead 10 4 599])
      = [Put 2, Got [0, 7, 8]]"
    using i c r t by (simp add: numeral_2_eq_2 del: drop_append take_append)
  then show ?thesis
    using file_io_refines[OF demo_fs_ok(1)[of 64], of "[FWrite 10 [7, 8] 600, FRead 10 4 599]"] i by auto
qed

text \<open>
  (C9) The volume invariant: starting from an empty volume, after any sequence of allocations, inode
  operations and evictions of deleted blocks from the cache in which no sector of a file carries
  the cache's mark of a deleted block, the index trees of all files are well formed and use only allocated sectors,
  no two files share a sector, bytes past the end of a file are zero, the table of open inodes has
  one entry per open file, and a file that is not marked dirty has its length on disk. From each
  such state every open file can be read, written and closed without a panic. The restriction is
  needed: \<open>inode_free_data\<close> marks the index blocks of a deleted file, and the cache does not write
  a marked block back even when its sector belongs to a new file.
\<close>

theorem volume_invariant:
  assumes "blank s0" and "sstep\<^sup>*\<^sup>* ({}, s0) (R, s)"
  shows "vol_ok R s \<and> (\<forall>a x. inodes s a = Some x \<longrightarrow> is_ok (inode_close s (Some a)) \<and>
    (\<forall>off \<ge> 0. (\<forall>sz. is_ok (inode_read_at s a sz off)) \<and>
      (\<forall>buf. off + int (length buf) \<le> int (MAX_BLOCKS * 512) \<longrightarrow> is_ok (inode_write_at s a buf (int (length buf)) off))))"
proof (intro conjI allI impI)
  show ok: "vol_ok R s" using volume.reach_inv[OF _ assms(2)] assms(1) by simp
  fix a x assume x: "inodes s a = Some x"
  show "is_ok (inode_close s (Some a))"
    using inode_close_vol[OF ok x] inode_close_removed_vol[OF ok x] by (cases "removed x \<and> open_cnt x = 1") auto
  fix off :: int and sz assume off: "0 \<le> off"
  obtain r where "inode_read_at s a sz off = Inr r" using inode_read_vol[OF ok x off] by blast
  then show "is_ok (inode_read_at s a sz off)" by simp
  fix buf :: "u8 list" assume "off + int (length buf) \<le> int (MAX_BLOCKS * 512)"
  then obtain r where "inode_write_at s a buf (int (length buf)) off = Inr r"
    using inode_write_vol[OF ok x _ off] inode_write_denied[OF x] by (cases "deny_write_cnt x = 0") blast+
  then show "is_ok (inode_write_at s a buf (int (length buf)) off)" by simp
qed

theorem volume_invariant_witness:
  "\<exists>s. vol_ok {2} s \<and> sstep\<^sup>*\<^sup>* ({}, blank_fs 64) ({2}, s)"
proof -
  have b: "blank (blank_fs 64)" using blank_fs_ok[of 64] by simp
  have u: "2 \<in> used (blank_fs 64)" using used_blank[of 64] by simp
  from inode_create_vol[OF blank_vol[OF b] u, where len = 100 and dir = False and b = 10]
  obtain s where s: "inode_create (blank_fs 64) 2 100 False True (Some 10) = Inr (True, s)" by (auto simp: blank_fs_def)
  have "vstep ({}, blank_fs 64) ({2}, s)"
    by (rule v_create[OF u _ _ _ _ _ _ s]) (simp_all add: blank_fs_def)
  then have "sstep\<^sup>*\<^sup>* ({}, blank_fs 64) ({2}, s)" by (auto simp: sstep_def unmarked_def)
  then show ?thesis using volume_invariant[OF b] by blast
qed

text \<open>
  Persistence: closing a file for the last time writes its length to its inode, so that
  opening it again gives the same length and contents; no other file changes.
\<close>

theorem inode_close_open_roundtrip:
  assumes ok: "vol_ok R s" and x: "inodes s a = Some x" and l: "open_cnt x = 1" "\<not> removed x"
  shows "\<exists>s1 s2. inode_close s (Some a) = Inr s1 \<and> inodes s1 a = None \<and>
    inode_open s1 (i_sector x) (Some a) = Inr (Some a, s2) \<and> i_length (ino s2 a) = i_length x \<and>
    (\<forall>n \<in> R. contents s2 n = contents s n)"
proof -
  from inode_close_vol[OF ok x] l obtain s1 where c: "inode_close s (Some a) = Inr s1" "vol_ok R s1"
    "\<forall>m \<in> R. contents s1 m = contents s m" "inodes s1 = (inodes s)(a := None)" by auto
  have n: "i_sector x \<in> R" using vol_okD(3)[OF ok] x by (auto simp: open_ok_def)
  have no: "\<forall>c z. inodes s1 c = Some z \<longrightarrow> i_sector z \<noteq> i_sector x"
    using c(4) vol_okD(3)[OF ok] x unfolding open_ok_def by (auto split: if_splits)
  have na: "inodes s1 a = None" using c(4) by simp
  from inode_open_vol[OF c(2) n na] no obtain s2 y where o: "inode_open s1 (i_sector x) (Some a) = Inr (Some a, s2)"
    "\<forall>m. contents s2 m = contents s1 m" "inodes s2 = (inodes s1)(a \<mapsto> y)" "i_length y = file_len s1 (i_sector x)" by metis
  have "length (contents s1 (i_sector x)) = length (contents s (i_sector x))" using c(3) n by simp
  moreover have "0 \<le> file_len s1 (i_sector x)" "0 \<le> file_len s (i_sector x)"
    using vol_okD(4)[OF c(2) n] vol_okD(4)[OF ok n] by (auto simp: len_ok_def)
  ultimately have "file_len s1 (i_sector x) = i_length x"
    using file_len_open[OF vol_okD(3)[OF ok] x] by (simp add: contents_def)
  then show ?thesis using c o na by (intro exI[of _ s1] exI[of _ s2]) (auto simp: ino_def)
qed

theorem inode_close_open_roundtrip_witness:
  "\<exists>s1 s2. inode_close (demo_fs 64) (Some 10) = Inr s1 \<and> inode_open s1 2 (Some 10) = Inr (Some 10, s2) \<and>
    i_length (ino s2 10) = 100"
  using inode_close_open_roundtrip[OF demo_fs_ok(1,2), of 64] by (auto simp: demo_inode_def)

text \<open>
  (C23) Deletion: the last close of a removed file releases its inode, its data blocks, its indirect
  block and its doubly indirect block, and leaves all other files as they were. The second-level
  index blocks of the doubly indirect block stay allocated for ever: \<open>inode_free_data\<close> releases
  the blocks they list but not them. The inode and the index blocks are marked deleted in the cache.
\<close>

theorem inode_removal_releases:
  assumes "vol_ok R s" and "inodes s a = Some x" and "removed x" and "open_cnt x = 1"
  shows "\<exists>s'. inode_close s (Some a) = Inr s' \<and> vol_ok (R - {i_sector x}) s' \<and>
    (\<forall>n \<in> R - {i_sector x}. contents s' n = contents s n) \<and>
    used s' = used s - (nodes (disk s) (i_sector x) - {follow (disk s) (i_sector x) [124, i] | i. i < INDEX_SIZE}) \<and>
    marked s' = marked s \<union> index_blocks (disk s) (i_sector x)"
  using inode_close_removed_vol[OF assms] by blast

theorem inode_removal_releases_witness:
  "\<exists>s' U. inode_close (inode_remove (demo_fs 64) 10) (Some 10) = Inr s' \<and> vol_ok {} s' \<and> used s' = {0, 1, 2} - U"
proof -
  let ?f = "\<lambda>x. x\<lparr>removed := True\<rparr>"
  have d: "vol_ok {2} (demo_fs 64)" "inodes (demo_fs 64) 10 = Some demo_inode" using demo_fs_ok[of 64] by simp_all
  have "vol_ok {2} (inode_remove (demo_fs 64) 10)"
    unfolding inode_remove_def using upd_vol(1)[where f = ?f, OF d] by (simp add: demo_inode_def)
  moreover have "inodes (inode_remove (demo_fs 64) 10) 10 = Some (?f demo_inode)"
    using d(2) by (simp add: inode_remove_def)
  moreover have "used (inode_remove (demo_fs 64) 10) = {0, 1, 2}"
    using used_blank[of 64] by (simp add: inode_remove_def demo_fs_def put_sector_def used_def)
  moreover have "i_sector (?f demo_inode) = 2" "open_cnt (?f demo_inode) = 1" by (simp_all add: demo_inode_def)
  ultimately show ?thesis using inode_removal_releases[of "{2}" "inode_remove (demo_fs 64) 10" 10 "?f demo_inode"] by auto
qed

text \<open>
  On a full device a write to a block that is not allocated stores nothing and returns 0, yet
  \<open>inode_write_at\<close> raises the length of the file to the end of the request: it compares the length
  with \<open>size + offset\<close>, the end of the bytes that were asked for and not of those that were written.
\<close>

theorem inode_write_full_device:
  assumes ok: "vol_ok R s" and x: "inodes s a = Some x" "deny_write_cnt x = 0" and f: "full s"
    and off: "0 \<le> off" "off + int (length buf) \<le> int (MAX_BLOCKS * 512)" and buf: "buf \<noteq> []"
    and h: "hole (disk s) (i_sector x) (nat off)"
  shows "\<exists>s'. inode_write_at s a buf (int (length buf)) off = Inr (0, s') \<and>
    i_length (ino s' a) = max (i_length x) (off + int (length buf))"
proof -
  have n: "i_sector x \<in> R" using vol_okD(3)[OF ok] x by (auto simp: open_ok_def)
  have lb: "0 < int (length buf)" using buf by simp
  then have "off < int (MAX_BLOCKS * 512)" using off by linarith
  from byte_to_sector_full[OF vol_okD(1)[OF ok] vol_okD(2)[OF ok n] f off(1) this h] obtain s1 where
    b: "byte_to_sector s (i_sector x) off = Inr (0, s1)" "extends (i_sector x) s s1" by blast
  have i: "ino s a = x" using x by (simp add: ino_def)
  have "write_loop s a buf (int (length buf)) off 0 = Inr (0, int (length buf), off, s1)"
    using b(1) i lb by (subst write_loop.simps) simp
  moreover from inode_write_vol[OF ok x off] obtain k s' d where
    w: "inode_write_at s a buf (int (length buf)) off = Inr (int k, s')"
    "inodes s' = (inodes s)(a \<mapsto> x\<lparr>i_dirty := d, i_length := max (i_length x) (off + int (length buf))\<rparr>)" by blast
  ultimately have "int k = 0" using i x(2) by (auto simp: inode_write_at_def res_iffs)
  then show ?thesis using w by (auto simp: ino_def)
qed

lemma demo_full: "full (demo_fs 3)"
proof -
  have "used (demo_fs 3) = {0, 1, 2}" using used_blank[of 3] by (simp add: demo_fs_def put_sector_def used_def)
  moreover have "x < 3 \<longleftrightarrow> x = 0 \<or> x = 1 \<or> x = 2" for x :: "32 word" by (auto simp: word_less_nat_alt word_unat_eq_iff)
  ultimately show ?thesis by (auto simp: full_def demo_fs_def put_sector_def blank_fs_def)
qed

lemma demo_hole: "p < 123 * 512 \<Longrightarrow> hole (disk (demo_fs n)) 2 p"
  using new_inode_words(2)[of "p div 512" 100 False]
  by (simp add: hole_def path_def follow.simps demo_fs_def put_sector_def less_mult_imp_div_less)

theorem inode_write_full_device_witness:
  "\<exists>s'. inode_write_at (demo_fs 3) 10 [1, 2, 3] 3 500 = Inr (0, s') \<and> i_length (ino s' 10) = 503"
  using inode_write_full_device[OF demo_fs_ok(1,2)[of 3] _ demo_full, of 500 "[1, 2, 3]"] demo_hole[of 500 3]
  by (simp add: demo_inode_def)

text \<open>
  On a full device a read from a block that is not allocated does not return zeros: the block
  is taken to be in sector 0, so the bytes of the free map's inode are copied to the caller.
  \<open>inode_read_at\<close> does not test for the sector number 0 that \<open>byte_to_sector\<close> returns on failure.
\<close>

theorem inode_read_full_device:
  assumes ok: "vol_ok R s" and x: "inodes s a = Some x" and f: "full s" and h: "hole (disk s) (i_sector x) (nat off)"
    and off: "0 \<le> off" "0 < sz" "off mod 512 + sz \<le> 512" "off + sz \<le> i_length x"
  shows "\<exists>s'. inode_read_at s a sz off = Inr (take (nat sz) (drop (nat (off mod 512)) (disk s 0)), s')"
proof -
  have n: "i_sector x \<in> R" and lk: "i_is_dir x \<or> \<not> i_locked x" using vol_okD(3)[OF ok] x by (auto simp: open_ok_def)
  have t: "tree_ok (used s) (disk s) (i_sector x)" using vol_okD(2)[OF ok n] .
  have "i_length x \<le> int (MAX_BLOCKS * 512)"
    using vol_okD(4)[OF ok n] file_len_open[OF vol_okD(3)[OF ok] x] by (simp add: len_ok_def)
  then have "off < int (MAX_BLOCKS * 512)" using off by linarith
  from byte_to_sector_full[OF vol_okD(1)[OF ok] t f off(1) this h] obtain s1 where
    b: "byte_to_sector s (i_sector x) off = Inr (0, s1)" "extends (i_sector x) s s1" by blast
  have i: "ino s a = x" using x by (simp add: ino_def)
  have z: "0 \<in> used s" "0 \<notin> nodes (disk s) (i_sector x)" using vol_okD(1)[OF ok] by (auto simp: fs_ok_def nodes_def)
  then have d: "disk s1 0 = disk s 0" using b(2) by (auto simp: extends_defs)
  have g: "get_sector s1 0 = Inr (disk s 0)"
    using b(2) z(1) used_lt[of s1 0] d by (auto simp: extends_defs get_sector_def)
  have l: "inode_length s a = Inr (i_length x)" using lk i by (simp add: inode_length_def)
  have st: "read_loop s a sz off [] = read_loop s1 a 0 (off + sz) (take (nat sz) (drop (nat (off mod 512)) (disk s 0)))"
  proof -
    have c: "(if sz < (if i_length x - off < 512 - off mod 512 then i_length x - off else 512 - off mod 512) then sz
        else (if i_length x - off < 512 - off mod 512 then i_length x - off else 512 - off mod 512)) = sz"
      using off by auto
    show ?thesis using off by (subst read_loop.simps) (simp add: l i b(1) g cmod_pos_pos c Let_def)
  qed
  have "read_loop s1 a 0 (off + sz) acc = Inr (acc, s1)" for acc by (subst read_loop.simps) simp
  then show ?thesis using st by (simp add: inode_read_at_def)
qed

theorem inode_read_full_device_witness:
  "\<exists>s'. inode_read_at (demo_fs 3) 10 8 50 = Inr (take 8 (drop 50 (disk (demo_fs 3) 0)), s')"
  using inode_read_full_device[OF demo_fs_ok(1,2)[of 3] demo_full, of 50 8] demo_hole[of 50 3]
  by (simp add: demo_inode_def)

text \<open>
  Block numbers from 16,635 on do not fit in the doubly indirect block: \<open>MLI_translate\<close> computes
  an index of 128 or more into an array of 128 entries and reads past the end of the cached block.
  No caller bounds the offset of a read or write.
\<close>

theorem MLI_translate_index_overrun:
  assumes "MAX_BLOCKS \<le> unat blockno" and "n < dsize s" and "wget (disk s n) 124 \<noteq> 0" and "wget (disk s n) 124 < dsize s"
  shows "MLI_translate s n blockno = Inl (Fault ''index block'')"
proof -
  have b: "\<not> unat blockno < 251" "128 \<le> (unat blockno - 251) div 128" using assms(1) by simp_all
  have "index_entry s n 124 = Inr (wget (disk s n) 124, s)" using assms by (simp add: index_entry_def get_sector_def)
  moreover have "index_entry s (wget (disk s n) 124) ((unat blockno - 251) div 128) = Inl (Fault ''index block'')"
    using assms(4) b(2) by (simp add: index_entry_def get_sector_def)
  ultimately show ?thesis using b assms(3) by (simp add: MLI_translate_def Let_def)
qed

theorem MLI_translate_index_overrun_witness:
  "MLI_translate (put_sector (blank_fs 64) 2 (wset (replicate 512 0) 124 3)) 2 20000 = Inl (Fault ''index block'')"
  by (rule MLI_translate_index_overrun) (simp_all add: blank_fs_def put_sector_def wget_wset)

end
