(* ===== verification/Directory.thy ===== *)
theory Directory
  imports Inode_Props
begin

text \<open>
  Directories, \<open>filesys/directory.c\<close>. A directory is a file of 20-byte entries: the sector of an
  inode (4 bytes), a name (15 bytes, terminated by a zero byte) and a flag. A \<open>struct dir\<close> is the
  address of its open inode and a position. What \<open>malloc\<close> and \<open>calloc\<close> return is an argument, a
  function of the state; so are the bytes of an entry that is on the stack and not initialised.
  Names are C strings given without their terminator.
\<close>

record dir =
  d_inode :: nat
  d_pos :: int

abbreviation NAME_MAX :: nat where "NAME_MAX \<equiv> 14"
abbreviation ENTRY_SIZE :: nat where "ENTRY_SIZE \<equiv> 20"
abbreviation ROOT_DIR_SECTOR :: block_sector_t where "ROOT_DIR_SECTOR \<equiv> 1"

record memory =
  new_inode :: "fs \<Rightarrow> nat option"
  calloc_ok :: "fs \<Rightarrow> bool"

section \<open>Entries\<close>

definition in_use :: "u8 list \<Rightarrow> bool" where
  "in_use e \<longleftrightarrow> e ! 19 \<noteq> 0"

definition inode_sector :: "u8 list \<Rightarrow> block_sector_t" where
  "inode_sector e = le_word (e ! 0) (e ! 1) (e ! 2) (e ! 3)"

text \<open>\<open>!strcmp (name, s)\<close> where \<open>s\<close> is memory; running out of it is an access past the entry.\<close>

fun strcmp_eq :: "u8 list \<Rightarrow> u8 list \<Rightarrow> bool res" where
  "strcmp_eq name [] = Inl (Fault ''strcmp'')"
| "strcmp_eq [] (b # bs) = Inr (b = 0)"
| "strcmp_eq (x # xs) (b # bs) = (if x = b then strcmp_eq xs bs else Inr False)"

text \<open>The entry that \<open>dir_add\<close> writes: the fields are set in the bytes of \<open>e\<close>.\<close>

definition set_entry :: "u8 list \<Rightarrow> u8 list \<Rightarrow> block_sector_t \<Rightarrow> u8 list" where
  "set_entry e name sector = overwrite ((overwrite e 4 (name @ [0]))[19 := 1]) 0 (le_bytes sector)"

section \<open>Searching\<close>

fun lookup_loop :: "nat \<Rightarrow> fs \<Rightarrow> nat \<Rightarrow> u8 list \<Rightarrow> int \<Rightarrow> ((u8 list \<times> int) option \<times> fs) res" where
  "lookup_loop 0 s a name ofs = Inl OutOfFuel"
| "lookup_loop (Suc k) s a name ofs =
     bnd (inode_read_at s a (int ENTRY_SIZE) ofs) (\<lambda>(e, s).
     if length e \<noteq> ENTRY_SIZE then Inr (None, s)
     else if in_use e
     then bnd (strcmp_eq name (drop 4 e)) (\<lambda>eq.
          if eq then Inr (Some (e, ofs), s) else lookup_loop k s a name (ofs + int ENTRY_SIZE))
     else lookup_loop k s a name (ofs + int ENTRY_SIZE))"

text \<open>The loop ends after one step per entry; the length of the file in bytes is more than enough.\<close>

definition lookup :: "fs \<Rightarrow> nat \<Rightarrow> u8 list \<Rightarrow> ((u8 list \<times> int) option \<times> fs) res" where
  "lookup s a name = lookup_loop (Suc (nat (i_length (ino s a)))) s a name 0"

definition dir_lookup :: "memory \<Rightarrow> fs \<Rightarrow> dir \<Rightarrow> u8 list \<Rightarrow> (nat option \<times> fs) res" where
  "dir_lookup m s d name =
     bnd (inode_lock s (d_inode d)) (\<lambda>s.
     bnd (lookup s (d_inode d) name) (\<lambda>(r, s).
     bnd (case r of Some (e, _) \<Rightarrow> inode_open s (inode_sector e) (new_inode m s) | None \<Rightarrow> Inr (None, s)) (\<lambda>(i, s).
     bnd (inode_release s (d_inode d)) (\<lambda>s. Inr (i, s)))))"

section \<open>Opening and closing\<close>

definition dir_open :: "memory \<Rightarrow> fs \<Rightarrow> nat option \<Rightarrow> (dir option \<times> fs) res" where
  "dir_open m s i =
     (case i of
        Some a \<Rightarrow> if calloc_ok m s then Inr (Some \<lparr>d_inode = a, d_pos = 2 * int ENTRY_SIZE\<rparr>, s)
                  else bnd (inode_close s i) (\<lambda>s. Inr (None, s))
      | None \<Rightarrow> Inr (None, s))"

definition dir_open_root :: "memory \<Rightarrow> fs \<Rightarrow> (dir option \<times> fs) res" where
  "dir_open_root m s = bnd (inode_open s ROOT_DIR_SECTOR (new_inode m s)) (\<lambda>(i, s). dir_open m s i)"

definition dir_reopen :: "memory \<Rightarrow> fs \<Rightarrow> dir \<Rightarrow> (dir option \<times> fs) res" where
  "dir_reopen m s d = dir_open m (inode_reopen s (d_inode d)) (Some (d_inode d))"

definition dir_close :: "fs \<Rightarrow> dir option \<Rightarrow> fs res" where
  "dir_close s d = (case d of None \<Rightarrow> Inr s | Some d \<Rightarrow> inode_close s (Some (d_inode d)))"

definition dir_get_inode :: "dir \<Rightarrow> nat" where
  "dir_get_inode d = d_inode d"

section \<open>Adding\<close>

text \<open>The search for a free slot; \<open>e\<close> is the buffer of the entry.\<close>

fun free_loop :: "nat \<Rightarrow> fs \<Rightarrow> nat \<Rightarrow> u8 list \<Rightarrow> int \<Rightarrow> (u8 list \<times> int \<times> fs) res" where
  "free_loop 0 s a e ofs = Inl OutOfFuel"
| "free_loop (Suc k) s a e ofs =
     bnd (inode_read_at s a (int ENTRY_SIZE) ofs) (\<lambda>(bs, s).
     let e = overwrite e 0 bs
     in if length bs \<noteq> ENTRY_SIZE then Inr (e, ofs, s)
        else if \<not> in_use e then Inr (e, ofs, s)
        else free_loop k s a e (ofs + int ENTRY_SIZE))"

text \<open>A name that is empty or too long returns without the release of the lock.\<close>

definition dir_add :: "u8 list \<Rightarrow> fs \<Rightarrow> dir \<Rightarrow> u8 list \<Rightarrow> block_sector_t \<Rightarrow> (bool \<times> fs) res" where
  "dir_add junk s d name sector =
     bnd (inode_lock s (d_inode d)) (\<lambda>s.
     if name = [] \<or> length name > NAME_MAX then Inr (False, s)
     else bnd (lookup s (d_inode d) name) (\<lambda>(r, s).
          if r \<noteq> None then bnd (inode_release s (d_inode d)) (\<lambda>s. Inr (False, s))
          else bnd (free_loop (Suc (nat (i_length (ino s (d_inode d))))) s (d_inode d) junk 0) (\<lambda>(e, ofs, s).
               bnd (inode_write_at s (d_inode d) (set_entry e name sector) (int ENTRY_SIZE) ofs) (\<lambda>(k, s).
               bnd (inode_release s (d_inode d)) (\<lambda>s. Inr (k = int ENTRY_SIZE, s))))))"

section \<open>Reading\<close>

fun readdir_loop :: "nat \<Rightarrow> fs \<Rightarrow> dir \<Rightarrow> (u8 list option \<times> dir \<times> fs) res" where
  "readdir_loop 0 s d = Inl OutOfFuel"
| "readdir_loop (Suc k) s d =
     bnd (inode_read_at s (d_inode d) (int ENTRY_SIZE) (d_pos d)) (\<lambda>(e, s).
     if length e \<noteq> ENTRY_SIZE then Inr (None, d, s)
     else let d = d\<lparr>d_pos := d_pos d + int ENTRY_SIZE\<rparr>
          in if in_use e then Inr (Some (take NAME_MAX (takeWhile (\<lambda>b. b \<noteq> 0) (drop 4 e))), d, s)
             else readdir_loop k s d)"

definition dir_readdir :: "fs \<Rightarrow> dir \<Rightarrow> (u8 list option \<times> dir \<times> fs) res" where
  "dir_readdir s d =
     bnd (inode_lock s (d_inode d)) (\<lambda>s.
     bnd (readdir_loop (Suc (nat (i_length (ino s (d_inode d))))) s d) (\<lambda>(r, d, s).
     bnd (inode_release s (d_inode d)) (\<lambda>s. Inr (r, d, s))))"

section \<open>Removing\<close>

text \<open>The check of a directory that is to be removed: it is closed here, and with it its inode.\<close>

definition remove_subdir :: "memory \<Rightarrow> fs \<Rightarrow> nat \<Rightarrow> (bool \<times> fs) res" where
  "remove_subdir m s i =
     bnd (dir_open m s (Some i)) (\<lambda>(to_remove, s).
     case to_remove of
       None \<Rightarrow> Inl (Panic ''dir_open failure in dir_remove!'')
     | Some t \<Rightarrow>
         if inode_open_count s i > 1 then bnd (dir_close s (Some t)) (\<lambda>s. Inr (False, s))
         else bnd (dir_readdir s t) (\<lambda>(r, t, s).
              bnd (dir_close s (Some t)) (\<lambda>s. Inr (r = None, s))))"

text \<open>The accesses to the inode after that are accesses to freed memory.\<close>

definition dir_remove :: "memory \<Rightarrow> fs \<Rightarrow> dir \<Rightarrow> u8 list \<Rightarrow> (bool \<times> fs) res" where
  "dir_remove m s d name =
     bnd (inode_lock s (d_inode d)) (\<lambda>s.
     bnd (lookup s (d_inode d) name) (\<lambda>(r, s).
     case r of
       None \<Rightarrow> Inl (Panic ''Remove didn't find entry'')
     | Some (e, ofs) \<Rightarrow>
         bnd (inode_open s (inode_sector e) (new_inode m s)) (\<lambda>(i, s).
         case i of
           None \<Rightarrow> bnd (inode_release s (d_inode d)) (\<lambda>s. Inr (False, s))
         | Some a \<Rightarrow>
             let is_dir = inode_is_dir s a
             in bnd (if is_dir then remove_subdir m s a else Inr (True, s)) (\<lambda>(go, s).
                bnd (if go
                     then bnd (inode_write_at s (d_inode d) (e[19 := 0]) (int ENTRY_SIZE) ofs) (\<lambda>(k, s).
                          if k \<noteq> int ENTRY_SIZE then Inr (False, s)
                          else if inodes s a = None then Inl (Fault ''inode_remove'')
                          else Inr (True, inode_remove s a))
                     else Inr (False, s)) (\<lambda>(success, s).
                bnd (if inodes s a = None then Inl (Fault ''inode_is_dir'')
                     else if is_dir then Inr s else inode_close s (Some a)) (\<lambda>s.
                bnd (inode_release s (d_inode d)) (\<lambda>s. Inr (success, s))))))))"

section \<open>Creating\<close>

text \<open>\<open>cwd\<close> is the current directory of the thread.\<close>

definition dir_create :: "memory \<Rightarrow> u8 list \<Rightarrow> fs \<Rightarrow> dir \<Rightarrow> block_sector_t \<Rightarrow> nat \<Rightarrow> (bool \<times> fs) res" where
  "dir_create m junk s cwd sector entry_cnt =
     bnd (inode_create s sector (int (entry_cnt * ENTRY_SIZE)) True (calloc_ok m s) (new_inode m s)) (\<lambda>(result, s).
     if \<not> result then Inr (False, s)
     else bnd (inode_open s sector (new_inode m s)) (\<lambda>(i, s).
          bnd (dir_open m s i) (\<lambda>(d, s).
          let parent = (if sector = ROOT_DIR_SECTOR then sector else inode_get_inumber s (d_inode cwd))
          in case d of
               None \<Rightarrow> Inl (Panic ''dir_add'')
             | Some d \<Rightarrow>
                 bnd (dir_add junk s d [46] sector) (\<lambda>(r1, s).
                 bnd (if r1 then dir_add junk s d [46, 46] parent else Inr (False, s)) (\<lambda>(r2, s).
                 bnd (dir_close s (Some d)) (\<lambda>s. Inr (r1 \<and> r2, s)))))))"

section \<open>A directory as a table\<close>

definition terminated :: "u8 list \<Rightarrow> bool" where
  "terminated e \<longleftrightarrow> 0 \<in> set (take 15 (drop 4 e))"

definition ename :: "u8 list \<Rightarrow> u8 list" where
  "ename e = takeWhile (\<lambda>b. b \<noteq> 0) (drop 4 e)"

definition slot :: "u8 list \<Rightarrow> nat \<Rightarrow> u8 list" where
  "slot bs i = take 20 (drop (20 * i) bs)"

definition slots :: "u8 list \<Rightarrow> u8 list list" where
  "slots bs = map (slot bs) [0..<length bs div 20]"

text \<open>The table of a directory, and when the bytes of a file are a directory.\<close>

definition dmap :: "u8 list \<Rightarrow> u8 list \<rightharpoonup> block_sector_t" where
  "dmap bs = map_of (map (\<lambda>e. (ename e, inode_sector e)) (filter in_use (slots bs)))"

definition dir_wf :: "u8 list \<Rightarrow> bool" where
  "dir_wf bs \<longleftrightarrow> (\<forall>e \<in> set (slots bs). in_use e \<longrightarrow> terminated e) \<and> distinct (map ename (filter in_use (slots bs)))"

definition good_name :: "u8 list \<Rightarrow> bool" where
  "good_name n \<longleftrightarrow> n \<noteq> [] \<and> length n \<le> NAME_MAX \<and> 0 \<notin> set n"

lemma strcmp_cstring: "0 \<notin> set name \<Longrightarrow> 0 \<in> set bs \<Longrightarrow> strcmp_eq name bs = Inr (takeWhile (\<lambda>b. b \<noteq> 0) bs = name)"
  by (induction name bs rule: strcmp_eq.induct) auto

lemma strcmp_entry: "0 \<notin> set name \<Longrightarrow> terminated e \<Longrightarrow> strcmp_eq name (drop 4 e) = Inr (ename e = name)"
  unfolding ename_def by (rule strcmp_cstring) (auto simp: terminated_def dest: in_set_takeD)

lemma length_slots [simp]: "length (slots bs) = length bs div 20"
  by (simp add: slots_def)

lemma nth_slots [simp]: "i < length bs div 20 \<Longrightarrow> slots bs ! i = slot bs i"
  by (simp add: slots_def)

lemma length_slot: "length (slot bs i) = 20 \<longleftrightarrow> i < length bs div 20"
  unfolding slot_def by auto

text \<open>An open directory whose blocks are all allocated.\<close>

definition dir_at :: "block_sector_t set \<Rightarrow> fs \<Rightarrow> nat \<Rightarrow> inode \<Rightarrow> bool" where
  "dir_at R s a x \<longleftrightarrow> vol_ok R s \<and> inodes s a = Some x \<and> mapped (disk s) (i_sector x) 0 (i_length x)"

lemma mapped_sub: "mapped D n lo hi \<Longrightarrow> lo \<le> lo' \<Longrightarrow> hi' \<le> hi \<Longrightarrow> mapped D n lo' hi'"
  by (auto simp: mapped_def)

lemma mapped_join:
  assumes "mapped D n lo a" and "mapped D n b c" and "b \<le> a"
  shows "mapped D n lo (max a c)"
  unfolding mapped_def
proof (intro allI impI)
  fix p assume p: "lo \<le> p \<and> p < max a c"
  show "follow D n (path (nat p div 512)) \<noteq> 0"
    using assms p unfolding mapped_def by (cases "p < a") (simp_all add: less_max_iff_disj)
qed

lemma dir_read:
  assumes "dir_at R s a x" and "0 \<le> ofs"
  shows "inode_read_at s a sz ofs = Inr (take (nat sz) (drop (nat ofs) (contents s (i_sector x))), s)"
proof -
  have d: "vol_ok R s" "inodes s a = Some x" "mapped (disk s) (i_sector x) 0 (i_length x)"
    using assms(1) by (simp_all add: dir_at_def)
  have "mapped (disk s) (i_sector x) ofs (min (ofs + sz) (i_length x))" by (rule mapped_sub[OF d(3)]) (use assms(2) in simp_all)
  then show ?thesis using inode_read_vol[OF d(1,2) assms(2), of sz] by auto
qed

lemma dir_read_slot: "dir_at R s a x \<Longrightarrow> inode_read_at s a 20 (int (20 * i)) = Inr (slot (contents s (i_sector x)) i, s)"
  using dir_read[of R s a x "int (20 * i)" 20] by (simp add: slot_def nat_mult_distrib)

definition first_slot :: "(u8 list \<Rightarrow> bool) \<Rightarrow> u8 list \<Rightarrow> nat \<Rightarrow> nat option" where
  "first_slot P bs i = find (\<lambda>j. P (slot bs j)) [i..<length bs div 20]"

lemma first_slot_rec:
  "first_slot P bs i = (if i < length bs div 20 then if P (slot bs i) then Some i else first_slot P bs (Suc i) else None)"
  by (simp add: first_slot_def upt_conv_Cons)

lemma lookup_loop_ok:
  assumes "dir_at R s a x" and "dir_wf (contents s (i_sector x))" and "0 \<notin> set name"
    and "length (contents s (i_sector x)) div 20 < i + k" and "i \<le> length (contents s (i_sector x)) div 20"
  shows "lookup_loop k s a name (int (20 * i)) =
    Inr (map_option (\<lambda>j. (slot (contents s (i_sector x)) j, int (20 * j)))
      (first_slot (\<lambda>e. in_use e \<and> ename e = name) (contents s (i_sector x)) i), s)"
  using assms(4,5)
proof (induction k arbitrary: i)
  case (Suc k)
  let ?c = "contents s (i_sector x)"
  note rd = dir_read_slot[OF assms(1), of i]
  have nx: "int (20 * i) + 20 = int (20 * Suc i)" by simp
  show ?case
  proof (cases "i < length ?c div 20")
    case True
    then have "slot ?c i \<in> set (slots ?c)" by (metis length_slots nth_mem nth_slots)
    then have "in_use (slot ?c i) \<Longrightarrow> strcmp_eq name (drop 4 (slot ?c i)) = Inr (ename (slot ?c i) = name)"
      using assms(2,3) strcmp_entry by (auto simp: dir_wf_def)
    then show ?thesis using True rd Suc.IH[of "Suc i"] Suc.prems nx length_slot[of ?c i]
      by (subst first_slot_rec) (auto simp: algebra_simps)
  next
    case False
    then show ?thesis using rd length_slot[of ?c i] by (subst first_slot_rec) simp
  qed
qed simp

lemma lookup_ok:
  assumes "dir_at R s a x" and "dir_wf (contents s (i_sector x))" and "0 \<notin> set name"
  shows "lookup s a name = Inr (map_option (\<lambda>j. (slot (contents s (i_sector x)) j, int (20 * j)))
      (first_slot (\<lambda>e. in_use e \<and> ename e = name) (contents s (i_sector x)) 0), s)"
proof -
  have x: "vol_ok R s" "inodes s a = Some x" using assms(1) by (simp_all add: dir_at_def)
  have "length (contents s (i_sector x)) = nat (i_length x)"
    using file_len_open[OF vol_okD(3)[OF x(1)] x(2)] by (simp add: contents_def)
  then have "length (contents s (i_sector x)) div 20 < 0 + Suc (nat (i_length x))" by (simp add: less_Suc_eq_le)
  from lookup_loop_ok[OF assms this] show ?thesis using x(2) by (simp add: lookup_def ino_def)
qed

text \<open>The search for a free slot.\<close>

lemma free_loop_ok:
  assumes "dir_at R s a x" and "length e = 20" and "length (contents s (i_sector x)) div 20 < i + k"
    and "i \<le> length (contents s (i_sector x)) div 20"
  shows "\<exists>e' j. free_loop k s a e (int (20 * i)) = Inr (e', int (20 * j), s) \<and> length e' = 20 \<and>
    j = (case first_slot (\<lambda>e. \<not> in_use e) (contents s (i_sector x)) i of Some j \<Rightarrow> j
         | None \<Rightarrow> length (contents s (i_sector x)) div 20)"
  using assms(2-4)
proof (induction k arbitrary: i e)
  case (Suc k)
  let ?c = "contents s (i_sector x)"
  note rd = dir_read_slot[OF assms(1), of i]
  have nx: "int (20 * i) + 20 = int (20 * Suc i)" by simp
  have le: "length (overwrite e 0 (slot ?c i)) = 20"
    using Suc.prems(1) by (simp add: length_overwrite slot_def)
  show ?case
  proof (cases "i < length ?c div 20")
    case True
    then have ls: "length (slot ?c i) = 20" by (simp add: length_slot)
    then have "overwrite e 0 (slot ?c i) = slot ?c i" using Suc.prems(1) by (simp add: overwrite_def)
    then show ?thesis using True rd ls Suc.IH[of "slot ?c i" "Suc i"] Suc.prems nx
      by (subst first_slot_rec) (auto simp: algebra_simps Let_def)
  next
    case False
    then have "i = length ?c div 20" "length (slot ?c i) \<noteq> 20" using Suc.prems(3) length_slot[of ?c i] by auto
    then show ?thesis using rd le by (subst first_slot_rec) (auto simp: Let_def intro!: exI[of _ i])
  qed
qed simp

section \<open>Changing an entry\<close>

lemma set_entry_fields:
  assumes "length e = 20" and "good_name name"
  shows "length (set_entry e name n) = 20" and "in_use (set_entry e name n)" and "terminated (set_entry e name n)"
    and "ename (set_entry e name n) = name" and "inode_sector (set_entry e name n) = n"
proof -
  let ?e = "(overwrite e 4 (name @ [0]))[19 := 1]"
  have ln: "length name \<le> 14" "0 \<notin> set name" using assms(2) by (auto simp: good_name_def)
  have l1: "length ?e = 20" using assms(1) ln by (simp add: length_overwrite)
  show l: "length (set_entry e name n) = 20" using l1 by (simp add: set_entry_def length_overwrite)
  have nth: "set_entry e name n ! k = (if k < 4 then le_bytes n ! k else ?e ! k)" if "k < 20" for k
    using l1 that by (simp add: set_entry_def nth_overwrite)
  have e: "?e ! k = (if k = 19 then 1 else if 4 \<le> k \<and> k < 5 + length name then (name @ [0]) ! (k - 4) else e ! k)"
    if "k < 20" for k using assms(1) ln that by (simp add: nth_list_update nth_overwrite length_overwrite)
  show "in_use (set_entry e name n)" using nth[of 19] e[of 19] by (simp add: in_use_def)
  have d: "drop 4 (set_entry e name n) = name @ 0 # drop (5 + length name) (set_entry e name n)"
  proof (rule nth_equalityI)
    fix k assume k: "k < length (drop 4 (set_entry e name n))"
    show "drop 4 (set_entry e name n) ! k = (name @ 0 # drop (5 + length name) (set_entry e name n)) ! k"
    proof (cases "k < Suc (length name)")
      case True
      then have "4 + k < 19" using ln by simp
      then show ?thesis using True nth[of "4 + k"] e[of "4 + k"] l by (auto simp: nth_append)
    next
      case False
      then show ?thesis using l ln k by (simp add: nth_append)
    qed
  qed (use l ln in simp)
  show "ename (set_entry e name n) = name" unfolding ename_def d using ln by (subst takeWhile_append2) auto
  show "terminated (set_entry e name n)" using ln d by (simp add: terminated_def Suc_diff_le[of "length name" 14, simplified])
  show "inode_sector (set_entry e name n) = n"
    using nth[of 0] nth[of 1] nth[of 2] nth[of 3] by (simp add: inode_sector_def le_word_le_bytes)
qed

lemma slots_put:
  assumes "length e = 20" and "j \<le> length c div 20"
  shows "slots (file_put c (20 * j) 20 e) = (if j < length c div 20 then (slots c)[j := e] else slots c @ [e])"
    (is "slots ?c = ?r")
proof (rule nth_equalityI)
  have lc: "length ?c = max (length c) (20 * j + 20)" using assms(1) by (simp add: length_file_put)
  show l: "length (slots ?c) = length ?r"
  proof (cases "j < length c div 20")
    case True
    then have "20 * j + 20 \<le> length c" by linarith
    then show ?thesis using True lc by (simp add: max_def)
  next
    case False
    then have "j = length c div 20" using assms(2) by simp
    then have "max (length c) (20 * j + 20) = 20 * Suc j" by (simp add: max_def)
    then show ?thesis using False lc \<open>j = length c div 20\<close> by simp
  qed
  fix i assume i: "i < length (slots ?c)"
  then have ilc: "i < length ?c div 20" by simp
  then have i20: "20 * i + 20 \<le> max (length c) (20 * j + 20)" using lc by linarith
  have "slot ?c i = (if i = j then e else slot c i)"
  proof (rule nth_equalityI)
    have "length (slot ?c i) = 20" using ilc by (simp add: length_slot)
    moreover have "length (if i = j then e else slot c i) = 20"
    proof (cases "i = j")
      case False
      then have "i < length c div 20" using i l assms(2) by (auto split: if_splits)
      then show ?thesis using False by (simp add: length_slot)
    qed (use assms(1) in simp)
    ultimately show "length (slot ?c i) = length (if i = j then e else slot c i)" by simp
    fix k assume "k < length (slot ?c i)"
    then have k: "k < 20" by (simp add: slot_def)
    have le: "length e \<le> 20" using assms(1) by simp
    have p: "20 * i + k < max (length c) (20 * j + 20)" using i20 k by linarith
    have n: "slot ?c i ! k = ?c ! (20 * i + k)" using k lc p by (simp add: slot_def)
    show "slot ?c i ! k = (if i = j then e else slot c i) ! k"
    proof (cases "i = j")
      case True
      then show ?thesis unfolding n nth_file_put[OF le p] using k assms(1) by simp
    next
      case False
      then have "i < length c div 20" using i l assms(2) by (auto split: if_splits)
      then have "20 * i + k < length c" using k by linarith
      moreover have "\<not> (20 * j \<le> 20 * i + k \<and> 20 * i + k < 20 * j + length e)" using False k assms(1) by (cases "i < j") auto
      ultimately show ?thesis unfolding n nth_file_put[OF le p] using False k by (auto simp: slot_def)
    qed
  qed
  then show "slots ?c ! i = ?r ! i" using i l ilc assms(2) by (auto simp: nth_list_update nth_append split: if_splits)
qed

text \<open>Filling a free slot adds an entry to the table; clearing one removes it.\<close>

definition etab :: "u8 list list \<Rightarrow> u8 list \<rightharpoonup> block_sector_t" where
  "etab xs = map_of (map (\<lambda>e. (ename e, inode_sector e)) (filter in_use xs))"

lemma dmap_etab: "dmap bs = etab (slots bs)"
  by (simp add: dmap_def etab_def)

lemma dom_etab: "dom (etab xs) = set (map ename (filter in_use xs))"
  by (auto simp: etab_def dom_map_of_conv_image_fst image_image)

lemma etab_append: "etab (xs @ ys) = etab ys ++ etab xs"
  by (simp add: etab_def)

lemma etab_insert:
  assumes "ename e \<notin> dom (etab (xs @ ys))" and "in_use e"
  shows "etab (xs @ e # ys) = (etab (xs @ ys))(ename e \<mapsto> inode_sector e)"
  using assms by (auto simp: etab_def map_of_append map_add_def fun_eq_iff dom_def split: option.splits)

lemma etab_free: "\<not> in_use e \<Longrightarrow> etab (xs @ e # ys) = etab (xs @ ys)"
  by (simp add: etab_def)

lemma list_update_split: "j < length xs \<Longrightarrow> xs[j := e] = take j xs @ e # drop (Suc j) xs \<and> xs = take j xs @ xs ! j # drop (Suc j) xs"
  by (simp add: upd_conv_take_nth_drop id_take_nth_drop)

lemma dir_insert:
  assumes wf: "dir_wf c" and e: "length e = 20" "in_use e" "terminated e" and n: "dmap c (ename e) = None"
    and j: "j < length c div 20 \<and> \<not> in_use (slot c j) \<or> j = length c div 20"
  shows "dir_wf (file_put c (20 * j) 20 e) \<and> dmap (file_put c (20 * j) 20 e) = (dmap c)(ename e \<mapsto> inode_sector e)"
proof -
  have jl: "j \<le> length c div 20" using j by auto
  note sp = slots_put[OF e(1) jl]
  obtain xs ys where p: "slots (file_put c (20 * j) 20 e) = xs @ e # ys" and q: "filter in_use (slots c) = filter in_use (xs @ ys)"
    and r: "set (xs @ ys) \<subseteq> set (slots c)"
  proof (cases "j < length c div 20")
    case True
    then have u: "\<not> in_use (slots c ! j)" using j by auto
    have s: "(slots c)[j := e] = take j (slots c) @ e # drop (Suc j) (slots c)"
      "slots c = take j (slots c) @ slots c ! j # drop (Suc j) (slots c)"
      using True list_update_split[of j "slots c" e] by auto
    show ?thesis
    proof (rule that)
      show "slots (file_put c (20 * j) 20 e) = take j (slots c) @ e # drop (Suc j) (slots c)" using sp True s(1) by simp
      have "filter in_use (slots c) = filter in_use (take j (slots c) @ slots c ! j # drop (Suc j) (slots c))" using s(2) by simp
      then show "filter in_use (slots c) = filter in_use (take j (slots c) @ drop (Suc j) (slots c))" using u by simp
      show "set (take j (slots c) @ drop (Suc j) (slots c)) \<subseteq> set (slots c)" by (auto dest: in_set_takeD in_set_dropD)
    qed
  next
    case False
    show ?thesis by (rule that[of "slots c" "[]"]) (use sp False in auto)
  qed
  have t: "etab (xs @ ys) = dmap c" unfolding dmap_etab etab_def q[symmetric] ..
  have nd: "ename e \<notin> dom (etab (xs @ ys))" using n t by (auto simp: dom_def)
  have "dmap (file_put c (20 * j) 20 e) = (dmap c)(ename e \<mapsto> inode_sector e)"
    unfolding dmap_etab p using etab_insert[OF nd e(2)] t by (simp add: dmap_etab)
  moreover have "dir_wf (file_put c (20 * j) 20 e)"
  proof -
    have "distinct (map ename (filter in_use (xs @ ys)))" using wf q by (simp add: dir_wf_def)
    moreover have "ename e \<notin> set (map ename (filter in_use (xs @ ys)))" using nd dom_etab by metis
    moreover have "\<forall>e \<in> set (xs @ ys). in_use e \<longrightarrow> terminated e" using wf r by (auto simp: dir_wf_def)
    ultimately show ?thesis using e unfolding dir_wf_def p by auto
  qed
  ultimately show ?thesis by simp
qed

lemma dir_clear:
  assumes wf: "dir_wf c" and j: "j < length c div 20" "in_use (slot c j)"
  defines "e \<equiv> (slot c j)[19 := 0]"
  shows "dir_wf (file_put c (20 * j) 20 e) \<and> dmap (file_put c (20 * j) 20 e) = (dmap c)(ename (slot c j) := None)"
proof -
  have ls: "length (slot c j) = 20" using j(1) by (simp add: length_slot)
  have e: "length e = 20" "\<not> in_use e" using ls by (simp_all add: e_def in_use_def)
  define xs ys where "xs = take j (slots c)" and "ys = drop (Suc j) (slots c)"
  have p: "slots (file_put c (20 * j) 20 e) = xs @ e # ys" and q: "slots c = xs @ slot c j # ys"
    using slots_put[OF e(1), of j c] j(1) list_update_split[of j "slots c" e] by (auto simp: xs_def ys_def)
  have w: "\<forall>e \<in> set (slots c). in_use e \<longrightarrow> terminated e" "distinct (map ename (filter in_use (slots c)))"
    using wf by (simp_all add: dir_wf_def)
  have n: "ename (slot c j) \<notin> dom (etab (xs @ ys))" using w(2) j(2) unfolding dom_etab q by auto
  have "dmap c = (etab (xs @ ys))(ename (slot c j) \<mapsto> inode_sector (slot c j))"
    unfolding dmap_etab q by (rule etab_insert[OF n j(2)])
  moreover have "dmap (file_put c (20 * j) 20 e) = etab (xs @ ys)" unfolding dmap_etab p by (rule etab_free[OF e(2)])
  moreover have "dir_wf (file_put c (20 * j) 20 e)" using w e(2) j(2) unfolding dir_wf_def p q by auto
  ultimately show ?thesis using n by (auto simp: dom_def fun_eq_iff)
qed

section \<open>Directory operations on the table\<close>

definition dir_ready :: "block_sector_t set \<Rightarrow> fs \<Rightarrow> nat \<Rightarrow> inode \<Rightarrow> bool" where
  "dir_ready R s a x \<longleftrightarrow> dir_at R s a x \<and> i_is_dir x \<and> \<not> i_locked x \<and> deny_write_cnt x = 0 \<and> dir_wf (contents s (i_sector x))"

definition locked :: "fs \<Rightarrow> nat \<Rightarrow> fs" where
  "locked s a = upd_inode s a (\<lambda>x. x\<lparr>i_locked := True\<rparr>)"

lemma lock_ok:
  assumes "dir_ready R s a x"
  shows "inode_lock s a = Inr (locked s a)" and "dir_at R (locked s a) a (x\<lparr>i_locked := True\<rparr>)"
    and "contents (locked s a) m = contents s m" and "inodes (locked s a) = (inodes s)(a \<mapsto> x\<lparr>i_locked := True\<rparr>)"
proof -
  have d: "vol_ok R s" "inodes s a = Some x" "mapped (disk s) (i_sector x) 0 (i_length x)" "i_is_dir x" "\<not> i_locked x"
    using assms by (simp_all add: dir_ready_def dir_at_def)
  have oc: "open_cnt x \<ge> 1" using open_inodeD[OF d(1,2)] by simp
  show "inode_lock s a = Inr (locked s a)" using d by (simp add: inode_lock_def ino_def locked_def)
  have u: "vol_ok R (locked s a)" "contents (locked s a) m = contents s m" for m
    using upd_vol[where f = "\<lambda>x. x\<lparr>i_locked := True\<rparr>", OF d(1,2)] oc d(4) by (simp_all add: locked_def)
  show "dir_at R (locked s a) a (x\<lparr>i_locked := True\<rparr>)" using u(1) d(2,3) by (simp add: dir_at_def locked_def)
  show "contents (locked s a) m = contents s m" by (rule u(2))
  show "inodes (locked s a) = (inodes s)(a \<mapsto> x\<lparr>i_locked := True\<rparr>)" using d(2) by (auto simp: locked_def)
qed

lemma release_ok:
  assumes "vol_ok R s" and "inodes s a = Some x" and "i_locked x"
  shows "\<exists>s'. inode_release s a = Inr s' \<and> vol_ok R s' \<and> (\<forall>m. contents s' m = contents s m) \<and> disk s' = disk s \<and>
    full s' = full s \<and> inodes s' = (inodes s)(a \<mapsto> x\<lparr>i_locked := False\<rparr>)"
proof -
  let ?f = "\<lambda>x::inode. x\<lparr>i_locked := False\<rparr>"
  have "vol_ok R (upd_inode s a ?f)" "\<And>m. contents (upd_inode s a ?f) m = contents s m"
    using upd_vol[where f = ?f, OF assms(1,2)] open_inodeD[OF assms(1,2)] by auto
  moreover have "inode_release s a = Inr (upd_inode s a ?f)" using assms by (simp add: inode_release_def ino_def)
  moreover have "inodes (upd_inode s a ?f) = (inodes s)(a \<mapsto> ?f x)" using assms(2) by auto
  ultimately show ?thesis by auto
qed

lemma first_slot_Some:
  "first_slot P bs 0 = Some j \<Longrightarrow> j < length bs div 20 \<and> P (slot bs j) \<and> (\<forall>i < j. \<not> P (slot bs i))"
  by (auto simp: first_slot_def find_Some_iff)

lemma first_slot_None: "first_slot P bs 0 = None \<longleftrightarrow> (\<forall>e \<in> set (slots bs). \<not> P e)"
  by (auto simp: first_slot_def find_None_iff slots_def)

lemma first_slot_dmap:
  assumes "dir_wf c"
  shows "dmap c name = map_option (\<lambda>j. inode_sector (slot c j)) (first_slot (\<lambda>e. in_use e \<and> ename e = name) c 0)"
proof (cases "first_slot (\<lambda>e. in_use e \<and> ename e = name) c 0")
  case None
  then have "\<forall>e \<in> set (slots c). \<not> (in_use e \<and> ename e = name)" unfolding first_slot_None .
  then have "name \<notin> dom (dmap c)" unfolding dmap_etab dom_etab by auto
  then show ?thesis using None by (auto simp: dom_def)
next
  case (Some j)
  then have j: "j < length c div 20" "in_use (slot c j)" "ename (slot c j) = name" using first_slot_Some by auto
  then have "slot c j \<in> set (slots c)" by (metis length_slots nth_mem nth_slots)
  then have "(name, inode_sector (slot c j)) \<in> set (map (\<lambda>e. (ename e, inode_sector e)) (filter in_use (slots c)))"
    using j by force
  moreover have "distinct (map fst (map (\<lambda>e. (ename e, inode_sector e)) (filter in_use (slots c))))"
    using assms by (simp add: dir_wf_def comp_def)
  ultimately show ?thesis using Some by (simp add: dmap_def map_of_is_SomeI)
qed

lemma locked_lookup:
  assumes "dir_ready R s a x" and "0 \<notin> set name"
  shows "lookup (locked s a) a name = Inr (map_option (\<lambda>j. (slot (contents s (i_sector x)) j, int (20 * j)))
      (first_slot (\<lambda>e. in_use e \<and> ename e = name) (contents s (i_sector x)) 0), locked s a)"
  using lookup_ok[OF lock_ok(2)[OF assms(1)], of name] lock_ok(3)[OF assms(1), of "i_sector x"] assms
  by (simp add: dir_ready_def)

lemma dir_add_strong:
  assumes r: "dir_ready R s a x" and d: "d_inode d = a" and nm: "good_name name" and jk: "length junk = 20"
    and len: "i_length x + 20 \<le> int (MAX_BLOCKS * 512)"
  shows "\<exists>ok s' x'. dir_add junk s d name n = Inr (ok, s') \<and> vol_ok R s' \<and>
    (\<forall>m \<in> R. m \<noteq> i_sector x \<longrightarrow> contents s' m = contents s m) \<and> inodes s' = (inodes s)(a \<mapsto> x') \<and>
    (\<exists>dd l. x' = x\<lparr>i_dirty := dd, i_length := l\<rparr>) \<and> keeps R s s' \<and> dsize s' = dsize s \<and>
    (ok \<longrightarrow> dir_ready R s' a x' \<and> dmap (contents s (i_sector x)) name = None \<and>
      dmap (contents s' (i_sector x)) = (dmap (contents s (i_sector x)))(name \<mapsto> n)) \<and>
    (\<not> ok \<longrightarrow> full s' \<or> dir_ready R s' a x' \<and> dmap (contents s (i_sector x)) name \<noteq> None \<and>
      dmap (contents s' (i_sector x)) = dmap (contents s (i_sector x)))"
proof -
  let ?n = "i_sector x" and ?c = "contents s (i_sector x)" and ?x1 = "x\<lparr>i_locked := True\<rparr>"
  note L = lock_ok[OF r]
  have z: "0 \<notin> set name" and bad: "\<not> (name = [] \<or> length name > 14)" using nm by (auto simp: good_name_def)
  have rx: "vol_ok R s" "inodes s a = Some x" "i_is_dir x" "\<not> i_locked x" "deny_write_cnt x = 0" "dir_wf ?c"
    "mapped (disk s) ?n 0 (i_length x)" using r by (auto simp: dir_ready_def dir_at_def)
  have v1: "vol_ok R (locked s a)" "inodes (locked s a) a = Some ?x1" using L(2) by (simp_all add: dir_at_def)
  note lk = locked_lookup[OF r z]
  have fd: "dmap ?c name = map_option (\<lambda>j. inode_sector (slot ?c j)) (first_slot (\<lambda>e. in_use e \<and> ename e = name) ?c 0)"
    by (rule first_slot_dmap[OF rx(6)])
  show ?thesis
  proof (cases "first_slot (\<lambda>e. in_use e \<and> ename e = name) ?c 0")
    case (Some j)
    from release_ok[OF v1] obtain s2 where s2: "inode_release (locked s a) a = Inr s2" "vol_ok R s2"
      "\<forall>m. contents s2 m = contents (locked s a) m" "disk s2 = disk (locked s a)"
      "inodes s2 = (inodes (locked s a))(a \<mapsto> ?x1\<lparr>i_locked := False\<rparr>)" by auto
    have i2: "inodes s2 = (inodes s)(a \<mapsto> x)" using s2(5) L(4) rx(4) by (auto simp: fun_eq_iff)
    have c2: "contents s2 m = contents s m" for m using s2(3) L(3) by simp
    have "dir_add junk s d name n = Inr (False, s2)" using L(1) lk Some s2(1) bad d by (simp add: dir_add_def)
    moreover have "dir_ready R s2 a x" using rx s2(2,4) i2 c2 by (simp add: dir_ready_def dir_at_def locked_def)
    moreover have "dsize s2 = dsize s" "disk s2 = disk s" using s2(1,4) by (auto simp: inode_release_def asrt_def locked_def split: if_splits)
    moreover have "\<exists>dd l. x = x\<lparr>i_dirty := dd, i_length := l\<rparr>" by (rule exI[of _ "i_dirty x"], rule exI[of _ "i_length x"]) simp
    moreover have "dmap ?c name \<noteq> None" using fd Some by simp
    ultimately show ?thesis using s2(2) i2 c2 keeps_refl[of s2 s R]
      by (intro exI[of _ False] exI[of _ s2] exI[of _ x]) simp
  next
    case None
    have lc: "length ?c = nat (i_length x)"
      using file_len_open[OF vol_okD(3)[OF rx(1)] rx(2)] by (simp add: contents_def)
    have ino1: "ino (locked s a) a = ?x1" using v1(2) by (simp add: ino_def)
    have c1: "contents (locked s a) (i_sector ?x1) = ?c" using L(3) by simp
    have fu: "length (contents (locked s a) (i_sector ?x1)) div 20 < 0 + Suc (nat (i_length (ino (locked s a) a)))"
      unfolding c1 ino1 using lc by (simp add: less_Suc_eq_le)
    from free_loop_ok[OF L(2) jk fu] obtain e j where
      f: "free_loop (Suc (nat (i_length (ino (locked s a) a)))) (locked s a) a junk 0 = Inr (e, int (20 * j), locked s a)"
      "length e = 20" and j: "j = (case first_slot (\<lambda>e. \<not> in_use e) ?c 0 of Some j \<Rightarrow> j | None \<Rightarrow> length ?c div 20)"
      unfolding c1 by auto
    have jc: "j < length ?c div 20 \<and> \<not> in_use (slot ?c j) \<or> j = length ?c div 20"
      using j first_slot_Some[of "\<lambda>e. \<not> in_use e" ?c] by (auto split: option.splits)
    let ?e = "set_entry e name n"
    note se = set_entry_fields[OF f(2) nm, of n]
    have jl: "20 * j \<le> length ?c" using jc by auto
    then have off: "int (20 * j) + int (length ?e) \<le> int (MAX_BLOCKS * 512)" using se(1) len lc rx(1) by linarith
    have off0: "0 \<le> int (20 * j)" and dw: "deny_write_cnt ?x1 = 0" using rx(5) by simp_all
    let ?x2 = "\<lambda>dd. ?x1\<lparr>i_dirty := dd, i_length := max (i_length x) (int (20 * j) + 20)\<rparr>"
    from inode_write_vol[OF v1 dw off0 off] obtain k s2 dd where
      w: "inode_write_at (locked s a) a ?e 20 (int (20 * j)) = Inr (int k, s2)" "k \<le> 20" "vol_ok R s2"
      "k < 20 \<longrightarrow> full s2" "mapped (disk s2) ?n (int (20 * j)) (int (20 * j) + int k)"
      "contents s2 ?n = file_put (contents (locked s a) ?n) (20 * j) 20 (take k ?e)"
      "\<forall>m \<in> R. m \<noteq> ?n \<longrightarrow> contents s2 m = contents (locked s a) m"
      "inodes s2 = (inodes (locked s a))(a \<mapsto> ?x2 dd)"
      and ds: "dsize s2 = dsize (locked s a)" and mp: "\<forall>lo hi. 0 \<le> lo \<and> hi \<le> int (MAX_BLOCKS * 512) \<and> mapped (disk (locked s a)) ?n lo hi \<longrightarrow> mapped (disk s2) ?n lo hi"
      unfolding se(1) nat_int by auto
    from release_ok[OF w(3), of a "?x2 dd"] w(8) obtain s3 where s3: "inode_release s2 a = Inr s3" "vol_ok R s3"
      "\<forall>m. contents s3 m = contents s2 m" "disk s3 = disk s2" "full s3 = full s2"
      "inodes s3 = (inodes s2)(a \<mapsto> (?x2 dd)\<lparr>i_locked := False\<rparr>)" by auto
    define x3 where "x3 = x\<lparr>i_dirty := dd, i_length := max (i_length x) (int (20 * j) + 20)\<rparr>"
    have i3: "inodes s3 = (inodes s)(a \<mapsto> x3)" using s3(6) w(8) L(4) rx(4) by (auto simp: fun_eq_iff x3_def)
    have ok: "dir_add junk s d name n = Inr (int k = 20, s3)" using L(1) lk None f(1) w(1) s3(1) bad d by (simp add: dir_add_def)
    have oth: "\<forall>m \<in> R. m \<noteq> ?n \<longrightarrow> contents s3 m = contents s m" using s3(3) w(7) L(3) by simp
    have "dir_ready R s3 a x3 \<and> dmap ?c name = None \<and> dmap (contents s3 ?n) = (dmap ?c)(name \<mapsto> n)" if k: "k = 20"
    proof -
      have c3: "contents s3 ?n = file_put ?c (20 * j) 20 ?e" using s3(3) w(6) L(3) k se(1) by simp
      have nn: "dmap ?c (ename ?e) = None" using fd None se(4) by simp
      note di = dir_insert[OF rx(6) se(1-3) nn jc]
      have ml: "mapped (disk s2) ?n 0 (i_length x)" using mp rx(7) len by (simp add: locked_def)
      have "int (20 * j) \<le> i_length x" proof -
        have "0 \<le> i_length x" using vol_file_ok[OF rx(1,2)] by (simp add: file_ok_def)
        then show ?thesis using jl lc by linarith
      qed
      then have "mapped (disk s3) ?n 0 (max (i_length x) (int (20 * j) + 20))"
        using mapped_join[OF ml w(5)] k s3(4) by simp
      then show ?thesis using di c3 se(4,5) rx i3 s3(2) k fd None by (simp add: dir_ready_def dir_at_def x3_def)
    qed
    moreover have "keeps R s s3"
      using inode_write_keeps[OF v1 off0 off, of "int k" s2] w(1) se(1) s3(4) by (simp add: keeps_def locked_def)
    moreover have "dsize s3 = dsize s" using s3(1) ds by (auto simp: inode_release_def asrt_def locked_def split: if_splits)
    moreover have "int k \<noteq> 20 \<longrightarrow> full s3" using w(2,4) s3(5) by auto
    ultimately show ?thesis using ok s3(2) oth i3 x3_def by (intro exI[of _ "int k = 20"] exI[of _ s3] exI[of _ x3]) auto
  qed
qed

lemma dir_add_ok:
  assumes "dir_ready R s a x" and "d_inode d = a" and "good_name name" and "length junk = 20"
    and "i_length x + 20 \<le> int (MAX_BLOCKS * 512)"
  shows "\<exists>ok s' x'. dir_add junk s d name n = Inr (ok, s') \<and> vol_ok R s' \<and>
    (\<forall>m \<in> R. m \<noteq> i_sector x \<longrightarrow> contents s' m = contents s m) \<and> inodes s' = (inodes s)(a \<mapsto> x') \<and> i_sector x' = i_sector x \<and>
    (full s' \<or> dir_ready R s' a x' \<and> ok = (dmap (contents s (i_sector x)) name = None) \<and>
      dmap (contents s' (i_sector x)) = (if ok then (dmap (contents s (i_sector x)))(name \<mapsto> n) else dmap (contents s (i_sector x))))"
  using dir_add_strong[OF assms, of n] by fastforce

text \<open>Opening a file while the directory is locked.\<close>

lemma locked_open:
  assumes r: "dir_ready R s a x" and n: "n \<in> R" and b: "inodes s b = None"
  shows "\<exists>i s' y. inode_open (locked s a) n (Some b) = Inr (Some i, s') \<and> vol_ok R s' \<and> disk s' = disk s \<and>
    (\<forall>m. contents s' m = contents s m) \<and> inodes s' = (inodes (locked s a))(i \<mapsto> y) \<and> i_sector y = n \<and>
    ((\<forall>c z. inodes s c = Some z \<longrightarrow> i_sector z \<noteq> n) \<longrightarrow> i = b \<and> open_cnt y = 1 \<and> \<not> removed y \<and>
      i_is_dir y = (disk s n ! 504 \<noteq> 0) \<and> \<not> i_locked y) \<and>
    (\<forall>z. inodes (locked s a) i = Some z \<longrightarrow> y = z\<lparr>open_cnt := open_cnt z + 1\<rparr>) \<and> (i = a \<longleftrightarrow> n = i_sector x)"
proof -
  note L = lock_ok[OF r]
  have ra: "inodes s a = Some x" "vol_ok R s" using r by (simp_all add: dir_ready_def dir_at_def)
  have v: "vol_ok R (locked s a)" using L(2) by (simp add: dir_at_def)
  have ab: "a \<noteq> b" using ra b by auto
  then have b1: "inodes (locked s a) b = None" using L(4) b by simp
  have e: "(\<forall>c z. inodes (locked s a) c = Some z \<longrightarrow> i_sector z \<noteq> n) \<longleftrightarrow> (\<forall>c z. inodes s c = Some z \<longrightarrow> i_sector z \<noteq> n)"
    using L(4) ra(1) by (auto split: if_splits)
  have d: "disk (locked s a) = disk s" by (simp add: locked_def)
  from inode_open_vol[OF v n b1] obtain i s' y where o: "inode_open (locked s a) n (Some b) = Inr (Some i, s')" "vol_ok R s'"
    "disk s' = disk (locked s a)" "\<forall>m. contents s' m = contents (locked s a) m" "inodes s' = (inodes (locked s a))(i \<mapsto> y)"
    "i_sector y = n" "(\<forall>c z. inodes (locked s a) c = Some z \<longrightarrow> i_sector z \<noteq> n) \<longrightarrow> i = b \<and> open_cnt y = 1 \<and> \<not> removed y \<and>
      i_is_dir y = (disk (locked s a) n ! 504 \<noteq> 0) \<and> \<not> i_locked y"
    "\<forall>z. inodes (locked s a) i = Some z \<longrightarrow> y = z\<lparr>open_cnt := open_cnt z + 1\<rparr>" by blast
  have "i = a \<longleftrightarrow> n = i_sector x"
  proof
    assume "i = a"
    then show "n = i_sector x" using o(6,8) L(4) by auto
  next
    assume nx: "n = i_sector x"
    have "i = c" if "inodes (locked s a) c = Some z" "i_sector z = n" for c z
    proof -
      have "c \<noteq> i \<Longrightarrow> inodes s' c = Some z" using o(5) that by simp
      moreover have "inodes s' i = Some y" using o(5) by simp
      ultimately show ?thesis using vol_okD(3)[OF o(2)] o(6) that(2) unfolding open_ok_def by metis
    qed
    then show "i = a" using L(4) nx by simp
  qed
  then show ?thesis using o unfolding e d using L(3) by (intro exI[of _ i] exI[of _ s'] exI[of _ y]) auto
qed

lemma dir_lookup_ok:
  assumes r: "dir_ready R s a x" and d: "d_inode d = a" and z: "0 \<notin> set name" and b: "new_inode m (locked s a) = Some b" "inodes s b = None"
    and live: "ran (dmap (contents s (i_sector x))) \<subseteq> R"
  shows "\<exists>i s'. dir_lookup m s d name = Inr (i, s') \<and> vol_ok R s' \<and> (\<forall>n. contents s' n = contents s n) \<and>
    (\<exists>x'. dir_ready R s' a x' \<and> i_sector x' = i_sector x) \<and>
    (case dmap (contents s (i_sector x)) name of
       None \<Rightarrow> i = None
     | Some n \<Rightarrow> \<exists>j y. i = Some j \<and> inodes s' j = Some y \<and> i_sector y = n)"
proof -
  let ?c = "contents s (i_sector x)"
  note L = lock_ok[OF r] and lk = locked_lookup[OF r z]
  have rx: "vol_ok R s" "inodes s a = Some x" "i_is_dir x" "\<not> i_locked x" "deny_write_cnt x = 0" "dir_wf ?c"
    "mapped (disk s) (i_sector x) 0 (i_length x)" using r by (auto simp: dir_ready_def dir_at_def)
  note fd = first_slot_dmap[OF rx(6), of name]
  have ready: "\<exists>x'. dir_ready R s2 a x' \<and> i_sector x' = i_sector x"
    if "vol_ok R s2" "disk s2 = disk s" "\<forall>n. contents s2 n = contents s n" "inodes s2 a = Some (x\<lparr>open_cnt := oc, i_locked := False\<rparr>)" for s2 oc
    using rx that by (intro exI[of _ "x\<lparr>open_cnt := oc, i_locked := False\<rparr>"]) (simp add: dir_ready_def dir_at_def)
  show ?thesis
  proof (cases "first_slot (\<lambda>e. in_use e \<and> ename e = name) ?c 0")
    case None
    have v1: "vol_ok R (locked s a)" "inodes (locked s a) a = Some (x\<lparr>i_locked := True\<rparr>)" using L(2) by (simp_all add: dir_at_def)
    from release_ok[OF v1] obtain s2 where s2: "inode_release (locked s a) a = Inr s2" "vol_ok R s2"
      "\<forall>m. contents s2 m = contents (locked s a) m" "disk s2 = disk (locked s a)"
      "inodes s2 = (inodes (locked s a))(a \<mapsto> (x\<lparr>i_locked := True\<rparr>)\<lparr>i_locked := False\<rparr>)" by auto
    have "dir_lookup m s d name = Inr (None, s2)" using L(1) lk None s2(1) d by (simp add: dir_lookup_def)
    moreover have "\<exists>x'. dir_ready R s2 a x' \<and> i_sector x' = i_sector x"
      using ready[of s2 "open_cnt x"] s2 L(3) by (simp add: locked_def)
    ultimately show ?thesis using s2(2,3) L(3) fd None by auto
  next
    case (Some j)
    let ?n = "inode_sector (slot ?c j)"
    have dn: "dmap ?c name = Some ?n" using fd Some by simp
    then have n: "?n \<in> R" using live by (auto simp: ran_def)
    from locked_open[OF r n b(2)] obtain i s1 y where o: "inode_open (locked s a) ?n (Some b) = Inr (Some i, s1)" "vol_ok R s1"
      "disk s1 = disk s" "\<forall>m. contents s1 m = contents s m" "inodes s1 = (inodes (locked s a))(i \<mapsto> y)" "i_sector y = ?n"
      "\<forall>z. inodes (locked s a) i = Some z \<longrightarrow> y = z\<lparr>open_cnt := open_cnt z + 1\<rparr>" by blast
    define oc where "oc = (if i = a then open_cnt x + 1 else open_cnt x)"
    have x1: "inodes s1 a = Some (x\<lparr>i_locked := True, open_cnt := oc\<rparr>)" using o(5,7) L(4) by (auto simp: oc_def)
    from release_ok[OF o(2) x1] obtain s2 where s2: "inode_release s1 a = Inr s2" "vol_ok R s2"
      "\<forall>m. contents s2 m = contents s1 m" "disk s2 = disk s1"
      "inodes s2 = (inodes s1)(a \<mapsto> x\<lparr>open_cnt := oc, i_locked := False\<rparr>)" by auto
    have "dir_lookup m s d name = Inr (Some i, s2)" using L(1) lk Some o(1) b(1) s2(1) d by (simp add: dir_lookup_def)
    moreover have "\<exists>x'. dir_ready R s2 a x' \<and> i_sector x' = i_sector x" using ready[of s2 oc] s2 o(3,4) by simp
    moreover have "\<exists>y'. inodes s2 i = Some y' \<and> i_sector y' = ?n"
    proof (cases "i = a")
      case True
      then have "i_sector y = i_sector x" using o(7) L(4) by auto
      then show ?thesis using s2(5) True o(6) by simp
    next
      case False
      then show ?thesis using s2(5) o(5,6) by simp
    qed
    ultimately show ?thesis using s2(2,3) o(4) dn by auto
  qed
qed

end
