(* ===== verification/Directory_Props.thy ===== *)
theory Directory_Props
  imports Directory
begin

text \<open>
  Removal of files from directories, the contract of a directory as a table of names, and the
  properties of \<open>filesys/directory.c\<close>.
\<close>

section \<open>Removing a file\<close>

definition plain_file :: "fs \<Rightarrow> block_sector_t \<Rightarrow> bool" where
  "plain_file s n \<longleftrightarrow> disk s n ! 504 = 0 \<and> (\<forall>c z. inodes s c = Some z \<and> i_sector z = n \<longrightarrow> \<not> i_is_dir z)"

definition opened :: "fs \<Rightarrow> block_sector_t \<Rightarrow> bool" where
  "opened s n \<longleftrightarrow> (\<exists>c z. inodes s c = Some z \<and> i_sector z = n)"

text \<open>Unlinking: the inode of the file is marked and closed, which deletes it if nobody else has it open.\<close>

lemma unlink_ok:
  assumes ok: "vol_ok R s" and y: "inodes s i = Some y"
  shows "\<exists>s'. inode_close (inode_remove s i) (Some i) = Inr s' \<and>
    vol_ok (if open_cnt y = 1 then R - {i_sector y} else R) s' \<and>
    (\<forall>m \<in> R - {i_sector y}. contents s' m = contents s m) \<and> (\<forall>c. c \<noteq> i \<longrightarrow> inodes s' c = inodes s c) \<and>
    (open_cnt y = 1 \<longrightarrow> used s' = used s - (nodes (disk s) (i_sector y) -
      {follow (disk s) (i_sector y) [124, j] | j. j < INDEX_SIZE})) \<and>
    (open_cnt y \<noteq> 1 \<longrightarrow> inodes s' i = Some (y\<lparr>removed := True, i_dirty := False, open_cnt := open_cnt y - 1\<rparr>))"
proof -
  let ?f = "\<lambda>x::inode. x\<lparr>removed := True\<rparr>"
  have v: "vol_ok R (inode_remove s i)" "\<And>m. contents (inode_remove s i) m = contents s m"
    using upd_vol[where f = ?f, OF ok y] open_inodeD[OF ok y] by (simp_all add: inode_remove_def)
  have y': "inodes (inode_remove s i) i = Some (?f y)" using y by (simp add: inode_remove_def)
  have oth: "c \<noteq> i \<Longrightarrow> inodes (inode_remove s i) c = inodes s c" for c by (simp add: inode_remove_def)
  have dk: "disk (inode_remove s i) = disk s" "used (inode_remove s i) = used s" by (simp_all add: inode_remove_def)
  show ?thesis
  proof (cases "open_cnt y = 1")
    case True
    then show ?thesis using inode_close_removed_vol[OF v(1) y'] v(2) oth by (auto simp: dk)
  next
    case False
    then show ?thesis using inode_close_vol[OF v(1) y'] v(2) oth by auto
  qed
qed

lemma inode_release_used: "inode_release s a = Inr s' \<Longrightarrow> used s' = used s"
  by (auto simp: inode_release_def res_iffs)

text \<open>What is left of a file that lost its name: opens of it stay, on an inode that is marked removed; a file
  that nobody has open gives its sectors back, apart from the second-level index blocks.\<close>

definition unlinked :: "fs \<Rightarrow> fs \<Rightarrow> block_sector_t \<Rightarrow> bool" where
  "unlinked s s' n \<longleftrightarrow>
     (\<forall>c z. inodes s c = Some z \<and> i_sector z = n \<longrightarrow>
        inodes s' c = Some (z\<lparr>removed := True, i_dirty := False\<rparr>)) \<and>
     (\<not> opened s n \<longrightarrow> \<not> opened s' n \<and>
        (nodes (disk s) n - {follow (disk s) n [124, j] | j. j < INDEX_SIZE}) \<inter> used s' = {})"

lemma dir_remove_file_ok:
  assumes r: "dir_ready R s a x" and d: "d_inode d = a" and z: "0 \<notin> set name"
    and b: "new_inode m (locked s a) = Some b" "inodes s b = None"
    and n: "dmap (contents s (i_sector x)) name = Some n" "n \<in> R" "n \<noteq> i_sector x" "plain_file s n"
  shows "\<exists>s' x'. dir_remove m s d name = Inr (True, s') \<and> vol_ok (if opened s n then R else R - {n}) s' \<and>
    inodes s' a = Some x' \<and> i_sector x' = i_sector x \<and> \<not> i_locked x' \<and>
    dir_wf (contents s' (i_sector x)) \<and> dmap (contents s' (i_sector x)) = (dmap (contents s (i_sector x)))(name := None) \<and>
    (\<forall>k \<in> R. k \<noteq> n \<and> k \<noteq> i_sector x \<longrightarrow> contents s' k = contents s k) \<and> unlinked s s' n"
proof -
  let ?c = "contents s (i_sector x)"
  note L = lock_ok[OF r] and lk = locked_lookup[OF r z]
  have rx: "vol_ok R s" "inodes s a = Some x" "i_is_dir x" "\<not> i_locked x" "deny_write_cnt x = 0" "dir_wf ?c"
    "mapped (disk s) (i_sector x) 0 (i_length x)" using r by (auto simp: dir_ready_def dir_at_def)
  have xR: "i_sector x \<in> R" using vol_okD(3)[OF rx(1)] rx(2) by (auto simp: open_ok_def)
  from n(1) first_slot_dmap[OF rx(6), of name] obtain j where
    j: "first_slot (\<lambda>e. in_use e \<and> ename e = name) ?c 0 = Some j" "inode_sector (slot ?c j) = n" by auto
  then have js: "j < length ?c div 20" "in_use (slot ?c j)" "ename (slot ?c j) = name" using first_slot_Some by auto
  have no: "(\<forall>c z. inodes s c = Some z \<longrightarrow> i_sector z \<noteq> n) \<longleftrightarrow> \<not> opened s n" by (auto simp: opened_def)
  from locked_open[OF r n(2) b(2), unfolded no] n(3) obtain i s1 y where o: "inode_open (locked s a) n (Some b) = Inr (Some i, s1)" "vol_ok R s1"
    "disk s1 = disk s" "\<forall>m. contents s1 m = contents s m" "inodes s1 = (inodes (locked s a))(i \<mapsto> y)" "i_sector y = n"
    "\<not> opened s n \<longrightarrow> open_cnt y = 1 \<and> i_is_dir y = (disk s n ! 504 \<noteq> 0)"
    "\<forall>z. inodes (locked s a) i = Some z \<longrightarrow> y = z\<lparr>open_cnt := open_cnt z + 1\<rparr>" "i \<noteq> a" by blast
  have yi: "inodes s1 i = Some y" "inodes s1 a = Some (x\<lparr>i_locked := True\<rparr>)" using o(5,9) L(4) by auto
  have held: "\<exists>z. inodes s i = Some z \<and> i_sector z = n \<and> y = z\<lparr>open_cnt := open_cnt z + 1\<rparr> \<and> open_cnt z \<ge> 1" if "opened s n"
  proof -
    from that obtain c z where cz: "inodes s c = Some z" "i_sector z = n" by (auto simp: opened_def)
    then have "c \<noteq> a" using rx(2) n(3) by auto
    then have "inodes (locked s a) c = Some z" using L(4) cz by simp
    then have "c = i" using vol_okD(3)[OF o(2)] o(5,6) yi cz(2) unfolding open_ok_def by (metis fun_upd_other)
    then show ?thesis using cz o(8) \<open>inodes (locked s a) c = Some z\<close> open_inodeD[OF rx(1), of c z] by auto
  qed
  have nd: "\<not> i_is_dir y" using held o(7) n(4) by (cases "opened s n") (auto simp: plain_file_def)
  have oc: "open_cnt y = 1 \<longleftrightarrow> \<not> opened s n" using held o(7) by (cases "opened s n") auto
  define e where "e = (slot ?c j)[19 := 0]"
  have le: "length e = 20" using js(1) by (simp add: e_def length_slot)
  have lc: "length ?c = nat (i_length x)" "0 \<le> i_length x" "i_length x \<le> int (MAX_BLOCKS * 512)"
    using file_len_open[OF vol_okD(3)[OF rx(1)] rx(2)] vol_file_ok[OF rx(1,2)] by (auto simp: contents_def file_ok_def)
  have in_len: "int (20 * j) + 20 \<le> i_length x" using js(1) lc(1,2) by linarith
  then have off: "0 \<le> int (20 * j)" "int (20 * j) + int (length e) \<le> int (MAX_BLOCKS * 512)" using le lc(3) by linarith+
  have mp: "mapped (disk s1) (i_sector (x\<lparr>i_locked := True\<rparr>)) (int (20 * j)) (int (20 * j) + int (length e))"
    using mapped_sub[OF rx(7), of "int (20 * j)" "int (20 * j) + 20"] in_len o(3) le by simp
  have dw: "deny_write_cnt (x\<lparr>i_locked := True\<rparr>) = 0" using rx(5) by simp
  from inode_write_vol[OF o(2) yi(2) dw off] mp le obtain s2 dd where
    w: "inode_write_at s1 a e 20 (int (20 * j)) = Inr (20, s2)" "vol_ok R s2"
    "contents s2 (i_sector x) = file_put (contents s1 (i_sector x)) (20 * j) 20 e"
    "\<forall>m \<in> R. m \<noteq> i_sector x \<longrightarrow> contents s2 m = contents s1 m"
    "inodes s2 = (inodes s1)(a \<mapsto> (x\<lparr>i_locked := True\<rparr>)\<lparr>i_dirty := dd, i_length := max (i_length x) (int (20 * j) + 20)\<rparr>)"
    by (auto simp: nat_mult_distrib)
  have y2: "inodes s2 i = Some y" using w(5) yi(1) o(9) by simp
  define x2 where "x2 = (x\<lparr>i_locked := True\<rparr>)\<lparr>i_dirty := dd, i_length := max (i_length x) (int (20 * j) + 20)\<rparr>"
  from unlink_ok[OF w(2) y2] obtain s3 where s3: "inode_close (inode_remove s2 i) (Some i) = Inr s3"
    "vol_ok (if opened s n then R else R - {n}) s3" "\<forall>m \<in> R - {n}. contents s3 m = contents s2 m"
    "\<forall>c. c \<noteq> i \<longrightarrow> inodes s3 c = inodes s2 c"
    "\<not> opened s n \<longrightarrow> used s3 = used s2 - (nodes (disk s2) n - {follow (disk s2) n [124, j] | j. j < INDEX_SIZE})"
    "opened s n \<longrightarrow> inodes s3 i = Some (y\<lparr>removed := True, i_dirty := False, open_cnt := open_cnt y - 1\<rparr>)"
    unfolding o(6) oc by (auto split: if_splits)
  have x3: "inodes s3 a = Some x2" using s3(4) o(9) w(5) by (simp add: x2_def)
  from release_ok[OF s3(2) x3] obtain s4 where s4: "inode_release s3 a = Inr s4" "vol_ok (if opened s n then R else R - {n}) s4"
    "\<forall>m. contents s4 m = contents s3 m" "inodes s4 = (inodes s3)(a \<mapsto> x2\<lparr>i_locked := False\<rparr>)" by (auto simp: x2_def)
  have rm: "dir_remove m s d name = Inr (True, s4)"
  proof -
    have "inodes (inode_remove s2 i) i \<noteq> None" using y2 by (simp add: inode_remove_def)
    then show ?thesis using L(1) lk j o(1) b(1) w(1) s3(1) s4(1) d nd y2 yi(1)
      by (simp add: dir_remove_def inode_is_dir_def ino_def e_def[symmetric] Let_def)
  qed
  have "\<forall>y \<in> nodes (disk s) n. disk s2 y = disk s y"
    using inode_write_other[OF o(2) yi(2) off _ n(2)] n(3) w(1) le o(3) by simp
  moreover have "n \<noteq> 0" using vol_okD(2)[OF rx(1) n(2)] by (simp add: tree_ok_def)
  ultimately have fs: "follow (disk s2) n \<rho> = follow (disk s) n \<rho>" if "\<rho> \<in> places" for \<rho>
    using follow_same that by blast
  have nd2: "nodes (disk s2) n = nodes (disk s) n" unfolding nodes_def by (rule Collect_cong) (use fs in metis)
  have in2: "{follow (disk s2) n [124, j] | j. j < INDEX_SIZE} = {follow (disk s) n [124, j] | j. j < INDEX_SIZE}"
    using fs[OF inner_place] by force
  have ul: "unlinked s s4 n"
    unfolding unlinked_def
  proof (intro conjI allI impI)
    fix c z assume cz: "inodes s c = Some z \<and> i_sector z = n"
    then have op: "opened s n" by (auto simp: opened_def)
    from held[OF op] obtain z' where z': "inodes s i = Some z'" "i_sector z' = n" "y = z'\<lparr>open_cnt := open_cnt z' + 1\<rparr>" by blast
    then have "c = i" using cz vol_okD(3)[OF rx(1)] unfolding open_ok_def by metis
    then show "inodes s4 c = Some (z\<lparr>removed := True, i_dirty := False\<rparr>)" using s4(4) s3(6) op z' cz o(9) by simp
  next
    assume no: "\<not> opened s n"
    show "(nodes (disk s) n - {follow (disk s) n [124, j] | j. j < INDEX_SIZE}) \<inter> used s4 = {}"
      using s3(5) no inode_release_used[OF s4(1)] nd2 in2 by auto
    show "\<not> opened s4 n" using vol_okD(3)[OF s4(2)] no unfolding opened_def open_ok_def by auto
  qed
  have cd: "contents s4 (i_sector x) = file_put ?c (20 * j) 20 e" using s4(3) s3(3) w(3) o(4) xR n(3) by auto
  have "contents s4 k = contents s k" if "k \<in> R" "k \<noteq> n" "k \<noteq> i_sector x" for k
    using that s4(3) s3(3) w(4) o(4) by auto
  then show ?thesis
    using rm s4(2,4) cd dir_clear[OF rx(6) js(1,2)] js(3)
    by (intro exI[of _ s4] exI[of _ "x2\<lparr>i_locked := False\<rparr>"]) (auto simp: e_def x2_def ul)
qed

section \<open>Tables of names\<close>

locale name_table =
  fixes inv :: "'s \<Rightarrow> bool" and tab :: "'s \<Rightarrow> 'k \<rightharpoonup> 'v" and valid :: "'k \<Rightarrow> bool" and fits :: "'s \<Rightarrow> 'v \<Rightarrow> bool"
    and exhausted :: "'s \<Rightarrow> bool" and add :: "'s \<Rightarrow> 'k \<Rightarrow> 'v \<Rightarrow> (bool \<times> 's) res"
    and get :: "'s \<Rightarrow> 'k \<Rightarrow> ('v option \<times> 's) res"
  assumes add_law: "inv s \<Longrightarrow> valid k \<Longrightarrow> fits s v \<Longrightarrow> \<exists>ok s'. add s k v = Inr (ok, s') \<and>
      (exhausted s' \<or> inv s' \<and> ok = (tab s k = None) \<and> tab s' = (if ok then (tab s)(k \<mapsto> v) else tab s))"
    and get_law: "inv s \<Longrightarrow> valid k \<Longrightarrow> \<exists>s'. get s k = Inr (tab s k, s') \<and> inv s' \<and> tab s' = tab s"
begin

lemma add_get:
  assumes "inv s" and "valid k" and "fits s v"
  shows "\<exists>ok s'. add s k v = Inr (ok, s') \<and> (exhausted s' \<or> ok = (tab s k = None) \<and>
    (\<forall>k'. valid k' \<longrightarrow> (\<exists>s''. get s' k' = Inr (if k' = k \<and> ok then Some v else tab s k', s'') \<and> inv s'')))"
proof -
  from add_law[OF assms] obtain ok s' where a: "add s k v = Inr (ok, s')" "exhausted s' \<or> inv s' \<and> ok = (tab s k = None) \<and>
    tab s' = (if ok then (tab s)(k \<mapsto> v) else tab s)" by blast
  show ?thesis
  proof (cases "exhausted s'")
    case False
    have "\<exists>s''. get s' k' = Inr (if k' = k \<and> ok then Some v else tab s k', s'') \<and> inv s''" if "valid k'" for k'
      using get_law[OF _ that, of s'] a(2) False by (auto split: if_splits)
    then show ?thesis using a False by (intro exI[of _ ok] exI[of _ s']) auto
  qed (use a in auto)
qed

end

text \<open>\<open>malloc\<close> returns an address that is not in use.\<close>

definition fresh_mem :: "memory \<Rightarrow> bool" where
  "fresh_mem m \<longleftrightarrow> (\<forall>s. dom (inodes s) = set (open_inodes s) \<longrightarrow> (\<exists>b. new_inode m s = Some b \<and> inodes s b = None))"

lemma fresh_memD:
  assumes "fresh_mem m" and "vol_ok R s" and "inodes s a \<noteq> None"
  shows "\<exists>b. new_inode m (locked s a) = Some b \<and> inodes s b = None"
proof -
  have "dom (inodes s) = set (open_inodes s)" using vol_okD(3)[OF assms(2)] by (simp add: open_ok_def)
  moreover have "dom (inodes (locked s a)) = dom (inodes s)" using assms(3) by (auto simp: locked_def upd_inode_def)
  moreover have "open_inodes (locked s a) = open_inodes s" by (simp add: locked_def)
  ultimately obtain b where "new_inode m (locked s a) = Some b" "inodes (locked s a) b = None"
    using assms(1) unfolding fresh_mem_def by metis
  then show ?thesis using assms(3) by (auto simp: locked_def split: if_splits)
qed

text \<open>An open directory whose names lead to files of the volume.\<close>

definition dir_inv :: "memory \<Rightarrow> block_sector_t set \<Rightarrow> nat \<Rightarrow> block_sector_t \<Rightarrow> fs \<Rightarrow> bool" where
  "dir_inv m R a n s \<longleftrightarrow> fresh_mem m \<and> (\<exists>x. dir_ready R s a x \<and> i_sector x = n) \<and> ran (dmap (contents s n)) \<subseteq> R"

definition lookup_sector :: "memory \<Rightarrow> fs \<Rightarrow> dir \<Rightarrow> u8 list \<Rightarrow> (block_sector_t option \<times> fs) res" where
  "lookup_sector m s d name =
     bnd (dir_lookup m s d name) (\<lambda>(i, s). Inr (map_option (inode_get_inumber s) i, s))"

definition dir_room :: "block_sector_t set \<Rightarrow> nat \<Rightarrow> fs \<Rightarrow> block_sector_t \<Rightarrow> bool" where
  "dir_room R a s v \<longleftrightarrow> v \<in> R \<and> i_length (ino s a) + 20 \<le> int (MAX_BLOCKS * 512)"

interpretation directory: name_table "dir_inv m R (d_inode d) n" "\<lambda>s. dmap (contents s n)" good_name
  "dir_room R (d_inode d)" full "\<lambda>s. dir_add (replicate 20 0) s d" "\<lambda>s. lookup_sector m s d" for m R d n
proof
  let ?a = "d_inode d"
  fix s k v assume i: "dir_inv m R ?a n s" and k: "good_name k" and v: "dir_room R ?a s v"
  from i obtain x where x: "dir_ready R s ?a x" "i_sector x = n" and f: "fresh_mem m" and rn: "ran (dmap (contents s n)) \<subseteq> R"
    by (auto simp: dir_inv_def)
  have ia: "inodes s ?a = Some x" using x(1) by (simp add: dir_ready_def dir_at_def)
  from dir_add_ok[OF x(1) refl k, of "replicate 20 0" v] v ia x(2) obtain ok s' x' where
    a: "dir_add (replicate 20 0) s d k v = Inr (ok, s')" "i_sector x' = n" and
    t: "full s' \<or> dir_ready R s' ?a x' \<and> ok = (dmap (contents s n) k = None) \<and>
      dmap (contents s' n) = (if ok then (dmap (contents s n))(k \<mapsto> v) else dmap (contents s n))"
    by (auto simp: dir_room_def ino_def)
  have "dir_inv m R ?a n s'" if "\<not> full s'"
  proof -
    have "ran (dmap (contents s' n)) \<subseteq> R" using t that rn v by (auto simp: dir_room_def ran_def split: if_splits)
    then show ?thesis using t that a(2) f by (auto simp: dir_inv_def)
  qed
  then show "\<exists>ok s'. dir_add (replicate 20 0) s d k v = Inr (ok, s') \<and> (full s' \<or> dir_inv m R ?a n s' \<and>
      ok = (dmap (contents s n) k = None) \<and> dmap (contents s' n) = (if ok then (dmap (contents s n))(k \<mapsto> v) else dmap (contents s n)))"
    using a(1) t by blast
next
  let ?a = "d_inode d"
  fix s k assume i: "dir_inv m R ?a n s" and k: "good_name k"
  from i obtain x where x: "dir_ready R s ?a x" "i_sector x = n" and f: "fresh_mem m" and rn: "ran (dmap (contents s n)) \<subseteq> R"
    by (auto simp: dir_inv_def)
  have ia: "inodes s ?a = Some x" and ok: "vol_ok R s" using x(1) by (simp_all add: dir_ready_def dir_at_def)
  from fresh_memD[OF f ok, of ?a] ia obtain b where b: "new_inode m (locked s ?a) = Some b" "inodes s b = None" by auto
  have z: "0 \<notin> set k" using k by (simp add: good_name_def)
  from dir_lookup_ok[OF x(1) refl z b] rn x(2) obtain i s' where
    l: "dir_lookup m s d k = Inr (i, s')" "\<forall>n. contents s' n = contents s n"
    "\<exists>x'. dir_ready R s' ?a x' \<and> i_sector x' = n" and
    c: "case dmap (contents s n) k of None \<Rightarrow> i = None | Some n' \<Rightarrow> \<exists>j y. i = Some j \<and> inodes s' j = Some y \<and> i_sector y = n'"
    by auto
  have "lookup_sector m s d k = Inr (dmap (contents s n) k, s')"
    using l(1) c by (auto simp: lookup_sector_def inode_get_inumber_def ino_def split: option.splits)
  moreover have "dir_inv m R ?a n s'" using l(2,3) f rn by (simp add: dir_inv_def)
  ultimately show "\<exists>s'. lookup_sector m s d k = Inr (dmap (contents s n) k, s') \<and> dir_inv m R ?a n s' \<and>
      dmap (contents s' n) = dmap (contents s n)" using l(2) by auto
qed

section \<open>Removing a directory\<close>

lemma readdir_loop_total:
  assumes "vol_ok R s" and "inodes s (d_inode d) = Some x" and "0 \<le> d_pos d"
    and "nat (i_length x - d_pos d) < 20 * k"
  shows "\<exists>r d' s'. readdir_loop k s d = Inr (r, d', s') \<and> d_inode d' = d_inode d \<and> vol_ok R s' \<and> inodes s' = inodes s"
  using assms
proof (induction k arbitrary: s d)
  case (Suc k)
  from inode_read_vol[OF Suc.prems(1-3), of 20] obtain e s1 where r: "inode_read_at s (d_inode d) 20 (d_pos d) = Inr (e, s1)"
    "vol_ok R s1" "inodes s1 = inodes s" "length e = nat (min (d_pos d + 20) (i_length x) - d_pos d)"
    by (auto simp: same_inodes_def)
  show ?case
  proof (cases "length e = 20 \<and> \<not> in_use e")
    case True
    let ?d = "d\<lparr>d_pos := d_pos d + 20\<rparr>"
    have "inodes s1 (d_inode ?d) = Some x" "0 \<le> d_pos ?d" "nat (i_length x - d_pos ?d) < 20 * k"
      using r(3,4) Suc.prems True by (auto simp: min_def split: if_splits)
    from Suc.IH[OF r(2) this] show ?thesis using True r by (auto simp: Let_def)
  next
    case False
    then show ?thesis using r by (auto simp: Let_def)
  qed
qed simp

lemma readdir_total:
  assumes ok: "vol_ok R s" and x: "inodes s (d_inode d) = Some x" and l: "i_is_dir x" "\<not> i_locked x" and p: "0 \<le> d_pos d"
  shows "\<exists>r d' s'. dir_readdir s d = Inr (r, d', s') \<and> d_inode d' = d_inode d \<and> vol_ok R s' \<and> inodes s' = inodes s"
proof -
  let ?a = "d_inode d" and ?x = "x\<lparr>i_locked := True\<rparr>"
  have v: "vol_ok R (locked s ?a)"
    using upd_vol(1)[where f = "\<lambda>x. x\<lparr>i_locked := True\<rparr>", OF ok x] open_inodeD[OF ok x] l by (simp add: locked_def)
  have i: "inodes (locked s ?a) ?a = Some ?x" using x by (simp add: locked_def)
  have ln: "nat (i_length ?x - d_pos d) < 20 * Suc (nat (i_length (ino (locked s ?a) ?a)))" using i p by (simp add: ino_def)
  from readdir_loop_total[OF v i p ln] obtain r d' s1 where
    r: "readdir_loop (Suc (nat (i_length (ino (locked s ?a) ?a)))) (locked s ?a) d = Inr (r, d', s1)" "d_inode d' = ?a"
    "vol_ok R s1" "inodes s1 = inodes (locked s ?a)" by blast
  from release_ok[OF r(3), of ?a ?x] r(4) i obtain s2 where s2: "inode_release s1 ?a = Inr s2" "vol_ok R s2"
    "inodes s2 = (inodes s1)(?a \<mapsto> ?x\<lparr>i_locked := False\<rparr>)" by auto
  have "inode_lock s ?a = Inr (locked s ?a)" using l x by (simp add: inode_lock_def ino_def locked_def)
  then have "dir_readdir s d = Inr (r, d', s2)" using r(1,2) s2(1) by (simp add: dir_readdir_def)
  moreover have "inodes s2 = inodes s" using s2(3) r(4) x l(2) by (auto simp: locked_def fun_eq_iff)
  ultimately show ?thesis using r(2) s2(2) by auto
qed

lemma remove_subdir_frees:
  assumes ok: "vol_ok R s" and y: "inodes s i = Some y" "i_is_dir y" "\<not> i_locked y" "open_cnt y = 1" "\<not> removed y"
    and m: "calloc_ok m s"
  shows "\<exists>go s'. remove_subdir m s i = Inr (go, s') \<and> vol_ok R s' \<and> inodes s' = (inodes s)(i := None)"
proof -
  let ?t = "\<lparr>d_inode = i, d_pos = 40\<rparr>"
  from readdir_total[OF ok, of ?t y] y obtain r t s1 where r: "dir_readdir s ?t = Inr (r, t, s1)" "d_inode t = i"
    "vol_ok R s1" "inodes s1 = inodes s" by auto
  from inode_close_vol[OF r(3), of i y] r(4) y obtain s2 where s2: "inode_close s1 (Some i) = Inr s2" "vol_ok R s2"
    "inodes s2 = (inodes s1)(i := None)" by auto
  have "remove_subdir m s i = Inr (r = None, s2)"
    using m y r(1,2) s2(1) by (simp add: remove_subdir_def dir_open_def inode_open_count_def ino_def dir_close_def)
  then show ?thesis using s2 r(4) by auto
qed

section \<open>Properties\<close>

text \<open>
  A volume with a file in sector 1 and an empty directory in sector 2, which is open; and the same
  volume after the name \<open>a\<close> was given to the file.
\<close>

definition demo_mem :: memory where
  "demo_mem = \<lparr>new_inode = (\<lambda>s. Some (Suc (foldr max (open_inodes s) 0))), calloc_ok = (\<lambda>_. True)\<rparr>"

definition demo_dir_inode :: inode where
  "demo_dir_inode = \<lparr>i_sector = 2, i_locked = False, open_cnt = 1, removed = False, i_is_dir = True, i_dirty = False,
     deny_write_cnt = 0, i_length = 0\<rparr>"

definition demo_dir_fs :: "bool \<Rightarrow> fs" where
  "demo_dir_fs sub = (put_sector (put_sector (blank_fs 64) 1 (new_inode_disk 0 sub)) 2 (new_inode_disk 0 True))
     \<lparr>inodes := [10 \<mapsto> demo_dir_inode], open_inodes := [10]\<rparr>"

abbreviation demo_dir :: dir where "demo_dir \<equiv> \<lparr>d_inode = 10, d_pos = 40\<rparr>"

lemma demo_mem_fresh: "fresh_mem demo_mem"
proof -
  have "x \<le> foldr max xs 0" if "x \<in> set xs" for x :: nat and xs using that by (induction xs) auto
  then have "Suc (foldr max (open_inodes s) 0) \<notin> set (open_inodes s)" for s by (metis Suc_n_not_le_n)
  then have "inodes s (Suc (foldr max (open_inodes s) 0)) = None" if "dom (inodes s) = set (open_inodes s)" for s :: fs
    using that by (metis domIff)
  then show ?thesis by (simp add: fresh_mem_def demo_mem_def)
qed

lemma demo_dir_vol: "vol_ok {1, 2} (demo_dir_fs sub) \<and> contents (demo_dir_fs sub) 2 = []"
proof -
  let ?s0 = "blank_fs 64" and ?s1 = "put_sector (blank_fs 64) 1 (new_inode_disk 0 sub)"
  let ?s2 = "put_sector ?s1 2 (new_inode_disk 0 True)"
  have u0: "used ?s0 = {0, 1, 2}" using used_blank[of 64] by simp
  have v0: "vol_ok {} ?s0" using blank_vol[OF blank_fs_ok[of 64]] by simp
  have r1: "vol_ok {1} ?s1" using new_root(1)[OF v0, of 1 0 sub] u0 by simp
  have nd: "2 \<notin> nodes (disk ?s1) 1" using new_root(5)[OF v0, of 1 0 sub] u0 by simp
  have u1: "used ?s1 = {0, 1, 2}" using u0 by (simp add: put_sector_def used_def)
  have r2: "vol_ok {1, 2} ?s2" "contents ?s2 2 = []"
    using new_root(1,2)[OF r1, of 2 0 True] u1 nd by (simp_all add: insert_commute)
  have "inode_open ?s2 2 (Some 10) = Inr (Some 10, demo_dir_fs sub)"
    by (simp add: inode_open_def get_sector_def blank_fs_def put_sector_def demo_dir_fs_def demo_dir_inode_def new_inode_words(3,4))
  then show ?thesis using inode_open_vol[OF r2(1), of 2 10] r2(2) by (auto simp: blank_fs_def put_sector_def)
qed

lemma demo_dir_ready: "dir_ready {1, 2} (demo_dir_fs sub) 10 demo_dir_inode"
  using demo_dir_vol[of sub]
  by (auto simp: dir_ready_def dir_at_def demo_dir_fs_def demo_dir_inode_def mapped_def dir_wf_def slots_def)

definition demo_entry_fs :: "bool \<Rightarrow> fs" where
  "demo_entry_fs sub = (case dir_add (replicate 20 0) (demo_dir_fs sub) demo_dir [97] 1 of Inr (_, s) \<Rightarrow> s | _ \<Rightarrow> demo_dir_fs sub)"

lemma demo_entry_alloc: "fmap (demo_entry_fs sub) = \<lparr>bit_cnt = 64, bits = [15, 0]\<rparr>"
proof (cases sub)
  case True
  have "fmap (demo_entry_fs True) = \<lparr>bit_cnt = 64, bits = [15, 0]\<rparr>" by code_simp
  then show ?thesis using True by simp
next
  case False
  have "fmap (demo_entry_fs False) = \<lparr>bit_cnt = 64, bits = [15, 0]\<rparr>" by code_simp
  then show ?thesis using False by simp
qed

lemma demo_entry:
  "\<exists>x. dir_ready {1, 2} (demo_entry_fs sub) 10 x \<and> i_sector x = 2 \<and> dmap (contents (demo_entry_fs sub) 2) = [[97] \<mapsto> 1] \<and>
    inodes (demo_entry_fs sub) = [10 \<mapsto> x]"
proof -
  have g: "good_name [97]" by (simp add: good_name_def)
  have e: "dmap (contents (demo_dir_fs sub) 2) = Map.empty" using demo_dir_vol[of sub] by (simp add: dmap_def slots_def)
  have i: "inodes (demo_dir_fs sub) = [10 \<mapsto> demo_dir_inode]" "i_sector demo_dir_inode = 2" "i_length demo_dir_inode = 0"
    by (simp_all add: demo_dir_fs_def demo_dir_inode_def)
  have d: "d_inode demo_dir = 10" by simp
  from dir_add_ok[OF demo_dir_ready d g, of "replicate 20 0" sub 1] obtain ok s x where
    a: "dir_add (replicate 20 0) (demo_dir_fs sub) demo_dir [97] 1 = Inr (ok, s)" "vol_ok {1, 2} s" "inodes s = [10 \<mapsto> x]"
      "i_sector x = 2" "full s \<or> dir_ready {1, 2} s 10 x \<and> ok \<and> dmap (contents s 2) = (if ok then [[97] \<mapsto> 1] else Map.empty)"
    unfolding i e by auto
  have s: "s = demo_entry_fs sub" using a(1) by (simp add: demo_entry_fs_def)
  have "\<not> full s"
  proof -
    have f: "fs_ok s" using vol_okD(1)[OF a(2)] .
    have b: "bit_cnt (fmap s) = 64" using demo_entry_alloc[of sub] s by simp
    then have ds: "dsize s = 64" using f by (simp add: fs_ok_def)
    have "\<not> bget (fmap s) 5" using demo_entry_alloc[of sub] s by (simp add: bget_def)
    then have "5 \<notin> used s" using b by (simp add: used_def used_of_def)
    then show ?thesis using ds by (auto simp: full_def intro!: exI[of _ 5])
  qed
  then show ?thesis using a s by auto
qed

text \<open>
  (C12) A directory is a table from names to files: \<open>dir_add\<close> of a valid name succeeds exactly when
  the name is not in the directory, and afterwards a lookup of any valid name opens the file that
  the updated table gives, whether the entry went to a free slot or to the end of the file (unless
  the device has run out of sectors).
\<close>

theorem directory_is_a_table:
  assumes "fresh_mem m" and "dir_ready R s (d_inode d) x" and "ran (dmap (contents s (i_sector x))) \<subseteq> R"
    and "good_name name" and "n \<in> R" and "i_length x + 20 \<le> int (MAX_BLOCKS * 512)"
  shows "\<exists>ok s'. dir_add (replicate 20 0) s d name n = Inr (ok, s') \<and> (full s' \<or>
    ok = (dmap (contents s (i_sector x)) name = None) \<and>
    (\<forall>name'. good_name name' \<longrightarrow> (\<exists>s''. lookup_sector m s' d name'
       = Inr (if name' = name \<and> ok then Some n else dmap (contents s (i_sector x)) name', s''))))"
proof -
  have "dir_inv m R (d_inode d) (i_sector x) s" using assms(1-3) by (auto simp: dir_inv_def)
  moreover have "dir_room R (d_inode d) s n" using assms(2,5,6) by (simp add: dir_room_def dir_ready_def dir_at_def ino_def)
  ultimately obtain ok s' where "dir_add (replicate 20 0) s d name n = Inr (ok, s')" "full s' \<or>
    ok = (dmap (contents s (i_sector x)) name = None) \<and> (\<forall>name'. good_name name' \<longrightarrow> (\<exists>s''. lookup_sector m s' d name'
       = Inr (if name' = name \<and> ok then Some n else dmap (contents s (i_sector x)) name', s'') \<and> dir_inv m R (d_inode d) (i_sector x) s''))"
    using directory.add_get[OF _ assms(4), of m R d "i_sector x" s n] by blast
  then show ?thesis by (intro exI[of _ ok] exI[of _ s']) blast
qed

theorem directory_is_a_table_witness:
  "\<exists>ok s'. dir_add (replicate 20 0) (demo_dir_fs False) demo_dir [97] 1 = Inr (ok, s') \<and>
    (full s' \<or> ok \<and> (\<exists>s''. lookup_sector demo_mem s' demo_dir [97] = Inr (Some 1, s'')))"
proof -
  have e: "dmap (contents (demo_dir_fs False) 2) = Map.empty" using demo_dir_vol[of False] by (simp add: dmap_def slots_def)
  have g: "good_name [97]" by (simp add: good_name_def)
  have r: "dir_ready {1, 2} (demo_dir_fs False) (d_inode demo_dir) demo_dir_inode" using demo_dir_ready by simp
  have i: "i_sector demo_dir_inode = 2" "i_length demo_dir_inode = 0" by (simp_all add: demo_dir_inode_def)
  have "ran (dmap (contents (demo_dir_fs False) (i_sector demo_dir_inode))) \<subseteq> {1, 2}" using e i by simp
  from directory_is_a_table[OF demo_mem_fresh r this g, of 1] show ?thesis using e g i by force
qed

text \<open>
  (C26) Removing a file from a directory succeeds, takes exactly its name out of the table and leaves all
  other files as they were. If nobody has the file open its inode is closed for good and its sectors
  are released; otherwise the file lives on without a name, its inode marked removed so that the
  last close deletes it, with the same number of opens.
\<close>

theorem dir_remove_unlinks:
  assumes "dir_ready R s (d_inode d) x" and "0 \<notin> set name" and "fresh_mem m"
    and "dmap (contents s (i_sector x)) name = Some n" and "n \<in> R" and "n \<noteq> i_sector x" and "plain_file s n"
  shows "\<exists>s'. dir_remove m s d name = Inr (True, s') \<and> vol_ok (if opened s n then R else R - {n}) s' \<and>
    dmap (contents s' (i_sector x)) = (dmap (contents s (i_sector x)))(name := None) \<and>
    (\<forall>k \<in> R. k \<noteq> n \<and> k \<noteq> i_sector x \<longrightarrow> contents s' k = contents s k) \<and> unlinked s s' n"
proof -
  have "vol_ok R s" "inodes s (d_inode d) \<noteq> None" using assms(1) by (simp_all add: dir_ready_def dir_at_def)
  from fresh_memD[OF assms(3) this] obtain b where b: "new_inode m (locked s (d_inode d)) = Some b" "inodes s b = None" by blast
  from dir_remove_file_ok[OF assms(1) refl assms(2) b assms(4-7)] show ?thesis by blast
qed

theorem dir_remove_unlinks_witness:
  "\<exists>s'. dir_remove demo_mem (demo_entry_fs False) demo_dir [97] = Inr (True, s') \<and> vol_ok {2} s' \<and>
    dmap (contents s' 2) = Map.empty \<and> unlinked (demo_entry_fs False) s' 1 \<and> \<not> opened (demo_entry_fs False) 1"
proof -
  obtain x where x: "dir_ready {1, 2} (demo_entry_fs False) 10 x" "i_sector x = 2"
    "dmap (contents (demo_entry_fs False) 2) = [[97] \<mapsto> 1]" "inodes (demo_entry_fs False) = [10 \<mapsto> x]"
    using demo_entry by blast
  have "disk (demo_entry_fs False) 1 ! 504 = 0" by code_simp
  then have p: "plain_file (demo_entry_fs False) 1" "\<not> opened (demo_entry_fs False) 1"
    using x(2,4) by (auto simp: plain_file_def opened_def split: if_splits)
  have "dir_ready {1, 2} (demo_entry_fs False) (d_inode demo_dir) x" using x(1) by simp
  from dir_remove_unlinks[OF this _ demo_mem_fresh, of "[97]" 1] x p show ?thesis by auto
qed

text \<open>
  \<open>dir_add\<close> with an empty or too long name returns false while it still holds the lock of the
  directory's inode: every later operation of the thread on this directory fails the assertion of
  \<open>lock_acquire\<close> that the lock is not already held.
\<close>

theorem dir_add_bad_name_keeps_lock:
  assumes "dir_ready R s (d_inode d) x" and "name = [] \<or> length name > NAME_MAX"
  shows "\<exists>s'. dir_add junk s d name n = Inr (False, s') \<and>
    dir_lookup m s' d name' = Inl (Panic ''lock_acquire'') \<and> dir_add junk s' d name' n' = Inl (Panic ''lock_acquire'') \<and>
    dir_readdir s' d = Inl (Panic ''lock_acquire'') \<and> dir_remove m s' d name' = Inl (Panic ''lock_acquire'')"
proof -
  note L = lock_ok[OF assms(1)]
  have "i_locked (ino (locked s (d_inode d)) (d_inode d))" using L(4) by (simp add: ino_def)
  then have "inode_lock (locked s (d_inode d)) (d_inode d) = Inl (Panic ''lock_acquire'')" by (simp add: inode_lock_def)
  moreover have "dir_add junk s d name n = Inr (False, locked s (d_inode d))" using L(1) assms(2) by (simp add: dir_add_def)
  ultimately show ?thesis by (simp add: dir_lookup_def dir_add_def dir_readdir_def dir_remove_def)
qed

theorem dir_add_bad_name_keeps_lock_witness:
  "\<exists>s'. dir_add (replicate 20 0) (demo_dir_fs False) demo_dir (replicate 15 97) 1 = Inr (False, s') \<and>
    dir_lookup demo_mem s' demo_dir [97] = Inl (Panic ''lock_acquire'')"
  using dir_add_bad_name_keeps_lock[of "{1, 2}" "demo_dir_fs False" demo_dir demo_dir_inode "replicate 15 97" "replicate 20 0" 1 demo_mem "[97]"]
    demo_dir_ready[of False] by auto

text \<open>
  \<open>dir_remove\<close> of a name that is not in the directory panics the kernel, although its comment says
  that it returns false.
\<close>

theorem dir_remove_missing_panics:
  assumes "dir_ready R s (d_inode d) x" and "0 \<notin> set name" and "dmap (contents s (i_sector x)) name = None"
  shows "dir_remove m s d name = Inl (Panic ''Remove didn't find entry'')"
proof -
  have "dir_wf (contents s (i_sector x))" using assms(1) by (simp add: dir_ready_def)
  then have "first_slot (\<lambda>e. in_use e \<and> ename e = name) (contents s (i_sector x)) 0 = None"
    using first_slot_dmap[of "contents s (i_sector x)" name] assms(3) by simp
  then show ?thesis using lock_ok(1)[OF assms(1)] locked_lookup[OF assms(1,2)] by (simp add: dir_remove_def)
qed

theorem dir_remove_missing_panics_witness:
  "dir_remove demo_mem (demo_dir_fs False) demo_dir [98] = Inl (Panic ''Remove didn't find entry'')"
  by (rule dir_remove_missing_panics[of "{1, 2}" _ _ demo_dir_inode])
    (use demo_dir_ready[of False] demo_dir_vol[of False] in \<open>simp_all add: demo_dir_inode_def dmap_def slots_def\<close>)

text \<open>
  (C24) Removing a directory that nobody has open uses its inode after it was freed: \<open>dir_remove\<close> hands
  the inode to \<open>dir_open\<close>, and \<open>dir_close\<close> releases the last reference; then \<open>inode_remove\<close> or
  \<open>inode_is_dir\<close> is applied to the freed inode, whether the directory is empty or not. The sectors
  of the directory are never released.
\<close>

theorem dir_remove_directory_use_after_free:
  assumes r: "dir_ready R s (d_inode d) x" and z: "0 \<notin> set name" and m: "fresh_mem m" "\<forall>s. calloc_ok m s"
    and n: "dmap (contents s (i_sector x)) name = Some n" "n \<in> R" "n \<noteq> i_sector x" "\<not> opened s n" "disk s n ! 504 \<noteq> 0"
  shows "\<exists>msg. dir_remove m s d name = Inl (Fault msg)"
proof -
  let ?a = "d_inode d" and ?c = "contents s (i_sector x)"
  note L = lock_ok[OF r] and lk = locked_lookup[OF r z]
  have rx: "vol_ok R s" "inodes s ?a = Some x" "dir_wf ?c" "deny_write_cnt x = 0" using r by (auto simp: dir_ready_def dir_at_def)
  from fresh_memD[OF m(1) rx(1)] rx(2) obtain b where b: "new_inode m (locked s ?a) = Some b" "inodes s b = None" by blast
  from n(1) first_slot_dmap[OF rx(3), of name] obtain j where
    j: "first_slot (\<lambda>e. in_use e \<and> ename e = name) ?c 0 = Some j" "inode_sector (slot ?c j) = n" by auto
  have jl: "j < length ?c div 20" using first_slot_Some[OF j(1)] by simp
  have no: "\<forall>c z. inodes s c = Some z \<longrightarrow> i_sector z \<noteq> n" using n(4) by (auto simp: opened_def)
  from locked_open[OF r n(2) b(2)] no n(3,5) obtain s1 y where o: "inode_open (locked s ?a) n (Some b) = Inr (Some b, s1)"
    "vol_ok R s1" "inodes s1 = (inodes (locked s ?a))(b \<mapsto> y)" "open_cnt y = 1" "\<not> removed y" "i_is_dir y" "\<not> i_locked y" "b \<noteq> ?a"
    by blast
  have y: "inodes s1 b = Some y" using o(3) by simp
  from remove_subdir_frees[OF o(2) y o(6,7,4,5)] m(2) obtain go s2 where
    g: "remove_subdir m s1 b = Inr (go, s2)" "vol_ok R s2" "inodes s2 = (inodes s1)(b := None)" by blast
  have x2: "inodes s2 ?a = Some (x\<lparr>i_locked := True\<rparr>)" "inodes s2 b = None" using g(3) o(3,8) L(4) by auto
  let ?e = "(slot ?c j)[19 := 0]"
  have le: "length ?e = 20" using jl by (simp add: length_slot)
  have lc: "length ?c = nat (i_length x)" "i_length x \<le> int (MAX_BLOCKS * 512)"
    using file_len_open[OF vol_okD(3)[OF rx(1)] rx(2)] vol_file_ok[OF rx(1,2)] by (auto simp: contents_def file_ok_def)
  have off: "0 \<le> int (20 * j)" "int (20 * j) + int (length ?e) \<le> int (MAX_BLOCKS * 512)" using le lc jl by linarith+
  have dw: "deny_write_cnt (x\<lparr>i_locked := True\<rparr>) = 0" using rx(4) by simp
  from inode_write_vol[OF g(2) x2(1) dw off] le obtain k s3 v where
    w: "inode_write_at s2 ?a ?e 20 (int (20 * j)) = Inr (int k, s3)" "inodes s3 = (inodes s2)(?a \<mapsto> v)" by auto
  have "inodes s3 b = None" using w(2) x2(2) o(8) by simp
  then have "dir_remove m s d name = Inl (Fault (if go \<and> int k = 20 then ''inode_remove'' else ''inode_is_dir''))"
    using L(1) lk j b(1) o(1,6) y g(1) w(1) x2(2)
    by (simp add: dir_remove_def inode_is_dir_def ino_def Let_def split: if_splits)
  then show ?thesis by blast
qed

theorem dir_remove_directory_use_after_free_witness:
  "\<exists>msg. dir_remove demo_mem (demo_entry_fs True) demo_dir [97] = Inl (Fault msg)"
proof -
  obtain x where x: "dir_ready {1, 2} (demo_entry_fs True) 10 x" "i_sector x = 2"
    "dmap (contents (demo_entry_fs True) 2) = [[97] \<mapsto> 1]" "inodes (demo_entry_fs True) = [10 \<mapsto> x]"
    using demo_entry by blast
  have d: "disk (demo_entry_fs True) 1 ! 504 \<noteq> 0" by code_simp
  have o: "\<not> opened (demo_entry_fs True) 1" using x(2,4) by (auto simp: opened_def split: if_splits)
  have r: "dir_ready {1, 2} (demo_entry_fs True) (d_inode demo_dir) x" using x(1) by simp
  show ?thesis
    by (rule dir_remove_directory_use_after_free[OF r _ demo_mem_fresh _ _ _ _ o d]) (use x in \<open>simp_all add: demo_mem_def\<close>)
qed

end
