(* ===== verification/File.thy ===== *)
theory File
  imports Inode_Props
begin

text \<open>
  Open files, \<open>filesys/file.c\<close>: a file is an inode, a position and a flag that says whether this
  file denies writes to its inode. The operations take the file by value and return it updated
  where the C code changes the structure. \<open>mem\<close> says whether \<open>calloc\<close> succeeds. The last sections
  show that a file behaves as a cursor over a sequence of bytes, and that a file that denies writes
  keeps its contents whatever the other files of the same inode do.
\<close>

section \<open>The code\<close>

record open_file =
  f_inode :: nat
  f_pos :: int
  f_deny :: bool

definition file_open :: "fs \<Rightarrow> nat option \<Rightarrow> bool \<Rightarrow> (open_file option \<times> fs) res" where
  "file_open s i mem =
     (case i of
        Some a \<Rightarrow> if mem then Inr (Some \<lparr>f_inode = a, f_pos = 0, f_deny = False\<rparr>, s)
                  else bnd (inode_close s i) (\<lambda>s. Inr (None, s))
      | None \<Rightarrow> bnd (inode_close s None) (\<lambda>s. Inr (None, s)))"

definition file_reopen :: "fs \<Rightarrow> open_file \<Rightarrow> bool \<Rightarrow> (open_file option \<times> fs) res" where
  "file_reopen s f mem = file_open (inode_reopen s (f_inode f)) (Some (f_inode f)) mem"

definition file_allow_write :: "fs \<Rightarrow> open_file option \<Rightarrow> (open_file \<times> fs) res" where
  "file_allow_write s fo =
     (case fo of
        None \<Rightarrow> Inl (Panic ''file_allow_write'')
      | Some f \<Rightarrow>
          if f_deny f
          then bnd (inode_allow_write s (f_inode f)) (\<lambda>s. Inr (f\<lparr>f_deny := False\<rparr>, s))
          else Inr (f, s))"

definition file_deny_write :: "fs \<Rightarrow> open_file option \<Rightarrow> (open_file \<times> fs) res" where
  "file_deny_write s fo =
     (case fo of
        None \<Rightarrow> Inl (Panic ''file_deny_write'')
      | Some f \<Rightarrow>
          if \<not> f_deny f
          then bnd (inode_deny_write s (f_inode f)) (\<lambda>s. Inr (f\<lparr>f_deny := True\<rparr>, s))
          else Inr (f, s))"

definition file_close :: "fs \<Rightarrow> open_file option \<Rightarrow> fs res" where
  "file_close s fo =
     (case fo of
        None \<Rightarrow> Inr s
      | Some f \<Rightarrow> bnd (file_allow_write s (Some f)) (\<lambda>(f, s). inode_close s (Some (f_inode f))))"

definition file_get_inode :: "open_file \<Rightarrow> nat" where
  "file_get_inode f = f_inode f"

definition file_read :: "fs \<Rightarrow> open_file \<Rightarrow> int \<Rightarrow> (u8 list \<times> open_file \<times> fs) res" where
  "file_read s f sz =
     bnd (inode_read_at s (f_inode f) sz (f_pos f)) (\<lambda>(bs, s).
     Inr (bs, f\<lparr>f_pos := wrap32 (f_pos f + int (length bs))\<rparr>, s))"

definition file_read_at :: "fs \<Rightarrow> open_file \<Rightarrow> int \<Rightarrow> int \<Rightarrow> (u8 list \<times> fs) res" where
  "file_read_at s f sz file_ofs = inode_read_at s (f_inode f) sz file_ofs"

definition file_write :: "fs \<Rightarrow> open_file \<Rightarrow> u8 list \<Rightarrow> int \<Rightarrow> (int \<times> open_file \<times> fs) res" where
  "file_write s f buf sz =
     bnd (inode_write_at s (f_inode f) buf sz (f_pos f)) (\<lambda>(bytes_written, s).
     Inr (bytes_written, f\<lparr>f_pos := wrap32 (f_pos f + bytes_written)\<rparr>, s))"

definition file_write_at :: "fs \<Rightarrow> open_file \<Rightarrow> u8 list \<Rightarrow> int \<Rightarrow> int \<Rightarrow> (int \<times> fs) res" where
  "file_write_at s f buf sz file_ofs = inode_write_at s (f_inode f) buf sz file_ofs"

definition file_inumber :: "fs \<Rightarrow> open_file \<Rightarrow> block_sector_t" where
  "file_inumber s f = inode_get_inumber s (f_inode f)"

definition file_length :: "fs \<Rightarrow> open_file option \<Rightarrow> int res" where
  "file_length s fo = (case fo of None \<Rightarrow> Inl (Panic ''file_length'') | Some f \<Rightarrow> inode_length s (f_inode f))"

definition file_seek :: "open_file option \<Rightarrow> int \<Rightarrow> open_file res" where
  "file_seek fo new_pos =
     (case fo of
        None \<Rightarrow> Inl (Panic ''file_seek'')
      | Some f \<Rightarrow> asrt ''file_seek'' (new_pos \<ge> 0) (Inr (f\<lparr>f_pos := new_pos\<rparr>)))"

definition file_tell :: "open_file option \<Rightarrow> int res" where
  "file_tell fo = (case fo of None \<Rightarrow> Inl (Panic ''file_tell'') | Some f \<Rightarrow> Inr (f_pos f))"

section \<open>A file as a cursor\<close>

datatype sop = SRead nat | SWrite "u8 list" | SSeek nat | STell | SLength

datatype sout = Data "u8 list" | Num int | Done

fun run_sop :: "fs \<Rightarrow> open_file \<Rightarrow> sop \<Rightarrow> (sout \<times> open_file \<times> fs) res" where
  "run_sop s f (SRead n) = bnd (file_read s f (int n)) (\<lambda>(bs, f, s). Inr (Data bs, f, s))"
| "run_sop s f (SWrite bs) = bnd (file_write s f bs (int (length bs))) (\<lambda>(k, f, s). Inr (Num k, f, s))"
| "run_sop s f (SSeek n) = bnd (file_seek (Some f) (int n)) (\<lambda>f. Inr (Done, f, s))"
| "run_sop s f STell = bnd (file_tell (Some f)) (\<lambda>p. Inr (Num p, f, s))"
| "run_sop s f SLength = bnd (file_length s (Some f)) (\<lambda>l. Inr (Num l, f, s))"

fun run_sops :: "fs \<Rightarrow> open_file \<Rightarrow> sop list \<Rightarrow> (sout list \<times> open_file \<times> fs) res" where
  "run_sops s f [] = Inr ([], f, s)"
| "run_sops s f (x # xs) = bnd (run_sop s f x) (\<lambda>(o1, f, s). bnd (run_sops s f xs) (\<lambda>(os, f, s). Inr (o1 # os, f, s)))"

text \<open>The specification: a byte sequence and a position in it. Reading stops at the end, writing
  past the end extends the sequence, with zeros up to the position.\<close>

fun spec_sop :: "u8 list \<times> nat \<Rightarrow> sop \<Rightarrow> sout \<times> u8 list \<times> nat" where
  "spec_sop (c, p) (SRead n) = (let bs = take n (drop p c) in (Data bs, c, p + length bs))"
| "spec_sop (c, p) (SWrite bs) = (Num (int (length bs)), file_put c p (length bs) bs, p + length bs)"
| "spec_sop (c, p) (SSeek n) = (Done, c, n)"
| "spec_sop (c, p) STell = (Num (int p), c, p)"
| "spec_sop (c, p) SLength = (Num (int (length c)), c, p)"

fun spec_sops :: "u8 list \<times> nat \<Rightarrow> sop list \<Rightarrow> sout list \<times> u8 list \<times> nat" where
  "spec_sops q [] = ([], q)"
| "spec_sops q (x # xs) = (let (o1, q) = spec_sop q x; (os, q) = spec_sops q xs in (o1 # os, q))"

text \<open>Positions and the ends of writes stay below the largest size of a file.\<close>

fun sop_ok :: "nat \<Rightarrow> sop \<Rightarrow> bool" where
  "sop_ok p (SWrite bs) \<longleftrightarrow> p + length bs \<le> MAX_BLOCKS * 512"
| "sop_ok p (SSeek n) \<longleftrightarrow> n \<le> MAX_BLOCKS * 512"
| "sop_ok p _ \<longleftrightarrow> True"

fun sops_ok :: "u8 list \<times> nat \<Rightarrow> sop list \<Rightarrow> bool" where
  "sops_ok q [] \<longleftrightarrow> True"
| "sops_ok q (x # xs) \<longleftrightarrow> sop_ok (snd q) x \<and> sops_ok (snd (spec_sop q x)) xs"

text \<open>
  The file is at the cursor \<open>q\<close>. On a full device writes fall short and reads may return the wrong bytes, but
  the position and the length of the file do not exceed those of the specification.
\<close>

definition cursor_at :: "block_sector_t set \<Rightarrow> fs \<Rightarrow> open_file \<Rightarrow> block_sector_t \<Rightarrow> u8 list \<times> nat \<Rightarrow> bool" where
  "cursor_at R s f n q \<longleftrightarrow> vol_ok R s \<and> inode_file s (f_inode f) = Some n \<and> 0 \<le> f_pos f \<and> f_pos f \<le> int (snd q) \<and>
     length (contents s n) \<le> length (fst q) \<and> length (fst q) \<le> MAX_BLOCKS * 512 \<and> snd q \<le> MAX_BLOCKS * 512 \<and>
     (full s \<or> contents s n = fst q \<and> f_pos f = int (snd q))"

lemma contents_length:
  assumes "vol_ok R s" and "inodes s a = Some x"
  shows "int (length (contents s (i_sector x))) = i_length x" and "i_length x \<le> int (MAX_BLOCKS * 512)"
proof -
  have "i_sector x \<in> R" and l: "file_len s (i_sector x) = i_length x"
    using vol_okD(3)[OF assms(1)] assms(2) file_len_open[OF vol_okD(3)[OF assms(1)] assms(2)] by (auto simp: open_ok_def)
  then have "len_ok s (i_sector x)" using vol_okD(4)[OF assms(1)] by blast
  then show "int (length (contents s (i_sector x))) = i_length x" "i_length x \<le> int (MAX_BLOCKS * 512)"
    using l by (simp_all add: contents_def len_ok_def)
qed

lemma wrap32_pos: "p \<le> MAX_BLOCKS * 512 \<Longrightarrow> k \<le> MAX_BLOCKS * 512 \<Longrightarrow> wrap32 (int p + int k) = int (p + k)"
  by (subst wrap32_id) (simp_all add: in_int32_def)

lemma run_sop_refines:
  assumes at: "cursor_at R s f n q" and ok: "sop_ok (snd q) x"
  shows "\<exists>o1 f' s'. run_sop s f x = Inr (o1, f', s') \<and> cursor_at R s' f' n (snd (spec_sop q x)) \<and> (full s \<longrightarrow> full s') \<and>
    (\<forall>g \<in> R. g \<noteq> n \<longrightarrow> contents s' g = contents s g) \<and> (full s' \<or> o1 = fst (spec_sop q x))"
proof -
  obtain c m where q: "q = (c, m)" by (cases q)
  obtain p where p: "f_pos f = int p" using at by (metis cursor_at_def zero_le_imp_eq_int)
  have v: "vol_ok R s" and i: "inode_file s (f_inode f) = Some n" and pm: "p \<le> m" "m \<le> MAX_BLOCKS * 512"
    and l: "length (contents s n) \<le> length c" "length c \<le> MAX_BLOCKS * 512" and e: "full s \<or> contents s n = c \<and> p = m"
    using at p by (auto simp: cursor_at_def q)
  obtain y where y: "inodes s (f_inode f) = Some y" "i_sector y = n" using i inode_file_Some by blast
  note len = contents_length[OF v y(1), unfolded y(2)]
  have nR: "n \<in> R" using vol_okD(3)[OF v] y by (auto simp: open_ok_def)
  show ?thesis
  proof (cases x)
    case (SRead k)
    from inode_read_vol[OF v y(1), of "int p" "int k"] y(2) obtain bs s' where
      r: "inode_read_at s (f_inode f) (int k) (int p) = Inr (bs, s')" "vol_ok R s'" "same_inodes s s'" "used s \<subseteq> used s'"
      "\<forall>g \<in> R. contents s' g = contents s g" "\<not> full s' \<longrightarrow> bs = take k (drop p (contents s n))"
      "length bs = nat (min (int p + int k) (i_length y) - int p)" by auto
    have fu: "inode_file s' = inode_file s" "full s \<longrightarrow> full s'"
      using r(3,4) by (auto simp: inode_file_def same_inodes_def fun_eq_iff full_def)
    have lb: "length bs = min k (length (contents s n) - p)" using r(7) len by linarith
    have b: "length bs \<le> MAX_BLOCKS * 512" "p + length bs \<le> m + min k (length c - m)" "m + min k (length c - m) \<le> MAX_BLOCKS * 512"
      using lb len l pm by linarith+
    show ?thesis
      using SRead r(1,2,5,6) fu q p e b l i nR wrap32_pos[OF _ b(1), of p] pm by (auto simp: file_read_def cursor_at_def Let_def min.commute)
  next
    case (SWrite bs)
    have b: "p + length bs \<le> MAX_BLOCKS * 512" "m + length bs \<le> MAX_BLOCKS * 512" using ok SWrite q pm by simp_all
    from inode_store.wr_law[OF v i b(1)] obtain k s' where
      w: "write_file s (f_inode f) bs p = Inr (int k, s')" "k \<le> length bs" "vol_ok R s'" "inode_file s' = inode_file s"
      "full s \<longrightarrow> full s'" "k < length bs \<longrightarrow> full s'" "contents s' n = file_put (contents s n) p (length bs) (take k bs)"
      "\<forall>g \<in> R. g \<noteq> n \<longrightarrow> contents s' g = contents s g" by auto
    have "k = length bs \<and> p = m \<and> contents s n = c" if "\<not> full s'" using w(2,5,6) that e by auto
    moreover have "length (contents s' n) \<le> length (file_put c m (length bs) bs)"
      "length (file_put c m (length bs) bs) \<le> MAX_BLOCKS * 512" using w(2,7) l pm b by (simp_all add: length_file_put max_def)
    ultimately show ?thesis using SWrite w q p i b pm wrap32_pos[of p k]
      by (auto simp: file_write_def write_file_def cursor_at_def)
  next
    case SLength
    have "i_is_dir y \<or> \<not> i_locked y" using open_inodeD[OF v y(1)] by simp
    then have "inode_length s (f_inode f) = Inr (int (length (contents s n)))" using y(1) len(1) by (simp add: inode_length_def ino_def)
    then show ?thesis using SLength at q e by (auto simp: file_length_def)
  qed (use at ok q v i e p in \<open>auto simp: file_seek_def file_tell_def cursor_at_def\<close>)
qed

lemma run_sops_refines:
  assumes "cursor_at R s f n q" and "sops_ok q xs"
  shows "\<exists>os f' s'. run_sops s f xs = Inr (os, f', s') \<and> cursor_at R s' f' n (snd (spec_sops q xs)) \<and> (full s \<longrightarrow> full s') \<and>
    (\<forall>g \<in> R. g \<noteq> n \<longrightarrow> contents s' g = contents s g) \<and> (full s' \<or> os = fst (spec_sops q xs))"
  using assms
proof (induction xs arbitrary: s f q)
  case (Cons x xs)
  have ok: "sop_ok (snd q) x" "sops_ok (snd (spec_sop q x)) xs" using Cons.prems(2) by simp_all
  from run_sop_refines[OF Cons.prems(1) ok(1)] obtain o1 f1 s1 where
    1: "run_sop s f x = Inr (o1, f1, s1)" "cursor_at R s1 f1 n (snd (spec_sop q x))" "full s \<longrightarrow> full s1"
    "\<forall>g \<in> R. g \<noteq> n \<longrightarrow> contents s1 g = contents s g" "full s1 \<or> o1 = fst (spec_sop q x)" by blast
  from Cons.IH[OF 1(2) ok(2)] obtain os f2 s2 where
    2: "run_sops s1 f1 xs = Inr (os, f2, s2)" "cursor_at R s2 f2 n (snd (spec_sops (snd (spec_sop q x)) xs))" "full s1 \<longrightarrow> full s2"
    "\<forall>g \<in> R. g \<noteq> n \<longrightarrow> contents s2 g = contents s1 g" "full s2 \<or> os = fst (spec_sops (snd (spec_sop q x)) xs)" by blast
  show ?case using 1 2 by (auto simp: Let_def split: prod.splits)
qed (auto)

text \<open>
  (C11) A file is a cursor: any sequence of reads, writes, seeks, tells and length queries on an open file
  returns what the same sequence returns on a byte sequence with a position, leaves the file with the same bytes and
  position, and leaves every other file as it was. It completes without a panic as long as the positions stay below the
  largest file size, and is exact as long as the device does not fill up.
\<close>

theorem file_cursor_refines:
  assumes "vol_ok R s" and "inode_file s (f_inode f) = Some n" and "f_pos f = int p" and "p \<le> MAX_BLOCKS * 512"
    and "sops_ok (contents s n, p) xs"
  shows "\<exists>os f' s'. run_sops s f xs = Inr (os, f', s') \<and> vol_ok R s' \<and>
    (\<forall>g \<in> R. g \<noteq> n \<longrightarrow> contents s' g = contents s g) \<and>
    (full s' \<or> (os, contents s' n, nat (f_pos f')) = spec_sops (contents s n, p) xs)"
proof -
  obtain y where y: "inodes s (f_inode f) = Some y" "i_sector y = n" using assms(2) inode_file_Some by blast
  have "length (contents s n) \<le> MAX_BLOCKS * 512" using contents_length[OF assms(1) y(1), unfolded y(2)] by linarith
  then have "cursor_at R s f n (contents s n, p)" using assms(1-4) by (simp add: cursor_at_def)
  from run_sops_refines[OF this assms(5)] obtain os f' s' where
    r: "run_sops s f xs = Inr (os, f', s')" "cursor_at R s' f' n (snd (spec_sops (contents s n, p) xs))"
    "\<forall>g \<in> R. g \<noteq> n \<longrightarrow> contents s' g = contents s g" "full s' \<or> os = fst (spec_sops (contents s n, p) xs)" by blast
  then show ?thesis by (intro exI[of _ os] exI[of _ f'] exI[of _ s']) (auto simp: cursor_at_def prod_eq_iff)
qed

theorem file_cursor_refines_witness:
  "\<exists>os f' s'. run_sops (demo_fs 64) \<lparr>f_inode = 10, f_pos = 0, f_deny = False\<rparr> [SSeek 98, SWrite [1, 2, 3], SSeek 99, SRead 5, STell]
     = Inr (os, f', s') \<and> (full s' \<or> os = [Done, Num 3, Done, Data [2, 3], Num 101])"
proof -
  have c: "contents (demo_fs 64) 2 = replicate 100 0" using demo_fs_ok(3)[of 64] by simp
  have i: "inode_file (demo_fs 64) 10 = Some 2" by (simp add: inode_file_def demo_fs_def demo_inode_def)
  have r: "file_put (replicate 100 0) 98 3 [1, 2, 3] = replicate 98 (0 :: u8) @ [1, 2, 3]"
    by (simp add: file_put_def overwrite_def replicate_add[symmetric])
  have t: "take 5 (drop 99 (replicate 98 (0 :: u8) @ [1, 2, 3])) = [2, 3]" by simp
  let ?ops = "[SSeek 98, SWrite [1, 2, 3], SSeek 99, SRead 5, STell]"
  have sp: "spec_sops (replicate 100 0, 0) ?ops = ([Done, Num 3, Done, Data [2, 3], Num 101], replicate 98 0 @ [1, 2, 3], 101)"
    by (simp add: Let_def numeral_3_eq_3[symmetric] r t del: drop_append take_append)
  have ok: "sops_ok (replicate 100 0, 0) ?ops" by simp
  show ?thesis
    using file_cursor_refines[OF demo_fs_ok(1)[of 64], of "\<lparr>f_inode = 10, f_pos = 0, f_deny = False\<rparr>" 2 0 ?ops, unfolded c sp] i ok
    by auto
qed

section \<open>Denying writes\<close>

text \<open>
  (C22) Between \<open>file_deny_write\<close> and \<open>file_allow_write\<close> on a file, every write through any file of the same inode
  writes nothing and changes nothing; the second call undoes the first exactly, and closing the file
  includes it. A second \<open>file_deny_write\<close> on the same file has no effect, so the two need not be paired.
\<close>

theorem deny_write_protects:
  assumes "inodes s (f_inode f) = Some x" and "\<not> f_deny f" and "0 \<le> deny_write_cnt x" and "deny_write_cnt x < open_cnt x"
  shows "\<exists>f' s'. file_deny_write s (Some f) = Inr (f', s') \<and> file_deny_write s' (Some f') = Inr (f', s') \<and>
    (\<forall>g buf sz ofs. f_inode g = f_inode f \<and> in_int32 (f_pos g) \<longrightarrow>
       file_write s' g buf sz = Inr (0, g, s') \<and> file_write_at s' g buf sz ofs = Inr (0, s')) \<and>
    file_allow_write s' (Some f') = Inr (f, s) \<and> file_close s' (Some f') = file_close s (Some f)"
proof -
  define s' where "s' = upd_inode s (f_inode f) (\<lambda>x. x\<lparr>deny_write_cnt := deny_write_cnt x + 1\<rparr>)"
  have i: "ino s' (f_inode f) = x\<lparr>deny_write_cnt := deny_write_cnt x + 1\<rparr>" using assms(1) by (simp add: s'_def ino_def)
  have d: "file_deny_write s (Some f) = Inr (f\<lparr>f_deny := True\<rparr>, s')"
    using assms i by (simp add: file_deny_write_def inode_deny_write_def Let_def s'_def[symmetric])
  have "upd_inode s' (f_inode f) (\<lambda>x. x\<lparr>deny_write_cnt := deny_write_cnt x - 1\<rparr>) = s"
    using assms(1) by (simp add: s'_def upd_inode_def fun_upd_idem)
  then have a: "file_allow_write s' (Some (f\<lparr>f_deny := True\<rparr>)) = Inr (f, s)"
    using assms i by (simp add: file_allow_write_def inode_allow_write_def)
  have "file_close s' (Some (f\<lparr>f_deny := True\<rparr>)) = file_close s (Some f)"
    using a assms(2) by (simp add: file_close_def file_allow_write_def)
  moreover have "file_write s' g buf sz = Inr (0, g, s')" "file_write_at s' g buf sz ofs = Inr (0, s')"
    if "f_inode g = f_inode f" "in_int32 (f_pos g)" for g buf sz ofs
    using that i assms(3) by (simp_all add: file_write_def file_write_at_def inode_write_at_def wrap32_id)
  ultimately show ?thesis using d a by (intro exI[of _ "f\<lparr>f_deny := True\<rparr>"] exI[of _ s']) (simp add: file_deny_write_def)
qed

theorem deny_write_protects_witness:
  "\<exists>f' s'. file_deny_write (demo_fs 64) (Some \<lparr>f_inode = 10, f_pos = 3, f_deny = False\<rparr>) = Inr (f', s') \<and>
     file_write s' \<lparr>f_inode = 10, f_pos = 7, f_deny = False\<rparr> [1, 2] 2 = Inr (0, \<lparr>f_inode = 10, f_pos = 7, f_deny = False\<rparr>, s')"
  using deny_write_protects[of "demo_fs 64" "\<lparr>f_inode = 10, f_pos = 3, f_deny = False\<rparr>" demo_inode] demo_fs_ok(2)[of 64]
  by (auto simp: demo_inode_def in_int32_def)

end
