(* ===== verification/Bitmap_File.thy ===== *)
theory Bitmap_File
  imports File
begin

text \<open>
  Bitmaps in files, the last part of \<open>lib/kernel/bitmap.c\<close>: \<open>bitmap_write\<close> and \<open>bitmap_read\<close> over \<open>file_write_at\<close> and
  \<open>file_read_at\<close>. The number of bytes is an \<open>off_t\<close>, and success is that all of them were transferred.
\<close>

definition bitmap_read :: "fs \<Rightarrow> bitmap \<Rightarrow> open_file \<Rightarrow> (bool \<times> bitmap \<times> fs) res" where
  "bitmap_read s b file =
     (if 0 < bit_cnt b
      then let size = sint (byte_cnt (bit_cnt b))
           in bnd (file_read_at s file size 0) (\<lambda>(bs, s).
              bnd (load_bits b bs) (\<lambda>b. Inr (int (length bs) = size, b, s)))
      else Inr (True, b, s))"

definition bitmap_write :: "fs \<Rightarrow> bitmap \<Rightarrow> open_file \<Rightarrow> (bool \<times> fs) res" where
  "bitmap_write s b file =
     (let size = sint (byte_cnt (bit_cnt b))
      in bnd (file_write_at s file (bitmap_bytes b) size 0) (\<lambda>(n, s). Inr (n = size, s)))"

text \<open>A bitmap of at least one bit whose array fits in a file.\<close>

definition storable :: "bitmap \<Rightarrow> bool" where
  "storable b \<longleftrightarrow> 0 < bit_cnt b \<and> length (bits b) = unat (elem_cnt (bit_cnt b)) \<and> unat (byte_cnt (bit_cnt b)) \<le> MAX_BLOCKS * 512 \<and>
     unat (bit_cnt b) + 31 < 2 ^ 32"

lemma storable_size:
  assumes "storable b"
  shows "sint (byte_cnt (bit_cnt b)) = int (length (bitmap_bytes b))" and "0 < length (bitmap_bytes b)"
    and "length (bitmap_bytes b) \<le> MAX_BLOCKS * 512"
proof -
  have b: "0 < bit_cnt b" "length (bits b) = unat (elem_cnt (bit_cnt b))" "unat (byte_cnt (bit_cnt b)) \<le> MAX_BLOCKS * 512"
    "unat (bit_cnt b) + 31 < 2 ^ 32" using assms by (simp_all add: storable_def)
  note E = elem_cnt_unat[OF b(4)]
  have l: "length (bitmap_bytes b) = unat (byte_cnt (bit_cnt b))" using length_bitmap_bytes[OF b(4,2)] .
  then show "length (bitmap_bytes b) \<le> MAX_BLOCKS * 512" using b(3) by simp
  have "int (unat (byte_cnt (bit_cnt b))) \<le> int (MAX_BLOCKS * 512)" using b(3) by (rule of_nat_mono)
  from sint_len[OF _ this] show "sint (byte_cnt (bit_cnt b)) = int (length (bitmap_bytes b))" using l by simp
  have "0 < unat (bit_cnt b)" using b(1) by (simp add: word_less_nat_alt)
  then show "0 < length (bitmap_bytes b)" using E l by simp
qed

lemma load_bits_total:
  assumes "storable b" and "length bs \<le> length (bitmap_bytes b)"
  shows "\<exists>b'. load_bits b bs = Inr b'"
proof -
  have b: "length (bits b) = unat (elem_cnt (bit_cnt b))" "unat (bit_cnt b) + 31 < 2 ^ 32" "0 < bit_cnt b" using assms(1) by (simp_all add: storable_def)
  note E = elem_cnt_unat[OF b(2)]
  have w: "length (words_bytes (bits b)) = length (bitmap_bytes b)" using length_bitmap_bytes[OF b(2,1)] b(1) E(2) by simp
  have "length (bs @ drop (length bs) (words_bytes (bits b))) = 4 * length (bits b)" using assms(2) w by simp
  then have "length (bytes_words (bs @ drop (length bs) (words_bytes (bits b)))) = length (bits b)" unfolding length_bytes_words by simp
  moreover have "0 < unat (bit_cnt b)" using b(3) by (simp add: word_less_nat_alt)
  then have "elem_cnt (bit_cnt b) \<noteq> 0" using E(1) by (auto simp: unat_eq_0[symmetric])
  then have "unat (elem_cnt (bit_cnt b) - 1) < unat (elem_cnt (bit_cnt b))" by (simp add: unat_minus_one unat_gt_0)
  ultimately show ?thesis using b(1) by (simp add: load_bits_def upd_elem_def)
qed

text \<open>
  (C35) A bitmap in a file. Writing it through an open file succeeds unless writes to the file are denied, in which case nothing changes, or the
  device is full; the other files keep their contents, and after a successful write reading the file into any bitmap of
  the same size succeeds and gives every bit back. Reading from a file that is too short for the bitmap reports failure.
\<close>

theorem bitmap_read_write_roundtrip:
  assumes ok: "vol_ok R s" and x: "inodes s (f_inode f) = Some x" and b: "storable b" and b0: "storable b0" "bit_cnt b0 = bit_cnt b"
  shows "\<exists>w s'. bitmap_write s b f = Inr (w, s') \<and> vol_ok R s' \<and> (\<forall>m \<in> R. m \<noteq> i_sector x \<longrightarrow> contents s' m = contents s m) \<and>
    (deny_write_cnt x \<noteq> 0 \<longrightarrow> \<not> w \<and> s' = s) \<and> (\<not> w \<longrightarrow> deny_write_cnt x \<noteq> 0 \<or> full s') \<and>
    (w \<longrightarrow> (\<exists>b' s''. bitmap_read s' b0 f = Inr (True, b', s'') \<and> bit_cnt b' = bit_cnt b \<and> bits_of b' = bits_of b)) \<and>
    (i_length x < sint (byte_cnt (bit_cnt b)) \<longrightarrow> (\<exists>b' s''. bitmap_read s b0 f = Inr (False, b', s'')))"
proof -
  let ?bs = "bitmap_bytes b" and ?n = "i_sector x" and ?a = "f_inode f"
  note z = storable_size[OF b] and z0 = storable_size[OF b0(1), unfolded b0(2)]
  have len: "length (bitmap_bytes b0) = length ?bs" using z(1) z0(1) by simp
  have nz: "0 < bit_cnt b0" using b0(1) by (simp add: storable_def)
  have rd: "bitmap_read t b0 f = bnd (inode_read_at t ?a (int (length ?bs)) 0) (\<lambda>(d, t). bnd (load_bits b0 d) (\<lambda>b'.
      Inr (int (length d) = int (length ?bs), b', t)))" for t
    using nz z(1) b0(2) by (simp add: bitmap_read_def file_read_at_def Let_def)
  have short: "\<exists>b' s''. bitmap_read s b0 f = Inr (False, b', s'')" if "i_length x < sint (byte_cnt (bit_cnt b))"
  proof -
    from inode_read_vol[OF ok x, of 0 "int (length ?bs)"] obtain d t where
      d: "inode_read_at s ?a (int (length ?bs)) 0 = Inr (d, t)" "length d = nat (min (int (length ?bs)) (i_length x))" by auto
    then have l: "length d < length ?bs" using that z by linarith
    then obtain b' where "load_bits b0 d = Inr b'" using load_bits_total[OF b0(1), of d] len by auto
    then show ?thesis using d l by (simp add: rd)
  qed
  show ?thesis
  proof (cases "deny_write_cnt x = 0")
    case False
    then have "bitmap_write s b f = Inr (False, s)"
      using z inode_write_denied[OF x] by (simp add: bitmap_write_def file_write_at_def Let_def)
    then show ?thesis using False ok short by auto
  next
    case True
    have "0 + int (length ?bs) \<le> int (MAX_BLOCKS * 512)" using z(3) by linarith
    from inode_write_vol[OF ok x True order.refl this] obtain k s' dd where
      w: "inode_write_at s ?a ?bs (int (length ?bs)) 0 = Inr (int k, s')" "k \<le> length ?bs" "vol_ok R s'" "k < length ?bs \<longrightarrow> full s'"
      "mapped (disk s') ?n 0 (int k)" "contents s' ?n = file_put (contents s ?n) 0 (length ?bs) (take k ?bs)"
      "\<forall>m \<in> R. m \<noteq> ?n \<longrightarrow> contents s' m = contents s m"
      "inodes s' = (inodes s)(?a \<mapsto> x\<lparr>i_dirty := dd, i_length := max (i_length x) (int (length ?bs))\<rparr>)" by auto
    have wr: "bitmap_write s b f = Inr (k = length ?bs, s')" using w(1) z(1) by (simp add: bitmap_write_def file_write_at_def Let_def)
    have "\<exists>b' s''. bitmap_read s' b0 f = Inr (True, b', s'') \<and> bit_cnt b' = bit_cnt b \<and> bits_of b' = bits_of b" if k: "k = length ?bs"
    proof -
      let ?x = "x\<lparr>i_dirty := dd, i_length := max (i_length x) (int (length ?bs))\<rparr>"
      have x': "inodes s' ?a = Some ?x" using w(8) by simp
      have "take (length ?bs) (contents s' ?n) = ?bs" unfolding w(6) k by (simp add: file_put_def overwrite_def)
      then have "inode_read_at s' ?a (int (length ?bs)) 0 = Inr (?bs, s')"
        using inode_read_vol[OF w(3) x', of 0 "int (length ?bs)"] w(5) k by auto
      moreover obtain b' where "load_bits b0 ?bs = Inr b'" "bit_cnt b' = bit_cnt b" "bits_of b' = bits_of b"
        using load_bitmap_bytes[of b b0] b b0 by (auto simp: storable_def)
      ultimately show ?thesis by (simp add: rd)
    qed
    then show ?thesis using wr w(2,3,4,7) True short by (intro exI[of _ "k = length ?bs"] exI[of _ s']) auto
  qed
qed

theorem bitmap_read_write_roundtrip_witness:
  "\<exists>w s'. bitmap_write (demo_fs 64) demo_bitmap \<lparr>f_inode = 10, f_pos = 0, f_deny = False\<rparr> = Inr (w, s') \<and> (w \<or> full s') \<and>
    (w \<longrightarrow> (\<exists>b' s''. bitmap_read s' \<lparr>bit_cnt = 40, bits = [0, 0]\<rparr> \<lparr>f_inode = 10, f_pos = 0, f_deny = False\<rparr> = Inr (True, b', s'') \<and>
      bits_of b' = bits_of demo_bitmap))"
proof -
  let ?f = "\<lparr>f_inode = 10, f_pos = 0, f_deny = False\<rparr>" and ?b0 = "\<lparr>bit_cnt = 40, bits = [0, 0]\<rparr>"
  have b: "storable demo_bitmap" "storable ?b0" "bit_cnt ?b0 = bit_cnt demo_bitmap"
    by (simp_all add: storable_def demo_bitmap_def elem_cnt_def byte_cnt_def)
  have x: "inodes (demo_fs 64) (f_inode ?f) = Some demo_inode" using demo_fs_ok(2)[of 64] by simp
  have v: "vol_ok {2} (demo_fs 64)" using demo_fs_ok(1)[of 64] by simp
  from bitmap_read_write_roundtrip[OF v x b] show ?thesis by (auto simp: demo_inode_def)
qed

end
