(* ===== verification/Kstring.thy ===== *)
theory Kstring
  imports Kernel_Prelude
begin

text \<open>
  The memory and string routines of \<open>lib/string.c\<close>. Memory is an array of bytes and a pointer
  an index into it, with 0 the null pointer; reading or writing past the end is a \<open>Fault\<close>.
  Each routine is translated with its assertions and its loops, the loops over a string ending
  because the pointer moves towards the end of memory. \<open>is_str m p\<close> says that a terminated
  string starts at \<open>p\<close>, \<open>str m p\<close> is its text, and \<open>put m p bs\<close> is the memory with \<open>bs\<close>
  stored at \<open>p\<close>; the lemmas say what each routine computes in these terms.
\<close>

type_synonym bmem = "u8 list"
type_synonym addr = nat

definition rd :: "bmem \<Rightarrow> addr \<Rightarrow> (u8 \<Rightarrow> 'a res) \<Rightarrow> 'a res" where
  "rd m p f = (if p < length m then f (m ! p) else Inl (Fault ''read''))"

definition wr :: "bmem \<Rightarrow> addr \<Rightarrow> u8 \<Rightarrow> (bmem \<Rightarrow> 'a res) \<Rightarrow> 'a res" where
  "wr m p b f = (if p < length m then f (m[p := b]) else Inl (Fault ''write''))"

lemma rd_simp [simp]: "p < length m \<Longrightarrow> rd m p f = f (m ! p)"
  by (simp add: rd_def)

lemma wr_simp [simp]: "p < length m \<Longrightarrow> wr m p b f = f (m[p := b])"
  by (simp add: wr_def)

lemma rd_cong [fundef_cong]:
  "m = m' \<Longrightarrow> p = p' \<Longrightarrow> (\<And>b. p' < length m' \<Longrightarrow> f b = g b) \<Longrightarrow> rd m p f = rd m' p' g"
  by (simp add: rd_def)

section \<open>Operations\<close>

fun copy_up :: "bmem \<Rightarrow> addr \<Rightarrow> addr \<Rightarrow> nat \<Rightarrow> bmem res" where
  "copy_up m dst src 0 = Inr m"
| "copy_up m dst src (Suc n) =
     rd m src (\<lambda>b. wr m dst b (\<lambda>m. copy_up m (dst + 1) (src + 1) n))"

fun copy_down :: "bmem \<Rightarrow> addr \<Rightarrow> addr \<Rightarrow> nat \<Rightarrow> bmem res" where
  "copy_down m dst src 0 = Inr m"
| "copy_down m dst src (Suc n) =
     rd m (src - 1) (\<lambda>b. wr m (dst - 1) b (\<lambda>m. copy_down m (dst - 1) (src - 1) n))"

definition memcpy :: "bmem \<Rightarrow> addr \<Rightarrow> addr \<Rightarrow> nat \<Rightarrow> (addr \<times> bmem) res" where
  "memcpy m dst src sz =
     asrt ''memcpy'' (dst \<noteq> 0 \<or> sz = 0) (asrt ''memcpy'' (src \<noteq> 0 \<or> sz = 0) (
     bnd (copy_up m dst src sz) (\<lambda>m. Inr (dst, m))))"

text \<open>\<open>memmove\<close> returns the local pointer that its loops have moved.\<close>

definition memmove :: "bmem \<Rightarrow> addr \<Rightarrow> addr \<Rightarrow> nat \<Rightarrow> (addr \<times> bmem) res" where
  "memmove m dst src sz =
     asrt ''memmove'' (dst \<noteq> 0 \<or> sz = 0) (asrt ''memmove'' (src \<noteq> 0 \<or> sz = 0) (
     if dst < src then bnd (copy_up m dst src sz) (\<lambda>m. Inr (dst + sz, m))
     else bnd (copy_down m (dst + sz) (src + sz) sz) (\<lambda>m. Inr (dst + sz - sz, m))))"

fun memcmp_loop :: "bmem \<Rightarrow> addr \<Rightarrow> addr \<Rightarrow> nat \<Rightarrow> int res" where
  "memcmp_loop m a b 0 = Inr 0"
| "memcmp_loop m a b (Suc n) =
     rd m a (\<lambda>x. rd m b (\<lambda>y.
     if x \<noteq> y then Inr (if y < x then 1 else - 1) else memcmp_loop m (a + 1) (b + 1) n))"

definition memcmp :: "bmem \<Rightarrow> addr \<Rightarrow> addr \<Rightarrow> nat \<Rightarrow> int res" where
  "memcmp m a b sz =
     asrt ''memcmp'' (a \<noteq> 0 \<or> sz = 0) (asrt ''memcmp'' (b \<noteq> 0 \<or> sz = 0) (
     memcmp_loop m a b sz))"

function strcmp_loop :: "bmem \<Rightarrow> addr \<Rightarrow> addr \<Rightarrow> int res" where
  "strcmp_loop m a b =
     rd m a (\<lambda>x. rd m b (\<lambda>y.
     if x \<noteq> 0 \<and> x = y then strcmp_loop m (a + 1) (b + 1)
     else Inr (if x < y then - 1 else if y < x then 1 else 0)))"
  by pat_completeness auto
termination by (relation "measure (\<lambda>(m, a, b). length m - a)") auto

definition strcmp :: "bmem \<Rightarrow> addr \<Rightarrow> addr \<Rightarrow> int res" where
  "strcmp m a b = asrt ''strcmp'' (a \<noteq> 0) (asrt ''strcmp'' (b \<noteq> 0) (strcmp_loop m a b))"

fun memchr_loop :: "bmem \<Rightarrow> addr \<Rightarrow> u8 \<Rightarrow> nat \<Rightarrow> addr res" where
  "memchr_loop m block ch 0 = Inr 0"
| "memchr_loop m block ch (Suc n) =
     rd m block (\<lambda>b. if b = ch then Inr block else memchr_loop m (block + 1) ch n)"

definition memchr :: "bmem \<Rightarrow> addr \<Rightarrow> u8 \<Rightarrow> nat \<Rightarrow> addr res" where
  "memchr m block ch sz = asrt ''memchr'' (block \<noteq> 0 \<or> sz = 0) (memchr_loop m block ch sz)"

function strchr_loop :: "bmem \<Rightarrow> addr \<Rightarrow> u8 \<Rightarrow> addr res" where
  "strchr_loop m s c =
     rd m s (\<lambda>b. if b = c then Inr s else if b = 0 then Inr 0 else strchr_loop m (s + 1) c)"
  by pat_completeness auto
termination by (relation "measure (\<lambda>(m, s, c). length m - s)") auto

definition strchr :: "bmem \<Rightarrow> addr \<Rightarrow> u8 \<Rightarrow> addr res" where
  "strchr m s c = asrt ''strchr'' (s \<noteq> 0) (strchr_loop m s c)"

text \<open>\<open>strcspn\<close> and \<open>strspn\<close> with their running \<open>length\<close>.\<close>

function strcspn_loop :: "bmem \<Rightarrow> addr \<Rightarrow> addr \<Rightarrow> nat \<Rightarrow> nat res" where
  "strcspn_loop m s stop len =
     rd m (s + len) (\<lambda>b. if b = 0 then Inr len
       else bnd (strchr m stop b) (\<lambda>q. if q \<noteq> 0 then Inr len else strcspn_loop m s stop (len + 1)))"
  by pat_completeness auto
termination by (relation "measure (\<lambda>(m, s, stop, len). length m - (s + len))") auto

definition strcspn :: "bmem \<Rightarrow> addr \<Rightarrow> addr \<Rightarrow> nat res" where
  "strcspn m s stop = strcspn_loop m s stop 0"

function strpbrk :: "bmem \<Rightarrow> addr \<Rightarrow> addr \<Rightarrow> addr res" where
  "strpbrk m s stop =
     rd m s (\<lambda>b. if b = 0 then Inr 0
       else bnd (strchr m stop b) (\<lambda>q. if q \<noteq> 0 then Inr s else strpbrk m (s + 1) stop))"
  by pat_completeness auto
termination by (relation "measure (\<lambda>(m, s, stop). length m - s)") auto

function strrchr_loop :: "bmem \<Rightarrow> addr \<Rightarrow> u8 \<Rightarrow> addr \<Rightarrow> addr res" where
  "strrchr_loop m s c p =
     rd m s (\<lambda>b. if b = 0 then Inr p else strrchr_loop m (s + 1) c (if b = c then s else p))"
  by pat_completeness auto
termination by (relation "measure (\<lambda>(m, s, c, p). length m - s)") auto

definition strrchr :: "bmem \<Rightarrow> addr \<Rightarrow> u8 \<Rightarrow> addr res" where
  "strrchr m s c = strrchr_loop m s c 0"

function strspn_loop :: "bmem \<Rightarrow> addr \<Rightarrow> addr \<Rightarrow> nat \<Rightarrow> nat res" where
  "strspn_loop m s skip len =
     rd m (s + len) (\<lambda>b. if b = 0 then Inr len
       else bnd (strchr m skip b) (\<lambda>q. if q = 0 then Inr len else strspn_loop m s skip (len + 1)))"
  by pat_completeness auto
termination by (relation "measure (\<lambda>(m, s, skip, len). length m - (s + len))") auto

definition strspn :: "bmem \<Rightarrow> addr \<Rightarrow> addr \<Rightarrow> nat res" where
  "strspn m s skip = strspn_loop m s skip 0"

function strlen_loop :: "bmem \<Rightarrow> addr \<Rightarrow> addr res" where
  "strlen_loop m p = rd m p (\<lambda>b. if b = 0 then Inr p else strlen_loop m (p + 1))"
  by pat_completeness auto
termination by (relation "measure (\<lambda>(m, p). length m - p)") auto

definition strlen :: "bmem \<Rightarrow> addr \<Rightarrow> nat res" where
  "strlen m s = asrt ''strlen'' (s \<noteq> 0) (bnd (strlen_loop m s) (\<lambda>p. Inr (p - s)))"

text \<open>The loop of \<open>strstr\<close>: \<open>n\<close> positions are left to try.\<close>

fun strstr_loop :: "bmem \<Rightarrow> addr \<Rightarrow> addr \<Rightarrow> nat \<Rightarrow> nat \<Rightarrow> addr res" where
  "strstr_loop m h needle len 0 = Inr 0"
| "strstr_loop m h needle len (Suc n) =
     bnd (memcmp m h needle len) (\<lambda>c.
     if c = 0 then Inr h else strstr_loop m (h + 1) needle len n)"

definition strstr :: "bmem \<Rightarrow> addr \<Rightarrow> addr \<Rightarrow> addr res" where
  "strstr m haystack needle =
     bnd (strlen m haystack) (\<lambda>haystack_len.
     bnd (strlen m needle) (\<lambda>needle_len.
     if needle_len \<le> haystack_len
     then strstr_loop m haystack needle needle_len (haystack_len - needle_len + 1)
     else Inr 0))"

text \<open>The two loops of \<open>strtok_r\<close>: skipping delimiters gives \<open>Inl\<close> of the end of the string or
  \<open>Inr\<close> of the start of a token.\<close>

function skip_delims :: "bmem \<Rightarrow> addr \<Rightarrow> addr \<Rightarrow> (addr + addr) res" where
  "skip_delims m s delims =
     rd m s (\<lambda>b. bnd (strchr m delims b) (\<lambda>q.
       if q = 0 then Inr (Inr s) else if b = 0 then Inr (Inl s)
       else skip_delims m (s + 1) delims))"
  by pat_completeness auto
termination by (relation "measure (\<lambda>(m, s, d). length m - s)") auto

function skip_token :: "bmem \<Rightarrow> addr \<Rightarrow> addr \<Rightarrow> addr res" where
  "skip_token m s delims =
     rd m s (\<lambda>b. bnd (strchr m delims b) (\<lambda>q.
       if q = 0 then skip_token m (s + 1) delims else Inr s))"
  by pat_completeness auto
termination by (relation "measure (\<lambda>(m, s, d). length m - s)") auto

text \<open>\<open>strtok_r m s delims save\<close> returns the token (0 for none), the new \<open>*save_ptr\<close> and the
  memory.\<close>

definition strtok_r :: "bmem \<Rightarrow> addr \<Rightarrow> addr \<Rightarrow> addr \<Rightarrow> (addr \<times> addr \<times> bmem) res" where
  "strtok_r m s delims save =
     asrt ''strtok_r'' (delims \<noteq> 0) (
     let s = (if s = 0 then save else s) in
     asrt ''strtok_r'' (s \<noteq> 0) (
     bnd (skip_delims m s delims) (\<lambda>r.
     case r of Inl e \<Rightarrow> Inr (0, e, m)
     | Inr token \<Rightarrow>
         bnd (skip_token m token delims) (\<lambda>e. rd m e (\<lambda>b.
         if b \<noteq> 0 then wr m e 0 (\<lambda>m. Inr (token, e + 1, m)) else Inr (token, e, m))))))"

fun fill :: "bmem \<Rightarrow> addr \<Rightarrow> u8 \<Rightarrow> nat \<Rightarrow> bmem res" where
  "fill m dst v 0 = Inr m"
| "fill m dst v (Suc n) = wr m dst v (\<lambda>m. fill m (dst + 1) v n)"

definition memset :: "bmem \<Rightarrow> addr \<Rightarrow> u8 \<Rightarrow> nat \<Rightarrow> (addr \<times> bmem) res" where
  "memset m dst v sz =
     asrt ''memset'' (dst \<noteq> 0 \<or> sz = 0) (bnd (fill m dst v sz) (\<lambda>m. Inr (dst, m)))"

text \<open>\<open>strnlen\<close> reads \<open>string[length]\<close> before it compares \<open>length\<close> with the bound.\<close>

function strnlen_loop :: "bmem \<Rightarrow> addr \<Rightarrow> nat \<Rightarrow> nat \<Rightarrow> nat res" where
  "strnlen_loop m s maxlen len =
     rd m (s + len) (\<lambda>b.
       if b \<noteq> 0 \<and> len < maxlen then strnlen_loop m s maxlen (len + 1) else Inr len)"
  by pat_completeness auto
termination by (relation "measure (\<lambda>(m, s, k, len). length m - (s + len))") auto

definition strnlen :: "bmem \<Rightarrow> addr \<Rightarrow> nat \<Rightarrow> nat res" where
  "strnlen m s maxlen = strnlen_loop m s maxlen 0"

definition strlcpy :: "bmem \<Rightarrow> addr \<Rightarrow> addr \<Rightarrow> nat \<Rightarrow> (nat \<times> bmem) res" where
  "strlcpy m dst src sz =
     asrt ''strlcpy'' (dst \<noteq> 0) (asrt ''strlcpy'' (src \<noteq> 0) (
     bnd (strlen m src) (\<lambda>src_len.
     if 0 < sz then
       let dst_len = (if src_len < sz - 1 then src_len else sz - 1) in
       bnd (memcpy m dst src dst_len) (\<lambda>(_, m).
       wr m (dst + dst_len) 0 (\<lambda>m. Inr (src_len, m)))
     else Inr (src_len, m))))"

definition strlcat :: "bmem \<Rightarrow> addr \<Rightarrow> addr \<Rightarrow> nat \<Rightarrow> (nat \<times> bmem) res" where
  "strlcat m dst src sz =
     asrt ''strlcat'' (dst \<noteq> 0) (asrt ''strlcat'' (src \<noteq> 0) (
     bnd (strlen m src) (\<lambda>src_len. bnd (strlen m dst) (\<lambda>dst_len.
     if 0 < sz \<and> dst_len < sz then
       let copy_cnt = (if src_len < sz - dst_len - 1 then src_len else sz - dst_len - 1) in
       bnd (memcpy m (dst + dst_len) src copy_cnt) (\<lambda>(_, m).
       wr m (dst + dst_len + copy_cnt) 0 (\<lambda>m. Inr (src_len + dst_len, m)))
     else Inr (src_len + dst_len, m)))))"

declare strcmp_loop.simps [simp del] strchr_loop.simps [simp del] strcspn_loop.simps [simp del]
  strpbrk.simps [simp del] strrchr_loop.simps [simp del] strspn_loop.simps [simp del]
  strlen_loop.simps [simp del] skip_delims.simps [simp del] skip_token.simps [simp del]
  strnlen_loop.simps [simp del]

section \<open>Blocks of memory\<close>

definition slice :: "bmem \<Rightarrow> addr \<Rightarrow> nat \<Rightarrow> u8 list" where
  "slice m p n = take n (drop p m)"

definition put :: "bmem \<Rightarrow> addr \<Rightarrow> u8 list \<Rightarrow> bmem" where
  "put m p bs = take p m @ bs @ drop (p + length bs) m"

lemma length_slice: "p + n \<le> length m \<Longrightarrow> length (slice m p n) = n"
  by (simp add: slice_def)

lemma nth_slice: "p + n \<le> length m \<Longrightarrow> k < n \<Longrightarrow> slice m p n ! k = m ! (p + k)"
  by (simp add: slice_def)

lemma slice_block_Suc: "p < length m \<Longrightarrow> slice m p (Suc n) = m ! p # slice m (p + 1) n"
  by (simp add: slice_def Cons_nth_drop_Suc[symmetric])

lemma length_put: "p + length bs \<le> length m \<Longrightarrow> length (put m p bs) = length m"
  by (simp add: put_def)

lemma nth_put:
  assumes "p + length bs \<le> length m" and "k < length m"
  shows "put m p bs ! k = (if p \<le> k \<and> k < p + length bs then bs ! (k - p) else m ! k)"
  using assms by (auto simp: put_def nth_append min_def)

lemma put_eqI:
  assumes "p + length bs \<le> length m" and "length m' = length m"
    and "\<And>k. k < length m \<Longrightarrow> m' ! k = (if p \<le> k \<and> k < p + length bs then bs ! (k - p) else m ! k)"
  shows "m' = put m p bs"
  using assms by (intro nth_equalityI) (simp_all add: length_put nth_put)

lemma copy_up_nth:
  assumes "src + n \<le> length m" and "dst + n \<le> length m" and "dst \<le> src \<or> src + n \<le> dst"
  shows "\<exists>m'. copy_up m dst src n = Inr m' \<and> length m' = length m \<and>
    (\<forall>k < length m. m' ! k = (if dst \<le> k \<and> k < dst + n then m ! (src + (k - dst)) else m ! k))"
  using assms
proof (induction n arbitrary: m dst src)
  case (Suc n)
  let ?m = "m[dst := m ! src]"
  have "\<exists>m'. copy_up ?m (dst + 1) (src + 1) n = Inr m' \<and> length m' = length ?m \<and>
    (\<forall>k < length ?m. m' ! k =
      (if dst + 1 \<le> k \<and> k < dst + 1 + n then ?m ! (src + 1 + (k - (dst + 1))) else ?m ! k))"
    using Suc.prems by (intro Suc.IH) auto
  then obtain m' where m': "copy_up ?m (dst + 1) (src + 1) n = Inr m'" "length m' = length m"
    "\<And>k. k < length m \<Longrightarrow> m' ! k =
      (if dst + 1 \<le> k \<and> k < dst + 1 + n then ?m ! (src + 1 + (k - (dst + 1))) else ?m ! k)"
    by auto
  have "m' ! k = (if dst \<le> k \<and> k < dst + Suc n then m ! (src + (k - dst)) else m ! k)"
    if k: "k < length m" for k
  proof -
    consider "k = dst" | "dst + 1 \<le> k" "k < dst + 1 + n" | "k < dst \<or> dst + 1 + n \<le> k" by linarith
    then show ?thesis
    proof cases
      case 2
      then have "src + 1 + (k - (dst + 1)) = src + (k - dst)" "src + (k - dst) \<noteq> dst"
        using Suc.prems(3) by auto
      then show ?thesis using 2 m'(3)[OF k] by simp
    qed (use m'(3)[OF k] k in auto)
  qed
  then show ?case using m' Suc.prems by auto
qed auto

lemma copy_down_nth:
  assumes "src + n \<le> length m" and "dst + n \<le> length m" and "src \<le> dst"
  shows "\<exists>m'. copy_down m (dst + n) (src + n) n = Inr m' \<and> length m' = length m \<and>
    (\<forall>k < length m. m' ! k = (if dst \<le> k \<and> k < dst + n then m ! (src + (k - dst)) else m ! k))"
  using assms
proof (induction n arbitrary: m)
  case (Suc n)
  let ?m = "m[dst + n := m ! (src + n)]"
  have "\<exists>m'. copy_down ?m (dst + n) (src + n) n = Inr m' \<and> length m' = length ?m \<and>
    (\<forall>k < length ?m. m' ! k = (if dst \<le> k \<and> k < dst + n then ?m ! (src + (k - dst)) else ?m ! k))"
    using Suc.prems by (intro Suc.IH) auto
  then obtain m' where m': "copy_down ?m (dst + n) (src + n) n = Inr m'" "length m' = length m"
    "\<And>k. k < length m \<Longrightarrow> m' ! k =
      (if dst \<le> k \<and> k < dst + n then ?m ! (src + (k - dst)) else ?m ! k)"
    by auto
  have "m' ! k = (if dst \<le> k \<and> k < dst + Suc n then m ! (src + (k - dst)) else m ! k)"
    if k: "k < length m" for k
  proof -
    consider "k = dst + n" | "dst \<le> k" "k < dst + n" | "k < dst \<or> dst + n < k" by linarith
    then show ?thesis
    proof cases
      case 2
      then have "src + (k - dst) \<noteq> dst + n" using Suc.prems(3) by auto
      then show ?thesis using 2 m'(3)[OF k] by simp
    qed (use m'(3)[OF k] k in auto)
  qed
  then show ?case using m' Suc.prems by auto
qed auto

lemma copy_put:
  assumes "length m' = length m" and "src + n \<le> length m" and "dst + n \<le> length m"
    and "\<forall>k < length m. m' ! k = (if dst \<le> k \<and> k < dst + n then m ! (src + (k - dst)) else m ! k)"
  shows "m' = put m dst (slice m src n)"
  using assms by (intro put_eqI) (auto simp: length_slice nth_slice)

lemma memcpy_ok:
  assumes "dst \<noteq> 0" and "src \<noteq> 0" and "src + n \<le> length m" and "dst + n \<le> length m"
    and "dst + n \<le> src \<or> src + n \<le> dst"
  shows "memcpy m dst src n = Inr (dst, put m dst (slice m src n))"
proof -
  from copy_up_nth[of src n m dst] obtain m' where "copy_up m dst src n = Inr m'"
    "m' = put m dst (slice m src n)" using assms copy_put by (metis add_leD1)
  then show ?thesis using assms by (simp add: memcpy_def)
qed

lemma memset_ok:
  assumes "dst \<noteq> 0" and "dst + n \<le> length m"
  shows "memset m dst v n = Inr (dst, put m dst (replicate n v))"
proof -
  have "fill m dst v n = Inr (put m dst (replicate n v))" using assms(2)
  proof (induction n arbitrary: m dst)
    case (Suc n)
    have "put (m[dst := v]) (dst + 1) (replicate n v) = put m dst (replicate (Suc n) v)"
      using Suc.prems by (intro put_eqI) (auto simp: length_put nth_put nth_Cons' nth_list_update)
    then show ?case using Suc by simp
  qed (simp add: put_def)
  then show ?thesis using assms(1) by (simp add: memset_def)
qed

text \<open>
  \<open>memmove\<close> copies correctly between any two blocks, overlapping or not: afterwards the
  destination holds what the source held before and every other byte is unchanged. The pointer
  that it returns is the destination only when the destination is not below the source; in the
  other case it is the end of the block.
\<close>

theorem memmove_correct:
  assumes "dst \<noteq> 0" and "src \<noteq> 0" and "src + n \<le> length m" and "dst + n \<le> length m"
  shows "memmove m dst src n =
    Inr (if dst < src then dst + n else dst, put m dst (slice m src n))"
proof (cases "dst < src")
  case True
  with copy_up_nth[of src n m dst] obtain m' where "copy_up m dst src n = Inr m'"
    "m' = put m dst (slice m src n)" using assms copy_put by (metis less_imp_le)
  then show ?thesis using assms True by (simp add: memmove_def)
next
  case False
  with copy_down_nth[of src n m dst] obtain m' where "copy_down m (dst + n) (src + n) n = Inr m'"
    "m' = put m dst (slice m src n)" using assms copy_put by (metis not_less)
  then show ?thesis using assms False by (simp add: memmove_def)
qed

theorem memmove_correct_witness:
  "memmove [0, 1, 2, 3, 4] 1 2 3 = Inr (4, [0, 2, 3, 4, 4]) \<and>
   memmove [0, 1, 2, 3, 4] 2 1 3 = Inr (2, [0, 1, 1, 2, 3])"
  using memmove_correct[of 1 2 3 "[0, 1, 2, 3, 4]"] memmove_correct[of 2 1 3 "[0, 1, 2, 3, 4]"]
  by (simp add: put_def slice_def)

section \<open>Strings\<close>

definition is_str :: "bmem \<Rightarrow> addr \<Rightarrow> bool" where
  "is_str m p \<longleftrightarrow> p \<noteq> 0 \<and> 0 \<in> set (drop p m)"

definition str :: "bmem \<Rightarrow> addr \<Rightarrow> u8 list" where
  "str m p = takeWhile (\<lambda>b. b \<noteq> 0) (drop p m)"

lemma is_str_bound: "is_str m p \<Longrightarrow> p < length m"
  by (rule ccontr) (simp add: is_str_def)

lemma str_zero: "p < length m \<Longrightarrow> m ! p = 0 \<Longrightarrow> str m p = []"
  by (simp add: str_def Cons_nth_drop_Suc[symmetric])

lemma str_Cons:
  assumes "is_str m p" and "m ! p \<noteq> 0"
  shows "is_str m (Suc p)" "str m p = m ! p # str m (Suc p)"
  using assms is_str_bound[OF assms(1)]
  by (simp_all add: is_str_def str_def Cons_nth_drop_Suc[symmetric])

lemma str_Nil_iff: "is_str m p \<Longrightarrow> m ! p = 0 \<longleftrightarrow> str m p = []"
  using str_zero[OF is_str_bound] str_Cons(2)[of m p] by (cases "m ! p = 0") auto

lemma str_induct [consumes 1, case_names nul char]:
  assumes "is_str m p"
    and "\<And>p. p < length m \<Longrightarrow> m ! p = 0 \<Longrightarrow> str m p = [] \<Longrightarrow> P p"
    and "\<And>p. p < length m \<Longrightarrow> m ! p \<noteq> 0 \<Longrightarrow> is_str m (Suc p) \<Longrightarrow> str m p = m ! p # str m (Suc p) \<Longrightarrow>
      P (Suc p) \<Longrightarrow> P p"
  shows "P p"
  using assms(1)
proof (induction "length m - p" arbitrary: p rule: less_induct)
  case less
  note b = is_str_bound[OF less.prems]
  show ?case
  proof (cases "m ! p = 0")
    case False
    note c = str_Cons[OF less.prems False]
    show ?thesis by (rule assms(3)[OF b False c]) (use less.hyps[of "Suc p"] c b in auto)
  qed (use assms(2) b str_zero in auto)
qed

lemma str_no_zero: "0 \<notin> set (str m p)"
  by (auto simp: str_def dest: set_takeWhileD)

lemma str_end: "is_str m p \<Longrightarrow> p + length (str m p) < length m \<and> m ! (p + length (str m p)) = 0"
  by (induction rule: str_induct) auto

lemma str_nth: "is_str m p \<Longrightarrow> k < length (str m p) \<Longrightarrow> m ! (p + k) = str m p ! k"
  by (induction arbitrary: k rule: str_induct) (auto simp: nth_Cons' less_Suc_eq_0_disj)

lemma str_slice: "is_str m p \<Longrightarrow> n \<le> length (str m p) \<Longrightarrow> slice m p n = take n (str m p)"
  using str_end[of m p] by (intro nth_equalityI) (auto simp: length_slice nth_slice str_nth)

lemma strlen_loop_ok: "is_str m p \<Longrightarrow> strlen_loop m p = Inr (p + length (str m p))"
  by (induction rule: str_induct) (simp_all add: strlen_loop.simps)

lemma strlen_ok: "is_str m p \<Longrightarrow> strlen m p = Inr (length (str m p))"
  by (simp add: strlen_def strlen_loop_ok is_str_def)

lemma strchr_loop_ok:
  "is_str m s \<Longrightarrow> strchr_loop m s c =
    Inr (if c = 0 \<or> c \<in> set (str m s) then s + length (takeWhile (\<lambda>b. b \<noteq> c) (str m s)) else 0)"
proof (induction rule: str_induct)
  case (nul p)
  then show ?case by (subst strchr_loop.simps) auto
next
  case (char p)
  then show ?case by (subst strchr_loop.simps) auto
qed

lemma strchr_ok:
  "is_str m s \<Longrightarrow> strchr m s c =
    Inr (if c = 0 \<or> c \<in> set (str m s) then s + length (takeWhile (\<lambda>b. b \<noteq> c) (str m s)) else 0)"
  by (simp add: strchr_def strchr_loop_ok is_str_def)

lemma strchr_found:
  assumes "is_str m s"
  obtains q where "strchr m s c = Inr q" "q = 0 \<longleftrightarrow> c \<noteq> 0 \<and> c \<notin> set (str m s)"
  using assms by (simp add: strchr_ok is_str_def split: if_splits)

subsection \<open>Comparison\<close>

text \<open>The order that \<open>memcmp\<close> and \<open>strcmp\<close> decide: by the first difference, a proper prefix
  before its extension.\<close>

fun lexcmp :: "u8 list \<Rightarrow> u8 list \<Rightarrow> int" where
  "lexcmp [] [] = 0"
| "lexcmp [] (y # ys) = - 1"
| "lexcmp (x # xs) [] = 1"
| "lexcmp (x # xs) (y # ys) = (if x < y then - 1 else if y < x then 1 else lexcmp xs ys)"

lemma lexcmp_zero: "lexcmp xs ys = 0 \<longleftrightarrow> xs = ys"
  by (induction xs ys rule: lexcmp.induct) auto

lemma lexcmp_swap: "lexcmp ys xs = - lexcmp xs ys"
  by (induction xs ys rule: lexcmp.induct) auto

lemma lexcmp_trans: "lexcmp xs ys \<le> 0 \<Longrightarrow> lexcmp ys zs \<le> 0 \<Longrightarrow> lexcmp xs zs \<le> 0"
proof (induction xs ys arbitrary: zs rule: lexcmp.induct)
  case (4 x xs y ys)
  then show ?case by (cases zs) (auto split: if_splits)
next
  case (2 y ys)
  then show ?case by (cases zs) auto
qed auto

lemma memcmp_ok:
  assumes "a \<noteq> 0" and "b \<noteq> 0" and "a + n \<le> length m" and "b + n \<le> length m"
  shows "memcmp m a b n = Inr (lexcmp (slice m a n) (slice m b n))"
proof -
  have "memcmp_loop m a b n = Inr (lexcmp (slice m a n) (slice m b n))" using assms(3,4)
  proof (induction n arbitrary: a b)
    case (Suc n)
    then show ?case by (auto simp: slice_block_Suc)
  qed (simp add: slice_def)
  then show ?thesis using assms by (simp add: memcmp_def)
qed

lemma strcmp_ok:
  assumes "is_str m a" and "is_str m b"
  shows "strcmp m a b = Inr (lexcmp (str m a) (str m b))"
proof -
  have "strcmp_loop m a b = Inr (lexcmp (str m a) (str m b))" using assms
  proof (induction arbitrary: b rule: str_induct)
    case (nul p)
    then show ?case using is_str_bound[of m b] str_Cons[of m b] str_zero[of b m]
      by (subst strcmp_loop.simps) (auto simp: word_gt_0 not_less)
  next
    case (char p)
    then show ?case using is_str_bound[of m b] str_Cons[of m b] str_zero[of b m]
      by (subst strcmp_loop.simps, cases "m ! b = 0") (auto simp: word_gt_0 not_less)
  qed
  then show ?thesis using assms by (simp add: strcmp_def is_str_def)
qed

subsection \<open>Searching\<close>

lemma memchr_ok:
  assumes "p \<noteq> 0" and "p + n \<le> length m"
  shows "memchr m p c n =
    Inr (if c \<in> set (slice m p n) then p + length (takeWhile (\<lambda>b. b \<noteq> c) (slice m p n)) else 0)"
proof -
  have "memchr_loop m p c n =
    Inr (if c \<in> set (slice m p n) then p + length (takeWhile (\<lambda>b. b \<noteq> c) (slice m p n)) else 0)"
    using assms(2)
  proof (induction n arbitrary: p)
    case (Suc n)
    then show ?case by (auto simp: slice_block_Suc)
  qed (simp add: slice_def)
  then show ?thesis using assms(1) by (simp add: memchr_def)
qed

lemma str_suffix: "is_str m s \<Longrightarrow> k \<le> length (str m s) \<Longrightarrow>
    is_str m (s + k) \<and> str m (s + k) = drop k (str m s)"
proof (induction k)
  case (Suc k)
  then have a: "is_str m (s + k)" "str m (s + k) = drop k (str m s)" by auto
  then have "m ! (s + k) \<noteq> 0" using Suc.prems str_zero[of "s + k" m] is_str_bound[OF a(1)] by auto
  from str_Cons[OF a(1) this] a(2) show ?case by (simp add: drop_Suc tl_drop[symmetric])
qed simp

lemma strcspn_ok:
  assumes "is_str m s" and "is_str m stop"
  shows "strcspn m s stop = Inr (length (takeWhile (\<lambda>b. b \<notin> set (str m stop)) (str m s)))"
proof -
  have "strcspn_loop m s0 stop (p - s0) =
    Inr (p - s0 + length (takeWhile (\<lambda>b. b \<notin> set (str m stop)) (str m p)))" if "s0 \<le> p" "is_str m p" for s0 p
    using that(2,1)
  proof (induction rule: str_induct)
    case (nul p)
    then show ?case by (subst strcspn_loop.simps) simp
  next
    case (char p)
    obtain q where q: "strchr m stop (m ! p) = Inr q" "q = 0 \<longleftrightarrow> m ! p \<noteq> 0 \<and> m ! p \<notin> set (str m stop)"
      using strchr_found[OF assms(2)] .
    have "Suc (p - s0) = Suc p - s0" using char by simp
    then show ?case using char q by (subst strcspn_loop.simps) auto
  qed
  from this[of s s] assms(1) show ?thesis by (simp add: strcspn_def)
qed

lemma strspn_ok:
  assumes "is_str m s" and "is_str m skip"
  shows "strspn m s skip = Inr (length (takeWhile (\<lambda>b. b \<in> set (str m skip)) (str m s)))"
proof -
  have "strspn_loop m s0 skip (p - s0) =
    Inr (p - s0 + length (takeWhile (\<lambda>b. b \<in> set (str m skip)) (str m p)))" if "s0 \<le> p" "is_str m p" for s0 p
    using that(2,1)
  proof (induction rule: str_induct)
    case (nul p)
    then show ?case by (subst strspn_loop.simps) simp
  next
    case (char p)
    obtain q where q: "strchr m skip (m ! p) = Inr q" "q = 0 \<longleftrightarrow> m ! p \<noteq> 0 \<and> m ! p \<notin> set (str m skip)"
      using strchr_found[OF assms(2)] .
    have "Suc (p - s0) = Suc p - s0" using char by simp
    then show ?case using char q by (subst strspn_loop.simps) auto
  qed
  from this[of s s] assms(1) show ?thesis by (simp add: strspn_def)
qed

lemma strnlen_ok:
  assumes "is_str m s"
  shows "strnlen m s maxlen = Inr (min maxlen (length (str m s)))"
proof -
  have "strnlen_loop m s maxlen k = Inr (min maxlen (length (str m s)))"
    if "k \<le> length (str m s)" "k \<le> maxlen" for k
    using that
  proof (induction "length (str m s) - k" arbitrary: k)
    case 0
    then show ?case using str_end[OF assms] by (subst strnlen_loop.simps) auto
  next
    case (Suc x)
    then have "m ! (s + k) \<noteq> 0" "s + k < length m"
      using str_nth[OF assms, of k] str_no_zero[of m s] str_end[OF assms]
      by (auto simp: in_set_conv_nth)
    then show ?case using Suc by (subst strnlen_loop.simps) auto
  qed
  from this[of 0] show ?thesis by (simp add: strnlen_def)
qed

definition occurs :: "u8 list \<Rightarrow> u8 list \<Rightarrow> nat \<Rightarrow> bool" where
  "occurs needle hay i \<longleftrightarrow> i + length needle \<le> length hay \<and> take (length needle) (drop i hay) = needle"

lemma strstr_ok:
  assumes h: "is_str m h" and n: "is_str m needle"
  obtains p where "strstr m h needle = Inr p"
    and "p = 0 \<and> (\<forall>i. \<not> occurs (str m needle) (str m h) i) \<or>
      (\<exists>i. p = h + i \<and> occurs (str m needle) (str m h) i \<and> (\<forall>j < i. \<not> occurs (str m needle) (str m h) j))"
proof (cases "length (str m needle) \<le> length (str m h)")
  case False
  then have "\<forall>i. \<not> occurs (str m needle) (str m h) i" by (simp add: occurs_def)
  then show ?thesis using that[of 0] False h n by (simp add: strstr_def strlen_ok)
next
  case True
  let ?n = "length (str m needle)" and ?h = "length (str m h)"
  have h0: "h \<noteq> 0" "needle \<noteq> 0" using h n by (auto simp: is_str_def)
  have cmp: "memcmp m (h + i) needle ?n = Inr c \<Longrightarrow> c = 0 \<longleftrightarrow> occurs (str m needle) (str m h) i"
    "is_ok (memcmp m (h + i) needle ?n)" if "i + ?n \<le> ?h" for i c
  proof -
    have "slice m (h + i) ?n = take ?n (drop i (str m h))"
      using str_suffix[OF h, of i] str_slice[of m "h + i" ?n] that by simp
    moreover have "slice m needle ?n = str m needle" using str_slice[OF n, of ?n] by simp
    ultimately have "memcmp m (h + i) needle ?n = Inr (lexcmp (take ?n (drop i (str m h))) (str m needle))"
      using memcmp_ok[of "h + i" needle ?n m] h0 str_end[OF h] str_end[OF n] that by simp
    then show "is_ok (memcmp m (h + i) needle ?n)"
      "memcmp m (h + i) needle ?n = Inr c \<Longrightarrow> c = 0 \<longleftrightarrow> occurs (str m needle) (str m h) i"
      using that by (auto simp: lexcmp_zero occurs_def)
  qed
  have "\<exists>p. strstr_loop m (h + i) needle ?n k = Inr p \<and>
      (p = 0 \<and> (\<forall>j. i \<le> j \<longrightarrow> \<not> occurs (str m needle) (str m h) j) \<or>
      (\<exists>j. i \<le> j \<and> p = h + j \<and> occurs (str m needle) (str m h) j \<and>
        (\<forall>l. i \<le> l \<and> l < j \<longrightarrow> \<not> occurs (str m needle) (str m h) l)))"
    if "i + k = ?h - ?n + 1" for i k
    using that
  proof (induction k arbitrary: i)
    case 0
    then show ?case using True by (auto simp: occurs_def)
  next
    case (Suc k)
    then have le: "i + ?n \<le> ?h" using True by linarith
    from cmp(2)[OF le] obtain c where c: "memcmp m (h + i) needle ?n = Inr c"
      by (auto simp: is_ok_def split: sum.splits)
    show ?case
    proof (cases "c = 0")
      case True
      then show ?thesis using c cmp(1)[OF le c] by auto
    next
      case False
      then have no: "\<not> occurs (str m needle) (str m h) i" using cmp(1)[OF le c] by simp
      have st: "i \<le> j \<longleftrightarrow> j = i \<or> Suc i \<le> j" for j by auto
      from Suc.IH[of "Suc i"] Suc.prems c False no show ?thesis
        by simp (metis st)
    qed
  qed
  from this[of 0 "?h - ?n + 1"] that show ?thesis
    using True h n by (auto simp: strstr_def strlen_ok)
qed

subsection \<open>Bounded copies\<close>

lemma str_put_prefix:
  assumes "dst + length bs < length m" and "0 \<notin> set bs" and "dst \<noteq> 0"
  shows "is_str (put m dst (bs @ [0])) dst" "str (put m dst (bs @ [0])) dst = bs"
proof -
  have "drop dst (put m dst (bs @ [0])) = bs @ 0 # drop (dst + Suc (length bs)) m"
    using assms(1) by (simp add: put_def min_def)
  then show "is_str (put m dst (bs @ [0])) dst" "str (put m dst (bs @ [0])) dst = bs"
    using assms(2,3) by (auto simp: is_str_def str_def takeWhile_append)
qed

lemma put_snoc:
  assumes "p + length bs < length m"
  shows "(put m p bs)[p + length bs := b] = put m p (bs @ [b])"
  using assms by (intro put_eqI) (auto simp: length_put nth_put nth_list_update nth_append)

lemma strlcpy_ok:
  assumes "is_str m src" and "dst \<noteq> 0" and "0 < n" and "dst + n \<le> length m"
    and "dst + n \<le> src \<or> src + length (str m src) < dst"
  shows "strlcpy m dst src n =
      Inr (length (str m src), put m dst (take (n - 1) (str m src) @ [0]))"
    and "is_str (put m dst (take (n - 1) (str m src) @ [0])) dst"
    and "str (put m dst (take (n - 1) (str m src) @ [0])) dst = take (n - 1) (str m src)"
proof -
  let ?l = "min (length (str m src)) (n - 1)"
  have l: "(if length (str m src) < n - 1 then length (str m src) else n - 1) = ?l" by simp
  have le: "src + ?l \<le> length m" "dst + ?l < length m" using str_end[OF assms(1)] assms(3,4) by auto
  have sl: "slice m src ?l = take (n - 1) (str m src)"
    using str_slice[OF assms(1), of ?l] by (simp add: min_def)
  have "memcpy m dst src ?l = Inr (dst, put m dst (slice m src ?l))"
    using assms le by (intro memcpy_ok) (auto simp: is_str_def)
  then have "strlcpy m dst src n = wr (put m dst (slice m src ?l)) (dst + ?l) 0 (\<lambda>m'. Inr (length (str m src), m'))"
    unfolding strlcpy_def strlen_ok[OF assms(1)] bnd_simps Let_def l using assms(1-3)
    by (simp add: is_str_def)
  also have "\<dots> = Inr (length (str m src), (put m dst (slice m src ?l))[dst + ?l := 0])"
    using le by (simp add: length_put length_slice)
  also have "(put m dst (slice m src ?l))[dst + ?l := 0] = put m dst (slice m src ?l @ [0])"
    using put_snoc[of dst "slice m src ?l" m 0] le by (simp add: length_slice)
  finally show "strlcpy m dst src n =
      Inr (length (str m src), put m dst (take (n - 1) (str m src) @ [0]))" by (simp only: sl)
  have "0 \<notin> set (take (n - 1) (str m src))" using str_no_zero[of m src] by (auto dest: in_set_takeD)
  then show "is_str (put m dst (take (n - 1) (str m src) @ [0])) dst"
    "str (put m dst (take (n - 1) (str m src) @ [0])) dst = take (n - 1) (str m src)"
    using le assms(2) by (simp_all add: str_put_prefix min.commute)
qed

text \<open>
  \<open>strlcpy\<close> copies at most \<open>size - 1\<close> characters and always leaves a terminated string in
  the destination: it holds the longest prefix of the source that fits, exactly the bytes of
  that prefix and its terminator are written, and the result is the length of the source, so
  that a result of at least \<open>size\<close> tells the caller of the truncation.
\<close>

theorem strlcpy_correct:
  assumes "is_str m src" and "dst \<noteq> 0" and "0 < n" and "dst + n \<le> length m"
    and "dst + n \<le> src \<or> src + length (str m src) < dst"
  shows "\<exists>m'. strlcpy m dst src n = Inr (length (str m src), m') \<and>
    m' = put m dst (take (n - 1) (str m src) @ [0]) \<and> is_str m' dst \<and> str m' dst = take (n - 1) (str m src)"
  using strlcpy_ok[OF assms] by simp

theorem strlcpy_correct_witness:
  "strlcpy [9, 7, 8, 0, 9, 9, 9] 4 1 2 = Inr (2, [9, 7, 8, 0, 7, 0, 9]) \<and>
   str [9, 7, 8, 0, 7, 0, 9] 4 = [7 :: u8]"
  using strlcpy_correct[of "[9, 7, 8, 0, 9, 9, 9]" 1 4 2]
  by (simp add: is_str_def str_def put_def)

subsection \<open>Tokens\<close>

text \<open>The tokens of a string: the maximal runs of characters that are not delimiters.\<close>

function tokens :: "u8 set \<Rightarrow> u8 list \<Rightarrow> u8 list list" where
  "tokens ds xs =
     (let ys = dropWhile (\<lambda>b. b \<in> ds) xs in
      if ys = [] then []
      else takeWhile (\<lambda>b. b \<notin> ds) ys # tokens ds (dropWhile (\<lambda>b. b \<notin> ds) ys))"
  by pat_completeness auto
termination
proof (relation "measure (\<lambda>(ds, xs). length xs)")
  fix ds :: "u8 set" and xs ys
  assume "ys = dropWhile (\<lambda>b. b \<in> ds) xs" "ys \<noteq> []"
  then obtain y zs where yz: "ys = y # zs" "y \<notin> ds" "dropWhile (\<lambda>b. b \<in> ds) xs = y # zs"
    by (metis hd_dropWhile list.exhaust list.sel(1))
  have "length (y # zs) \<le> length xs" using length_dropWhile_le[of "\<lambda>b. b \<in> ds" xs] yz(3) by simp
  moreover have "length (dropWhile (\<lambda>b. b \<notin> ds) zs) \<le> length zs" by (rule length_dropWhile_le)
  ultimately show "((ds, dropWhile (\<lambda>b. b \<notin> ds) ys), ds, xs) \<in> measure (\<lambda>(ds, xs). length xs)"
    using yz by auto
qed simp

declare tokens.simps [simp del]

text \<open>The loop that every client of \<open>strtok_r\<close> runs: a first call on the string, then calls on
  the saved position until there is no token left. The pointers of the tokens are collected.\<close>

fun tok_all :: "nat \<Rightarrow> bmem \<Rightarrow> addr \<Rightarrow> addr \<Rightarrow> addr \<Rightarrow> (addr list \<times> bmem) res" where
  "tok_all 0 m s delims save = Inl OutOfFuel"
| "tok_all (Suc k) m s delims save =
     bnd (strtok_r m s delims save) (\<lambda>(token, save, m).
     if token = 0 then Inr ([], m)
     else bnd (tok_all k m 0 delims save) (\<lambda>(ts, m). Inr (token # ts, m)))"

lemma skip_delims_ok:
  assumes "is_str m s" and "is_str m d"
  defines "ds \<equiv> set (str m d)"
  shows "skip_delims m s d =
    Inr (let e = s + length (takeWhile (\<lambda>b. b \<in> ds) (str m s)) in
         if dropWhile (\<lambda>b. b \<in> ds) (str m s) = [] then Inl e else Inr e)"
  using assms(1)
proof (induction rule: str_induct)
  case (nul p)
  obtain q where "strchr m d (m ! p) = Inr q" "q = 0 \<longleftrightarrow> m ! p \<noteq> 0 \<and> m ! p \<notin> set (str m d)"
    using strchr_found[OF assms(2)] .
  with nul show ?case by (subst skip_delims.simps) (simp add: Let_def)
next
  case (char p)
  obtain q where "strchr m d (m ! p) = Inr q" "q = 0 \<longleftrightarrow> m ! p \<noteq> 0 \<and> m ! p \<notin> set (str m d)"
    using strchr_found[OF assms(2)] .
  with char show ?case by (subst skip_delims.simps) (auto simp: Let_def ds_def)
qed

lemma skip_token_ok:
  assumes "is_str m s" and "is_str m d"
  shows "skip_token m s d = Inr (s + length (takeWhile (\<lambda>b. b \<notin> set (str m d)) (str m s)))"
  using assms(1)
proof (induction rule: str_induct)
  case (nul p)
  obtain q where "strchr m d (m ! p) = Inr q" "q = 0 \<longleftrightarrow> m ! p \<noteq> 0 \<and> m ! p \<notin> set (str m d)"
    using strchr_found[OF assms(2)] .
  with nul show ?case by (subst skip_token.simps) simp
next
  case (char p)
  obtain q where "strchr m d (m ! p) = Inr q" "q = 0 \<longleftrightarrow> m ! p \<noteq> 0 \<and> m ! p \<notin> set (str m d)"
    using strchr_found[OF assms(2)] .
  with char show ?case by (subst skip_token.simps) auto
qed

text \<open>Writing a terminator below a string, or at a position inside it.\<close>

lemma str_agree:
  assumes "is_str m p" and "length m' = length m"
    and "\<And>k. p \<le> k \<Longrightarrow> k \<le> p + length (str m p) \<Longrightarrow> m' ! k = m ! k"
  shows "is_str m' p" "str m' p = str m p"
proof -
  let ?l = "length (str m p)"
  have e: "p + ?l < length m" "m ! (p + ?l) = 0" using str_end[OF assms(1)] by auto
  have "take (Suc ?l) (drop p m') = str m p @ [0]"
    using e assms(2) assms(3) str_nth[OF assms(1)]
    by (intro nth_equalityI) (auto simp: nth_append less_Suc_eq)
  then have d: "drop p m' = str m p @ 0 # drop (Suc ?l) (drop p m')"
    by (metis append_take_drop_id append_Cons append_Nil append.assoc)
  show "str m' p = str m p" unfolding str_def[of m'] by (subst d) (use str_no_zero in \<open>auto simp: takeWhile_append\<close>)
  show "is_str m' p" using assms(1) d unfolding is_str_def by (metis in_set_conv_decomp)
qed

lemma str_cut:
  assumes "is_str m p" and "k \<le> length (str m p)"
  shows "is_str (m[p + k := 0]) p" "str (m[p + k := 0]) p = take k (str m p)"
proof -
  have e: "p + k < length m" using str_end[OF assms(1)] assms(2) by auto
  have "take (Suc k) (drop p (m[p + k := 0])) = take k (str m p) @ [0]"
    using e assms(2) str_nth[OF assms(1)]
    by (intro nth_equalityI) (auto simp: nth_append nth_list_update less_Suc_eq)
  then have d: "drop p (m[p + k := 0]) = take k (str m p) @ 0 # drop (Suc k) (drop p (m[p + k := 0]))"
    by (metis append_take_drop_id append_Cons append_Nil append.assoc)
  show "str (m[p + k := 0]) p = take k (str m p)"
    unfolding str_def[of "m[p + k := 0]"] by (subst d)
      (use str_no_zero[of m p] in \<open>auto simp: takeWhile_append dest: in_set_takeD\<close>)
  show "is_str (m[p + k := 0]) p" using assms(1) d unfolding is_str_def by (metis in_set_conv_decomp)
qed

lemma tokens_delim: "x \<in> ds \<Longrightarrow> tokens ds (x # xs) = tokens ds xs"
  by (subst (1 2) tokens.simps) simp

lemma length_takeWhile_plus: "length (takeWhile P xs) + length (dropWhile P xs) = length xs"
  by (metis length_append takeWhile_dropWhile_id)

lemma drop_takeWhile: "drop (length (takeWhile P xs)) xs = dropWhile P xs"
  by (simp add: dropWhile_eq_drop)

lemma strtok_step:
  assumes s: "is_str m s" and d: "is_str m d"
  defines "ds \<equiv> set (str m d)"
  defines "ys \<equiv> dropWhile (\<lambda>b. b \<in> ds) (str m s)"
  defines "t \<equiv> s + length (takeWhile (\<lambda>b. b \<in> ds) (str m s))"
  defines "tok \<equiv> takeWhile (\<lambda>b. b \<notin> ds) ys" and "rest \<equiv> dropWhile (\<lambda>b. b \<notin> ds) ys"
  assumes ys: "ys \<noteq> []" and st: "(if s0 = 0 then save else s0) = s"
  shows "strtok_r m s0 d save =
      Inr (t, t + length tok + (if rest = [] then 0 else 1), m[t + length tok := 0])"
    and "is_str m t" "str m t = ys" "t + length ys = s + length (str m s)" "tok \<noteq> []"
    and "length tok + length rest = length ys"
proof -
  have k: "length (takeWhile (\<lambda>b. b \<in> ds) (str m s)) \<le> length (str m s)" by (rule length_takeWhile_le)
  from str_suffix[OF s k] show t: "is_str m t" "str m t = ys"
    by (simp_all add: t_def ys_def drop_takeWhile)
  show len: "t + length ys = s + length (str m s)"
    unfolding t_def ys_def using length_takeWhile_plus[of "\<lambda>b. b \<in> ds" "str m s"] by simp
  have "hd ys \<notin> ds" using ys hd_dropWhile[of "\<lambda>b. b \<in> ds" "str m s"] by (auto simp: ys_def)
  then show "tok \<noteq> []" using ys by (cases ys) (auto simp: tok_def)
  show lt: "length tok + length rest = length ys" unfolding tok_def rest_def by (rule length_takeWhile_plus)
  define e where "e = t + length tok"
  have sk: "skip_delims m s d = Inr (Inr t)"
    using skip_delims_ok[OF s d] ys by (simp add: Let_def ys_def ds_def t_def)
  have se: "skip_token m t d = Inr e"
    using skip_token_ok[OF t(1) d] by (simp add: t(2) e_def tok_def ds_def)
  have "is_str m e \<and> str m e = rest"
    using str_suffix[OF t(1), of "length tok"] lt
    by (simp add: t(2) e_def) (simp add: tok_def rest_def drop_takeWhile)
  then have e: "is_str m e" "str m e = rest" by auto
  have el: "e < length m" using is_str_bound[OF e(1)] .
  have z: "m ! e = 0 \<longleftrightarrow> rest = []" using str_Nil_iff[OF e(1)] e(2) by simp
  have upd: "m[e := 0] = m" if "rest = []" using z that by (metis list_update_id)
  have "s \<noteq> 0" "d \<noteq> 0" using s d by (auto simp: is_str_def)
  then show "strtok_r m s0 d save =
      Inr (t, t + length tok + (if rest = [] then 0 else 1), m[t + length tok := 0])"
    unfolding strtok_r_def Let_def st using sk se el z upd by (simp flip: e_def)
qed

lemma strtok_none:
  assumes s: "is_str m s" and d: "is_str m d"
    and ys: "dropWhile (\<lambda>b. b \<in> set (str m d)) (str m s) = []" and st: "(if s0 = 0 then save else s0) = s"
  shows "\<exists>e. strtok_r m s0 d save = Inr (0, e, m)"
proof -
  have "s \<noteq> 0" "d \<noteq> 0" using s d by (auto simp: is_str_def)
  then show ?thesis unfolding strtok_r_def Let_def st using skip_delims_ok[OF s d] ys by (simp add: Let_def)
qed

definition apart :: "bmem \<Rightarrow> addr \<Rightarrow> addr \<Rightarrow> bool" where
  "apart m s d \<longleftrightarrow> (d + length (str m d) < s \<or> s + length (str m s) < d)"

lemma tok_all_ok:
  assumes "is_str m s" and "is_str m d" and "apart m s d"
    and "(if s0 = 0 then save else s0) = s" and "length (str m s) < fuel"
  shows "\<exists>ts m'. tok_all fuel m s0 d save = Inr (ts, m') \<and> length m' = length m \<and>
    (\<forall>k. k < s \<or> s + length (str m s) \<le> k \<longrightarrow> m' ! k = m ! k) \<and>
    map (str m') ts = tokens (set (str m d)) (str m s)"
  using assms
proof (induction fuel arbitrary: m s s0 save)
  case (Suc fuel)
  let ?ds = "set (str m d)"
  let ?ys = "dropWhile (\<lambda>b. b \<in> ?ds) (str m s)"
  show ?case
  proof (cases "?ys = []")
    case True
    from strtok_none[OF Suc.prems(1,2) True Suc.prems(4)]
    obtain e where "strtok_r m s0 d save = Inr (0, e, m)" by blast
    moreover have "tokens ?ds (str m s) = []" using True by (subst tokens.simps) (simp add: Let_def)
    ultimately show ?thesis by simp
  next
    case False
    define t where "t = s + length (takeWhile (\<lambda>b. b \<in> ?ds) (str m s))"
    define tok where "tok = takeWhile (\<lambda>b. b \<notin> ?ds) ?ys"
    define rest where "rest = dropWhile (\<lambda>b. b \<notin> ?ds) ?ys"
    define e where "e = t + length tok"
    define m1 where "m1 = m[e := 0]"
    define s1 where "s1 = e + (if rest = [] then 0 else 1)"
    note stp = strtok_step[OF Suc.prems(1,2) False Suc.prems(4), folded t_def tok_def rest_def,
      folded e_def, folded m1_def s1_def]
    have tk: "tokens ?ds (str m s) = tok # tokens ?ds rest"
      using False by (subst tokens.simps) (simp add: Let_def tok_def rest_def)
    have t0: "t \<noteq> 0" using stp(2) by (simp add: is_str_def)
    have elen: "e + length rest = s + length (str m s)" using stp(4,6) by (simp add: e_def)
    have cut: "is_str m1 t" "str m1 t = tok"
    proof -
      have "length tok \<le> length (str m t)" using stp(3,6) by simp
      from str_cut[OF stp(2) this]
      show "is_str m1 t" "str m1 t = tok"
        by (simp_all add: m1_def e_def stp(3)) (simp add: tok_def takeWhile_eq_take[symmetric])
    qed
    have e: "is_str m e" "str m e = rest"
      using str_suffix[OF stp(2), of "length tok"] stp(3,6)
      by (simp_all add: e_def) (simp add: tok_def rest_def drop_takeWhile)
    have el: "e < length m" using is_str_bound[OF e(1)] .
    have ez: "m ! e = 0 \<longleftrightarrow> rest = []" using str_Nil_iff[OF e(1)] e(2) by simp
    have m1: "length m1 = length m" "\<And>k. m1 ! k = (if k = e then 0 else m ! k)"
      using el by (auto simp: m1_def nth_list_update)
    have s1: "is_str m1 s1" "str m1 s1 = tl rest"
    proof -
      have "is_str m s1 \<and> str m s1 = tl rest"
        using e ez str_Cons[OF e(1)] by (cases "rest = []") (auto simp: s1_def)
      then have *: "is_str m s1" "str m s1 = tl rest" by auto
      from str_agree[OF *(1) m1(1)] show "is_str m1 s1" "str m1 s1 = tl rest"
        using m1(2) ez *(2) by (auto simp: s1_def split: if_splits)
    qed
    have rng: "s \<le> e" "s1 + length (tl rest) \<le> s + length (str m s)" "s \<le> s1"
      using elen stp(4) by (cases rest; auto simp: e_def t_def s1_def)+
    have d1: "is_str m1 d" "str m1 d = str m d"
      using str_agree[OF Suc.prems(2) m1(1)] m1(2) Suc.prems(3) rng(1) elen by (auto simp: apart_def)
    have ap: "apart m1 s1 d" using Suc.prems(3) rng d1(2) s1(2) by (auto simp: apart_def)
    have s10: "(if 0 = (0 :: nat) then s1 else 0) = s1" by simp
    have fu: "length (str m1 s1) < fuel"
      using Suc.prems(5) stp(5) elen s1(2) t_def by (cases tok) (auto simp: e_def)
    from Suc.IH[OF s1(1) d1(1) ap s10 fu] obtain ts m' where
      r: "tok_all fuel m1 0 d s1 = Inr (ts, m')" "length m' = length m1"
        "\<And>k. k < s1 \<or> s1 + length (tl rest) \<le> k \<Longrightarrow> m' ! k = m1 ! k"
        "map (str m') ts = tokens ?ds (tl rest)"
      by (auto simp: d1(2) s1(2))
    have tokt: "str m' t = tok"
    proof -
      have "m' ! k = m1 ! k" if "t \<le> k" "k \<le> t + length (str m1 t)" for k
      proof (rule r(3))
        show "k < s1 \<or> s1 + length (tl rest) \<le> k"
          using that by (cases "rest = []") (auto simp: cut(2) s1_def e_def)
      qed
      then show ?thesis using str_agree(2)[OF cut(1) r(2)] cut(2) by simp
    qed
    have "tokens ?ds rest = tokens ?ds (tl rest)"
      using hd_dropWhile[of "\<lambda>b. b \<notin> ?ds" ?ys] tokens_delim[of "hd rest" ?ds "tl rest"]
      unfolding rest_def[symmetric] by (cases "rest = []") simp_all
    moreover have "m' ! k = m ! k" if "k < s \<or> s + length (str m s) \<le> k" for k
      using that r(3)[of k] m1(2)[of k] ez rng elen by (cases "k = e"; cases rest) (auto simp: s1_def)
    ultimately show ?thesis using stp(1) t0 r(1,2,4) m1(1) tokt tk by simp
  qed
qed simp

text \<open>
  (C37) The loop that calls \<open>strtok_r\<close> on a string and then on the saved position until it
  returns null, with a set of delimiters kept apart from the string, ends within one call per
  character and yields exactly the tokens: the maximal runs of characters that are not
  delimiters, in order, none of them empty. When it is done each returned pointer still is the
  string of its token, and no byte outside the string has been written.
\<close>

theorem strtok_r_tokens:
  assumes "is_str m s" and "is_str m d" and "apart m s d"
  shows "\<exists>ts m'. tok_all (Suc (length (str m s))) m s d 0 = Inr (ts, m') \<and>
    map (str m') ts = tokens (set (str m d)) (str m s) \<and> length m' = length m \<and>
    (\<forall>k. k < s \<or> s + length (str m s) \<le> k \<longrightarrow> m' ! k = m ! k)"
proof -
  have "(if s = 0 then 0 else s) = s" by simp
  from tok_all_ok[OF assms this] show ?thesis by fastforce
qed

text \<open>The path \<open>/a//bc\<close> with the delimiter \<open>/\<close> has the tokens \<open>a\<close> and \<open>bc\<close>.\<close>

theorem strtok_r_tokens_witness:
  "\<exists>ts m'. tok_all 7 [1, 47, 97, 47, 47, 98, 99, 0, 47, 0] 1 8 0 = Inr (ts, m') \<and>
    map (str m') ts = [[97], [98, 99]]"
proof -
  let ?m = "[1, 47, 97, 47, 47, 98, 99, 0, 47, 0] :: bmem"
  have "is_str ?m 1" "is_str ?m 8" "apart ?m 1 8" "str ?m 1 = [47, 97, 47, 47, 98, 99]" "str ?m 8 = [47]"
    by (simp_all add: is_str_def apart_def str_def)
  moreover have "tokens {47} [47, 97, 47, 47, 98, 99 :: u8] = [[97], [98, 99]]"
    by (subst tokens.simps, simp add: Let_def, subst tokens.simps, simp add: Let_def,
      subst tokens.simps, simp)
  ultimately show ?thesis using strtok_r_tokens[of ?m 1 8] by (auto simp: eval_nat_numeral)
qed

end
