(* ===== verification/Filesys.thy ===== *)
theory Filesys
  imports File Directory_Props Kstring
begin

text \<open>
  The file system's interface to paths, \<open>filesys/filesys.c\<close>. A path is a sequence of bytes; the calls
  of \<open>strtok_r\<close> on the copy of the path yield its \<open>tokens\<close>, as shown for the code of
  \<open>strtok_r\<close> in the theory of the string functions. \<open>cwd\<close> is \<open>thread_current ()->cur_dir\<close>,
  \<open>copy_ok\<close> says whether \<open>malloc\<close> has memory for the copy.
\<close>

section \<open>The code\<close>

abbreviation slash :: u8 where "slash \<equiv> 47"

text \<open>The loop of \<open>filesys_path_to_dir\<close>: \<open>token\<close> is the current component, \<open>rest\<close> what \<open>strtok_r\<close>
  still returns. \<open>dir_lookup\<close> of a null directory dereferences it before its assertion.\<close>

fun path_loop :: "memory \<Rightarrow> fs \<Rightarrow> dir option \<Rightarrow> u8 list \<Rightarrow> u8 list list \<Rightarrow> ((dir \<times> u8 list) option \<times> fs) res" where
  "path_loop m s None token rest = Inl (Fault ''dir'')"
| "path_loop m s (Some cur_dir) token rest =
     bnd (dir_lookup m s cur_dir token) (\<lambda>(cur_inode, s).
     case rest of
       [] \<Rightarrow> bnd (inode_close s cur_inode) (\<lambda>s. Inr (Some (cur_dir, token), s))
     | t # ts \<Rightarrow>
         if cur_inode = None \<or> \<not> inode_is_dir s (the cur_inode)
         then bnd (dir_close s (Some cur_dir)) (\<lambda>s. bnd (inode_close s cur_inode) (\<lambda>s. Inr (None, s)))
         else bnd (dir_open m s cur_inode) (\<lambda>(d, s). bnd (dir_close s (Some cur_dir)) (\<lambda>s. path_loop m s d t ts)))"

definition filesys_path_to_dir :: "memory \<Rightarrow> fs \<Rightarrow> dir \<Rightarrow> u8 list \<Rightarrow> ((dir \<times> u8 list) option \<times> fs) res" where
  "filesys_path_to_dir m s cwd pth =
     (if pth = [slash]
      then bnd (dir_open_root m s) (\<lambda>(d, s). Inr (map_option (\<lambda>d. (d, [46])) d, s))
      else bnd (if pth \<noteq> [] \<and> hd pth = slash then dir_open_root m s else dir_reopen m s cwd) (\<lambda>(cur_dir, s).
           case tokens {slash} pth of
             [] \<Rightarrow> bnd (dir_close s cur_dir) (\<lambda>s. Inr (None, s))
           | t # ts \<Rightarrow> path_loop m s cur_dir t ts))"

text \<open>The part of \<open>filesys_create\<close> after the walk over the path.\<close>

definition create_in :: "memory \<Rightarrow> u8 list \<Rightarrow> fs \<Rightarrow> dir \<Rightarrow> u8 list \<Rightarrow> int \<Rightarrow> (bool \<times> fs) res" where
  "create_in m junk s d filename initial_size =
     bnd (free_map_allocate s 1) (\<lambda>(sec, s).
     case sec of
       None \<Rightarrow> bnd (dir_close s (Some d)) (\<lambda>s. Inr (False, s))
     | Some sector \<Rightarrow>
         bnd (inode_create s sector initial_size False (calloc_ok m s) (new_inode m s)) (\<lambda>(created, s).
         bnd (if created then dir_add junk s d filename sector else Inr (False, s)) (\<lambda>(success, s).
         bnd (if \<not> success \<and> sector \<noteq> 0 then free_map_release s sector 1 else Inr s) (\<lambda>s.
         bnd (dir_close s (Some d)) (\<lambda>s. Inr (success, s))))))"

definition filesys_create :: "memory \<Rightarrow> bool \<Rightarrow> u8 list \<Rightarrow> fs \<Rightarrow> dir \<Rightarrow> u8 list \<Rightarrow> int \<Rightarrow> (bool \<times> fs) res" where
  "filesys_create m copy_ok junk s cwd name initial_size =
     (if name = [] then Inr (False, s)
      else if \<not> copy_ok then Inl (Panic ''Malloc failure'')
      else bnd (filesys_path_to_dir m s cwd name) (\<lambda>(r, s).
           case r of
             None \<Rightarrow> bnd (dir_close s None) (\<lambda>s. Inr (False, s))
           | Some (d, filename) \<Rightarrow> create_in m junk s d filename initial_size))"

text \<open>The new current directory is the first result; the old one is closed. An inode that was found
  but is not a directory is not closed.\<close>

definition filesys_chdir :: "memory \<Rightarrow> bool \<Rightarrow> fs \<Rightarrow> dir \<Rightarrow> u8 list \<Rightarrow> (bool \<times> dir option \<times> fs) res" where
  "filesys_chdir m copy_ok s cwd name =
     (if name = [] then Inr (False, Some cwd, s)
      else if \<not> copy_ok then Inl (Panic ''Malloc failure'')
      else bnd (filesys_path_to_dir m s cwd name) (\<lambda>(r, s).
           case r of
             None \<Rightarrow> Inr (False, Some cwd, s)
           | Some (d, filename) \<Rightarrow>
               bnd (dir_lookup m s d filename) (\<lambda>(i, s).
               if i \<noteq> None \<and> inode_is_dir s (the i)
               then bnd (dir_open m s i) (\<lambda>(new, s).
                    bnd (dir_close s (Some d)) (\<lambda>s.
                    bnd (dir_close s (Some cwd)) (\<lambda>s. Inr (True, new, s))))
               else bnd (dir_close s (Some d)) (\<lambda>s. Inr (False, Some cwd, s)))))"

definition filesys_mkdir :: "memory \<Rightarrow> bool \<Rightarrow> u8 list \<Rightarrow> fs \<Rightarrow> dir \<Rightarrow> u8 list \<Rightarrow> (bool \<times> fs) res" where
  "filesys_mkdir m copy_ok junk s cwd name =
     (if name = [] then Inr (False, s)
      else if \<not> copy_ok then Inl (Panic ''Malloc failure'')
      else bnd (filesys_path_to_dir m s cwd name) (\<lambda>(r, s).
           case r of
             None \<Rightarrow> Inr (False, s)
           | Some (d, filename) \<Rightarrow>
               bnd (dir_lookup m s d filename) (\<lambda>(i, s).
               if i \<noteq> None
               then bnd (dir_close s (Some d)) (\<lambda>s. bnd (inode_close s i) (\<lambda>s. Inr (False, s)))
               else bnd (free_map_allocate s 1) (\<lambda>(sec, s).
                    case sec of
                      None \<Rightarrow> bnd (dir_close s (Some d)) (\<lambda>s. Inr (False, s))
                    | Some sector \<Rightarrow>
                        bnd (dir_create m junk s cwd sector 16) (\<lambda>(created, s).
                        bnd (if created then dir_add junk s d filename sector else Inr (False, s)) (\<lambda>(success, s).
                        bnd (if \<not> success \<and> sector \<noteq> 0 then free_map_release s sector 1 else Inr s) (\<lambda>s.
                        bnd (dir_close s (Some d)) (\<lambda>s. Inr (success, s)))))))))"

definition filesys_open :: "memory \<Rightarrow> bool \<Rightarrow> fs \<Rightarrow> dir \<Rightarrow> u8 list \<Rightarrow> (open_file option \<times> fs) res" where
  "filesys_open m copy_ok s cwd name =
     (if \<not> copy_ok then Inl (Panic ''Malloc failure'')
      else bnd (filesys_path_to_dir m s cwd name) (\<lambda>(r, s).
           case r of
             None \<Rightarrow> Inr (None, s)
           | Some (d, filename) \<Rightarrow>
               bnd (dir_lookup m s d filename) (\<lambda>(i, s).
               bnd (dir_close s (Some d)) (\<lambda>s.
               if i \<noteq> None then file_open s i (calloc_ok m s) else Inr (None, s)))))"

definition filesys_remove :: "memory \<Rightarrow> bool \<Rightarrow> fs \<Rightarrow> dir \<Rightarrow> u8 list \<Rightarrow> (bool \<times> fs) res" where
  "filesys_remove m copy_ok s cwd name =
     (if \<not> copy_ok then Inl (Panic ''Malloc failure'')
      else bnd (filesys_path_to_dir m s cwd name) (\<lambda>(r, s).
           case r of
             None \<Rightarrow> bnd (dir_close s None) (\<lambda>s. Inr (False, s))
           | Some (d, filename) \<Rightarrow>
               bnd (dir_remove m s d filename) (\<lambda>(success, s).
               bnd (dir_close s (Some d)) (\<lambda>s. Inr (success, s)))))"

end
