(* ===== verification/Filesys_Props.thy ===== *)
theory Filesys_Props
  imports Filesys
begin

text \<open>
  The theorems on paths. A well-formed tree of directories is a volume in which every directory's
  contents are a table of names; a state \<^emph>\<open>with extra opens\<close> is one in which the contents of all files are
  the same, every inode that was open is still open at its address, and the counts of opens differ by
  a given multiset of inode sectors. Opening and closing then are adding and removing an element, and the walk
  over a path is shown to resolve it in the tree and to leave exactly one open behind.
\<close>

section \<open>Trees of directories\<close>

definition tree_inv :: "block_sector_t set \<Rightarrow> block_sector_t set \<Rightarrow> fs \<Rightarrow> bool" where
  "tree_inv R T s \<longleftrightarrow> vol_ok R s \<and> T \<subseteq> R \<and> ROOT_DIR_SECTOR \<in> T \<and> (\<forall>n \<in> R. disk s n ! 504 \<noteq> 0 \<longleftrightarrow> n \<in> T) \<and>
     (\<forall>a x. inodes s a = Some x \<longrightarrow> \<not> removed x \<and> (i_is_dir x \<longleftrightarrow> i_sector x \<in> T) \<and>
        (i_sector x \<in> T \<longrightarrow> \<not> i_locked x \<and> deny_write_cnt x = 0)) \<and>
     (\<forall>n \<in> T. dir_wf (contents s n) \<and> ran (dmap (contents s n)) \<subseteq> R \<and> mapped (disk s) n 0 (file_len s n))"

definition refs :: "fs \<Rightarrow> nat \<Rightarrow> block_sector_t \<Rightarrow> bool" where
  "refs s a n \<longleftrightarrow> (\<exists>x. inodes s a = Some x \<and> i_sector x = n)"

definition opens :: "fs \<Rightarrow> block_sector_t \<Rightarrow> int" where
  "opens s n = (case find_open s (open_inodes s) n of None \<Rightarrow> 0 | Some a \<Rightarrow> open_cnt (ino s a))"

text \<open>State \<open>s'\<close> is \<open>s\<close> with the extra opens \<open>D\<close>.\<close>

definition extra :: "block_sector_t set \<Rightarrow> block_sector_t set \<Rightarrow> fs \<Rightarrow> block_sector_t multiset \<Rightarrow> fs \<Rightarrow> bool" where
  "extra R T s D s' \<longleftrightarrow> tree_inv R T s \<and> tree_inv R T s' \<and> (\<forall>n \<in> R. contents s' n = contents s n) \<and>
     (\<forall>n. opens s' n = opens s n + int (count D n)) \<and> (\<forall>a n. refs s a n \<longrightarrow> refs s' a n) \<and>
     used s' = used s \<and> dsize s' = dsize s"

lemma tree_invD:
  assumes "tree_inv R T s"
  shows "vol_ok R s" and "T \<subseteq> R" and "ROOT_DIR_SECTOR \<in> T" and "n \<in> R \<Longrightarrow> disk s n ! 504 \<noteq> 0 \<longleftrightarrow> n \<in> T"
    and "inodes s a = Some x \<Longrightarrow> \<not> removed x" and "inodes s a = Some x \<Longrightarrow> i_is_dir x \<longleftrightarrow> i_sector x \<in> T"
    and "inodes s a = Some x \<Longrightarrow> i_sector x \<in> T \<Longrightarrow> \<not> i_locked x \<and> deny_write_cnt x = 0"
    and "n \<in> T \<Longrightarrow> dir_wf (contents s n)" and "n \<in> T \<Longrightarrow> ran (dmap (contents s n)) \<subseteq> R"
    and "n \<in> T \<Longrightarrow> mapped (disk s) n 0 (file_len s n)"
  using assms by (auto simp: tree_inv_def)

lemma opens_open: "open_ok R s \<Longrightarrow> inodes s a = Some x \<Longrightarrow> opens s (i_sector x) = open_cnt x"
  using find_open_iff[of R s "i_sector x" a] by (auto simp: opens_def ino_def)

lemma opens_none: "open_ok R s \<Longrightarrow> \<forall>a x. inodes s a = Some x \<longrightarrow> i_sector x \<noteq> n \<Longrightarrow> opens s n = 0"
  using find_open_none_iff[of R s n] by (simp add: opens_def)

lemma opens_pos_iff: "open_ok R s \<Longrightarrow> opens s n > 0 \<longleftrightarrow> (\<exists>a. refs s a n)"
proof -
  assume o: "open_ok R s"
  show ?thesis
  proof (cases "\<exists>a x. inodes s a = Some x \<and> i_sector x = n")
    case True
    then obtain a x where x: "inodes s a = Some x" "i_sector x = n" by blast
    then show ?thesis using opens_open[OF o x(1)] o by (fastforce simp: open_ok_def refs_def)
  next
    case False
    then show ?thesis using opens_none[OF o] by (auto simp: refs_def)
  qed
qed

lemma tree_dir_ready:
  assumes "tree_inv R T s" and "inodes s a = Some x" and "i_sector x \<in> T"
  shows "dir_ready R s a x"
  using tree_invD(1)[OF assms(1)] tree_invD(6,7)[OF assms(1,2)] tree_invD(8,10)[OF assms(1,3)] assms(2,3)
    file_len_open[OF vol_okD(3)[OF tree_invD(1)[OF assms(1)]] assms(2)]
  by (simp add: dir_ready_def dir_at_def)

lemma extra_refl: "tree_inv R T s \<Longrightarrow> extra R T s {#} s"
  by (simp add: extra_def)

lemma extra_trans: "extra R T s D s' \<Longrightarrow> extra R T s' E s'' \<Longrightarrow> extra R T s (D + E) s''"
  by (auto simp: extra_def)

section \<open>Opening and closing\<close>

text \<open>A change that keeps the directories but \<open>k\<close>, and possibly adds files.\<close>

lemma tree_inv_step:
  assumes inv: "tree_inv R T s" and v: "vol_ok R' s'" and sub: "R \<subseteq> R'" and kp: "keeps R s s'"
    and new: "\<forall>m \<in> R' - R. disk s' m ! 504 = 0" and c: "\<forall>m \<in> T. m \<noteq> k \<longrightarrow> contents s' m = contents s m"
    and kk: "k \<in> T \<longrightarrow> dir_wf (contents s' k) \<and> ran (dmap (contents s' k)) \<subseteq> R' \<and> mapped (disk s') k 0 (file_len s' k)"
    and i: "\<forall>a x. inodes s' a = Some x \<longrightarrow> \<not> removed x \<and> (i_is_dir x \<longleftrightarrow> i_sector x \<in> T) \<and>
        (i_sector x \<in> T \<longrightarrow> \<not> i_locked x \<and> deny_write_cnt x = 0)"
  shows "tree_inv R' T s'"
proof -
  note d = tree_invD[OF inv]
  have m: "mapped (disk s') n 0 (file_len s' n)" if n: "n \<in> T" "n \<noteq> k" for n
  proof -
    have nR: "n \<in> R" "n \<in> R'" using n d(2) sub by blast+
    have ln: "0 \<le> file_len s n" "file_len s n \<le> int (MAX_BLOCKS * 512)" "0 \<le> file_len s' n"
      using vol_okD(4)[OF d(1) nR(1)] vol_okD(4)[OF v nR(2)] by (auto simp: len_ok_def)
    have "nat (file_len s' n) = nat (file_len s n)" using c n by (metis contents_def length_map length_upt diff_zero)
    then have l: "file_len s' n = file_len s n" using ln by linarith
    show ?thesis
      unfolding mapped_def l
    proof (intro allI impI)
      fix p assume p: "0 \<le> p \<and> p < file_len s n"
      then have "nat p div 512 < MAX_BLOCKS" using ln by (intro less_mult_imp_div_less) linarith
      then show "follow (disk s') n (path (nat p div 512)) \<noteq> 0" using kp nR d(10)[OF n(1)] p by (auto simp: mapped_def keeps_def)
    qed
  qed
  have "disk s' n ! 504 \<noteq> 0 \<longleftrightarrow> n \<in> T" if "n \<in> R'" for n
    using that kp new d(2) d(4)[of n] by (cases "n \<in> R") (auto simp: keeps_def)
  moreover have "dir_wf (contents s' n) \<and> ran (dmap (contents s' n)) \<subseteq> R' \<and> mapped (disk s') n 0 (file_len s' n)" if "n \<in> T" for n
    using m[OF that] c kk d(8,9)[OF that] sub that by (cases "n = k") auto
  moreover have "T \<subseteq> R'" using d(2) sub by blast
  ultimately show ?thesis using v i d(3) by (simp add: tree_inv_def)
qed

text \<open>A change of the table of open inodes and of lengths on disk that keeps the trees.\<close>

lemma tree_inv_cong:
  assumes inv: "tree_inv R T s" and v: "vol_ok R s'" and c: "\<forall>n \<in> R. contents s' n = contents s n"
    and tr: "\<forall>n \<in> R. disk s' n ! 504 = disk s n ! 504 \<and> (\<forall>\<rho> \<in> places. follow (disk s') n \<rho> = follow (disk s) n \<rho>)"
    and i: "\<forall>a x. inodes s' a = Some x \<longrightarrow> \<not> removed x \<and> (i_is_dir x \<longleftrightarrow> i_sector x \<in> T) \<and>
        (i_sector x \<in> T \<longrightarrow> \<not> i_locked x \<and> deny_write_cnt x = 0)"
  shows "tree_inv R T s'"
proof (rule tree_inv_step[OF inv v subset_refl _ _ _ _ i, where k = 0])
  show "keeps R s s'" using tr path_places by (simp add: keeps_def)
  have "0 \<notin> T" using tree_invD(2)[OF inv] vol_okD(2)[OF tree_invD(1)[OF inv], of 0] by (auto simp: tree_ok_def)
  then show "0 \<in> T \<longrightarrow> dir_wf (contents s' 0) \<and> ran (dmap (contents s' 0)) \<subseteq> R \<and> mapped (disk s') 0 0 (file_len s' 0)" by blast
  show "\<forall>m \<in> T. m \<noteq> 0 \<longrightarrow> contents s' m = contents s m" using c tree_invD(2)[OF inv] by blast
qed simp

lemma opens_upd:
  assumes o: "open_ok R s" "open_ok R s'" and i: "inodes s' = (inodes s)(a \<mapsto> y)" and n: "i_sector y = n"
    and z: "\<forall>z. inodes s a = Some z \<longrightarrow> i_sector z = n"
  shows "opens s' m = (if m = n then open_cnt y else opens s m)"
proof (cases "m = n")
  case True
  have "inodes s' a = Some y" using i by simp
  then show ?thesis using opens_open[OF o(2)] n True by auto
next
  case False
  show ?thesis
  proof (cases "\<exists>c z. inodes s c = Some z \<and> i_sector z = m")
    case True
    then obtain c x where c: "inodes s c = Some x" "i_sector x = m" by blast
    then have "inodes s' c = Some x" using i z False by auto
    then show ?thesis using opens_open[OF o(1) c(1)] opens_open[OF o(2), of c x] c(2) False by simp
  next
    case nc: False
    then have "\<forall>c z. inodes s' c = Some z \<longrightarrow> i_sector z \<noteq> m" using i n False by auto
    then show ?thesis using opens_none[OF o(2)] opens_none[OF o(1)] nc False by auto
  qed
qed

lemma open_extra:
  assumes inv: "tree_inv R T s" and n: "n \<in> R" and b: "inodes s b = None"
  shows "\<exists>a s'. inode_open s n (Some b) = Inr (Some a, s') \<and> extra R T s {#n#} s' \<and> refs s' a n"
proof -
  note d = tree_invD[OF inv]
  have o: "open_ok R s" using vol_okD(3)[OF d(1)] .
  from inode_open_vol[OF d(1) n b] obtain a s' y where
    op: "inode_open s n (Some b) = Inr (Some a, s')" "vol_ok R s'" "disk s' = disk s" "\<forall>m. contents s' m = contents s m"
    "inodes s' = (inodes s)(a \<mapsto> y)" "i_sector y = n"
    "(\<forall>c z. inodes s c = Some z \<longrightarrow> i_sector z \<noteq> n) \<longrightarrow> a = b \<and> deny_write_cnt y = 0 \<and> open_cnt y = 1 \<and> \<not> removed y \<and>
      i_is_dir y = (disk s n ! 504 \<noteq> 0) \<and> \<not> i_locked y"
    "\<forall>z. inodes s a = Some z \<longrightarrow> y = z\<lparr>open_cnt := open_cnt z + 1\<rparr>" "used s' = used s" by blast
  have ds: "dsize s' = dsize s" using op(1) by (auto simp: inode_open_def inode_reopen_def res_iffs split: option.splits)
  have z: "\<forall>z. inodes s a = Some z \<longrightarrow> i_sector z = n" using op(6,8) by auto
  have y: "open_cnt y = opens s n + 1 \<and> \<not> removed y \<and> (i_is_dir y \<longleftrightarrow> n \<in> T) \<and> (n \<in> T \<longrightarrow> \<not> i_locked y \<and> deny_write_cnt y = 0)"
  proof (cases "inodes s a")
    case None
    have "\<forall>c z. inodes s c = Some z \<longrightarrow> i_sector z \<noteq> n"
    proof (intro allI impI notI)
      fix c z assume c: "inodes s c = Some z" "i_sector z = n"
      then have "inodes s' c = Some z" "inodes s' a = Some y" "c \<noteq> a" using op(5) None by auto
      then show False using vol_okD(3)[OF op(2)] c(2) op(6) unfolding open_ok_def by metis
    qed
    then show ?thesis using op(7) opens_none[OF o] d(4)[OF n] by simp
  next
    case (Some z)
    then show ?thesis using op(6,8) opens_open[OF o Some] d(5-7)[of a z] by auto
  qed
  have "tree_inv R T s'"
    by (rule tree_inv_cong[OF inv op(2)]) (use op(3,4,5,6) y d(5-7) in auto)
  moreover have "opens s' m = opens s m + int (count {#n#} m)" for m
    using opens_upd[OF o vol_okD(3)[OF op(2)] op(5,6) z, of m] y by auto
  moreover have "refs s' c k" if "refs s c k" for c k using that op(5,6) z by (cases "c = a") (auto simp: refs_def)
  moreover have "refs s' a n" using op(5,6) by (simp add: refs_def)
  ultimately show ?thesis using op(1,4,9) ds inv unfolding extra_def by blast
qed

lemma close_trees:
  assumes ok: "vol_ok R s" and x: "inodes s a = Some x" "\<not> removed x" and c: "inode_close s (Some a) = Inr s'" and n: "n \<in> R"
  shows "disk s' n ! 504 = disk s n ! 504" and "\<rho> \<in> places \<Longrightarrow> follow (disk s') n \<rho> = follow (disk s) n \<rho>"
proof -
  have D: "disk s' = disk (clean s a)"
    using c x(2) unfolding inode_close_eq[OF ok x(1)] by (auto simp: Let_def split: if_splits)
  have nx: "i_sector x \<in> R" using vol_okD(3)[OF ok] x by (auto simp: open_ok_def)
  have len: "\<And>m. length (disk s m) = 512" using vol_okD(1)[OF ok] by (simp add: fs_ok_def)
  have E: "disk (clean s a) = disk s \<or> disk (clean s a) = (disk s)(i_sector x := wset (disk s (i_sector x)) 125 (word_of_int (i_length x)))"
    using x by (simp add: clean_def ino_def set_len_def put_sector_def)
  then show "disk s' n ! 504 = disk s n ! 504" unfolding D using nth_wset[of 125 "disk s n" _ 504] len by auto
  have t: "tree_ok (used s) (disk s) (i_sector x)" "n \<noteq> 0" using vol_okD(2)[OF ok nx] vol_okD(2)[OF ok n] tree_ok_def by blast+
  have nd: "i_sector x \<in> nodes (disk s) (i_sector x)" using nodesI[OF Nil_places, of "disk s" "i_sector x"] t(1) unfolding tree_ok_def by (metis follow.simps(1))
  show "follow (disk s') n \<rho> = follow (disk s) n \<rho>" if p: "\<rho> \<in> places"
  proof (cases "n = i_sector x")
    case True
    then show ?thesis unfolding D using clean_ok(7)[OF ok x(1) p] by simp
  next
    case False
    then have "\<forall>k \<in> nodes (disk s) n. disk s' k = disk s k" unfolding D using E nd vol_okD(5)[OF ok n nx] by auto
    then show ?thesis using follow_same[OF t(2) _ p] by blast
  qed
qed

lemma close_step:
  assumes inv: "tree_inv R T s1" and a: "refs s1 a n"
  shows "\<exists>s2. inode_close s1 (Some a) = Inr s2 \<and> tree_inv R T s2 \<and> (\<forall>m \<in> R. contents s2 m = contents s1 m) \<and>
    (\<forall>m. opens s2 m = opens s1 m - (if m = n then 1 else 0)) \<and> used s2 = used s1 \<and> dsize s2 = dsize s1 \<and>
    (\<forall>b k. refs s1 b k \<and> 0 < opens s2 k \<longrightarrow> refs s2 b k)"
proof -
  note d = tree_invD[OF inv]
  have o: "open_ok R s1" using vol_okD(3)[OF d(1)] .
  obtain x where x: "inodes s1 a = Some x" "i_sector x = n" using a by (auto simp: refs_def)
  from inode_close_vol[OF d(1) x(1)] d(5)[OF x(1)] obtain s2 where
    c: "inode_close s1 (Some a) = Inr s2" "vol_ok R s2" "\<forall>m \<in> R. contents s2 m = contents s1 m"
    "inodes s2 = (inodes s1)(a := if open_cnt x = 1 then None else Some (x\<lparr>i_dirty := False, open_cnt := open_cnt x - 1\<rparr>))" "used s2 = used s1" by blast
  have ds: "dsize s2 = dsize s1"
    using c(1) d(5)[OF x(1)] unfolding inode_close_eq[OF d(1) x(1)]
    by (auto simp: Let_def clean_def split: if_splits)
  have o2: "open_ok R s2" using vol_okD(3)[OF c(2)] .
  have uniq: "inodes s1 b = Some y \<Longrightarrow> i_sector y = n \<Longrightarrow> b = a" for b y
    using o x unfolding open_ok_def by metis
  have op: "opens s2 m = opens s1 m - (if m = n then 1 else 0)" for m
  proof (cases "open_cnt x = 1")
    case True
    show ?thesis
    proof (cases "\<exists>b y. inodes s2 b = Some y \<and> i_sector y = m")
      case True
      then obtain b y where b: "inodes s2 b = Some y" "i_sector y = m" by blast
      then have b1: "inodes s1 b = Some y" "b \<noteq> a" using c(4) \<open>open_cnt x = 1\<close> by (auto split: if_splits)
      then have "m \<noteq> n" using uniq b(2) by blast
      then show ?thesis using opens_open[OF o2 b(1)] opens_open[OF o b1(1)] b(2) by simp
    next
      case no: False
      then have "m \<noteq> n \<Longrightarrow> \<forall>b y. inodes s1 b = Some y \<longrightarrow> i_sector y \<noteq> m" using c(4) x by (metis fun_upd_other option.inject)
      then show ?thesis using no opens_none[OF o2, of m] opens_none[OF o, of m] opens_open[OF o x(1)] x True by (cases "m = n") auto
    qed
  next
    case False
    then have i2: "inodes s2 = (inodes s1)(a \<mapsto> x\<lparr>i_dirty := False, open_cnt := open_cnt x - 1\<rparr>)" using c(4) by simp
    show ?thesis using opens_upd[OF o o2 i2, of n m] x opens_open[OF o x(1)] by auto
  qed
  have "tree_inv R T s2"
  proof (rule tree_inv_cong[OF inv c(2,3)])
    show "\<forall>n \<in> R. disk s2 n ! 504 = disk s1 n ! 504 \<and> (\<forall>\<rho> \<in> places. follow (disk s2) n \<rho> = follow (disk s1) n \<rho>)"
      using close_trees[OF d(1) x(1) d(5)[OF x(1)] c(1)] by blast
    show "\<forall>a x. inodes s2 a = Some x \<longrightarrow> \<not> removed x \<and> (i_is_dir x \<longleftrightarrow> i_sector x \<in> T) \<and>
        (i_sector x \<in> T \<longrightarrow> \<not> i_locked x \<and> deny_write_cnt x = 0)"
      using c(4) d(5-7) x(1) by (auto split: if_splits)
  qed
  moreover have r: "refs s2 b k" if bk: "refs s1 b k" "0 < opens s2 k" for b k
  proof -
    obtain y where y: "inodes s1 b = Some y" "i_sector y = k" using bk(1) by (auto simp: refs_def)
    show ?thesis
    proof (cases "b = a")
      case True
      then have "k = n" "y = x" using y x by auto
      then have "open_cnt x \<noteq> 1" using bk(2) op[of n] opens_open[OF o x(1)] x(2) by auto
      then show ?thesis using c(4) x True \<open>k = n\<close> by (simp add: refs_def)
    next
      case False
      then show ?thesis using c(4) y by (simp add: refs_def)
    qed
  qed
  ultimately show ?thesis using c(1,3,5) ds op by blast
qed

lemma close_extra:
  assumes e: "extra R T s (add_mset n D) s1" and a: "refs s1 a n"
  shows "\<exists>s2. inode_close s1 (Some a) = Inr s2 \<and> extra R T s D s2 \<and>
    (\<forall>b k. refs s1 b k \<and> 0 < opens s2 k \<longrightarrow> refs s2 b k)"
proof -
  have inv: "tree_inv R T s1" using e by (simp add: extra_def)
  from close_step[OF inv a] obtain s2 where
    c: "inode_close s1 (Some a) = Inr s2" "tree_inv R T s2" "\<forall>m \<in> R. contents s2 m = contents s1 m"
    "\<forall>m. opens s2 m = opens s1 m - (if m = n then 1 else 0)" "used s2 = used s1" "dsize s2 = dsize s1"
    and r: "\<forall>b k. refs s1 b k \<and> 0 < opens s2 k \<longrightarrow> refs s2 b k" by blast
  have ops: "opens s2 m = opens s m + int (count D m)" for m using c(4) e by (simp add: extra_def)
  have "refs s2 b k" if "refs s b k" for b k
  proof -
    have "opens s k > 0" using that opens_pos_iff[OF vol_okD(3)[OF tree_invD(1)], of R T s k] e by (auto simp: extra_def)
    then have "0 < opens s2 k" using ops[of k] by simp
    then show ?thesis using r that e by (auto simp: extra_def)
  qed
  then show ?thesis using c(1,2,3,5,6) ops e r by (intro exI[of _ s2]) (simp add: extra_def)
qed

lemma reopen_extra:
  assumes inv: "tree_inv R T s" and a: "refs s a n"
  shows "extra R T s {#n#} (inode_reopen s a) \<and> refs (inode_reopen s a) a n"
proof -
  note d = tree_invD[OF inv]
  have o: "open_ok R s" using vol_okD(3)[OF d(1)] .
  obtain x where x: "inodes s a = Some x" "i_sector x = n" using a by (auto simp: refs_def)
  let ?f = "\<lambda>x::inode. x\<lparr>open_cnt := open_cnt x + 1\<rparr>"
  have i: "inodes (inode_reopen s a) = (inodes s)(a \<mapsto> ?f x)" using x by (simp add: inode_reopen_def upd_inode_def)
  have v: "vol_ok R (inode_reopen s a)" "\<And>m. contents (inode_reopen s a) m = contents s m"
    using upd_vol[where f = ?f, OF d(1) x(1)] open_inodeD[OF d(1) x(1)] by (auto simp: inode_reopen_def)
  have D: "disk (inode_reopen s a) = disk s" by (simp add: inode_reopen_def)
  have "tree_inv R T (inode_reopen s a)"
    by (rule tree_inv_cong[OF inv v(1)]) (use v(2) D i d(5-7) x in auto)
  moreover have "opens (inode_reopen s a) m = opens s m + int (count {#n#} m)" for m
    using opens_upd[OF o vol_okD(3)[OF v(1)] i, of n m] x opens_open[OF o x(1)] by auto
  moreover have "used (inode_reopen s a) = used s" "dsize (inode_reopen s a) = dsize s" by (simp_all add: inode_reopen_def)
  moreover have "refs (inode_reopen s a) b k" if "refs s b k" for b k using that i x by (cases "b = a") (auto simp: refs_def)
  ultimately show ?thesis using v(2) a inv by (simp add: extra_def)
qed

text \<open>The lock that \<open>dir_lookup\<close> holds while it opens the inode leaves no trace.\<close>

lemma open_in_locked:
  assumes "inodes s a = Some x" and "\<not> i_locked x" and "mem \<noteq> Some a"
  shows "bnd (inode_open (locked s a) k mem) (\<lambda>(i, s). bnd (inode_release s a) (\<lambda>s. Inr (i, s))) = inode_open s k mem"
proof -
  have ff: "find_open (locked s a) as k = find_open s as k" for as
    unfolding locked_def using assms(1) by (intro upd_find_open) auto
  have x: "inodes (locked s a) = (inodes s)(a \<mapsto> x\<lparr>i_locked := True\<rparr>)" "open_inodes (locked s a) = open_inodes s"
    "get_sector (locked s a) k = get_sector s k" using assms(1) by (simp_all add: locked_def upd_inode_def get_sector_def)
  have u: "upd_inode s' a (\<lambda>x. x\<lparr>i_locked := False\<rparr>) = s'\<lparr>inodes := (inodes s')(a \<mapsto> y\<lparr>i_locked := False\<rparr>)\<rparr>"
    "inode_release s' a = Inr (s'\<lparr>inodes := (inodes s')(a \<mapsto> y\<lparr>i_locked := False\<rparr>)\<rparr>)"
    if "inodes s' a = Some y" "i_locked y" for s' y using that by (simp_all add: upd_inode_def inode_release_def ino_def)
  have L: "locked s a = s\<lparr>inodes := (inodes s)(a \<mapsto> x\<lparr>i_locked := True\<rparr>)\<rparr>" using assms(1) by (simp add: locked_def upd_inode_def)
  show ?thesis
  proof (cases "find_open s (open_inodes s) k")
    case (Some c)
    show ?thesis
    proof (cases "c = a")
      case True
      then show ?thesis using Some ff assms x(2)
        by (cases x) (simp add: inode_open_def inode_reopen_def L inode_release_def ino_def upd_inode_def)
    next
      case False
      then show ?thesis using Some ff assms x(2)
        by (cases x) (auto simp: inode_open_def inode_reopen_def L inode_release_def ino_def upd_inode_def fun_upd_twist fun_upd_idem)
    qed
  next
    case None
    then show ?thesis using ff assms x(2,3)
      by (cases x; cases mem; cases "get_sector s k")
        (auto simp: inode_open_def L inode_release_def ino_def upd_inode_def fun_upd_twist fun_upd_idem)
  qed
qed

lemma dir_lookup_eq:
  assumes inv: "tree_inv R T s" and a: "inodes s (d_inode d) = Some x" "i_sector x \<in> T" and z: "0 \<notin> set name"
    and b: "new_inode m (locked s (d_inode d)) \<noteq> Some (d_inode d)"
  shows "dir_lookup m s d name = (case dmap (contents s (i_sector x)) name of
      None \<Rightarrow> Inr (None, s) | Some k \<Rightarrow> inode_open s k (new_inode m (locked s (d_inode d))))"
proof -
  let ?a = "d_inode d"
  have r: "dir_ready R s ?a x" using tree_dir_ready[OF inv a] .
  then have u: "\<not> i_locked x" by (simp add: dir_ready_def)
  have "inode_release (locked s ?a) ?a = Inr s"
    using a(1) u by (simp add: inode_release_def locked_def ino_def upd_inode_def fun_upd_idem)
  then show ?thesis
    using open_in_locked[OF a(1) u b] lock_ok(1)[OF r] locked_lookup[OF r z] first_slot_dmap[OF tree_invD(8)[OF inv a(2)], of name]
    by (auto simp: dir_lookup_def split: option.splits)
qed

text \<open>\<open>dir_lookup\<close> of a name in a directory: the inode it names is opened.\<close>

lemma lookup_extra:
  assumes inv: "tree_inv R T s" and a: "refs s (d_inode d) n" "n \<in> T" and z: "0 \<notin> set name" and m: "fresh_mem m"
  shows "\<exists>i s'. dir_lookup m s d name = Inr (i, s') \<and> (case dmap (contents s n) name of
      None \<Rightarrow> i = None \<and> extra R T s {#} s'
    | Some k \<Rightarrow> extra R T s {#k#} s' \<and> (\<exists>j. i = Some j \<and> refs s' j k))"
proof -
  obtain x where x: "inodes s (d_inode d) = Some x" "i_sector x = n" using a(1) by (auto simp: refs_def)
  from fresh_memD[OF m tree_invD(1)[OF inv], of "d_inode d"] x(1) obtain b where
    b: "new_inode m (locked s (d_inode d)) = Some b" "inodes s b = None" by auto
  then have "b \<noteq> d_inode d" using x(1) by auto
  then have eq: "dir_lookup m s d name = (case dmap (contents s n) name of None \<Rightarrow> Inr (None, s) | Some k \<Rightarrow> inode_open s k (Some b))"
    using dir_lookup_eq[OF inv x(1) _ z, of m] x a(2) b by (auto split: option.split)
  show ?thesis
  proof (cases "dmap (contents s n) name")
    case None
    then show ?thesis using eq extra_refl[OF inv] by simp
  next
    case (Some k)
    then have "k \<in> R" using tree_invD(9)[OF inv a(2)] by (auto simp: ran_def)
    from open_extra[OF inv this b(2)] show ?thesis using eq Some by auto
  qed
qed

section \<open>Walking a path\<close>

text \<open>The directory that a sequence of components leads to, in a tree of tables.\<close>

fun resolve :: "(block_sector_t \<Rightarrow> u8 list \<rightharpoonup> block_sector_t) \<Rightarrow> block_sector_t set \<Rightarrow> block_sector_t \<Rightarrow> u8 list list \<Rightarrow> block_sector_t option" where
  "resolve t T n [] = Some n"
| "resolve t T n (c # cs) = (case t n c of Some k \<Rightarrow> if k \<in> T then resolve t T k cs else None | None \<Rightarrow> None)"

abbreviation names :: "fs \<Rightarrow> block_sector_t \<Rightarrow> u8 list \<rightharpoonup> block_sector_t" where
  "names s \<equiv> \<lambda>n. dmap (contents s n)"

lemma extra_names: "extra R T s D s' \<Longrightarrow> n \<in> T \<Longrightarrow> dmap (contents s' n) = dmap (contents s n)"
  using tree_invD(2) by (fastforce simp: extra_def)

lemma refs_dir: "tree_inv R T s \<Longrightarrow> refs s a n \<Longrightarrow> inode_is_dir s a \<longleftrightarrow> n \<in> T"
  using tree_invD(6) by (auto simp: refs_def inode_is_dir_def ino_def)

lemma opens_extra_pos:
  assumes "extra R T s D s'" and "k \<in># D"
  shows "0 < opens s' k"
proof -
  have "open_ok R s" using assms(1) tree_invD(1) vol_okD(3) by (auto simp: extra_def)
  then have "0 \<le> opens s k" using opens_pos_iff[of R s k] opens_none[of R s k] by (fastforce simp: refs_def)
  then show ?thesis using assms by (simp add: extra_def) (metis count_greater_zero_iff of_nat_0_less_iff add_nonneg_pos)
qed

text \<open>A directory is left for the one found in it: the lookup, and the close of one of the two.\<close>

lemma step_found:
  assumes e: "extra R T s {#n#} s1" and a: "refs s1 (d_inode d) n" "n \<in> T" and z: "0 \<notin> set t" and m: "fresh_mem m"
    and k: "names s n t = Some k"
  shows "\<exists>j s2. dir_lookup m s1 d t = Inr (Some j, s2) \<and> tree_inv R T s2 \<and> refs s2 j k \<and> extra R T s {#n, k#} s2 \<and>
    (\<exists>s3. inode_close s2 (Some j) = Inr s3 \<and> extra R T s {#n#} s3 \<and> refs s3 (d_inode d) n) \<and>
    (\<exists>s3. inode_close s2 (Some (d_inode d)) = Inr s3 \<and> extra R T s {#k#} s3 \<and> refs s3 j k)"
proof -
  have inv: "tree_inv R T s1" using e by (simp add: extra_def)
  from lookup_extra[OF inv a z m] k extra_names[OF e a(2)] obtain j s2 where
    l: "dir_lookup m s1 d t = Inr (Some j, s2)" "extra R T s1 {#k#} s2" "refs s2 j k" by auto
  have e2: "extra R T s {#n, k#} s2" "extra R T s {#k, n#} s2" using extra_trans[OF e l(2)] by (simp_all add: add_mset_commute)
  have d2: "refs s2 (d_inode d) n" using l(2) a(1) by (simp add: extra_def)
  from close_extra[OF e2(2) l(3)] obtain s3 where
    "inode_close s2 (Some j) = Inr s3" "extra R T s {#n#} s3" "\<forall>b k. refs s2 b k \<and> 0 < opens s3 k \<longrightarrow> refs s3 b k" by blast
  moreover have "refs s3 (d_inode d) n" using calculation d2 opens_extra_pos[OF calculation(2), of n] by simp
  moreover from close_extra[OF e2(1) d2] obtain s4 where
    4: "inode_close s2 (Some (d_inode d)) = Inr s4" "extra R T s {#k#} s4" "\<forall>b k. refs s2 b k \<and> 0 < opens s4 k \<longrightarrow> refs s4 b k" by blast
  moreover have "refs s4 j k" using 4 l(3) opens_extra_pos[OF 4(2), of k] by simp
  ultimately show ?thesis using l e2(1) by (auto simp: extra_def)
qed

lemma step_missing:
  assumes e: "extra R T s {#n#} s1" and a: "refs s1 (d_inode d) n" "n \<in> T" and z: "0 \<notin> set t" and m: "fresh_mem m"
    and k: "names s n t = None"
  shows "\<exists>s2. dir_lookup m s1 d t = Inr (None, s2) \<and> extra R T s {#n#} s2 \<and> refs s2 (d_inode d) n \<and>
    (\<exists>s3. inode_close s2 (Some (d_inode d)) = Inr s3 \<and> extra R T s {#} s3)"
proof -
  have inv: "tree_inv R T s1" using e by (simp add: extra_def)
  from lookup_extra[OF inv a z m] k extra_names[OF e a(2)] obtain s2 where
    l: "dir_lookup m s1 d t = Inr (None, s2)" "extra R T s1 {#} s2" by auto
  have e2: "extra R T s {#n#} s2" using extra_trans[OF e l(2)] by simp
  have d2: "refs s2 (d_inode d) n" using l(2) a(1) by (simp add: extra_def)
  from close_extra[OF e2 d2] show ?thesis using l e2 d2 by auto
qed

lemma path_loop_ok:
  assumes "extra R T s {#n#} s1" and "refs s1 (d_inode d) n" and "n \<in> T" and m: "fresh_mem m" "\<forall>s. calloc_ok m s"
    and "\<forall>c \<in> set (t # ts). 0 \<notin> set c"
  shows "\<exists>r s'. path_loop m s1 (Some d) t ts = Inr (r, s') \<and> (case resolve (names s) T n (butlast (t # ts)) of
      None \<Rightarrow> r = None \<and> extra R T s {#} s'
    | Some k \<Rightarrow> extra R T s {#k#} s' \<and> (\<exists>d'. r = Some (d', last (t # ts)) \<and> refs s' (d_inode d') k \<and> k \<in> T))"
  using assms(1-3,6)
proof (induction ts arbitrary: s1 d n t)
  case Nil
  have z: "0 \<notin> set t" using Nil.prems(4) by simp
  show ?case
  proof (cases "names s n t")
    case None
    from step_missing[OF Nil.prems(1-3) z m(1) None] Nil.prems(3) show ?thesis by (auto simp: inode_close_def)
  next
    case (Some k)
    from step_found[OF Nil.prems(1-3) z m(1) Some] Nil.prems(3) show ?thesis by auto
  qed
next
  case (Cons t2 ts)
  have z: "0 \<notin> set t" and zs: "\<forall>c \<in> set (t2 # ts). 0 \<notin> set c" using Cons.prems(4) by simp_all
  show ?case
  proof (cases "names s n t")
    case None
    from step_missing[OF Cons.prems(1-3) z m(1) None] show ?thesis using None by (auto simp: inode_close_def dir_close_def)
  next
    case (Some k)
    from step_found[OF Cons.prems(1-3) z m(1) Some] obtain j s2 s3 where
      l: "dir_lookup m s1 d t = Inr (Some j, s2)" "tree_inv R T s2" "refs s2 j k"
      and c: "inode_close s2 (Some (d_inode d)) = Inr s3" "extra R T s {#k#} s3" "refs s3 j k" by blast
    show ?thesis
    proof (cases "k \<in> T")
      case True
      let ?d = "\<lparr>d_inode = j, d_pos = 2 * int ENTRY_SIZE\<rparr>"
      have "resolve (names s) T n (butlast (t # t2 # ts)) = resolve (names s) T k (butlast (t2 # ts))"
        "last (t # t2 # ts) = last (t2 # ts)" using Some True by simp_all
      moreover have "path_loop m s1 (Some d) t (t2 # ts) = path_loop m s3 (Some ?d) t2 ts"
        using l c(1) m(2) refs_dir[OF l(2,3)] True by (simp add: dir_open_def dir_close_def)
      moreover have "refs s3 (d_inode ?d) k" using c(3) by simp
      ultimately show ?thesis using Cons.IH[OF c(2) _ True zs, of ?d] by presburger
    next
      case False
      from close_extra[OF c(2,3)] show ?thesis
        using l c(1) refs_dir[OF l(2,3)] False Some by (auto simp: dir_close_def)
    qed
  qed
qed

text \<open>The components that \<open>filesys_path_to_dir\<close> walks, and where it starts.\<close>

definition comps :: "u8 list \<Rightarrow> u8 list list" where
  "comps pth = (if pth = [slash] then [[46]] else tokens {slash} pth)"

definition start_dir :: "u8 list \<Rightarrow> block_sector_t \<Rightarrow> block_sector_t" where
  "start_dir pth c = (if pth \<noteq> [] \<and> hd pth = slash then ROOT_DIR_SECTOR else c)"

definition parent_of :: "fs \<Rightarrow> block_sector_t set \<Rightarrow> block_sector_t \<Rightarrow> u8 list \<Rightarrow> block_sector_t option" where
  "parent_of s T c pth = (if comps pth = [] then None else resolve (names s) T (start_dir pth c) (butlast (comps pth)))"

lemma tokens_chars: "x \<in> set (tokens D xs) \<Longrightarrow> set x \<subseteq> set xs"
proof (induction D xs rule: tokens.induct)
  case (1 D xs)
  let ?ys = "dropWhile (\<lambda>b. b \<in> D) xs"
  have s: "set ?ys \<subseteq> set xs" "set (dropWhile (\<lambda>b. b \<notin> D) ?ys) \<subseteq> set ?ys" by (auto dest: set_dropWhileD)
  from "1.prems" have "?ys \<noteq> []" "x = takeWhile (\<lambda>b. b \<notin> D) ?ys \<or> x \<in> set (tokens D (dropWhile (\<lambda>b. b \<notin> D) ?ys))"
    by (subst (asm) tokens.simps; auto simp: Let_def split: if_splits)+
  then show ?case using "1.IH"[OF refl] s by (auto dest: set_takeWhileD)
qed

lemma open_root_extra:
  assumes "tree_inv R T s" and "fresh_mem m" and "\<forall>s. calloc_ok m s"
  shows "\<exists>d s'. dir_open_root m s = Inr (Some d, s') \<and> extra R T s {#ROOT_DIR_SECTOR#} s' \<and> refs s' (d_inode d) ROOT_DIR_SECTOR"
proof -
  note d = tree_invD[OF assms(1)]
  have "dom (inodes s) = set (open_inodes s)" using vol_okD(3)[OF d(1)] by (simp add: open_ok_def)
  then obtain b where b: "new_inode m s = Some b" "inodes s b = None" using assms(2) unfolding fresh_mem_def by blast
  have "ROOT_DIR_SECTOR \<in> R" using d(2,3) by blast
  from open_extra[OF assms(1) this b(2)] b(1) assms(3) show ?thesis by (auto simp: dir_open_root_def dir_open_def)
qed

lemma dir_reopen_extra:
  assumes "tree_inv R T s" and "refs s (d_inode d) n" and "\<forall>s. calloc_ok m s"
  shows "\<exists>d' s'. dir_reopen m s d = Inr (Some d', s') \<and> extra R T s {#n#} s' \<and> refs s' (d_inode d') n"
  using reopen_extra[OF assms(1,2)] assms(3) by (auto simp: dir_reopen_def dir_open_def)

lemma path_to_dir_ok:
  assumes inv: "tree_inv R T s" and c: "refs s (d_inode cwd) c" "c \<in> T" and m: "fresh_mem m" "\<forall>s. calloc_ok m s"
    and z: "0 \<notin> set pth"
  shows "\<exists>r s'. filesys_path_to_dir m s cwd pth = Inr (r, s') \<and> (case parent_of s T c pth of
      None \<Rightarrow> r = None \<and> extra R T s {#} s'
    | Some k \<Rightarrow> k \<in> T \<and> extra R T s {#k#} s' \<and> (\<exists>d. r = Some (d, last (comps pth)) \<and> refs s' (d_inode d) k))"
proof (cases "pth = [slash]")
  case True
  then show ?thesis using open_root_extra[OF inv m] tree_invD(3)[OF inv]
    by (auto simp: filesys_path_to_dir_def parent_of_def comps_def start_dir_def)
next
  case False
  let ?n = "start_dir pth c"
  have n: "?n \<in> T" using c(2) tree_invD(3)[OF inv] by (simp add: start_dir_def)
  obtain d s1 where d: "(if pth \<noteq> [] \<and> hd pth = slash then dir_open_root m s else dir_reopen m s cwd) = Inr (Some d, s1)"
    "extra R T s {#?n#} s1" "refs s1 (d_inode d) ?n"
    using open_root_extra[OF inv m] dir_reopen_extra[OF inv c(1) m(2)]
    by (cases "pth \<noteq> [] \<and> hd pth = slash") (auto simp: start_dir_def)
  show ?thesis
  proof (cases "tokens {slash} pth")
    case Nil
    from close_extra[OF d(2,3)] show ?thesis
      using Nil d(1) False by (auto simp: filesys_path_to_dir_def parent_of_def comps_def dir_close_def)
  next
    case (Cons t ts)
    have "\<forall>c \<in> set (t # ts). 0 \<notin> set c" using tokens_chars[of _ "{slash}" pth] Cons z by auto
    note loop = path_loop_ok[OF d(2,3) n m this]
    have pe: "filesys_path_to_dir m s cwd pth = path_loop m s1 (Some d) t ts"
      using Cons d(1) False by (simp add: filesys_path_to_dir_def del: path_loop.simps)
    have cm: "comps pth = t # ts" using Cons False by (simp add: comps_def)
    have po: "parent_of s T c pth = resolve (names s) T ?n (butlast (t # ts))" by (simp add: parent_of_def cm)
    show ?thesis unfolding pe cm po using loop
      by (cases "resolve (names s) T ?n (butlast (t # ts))") (simp_all only: option.simps, blast+)
  qed
qed

text \<open>
  (C13) Path resolution. In a well-formed tree of directories \<open>filesys_path_to_dir\<close> returns the
  directory that the components of the path but the last lead to, from the root for a path that begins with
  a slash and from the current directory otherwise, together with the last component; it fails exactly when
  a component is missing, is not a directory, or the path has no component. Nothing in the tree changes, and of all the
  inodes opened on the way exactly the returned directory's stays open, on failure none.
\<close>

theorem path_resolution:
  assumes inv: "tree_inv R T s" and c: "refs s (d_inode cwd) c" "c \<in> T" and m: "fresh_mem m" "\<forall>s. calloc_ok m s"
    and z: "0 \<notin> set pth"
  shows "\<exists>r s'. filesys_path_to_dir m s cwd pth = Inr (r, s') \<and> (case parent_of s T c pth of
      None \<Rightarrow> r = None \<and> extra R T s {#} s'
    | Some k \<Rightarrow> k \<in> T \<and> extra R T s {#k#} s' \<and> (\<exists>d. r = Some (d, last (comps pth)) \<and> refs s' (d_inode d) k))"
  using assms by (rule path_to_dir_ok)

section \<open>Opening files by name\<close>

text \<open>The file that a path names.\<close>

definition file_of :: "fs \<Rightarrow> block_sector_t set \<Rightarrow> block_sector_t \<Rightarrow> u8 list \<Rightarrow> block_sector_t option" where
  "file_of s T c pth = (case parent_of s T c pth of None \<Rightarrow> None | Some k \<Rightarrow> names s k (last (comps pth)))"

lemma comps_last: "comps pth \<noteq> [] \<Longrightarrow> 0 \<notin> set pth \<Longrightarrow> 0 \<notin> set (last (comps pth))"
  using tokens_chars[of "last (comps pth)" "{slash}" pth] by (auto simp: comps_def)

lemma filesys_open_ok:
  assumes inv: "tree_inv R T s" and c: "refs s (d_inode cwd) c" "c \<in> T" and m: "fresh_mem m" "\<forall>s. calloc_ok m s"
    and z: "0 \<notin> set pth"
  shows "\<exists>r s'. filesys_open m True s cwd pth = Inr (r, s') \<and> (case file_of s T c pth of
      None \<Rightarrow> r = None \<and> extra R T s {#} s'
    | Some n \<Rightarrow> extra R T s {#n#} s' \<and> (\<exists>f. r = Some f \<and> refs s' (f_inode f) n \<and> f_pos f = 0 \<and> \<not> f_deny f \<and>
        (\<exists>s''. file_close s' (Some f) = Inr s'' \<and> extra R T s {#} s'')))"
proof -
  from path_to_dir_ok[OF assms] obtain r s1 where p: "filesys_path_to_dir m s cwd pth = Inr (r, s1)"
    "case parent_of s T c pth of None \<Rightarrow> r = None \<and> extra R T s {#} s1
      | Some k \<Rightarrow> k \<in> T \<and> extra R T s {#k#} s1 \<and> (\<exists>d. r = Some (d, last (comps pth)) \<and> refs s1 (d_inode d) k)" by blast
  show ?thesis
  proof (cases "parent_of s T c pth")
    case None
    then show ?thesis using p by (simp add: filesys_open_def file_of_def)
  next
    case (Some k)
    then obtain d where d: "k \<in> T" "extra R T s {#k#} s1" "r = Some (d, last (comps pth))" "refs s1 (d_inode d) k" using p(2) by auto
    have zl: "0 \<notin> set (last (comps pth))" using comps_last[OF _ z] Some by (auto simp: parent_of_def split: if_splits)
    show ?thesis
    proof (cases "names s k (last (comps pth))")
      case None
      from step_missing[OF d(2,4,1) zl m(1) None] show ?thesis
        using p(1) Some d(3) None by (auto simp: filesys_open_def file_of_def dir_close_def)
    next
      case n: (Some n)
      from step_found[OF d(2,4,1) zl m(1) n] obtain j s2 s3 where
        l: "dir_lookup m s1 d (last (comps pth)) = Inr (Some j, s2)"
        "inode_close s2 (Some (d_inode d)) = Inr s3" "extra R T s {#n#} s3" "refs s3 j n" by blast
      have "filesys_open m True s cwd pth = Inr (Some \<lparr>f_inode = j, f_pos = 0, f_deny = False\<rparr>, s3)"
        using p(1) d(3) l m(2) by (simp add: filesys_open_def dir_close_def file_open_def)
      moreover from close_extra[OF l(3,4)] obtain s4 where "inode_close s3 (Some j) = Inr s4" "extra R T s {#} s4" by blast
      ultimately show ?thesis using Some n l(3,4) by (simp add: file_of_def file_close_def file_allow_write_def)
    qed
  qed
qed

text \<open>
  (C15) Opening by name: \<open>filesys_open\<close> returns a file at position 0 on the inode that the path names,
  and null exactly when the path names nothing. The tree is as before, the inode of the file has one more
  open and no other inode has, and \<open>file_close\<close> of the file takes this one away again.
\<close>

theorem filesys_open_close:
  assumes inv: "tree_inv R T s" and c: "refs s (d_inode cwd) c" "c \<in> T" and m: "fresh_mem m" "\<forall>s. calloc_ok m s"
    and z: "0 \<notin> set pth"
  shows "\<exists>r s'. filesys_open m True s cwd pth = Inr (r, s') \<and> (case file_of s T c pth of
      None \<Rightarrow> r = None \<and> extra R T s {#} s'
    | Some n \<Rightarrow> extra R T s {#n#} s' \<and> (\<exists>f. r = Some f \<and> refs s' (f_inode f) n \<and> f_pos f = 0 \<and> \<not> f_deny f \<and>
        (\<exists>s''. file_close s' (Some f) = Inr s'' \<and> extra R T s {#} s'')))"
  using assms by (rule filesys_open_ok)

section \<open>Changing the current directory\<close>

text \<open>
  (C16) Changing the directory. Seen from the state without the process's current directory,
  \<open>filesys_chdir\<close> exchanges the open of the old directory for one of the directory that the path names, and leaves
  the old one in place when the path names nothing. When the path names a plain file it also returns false, but the inode of the file
  stays open for ever: nobody closes what \<open>dir_lookup\<close> has opened.
\<close>

theorem filesys_chdir_moves:
  assumes e: "extra R T s0 {#c#} s" and c: "refs s (d_inode cwd) c" "c \<in> T" and m: "fresh_mem m" "\<forall>s. calloc_ok m s"
    and z: "0 \<notin> set pth" "pth \<noteq> []"
  shows "\<exists>s'. case file_of s T c pth of
      None \<Rightarrow> filesys_chdir m True s cwd pth = Inr (False, Some cwd, s') \<and> extra R T s0 {#c#} s'
    | Some n \<Rightarrow>
        if n \<in> T then (\<exists>d. filesys_chdir m True s cwd pth = Inr (True, Some d, s') \<and> refs s' (d_inode d) n \<and> extra R T s0 {#n#} s')
        else filesys_chdir m True s cwd pth = Inr (False, Some cwd, s') \<and> extra R T s0 {#c, n#} s'"
proof -
  have inv: "tree_inv R T s" using e by (simp add: extra_def)
  from path_to_dir_ok[OF inv c m z(1)] obtain r s1 where p: "filesys_path_to_dir m s cwd pth = Inr (r, s1)"
    "case parent_of s T c pth of None \<Rightarrow> r = None \<and> extra R T s {#} s1
      | Some k \<Rightarrow> k \<in> T \<and> extra R T s {#k#} s1 \<and> (\<exists>d. r = Some (d, last (comps pth)) \<and> refs s1 (d_inode d) k)" by blast
  show ?thesis
  proof (cases "parent_of s T c pth")
    case None
    then have "extra R T s0 {#c#} s1" using p(2) extra_trans[OF e] by fastforce
    then show ?thesis using None p z(2) by (auto simp: filesys_chdir_def file_of_def)
  next
    case (Some k)
    let ?l = "last (comps pth)"
    from p(2) Some obtain d where d: "k \<in> T" "extra R T s {#k#} s1" "r = Some (d, ?l)" "refs s1 (d_inode d) k" by auto
    have zl: "0 \<notin> set ?l" using comps_last[OF _ z(1)] Some by (auto simp: parent_of_def split: if_splits)
    have fo: "file_of s T c pth = names s k ?l" using Some by (simp add: file_of_def)
    show ?thesis
    proof (cases "names s k ?l")
      case None
      from step_missing[OF d(2,4,1) zl m(1) None] obtain s2 s3 where
        l: "dir_lookup m s1 d ?l = Inr (None, s2)" "inode_close s2 (Some (d_inode d)) = Inr s3" "extra R T s {#} s3" by blast
      then show ?thesis using p(1) d(3) fo None z(2) extra_trans[OF e l(3)] by (auto simp: filesys_chdir_def dir_close_def)
    next
      case n: (Some n)
      from step_found[OF d(2,4,1) zl m(1) n] obtain j s2 s3 where
        l: "dir_lookup m s1 d ?l = Inr (Some j, s2)" "tree_inv R T s2" "refs s2 j n"
        "inode_close s2 (Some (d_inode d)) = Inr s3" "extra R T s {#n#} s3" "refs s3 j n" by blast
      have e3: "extra R T s0 (add_mset c {#n#}) s3" using extra_trans[OF e l(5)] by (simp add: add_mset_commute)
      have c3: "refs s3 (d_inode cwd) c" using l(5) c(1) by (simp add: extra_def)
      from close_extra[OF e3 c3] obtain s4 where
        f: "inode_close s3 (Some (d_inode cwd)) = Inr s4" "extra R T s0 {#n#} s4" "\<forall>b k. refs s3 b k \<and> 0 < opens s4 k \<longrightarrow> refs s4 b k" by blast
      have j4: "refs s4 j n" using f(3) l(6) opens_extra_pos[OF f(2), of n] by simp
      show ?thesis
      proof (cases "n \<in> T")
        case True
        have "filesys_chdir m True s cwd pth = Inr (True, Some \<lparr>d_inode = j, d_pos = 2 * int ENTRY_SIZE\<rparr>, s4)"
          using p(1) d(3) l(1,4) m(2) f(1) z(2) refs_dir[OF l(2,3)] True by (simp add: filesys_chdir_def dir_open_def dir_close_def)
        then show ?thesis using fo n True f(2) j4 by (intro exI[of _ s4]) auto
      next
        case False
        then have "filesys_chdir m True s cwd pth = Inr (False, Some cwd, s3)"
          using p(1) d(3) l(1,4) z(2) refs_dir[OF l(2,3)] by (simp add: filesys_chdir_def dir_close_def)
        then show ?thesis using fo n False e3 by (intro exI[of _ s3]) simp
      qed
    qed
  qed
qed

section \<open>A small tree\<close>

text \<open>The volume of the directory theory in which sector 1, the root, is an empty directory and the directory in sector 2
  has it as its entry \<open>a\<close>.\<close>

definition demo_view :: "fs \<Rightarrow> bool" where
  "demo_view s \<longleftrightarrow> disk s 1 ! 504 = 1 \<and> disk s 2 ! 504 = 1 \<and> map_option removed (inodes s 10) = Some False \<and>
     contents s 1 = [] \<and> length (contents s 2) = 20"

lemma demo_view_entry: "demo_view (demo_entry_fs True)"
  by code_simp

lemma demo_tree: "tree_inv {1, 2} {1, 2} (demo_entry_fs True) \<and> refs (demo_entry_fs True) 10 2 \<and>
  names (demo_entry_fs True) 2 = [[97] \<mapsto> 1] \<and> names (demo_entry_fs True) 1 = Map.empty"
proof -
  let ?s = "demo_entry_fs True"
  obtain x where x: "dir_ready {1, 2} ?s 10 x" "i_sector x = 2" "dmap (contents ?s 2) = [[97] \<mapsto> 1]" "inodes ?s = [10 \<mapsto> x]"
    using demo_entry by blast
  have k: "disk ?s 1 ! 504 = 1" "disk ?s 2 ! 504 = 1" "map_option removed (inodes ?s 10) = Some False" "contents ?s 1 = []"
    using demo_view_entry by (simp_all add: demo_view_def)
  have n1: "dmap (contents ?s 1) = Map.empty" "dir_wf (contents ?s 1)" unfolding k(4) by (simp_all add: dmap_def dir_wf_def slots_def)
  have v: "vol_ok {1, 2} ?s" using x(1) by (simp add: dir_ready_def dir_at_def)
  have "file_len ?s 2 = i_length x" using file_len_open[OF vol_okD(3)[OF v], of 10 x] x(2,4) by simp
  moreover have "file_len ?s 1 = 0" using k(4) vol_okD(4)[OF v, of 1] by (simp add: contents_def len_ok_def)
  ultimately have "tree_inv {1, 2} {1, 2} ?s"
    using x v k n1 unfolding tree_inv_def dir_ready_def dir_at_def by (auto simp: mapped_def split: if_splits)
  then show ?thesis using x(2-4) n1(1) by (simp add: refs_def)
qed

lemma demo_comps: "comps [97] = [[97]]" "comps [97, slash, 98] = [[97], [98]]" "start_dir [97] c = c" "start_dir [97, slash, 98] c = c"
  by (simp_all add: comps_def start_dir_def tokens.simps Let_def)

theorem path_resolution_witness:
  "\<exists>d s'. filesys_path_to_dir demo_mem (demo_entry_fs True) demo_dir [97, slash, 98] = Inr (Some (d, [98]), s') \<and>
    refs s' (d_inode d) 1 \<and> extra {1, 2} {1, 2} (demo_entry_fs True) {#1#} s'"
  using path_resolution[of "{1, 2}" "{1, 2}" "demo_entry_fs True" demo_dir 2 demo_mem "[97, slash, 98]"] demo_tree demo_mem_fresh
  by (auto simp: parent_of_def demo_comps demo_mem_def)

theorem filesys_open_close_witness:
  "\<exists>f s'. filesys_open demo_mem True (demo_entry_fs True) demo_dir [97] = Inr (Some f, s') \<and> refs s' (f_inode f) 1 \<and> f_pos f = 0"
  using filesys_open_close[of "{1, 2}" "{1, 2}" "demo_entry_fs True" demo_dir 2 demo_mem "[97]"] demo_tree demo_mem_fresh
  by (auto simp: file_of_def parent_of_def demo_comps demo_mem_def)

theorem filesys_chdir_moves_witness:
  "\<exists>d s'. filesys_chdir demo_mem True (inode_reopen (demo_entry_fs True) 10) demo_dir [97] = Inr (True, Some d, s') \<and> refs s' (d_inode d) 1"
proof -
  let ?s = "inode_reopen (demo_entry_fs True) 10"
  have e: "extra {1, 2} {1, 2} (demo_entry_fs True) {#2#} ?s" "refs ?s (d_inode demo_dir) 2"
    using reopen_extra[of "{1, 2}" "{1, 2}" "demo_entry_fs True" 10 2] demo_tree by simp_all
  have "names ?s 2 = [[97] \<mapsto> 1]" using extra_names[OF e(1), of 2] demo_tree by simp
  then have "file_of ?s {1, 2} 2 [97] = Some 1" by (simp add: file_of_def parent_of_def demo_comps)
  then show ?thesis using filesys_chdir_moves[OF e, of demo_mem "[97]"] demo_mem_fresh by (auto simp: demo_mem_def)
qed

end
