(* ===== verification/Filesys_Create.thy ===== *)
theory Filesys_Create
  imports Filesys_Props
begin

text \<open>
  Creating a file by its path: the theorems that put together the walk over the path, the free map, the
  creation of the inode and the entry in the directory.
\<close>

section \<open>The new inode\<close>

lemma close_keeps:
  assumes "vol_ok R s" and "inodes s a = Some x" "\<not> removed x" and "inode_close s (Some a) = Inr s'"
  shows "keeps R s s'" and "dsize s' = dsize s"
proof -
  show "keeps R s s'" using close_trees[OF assms] path_places by (simp add: keeps_def)
  show "dsize s' = dsize s" using assms(3,4) unfolding inode_close_eq[OF assms(1,2)] by (auto simp: Let_def clean_def split: if_splits)
qed

lemma create_keeps:
  assumes ok: "vol_ok R s" and n: "n \<in> used s" "n \<noteq> 0" "n \<notin> R" "\<forall>m \<in> R. n \<notin> nodes (disk s) m"
    and len: "0 \<le> len" "len \<le> int (MAX_BLOCKS * 512)" and b: "inodes s b = None"
    and c: "inode_create s n len dir True (Some b) = Inr (True, s')"
  shows "keeps R s s'" and "disk s' n ! 504 = (if dir then 1 else 0)" and "dsize s' = dsize s"
proof -
  define s1 where "s1 = put_sector s n (new_inode_disk len dir)"
  note r = new_root[OF ok n len, where dir = dir, folded s1_def]
  have k1: "keeps R s s1" and d1: "disk s1 n ! 504 = (if dir then 1 else 0)" "dsize s1 = dsize s"
    using n(4) vol_okD(2)[OF ok] by (auto intro!: keeps_same simp: s1_def put_sector_def new_inode_words(4) tree_ok_def)
  have "keeps (insert n R) s1 s' \<and> dsize s' = dsize s1"
  proof (cases "len > 0")
    case False
    then show ?thesis using c len by (simp add: inode_create_def s1_def keeps_refl)
  next
    case True
    have b1: "inodes s1 b = None" using b by (simp add: s1_def put_sector_def)
    have nR: "n \<in> insert n R" by simp
    have nopen: "\<forall>c z. inodes s1 c = Some z \<longrightarrow> i_sector z \<noteq> n"
      using vol_okD(3)[OF ok] n(3) unfolding open_ok_def s1_def put_sector_def by auto
    from inode_open_vol[OF r(1) nR b1] nopen obtain s2 y where op: "inode_open s1 n (Some b) = Inr (Some b, s2)"
      "vol_ok (insert n R) s2" "disk s2 = disk s1" "inodes s2 = (inodes s1)(b \<mapsto> y)" "deny_write_cnt y = 0" "\<not> removed y" by auto
    have ds: "dsize s2 = dsize s1" using op(1) by (auto simp: inode_open_def inode_reopen_def res_iffs split: option.splits)
    have y: "inodes s2 b = Some y" using op(4) by simp
    have off: "0 \<le> len - 1" "len - 1 + int (length [0 :: u8]) \<le> int (MAX_BLOCKS * 512)" using True len by simp_all
    from inode_write_vol[OF op(2) y op(5) off] obtain k s3 dd l where
      w: "inode_write_at s2 b [0] (int (length [0 :: u8])) (len - 1) = Inr (int k, s3)" "vol_ok (insert n R) s3"
      "inodes s3 = (inodes s2)(b \<mapsto> y\<lparr>i_dirty := dd, i_length := l\<rparr>)" "dsize s3 = dsize s2" by blast
    have c3: "inode_close s3 (Some b) = Inr s'" using c op(1) w(1) True len by (simp add: inode_create_def s1_def res_iffs)
    have y3: "inodes s3 b = Some (y\<lparr>i_dirty := dd, i_length := l\<rparr>)" "\<not> removed (y\<lparr>i_dirty := dd, i_length := l\<rparr>)" using w(3) op(6) by simp_all
    have "keeps (insert n R) s2 s3" by (rule inode_write_keeps[OF op(2) y off w(1)])
    then show ?thesis using close_keeps[OF w(2) y3 c3] keeps_trans keeps_refl[OF op(3)] ds w(4) by metis
  qed
  then show "keeps R s s'" "disk s' n ! 504 = (if dir then 1 else 0)" "dsize s' = dsize s"
    using k1 d1 by (simp_all add: keeps_def)
qed

text \<open>The release of the sector of a new file that could not be entered.\<close>

lemma release_new:
  assumes ok: "vol_ok (insert n R) s" and n: "n \<notin> R" and no: "\<forall>a x. inodes s a = Some x \<longrightarrow> i_sector x \<noteq> n"
  shows "\<exists>s'. free_map_release s n 1 = Inr s' \<and> vol_ok R s' \<and> used s' = used s - {n} \<and> same_inodes s s' \<and> disk s' = disk s"
proof -
  have t: "tree_ok (used s) (disk s) n" using vol_okD(2)[OF ok] by blast
  have "n \<in> used s" "n \<noteq> 0" using tree_root[OF t] t by (simp_all add: tree_ok_def)
  from free_map_release_ok[OF vol_okD(1)[OF ok] this] obtain s' where
    r: "free_map_release s n 1 = Inr s'" "fs_ok s'" "same_inodes s s'" "disk s' = disk s" "used s' = used s - {n}" by blast
  have nn: "n \<in> nodes (disk s) n" using nodesI[OF Nil_places, of "disk s" n] \<open>n \<noteq> 0\<close> by (simp add: follow.simps)
  have "tree_ok (used s') (disk s') m" if m: "m \<in> R" for m
  proof -
    have "m \<noteq> n" using m n by blast
    then have "n \<notin> nodes (disk s) m" using vol_okD(5)[OF ok, of m n] m nn by blast
    then show ?thesis using vol_okD(2)[OF ok, of m] m r(4,5) unfolding tree_ok_def nodes_def by simp blast
  qed
  moreover have "file_len s' m = file_len s m" for m
    using r find_open_same[of s' s] by (auto simp: file_len_def ino_def same_inodes_def split: option.splits)
  then have "len_ok s' m = len_ok s m" for m using r(4) by (simp add: len_ok_def)
  moreover have "open_ok R s'" using vol_okD(3)[OF ok] r(3,4) no unfolding open_ok_def same_inodes_def by auto
  ultimately have "vol_ok R s'" using ok r(2,4) by (simp add: vol_ok_def vol_base_def)
  then show ?thesis using r by blast
qed

section \<open>Creating\<close>

text \<open>Allocation of the sector and creation of the inode: a new file in the tree, which no directory names yet.\<close>

lemma same_disk:
  assumes "same_inodes s s'" and "disk s' = disk s"
  shows "file_len s' n = file_len s n" and "contents s' n = contents s n" and "opens s' n = opens s n" and "refs s' = refs s"
proof -
  have f: "find_open s' (open_inodes s') n = find_open s (open_inodes s) n" "ino s' = ino s" for n
    using assms(1) find_open_same[of s' s] by (simp_all add: same_inodes_def ino_def fun_eq_iff)
  then show "file_len s' n = file_len s n" using assms(2) by (simp add: file_len_def split: option.split)
  then show "contents s' n = contents s n" using assms(2) by (simp add: contents_def)
  show "opens s' n = opens s n" using f by (simp add: opens_def split: option.split)
  show "refs s' = refs s" using assms(1) by (simp add: refs_def fun_eq_iff same_inodes_def)
qed

lemma opens_inodes:
  assumes "open_ok R s" and "open_ok R' s'" and "inodes s' = inodes s"
  shows "opens s' n = opens s n" and "refs s' = refs s"
proof -
  show "opens s' n = opens s n"
  proof (cases "\<exists>a x. inodes s a = Some x \<and> i_sector x = n")
    case True
    then show ?thesis using opens_open[OF assms(1)] opens_open[OF assms(2)] assms(3) by auto
  next
    case False
    then show ?thesis using opens_none[OF assms(1), of n] opens_none[OF assms(2), of n] assms(3) by auto
  qed
  show "refs s' = refs s" using assms(3) by (simp add: refs_def fun_eq_iff)
qed

lemma allocate_tree:
  assumes inv: "tree_inv R T s" and a: "free_map_allocate s 1 = Inr (r, s1)"
  shows "tree_inv R T s1" and "same_inodes s s1" and "disk s1 = disk s"
    and "r = None \<Longrightarrow> full s \<and> used s1 = used s"
    and "r = Some n \<Longrightarrow> n \<notin> R \<and> n \<noteq> 0 \<and> n \<in> used s1 \<and> (\<forall>m \<in> R. n \<notin> nodes (disk s1) m)"
proof -
  note D = tree_invD[OF inv]
  show u: "same_inodes s s1" "disk s1 = disk s" and "r = None \<Longrightarrow> full s \<and> used s1 = used s"
    using free_map_allocate_ok[OF vol_okD(1)[OF D(1)]] a by (auto split: option.splits)
  show "tree_inv R T s1"
  proof (rule tree_inv_cong[OF inv allocate_vol[OF D(1) a]])
    show "\<forall>a x. inodes s1 a = Some x \<longrightarrow> \<not> removed x \<and> (i_is_dir x \<longleftrightarrow> i_sector x \<in> T) \<and>
        (i_sector x \<in> T \<longrightarrow> \<not> i_locked x \<and> deny_write_cnt x = 0)"
      using D(5-7) u(1) by (simp add: same_inodes_def)
  qed (use same_disk[OF u] u(2) in simp_all)
  have sub: "nodes (disk s) m \<subseteq> used s" "m \<in> used s" if "m \<in> R" for m
    using vol_okD(2)[OF D(1) that] tree_root by (auto simp: tree_ok_def nodes_def)
  assume "r = Some n"
  then have "n \<notin> used s" "n \<noteq> 0" "n \<in> used s1" using free_map_allocate_ok[OF vol_okD(1)[OF D(1)]] a by auto
  then show "n \<notin> R \<and> n \<noteq> 0 \<and> n \<in> used s1 \<and> (\<forall>m \<in> R. n \<notin> nodes (disk s1) m)" using sub u(2) by auto
qed

lemma create_tree:
  assumes inv: "tree_inv R T s" and n: "n \<notin> R \<and> n \<noteq> 0 \<and> n \<in> used s \<and> (\<forall>m \<in> R. n \<notin> nodes (disk s) m)"
    and sz: "0 \<le> sz" "sz \<le> int (MAX_BLOCKS * 512)" and m: "fresh_mem m" "\<forall>s. calloc_ok m s"
  shows "\<exists>s'. inode_create s n sz False (calloc_ok m s) (new_inode m s) = Inr (True, s') \<and> tree_inv (insert n R) T s' \<and>
    contents s' n = replicate (nat sz) 0 \<and> (\<forall>j \<in> R. contents s' j = contents s j) \<and> inodes s' = inodes s \<and> dsize s' = dsize s"
proof -
  note D = tree_invD[OF inv]
  have "dom (inodes s) = set (open_inodes s)" using vol_okD(3)[OF D(1)] by (simp add: open_ok_def)
  then obtain b where b: "new_inode m s = Some b" "inodes s b = None" using m(1) unfolding fresh_mem_def by blast
  have n': "n \<in> used s" "n \<noteq> 0" "n \<notin> R" "\<forall>m \<in> R. n \<notin> nodes (disk s) m" using n by auto
  from inode_create_vol[OF D(1) n' sz b(2), where dir = False] obtain s' where
    c: "inode_create s n sz False True (Some b) = Inr (True, s')" "vol_ok (insert n R) s'" "contents s' n = replicate (nat sz) 0"
    "\<forall>j \<in> R. contents s' j = contents s j" "inodes s' = inodes s" by blast
  note k = create_keeps[OF D(1) n' sz b(2) c(1)]
  have "0 \<notin> T" using D(2) vol_okD(2)[OF D(1), of 0] by (auto simp: tree_ok_def)
  then have "tree_inv (insert n R) T s'"
    by (intro tree_inv_step[OF inv c(2) subset_insertI k(1), where k = 0]) (use k(2) c(4,5) D(2,5-7) n' in auto)
  then show ?thesis using c b(1) m(2) k(3) by auto
qed

text \<open>The entry in the directory.\<close>

lemma add_tree:
  assumes inv: "tree_inv R T s" and d: "refs s (d_inode d) k" "k \<in> T" and nm: "good_name name" "names s k name = None" and n: "n \<in> R"
    and room: "length (contents s k) + 20 \<le> MAX_BLOCKS * 512"
  shows "\<exists>ok s'. dir_add (replicate 20 0) s d name n = Inr (ok, s') \<and> vol_ok R s' \<and> (\<forall>j \<in> R. j \<noteq> k \<longrightarrow> contents s' j = contents s j) \<and>
    dsize s' = dsize s \<and> (\<forall>j. opens s' j = opens s j) \<and> refs s' = refs s \<and> (\<forall>a x. inodes s' a = Some x \<longrightarrow> \<not> removed x) \<and>
    (if ok then tree_inv R T s' \<and> names s' k = (names s k)(name \<mapsto> n) else full s')"
proof -
  note D = tree_invD[OF inv]
  obtain x where x: "inodes s (d_inode d) = Some x" "i_sector x = k" using d(1) by (auto simp: refs_def)
  have r: "dir_ready R s (d_inode d) x" using tree_dir_ready[OF inv x(1)] x(2) d(2) by simp
  have "i_length x + 20 \<le> int (MAX_BLOCKS * 512)" using contents_length(1)[OF D(1) x(1), unfolded x(2)] room by linarith
  from dir_add_strong[OF r refl nm(1) _ this, of "replicate 20 0" n] nm(2) x(2) obtain ok s' dd l where
    a: "dir_add (replicate 20 0) s d name n = Inr (ok, s')" "vol_ok R s'" "\<forall>j \<in> R. j \<noteq> k \<longrightarrow> contents s' j = contents s j"
    "keeps R s s'" "dsize s' = dsize s" and i: "inodes s' = (inodes s)(d_inode d \<mapsto> x\<lparr>i_dirty := dd, i_length := l\<rparr>)"
    and p: "ok \<longrightarrow> dir_ready R s' (d_inode d) (x\<lparr>i_dirty := dd, i_length := l\<rparr>) \<and> names s' k = (names s k)(name \<mapsto> n)"
    "\<not> ok \<longrightarrow> full s'" by auto
  have o: "open_ok R s" "open_ok R s'" using vol_okD(3)[OF D(1)] vol_okD(3)[OF a(2)] .
  have ops: "opens s' j = opens s j" for j
    using opens_upd[OF o i, of k j] x opens_open[OF o(1) x(1)] by simp
  have rf: "refs s' = refs s" using i x by (auto simp: refs_def fun_eq_iff)
  have cond: "\<forall>a x. inodes s' a = Some x \<longrightarrow> \<not> removed x \<and> (i_is_dir x \<longleftrightarrow> i_sector x \<in> T) \<and>
        (i_sector x \<in> T \<longrightarrow> \<not> i_locked x \<and> deny_write_cnt x = 0)"
    using D(5-7) i x(1) by auto
  have "tree_inv R T s'" if ok
  proof (rule tree_inv_step[OF inv a(2) subset_refl a(4) _ _ _ cond, where k = k])
    have rd: "dir_ready R s' (d_inode d) (x\<lparr>i_dirty := dd, i_length := l\<rparr>)" using p(1) that by blast
    have "file_len s' k = l" using file_len_open[OF o(2), of "d_inode d" "x\<lparr>i_dirty := dd, i_length := l\<rparr>"] i x(2) by simp
    moreover have "ran ((names s k)(name \<mapsto> n)) \<subseteq> R" using D(9)[OF d(2)] n nm(2) by (auto simp: ran_def)
    ultimately show "k \<in> T \<longrightarrow> dir_wf (contents s' k) \<and> ran (names s' k) \<subseteq> R \<and> mapped (disk s') k 0 (file_len s' k)"
      using rd p(1) that x(2) by (auto simp: dir_ready_def dir_at_def)
    show "\<forall>m \<in> T. m \<noteq> k \<longrightarrow> contents s' m = contents s m" using a(3) D(2) by blast
  qed simp
  then show ?thesis using a p ops rf cond by (intro exI[of _ ok] exI[of _ s']) auto
qed

lemma create_in_ok:
  assumes inv: "tree_inv R T s" and d: "refs s (d_inode d) k" "k \<in> T" and nm: "good_name name" "names s k name = None"
    and room: "length (contents s k) + 20 \<le> MAX_BLOCKS * 512" and sz: "0 \<le> sz" "sz \<le> int (MAX_BLOCKS * 512)"
    and m: "fresh_mem m" "\<forall>s. calloc_ok m s"
  shows "\<exists>ok s'. create_in m (replicate 20 0) s d name sz = Inr (ok, s') \<and>
    (if ok then (\<exists>n. n \<notin> R \<and> tree_inv (insert n R) T s' \<and> contents s' n = replicate (nat sz) 0 \<and>
       (\<forall>j \<in> R. j \<noteq> k \<longrightarrow> contents s' j = contents s j) \<and> names s' k = (names s k)(name \<mapsto> n) \<and>
       (\<forall>j. opens s' j = opens s j - (if j = k then 1 else 0)) \<and> (\<forall>b j. refs s b j \<and> 0 < opens s' j \<longrightarrow> refs s' b j))
     else (\<exists>n. \<forall>x < dsize s. x \<in> used s' \<or> x = n))"
proof -
  note D = tree_invD[OF inv]
  obtain r s1 where a: "free_map_allocate s 1 = Inr (r, s1)" using free_map_allocate_ok[OF vol_okD(1)[OF D(1)]] by blast
  note al = allocate_tree[OF inv a]
  have s1: "refs s1 = refs s" "\<And>j. opens s1 j = opens s j" "\<And>j. contents s1 j = contents s j" "dsize s1 = dsize s"
    using same_disk[OF al(2,3)] al(2) by (simp_all add: same_inodes_def)
  show ?thesis
  proof (cases r)
    case None
    have "refs s1 (d_inode d) k" using d(1) s1(1) by simp
    from close_step[OF al(1) this] obtain s2 where "inode_close s1 (Some (d_inode d)) = Inr s2" "used s2 = used s1" by blast
    then show ?thesis using a None al(4)[OF None] by (auto simp: create_in_def dir_close_def full_def)
  next
    case (Some n)
    from create_tree[OF al(1) al(5)[OF Some] sz m] obtain s2 where
      c: "inode_create s1 n sz False (calloc_ok m s1) (new_inode m s1) = Inr (True, s2)" "tree_inv (insert n R) T s2"
      "contents s2 n = replicate (nat sz) 0" "\<forall>j \<in> R. contents s2 j = contents s1 j" "inodes s2 = inodes s1" "dsize s2 = dsize s1" by blast
    note D2 = tree_invD[OF c(2)]
    have o: "open_ok R s1" "open_ok (insert n R) s2" using vol_okD(3)[OF tree_invD(1)[OF al(1)]] vol_okD(3)[OF D2(1)] .
    note oi = opens_inodes[OF o c(5)]
    have kR: "k \<in> R" "n \<noteq> k" "n \<notin> R" "n \<noteq> 0" using d(2) D(2) al(5)[OF Some] by auto
    have nk: "contents s2 k = contents s k" using c(4) s1(3) kR by simp
    have d2: "refs s2 (d_inode d) k" using d(1) s1(1) oi(2) by simp
    from add_tree[OF c(2) d2 d(2) nm(1), of n] nm(2) room nk obtain ok s3 where
      e: "dir_add (replicate 20 0) s2 d name n = Inr (ok, s3)" "vol_ok (insert n R) s3"
      "\<forall>j \<in> insert n R. j \<noteq> k \<longrightarrow> contents s3 j = contents s2 j" "dsize s3 = dsize s2" "\<forall>j. opens s3 j = opens s2 j" "refs s3 = refs s2"
      "\<forall>a x. inodes s3 a = Some x \<longrightarrow> \<not> removed x"
      "if ok then tree_inv (insert n R) T s3 \<and> names s3 k = (names s2 k)(name \<mapsto> n) else full s3" by auto
    show ?thesis
    proof (cases ok)
      case True
      have d3: "refs s3 (d_inode d) k" using d2 e(6) by simp
      have inv3: "tree_inv (insert n R) T s3" using e(8) True by simp
      from close_step[OF inv3 d3] obtain s4 where
        f: "inode_close s3 (Some (d_inode d)) = Inr s4" "tree_inv (insert n R) T s4" "\<forall>j \<in> insert n R. contents s4 j = contents s3 j"
        "\<forall>j. opens s4 j = opens s3 j - (if j = k then 1 else 0)" "\<forall>b j. refs s3 b j \<and> 0 < opens s4 j \<longrightarrow> refs s4 b j" by blast
      have "create_in m (replicate 20 0) s d name sz = Inr (True, s4)"
        using a Some c(1) e(1) True f(1) by (simp add: create_in_def dir_close_def)
      moreover have "names s4 k = (names s k)(name \<mapsto> n)" using f(3) kR e(8) True nk by simp
      moreover have "contents s4 n = replicate (nat sz) 0" "\<forall>j \<in> R. j \<noteq> k \<longrightarrow> contents s4 j = contents s j"
        using f(3) e(3) c(3,4) s1(3) kR by auto
      moreover have "\<forall>j. opens s4 j = opens s j - (if j = k then 1 else 0)" "refs s3 = refs s"
        using f(4) e(5,6) oi s1 by simp_all
      ultimately show ?thesis using f(2,5) kR(3) by (intro exI[of _ True] exI[of _ s4]) auto
    next
      case False
      have "\<forall>a x. inodes s3 a = Some x \<longrightarrow> i_sector x \<noteq> n"
      proof (intro allI impI)
        fix a x assume "inodes s3 a = Some x"
        then have "refs s2 a (i_sector x)" using e(6) by (metis refs_def)
        then have "i_sector x \<in> R" using c(5) o(1) unfolding refs_def open_ok_def by metis
        then show "i_sector x \<noteq> n" using kR(3) by blast
      qed
      from release_new[OF e(2) kR(3) this] obtain s4 where
        f: "free_map_release s3 n 1 = Inr s4" "vol_ok R s4" "used s4 = used s3 - {n}" "same_inodes s3 s4" by blast
      have "refs s3 (d_inode d) k" using d2 e(6) by simp
      then have "refs s4 (d_inode d) k" using f(4) by (simp add: refs_def same_inodes_def)
      then obtain y where y: "inodes s4 (d_inode d) = Some y" by (auto simp: refs_def)
      then have "\<not> removed y" using e(7) f(4) by (simp add: same_inodes_def)
      with inode_close_vol[OF f(2) y] obtain s5 where "inode_close s4 (Some (d_inode d)) = Inr s5" "used s5 = used s4" by blast
      moreover have "full s3" using e(8) False by simp
      ultimately show ?thesis using a Some c(1,6) e(1,4) False f(1,3) kR(4) s1(4)
        by (intro exI[of _ False] exI[of _ s5]) (auto simp: create_in_def dir_close_def full_def)
    qed
  qed
qed

text \<open>A new name does not change where a path leads that could be followed before.\<close>

lemma resolve_mono: "resolve t T n cs = Some k \<Longrightarrow> \<forall>n. t n \<subseteq>\<^sub>m t' n \<Longrightarrow> resolve t' T n cs = Some k"
proof (induction cs arbitrary: n)
  case (Cons c cs)
  from Cons.prems(1) obtain j where j: "t n c = Some j" "j \<in> T" "resolve t T j cs = Some k" by (auto split: option.splits if_splits)
  then have "t' n c = Some j" using Cons.prems(2) by (metis domI map_le_def)
  then show ?case using j Cons.IH[OF j(3) Cons.prems(2)] by simp
qed simp

lemma file_of_new:
  assumes p: "parent_of s T c pth = Some k" and nm: "names s k (last (comps pth)) = None"
    and n: "names s' k = (names s k)(last (comps pth) \<mapsto> n)" and o: "\<forall>j \<in> R. j \<noteq> k \<longrightarrow> contents s' j = contents s j"
    and T: "T \<subseteq> R" "start_dir pth c \<in> T"
  shows "file_of s' T c pth = Some n"
proof -
  have cong: "resolve t T j cs = resolve (\<lambda>n. if n \<in> T then t n else Map.empty) T j cs" if "j \<in> T" for t j cs
    using that by (induction cs arbitrary: j) (auto split: option.split)
  let ?f = "\<lambda>s n. if n \<in> T then names s n else Map.empty"
  have "\<forall>j. ?f s j \<subseteq>\<^sub>m ?f s' j"
  proof
    fix j show "?f s j \<subseteq>\<^sub>m ?f s' j"
      using n nm o T(1) by (cases "j = k") (auto simp: map_le_def)
  qed
  then have "parent_of s' T c pth = Some k"
    using p resolve_mono[of "?f s" T "start_dir pth c" "butlast (comps pth)" k "?f s'"] cong[OF T(2)]
    by (auto simp: parent_of_def split: if_splits)
  then show ?thesis using n by (simp add: file_of_def)
qed

text \<open>
  (C14) Creating a file. When the directory part of a path leads to a directory \<open>k\<close> that has no
  entry with the last component, a valid name, \<open>filesys_create\<close> adds exactly this entry, for a file that did not exist
  before, of the size asked for and full of zeros: the path then names it, every other file and directory is as it
  was, and no inode is left open. It can fail only because the device has no free sector left, but possibly the one it gives back.
  A path that leads nowhere makes it return false and change nothing.
\<close>

theorem filesys_create_correct:
  assumes inv: "tree_inv R T s" and c: "refs s (d_inode cwd) c" "c \<in> T" and m: "fresh_mem m" "\<forall>s. calloc_ok m s"
    and z: "0 \<notin> set pth" "pth \<noteq> []" and sz: "0 \<le> sz" "sz \<le> int (MAX_BLOCKS * 512)"
  shows "case parent_of s T c pth of
      None \<Rightarrow> \<exists>s'. filesys_create m True (replicate 20 0) s cwd pth sz = Inr (False, s') \<and> extra R T s {#} s'
    | Some k \<Rightarrow> good_name (last (comps pth)) \<and> names s k (last (comps pth)) = None \<and> length (contents s k) + 20 \<le> MAX_BLOCKS * 512 \<longrightarrow>
        (\<exists>ok s'. filesys_create m True (replicate 20 0) s cwd pth sz = Inr (ok, s') \<and>
          (if ok then \<exists>n. n \<notin> R \<and> tree_inv (insert n R) T s' \<and> file_of s' T c pth = Some n \<and> contents s' n = replicate (nat sz) 0 \<and>
             names s' k = (names s k)(last (comps pth) \<mapsto> n) \<and> (\<forall>j \<in> R. j \<noteq> k \<longrightarrow> contents s' j = contents s j) \<and>
             (\<forall>j. opens s' j = opens s j) \<and> refs s' (d_inode cwd) c
           else \<exists>n. \<forall>x < dsize s. x \<in> used s' \<or> x = n))"
proof -
  from path_to_dir_ok[OF inv c m z(1)] obtain r s1 where p: "filesys_path_to_dir m s cwd pth = Inr (r, s1)"
    "case parent_of s T c pth of None \<Rightarrow> r = None \<and> extra R T s {#} s1
      | Some k \<Rightarrow> k \<in> T \<and> extra R T s {#k#} s1 \<and> (\<exists>d. r = Some (d, last (comps pth)) \<and> refs s1 (d_inode d) k)" by blast
  show ?thesis
  proof (cases "parent_of s T c pth")
    case None
    then show ?thesis using p z(2) by (simp add: filesys_create_def dir_close_def)
  next
    case (Some k)
    let ?l = "last (comps pth)"
    from p(2) Some obtain d where d: "k \<in> T" "extra R T s {#k#} s1" "r = Some (d, ?l)" "refs s1 (d_inode d) k" by auto
    have inv1: "tree_inv R T s1" and ds: "dsize s1 = dsize s" and cs: "\<forall>j \<in> R. contents s1 j = contents s j"
      and op1: "\<And>j. opens s1 j = opens s j + (if j = k then 1 else 0)" and r1: "refs s1 (d_inode cwd) c"
      using d(2) c(1) by (auto simp: extra_def)
    have kR: "k \<in> R" and TR: "T \<subseteq> R" using d(1) tree_invD(2)[OF inv] by auto
    have fc: "filesys_create m True (replicate 20 0) s cwd pth sz = create_in m (replicate 20 0) s1 d ?l sz"
      using p(1) d(3) z(2) by (simp add: filesys_create_def)
    have st: "start_dir pth c \<in> T" using c(2) tree_invD(3)[OF inv] by (simp add: start_dir_def)
    have opc: "0 < opens s c" using opens_pos_iff[OF vol_okD(3)[OF tree_invD(1)[OF inv]]] c(1) by blast
    show ?thesis
    proof (simp only: Some option.simps, intro impI)
      assume h: "good_name ?l \<and> names s k ?l = None \<and> length (contents s k) + 20 \<le> MAX_BLOCKS * 512"
      then have "good_name ?l" "names s1 k ?l = None" "length (contents s1 k) + 20 \<le> MAX_BLOCKS * 512" using cs kR by auto
      from create_in_ok[OF inv1 d(4,1) this sz m] obtain ok s' where
        r: "create_in m (replicate 20 0) s1 d ?l sz = Inr (ok, s')"
        "if ok then (\<exists>n. n \<notin> R \<and> tree_inv (insert n R) T s' \<and> contents s' n = replicate (nat sz) 0 \<and>
           (\<forall>j \<in> R. j \<noteq> k \<longrightarrow> contents s' j = contents s1 j) \<and> names s' k = (names s1 k)(?l \<mapsto> n) \<and>
           (\<forall>j. opens s' j = opens s1 j - (if j = k then 1 else 0)) \<and> (\<forall>b j. refs s1 b j \<and> 0 < opens s' j \<longrightarrow> refs s' b j))
         else (\<exists>n. \<forall>x < dsize s1. x \<in> used s' \<or> x = n)" by blast
      show "\<exists>ok s'. filesys_create m True (replicate 20 0) s cwd pth sz = Inr (ok, s') \<and>
          (if ok then \<exists>n. n \<notin> R \<and> tree_inv (insert n R) T s' \<and> file_of s' T c pth = Some n \<and> contents s' n = replicate (nat sz) 0 \<and>
             names s' k = (names s k)(?l \<mapsto> n) \<and> (\<forall>j \<in> R. j \<noteq> k \<longrightarrow> contents s' j = contents s j) \<and>
             (\<forall>j. opens s' j = opens s j) \<and> refs s' (d_inode cwd) c
           else \<exists>n. \<forall>x < dsize s. x \<in> used s' \<or> x = n)"
      proof (cases ok)
        case True
        with r(2) obtain n where n: "n \<notin> R" "tree_inv (insert n R) T s'" "contents s' n = replicate (nat sz) 0"
          "\<forall>j \<in> R. j \<noteq> k \<longrightarrow> contents s' j = contents s1 j" "names s' k = (names s1 k)(?l \<mapsto> n)"
          "\<forall>j. opens s' j = opens s1 j - (if j = k then 1 else 0)" "\<forall>b j. refs s1 b j \<and> 0 < opens s' j \<longrightarrow> refs s' b j" by auto
        have q: "names s' k = (names s k)(?l \<mapsto> n)" "\<forall>j \<in> R. j \<noteq> k \<longrightarrow> contents s' j = contents s j" "\<forall>j. opens s' j = opens s j"
          using n(4-6) cs kR op1 by simp_all
        have "refs s' (d_inode cwd) c" using n(7) r1 q(3) opc by simp
        moreover have "file_of s' T c pth = Some n" by (rule file_of_new[OF Some _ q(1,2) TR st]) (use h in blast)
        ultimately show ?thesis using fc r(1) True n(1-3) q by (intro exI[of _ True] exI[of _ s']) auto
      next
        case False
        then show ?thesis using fc r ds by (intro exI[of _ False] exI[of _ s']) simp
      qed
    qed
  qed
qed

theorem filesys_create_correct_witness:
  "\<exists>ok s'. filesys_create demo_mem True (replicate 20 0) (demo_entry_fs True) demo_dir [98] 700 = Inr (ok, s') \<and>
    (ok \<longrightarrow> (\<exists>n. n \<notin> {1, 2} \<and> file_of s' {1, 2} 2 [98] = Some n \<and> contents s' n = replicate 700 0))"
proof -
  let ?s = "demo_entry_fs True"
  have t: "tree_inv {1, 2} {1, 2} ?s" "refs ?s (d_inode demo_dir) 2" "names ?s 2 = [[97] \<mapsto> 1]" using demo_tree by simp_all
  have c: "comps [98] = [[98]]" "start_dir [98] 2 = 2" by (simp_all add: comps_def start_dir_def tokens.simps Let_def)
  have p: "parent_of ?s {1, 2} 2 [98] = Some 2" by (simp add: parent_of_def c)
  have "length (contents ?s 2) = 20" using demo_view_entry by (simp add: demo_view_def)
  then have "good_name (last (comps [98])) \<and> names ?s 2 (last (comps [98])) = None \<and> length (contents ?s 2) + 20 \<le> MAX_BLOCKS * 512"
    using t(3) by (simp add: c good_name_def)
  then obtain ok s' where "filesys_create demo_mem True (replicate 20 0) ?s demo_dir [98] 700 = Inr (ok, s')"
    "if ok then \<exists>n. n \<notin> {1, 2} \<and> file_of s' {1, 2} 2 [98] = Some n \<and> contents s' n = replicate 700 0 else True"
    using filesys_create_correct[OF t(1,2) _ demo_mem_fresh, of "[98]" 700] unfolding p option.case by (fastforce simp: demo_mem_def split: if_splits)
  then show ?thesis by (cases ok) auto
qed

end
