(* ===== verification/Pagedir.thy ===== *)
theory Pagedir
  imports Kernel_Prelude
begin

text \<open>
  Two-level page tables, \<open>userprog/pagedir.c\<close>, with the address arithmetic of \<open>threads/vaddr.h\<close>
  and the entry format of \<open>threads/pte.h\<close>. The state \<open>mmu\<close> holds the pages of memory that are used
  as page directories or page tables, each an array of 1024 words found at its kernel virtual address, the page
  directory base register, and the number of times it has been loaded, which is when the processor
  forgets its cached translations. A pointer to an entry is a page and an index. What
  \<open>palloc_get_page\<close> returns is an argument.

  The lemmas show that a page directory is a map from user pages to entries (\<open>entry\<close>), of which each operation
  changes exactly one, as long as its page tables are different pages (\<open>pd_ok\<close>).
\<close>

unbundle bit_operations_syntax

section \<open>Addresses\<close>

abbreviation PHYS_BASE :: u32 where "PHYS_BASE \<equiv> 0xc0000000"
abbreviation PGMASK :: u32 where "PGMASK \<equiv> 0xfff"
abbreviation PTMASK :: u32 where "PTMASK \<equiv> 0x3ff000"
abbreviation PTE_ADDR :: u32 where "PTE_ADDR \<equiv> 0xfffff000"
abbreviation PTE_P :: u32 where "PTE_P \<equiv> 0x1"
abbreviation PTE_W :: u32 where "PTE_W \<equiv> 0x2"
abbreviation PTE_U :: u32 where "PTE_U \<equiv> 0x4"
abbreviation PTE_A :: u32 where "PTE_A \<equiv> 0x20"
abbreviation PTE_D :: u32 where "PTE_D \<equiv> 0x40"
abbreviation PTE_G :: u32 where "PTE_G \<equiv> 0x100"

definition pg_ofs :: "u32 \<Rightarrow> u32" where
  "pg_ofs va = va AND PGMASK"

definition pg_no :: "u32 \<Rightarrow> u32" where
  "pg_no va = drop_bit 12 va"

definition pg_round_up :: "u32 \<Rightarrow> u32" where
  "pg_round_up va = (va + 0x1000 - 1) AND NOT PGMASK"

definition pg_round_down :: "u32 \<Rightarrow> u32" where
  "pg_round_down va = va AND NOT PGMASK"

definition is_user_vaddr :: "u32 \<Rightarrow> bool" where
  "is_user_vaddr vaddr \<longleftrightarrow> vaddr < PHYS_BASE"

definition is_kernel_vaddr :: "u32 \<Rightarrow> bool" where
  "is_kernel_vaddr vaddr \<longleftrightarrow> PHYS_BASE \<le> vaddr"

definition ptov :: "u32 \<Rightarrow> u32 res" where
  "ptov paddr = asrt ''ptov'' (paddr < PHYS_BASE) (Inr (paddr + PHYS_BASE))"

definition vtop :: "u32 \<Rightarrow> u32 res" where
  "vtop vaddr = asrt ''vtop'' (is_kernel_vaddr vaddr) (Inr (vaddr - PHYS_BASE))"

definition pt_no :: "u32 \<Rightarrow> nat" where
  "pt_no va = unat (drop_bit 12 (va AND PTMASK))"

definition pd_no :: "u32 \<Rightarrow> nat" where
  "pd_no va = unat (drop_bit 22 va)"

definition pde_create_user :: "u32 \<Rightarrow> u32 res" where
  "pde_create_user pt = asrt ''pde_create_user'' (pg_ofs pt = 0) (bnd (vtop pt) (\<lambda>p. Inr (p OR PTE_U OR PTE_P OR PTE_W)))"

definition pde_get_pt :: "u32 \<Rightarrow> u32 res" where
  "pde_get_pt pde = asrt ''pde_get_pt'' (pde AND PTE_P \<noteq> 0) (ptov (pde AND PTE_ADDR))"

definition pte_create_kernel :: "u32 \<Rightarrow> bool \<Rightarrow> u32 res" where
  "pte_create_kernel page writable = asrt ''pte_create_kernel'' (pg_ofs page = 0) (
     bnd (vtop page) (\<lambda>p. Inr (p OR PTE_P OR (if writable then PTE_W else 0) OR PTE_G)))"

definition pte_create_user :: "u32 \<Rightarrow> bool \<Rightarrow> u32 res" where
  "pte_create_user page writable = asrt ''pte_create_user'' (pg_ofs page = 0) (
     bnd (vtop page) (\<lambda>p. Inr (p OR PTE_P OR (if writable then PTE_W else 0) OR PTE_U)))"

definition pte_get_page :: "u32 \<Rightarrow> u32 res" where
  "pte_get_page pte = ptov (pte AND PTE_ADDR)"

section \<open>Operations\<close>

record mmu =
  tables :: "u32 \<Rightarrow> u32 list"
  cr3 :: u32
  cr3_loads :: nat
  init_page_dir :: u32
  init_ram_pages :: u32

type_synonym pte_ptr = "u32 \<times> nat"

definition load :: "mmu \<Rightarrow> pte_ptr \<Rightarrow> u32 res" where
  "load m p = (case p of (pg, i) \<Rightarrow> if i < length (tables m pg) then Inr (tables m pg ! i) else Inl (Fault ''page table''))"

definition store :: "mmu \<Rightarrow> pte_ptr \<Rightarrow> u32 \<Rightarrow> mmu" where
  "store m p v = (case p of (pg, i) \<Rightarrow> m\<lparr>tables := (tables m)(pg := (tables m pg)[i := v])\<rparr>)"

definition pagedir_activate :: "mmu \<Rightarrow> u32 \<Rightarrow> mmu res" where
  "pagedir_activate m pd =
     bnd (vtop (if pd = 0 then init_page_dir m else pd)) (\<lambda>p.
     Inr (m\<lparr>cr3 := p, cr3_loads := cr3_loads m + 1\<rparr>))"

definition active_pd :: "mmu \<Rightarrow> u32 res" where
  "active_pd m = ptov (cr3 m)"

definition invalidate_pagedir :: "mmu \<Rightarrow> u32 \<Rightarrow> mmu res" where
  "invalidate_pagedir m pd = bnd (active_pd m) (\<lambda>a. if a = pd then pagedir_activate m pd else Inr m)"

text \<open>\<open>alloc\<close> is the page that \<open>palloc_get_page\<close> returns, 0 for none.\<close>

definition pagedir_create :: "mmu \<Rightarrow> u32 \<Rightarrow> u32 \<times> mmu" where
  "pagedir_create m alloc =
     (if alloc \<noteq> 0 then (alloc, m\<lparr>tables := (tables m)(alloc := tables m (init_page_dir m))\<rparr>) else (0, m))"

definition lookup_page :: "mmu \<Rightarrow> u32 \<Rightarrow> u32 \<Rightarrow> bool \<Rightarrow> u32 \<Rightarrow> (pte_ptr option \<times> mmu) res" where
  "lookup_page m pd vaddr create alloc =
     asrt ''lookup_page'' (pd \<noteq> 0) (asrt ''lookup_page'' (\<not> create \<or> is_user_vaddr vaddr) (
     bnd (load m (pd, pd_no vaddr)) (\<lambda>pde.
     if pde = 0 then
       if create then
         if alloc = 0 then Inr (None, m)
         else bnd (pde_create_user alloc) (\<lambda>pde.
              let m = store (m\<lparr>tables := (tables m)(alloc := replicate 1024 0)\<rparr>) (pd, pd_no vaddr) pde in
              bnd (pde_get_pt pde) (\<lambda>pt. Inr (Some (pt, pt_no vaddr), m)))
       else Inr (None, m)
     else bnd (pde_get_pt pde) (\<lambda>pt. Inr (Some (pt, pt_no vaddr), m)))))"

definition pagedir_set_page :: "mmu \<Rightarrow> u32 \<Rightarrow> u32 \<Rightarrow> u32 \<Rightarrow> bool \<Rightarrow> u32 \<Rightarrow> (bool \<times> mmu) res" where
  "pagedir_set_page m pd upage kpage writable alloc =
     asrt ''pagedir_set_page'' (pg_ofs upage = 0) (asrt ''pagedir_set_page'' (pg_ofs kpage = 0) (
     asrt ''pagedir_set_page'' (is_user_vaddr upage) (
     bnd (vtop kpage) (\<lambda>p.
     asrt ''pagedir_set_page'' (drop_bit 12 p < init_ram_pages m) (
     asrt ''pagedir_set_page'' (pd \<noteq> init_page_dir m) (
     bnd (lookup_page m pd upage True alloc) (\<lambda>(pte, m).
     case pte of
       None \<Rightarrow> Inr (False, m)
     | Some e \<Rightarrow>
         bnd (load m e) (\<lambda>v.
         asrt ''pagedir_set_page'' (v AND PTE_P = 0) (
         bnd (pte_create_user kpage writable) (\<lambda>v. Inr (True, store m e v)))))))))))"

definition pagedir_get_page :: "mmu \<Rightarrow> u32 \<Rightarrow> u32 \<Rightarrow> u32 res" where
  "pagedir_get_page m pd uaddr =
     asrt ''pagedir_get_page'' (is_user_vaddr uaddr) (
     bnd (lookup_page m pd uaddr False 0) (\<lambda>(pte, m).
     case pte of
       None \<Rightarrow> Inr 0
     | Some e \<Rightarrow>
         bnd (load m e) (\<lambda>v.
         if v AND PTE_P \<noteq> 0 then bnd (pte_get_page v) (\<lambda>k. Inr (k + pg_ofs uaddr)) else Inr 0)))"

definition pagedir_clear_page :: "mmu \<Rightarrow> u32 \<Rightarrow> u32 \<Rightarrow> mmu res" where
  "pagedir_clear_page m pd upage =
     asrt ''pagedir_clear_page'' (pg_ofs upage = 0) (asrt ''pagedir_clear_page'' (is_user_vaddr upage) (
     bnd (lookup_page m pd upage False 0) (\<lambda>(pte, m).
     case pte of
       None \<Rightarrow> Inr m
     | Some e \<Rightarrow>
         bnd (load m e) (\<lambda>v.
         if v AND PTE_P \<noteq> 0 then invalidate_pagedir (store m e (v AND NOT PTE_P)) pd else Inr m))))"

definition pagedir_is_dirty :: "mmu \<Rightarrow> u32 \<Rightarrow> u32 \<Rightarrow> bool res" where
  "pagedir_is_dirty m pd vpage =
     bnd (lookup_page m pd vpage False 0) (\<lambda>(pte, m).
     case pte of None \<Rightarrow> Inr False | Some e \<Rightarrow> bnd (load m e) (\<lambda>v. Inr (v AND PTE_D \<noteq> 0)))"

definition pagedir_set_dirty :: "mmu \<Rightarrow> u32 \<Rightarrow> u32 \<Rightarrow> bool \<Rightarrow> mmu res" where
  "pagedir_set_dirty m pd vpage dirty =
     bnd (lookup_page m pd vpage False 0) (\<lambda>(pte, m).
     case pte of
       None \<Rightarrow> Inr m
     | Some e \<Rightarrow>
         bnd (load m e) (\<lambda>v.
         if dirty then Inr (store m e (v OR PTE_D))
         else invalidate_pagedir (store m e (v AND NOT PTE_D)) pd))"

definition pagedir_is_accessed :: "mmu \<Rightarrow> u32 \<Rightarrow> u32 \<Rightarrow> bool res" where
  "pagedir_is_accessed m pd vpage =
     bnd (lookup_page m pd vpage False 0) (\<lambda>(pte, m).
     case pte of None \<Rightarrow> Inr False | Some e \<Rightarrow> bnd (load m e) (\<lambda>v. Inr (v AND PTE_A \<noteq> 0)))"

definition pagedir_set_accessed :: "mmu \<Rightarrow> u32 \<Rightarrow> u32 \<Rightarrow> bool \<Rightarrow> mmu res" where
  "pagedir_set_accessed m pd vpage accessed =
     bnd (lookup_page m pd vpage False 0) (\<lambda>(pte, m).
     case pte of
       None \<Rightarrow> Inr m
     | Some e \<Rightarrow>
         bnd (load m e) (\<lambda>v.
         if accessed then Inr (store m e (v OR PTE_A))
         else invalidate_pagedir (store m e (v AND NOT PTE_A)) pd))"

text \<open>\<open>pagedir_destroy\<close> returns the pages it passes to \<open>palloc_free_page\<close>, in order.\<close>

fun destroy_table :: "u32 list \<Rightarrow> u32 list res" where
  "destroy_table [] = Inr []"
| "destroy_table (pte # ptes) =
     bnd (if pte AND PTE_P \<noteq> 0 then bnd (pte_get_page pte) (\<lambda>k. Inr [k]) else Inr []) (\<lambda>fs.
     bnd (destroy_table ptes) (\<lambda>gs. Inr (fs @ gs)))"

fun destroy_loop :: "mmu \<Rightarrow> u32 list \<Rightarrow> u32 list res" where
  "destroy_loop m [] = Inr []"
| "destroy_loop m (pde # pdes) =
     bnd (if pde AND PTE_P \<noteq> 0
          then bnd (pde_get_pt pde) (\<lambda>pt. bnd (destroy_table (take 1024 (tables m pt))) (\<lambda>fs. Inr (fs @ [pt])))
          else Inr []) (\<lambda>fs.
     bnd (destroy_loop m pdes) (\<lambda>gs. Inr (fs @ gs)))"

definition pagedir_destroy :: "mmu \<Rightarrow> u32 \<Rightarrow> u32 list res" where
  "pagedir_destroy m pd =
     (if pd = 0 then Inr []
      else asrt ''pagedir_destroy'' (pd \<noteq> init_page_dir m) (
        bnd (destroy_loop m (take (pd_no PHYS_BASE) (tables m pd))) (\<lambda>fs. Inr (fs @ [pd]))))"

section \<open>Fields of addresses and entries\<close>

lemma masks: "PGMASK = mask 12" "PTE_ADDR = NOT (mask 12)" "PTMASK = push_bit 12 (mask 10)"
  by (simp_all add: mask_eq_exp_minus_1 push_bit_eq_mult)

lemma pg_ofs_take: "pg_ofs va = take_bit 12 va"
  by (simp only: pg_ofs_def masks take_bit_eq_mask)

lemma take_bit_mod: "unat (take_bit n (x :: u32)) = unat x mod 2 ^ n"
  unfolding unsigned_take_bit_eq by (simp add: take_bit_eq_mod)

lemma drop_bit_div: "unat (drop_bit n (x :: u32)) = unat x div 2 ^ n"
  by (metis drop_bit_eq_div unat_drop_bit_eq)

lemma pd_no_eq: "pd_no va = unat va div 2 ^ 22"
  by (simp only: pd_no_def drop_bit_div)

lemma pt_no_eq: "pt_no va = unat va div 2 ^ 12 mod 2 ^ 10"
proof -
  have "drop_bit 12 (va AND PTMASK) = take_bit 10 (drop_bit 12 va)"
    unfolding masks(3) by (rule bit_word_eqI) (auto simp: bit_simps)
  then show ?thesis unfolding pt_no_def by (simp only: take_bit_mod drop_bit_div)
qed

lemma pt_no_bound: "pt_no va < 1024"
  by (simp add: pt_no_eq)

lemma pd_no_bound: "pd_no va < 1024"
  using unat32_lt[of va] by (simp add: pd_no_eq div_less_iff_less_mult)

lemma user_pd_no: "is_user_vaddr va \<Longrightarrow> pd_no va < 768"
  by (simp add: is_user_vaddr_def word_less_nat_alt pd_no_eq div_less_iff_less_mult)

lemma pg_no_split: "pg_no u = pg_no v \<longleftrightarrow> pd_no u = pd_no v \<and> pt_no u = pt_no v"
proof -
  have d: "unat x div 2 ^ 12 = 2 ^ 10 * (unat x div 2 ^ 22) + unat x div 2 ^ 12 mod 2 ^ 10" for x :: u32
  proof -
    have "unat x div 2 ^ 22 = unat x div 2 ^ 12 div 2 ^ 10" by (simp flip: div_mult2_eq)
    then show ?thesis by (simp only: mult_div_mod_eq)
  qed
  have "pg_no u = pg_no v \<longleftrightarrow> unat u div 2 ^ 12 = unat v div 2 ^ 12"
    unfolding pg_no_def by (metis drop_bit_div word_unat_eq_iff)
  also have "\<dots> \<longleftrightarrow> pd_no u = pd_no v \<and> pt_no u = pt_no v"
  proof
    assume e: "unat u div 2 ^ 12 = unat v div 2 ^ 12"
    have q: "unat x div 2 ^ 22 = unat x div 2 ^ 12 div 2 ^ 10" for x :: u32 by (simp flip: div_mult2_eq)
    show "pd_no u = pd_no v \<and> pt_no u = pt_no v" unfolding pd_no_eq pt_no_eq q e by simp
  next
    assume "pd_no u = pd_no v \<and> pt_no u = pt_no v"
    then have "2 ^ 10 * (unat u div 2 ^ 22) + unat u div 2 ^ 12 mod 2 ^ 10
      = 2 ^ 10 * (unat v div 2 ^ 22) + unat v div 2 ^ 12 mod 2 ^ 10" by (simp only: pd_no_eq pt_no_eq)
    then show "unat u div 2 ^ 12 = unat v div 2 ^ 12" by (simp only: d[symmetric])
  qed
  finally show ?thesis .
qed

lemma addr_flags:
  assumes "take_bit 12 p = 0" and "take_bit 12 f = (f :: u32)"
  shows "(p OR f) AND PTE_ADDR = p"
proof (rule bit_word_eqI)
  fix n assume "n < LENGTH(32)"
  have "bit p n \<Longrightarrow> 12 \<le> n" using assms(1) by (metis bit_take_bit_iff bit_0_eq bot_apply bot_bool_def not_le)
  moreover have "bit f n \<Longrightarrow> n < 12" using assms(2) by (metis bit_take_bit_iff)
  ultimately show "bit ((p OR f) AND PTE_ADDR) n = bit p n"
    unfolding masks(2) using \<open>n < LENGTH(32)\<close> by (auto simp: bit_simps)
qed

lemma flags_only:
  assumes "take_bit 12 p = 0" and "take_bit 12 g = (g :: u32)"
  shows "(p OR f) AND g = f AND g"
proof (rule bit_word_eqI)
  fix n assume "n < LENGTH(32)"
  have "bit p n \<Longrightarrow> 12 \<le> n" using assms(1) by (metis bit_take_bit_iff bit_0_eq bot_apply bot_bool_def not_le)
  moreover have "bit g n \<Longrightarrow> n < 12" using assms(2) by (metis bit_take_bit_iff)
  ultimately show "bit ((p OR f) AND g) n = bit (f AND g) n" by (auto simp: bit_simps)
qed

lemma aligned_vtop:
  assumes "pg_ofs k = 0" and "is_kernel_vaddr k"
  shows "take_bit 12 (k - PHYS_BASE) = 0" and "k - PHYS_BASE < PHYS_BASE"
proof -
  have le: "PHYS_BASE \<le> k" using assms(2) by (simp add: is_kernel_vaddr_def)
  have u: "unat (k - PHYS_BASE) = unat k - 0xc0000000" using unat_sub[OF le] by simp
  have ge: "0xc0000000 \<le> unat k" using le by (simp add: word_le_nat_alt)
  have "unat k mod 2 ^ 12 = 0" using assms(1) by (metis pg_ofs_take take_bit_mod unat_0)
  then have "(unat k - 0xc0000000) mod 2 ^ 12 = 0" using ge by (simp add: mod_eq_0_iff_dvd dvd_diff_nat)
  then have "unat (take_bit 12 (k - PHYS_BASE)) = 0" by (simp only: take_bit_mod u)
  then show "take_bit 12 (k - PHYS_BASE) = 0" by (simp only: unat_eq_zero)
  show "k - PHYS_BASE < PHYS_BASE" using unat32_lt[of k] ge by (simp add: word_less_nat_alt u)
qed

text \<open>The table or page that an entry points to.\<close>

definition points_to :: "u32 \<Rightarrow> u32" where
  "points_to e = (e AND PTE_ADDR) + PHYS_BASE"

definition entry_for :: "u32 \<Rightarrow> u32 \<Rightarrow> u32" where
  "entry_for k f = (k - PHYS_BASE) OR f"

lemma entry_for_ok:
  assumes "pg_ofs k = 0" and "is_kernel_vaddr k" and "take_bit 12 f = f"
  shows "entry_for k f AND PTE_ADDR < PHYS_BASE" and "points_to (entry_for k f) = k"
    and "take_bit 12 g = g \<Longrightarrow> entry_for k f AND g = f AND g"
  using aligned_vtop[OF assms(1,2)] assms(3)
  by (simp_all only: entry_for_def points_to_def addr_flags flags_only) simp_all

lemma create_entries:
  assumes "pg_ofs k = 0" and "is_kernel_vaddr k"
  shows "pde_create_user k = Inr (entry_for k 7)" and "pte_create_user k w = Inr (entry_for k (if w then 7 else 5))"
  using assms by (simp_all add: pde_create_user_def pte_create_user_def vtop_def entry_for_def or.assoc)

section \<open>A page directory as a map\<close>

definition pde :: "mmu \<Rightarrow> u32 \<Rightarrow> nat \<Rightarrow> u32" where
  "pde m pd i = tables m pd ! i"

text \<open>The entry for a user address; 0, which is \<^emph>\<open>not present\<close>, where there is no page table.\<close>

definition entry :: "mmu \<Rightarrow> u32 \<Rightarrow> u32 \<Rightarrow> u32" where
  "entry m pd v = (let e = pde m pd (pd_no v) in if e = 0 then 0 else tables m (points_to e) ! pt_no v)"

definition pd_ok :: "mmu \<Rightarrow> u32 \<Rightarrow> bool" where
  "pd_ok m pd \<longleftrightarrow> pd \<noteq> 0 \<and> is_kernel_vaddr pd \<and> length (tables m pd) = 1024 \<and> cr3 m < PHYS_BASE \<and>
     (\<forall>i < 768. pde m pd i \<noteq> 0 \<longrightarrow>
        pde m pd i AND PTE_P \<noteq> 0 \<and> pde m pd i AND PTE_ADDR < PHYS_BASE \<and>
        points_to (pde m pd i) \<noteq> pd \<and> length (tables m (points_to (pde m pd i))) = 1024 \<and>
        (\<forall>j < 768. j \<noteq> i \<longrightarrow> pde m pd j \<noteq> 0 \<longrightarrow> points_to (pde m pd j) \<noteq> points_to (pde m pd i)))"

lemma pd_okD:
  assumes "pd_ok m pd" and "i < 768" and "pde m pd i \<noteq> 0"
  shows "pde_get_pt (pde m pd i) = Inr (points_to (pde m pd i))" "points_to (pde m pd i) \<noteq> pd"
    "length (tables m (points_to (pde m pd i))) = 1024"
    "\<And>j. j < 768 \<Longrightarrow> j \<noteq> i \<Longrightarrow> pde m pd j \<noteq> 0 \<Longrightarrow> points_to (pde m pd j) \<noteq> points_to (pde m pd i)"
  using assms by (auto simp: pd_ok_def pde_get_pt_def ptov_def points_to_def)

lemma lookup_found:
  assumes ok: "pd_ok m pd" and u: "is_user_vaddr v"
  shows "lookup_page m pd v False 0 =
      Inr (if pde m pd (pd_no v) = 0 then None else Some (points_to (pde m pd (pd_no v)), pt_no v), m)"
    and "pde m pd (pd_no v) \<noteq> 0 \<Longrightarrow> load m (points_to (pde m pd (pd_no v)), pt_no v) = Inr (entry m pd v)"
proof -
  have l: "load m (pd, pd_no v) = Inr (pde m pd (pd_no v))" "pd \<noteq> 0"
    using ok pd_no_bound[of v] by (simp_all add: load_def pde_def pd_ok_def)
  show "lookup_page m pd v False 0 =
      Inr (if pde m pd (pd_no v) = 0 then None else Some (points_to (pde m pd (pd_no v)), pt_no v), m)"
    using l pd_okD(1)[OF ok user_pd_no[OF u]] by (simp add: lookup_page_def)
  show "pde m pd (pd_no v) \<noteq> 0 \<Longrightarrow> load m (points_to (pde m pd (pd_no v)), pt_no v) = Inr (entry m pd v)"
    using pd_okD(3)[OF ok user_pd_no[OF u]] pt_no_bound[of v] by (simp add: load_def entry_def Let_def)
qed

lemma entry_store:
  fixes x :: u32
  assumes ok: "pd_ok m pd" and u: "is_user_vaddr v" and e: "pde m pd (pd_no v) \<noteq> 0"
  defines "m' \<equiv> store m (points_to (pde m pd (pd_no v)), pt_no v) x"
  shows "pd_ok m' pd" and "is_user_vaddr w \<Longrightarrow> entry m' pd w = (if pg_no w = pg_no v then x else entry m pd w)"
proof -
  let ?i = "pd_no v" and ?pt = "points_to (pde m pd (pd_no v))"
  note d = pd_okD[OF ok user_pd_no[OF u] e]
  have t: "tables m' = (tables m)(?pt := (tables m ?pt)[pt_no v := x])" "cr3 m' = cr3 m"
    by (simp_all add: m'_def store_def)
  have p: "pde m' pd j = pde m pd j" for j using d(2) by (simp add: pde_def t)
  have "length (tables m' pg) = length (tables m pg)" for pg by (simp add: t)
  then show "pd_ok m' pd" using ok unfolding pd_ok_def p t(2) by simp
  assume w: "is_user_vaddr w"
  show "entry m' pd w = (if pg_no w = pg_no v then x else entry m pd w)"
  proof (cases "pde m pd (pd_no w) = 0")
    case True
    then have "pd_no w \<noteq> ?i" using e by auto
    then show ?thesis using True by (simp add: entry_def p pg_no_split)
  next
    case False
    show ?thesis
    proof (cases "pd_no w = ?i")
      case True
      then show ?thesis using d(3) e pt_no_bound[of v] by (simp add: entry_def p pg_no_split t Let_def nth_list_update)
    next
      case ne: False
      have "points_to (pde m pd (pd_no w)) \<noteq> ?pt" by (rule d(4)[OF user_pd_no[OF w] ne False])
      then show ?thesis using ne False by (simp add: entry_def p pg_no_split t Let_def)
    qed
  qed
qed

text \<open>A page from \<open>palloc_get_page\<close> that can become a page table: aligned, in the kernel's part of
  memory, and not one of the tables in use.\<close>

definition fresh_page :: "mmu \<Rightarrow> u32 \<Rightarrow> u32 \<Rightarrow> bool" where
  "fresh_page m pd k \<longleftrightarrow> k \<noteq> 0 \<and> pg_ofs k = 0 \<and> is_kernel_vaddr k \<and> k \<noteq> pd \<and>
     (\<forall>i < 768. pde m pd i \<noteq> 0 \<longrightarrow> points_to (pde m pd i) \<noteq> k)"

lemma lookup_create:
  assumes ok: "pd_ok m pd" and u: "is_user_vaddr v" and a: "pde m pd (pd_no v) \<noteq> 0 \<or> fresh_page m pd alloc"
  shows "\<exists>m'. lookup_page m pd v True alloc = Inr (Some (points_to (pde m' pd (pd_no v)), pt_no v), m') \<and>
    pd_ok m' pd \<and> pde m' pd (pd_no v) \<noteq> 0 \<and> init_page_dir m' = init_page_dir m \<and>
    (\<forall>w. is_user_vaddr w \<longrightarrow> entry m' pd w = entry m pd w)"
proof (cases "pde m pd (pd_no v) = 0")
  case False
  have "load m (pd, pd_no v) = Inr (pde m pd (pd_no v))" "pd \<noteq> 0"
    using ok pd_no_bound[of v] by (simp_all add: load_def pde_def pd_ok_def)
  then show ?thesis using False pd_okD(1)[OF ok user_pd_no[OF u] False] ok u by (simp add: lookup_page_def)
next
  case True
  then have f: "alloc \<noteq> 0" "pg_ofs alloc = 0" "is_kernel_vaddr alloc" "alloc \<noteq> pd"
    "\<And>i. i < 768 \<Longrightarrow> pde m pd i \<noteq> 0 \<Longrightarrow> points_to (pde m pd i) \<noteq> alloc" using a by (auto simp: fresh_page_def)
  let ?e = "entry_for alloc 7" and ?i = "pd_no v"
  have i: "?i < 768" using user_pd_no[OF u] .
  note eo = entry_for_ok[OF f(2,3), of 7]
  have e: "?e AND PTE_P \<noteq> 0" "?e AND PTE_ADDR < PHYS_BASE" "points_to ?e = alloc" using eo(1,2) eo(3)[of 1] by simp_all
  then have e0: "?e \<noteq> 0" by auto
  define m' where "m' = store (m\<lparr>tables := (tables m)(alloc := replicate 1024 0)\<rparr>) (pd, ?i) ?e"
  have t: "tables m' = (tables m)(alloc := replicate 1024 0, pd := (tables m pd)[?i := ?e])" "cr3 m' = cr3 m"
    "init_page_dir m' = init_page_dir m"
    using f(4) by (simp_all add: m'_def store_def fun_upd_twist)
  have len: "length (tables m pd) = 1024" "pd \<noteq> 0" "is_kernel_vaddr pd" "cr3 m < PHYS_BASE" using ok by (simp_all add: pd_ok_def)
  have p: "pde m' pd j = (if j = ?i then ?e else pde m pd j)" if "j < 768" for j
    using that len by (simp add: pde_def t nth_list_update)
  have "pd_ok m' pd"
    unfolding pd_ok_def
  proof (intro conjI allI impI)
    fix j assume j: "j < 768" "pde m' pd j \<noteq> 0"
    show "pde m' pd j AND PTE_P \<noteq> 0" "pde m' pd j AND PTE_ADDR < PHYS_BASE"
      using j p[OF j(1)] e ok by (auto simp: pd_ok_def split: if_splits)
    show "points_to (pde m' pd j) \<noteq> pd" using j p[OF j(1)] e f(4) pd_okD(2)[OF ok j(1)] by (auto split: if_splits)
    show "length (tables m' (points_to (pde m' pd j))) = 1024"
      using j p[OF j(1)] e f pd_okD(2,3)[OF ok j(1)] by (auto simp: t split: if_splits)
    fix k assume k: "k < 768" "k \<noteq> j" "pde m' pd k \<noteq> 0"
    show "points_to (pde m' pd k) \<noteq> points_to (pde m' pd j)"
      using j k p[OF j(1)] p[OF k(1)] e f(5)[OF j(1)] f(5)[OF k(1)] pd_okD(4)[OF ok j(1) _ k(1)] by (auto split: if_splits)
  qed (use len in \<open>auto simp: t\<close>)
  moreover have "entry m' pd w = entry m pd w" if w: "is_user_vaddr w" for w
  proof (cases "pd_no w = ?i")
    case True
    then show ?thesis using p[OF i] e e0 f(4) \<open>pde m pd ?i = 0\<close> pt_no_bound[of w] by (simp add: entry_def Let_def t)
  next
    case False
    then show ?thesis using p[OF user_pd_no[OF w]] f(5)[OF user_pd_no[OF w]] pd_okD(2)[OF ok user_pd_no[OF w]]
      by (simp add: entry_def Let_def t)
  qed
  moreover have "lookup_page m pd v True alloc = Inr (Some (points_to (pde m' pd ?i), pt_no v), m')"
  proof -
    have "load m (pd, ?i) = Inr 0" using True len pd_no_bound[of v] by (simp add: load_def pde_def)
    moreover have "pde_get_pt ?e = Inr alloc" using e by (simp add: pde_get_pt_def ptov_def points_to_def)
    ultimately show ?thesis using u len f(1) create_entries(1)[OF f(2,3)] p[OF i] e(3)
      by (simp add: lookup_page_def m'_def Let_def)
  qed
  ultimately show ?thesis using p[OF i] e0 t(3) by auto
qed

definition translate :: "u32 \<Rightarrow> u32 \<Rightarrow> u32 res" where
  "translate e v = (if e AND PTE_P \<noteq> 0 then bnd (pte_get_page e) (\<lambda>k. Inr (k + pg_ofs v)) else Inr 0)"

lemma get_page_entry:
  assumes "pd_ok m pd" and "is_user_vaddr v"
  shows "pagedir_get_page m pd v = translate (entry m pd v) v"
  using lookup_found[OF assms] assms(2) by (auto simp: pagedir_get_page_def entry_def Let_def translate_def)

lemma translate_cong: "e' AND PTE_P = e AND PTE_P \<Longrightarrow> e' AND PTE_ADDR = e AND PTE_ADDR \<Longrightarrow> translate e' v = translate e v"
  by (simp add: translate_def pte_get_page_def)

lemma clear_bits:
  fixes e :: u32
  shows "(e AND NOT PTE_P) AND PTE_P = 0" "(e AND NOT PTE_P) AND PTE_D = e AND PTE_D" "(e AND NOT PTE_P) AND PTE_A = e AND PTE_A"
    "(e AND NOT PTE_D) AND PTE_D = 0" "(e AND NOT PTE_D) AND PTE_A = e AND PTE_A"
    "(e AND NOT PTE_D) AND PTE_P = e AND PTE_P" "(e AND NOT PTE_D) AND PTE_ADDR = e AND PTE_ADDR"
    "(e AND NOT PTE_A) AND PTE_A = 0" "(e AND NOT PTE_A) AND PTE_D = e AND PTE_D"
    "(e AND NOT PTE_A) AND PTE_P = e AND PTE_P" "(e AND NOT PTE_A) AND PTE_ADDR = e AND PTE_ADDR"
  by (simp_all add: and.assoc)

lemma set_bits:
  fixes e :: u32
  shows "(e OR PTE_D) AND PTE_D \<noteq> 0" "(e OR PTE_D) AND PTE_A = e AND PTE_A"
    "(e OR PTE_D) AND PTE_P = e AND PTE_P" "(e OR PTE_D) AND PTE_ADDR = e AND PTE_ADDR"
    "(e OR PTE_A) AND PTE_A \<noteq> 0" "(e OR PTE_A) AND PTE_D = e AND PTE_D"
    "(e OR PTE_A) AND PTE_P = e AND PTE_P" "(e OR PTE_A) AND PTE_ADDR = e AND PTE_ADDR"
  by (simp_all add: bit.conj_disj_distrib2 bit.disj_conj_distrib)

lemma bit_entry:
  assumes "pd_ok m pd" and "is_user_vaddr v"
  shows "pagedir_is_dirty m pd v = Inr (entry m pd v AND PTE_D \<noteq> 0)"
    and "pagedir_is_accessed m pd v = Inr (entry m pd v AND PTE_A \<noteq> 0)"
  using lookup_found[OF assms] assms(2)
  by (auto simp: pagedir_is_dirty_def pagedir_is_accessed_def entry_def Let_def)

lemma invalidate_ok:
  assumes "pd_ok m pd"
  shows "\<exists>m'. invalidate_pagedir m pd = Inr m' \<and> tables m' = tables m \<and> cr3 m' = cr3 m \<and> pd_ok m' pd \<and>
    (cr3 m + PHYS_BASE = pd \<longrightarrow> cr3_loads m' = cr3_loads m + 1)"
  using assms by (auto simp: invalidate_pagedir_def active_pd_def ptov_def pagedir_activate_def vtop_def pd_ok_def pde_def)

lemma entry_tables: "tables m' = tables m \<Longrightarrow> entry m' pd v = entry m pd v"
  by (simp add: entry_def pde_def Let_def)

text \<open>An operation that writes \<open>f\<close> of the entry for \<open>v\<close> and drops cached translations.\<close>

lemma update_entry:
  assumes ok: "pd_ok m pd" and u: "is_user_vaddr v" and e: "pde m pd (pd_no v) \<noteq> 0"
  shows "\<exists>m'. invalidate_pagedir (store m (points_to (pde m pd (pd_no v)), pt_no v) x) pd = Inr m' \<and> pd_ok m' pd \<and>
    (cr3 m + PHYS_BASE = pd \<longrightarrow> cr3_loads m' = cr3_loads m + 1) \<and>
    (\<forall>w. is_user_vaddr w \<longrightarrow> entry m' pd w = (if pg_no w = pg_no v then x else entry m pd w))"
proof -
  note st = entry_store[OF ok u e, where x = x]
  from invalidate_ok[OF st(1)] obtain m' where
    "invalidate_pagedir (store m (points_to (pde m pd (pd_no v)), pt_no v) x) pd = Inr m'" "pd_ok m' pd"
    "tables m' = tables (store m (points_to (pde m pd (pd_no v)), pt_no v) x)"
    "cr3 m + PHYS_BASE = pd \<longrightarrow> cr3_loads m' = cr3_loads m + 1" by (auto simp: store_def)
  with st(2) entry_tables[of m' "store m (points_to (pde m pd (pd_no v)), pt_no v) x" pd] show ?thesis by simp
qed

lemma entry_none: "pde m pd (pd_no v) = 0 \<Longrightarrow> pg_no w = pg_no v \<Longrightarrow> entry m pd w = 0"
  by (simp add: entry_def pg_no_split)

text \<open>A state in which the entry of one page has become \<open>x\<close> and the entries of the other user
  pages are what they were; what the queries then return.\<close>

definition entry_updated :: "mmu \<Rightarrow> mmu \<Rightarrow> u32 \<Rightarrow> u32 \<Rightarrow> u32 \<Rightarrow> bool" where
  "entry_updated m m' pd u x \<longleftrightarrow> pd_ok m' pd \<and>
     (\<forall>w. is_user_vaddr w \<longrightarrow> entry m' pd w = (if pg_no w = pg_no u then x else entry m pd w))"

lemma updated_views:
  assumes "entry_updated m m' pd u x" and "pd_ok m pd" and "is_user_vaddr v"
  shows "pagedir_get_page m' pd v = (if pg_no v = pg_no u then translate x v else pagedir_get_page m pd v)"
    and "pagedir_is_dirty m' pd v = (if pg_no v = pg_no u then Inr (x AND PTE_D \<noteq> 0) else pagedir_is_dirty m pd v)"
    and "pagedir_is_accessed m' pd v = (if pg_no v = pg_no u then Inr (x AND PTE_A \<noteq> 0) else pagedir_is_accessed m pd v)"
    and "pd_ok m' pd"
proof -
  show ok': "pd_ok m' pd" using assms(1) by (simp add: entry_updated_def)
  have e: "entry m' pd v = (if pg_no v = pg_no u then x else entry m pd v)"
    using assms(1,3) by (simp add: entry_updated_def)
  show "pagedir_get_page m' pd v = (if pg_no v = pg_no u then translate x v else pagedir_get_page m pd v)"
    unfolding get_page_entry[OF ok' assms(3)] get_page_entry[OF assms(2,3)] e by (simp only: if_distrib split: if_split) simp
  show "pagedir_is_dirty m' pd v = (if pg_no v = pg_no u then Inr (x AND PTE_D \<noteq> 0) else pagedir_is_dirty m pd v)"
    "pagedir_is_accessed m' pd v = (if pg_no v = pg_no u then Inr (x AND PTE_A \<noteq> 0) else pagedir_is_accessed m pd v)"
    unfolding bit_entry[OF ok' assms(3)] bit_entry[OF assms(2,3)] e by (simp_all only: split: if_split) simp_all
qed

lemma same_page:
  assumes "pd_ok m pd" and "is_user_vaddr u" and "is_user_vaddr v" and "pg_no v = pg_no u"
  shows "pagedir_get_page m pd v = translate (entry m pd u) v"
    and "pagedir_is_dirty m pd v = Inr (entry m pd u AND PTE_D \<noteq> 0)"
    and "pagedir_is_accessed m pd v = Inr (entry m pd u AND PTE_A \<noteq> 0)"
    and "pd_no v = pd_no u"
proof -
  have e: "entry m pd v = entry m pd u" "pd_no v = pd_no u" using assms(4) by (simp_all add: pg_no_split entry_def Let_def)
  show "pagedir_get_page m pd v = translate (entry m pd u) v"
    "pagedir_is_dirty m pd v = Inr (entry m pd u AND PTE_D \<noteq> 0)"
    "pagedir_is_accessed m pd v = Inr (entry m pd u AND PTE_A \<noteq> 0)" "pd_no v = pd_no u"
    by (simp_all only: get_page_entry[OF assms(1,3)] bit_entry[OF assms(1,3)] e)
qed

text \<open>An update that keeps a bit, or the present bit and the address, keeps the query of it.\<close>

lemma kept_views:
  assumes up: "entry_updated m m' pd u x" and ok: "pd_ok m pd" and u: "is_user_vaddr u" and v: "is_user_vaddr v"
  shows "x AND PTE_P = entry m pd u AND PTE_P \<Longrightarrow> x AND PTE_ADDR = entry m pd u AND PTE_ADDR \<Longrightarrow>
      pagedir_get_page m' pd v = pagedir_get_page m pd v"
    and "x AND PTE_D = entry m pd u AND PTE_D \<Longrightarrow> pagedir_is_dirty m' pd v = pagedir_is_dirty m pd v"
    and "x AND PTE_A = entry m pd u AND PTE_A \<Longrightarrow> pagedir_is_accessed m' pd v = pagedir_is_accessed m pd v"
proof -
  note views = updated_views[OF up ok v] and sp = same_page[OF ok u v]
  show "pagedir_get_page m' pd v = pagedir_get_page m pd v"
    if "x AND PTE_P = entry m pd u AND PTE_P" "x AND PTE_ADDR = entry m pd u AND PTE_ADDR"
    using translate_cong[OF that, of v] sp(1) by (simp only: views split: if_split) simp
  show "pagedir_is_dirty m' pd v = pagedir_is_dirty m pd v" if "x AND PTE_D = entry m pd u AND PTE_D"
    using that sp(2) by (simp only: views split: if_split) simp
  show "pagedir_is_accessed m' pd v = pagedir_is_accessed m pd v" if "x AND PTE_A = entry m pd u AND PTE_A"
    using that sp(3) by (simp only: views split: if_split) simp
qed

lemma clear_clear_bit: "a AND NOT p = a" if "a AND p = 0" for a p :: u32
proof -
  have "a = a AND (p OR NOT p)" by simp
  also have "\<dots> = a AND NOT p" by (simp only: bit.conj_disj_distrib that or.left_neutral)
  finally show ?thesis by simp
qed

lemma entry_updated_same:
  assumes "pd_ok m pd" and "x = entry m pd u"
  shows "entry_updated m m pd u x"
  using assms by (simp add: entry_updated_def pg_no_split entry_def Let_def)

text \<open>The three operations that change an existing entry, and the one that makes a new one.\<close>

lemma clear_page_entry:
  assumes ok: "pd_ok m pd" and u: "is_user_vaddr upage" and al: "pg_ofs upage = 0"
  shows "\<exists>m'. pagedir_clear_page m pd upage = Inr m' \<and> entry_updated m m' pd upage (entry m pd upage AND NOT PTE_P) \<and>
    (entry m pd upage AND PTE_P \<noteq> 0 \<longrightarrow> cr3 m + PHYS_BASE = pd \<longrightarrow> cr3_loads m' = cr3_loads m + 1)"
proof (cases "entry m pd upage AND PTE_P = 0")
  case True
  then have "entry m pd upage AND NOT PTE_P = entry m pd upage" by (rule clear_clear_bit)
  moreover have "pagedir_clear_page m pd upage = Inr m"
    using lookup_found[OF ok u] True al u by (auto simp: pagedir_clear_page_def)
  ultimately show ?thesis using True entry_updated_same[OF ok] by simp
next
  case False
  then have p: "pde m pd (pd_no upage) \<noteq> 0" using entry_none[of m pd upage upage] by auto
  from update_entry[OF ok u p, where x = "entry m pd upage AND NOT PTE_P"]
  show ?thesis using lookup_found(1)[OF ok u] lookup_found(2)[OF ok u p] p False al u
    by (auto simp: pagedir_clear_page_def entry_updated_def)
qed

lemma set_dirty_entry:
  assumes ok: "pd_ok m pd" and u: "is_user_vaddr v"
  shows "\<exists>m'. pagedir_set_dirty m pd v b = Inr m' \<and> entry_updated m m' pd v
    (if pde m pd (pd_no v) = 0 then entry m pd v else if b then entry m pd v OR PTE_D else entry m pd v AND NOT PTE_D)"
proof (cases "pde m pd (pd_no v) = 0")
  case True
  then show ?thesis using lookup_found(1)[OF ok u] entry_updated_same[OF ok] by (simp add: pagedir_set_dirty_def)
next
  case False
  let ?x = "if b then entry m pd v OR PTE_D else entry m pd v AND NOT PTE_D"
  from update_entry[OF ok u False, where x = ?x] entry_store[OF ok u False, where x = ?x]
  show ?thesis using lookup_found(1)[OF ok u] lookup_found(2)[OF ok u False] False
    by (cases b) (auto simp: pagedir_set_dirty_def entry_updated_def)
qed

lemma set_accessed_entry:
  assumes ok: "pd_ok m pd" and u: "is_user_vaddr v"
  shows "\<exists>m'. pagedir_set_accessed m pd v b = Inr m' \<and> entry_updated m m' pd v
    (if pde m pd (pd_no v) = 0 then entry m pd v else if b then entry m pd v OR PTE_A else entry m pd v AND NOT PTE_A)"
proof (cases "pde m pd (pd_no v) = 0")
  case True
  then show ?thesis using lookup_found(1)[OF ok u] entry_updated_same[OF ok] by (simp add: pagedir_set_accessed_def)
next
  case False
  let ?x = "if b then entry m pd v OR PTE_A else entry m pd v AND NOT PTE_A"
  from update_entry[OF ok u False, where x = ?x] entry_store[OF ok u False, where x = ?x]
  show ?thesis using lookup_found(1)[OF ok u] lookup_found(2)[OF ok u False] False
    by (cases b) (auto simp: pagedir_set_accessed_def entry_updated_def)
qed

lemma set_bit_views:
  fixes e :: u32
  shows "(if p then e else if b then e OR PTE_D else e AND NOT PTE_D) AND PTE_D \<noteq> 0 \<longleftrightarrow> (if p then e AND PTE_D \<noteq> 0 else b)"
    and "(if p then e else if b then e OR PTE_D else e AND NOT PTE_D) AND PTE_P = e AND PTE_P"
    and "(if p then e else if b then e OR PTE_D else e AND NOT PTE_D) AND PTE_ADDR = e AND PTE_ADDR"
    and "(if p then e else if b then e OR PTE_D else e AND NOT PTE_D) AND PTE_A = e AND PTE_A"
    and "(if p then e else if b then e OR PTE_A else e AND NOT PTE_A) AND PTE_A \<noteq> 0 \<longleftrightarrow> (if p then e AND PTE_A \<noteq> 0 else b)"
    and "(if p then e else if b then e OR PTE_A else e AND NOT PTE_A) AND PTE_P = e AND PTE_P"
    and "(if p then e else if b then e OR PTE_A else e AND NOT PTE_A) AND PTE_ADDR = e AND PTE_ADDR"
    and "(if p then e else if b then e OR PTE_A else e AND NOT PTE_A) AND PTE_D = e AND PTE_D"
  by (cases p; cases b; simp only: if_True if_False set_bits clear_bits simp_thms)+

lemma dirty_bit_set:
  assumes up: "entry_updated m m' pd u (if pde m pd (pd_no u) = 0 then entry m pd u
      else if b then entry m pd u OR PTE_D else entry m pd u AND NOT PTE_D)"
    and ok: "pd_ok m pd" and u: "is_user_vaddr u" and v: "is_user_vaddr v"
  shows "pagedir_is_dirty m' pd v = (if pg_no v = pg_no u \<and> pde m pd (pd_no v) \<noteq> 0 then Inr b else pagedir_is_dirty m pd v)"
  using same_page(2,4)[OF ok u v] unfolding updated_views(2)[OF up ok v] set_bit_views(1) by auto

lemma accessed_bit_set:
  assumes up: "entry_updated m m' pd u (if pde m pd (pd_no u) = 0 then entry m pd u
      else if b then entry m pd u OR PTE_A else entry m pd u AND NOT PTE_A)"
    and ok: "pd_ok m pd" and u: "is_user_vaddr u" and v: "is_user_vaddr v"
  shows "pagedir_is_accessed m' pd v = (if pg_no v = pg_no u \<and> pde m pd (pd_no v) \<noteq> 0 then Inr b else pagedir_is_accessed m pd v)"
  using same_page(3,4)[OF ok u v] unfolding updated_views(3)[OF up ok v] set_bit_views(5) by auto

lemma set_page_entry:
  assumes ok: "pd_ok m pd" and "pd \<noteq> init_page_dir m" and u: "is_user_vaddr upage" and "pg_ofs upage = 0"
    and "is_kernel_vaddr kpage" and "pg_ofs kpage = 0" and "drop_bit 12 (kpage - PHYS_BASE) < init_ram_pages m"
    and "entry m pd upage AND PTE_P = 0" and a: "pde m pd (pd_no upage) \<noteq> 0 \<or> fresh_page m pd alloc"
  shows "\<exists>m'. pagedir_set_page m pd upage kpage writable alloc = Inr (True, m') \<and>
    entry_updated m m' pd upage (entry_for kpage (if writable then 7 else 5))"
proof -
  let ?x = "entry_for kpage (if writable then 7 else 5)"
  from lookup_create[OF ok u a] obtain m1 where
    l: "lookup_page m pd upage True alloc = Inr (Some (points_to (pde m1 pd (pd_no upage)), pt_no upage), m1)"
    and ok1: "pd_ok m1 pd" and e1: "pde m1 pd (pd_no upage) \<noteq> 0"
    and same: "\<And>w. is_user_vaddr w \<Longrightarrow> entry m1 pd w = entry m pd w" by blast
  have "pagedir_set_page m pd upage kpage writable alloc =
      Inr (True, store m1 (points_to (pde m1 pd (pd_no upage)), pt_no upage) ?x)"
    using assms l lookup_found(2)[OF ok1 u e1] same[OF u] create_entries(2)[OF assms(6,5)]
    by (simp add: pagedir_set_page_def vtop_def)
  then show ?thesis using entry_store[OF ok1 u e1, where x = ?x] same by (simp add: entry_updated_def)
qed

lemma new_entry_views:
  assumes "is_kernel_vaddr kpage" and "pg_ofs kpage = 0"
  shows "translate (entry_for kpage (if writable then 7 else 5)) v = Inr (kpage + pg_ofs v)"
    and "entry_for kpage (if writable then 7 else 5) AND PTE_W \<noteq> 0 \<longleftrightarrow> writable"
    and "entry_for kpage (if writable then 7 else 5) AND PTE_D = 0"
    and "entry_for kpage (if writable then 7 else 5) AND PTE_A = 0"
proof -
  let ?x = "entry_for kpage (if writable then 7 else 5)"
  have f: "take_bit 12 (if writable then 7 else 5 :: u32) = (if writable then 7 else 5)" by simp
  note eo = entry_for_ok[OF assms(2,1) f]
  show "?x AND PTE_W \<noteq> 0 \<longleftrightarrow> writable" "?x AND PTE_D = 0" "?x AND PTE_A = 0"
    using eo(3)[of 2] eo(3)[of "0x40"] eo(3)[of "0x20"] by simp_all
  have "?x AND PTE_P \<noteq> 0" using eo(3)[of 1] by simp
  moreover have "pte_get_page ?x = Inr kpage" using eo(1,2) by (simp add: pte_get_page_def ptov_def points_to_def)
  ultimately show "translate ?x v = Inr (kpage + pg_ofs v)" by (simp only: translate_def bnd_simps if_True) simp
qed

text \<open>
  (C27) Mapping a page: on a well-formed page directory, for an unmapped user page, an aligned
  kernel address of existing memory, and a page for the table where one is needed,
  \<open>pagedir_set_page\<close> succeeds; then every address in the page translates to the same offset in the new frame,
  with the access rights asked for, neither dirty nor accessed, and the translation of every other user address is
  what it was. When no page for a table can be had the result is false and nothing changes.
\<close>

theorem pagedir_set_page_maps:
  assumes "pd_ok m pd" and "pd \<noteq> init_page_dir m" and "is_user_vaddr upage" and "pg_ofs upage = 0"
    and "is_kernel_vaddr kpage" and "pg_ofs kpage = 0" and "drop_bit 12 (kpage - PHYS_BASE) < init_ram_pages m"
    and "entry m pd upage AND PTE_P = 0"
  shows "(pde m pd (pd_no upage) \<noteq> 0 \<or> fresh_page m pd alloc \<longrightarrow>
      (\<exists>m'. pagedir_set_page m pd upage kpage writable alloc = Inr (True, m') \<and> pd_ok m' pd \<and>
        (\<forall>v. is_user_vaddr v \<and> pg_no v = pg_no upage \<longrightarrow> pagedir_get_page m' pd v = Inr (kpage + pg_ofs v) \<and>
           (entry m' pd v AND PTE_W \<noteq> 0 \<longleftrightarrow> writable) \<and> pagedir_is_dirty m' pd v = Inr False \<and>
           pagedir_is_accessed m' pd v = Inr False) \<and>
        (\<forall>v. is_user_vaddr v \<and> pg_no v \<noteq> pg_no upage \<longrightarrow> pagedir_get_page m' pd v = pagedir_get_page m pd v))) \<and>
    (pde m pd (pd_no upage) = 0 \<longrightarrow> pagedir_set_page m pd upage kpage writable 0 = Inr (False, m))"
proof (intro conjI impI)
  assume "pde m pd (pd_no upage) \<noteq> 0 \<or> fresh_page m pd alloc"
  from set_page_entry[OF assms this] obtain m' where
    m': "pagedir_set_page m pd upage kpage writable alloc = Inr (True, m')"
    and up: "entry_updated m m' pd upage (entry_for kpage (if writable then 7 else 5))" by blast
  note views = updated_views[OF up assms(1)] and new = new_entry_views[OF assms(5,6), of writable]
  show "\<exists>m'. pagedir_set_page m pd upage kpage writable alloc = Inr (True, m') \<and> pd_ok m' pd \<and>
        (\<forall>v. is_user_vaddr v \<and> pg_no v = pg_no upage \<longrightarrow> pagedir_get_page m' pd v = Inr (kpage + pg_ofs v) \<and>
           (entry m' pd v AND PTE_W \<noteq> 0 \<longleftrightarrow> writable) \<and> pagedir_is_dirty m' pd v = Inr False \<and>
           pagedir_is_accessed m' pd v = Inr False) \<and>
        (\<forall>v. is_user_vaddr v \<and> pg_no v \<noteq> pg_no upage \<longrightarrow> pagedir_get_page m' pd v = pagedir_get_page m pd v)"
  proof (intro exI[of _ m'] conjI allI impI m')
    fix v assume v: "is_user_vaddr v \<and> pg_no v = pg_no upage"
    then have "entry m' pd v = entry_for kpage (if writable then 7 else 5)" using up by (simp add: entry_updated_def)
    then show "pagedir_get_page m' pd v = Inr (kpage + pg_ofs v)" "entry m' pd v AND PTE_W \<noteq> 0 \<longleftrightarrow> writable"
      "pagedir_is_dirty m' pd v = Inr False" "pagedir_is_accessed m' pd v = Inr False"
      using v new by (simp_all only: views if_True simp_thms)
  qed (use up views(1) in \<open>auto simp: entry_updated_def\<close>)
next
  assume "pde m pd (pd_no upage) = 0"
  then show "pagedir_set_page m pd upage kpage writable 0 = Inr (False, m)"
    using assms pd_no_bound[of upage]
    by (simp add: pagedir_set_page_def vtop_def lookup_page_def load_def pde_def pd_ok_def)
qed

text \<open>
  (C28) Unmapping and the accessed and dirty bits: \<open>pagedir_clear_page\<close> makes exactly the addresses
  of its page fault and keeps the bits of the entry, and setting or clearing the dirty or the accessed bit changes
  exactly this bit of the page's entry when it has one; the translation of no address is changed by the latter. When a
  present page is cleared in the active page directory, the processor's cached translations are dropped.
\<close>

theorem pagedir_updates:
  assumes "pd_ok m pd" and "is_user_vaddr upage" and "pg_ofs upage = 0"
  shows "(\<exists>m'. pagedir_clear_page m pd upage = Inr m' \<and> pd_ok m' pd \<and>
      (\<forall>v. is_user_vaddr v \<longrightarrow> pagedir_get_page m' pd v =
         (if pg_no v = pg_no upage then Inr 0 else pagedir_get_page m pd v) \<and>
         pagedir_is_dirty m' pd v = pagedir_is_dirty m pd v \<and> pagedir_is_accessed m' pd v = pagedir_is_accessed m pd v) \<and>
      (entry m pd upage AND PTE_P \<noteq> 0 \<longrightarrow> cr3 m + PHYS_BASE = pd \<longrightarrow> cr3_loads m' = cr3_loads m + 1)) \<and>
    (\<exists>m'. pagedir_set_dirty m pd upage b = Inr m' \<and> pd_ok m' pd \<and>
      (\<forall>v. is_user_vaddr v \<longrightarrow> pagedir_get_page m' pd v = pagedir_get_page m pd v \<and>
         pagedir_is_dirty m' pd v = (if pg_no v = pg_no upage \<and> pde m pd (pd_no v) \<noteq> 0 then Inr b else pagedir_is_dirty m pd v) \<and>
         pagedir_is_accessed m' pd v = pagedir_is_accessed m pd v)) \<and>
    (\<exists>m'. pagedir_set_accessed m pd upage b = Inr m' \<and> pd_ok m' pd \<and>
      (\<forall>v. is_user_vaddr v \<longrightarrow> pagedir_get_page m' pd v = pagedir_get_page m pd v \<and>
         pagedir_is_accessed m' pd v = (if pg_no v = pg_no upage \<and> pde m pd (pd_no v) \<noteq> 0 then Inr b else pagedir_is_accessed m pd v) \<and>
         pagedir_is_dirty m' pd v = pagedir_is_dirty m pd v))"
proof (intro conjI)
  let ?e = "entry m pd upage" and ?p = "pde m pd (pd_no upage)"
  have t0: "translate (?e AND NOT PTE_P) v = Inr 0" for v by (simp only: translate_def clear_bits(1)) simp
  from clear_page_entry[OF assms] obtain m' where m': "pagedir_clear_page m pd upage = Inr m'"
    "entry_updated m m' pd upage (?e AND NOT PTE_P)"
    "?e AND PTE_P \<noteq> 0 \<longrightarrow> cr3 m + PHYS_BASE = pd \<longrightarrow> cr3_loads m' = cr3_loads m + 1" by blast
  then show "\<exists>m'. pagedir_clear_page m pd upage = Inr m' \<and> pd_ok m' pd \<and>
      (\<forall>v. is_user_vaddr v \<longrightarrow> pagedir_get_page m' pd v =
         (if pg_no v = pg_no upage then Inr 0 else pagedir_get_page m pd v) \<and>
         pagedir_is_dirty m' pd v = pagedir_is_dirty m pd v \<and> pagedir_is_accessed m' pd v = pagedir_is_accessed m pd v) \<and>
      (?e AND PTE_P \<noteq> 0 \<longrightarrow> cr3 m + PHYS_BASE = pd \<longrightarrow> cr3_loads m' = cr3_loads m + 1)"
    using updated_views(1,4)[OF m'(2) assms(1), unfolded t0] kept_views(2,3)[OF m'(2) assms(1,2), unfolded clear_bits(2,3)] assms(2)
    by blast
  from set_dirty_entry[OF assms(1,2)] obtain m1 where m1: "pagedir_set_dirty m pd upage b = Inr m1"
    "entry_updated m m1 pd upage (if ?p = 0 then ?e else if b then ?e OR PTE_D else ?e AND NOT PTE_D)" by blast
  show "\<exists>m'. pagedir_set_dirty m pd upage b = Inr m' \<and> pd_ok m' pd \<and>
      (\<forall>v. is_user_vaddr v \<longrightarrow> pagedir_get_page m' pd v = pagedir_get_page m pd v \<and>
         pagedir_is_dirty m' pd v = (if pg_no v = pg_no upage \<and> pde m pd (pd_no v) \<noteq> 0 then Inr b else pagedir_is_dirty m pd v) \<and>
         pagedir_is_accessed m' pd v = pagedir_is_accessed m pd v)"
    using m1(1) updated_views(4)[OF m1(2) assms(1,2)] dirty_bit_set[OF m1(2) assms(1,2)]
      kept_views(1)[OF m1(2) assms(1,2) _ set_bit_views(2,3)] kept_views(3)[OF m1(2) assms(1,2) _ set_bit_views(4)] by blast
  from set_accessed_entry[OF assms(1,2)] obtain m2 where m2: "pagedir_set_accessed m pd upage b = Inr m2"
    "entry_updated m m2 pd upage (if ?p = 0 then ?e else if b then ?e OR PTE_A else ?e AND NOT PTE_A)" by blast
  show "\<exists>m'. pagedir_set_accessed m pd upage b = Inr m' \<and> pd_ok m' pd \<and>
      (\<forall>v. is_user_vaddr v \<longrightarrow> pagedir_get_page m' pd v = pagedir_get_page m pd v \<and>
         pagedir_is_accessed m' pd v = (if pg_no v = pg_no upage \<and> pde m pd (pd_no v) \<noteq> 0 then Inr b else pagedir_is_accessed m pd v) \<and>
         pagedir_is_dirty m' pd v = pagedir_is_dirty m pd v)"
    using m2(1) updated_views(4)[OF m2(2) assms(1,2)] accessed_bit_set[OF m2(2) assms(1,2)]
      kept_views(1)[OF m2(2) assms(1,2) _ set_bit_views(6,7)] kept_views(2)[OF m2(2) assms(1,2) _ set_bit_views(8)] by blast
qed

text \<open>A page directory with one page table, in the first two pages of the kernel's memory.\<close>

definition demo_mmu :: mmu where
  "demo_mmu = \<lparr>tables = (\<lambda>pg. if pg = 0xc0001000 then (replicate 1024 0)[0 := 0x2007] else replicate 1024 0),
     cr3 = 0x1000, cr3_loads = 0, init_page_dir = 0xc0000000, init_ram_pages = 1024\<rparr>"

lemma demo_pde: "i < 1024 \<Longrightarrow> pde demo_mmu 0xc0001000 i = (if i = 0 then 0x2007 else 0)"
  by (simp add: pde_def demo_mmu_def nth_list_update)

lemma demo_pd_ok: "pd_ok demo_mmu 0xc0001000"
  by (auto simp: pd_ok_def demo_pde points_to_def is_kernel_vaddr_def) (auto simp: demo_mmu_def)

theorem pagedir_set_page_maps_witness:
  "\<exists>m. pagedir_set_page demo_mmu 0xc0001000 0x3000 0xc0005000 True 0 = Inr (True, m) \<and>
    pagedir_get_page m 0xc0001000 0x3abc = Inr 0xc0005abc"
proof -
  have n: "pd_no 0x3000 = 0" "pg_no 0x3000 = 3" "pg_no 0x3abc = 3" "pg_ofs 0x3abc = 0xabc"
    by (simp_all add: pd_no_eq pg_no_def pg_ofs_def drop_bit_eq_div)
  have "entry demo_mmu 0xc0001000 0x3000 = 0"
    using pt_no_bound[of "0x3000"] by (simp add: entry_def n demo_pde points_to_def) (simp add: demo_mmu_def)
  then have "\<exists>m. pagedir_set_page demo_mmu 0xc0001000 0x3000 0xc0005000 True 0 = Inr (True, m) \<and>
    (\<forall>v. is_user_vaddr v \<longrightarrow> pg_no v = pg_no 0x3000 \<longrightarrow> pagedir_get_page m 0xc0001000 v = Inr (0xc0005000 + pg_ofs v))"
    using pagedir_set_page_maps[OF demo_pd_ok, of "0x3000" "0xc0005000" 0 True]
    by (auto simp: is_user_vaddr_def is_kernel_vaddr_def pg_ofs_def n demo_pde drop_bit_eq_div) (auto simp: demo_mmu_def)
  then show ?thesis using n by (auto simp: is_user_vaddr_def dest!: spec[of _ "0x3abc"])
qed

theorem pagedir_updates_witness:
  "\<exists>m. pagedir_clear_page demo_mmu 0xc0001000 0x3000 = Inr m \<and> pagedir_get_page m 0xc0001000 0x3abc = Inr 0"
proof -
  have n: "pg_no 0x3000 = 3" "pg_no 0x3abc = 3" by (simp_all add: pg_no_def drop_bit_eq_div)
  have "is_user_vaddr 0x3000" "pg_ofs 0x3000 = 0" "is_user_vaddr 0x3abc" by (simp_all add: is_user_vaddr_def pg_ofs_def)
  with pagedir_updates[OF demo_pd_ok, of "0x3000"] n show ?thesis by metis
qed

section \<open>Destruction\<close>

text \<open>
  \<open>pagedir_destroy\<close> gives back exactly the pages that a well-formed page directory owns: the
  frames of the user pages that are present, the page tables, and the directory itself as the last one.
\<close>

definition present_frames :: "u32 list \<Rightarrow> u32 list" where
  "present_frames es = map points_to (filter (\<lambda>e. e AND PTE_P \<noteq> 0) es)"

theorem pagedir_destroy_frees:
  assumes "pd_ok m pd" and "pd \<noteq> init_page_dir m"
    and "\<forall>i < 768. pde m pd i \<noteq> 0 \<longrightarrow> (\<forall>e \<in> set (tables m (points_to (pde m pd i))). e AND PTE_ADDR < PHYS_BASE)"
  shows "pagedir_destroy m pd = Inr (concat (map (\<lambda>e. present_frames (tables m (points_to e)) @ [points_to e])
      (filter (\<lambda>e. e AND PTE_P \<noteq> 0) (take 768 (tables m pd)))) @ [pd])"
proof -
  have t: "destroy_table es = Inr (present_frames es)" if "\<forall>e \<in> set es. e AND PTE_ADDR < PHYS_BASE" for es
    using that by (induction es) (auto simp: present_frames_def pte_get_page_def ptov_def points_to_def)
  have l: "destroy_loop m es = Inr (concat (map (\<lambda>e. present_frames (tables m (points_to e)) @ [points_to e])
      (filter (\<lambda>e. e AND PTE_P \<noteq> 0) es)))"
    if "\<forall>e \<in> set es. e AND PTE_P \<noteq> 0 \<longrightarrow> pde_get_pt e = Inr (points_to e) \<and> length (tables m (points_to e)) = 1024 \<and>
      (\<forall>x \<in> set (tables m (points_to e)). x AND PTE_ADDR < PHYS_BASE)" for es
    using that
  proof (induction es)
    case (Cons e es)
    then show ?case by (cases "e AND PTE_P = 0") (simp_all add: t)
  qed simp
  have ok: "length (tables m pd) = 1024" "pd \<noteq> 0" using assms(1) by (simp_all add: pd_ok_def)
  have "\<forall>e \<in> set (take 768 (tables m pd)). e AND PTE_P \<noteq> 0 \<longrightarrow> pde_get_pt e = Inr (points_to e) \<and>
    length (tables m (points_to e)) = 1024 \<and> (\<forall>x \<in> set (tables m (points_to e)). x AND PTE_ADDR < PHYS_BASE)"
  proof (intro ballI impI)
    fix e assume e: "e \<in> set (take 768 (tables m pd))" "e AND PTE_P \<noteq> 0"
    then obtain i where i: "i < 768" "e = pde m pd i" by (auto simp: in_set_conv_nth pde_def ok)
    moreover from e(2) have "e \<noteq> 0" by auto
    ultimately show "pde_get_pt e = Inr (points_to e) \<and> length (tables m (points_to e)) = 1024 \<and>
      (\<forall>x \<in> set (tables m (points_to e)). x AND PTE_ADDR < PHYS_BASE)"
      using pd_okD(1,3)[OF assms(1) i(1)] assms(3) by auto
  qed
  from l[OF this] show ?thesis using ok assms(2) by (simp add: pagedir_destroy_def pd_no_eq)
qed

theorem pagedir_destroy_frees_witness: "pagedir_destroy demo_mmu 0xc0001000 = Inr [0xc0002000, 0xc0001000]"
proof -
  have f: "filter (\<lambda>e. e AND PTE_P \<noteq> 0) (take 768 (tables demo_mmu 0xc0001000)) = [0x2007]"
    by (simp add: demo_mmu_def take_update_swap filter_replicate) (simp add: numeral_eq_Suc)
  have "pagedir_destroy demo_mmu 0xc0001000 = Inr (concat (map (\<lambda>e. present_frames (tables demo_mmu (points_to e)) @ [points_to e])
      [0x2007]) @ [0xc0001000])"
    unfolding f[symmetric] by (rule pagedir_destroy_frees[OF demo_pd_ok])
      (auto simp: demo_pde points_to_def, auto simp: demo_mmu_def)
  then show ?thesis by (simp add: points_to_def present_frames_def) (simp add: demo_mmu_def)
qed

end
