(* ===== verification/Process.thy ===== *)
theory Process
  imports Synch
begin

text \<open>
  The life of a process: \<open>process_execute\<close>, \<open>start_process\<close> and \<open>process_wait\<close> of \<open>userprog/process.c\<close> and the part of
  \<open>syscall_exit\<close> of \<open>userprog/syscall.c\<close> that tells the parent, over the scheduler, the locks and the semaphores. A parent
  and its child share a \<open>struct exit\<close>, which \<open>thread_create\<close> has put in the parent's \<open>exit_list\<close> and in the child's \<open>exit\<close>.

  Calls are cut where they give up the processor, as in \<open>Synch\<close>: the value that is returned with the state says where the thread goes on
  when it runs again. What the loader does is an argument here; a structure that has been freed is not in \<open>exits\<close>, and
  an access to it is a \<open>Fault\<close>.
\<close>

section \<open>State\<close>

definition exiting_lock :: lockid where "exiting_lock = 0"
definition lock_exec :: lockid where "lock_exec = 1"
definition sema_exec :: sema_id where "sema_exec = PlainSema 0"

abbreviation TID_ERROR :: int where "TID_ERROR \<equiv> - 1"

text \<open>The scheduler and the variable \<open>success\<close>, which all processes share.\<close>

type_synonym pstate = "sched \<times> bool"

section \<open>Starting a process\<close>

text \<open>
  The name of the thread: \<open>strtok_r\<close> ends the first word of the copy of the command line, but the copy is passed on from its beginning.
  The copy has room for 50 bytes and is filled without regard to that.
\<close>

definition thread_name :: "u8 list \<Rightarrow> string" where
  "thread_name cmd = map (\<lambda>b. char_of (unat b))
     (takeWhile (\<lambda>b. b = 32) cmd @ takeWhile (\<lambda>b. b \<noteq> 32) (dropWhile (\<lambda>b. b = 32) cmd))"

datatype xpc = XLock "pending list" | XDown int | XLeave int "pending list" | XRet int

definition exec_finish :: "int \<Rightarrow> pstate \<Rightarrow> (xpc \<times> pstate) res" where
  "exec_finish tid ps = (case ps of (s, success) \<Rightarrow>
     let tid = (if \<not> success then TID_ERROR else tid)
     in bnd (lock_release s lock_exec) (\<lambda>(pend, s').
        Inr (if pend = [] \<and> running s' = running s then XRet tid else XLeave tid pend, s', success)))"

definition exec_down :: "int \<Rightarrow> pstate \<Rightarrow> (xpc \<times> pstate) res" where
  "exec_down tid ps = (case ps of (s, success) \<Rightarrow>
     bnd (sema_down s sema_exec) (\<lambda>(taken, s).
     if taken then exec_finish tid (s, success) else Inr (XDown tid, s, success)))"

definition exec_create :: "thr option \<Rightarrow> nat option \<Rightarrow> u8 list \<Rightarrow> pstate \<Rightarrow> (xpc \<times> pstate) res" where
  "exec_create page mem cmd ps = (case ps of (s, success) \<Rightarrow>
     bnd (thread_create s page mem (thread_name cmd) PRI_DEFAULT) (\<lambda>(tid, s').
     if running s' = running s then exec_down tid (s', success) else Inr (XDown tid, s', success)))"

text \<open>\<open>copy\<close>, \<open>page\<close> and \<open>mem\<close> are the results of the allocations of the command line's copy, the thread and its exit structure.\<close>

definition process_execute :: "nat \<Rightarrow> bool \<Rightarrow> thr option \<Rightarrow> nat option \<Rightarrow> u8 list \<Rightarrow> pstate \<Rightarrow> (xpc \<times> pstate) res" where
  "process_execute fuel copy page mem cmd ps = (case ps of (s, success) \<Rightarrow>
     if \<not> copy then Inr (XRet TID_ERROR, s, success)
     else if length cmd \<ge> 50 then Inl (Fault ''filename_copy'')
     else bnd (lock_acquire fuel s lock_exec) (\<lambda>(pend, s).
          if pend \<noteq> [] then Inr (XLock pend, s, success) else exec_create page mem cmd (s, success)))"

text \<open>The caller runs again.\<close>

definition x_resume :: "nat \<Rightarrow> thr option \<Rightarrow> nat option \<Rightarrow> u8 list \<Rightarrow> xpc \<Rightarrow> pstate \<Rightarrow> (xpc \<times> pstate) res" where
  "x_resume fuel page mem cmd pc ps = (case ps of (s, success) \<Rightarrow>
     case pc of
       XLock pend \<Rightarrow>
         bnd (resume fuel pend s) (\<lambda>(pend, s').
         if pend = [] \<and> running s' = running s then exec_create page mem cmd (s', success) else Inr (XLock pend, s', success))
     | XDown tid \<Rightarrow> exec_down tid ps
     | XLeave tid pend \<Rightarrow>
         bnd (resume fuel pend s) (\<lambda>(pend, s').
         Inr (if pend = [] \<and> running s' = running s then XRet tid else XLeave tid pend, s', success))
     | XRet tid \<Rightarrow> Inr (XRet tid, ps))"

text \<open>The new thread: \<open>ok\<close> is the result of \<open>load\<close>. After \<open>sema_up\<close> it looks at the shared variable again.\<close>

datatype spc = SCheck | SUser | SDead

definition start_check :: "pstate \<Rightarrow> (spc \<times> pstate) res" where
  "start_check ps = (case ps of (s, success) \<Rightarrow>
     if \<not> success then bnd (thread_exit s) (\<lambda>s. Inr (SDead, s, success)) else Inr (SUser, s, success))"

definition start_process :: "bool \<Rightarrow> pstate \<Rightarrow> (spc \<times> pstate) res" where
  "start_process ok ps = (case ps of (s, _) \<Rightarrow>
     bnd (sema_up s sema_exec) (\<lambda>s'.
     if running s' = running s then start_check (s', ok) else Inr (SCheck, s', ok)))"

section \<open>Waiting for a child\<close>

datatype wpc = WDown nat | WRet int

fun find_child :: "sched \<Rightarrow> int \<Rightarrow> int \<Rightarrow> nat list \<Rightarrow> nat option res" where
  "find_child s parent child [] = Inr None"
| "find_child s parent child (e # es) =
     (case exits s e of
        None \<Rightarrow> Inl (Fault ''exit structure'')
      | Some ex \<Rightarrow> if ex_parent ex = parent \<and> ex_child ex = child then Inr (Some e) else find_child s parent child es)"

definition wait_down :: "sched \<Rightarrow> nat \<Rightarrow> (wpc \<times> sched) res" where
  "wait_down s e =
     bnd (sema_down s (ExitSema e)) (\<lambda>(taken, s).
     if taken
     then case exits s e of
            None \<Rightarrow> Inl (Fault ''exit structure'')
          | Some ex \<Rightarrow> (case ex_status ex of None \<Rightarrow> Inl (Fault ''exit status'') | Some ans \<Rightarrow> Inr (WRet ans, s))
     else Inr (WDown e, s))"

definition process_wait :: "sched \<Rightarrow> int \<Rightarrow> (wpc \<times> sched) res" where
  "process_wait s child_tid =
     bnd (thread_current s) (\<lambda>cur.
     bnd (find_child s (t_tid (th s cur)) child_tid (exit_list (th s cur))) (\<lambda>r.
     case r of
       None \<Rightarrow> Inr (WRet (- 1), s)
     | Some e \<Rightarrow> wait_down (upd_thread s cur (\<lambda>t. t\<lparr>exit_list := remove1 e (exit_list t)\<rparr>)) e))"

section \<open>Exit\<close>

text \<open>
  The children are marked as abandoned. The structure of a child that has exited is freed before it is marked.
\<close>

fun reap :: "sched \<Rightarrow> nat list \<Rightarrow> sched res" where
  "reap s [] = Inr s"
| "reap s (e # es) =
     (case exits s e of
        None \<Rightarrow> Inl (Fault ''exit structure'')
      | Some ex \<Rightarrow>
          let s = (if sema_value (semas s (ExitSema e)) > 0 then s\<lparr>exits := (exits s)(e := None)\<rparr> else s)
          in if exits s e = None then Inl (Fault ''use after free'')
             else reap (s\<lparr>exits := (exits s)(e \<mapsto> ex\<lparr>ex_abandoned := True\<rparr>)\<rparr>) es)"

datatype epc = ELock "pending list" | ETail nat | ELeave "pending list" | EDead

definition exit_leave :: "nat \<Rightarrow> sched \<Rightarrow> (epc \<times> sched) res" where
  "exit_leave e s =
     (case exits s e of
        None \<Rightarrow> Inl (Fault ''exit structure'')
      | Some ex \<Rightarrow>
          let s = (if ex_abandoned ex then s\<lparr>exits := (exits s)(e := None)\<rparr> else s)
          in bnd (lock_release s exiting_lock) (\<lambda>(pend, s').
             if pend = [] \<and> running s' = running s then bnd (thread_exit s') (\<lambda>s. Inr (EDead, s)) else Inr (ELeave pend, s')))"

text \<open>The structures are updated and the parent is told; after that the thread may have lost the processor.\<close>

definition exit_signal :: "sched \<Rightarrow> int \<Rightarrow> (nat \<times> sched) res" where
  "exit_signal s st =
     bnd (thread_current s) (\<lambda>cur.
     bnd (reap s (exit_list (th s cur))) (\<lambda>s.
     let s = upd_thread s cur (\<lambda>t. t\<lparr>exit_list := []\<rparr>)
     in case exit_of (th s cur) of
          None \<Rightarrow> Inl (Fault ''exit'')
        | Some e \<Rightarrow>
            case exits s e of
              None \<Rightarrow> Inl (Fault ''exit structure'')
            | Some ex \<Rightarrow>
                bnd (sema_up (s\<lparr>exits := (exits s)(e \<mapsto> ex\<lparr>ex_status := Some st\<rparr>)\<rparr>) (ExitSema e)) (\<lambda>s. Inr (e, s))))"

definition exit_report :: "sched \<Rightarrow> int \<Rightarrow> (epc \<times> sched) res" where
  "exit_report s st =
     bnd (exit_signal s st) (\<lambda>(e, s'). if running s' = running s then exit_leave e s' else Inr (ETail e, s'))"

definition exit_notify :: "nat \<Rightarrow> sched \<Rightarrow> int \<Rightarrow> (epc \<times> sched) res" where
  "exit_notify fuel s st =
     bnd (lock_acquire fuel s exiting_lock) (\<lambda>(pend, s).
     if pend \<noteq> [] then Inr (ELock pend, s) else exit_report s st)"

definition e_resume :: "nat \<Rightarrow> int \<Rightarrow> epc \<Rightarrow> sched \<Rightarrow> (epc \<times> sched) res" where
  "e_resume fuel st pc s = (case pc of
       ELock pend \<Rightarrow>
         bnd (resume fuel pend s) (\<lambda>(pend, s').
         if pend = [] \<and> running s' = running s then exit_report s' st else Inr (ELock pend, s'))
     | ETail e \<Rightarrow> exit_leave e s
     | ELeave pend \<Rightarrow>
         bnd (resume fuel pend s) (\<lambda>(pend, s').
         if pend = [] \<and> running s' = running s then bnd (thread_exit s') (\<lambda>s. Inr (EDead, s)) else Inr (ELeave pend, s'))
     | EDead \<Rightarrow> Inr (EDead, s))"

section \<open>The parent gets the status\<close>

lemma upd_sema_exits [simp]: "exits (upd_sema s i f) = exits s"
  by (simp add: upd_sema_def)

lemma synch_upd_exits [simp]: "synch_ok (s\<lparr>exits := x\<rparr>) = synch_ok s"
  by (simp add: synch_ok_def)

definition abandon :: "nat list \<Rightarrow> (nat \<Rightarrow> exit_rec option) \<Rightarrow> nat \<Rightarrow> exit_rec option" where
  "abandon es X e = (if e \<in> set es then map_option (\<lambda>x. x\<lparr>ex_abandoned := True\<rparr>) (X e) else X e)"

lemma reap_ok:
  assumes "\<forall>e \<in> set es. exits s e \<noteq> None \<and> sema_value (semas s (ExitSema e)) = 0"
  shows "reap s es = Inr (s\<lparr>exits := abandon es (exits s)\<rparr>)"
  using assms
proof (induction es arbitrary: s)
  case Nil
  then show ?case by (simp add: abandon_def[abs_def])
next
  case (Cons e es)
  then obtain ex where ex: "exits s e = Some ex" by auto
  define X where "X = (exits s)(e \<mapsto> ex\<lparr>ex_abandoned := True\<rparr>)"
  have a: "abandon es X = abandon (e # es) (exits s)" using ex by (auto simp: abandon_def fun_eq_iff X_def)
  have "\<forall>e \<in> set es. X e \<noteq> None" using Cons.prems by (simp add: X_def)
  then have "reap (s\<lparr>exits := X\<rparr>) es = Inr (s\<lparr>exits := abandon es X\<rparr>)" using Cons.IH[of "s\<lparr>exits := X\<rparr>"] Cons.prems by simp
  then show ?case using ex Cons.prems a by (simp add: X_def)
qed

text \<open>The parts of the scheduler's state that these calls read survive a switch.\<close>

lemma sema_down_exits: "sema_down s i = Inr (b, s') \<Longrightarrow> exits s' = exits s"
  by (auto simp: sema_down_def res_iffs split: if_splits dest!: objs_block) (auto simp: objs_def upd_sema_def)

lemma sema_up_exits: "sema_up s i = Inr s' \<Longrightarrow> exits s' = exits s"
  by (auto simp: sema_up_def Let_def split: list.splits dest!: objs_unblock) (auto simp: objs_def upd_sema_def)

lemma wait_down_ok:
  assumes "synch_ok s" and "\<not> intr_context s" and "Some (running s) \<noteq> idle_thread s"
    and "exits s e = Some ex" and "0 < sema_value (semas s (ExitSema e)) \<longrightarrow> ex_status ex = Some v"
  shows "\<exists>s'. synch_ok s' \<and> wait_down s e = Inr (if 0 < sema_value (semas s (ExitSema e)) then WRet v else WDown e, s') \<and>
    (sema_value (semas s (ExitSema e)) = 0 \<longrightarrow> waiters (semas s' (ExitSema e)) = waiters (semas s (ExitSema e)) @ [running s])"
proof -
  from sema_down_ok[OF assms(1-3), of "ExitSema e"] obtain b s' where
    d: "sema_down s (ExitSema e) = Inr (b, s')" "synch_ok s'" "b \<longleftrightarrow> 0 < sema_value (semas s (ExitSema e))"
    "waiters (semas s' (ExitSema e)) = waiters (semas s (ExitSema e)) @ (if b then [] else [running s])" by blast
  then show ?thesis using sema_down_exits[OF d(1)] assms(4,5) by (auto simp: wait_down_def)
qed

lemma synch_exit_list [simp]:
  assumes "synch_ok s"
  shows "synch_ok (upd_thread s (running s) (\<lambda>t. t\<lparr>exit_list := f t\<rparr>))"
proof -
  let ?s = "upd_thread s (running s) (\<lambda>t. t\<lparr>exit_list := f t\<rparr>)"
  have "sched_ok ?s" using assms by (intro running_upd_ok) (auto simp: synch_ok_def)
  moreover have "is_blocked (threads ?s) u = is_blocked (threads s) u" for u
    by (auto simp: is_blocked_def upd_thread_def)
  ultimately show ?thesis using assms by (simp add: synch_ok_def waiters_ok_def)
qed

text \<open>The list of exit structures of a thread: its children, with different thread identifiers.\<close>

definition kids_ok :: "sched \<Rightarrow> int \<Rightarrow> nat list \<Rightarrow> bool" where
  "kids_ok s p es \<longleftrightarrow> (\<forall>e \<in> set es. \<exists>x. exits s e = Some x \<and> ex_parent x = p) \<and> distinct (map (\<lambda>e. ex_child (the (exits s e))) es)"

lemma find_child_none:
  "\<forall>e \<in> set es. \<exists>x. exits s e = Some x \<and> ex_child x \<noteq> c \<Longrightarrow> find_child s p c es = Inr None"
  by (induction es) auto

lemma find_child_ok:
  assumes "kids_ok s p es" and "e \<in> set es" and "exits s e = Some x"
  shows "find_child s p (ex_child x) es = Inr (Some e)" and "find_child s p (ex_child x) (remove1 e es) = Inr None"
proof -
  have d: "distinct (map (\<lambda>e. ex_child (the (exits s e))) es)" and k: "\<forall>e \<in> set es. \<exists>x. exits s e = Some x \<and> ex_parent x = p"
    using assms(1) by (simp_all add: kids_ok_def)
  have u: "e' = e" if "e' \<in> set es" "exits s e' = Some y" "ex_child y = ex_child x" for e' y
    using d that assms(2,3) by (metis distinct_map inj_on_def option.sel)
  have ne: "distinct es" using d by (simp add: distinct_map)
  have "\<exists>y. exits s e' = Some y \<and> ex_child y \<noteq> ex_child x" if "e' \<in> set (remove1 e es)" for e'
    using that k u ne by (metis DiffE insertI1 notin_set_remove1 set_remove1_eq)
  then show "find_child s p (ex_child x) (remove1 e es) = Inr None" by (intro find_child_none) blast
  show "find_child s p (ex_child x) es = Inr (Some e)" using assms(2) k u
  proof (induction es)
    case (Cons a es)
    obtain y where y: "exits s a = Some y" "ex_parent y = p" using Cons.prems(2) by auto
    show ?case
    proof (cases "a = e")
      case True
      then show ?thesis using y assms(3) by simp
    next
      case False
      then have "ex_child y \<noteq> ex_child x" using Cons.prems(3)[of a y] y(1) by auto
      moreover have "find_child s p (ex_child x) es = Inr (Some e)"
        using Cons.IH Cons.prems False by (metis list.set_intros(2) set_ConsD)
      ultimately show ?thesis using y(1) by simp
    qed
  qed simp
qed

lemma exit_signal_ok:
  assumes ok: "synch_ok s" and e: "exit_of (th s (running s)) = Some e" "exits s e \<noteq> None" "e \<notin> set (exit_list (th s (running s)))"
    and w: "sema_value (semas s (ExitSema e)) = 0"
    and kids: "\<forall>k \<in> set (exit_list (th s (running s))). exits s k \<noteq> None \<and> sema_value (semas s (ExitSema k)) = 0"
  shows "\<exists>s' x. exit_signal s v = Inr (e, s') \<and> synch_ok s' \<and> sema_value (semas s' (ExitSema e)) = 1 \<and> exits s' e = Some x \<and>
    ex_status x = Some v \<and> (\<forall>t. waiters (semas s (ExitSema e)) = [t] \<longrightarrow> \<not> is_blocked (threads s') t)"
proof -
  let ?cur = "running s"
  obtain ex where ex: "exits s e = Some ex" using e(2) by blast
  define s1 where "s1 = upd_thread (s\<lparr>exits := abandon (exit_list (th s ?cur)) (exits s)\<rparr>) ?cur (\<lambda>t. t\<lparr>exit_list := []\<rparr>)"
  define s2 where "s2 = s1\<lparr>exits := (exits s1)(e \<mapsto> ex\<lparr>ex_status := Some v\<rparr>)\<rparr>"
  have so: "sched_ok s" using ok by (simp add: synch_ok_def)
  have x1: "exits s1 e = Some ex" using ex e(3) by (simp add: s1_def abandon_def)
  have o1: "synch_ok s1" unfolding s1_def using synch_exit_list[of "s\<lparr>exits := abandon (exit_list (th s ?cur)) (exits s)\<rparr>" "\<lambda>_. []"] ok by simp
  have o2: "synch_ok s2" using o1 by (simp add: s2_def)
  have m: "semas s2 = semas s" by (simp add: s2_def s1_def)
  have eo: "exit_of (th s1 ?cur) = Some e"
    using e(1) so by (auto simp: s1_def th_def upd_thread_def elim!: sched_okE)
  from sema_up_ok[OF o2, of "ExitSema e"] obtain s' where u: "sema_up s2 (ExitSema e) = Inr s'" "synch_ok s'"
    "sema_value (semas s' (ExitSema e)) = 1" "waiters (semas s (ExitSema e)) \<noteq> [] \<longrightarrow>
      (\<exists>t. first_max (\<lambda>t. priority (th s2 t)) (waiters (semas s (ExitSema e))) t \<and> \<not> is_blocked (threads s') t)"
    using w m by auto
  have "exits s' e = Some (ex\<lparr>ex_status := Some v\<rparr>)" using sema_up_exits[OF u(1)] by (simp add: s2_def)
  moreover have "exit_signal s v = Inr (e, s')"
    using thread_current_ok[OF so] reap_ok[OF kids] eo x1 u(1)
    by (simp add: exit_signal_def Let_def s1_def[symmetric] s2_def[symmetric])
  moreover have "\<not> is_blocked (threads s') t" if "waiters (semas s (ExitSema e)) = [t]" for t
    using u(4) that first_max_mem by fastforce
  ultimately show ?thesis using u by auto
qed


text \<open>
  (C25) A process that exits while a child of its has exited and has not been waited for writes to memory it has just freed: \<open>syscall_exit\<close>
  frees the structure of the child and then marks it as abandoned.
\<close>

theorem exit_use_after_free:
  assumes "sched_ok s" and "e \<in> set (exit_list (th s (running s)))" and "0 < sema_value (semas s (ExitSema e))"
    and "\<forall>k \<in> set (exit_list (th s (running s))). exits s k \<noteq> None"
  shows "exit_signal s v = Inl (Fault ''use after free'')"
proof -
  have "reap s es = Inl (Fault ''use after free'')"
    if "e \<in> set es" "0 < sema_value (semas s (ExitSema e))" "\<forall>k \<in> set es. exits s k \<noteq> None" for s es
    using that
  proof (induction es arbitrary: s)
    case (Cons a es)
    obtain x where x: "exits s a = Some x" using Cons.prems(3) by auto
    show ?case
    proof (cases "0 < sema_value (semas s (ExitSema a))")
      case True
      then show ?thesis using x by simp
    next
      case False
      then have "e \<in> set es" using Cons.prems(1,2) by auto
      then show ?thesis using Cons.IH[of "s\<lparr>exits := (exits s)(a \<mapsto> x\<lparr>ex_abandoned := True\<rparr>)\<rparr>"] Cons.prems False x by simp
    qed
  qed simp
  from this[OF assms(2-4)] show ?thesis using thread_current_ok[OF assms(1)] by (simp add: exit_signal_def)
qed

text \<open>
  When there is no memory for the new thread, \<open>process_execute\<close> does not return: it waits for \<open>sema_exec\<close> before it looks at
  the result of \<open>thread_create\<close>, no thread has been made that could raise it, and the caller sleeps holding \<open>lock_exec\<close>.
\<close>

theorem exec_without_memory_hangs:
  assumes "length cmd < 50" and "lock_acquire fuel s lock_exec = Inr ([], s1)" and "synch_ok s1" and "\<not> intr_context s1"
    and "Some (running s1) \<noteq> idle_thread s1" and "sema_value (semas s1 sema_exec) = 0" and "holder (locks s1 lock_exec) = Some (running s1)"
  shows "\<exists>s2. process_execute fuel True None mem cmd (s, b) = Inr (XDown TID_ERROR, s2, b) \<and> synch_ok s2 \<and>
    running s1 \<in> set (waiters (semas s2 sema_exec)) \<and> holder (locks s2 lock_exec) = Some (running s1)"
proof -
  from sema_down_ok[OF assms(3-5), of sema_exec] obtain d s2 where
    d: "sema_down s1 sema_exec = Inr (d, s2)" "synch_ok s2" "d \<longleftrightarrow> 0 < sema_value (semas s1 sema_exec)"
    "waiters (semas s2 sema_exec) = waiters (semas s1 sema_exec) @ (if d then [] else [running s1])" by blast
  have "thread_create s1 None mem n p = Inr (- 1, s1)" for n p by (simp add: thread_create_def)
  then have "process_execute fuel True None mem cmd (s, b) = Inr (XDown TID_ERROR, s2, b)"
    using assms(1,2,6) d(1,3) by (simp add: process_execute_def exec_create_def exec_down_def)
  moreover have "same_locks s1 s2" using sema_down_locks[OF d(1)] d(3) assms(6) by simp
  ultimately show ?thesis using d assms(6,7) by (auto simp: same_locks_def)
qed

section \<open>A parent and its child\<close>

text \<open>The main thread has a child, with the exit structure 40, which has exited with status 7 if \<open>dead\<close>.\<close>

definition family :: "bool \<Rightarrow> sched" where
  "family dead = low_sched\<lparr>exits := [40 \<mapsto> \<lparr>ex_abandoned = False, ex_status = if dead then Some 7 else None, ex_child = 3, ex_parent = 1\<rparr>],
     semas := (\<lambda>i. \<lparr>sema_value = if dead \<and> i = ExitSema 40 then 1 else 0, waiters = []\<rparr>)\<rparr>"

lemma family_ok: "synch_ok (family dead)"
  using low_sched_ok by (simp add: family_def synch_ok_def waiters_ok_def)

lemma family_fields:
  "running (family d) = 10" "th (family d) 10 = (boot_thread 1 ''main'' THREAD_RUNNING PRI_DEFAULT)\<lparr>exit_list := [40]\<rparr>"
  "idle_thread (family d) = Some 20" "\<not> intr_context (family d)"
  "exits (family d) = [40 \<mapsto> \<lparr>ex_abandoned = False, ex_status = if d then Some 7 else None, ex_child = 3, ex_parent = 1\<rparr>]"
  "sema_value (semas (family d) (ExitSema 40)) = (if d then 1 else 0)"
  by (simp_all add: family_def low_sched_def th_def boot_fields)


theorem exit_use_after_free_witness: "exit_signal (family True) 0 = Inl (Fault ''use after free'')"
  using exit_use_after_free[of "family True" 40 0] family_ok[of True]
  by (simp add: family_fields synch_ok_def)

theorem exec_without_memory_hangs_witness:
  "\<exists>s2. process_execute 5 True None None [97] (all_locks_free, True) = Inr (XDown TID_ERROR, s2, True) \<and>
     10 \<in> set (waiters (semas s2 sema_exec))"
proof -
  let ?s = "upd_lock (upd_sema all_locks_free (LockSema lock_exec) (\<lambda>m. m\<lparr>sema_value := sema_value m - 1\<rparr>)) lock_exec (\<lambda>k. k\<lparr>holder := Some 10\<rparr>)"
  have f: "running all_locks_free = 10" "\<not> intr_context all_locks_free" "idle_thread all_locks_free = Some 20"
    "holder (locks all_locks_free lock_exec) = None" "semas all_locks_free (LockSema lock_exec) = \<lparr>sema_value = 1, waiters = []\<rparr>"
    "semas all_locks_free sema_exec = \<lparr>sema_value = 0, waiters = []\<rparr>"
    by (simp_all add: all_locks_free_def boot_fields sema_exec_def)
  have t: "thread_current all_locks_free = Inr 10" using thread_current_ok[OF all_locks_free_ok(2)] f(1) by simp
  then have "thread_current (upd_sema all_locks_free i g) = Inr 10" for i g by (simp add: thread_current_def upd_sema_def is_thread_def th_def)
  then have a: "lock_acquire 5 all_locks_free lock_exec = Inr ([], ?s)"
    using t f by (simp add: lock_acquire_def acquire_donate_def lock_held_by_current_thread_def lock_take_def sema_down_def)
  have "synch_ok ?s" using all_locks_free_ok(2)
    by (simp add: synch_ok_def waiters_ok_def upd_lock_def all_locks_free_def upd_sema_def split: sema_id.split)
  from exec_without_memory_hangs[OF _ a this, of "[97]" None True] f show ?thesis
    by (auto simp: upd_lock_def upd_sema_def sema_exec_def lock_exec_def)
qed

end
