(* ===== verification/Syscall.thy ===== *)
theory Syscall
  imports Filesys_Create Pagedir Process
begin

text \<open>
  System calls, \<open>userprog/syscall.c\<close>: the checks of user pointers, the table of file descriptors and the handlers
  that pass the calls on to the file system. The state is that of the calling process together with
  the file system: its open files in the order of \<open>fd_list\<close>, its current directory, its executable, and memory as the
  kernel sees it through the page directory of the process, byte by byte, with \<open>None\<close> for addresses in pages that are not present;
  addresses from \<open>PHYS_BASE\<close> on are the kernel's own memory. \<open>p_ps\<close> is the state of the scheduler, in which the
  calling process is the running thread. A call returns a value, ends the process, halts the machine, or gives up the processor inside
  \<open>process_execute\<close> or \<open>process_wait\<close>, with the place where it goes on. \<open>syscall_exit\<close> here is its work on files and the page directory;
  what it does to the structures through which the parent learns the exit status is \<open>exit_notify\<close> of the theory of processes.

  An access to an address that is not present, where the code reads a word or a string before it does anything else,
  ends the process with status -1, as \<open>page_fault\<close> does. Inside the copy loops of the file system, which hold locks, it is a \<open>Fault\<close>.
\<close>

section \<open>State\<close>

record fdesc =
  fd :: int
  fd_is_dir :: bool
  file_ptr :: open_file
  fd_dir :: "dir option"

record proc =
  p_fs :: fs
  fd_list :: "fdesc list"
  cur_dir :: dir
  exe :: "open_file option"
  mem :: "u32 \<Rightarrow> u8 option"
  input :: "u8 list"
  console :: "u8 list"
  p_ps :: pstate

datatype 'a out = Ret 'a | Exit int | Halt | In_exec xpc | In_wait wpc

type_synonym 'a sys = "('a out \<times> proc) res"

definition sbnd :: "'a sys \<Rightarrow> ('a \<Rightarrow> proc \<Rightarrow> 'b sys) \<Rightarrow> 'b sys" where
  "sbnd r k = bnd r (\<lambda>(out, p). case out of Ret v \<Rightarrow> k v p | Exit st \<Rightarrow> Inr (Exit st, p) | Halt \<Rightarrow> Inr (Halt, p)
     | In_exec pc \<Rightarrow> Inr (In_exec pc, p) | In_wait pc \<Rightarrow> Inr (In_wait pc, p))"

lemma sbnd_simps [simp]:
  "sbnd (Inr (Ret v, p)) k = k v p" "sbnd (Inr (Exit st, p)) k = Inr (Exit st, p)" "sbnd (Inr (Halt, p)) k = Inr (Halt, p)"
  "sbnd (Inr (In_exec x, p)) k = Inr (In_exec x, p)" "sbnd (Inr (In_wait w, p)) k = Inr (In_wait w, p)" "sbnd (Inl e) k = Inl e"
  by (simp_all add: sbnd_def)

text \<open>A call of the file system.\<close>

definition lift_fs :: "('a \<times> fs) res \<Rightarrow> proc \<Rightarrow> 'a sys" where
  "lift_fs r p = bnd r (\<lambda>(v, s). Inr (Ret v, p\<lparr>p_fs := s\<rparr>))"

section \<open>Exit\<close>

fun close_all :: "fs \<Rightarrow> fdesc list \<Rightarrow> fs res" where
  "close_all s [] = Inr s"
| "close_all s (x # xs) = bnd (file_close s (Some (file_ptr x))) (\<lambda>s. close_all s xs)"

text \<open>\<open>process_exit\<close> of \<open>userprog/process.c\<close>; the end of the page directory takes the user's memory away.\<close>

definition process_exit :: "proc \<Rightarrow> proc res" where
  "process_exit p =
     bnd (file_close (p_fs p) (exe p)) (\<lambda>s.
     bnd (dir_close s (Some (cur_dir p))) (\<lambda>s.
     Inr (p\<lparr>p_fs := s, exe := None, mem := (\<lambda>a. if a < PHYS_BASE then None else mem p a)\<rparr>)))"

definition syscall_exit :: "proc \<Rightarrow> int \<Rightarrow> 'a sys" where
  "syscall_exit p st =
     bnd (close_all (p_fs p) (fd_list p)) (\<lambda>s.
     bnd (process_exit (p\<lparr>p_fs := s, fd_list := []\<rparr>)) (\<lambda>p. Inr (Exit st, p)))"

text \<open>\<open>page_fault\<close> of \<open>userprog/exception.c\<close>, for an access of the kernel to the memory of the process.\<close>

definition page_fault :: "proc \<Rightarrow> 'a sys" where
  "page_fault p = syscall_exit p (- 1)"

section \<open>User memory\<close>

definition check_pointer :: "proc \<Rightarrow> u32 \<Rightarrow> unit sys" where
  "check_pointer p a =
     (if a = 0 then syscall_exit p (- 1)
      else if a \<ge> PHYS_BASE then syscall_exit p (- 1)
      else if mem p a = None then syscall_exit p (- 1)
      else Inr (Ret (), p))"

definition read_word :: "proc \<Rightarrow> u32 \<Rightarrow> u32 sys" where
  "read_word p a =
     (case (mem p a, mem p (a + 1), mem p (a + 2), mem p (a + 3)) of
        (Some b0, Some b1, Some b2, Some b3) \<Rightarrow> Inr (Ret (le_word b0 b1 b2 b3), p)
      | _ \<Rightarrow> page_fault p)"

text \<open>\<open>*(unsigned *) syscall_read_stack (f, locale)\<close>, with the stack pointer \<open>esp\<close>.\<close>

definition stack_arg :: "proc \<Rightarrow> u32 \<Rightarrow> nat \<Rightarrow> u32 sys" where
  "stack_arg p esp i = sbnd (check_pointer p (esp + of_nat (4 * i))) (\<lambda>_ p. read_word p (esp + of_nat (4 * i)))"

text \<open>The string at a user address. The bound is the size of the address space: \<open>strlen\<close> that finds no terminator in it would run on.\<close>

fun read_str :: "nat \<Rightarrow> proc \<Rightarrow> u32 \<Rightarrow> u8 list sys" where
  "read_str 0 p a = Inl OutOfFuel"
| "read_str (Suc n) p a =
     (case mem p a of
        None \<Rightarrow> page_fault p
      | Some b \<Rightarrow> if b = 0 then Inr (Ret [], p) else sbnd (read_str n p (a + 1)) (\<lambda>bs p. Inr (Ret (b # bs), p)))"

definition str_arg :: "nat \<Rightarrow> proc \<Rightarrow> u32 \<Rightarrow> nat \<Rightarrow> u8 list sys" where
  "str_arg fuel p esp i = sbnd (stack_arg p esp i) (\<lambda>a p. sbnd (check_pointer p a) (\<lambda>_ p. read_str fuel p a))"

text \<open>Copies between a buffer at a user address and the kernel. Only its first byte has been checked.\<close>

fun copy_in :: "proc \<Rightarrow> u32 \<Rightarrow> nat \<Rightarrow> u8 list res" where
  "copy_in p a 0 = Inr []"
| "copy_in p a (Suc n) =
     (case mem p a of None \<Rightarrow> Inl (Fault ''user buffer'') | Some b \<Rightarrow> bnd (copy_in p (a + 1) n) (\<lambda>bs. Inr (b # bs)))"

fun copy_out :: "proc \<Rightarrow> u32 \<Rightarrow> u8 list \<Rightarrow> proc res" where
  "copy_out p a [] = Inr p"
| "copy_out p a (b # bs) =
     (case mem p a of None \<Rightarrow> Inl (Fault ''user buffer'') | Some _ \<Rightarrow> copy_out (p\<lparr>mem := (mem p)(a \<mapsto> b)\<rparr>) (a + 1) bs)"

section \<open>File descriptors\<close>

definition check_fd :: "proc \<Rightarrow> int \<Rightarrow> fdesc sys" where
  "check_fd p n = (case find (\<lambda>x. fd x = n) (fd_list p) of None \<Rightarrow> syscall_exit p (- 1) | Some x \<Rightarrow> Inr (Ret x, p))"

text \<open>The file of a descriptor has a new position.\<close>

definition set_file :: "proc \<Rightarrow> int \<Rightarrow> open_file \<Rightarrow> proc" where
  "set_file p n f = p\<lparr>fd_list := map (\<lambda>x. if fd x = n then x\<lparr>file_ptr := f\<rparr> else x) (fd_list p)\<rparr>"

definition set_dir :: "proc \<Rightarrow> int \<Rightarrow> dir \<Rightarrow> proc" where
  "set_dir p n d = p\<lparr>fd_list := map (\<lambda>x. if fd x = n then x\<lparr>fd_dir := Some d\<rparr> else x) (fd_list p)\<rparr>"

definition close_fd :: "proc \<Rightarrow> int \<Rightarrow> unit sys" where
  "close_fd p n =
     sbnd (check_fd p n) (\<lambda>x p.
     bnd (file_close (p_fs p) (Some (file_ptr x))) (\<lambda>s.
     bnd (dir_close s (fd_dir x)) (\<lambda>s.
     Inr (Ret (), p\<lparr>p_fs := s, fd_list := filter (\<lambda>y. fd y \<noteq> n) (fd_list p)\<rparr>))))"

text \<open>The loop of \<open>sys_open\<close>: the value of \<open>lowest\<close> at its end, and the list up to and from the element where it stops.\<close>

fun fd_slot :: "int \<Rightarrow> fdesc list \<Rightarrow> int \<times> fdesc list \<times> fdesc list" where
  "fd_slot lowest [] = (lowest, [], [])"
| "fd_slot lowest (x # xs) =
     (if fd x > lowest + 1 then (lowest, [], x # xs)
      else case fd_slot (fd x) xs of (l, ys, zs) \<Rightarrow> (l, x # ys, zs))"

section \<open>The calls\<close>

text \<open>\<open>m\<close> and \<open>junk\<close> are the allocator and the uninitialised entry of the directory code.\<close>

definition sys_create :: "nat \<Rightarrow> memory \<Rightarrow> u8 list \<Rightarrow> proc \<Rightarrow> u32 \<Rightarrow> bool sys" where
  "sys_create fuel m junk p esp =
     sbnd (stack_arg p esp 1) (\<lambda>a p.
     sbnd (check_pointer p a) (\<lambda>_ p.
     sbnd (stack_arg p esp 2) (\<lambda>initial_size p.
     sbnd (read_str fuel p a) (\<lambda>name p.
     lift_fs (filesys_create m (calloc_ok m (p_fs p)) junk (p_fs p) (cur_dir p) name (sint initial_size)) p))))"

definition sys_remove :: "nat \<Rightarrow> memory \<Rightarrow> proc \<Rightarrow> u32 \<Rightarrow> bool sys" where
  "sys_remove fuel m p esp =
     sbnd (str_arg fuel p esp 1) (\<lambda>name p.
     lift_fs (filesys_remove m (calloc_ok m (p_fs p)) (p_fs p) (cur_dir p) name) p)"

definition sys_open :: "nat \<Rightarrow> memory \<Rightarrow> proc \<Rightarrow> u32 \<Rightarrow> int sys" where
  "sys_open fuel m p esp =
     sbnd (str_arg fuel p esp 1) (\<lambda>name p.
     sbnd (lift_fs (filesys_open m (calloc_ok m (p_fs p)) (p_fs p) (cur_dir p) name) p) (\<lambda>r p.
     case r of
       None \<Rightarrow> Inr (Ret (- 1), p)
     | Some f \<Rightarrow>
         let (lowest, before, after) = fd_slot 1 (fd_list p); inode = file_get_inode f
         in if \<not> calloc_ok m (p_fs p) then Inl (Fault ''malloc'')
            else let is_dir = inode_is_dir (p_fs p) inode
                 in bnd (if is_dir then dir_open m (inode_reopen (p_fs p) inode) (Some inode) else Inr (None, p_fs p)) (\<lambda>(d, s).
                    Inr (Ret (lowest + 1), p\<lparr>p_fs := s, fd_list := before @
                      \<lparr>fd = lowest + 1, fd_is_dir = is_dir, file_ptr = f, fd_dir = d\<rparr> # after\<rparr>))))"

definition sys_filesize :: "proc \<Rightarrow> u32 \<Rightarrow> int sys" where
  "sys_filesize p esp =
     sbnd (stack_arg p esp 1) (\<lambda>n p.
     sbnd (check_fd p (sint n)) (\<lambda>x p.
     bnd (file_length (p_fs p) (Some (file_ptr x))) (\<lambda>l. Inr (Ret l, p))))"

text \<open>The loop that reads the keyboard up to a carriage return; a key that is not there yet is waited for.\<close>

fun read_keys :: "proc \<Rightarrow> u32 \<Rightarrow> nat \<Rightarrow> int sys" where
  "read_keys p buffer 0 = Inr (Ret 0, p)"
| "read_keys p buffer (Suc n) =
     (case input p of
        [] \<Rightarrow> Inl (Blocked ''input_getc'')
      | key # keys \<Rightarrow>
          let p = p\<lparr>input := keys\<rparr>
          in case mem p buffer of
               None \<Rightarrow> page_fault p
             | Some _ \<Rightarrow>
                 let p = p\<lparr>mem := (mem p)(buffer \<mapsto> key)\<rparr>
                 in if key = 13 then Inr (Ret 1, p)
                    else sbnd (read_keys p (buffer + 1) n) (\<lambda>k p. Inr (Ret (1 + k), p)))"

definition sys_read :: "proc \<Rightarrow> u32 \<Rightarrow> int sys" where
  "sys_read p esp =
     sbnd (stack_arg p esp 1) (\<lambda>n p.
     sbnd (stack_arg p esp 2) (\<lambda>buffer p.
     sbnd (check_pointer p buffer) (\<lambda>_ p.
     sbnd (stack_arg p esp 3) (\<lambda>sz p.
     if sint n = 0 then read_keys p buffer (unat sz)
     else sbnd (check_fd p (sint n)) (\<lambda>x p.
          bnd (file_read (p_fs p) (file_ptr x) (sint sz)) (\<lambda>(bs, f, s).
          bnd (copy_out ((set_file p (sint n) f)\<lparr>p_fs := s\<rparr>) buffer bs) (\<lambda>p. Inr (Ret (int (length bs)), p))))))))"

text \<open>\<open>putbuf\<close> in pieces of 400 bytes.\<close>

function put_pieces :: "proc \<Rightarrow> u32 \<Rightarrow> nat \<Rightarrow> int \<Rightarrow> (int \<times> proc) res" where
  "put_pieces p buffer sz ans =
     (if sz > 400
      then bnd (copy_in p buffer 400) (\<lambda>bs.
           put_pieces (p\<lparr>console := console p @ bs\<rparr>) (buffer + 400) (sz - 400) (wrap32 (ans + 400)))
      else bnd (copy_in p buffer sz) (\<lambda>bs. Inr (wrap32 (ans + int sz), p\<lparr>console := console p @ bs\<rparr>)))"
  by pat_completeness auto
termination by (relation "measure (\<lambda>(p, buffer, sz, ans). sz)") auto

declare put_pieces.simps [simp del]

text \<open>The bytes to write are fetched first: where one of them is not present the model stops with a fault also when the
  file system would have stopped before reading it, because writes are denied or the device is full.\<close>

definition sys_write :: "proc \<Rightarrow> u32 \<Rightarrow> int sys" where
  "sys_write p esp =
     sbnd (stack_arg p esp 1) (\<lambda>n p.
     sbnd (stack_arg p esp 2) (\<lambda>buffer p.
     sbnd (check_pointer p buffer) (\<lambda>_ p.
     sbnd (stack_arg p esp 3) (\<lambda>sz p.
     if sint n = 1 then bnd (put_pieces p buffer (unat sz) 0) (\<lambda>(ans, p). Inr (Ret ans, p))
     else sbnd (check_fd p (sint n)) (\<lambda>x p.
          if fd_is_dir x then Inr (Ret (- 1), p)
          else bnd (copy_in p buffer (nat (sint sz))) (\<lambda>bs.
               bnd (file_write (p_fs p) (file_ptr x) bs (sint sz)) (\<lambda>(ans, f, s).
               Inr (Ret ans, (set_file p (sint n) f)\<lparr>p_fs := s\<rparr>))))))))"

definition sys_seek :: "proc \<Rightarrow> u32 \<Rightarrow> unit sys" where
  "sys_seek p esp =
     sbnd (stack_arg p esp 1) (\<lambda>n p.
     sbnd (stack_arg p esp 2) (\<lambda>pos p.
     sbnd (check_fd p (sint n)) (\<lambda>x p.
     bnd (file_seek (Some (file_ptr x)) (sint pos)) (\<lambda>f. Inr (Ret (), set_file p (sint n) f)))))"

definition sys_tell :: "proc \<Rightarrow> u32 \<Rightarrow> int sys" where
  "sys_tell p esp =
     sbnd (stack_arg p esp 1) (\<lambda>n p.
     sbnd (check_fd p (sint n)) (\<lambda>x p.
     bnd (file_tell (Some (file_ptr x))) (\<lambda>pos. Inr (Ret pos, p))))"

definition sys_close :: "proc \<Rightarrow> u32 \<Rightarrow> unit sys" where
  "sys_close p esp = sbnd (stack_arg p esp 1) (\<lambda>n p. close_fd p (sint n))"

text \<open>A null pointer that \<open>filesys_chdir\<close> would leave as the current directory is found at its next use.\<close>

definition sys_chdir :: "nat \<Rightarrow> memory \<Rightarrow> proc \<Rightarrow> u32 \<Rightarrow> bool sys" where
  "sys_chdir fuel m p esp =
     sbnd (str_arg fuel p esp 1) (\<lambda>name p.
     bnd (filesys_chdir m (calloc_ok m (p_fs p)) (p_fs p) (cur_dir p) name) (\<lambda>(ok, d, s).
     case d of None \<Rightarrow> Inl (Fault ''cur_dir'') | Some d \<Rightarrow> Inr (Ret ok, p\<lparr>p_fs := s, cur_dir := d\<rparr>)))"

definition sys_mkdir :: "nat \<Rightarrow> memory \<Rightarrow> u8 list \<Rightarrow> proc \<Rightarrow> u32 \<Rightarrow> bool sys" where
  "sys_mkdir fuel m junk p esp =
     sbnd (str_arg fuel p esp 1) (\<lambda>name p.
     lift_fs (filesys_mkdir m (calloc_ok m (p_fs p)) junk (p_fs p) (cur_dir p) name) p)"

definition sys_readdir :: "proc \<Rightarrow> u32 \<Rightarrow> bool sys" where
  "sys_readdir p esp =
     sbnd (stack_arg p esp 1) (\<lambda>n p.
     sbnd (stack_arg p esp 2) (\<lambda>name p.
     sbnd (check_pointer p name) (\<lambda>_ p.
     sbnd (check_fd p (sint n)) (\<lambda>x p.
     if fd_is_dir x
     then case fd_dir x of
            None \<Rightarrow> Inl (Fault ''dir'')
          | Some d \<Rightarrow>
              bnd (dir_readdir (p_fs p) d) (\<lambda>(r, d, s).
              let p = (set_dir p (sint n) d)\<lparr>p_fs := s\<rparr>
              in case r of
                   None \<Rightarrow> Inr (Ret False, p)
                 | Some bs \<Rightarrow> bnd (copy_out p name (bs @ [0])) (\<lambda>p. Inr (Ret True, p)))
     else Inr (Ret False, p)))))"

definition sys_isdir :: "proc \<Rightarrow> u32 \<Rightarrow> bool sys" where
  "sys_isdir p esp = sbnd (stack_arg p esp 1) (\<lambda>n p. sbnd (check_fd p (sint n)) (\<lambda>x p. Inr (Ret (fd_is_dir x), p)))"

definition sys_inumber :: "proc \<Rightarrow> u32 \<Rightarrow> u32 sys" where
  "sys_inumber p esp =
     sbnd (stack_arg p esp 1) (\<lambda>n p. sbnd (check_fd p (sint n)) (\<lambda>x p. Inr (Ret (file_inumber (p_fs p) (file_ptr x)), p)))"

text \<open>
  The results of the allocations that \<open>process_execute\<close> makes: the copy of the command line, the page of the thread and its exit structure.
\<close>

record exec_mem =
  x_copy :: bool
  x_page :: "thr option"
  x_exit :: "nat option"

definition exec_result :: "xpc \<times> pstate \<Rightarrow> proc \<Rightarrow> int sys" where
  "exec_result r p = (case r of (pc, ps) \<Rightarrow>
     case pc of XRet tid \<Rightarrow> Inr (Ret tid, p\<lparr>p_ps := ps\<rparr>) | _ \<Rightarrow> Inr (In_exec pc, p\<lparr>p_ps := ps\<rparr>))"

definition wait_result :: "wpc \<times> sched \<Rightarrow> proc \<Rightarrow> int sys" where
  "wait_result r p = (case r of (pc, s) \<Rightarrow>
     case pc of WRet st \<Rightarrow> Inr (Ret st, p\<lparr>p_ps := (s, snd (p_ps p))\<rparr>) | _ \<Rightarrow> Inr (In_wait pc, p\<lparr>p_ps := (s, snd (p_ps p))\<rparr>))"

text \<open>\<open>fuel\<close> bounds the string and the chain of donations in \<open>lock_acquire\<close>. The string is read after its copy was allocated.\<close>

definition sys_exec :: "exec_mem \<Rightarrow> nat \<Rightarrow> proc \<Rightarrow> u32 \<Rightarrow> int sys" where
  "sys_exec x fuel p esp =
     sbnd (stack_arg p esp 1) (\<lambda>a p.
     sbnd (check_pointer p a) (\<lambda>_ p.
     sbnd (if x_copy x then read_str fuel p a else Inr (Ret [], p)) (\<lambda>cmd_line p.
     bnd (process_execute fuel (x_copy x) (x_page x) (x_exit x) cmd_line (p_ps p)) (\<lambda>r. exec_result r p))))"

definition sys_wait :: "proc \<Rightarrow> u32 \<Rightarrow> int sys" where
  "sys_wait p esp =
     sbnd (stack_arg p esp 1) (\<lambda>pid p. bnd (process_wait (fst (p_ps p)) (sint pid)) (\<lambda>r. wait_result r p))"

text \<open>The result is the new value of \<open>eax\<close>, if the call sets it.\<close>

definition eax :: "'a sys \<Rightarrow> ('a \<Rightarrow> u32) \<Rightarrow> u32 option sys" where
  "eax r f = sbnd r (\<lambda>v p. Inr (Ret (Some (f v)), p))"

definition no_eax :: "unit sys \<Rightarrow> u32 option sys" where
  "no_eax r = sbnd r (\<lambda>_ p. Inr (Ret None, p))"

definition syscall_handler ::
  "exec_mem \<Rightarrow> nat \<Rightarrow> memory \<Rightarrow> u8 list \<Rightarrow> proc \<Rightarrow> u32 \<Rightarrow> u32 option sys" where
  "syscall_handler x fuel m junk p esp =
     sbnd (stack_arg p esp 0) (\<lambda>sys_call p.
     if sys_call = 0 then Inr (Halt, p)
     else if sys_call = 1 then sbnd (stack_arg p esp 1) (\<lambda>status p. syscall_exit p (sint status))
     else if sys_call = 2 then eax (sys_exec x fuel p esp) word_of_int
     else if sys_call = 3 then eax (sys_wait p esp) word_of_int
     else if sys_call = 4 then eax (sys_create fuel m junk p esp) of_bool
     else if sys_call = 5 then eax (sys_remove fuel m p esp) of_bool
     else if sys_call = 6 then eax (sys_open fuel m p esp) word_of_int
     else if sys_call = 7 then eax (sys_filesize p esp) word_of_int
     else if sys_call = 8 then eax (sys_read p esp) word_of_int
     else if sys_call = 9 then eax (sys_write p esp) word_of_int
     else if sys_call = 10 then no_eax (sys_seek p esp)
     else if sys_call = 11 then eax (sys_tell p esp) word_of_int
     else if sys_call = 12 then no_eax (sys_close p esp)
     else if sys_call = 15 then eax (sys_chdir fuel m p esp) of_bool
     else if sys_call = 16 then eax (sys_mkdir fuel m junk p esp) of_bool
     else if sys_call = 17 then eax (sys_readdir p esp) of_bool
     else if sys_call = 18 then eax (sys_isdir p esp) of_bool
     else if sys_call = 19 then eax (sys_inumber p esp) id
     else Inr (Ret None, p))"

text \<open>The process runs again after a call that gave up the processor: the rest of the call, with the command line \<open>cmd\<close> of an exec.\<close>

definition syscall_resume :: "exec_mem \<Rightarrow> nat \<Rightarrow> u8 list \<Rightarrow> u32 option out \<Rightarrow> proc \<Rightarrow> u32 option sys" where
  "syscall_resume x fuel cmd out p =
     (case out of
        In_exec pc \<Rightarrow> eax (bnd (x_resume fuel (x_page x) (x_exit x) cmd pc (p_ps p)) (\<lambda>r. exec_result r p)) word_of_int
      | In_wait (WDown e) \<Rightarrow> eax (bnd (wait_down (fst (p_ps p)) e) (\<lambda>r. wait_result r p)) word_of_int
      | _ \<Rightarrow> Inr (out, p))"

end
