(* ===== verification/Syscall_Props.thy ===== *)
theory Syscall_Props
  imports Syscall
begin

text \<open>
  Theorems on the system calls: the invariant of the table of file descriptors over all calls, what \<open>open\<close> and \<open>close\<close>
  do to it and to the file system, and what a process can do to the kernel with arguments that are not checked.
\<close>

section \<open>The table of descriptors\<close>

definition fd_ok :: "fdesc list \<Rightarrow> bool" where
  "fd_ok xs \<longleftrightarrow> sorted_wrt (<) (map fd xs) \<and> (\<forall>x \<in> set xs. 2 \<le> fd x)"

definition fds_ok :: "'a sys \<Rightarrow> bool" where
  "fds_ok r \<longleftrightarrow> (case r of Inl _ \<Rightarrow> True | Inr (_, p) \<Rightarrow> fd_ok (fd_list p))"

named_theorems fds_intros

lemma fds_ok_simps [simp]: "fds_ok (Inl e)" "fds_ok (Inr (out, p)) \<longleftrightarrow> fd_ok (fd_list p)"
  by (simp_all add: fds_ok_def)

lemma fds_sbnd [fds_intros]:
  assumes "fds_ok r" and "\<And>v p. fd_ok (fd_list p) \<Longrightarrow> fds_ok (k v p)"
  shows "fds_ok (sbnd r k)"
proof (cases r)
  case (Inr a)
  then show ?thesis using assms by (cases a; cases "fst a") auto
qed simp

lemma fds_bnd: "(\<And>v. r = Inr v \<Longrightarrow> fds_ok (k v)) \<Longrightarrow> fds_ok (bnd r k)"
  by (cases r) simp_all

lemma fds_lift [fds_intros]: "fd_ok (fd_list p) \<Longrightarrow> fds_ok (lift_fs r p)"
  by (auto simp: lift_fs_def intro!: fds_bnd)

lemma fd_ok_Nil [simp]: "fd_ok []"
  by (simp add: fd_ok_def)

lemma fds_exit [fds_intros]: "fds_ok (syscall_exit p st)" "fds_ok (page_fault p)"
  by (auto simp: page_fault_def syscall_exit_def process_exit_def res_iffs intro!: fds_bnd)

lemma fds_check_pointer [fds_intros]: "fd_ok (fd_list p) \<Longrightarrow> fds_ok (check_pointer p a)"
  by (auto simp: check_pointer_def intro: fds_intros)

lemma fds_read_word [fds_intros]: "fd_ok (fd_list p) \<Longrightarrow> fds_ok (read_word p a)"
  by (auto simp: read_word_def split: option.split intro: fds_intros)

lemma fds_stack_arg [fds_intros]: "fd_ok (fd_list p) \<Longrightarrow> fds_ok (stack_arg p esp i)"
  unfolding stack_arg_def by (intro fds_intros)

lemma fds_read_str [fds_intros]: "fd_ok (fd_list p) \<Longrightarrow> fds_ok (read_str n p a)"
  by (induction n p a rule: read_str.induct) (auto split: option.split intro!: fds_intros)

lemma fds_str_arg [fds_intros]: "fd_ok (fd_list p) \<Longrightarrow> fds_ok (str_arg n p esp i)"
  unfolding str_arg_def by (intro fds_intros)

lemma fds_check_fd [fds_intros]: "fd_ok (fd_list p) \<Longrightarrow> fds_ok (check_fd p k)"
  by (auto simp: check_fd_def split: option.split intro: fds_intros)

lemma fd_ok_map: "map fd ys = map fd xs \<Longrightarrow> fd_ok ys = fd_ok xs"
proof -
  have "fd_ok xs \<longleftrightarrow> sorted_wrt (<) (map fd xs) \<and> (\<forall>k \<in> set (map fd xs). 2 \<le> k)" for xs by (simp add: fd_ok_def)
  then show "map fd ys = map fd xs \<Longrightarrow> fd_ok ys = fd_ok xs" by presburger
qed

lemma map_fd_set: "map fd (fd_list (set_file p k f)) = map fd (fd_list p)" "map fd (fd_list (set_dir p k d)) = map fd (fd_list p)"
  by (simp_all add: set_file_def set_dir_def)

lemmas fd_ok_set [simp] = map_fd_set[THEN fd_ok_map]

lemma copy_out_fds: "copy_out p a bs = Inr p' \<Longrightarrow> fd_list p' = fd_list p"
  by (induction p a bs rule: copy_out.induct) (auto split: option.splits)

lemma put_pieces_fds: "put_pieces p a n k = Inr (j, p') \<Longrightarrow> fd_list p' = fd_list p"
proof (induction p a n k rule: put_pieces.induct)
  case (1 p a n k)
  then show ?case by (subst (asm) (2) put_pieces.simps) (auto simp: res_iffs split: if_splits)
qed

lemma fds_read_keys [fds_intros]: "fd_ok (fd_list p) \<Longrightarrow> fds_ok (read_keys p a n)"
  by (induction p a n rule: read_keys.induct) (auto simp: Let_def split: list.split option.split intro!: fds_intros)

text \<open>The place that \<open>sys_open\<close> finds: the smallest number above \<open>lowest\<close> that is not in use.\<close>

lemma fd_slot_ok:
  assumes "sorted_wrt (<) (map fd xs)" and "\<forall>x \<in> set xs. lowest < fd x" and "fd_slot lowest xs = (l, ys, zs)"
  shows "xs = ys @ zs \<and> lowest \<le> l \<and> (\<forall>y \<in> set ys. fd y \<le> l) \<and> (\<forall>z \<in> set zs. l + 1 < fd z) \<and> {lowest + 1..l} \<subseteq> fd ` set ys"
  using assms
proof (induction xs arbitrary: lowest ys)
  case (Cons x xs)
  show ?case
  proof (cases "fd x > lowest + 1")
    case True
    then show ?thesis using Cons.prems by (auto dest: order_less_trans)
  next
    case False
    then have x: "fd x = lowest + 1" using Cons.prems(2) by simp
    obtain ys' where ys: "fd_slot (fd x) xs = (l, ys', zs)" "ys = x # ys'" using Cons.prems(3) False by (auto split: prod.splits)
    have "sorted_wrt (<) (map fd xs)" "\<forall>y \<in> set xs. fd x < fd y" using Cons.prems(1) by auto
    from Cons.IH[OF this ys(1)] have ih: "xs = ys' @ zs" "fd x \<le> l" "\<forall>y \<in> set ys'. fd y \<le> l" "\<forall>z \<in> set zs. l + 1 < fd z"
      "{fd x + 1..l} \<subseteq> fd ` set ys'" by auto
    have "{lowest + 1..l} = insert (fd x) {fd x + 1..l}" using ih(2) x by auto
    then show ?thesis using ih ys(2) x by auto
  qed
qed simp

lemma fd_ok_insert:
  assumes "fd_ok xs" and "fd_slot 1 xs = (l, ys, zs)" and "fd x = l + 1"
  shows "fd_ok (ys @ x # zs)" and "xs = ys @ zs" and "2 \<le> l + 1" and "l + 1 \<notin> fd ` set xs" and "\<forall>k. 2 \<le> k \<and> k < l + 1 \<longrightarrow> k \<in> fd ` set xs"
proof -
  have s: "sorted_wrt (<) (map fd xs)" "\<forall>x \<in> set xs. 1 < fd x" using assms(1) by (auto simp: fd_ok_def)
  note f = fd_slot_ok[OF s assms(2)]
  show e: "xs = ys @ zs" "2 \<le> l + 1" using f by simp_all
  show "l + 1 \<notin> fd ` set xs" using f by fastforce
  show "\<forall>k. 2 \<le> k \<and> k < l + 1 \<longrightarrow> k \<in> fd ` set xs" using f by (auto simp: subset_iff)
  have "sorted_wrt (<) (map fd (ys @ zs))" "\<forall>x \<in> set (ys @ zs). 2 \<le> fd x" using assms(1) e(1) by (simp_all add: fd_ok_def)
  then show "fd_ok (ys @ x # zs)" using f assms(3) unfolding fd_ok_def by (fastforce simp: sorted_wrt_append)
qed

lemma fd_ok_filter: "fd_ok xs \<Longrightarrow> fd_ok (filter P xs)"
  by (simp add: fd_ok_def sorted_wrt_map sorted_wrt_filter)

lemma fds_open [fds_intros]: "fd_ok (fd_list p) \<Longrightarrow> fds_ok (sys_open fuel m p esp)"
  unfolding sys_open_def
proof (intro fds_intros)
  fix r and q :: proc assume q: "fd_ok (fd_list q)"
  show "fds_ok (case r of None \<Rightarrow> Inr (Ret (- 1), q) | Some f \<Rightarrow>
         let (lowest, before, after) = fd_slot 1 (fd_list q); inode = file_get_inode f
         in if \<not> calloc_ok m (p_fs q) then Inl (Fault ''malloc'')
            else let is_dir = inode_is_dir (p_fs q) inode
                 in bnd (if is_dir then dir_open m (inode_reopen (p_fs q) inode) (Some inode) else Inr (None, p_fs q)) (\<lambda>(d, s).
                    Inr (Ret (lowest + 1), q\<lparr>p_fs := s, fd_list := before @
                      \<lparr>fd = lowest + 1, fd_is_dir = is_dir, file_ptr = f, fd_dir = d\<rparr> # after\<rparr>)))"
    using q by (auto simp: Let_def fd_ok_insert(1) split: option.split prod.split intro!: fds_bnd)
qed

lemma fds_close [fds_intros]: "fd_ok (fd_list p) \<Longrightarrow> fds_ok (close_fd p k)"
  unfolding close_fd_def by (intro fds_intros fds_bnd) (simp_all add: fd_ok_filter)

lemma fds_eax [fds_intros]: "fds_ok r \<Longrightarrow> fds_ok (eax r f)" "fds_ok r' \<Longrightarrow> fds_ok (no_eax r')"
  unfolding eax_def no_eax_def by (intro fds_intros; simp)+

lemma fds_if [fds_intros]: "(c \<Longrightarrow> fds_ok a) \<Longrightarrow> (\<not> c \<Longrightarrow> fds_ok b) \<Longrightarrow> fds_ok (if c then a else b)"
  by simp

lemma fds_calls [fds_intros]:
  assumes "fd_ok (fd_list p)"
  shows "fds_ok (sys_create fuel m junk p esp)" and "fds_ok (sys_remove fuel m p esp)" and "fds_ok (sys_filesize p esp)"
    and "fds_ok (sys_read p esp)" and "fds_ok (sys_write p esp)" and "fds_ok (sys_seek p esp)" and "fds_ok (sys_tell p esp)"
    and "fds_ok (sys_close p esp)" and "fds_ok (sys_chdir fuel m p esp)" and "fds_ok (sys_mkdir fuel m junk p esp)"
    and "fds_ok (sys_readdir p esp)" and "fds_ok (sys_isdir p esp)" and "fds_ok (sys_inumber p esp)"
  unfolding sys_create_def sys_remove_def sys_filesize_def sys_read_def sys_write_def sys_seek_def sys_tell_def sys_close_def
    sys_chdir_def sys_mkdir_def sys_readdir_def sys_isdir_def sys_inumber_def
  by (intro fds_intros fds_bnd assms;
      auto simp: Let_def copy_out_fds put_pieces_fds split: option.split prod.split intro!: fds_bnd dest!: copy_out_fds put_pieces_fds)+

lemma fds_exec [fds_intros]: "fd_ok (fd_list p) \<Longrightarrow> fds_ok (exec_result r p)" "fd_ok (fd_list p) \<Longrightarrow> fds_ok (wait_result w p)"
  by (auto simp: exec_result_def wait_result_def split: prod.split xpc.split wpc.split)

lemma fds_exec_wait [fds_intros]:
  assumes "fd_ok (fd_list p)"
  shows "fds_ok (sys_exec x fuel p esp)" and "fds_ok (sys_wait p esp)"
  unfolding sys_exec_def sys_wait_def by (intro fds_intros fds_bnd assms; simp add: fds_intros)+

text \<open>
  (C17) The table of file descriptors: whatever a process asks for and whatever it passes as arguments, its descriptors stay distinct,
  in ascending order and above those of the console, after every system call that returns to it, ends it or gives up the processor, and
  after the rest of a call that gave up the processor, in whatever state the other processes have left the scheduler.
\<close>

theorem descriptor_table_invariant:
  assumes "fd_ok (fd_list p)" and "syscall_handler x fuel m junk p esp = Inr (out, p')"
  shows "fd_ok (fd_list p') \<and> (\<forall>ps out' p''. syscall_resume x fuel cmd out (p'\<lparr>p_ps := ps\<rparr>) = Inr (out', p'') \<longrightarrow> fd_ok (fd_list p''))"
proof -
  have "fds_ok (syscall_handler x fuel m junk p esp)"
    unfolding syscall_handler_def using assms(1) by (intro fds_intros; simp add: fds_intros)
  then have p': "fd_ok (fd_list p')" using assms(2) by simp
  have "fds_ok (syscall_resume x fuel cmd out (p'\<lparr>p_ps := ps\<rparr>))" for ps
    unfolding syscall_resume_def using p' by (auto split: out.split wpc.split intro!: fds_intros fds_bnd)
  then show ?thesis using p' by (metis fds_ok_simps(2))
qed


section \<open>Opening and closing\<close>

lemma sbnd_Ret: "sbnd r k = Inr (Ret v, q) \<longleftrightarrow> (\<exists>u p. r = Inr (Ret u, p) \<and> k u p = Inr (Ret v, q))"
  by (cases r rule: sum.exhaust; (simp add: sbnd_def split: prod.split out.split)?)

lemma syscall_exit_no_Ret [simp]: "syscall_exit p st \<noteq> Inr (Ret v, q)" "page_fault p \<noteq> Inr (Ret v, q)"
  by (auto simp: syscall_exit_def page_fault_def res_iffs)

lemma check_pointer_Ret: "check_pointer p a = Inr (Ret u, q) \<longleftrightarrow> q = p \<and> a \<noteq> 0 \<and> a < PHYS_BASE \<and> mem p a \<noteq> None"
  by (auto simp: check_pointer_def)

lemma read_word_Ret: "read_word p a = Inr (Ret u, q) \<Longrightarrow> q = p"
  by (auto simp: read_word_def split: option.splits)

lemma stack_arg_Ret: "stack_arg p esp i = Inr (Ret u, q) \<Longrightarrow> q = p"
  by (auto simp: stack_arg_def sbnd_Ret check_pointer_Ret dest: read_word_Ret)

lemma read_str_Ret: "read_str n p a = Inr (Ret bs, q) \<Longrightarrow> q = p \<and> 0 \<notin> set bs"
  by (induction n p a arbitrary: bs q rule: read_str.induct) (auto simp: sbnd_Ret split: option.splits if_splits)

lemma str_arg_Ret: "str_arg n p esp i = Inr (Ret bs, q) \<Longrightarrow> q = p \<and> 0 \<notin> set bs"
  by (auto simp: str_arg_def sbnd_Ret check_pointer_Ret dest!: stack_arg_Ret read_str_Ret)

lemma filter_fd_ok:
  assumes "k \<notin> fd ` set (ys @ zs)" and "fd x = k"
  shows "filter (\<lambda>y. fd y \<noteq> k) (ys @ x # zs) = ys @ zs" and "find (\<lambda>y. fd y = k) (ys @ x # zs) = Some x"
proof -
  have "\<forall>y \<in> set ys. fd y \<noteq> k" "\<forall>y \<in> set zs. fd y \<noteq> k" using assms(1) by auto
  then show "filter (\<lambda>y. fd y \<noteq> k) (ys @ x # zs) = ys @ zs" "find (\<lambda>y. fd y = k) (ys @ x # zs) = Some x"
    using assms(2) by (induction ys) (simp_all add: filter_id_conv)
qed

text \<open>The opens that a descriptor of the inode \<open>n\<close> holds: a directory is opened once as a file and once as a directory.\<close>

definition held :: "block_sector_t set \<Rightarrow> block_sector_t \<Rightarrow> block_sector_t multiset" where
  "held T n = (if n \<in> T then {#n, n#} else {#n#})"

lemma open_fd_ok:
  assumes e: "extra R T s {#n#} s1" and r: "refs s1 (f_inode f) n" and f: "\<not> f_deny f" and m: "\<forall>s. calloc_ok m s"
  shows "\<exists>d s2. (if inode_is_dir s1 (f_inode f) then dir_open m (inode_reopen s1 (f_inode f)) (Some (f_inode f)) else Inr (None, s1)) = Inr (d, s2) \<and>
    extra R T s (held T n) s2 \<and>
    (\<exists>s3 s4. file_close s2 (Some f) = Inr s3 \<and> dir_close s3 d = Inr s4 \<and> extra R T s {#} s4)"
proof -
  have t: "tree_inv R T s1" using e by (simp add: extra_def)
  note D = refs_dir[OF t r]
  have cl: "file_close u (Some f) = inode_close u (Some (f_inode f))" for u using f by (simp add: file_close_def file_allow_write_def)
  show ?thesis
  proof (cases "n \<in> T")
    case False
    from close_extra[OF e r] show ?thesis using False D e by (auto simp: held_def dir_close_def cl)
  next
    case True
    let ?s = "inode_reopen s1 (f_inode f)"
    have e2: "extra R T s {#n, n#} ?s" "refs ?s (f_inode f) n"
      using reopen_extra[OF t r] extra_trans[OF e, of "{#n#}"] by auto
    from close_extra[OF e2] obtain s3 where
      s3: "inode_close ?s (Some (f_inode f)) = Inr s3" "extra R T s {#n#} s3" "\<forall>b k. refs ?s b k \<and> 0 < opens s3 k \<longrightarrow> refs s3 b k" by blast
    have "0 < opens s3 n" using opens_extra_pos[OF s3(2)] by simp
    then have "refs s3 (f_inode f) n" using s3(3) e2(2) by blast
    from close_extra[OF s3(2) this] show ?thesis using True D e2 s3(1) m by (auto simp: held_def dir_close_def dir_open_def cl)
  qed
qed

lemma sys_open_ok:
  assumes inv: "tree_inv R T (p_fs p)" and c: "refs (p_fs p) (d_inode (cur_dir p)) c" "c \<in> T" and m: "fresh_mem m" "\<forall>s. calloc_ok m s"
    and fds: "fd_ok (fd_list p)" and str: "str_arg fuel p esp 1 = Inr (Ret pth, q)"
  shows "\<exists>r p'. sys_open fuel m p esp = Inr (Ret r, p') \<and> (case file_of (p_fs p) T c pth of
      None \<Rightarrow> r = - 1 \<and> fd_list p' = fd_list p \<and> extra R T (p_fs p) {#} (p_fs p')
    | Some n \<Rightarrow> 2 \<le> r \<and> r \<notin> fd ` set (fd_list p) \<and> (\<forall>k. 2 \<le> k \<and> k < r \<longrightarrow> k \<in> fd ` set (fd_list p)) \<and>
        fd ` set (fd_list p') = insert r (fd ` set (fd_list p)) \<and> extra R T (p_fs p) (held T n) (p_fs p') \<and>
        (\<exists>p''. close_fd p' r = Inr (Ret (), p'') \<and> fd_list p'' = fd_list p \<and> extra R T (p_fs p) {#} (p_fs p'')))"
proof -
  have q: "q = p" "0 \<notin> set pth" using str_arg_Ret[OF str] by auto
  note str = str[unfolded q(1)]
  from filesys_open_ok[OF inv c m q(2)] obtain o1 s1 where o: "filesys_open m True (p_fs p) (cur_dir p) pth = Inr (o1, s1)"
    "case file_of (p_fs p) T c pth of None \<Rightarrow> o1 = None \<and> extra R T (p_fs p) {#} s1
      | Some n \<Rightarrow> extra R T (p_fs p) {#n#} s1 \<and> (\<exists>f. o1 = Some f \<and> refs s1 (f_inode f) n \<and> f_pos f = 0 \<and> \<not> f_deny f \<and>
          (\<exists>s''. file_close s1 (Some f) = Inr s'' \<and> extra R T (p_fs p) {#} s''))" by blast
  show ?thesis
  proof (cases "file_of (p_fs p) T c pth")
    case None
    then show ?thesis using o str m(2) by (simp add: sys_open_def lift_fs_def)
  next
    case (Some n)
    then obtain f where f: "extra R T (p_fs p) {#n#} s1" "o1 = Some f" "refs s1 (f_inode f) n" "\<not> f_deny f" using o(2) by auto
    obtain l ys zs where sl: "fd_slot 1 (fd_list p) = (l, ys, zs)" by (metis prod_cases3)
    from open_fd_ok[OF f(1,3,4) m(2)] obtain d s2 s3 s4 where
      d: "(if inode_is_dir s1 (f_inode f) then dir_open m (inode_reopen s1 (f_inode f)) (Some (f_inode f)) else Inr (None, s1)) = Inr (d, s2)"
      "extra R T (p_fs p) (held T n) s2" "file_close s2 (Some f) = Inr s3" "dir_close s3 d = Inr s4" "extra R T (p_fs p) {#} s4" by blast
    let ?x = "\<lparr>fd = l + 1, fd_is_dir = inode_is_dir s1 (f_inode f), file_ptr = f, fd_dir = d\<rparr>"
    let ?p = "p\<lparr>p_fs := s2, fd_list := ys @ ?x # zs\<rparr>"
    note ins = fd_ok_insert[OF fds sl, of ?x]
    have e: "fd_list p = ys @ zs" "l + 1 \<notin> fd ` set (ys @ zs)" using ins by simp_all
    have "sys_open fuel m p esp = Inr (Ret (l + 1), ?p)"
      using o(1) str m(2) f(2) sl d(1) by (simp add: sys_open_def lift_fs_def file_get_inode_def Let_def split: if_splits)
    moreover have "close_fd ?p (l + 1) = Inr (Ret (), ?p\<lparr>p_fs := s4, fd_list := fd_list p\<rparr>)"
      using d(3,4) filter_fd_ok[OF e(2), of ?x] e(1) by (simp add: close_fd_def check_fd_def)
    moreover have "fd ` set (fd_list ?p) = insert (l + 1) (fd ` set (fd_list p))" using e(1) by auto
    ultimately show ?thesis using Some ins(3-5) d(2,5) by auto
  qed
qed

text \<open>
  (C18) Opening and closing from a process. When \<open>open\<close> is called with the address of a string, it returns -1 and changes
  nothing if the path names no file. Otherwise it returns the smallest number from 2 on that is not a descriptor of the process
  and makes it one; the inode that the path names is open once more, a directory twice. \<open>close\<close> of the number
  takes the descriptor out of the table and gives all of these opens back.
\<close>

theorem sys_open_close:
  assumes "tree_inv R T (p_fs p)" and "refs (p_fs p) (d_inode (cur_dir p)) c" and "c \<in> T" and "fresh_mem m" and "\<forall>s. calloc_ok m s"
    and "fd_ok (fd_list p)" and "str_arg fuel p esp 1 = Inr (Ret pth, q)"
  shows "\<exists>r p'. sys_open fuel m p esp = Inr (Ret r, p') \<and> (case file_of (p_fs p) T c pth of
      None \<Rightarrow> r = - 1 \<and> fd_list p' = fd_list p \<and> extra R T (p_fs p) {#} (p_fs p')
    | Some n \<Rightarrow> 2 \<le> r \<and> r \<notin> fd ` set (fd_list p) \<and> (\<forall>k. 2 \<le> k \<and> k < r \<longrightarrow> k \<in> fd ` set (fd_list p)) \<and>
        fd ` set (fd_list p') = insert r (fd ` set (fd_list p)) \<and> extra R T (p_fs p) (held T n) (p_fs p') \<and>
        (\<exists>p''. close_fd p' r = Inr (Ret (), p'') \<and> fd_list p'' = fd_list p \<and> extra R T (p_fs p) {#} (p_fs p'')))"
  using sys_open_ok[OF assms] .


section \<open>Exit\<close>

text \<open>Closing an inode does not touch the counts of denied writes.\<close>

lemma close_deny:
  assumes inv: "tree_inv R T s" and a: "refs s a n" and c: "inode_close s (Some a) = Inr s'" and r: "refs s' b k"
  shows "deny_write_cnt (ino s' b) = deny_write_cnt (ino s b)"
proof -
  obtain x where x: "inodes s a = Some x" using a by (auto simp: refs_def)
  from inode_close_vol[OF tree_invD(1)[OF inv] x] tree_invD(5)[OF inv x] c have
    "inodes s' = (inodes s)(a := if open_cnt x = 1 then None else Some (x\<lparr>i_dirty := False, open_cnt := open_cnt x - 1\<rparr>))" by auto
  then show ?thesis using r x by (auto simp: refs_def ino_def split: if_splits)
qed

definition plain_file :: "fs \<Rightarrow> fdesc \<Rightarrow> block_sector_t \<Rightarrow> bool" where
  "plain_file s x n \<longleftrightarrow> refs s (f_inode (file_ptr x)) n \<and> \<not> f_deny (file_ptr x)"

lemma close_all_ok:
  assumes "extra R T s0 (mset ns + D) s" and "list_all2 (plain_file s) xs ns"
  shows "\<exists>s'. close_all s xs = Inr s' \<and> extra R T s0 D s' \<and>
    (\<forall>b k. refs s b k \<and> 0 < opens s' k \<longrightarrow> refs s' b k \<and> deny_write_cnt (ino s' b) = deny_write_cnt (ino s b))"
  using assms
proof (induction xs arbitrary: s ns)
  case (Cons x xs)
  from Cons.prems(2) obtain n ms where ns: "ns = n # ms" "plain_file s x n" "list_all2 (plain_file s) xs ms" by (auto simp: list_all2_Cons1)
  have e: "extra R T s0 (add_mset n (mset ms + D)) s" using Cons.prems(1) ns(1) by simp
  have r: "refs s (f_inode (file_ptr x)) n" and f: "\<not> f_deny (file_ptr x)" using ns(2) by (simp_all add: plain_file_def)
  from close_extra[OF e r] obtain s1 where s1: "inode_close s (Some (f_inode (file_ptr x))) = Inr s1" "extra R T s0 (mset ms + D) s1"
    "\<forall>b k. refs s b k \<and> 0 < opens s1 k \<longrightarrow> refs s1 b k" by blast
  have inv: "tree_inv R T s" using e by (simp add: extra_def)
  have "list_all2 (plain_file s1) xs ms"
    using ns(3) s1(3) opens_extra_pos[OF s1(2)] by (auto simp: list_all2_conv_all_nth plain_file_def)
  from Cons.IH[OF s1(2) this] obtain s2 where s2: "close_all s1 xs = Inr s2" "extra R T s0 D s2"
    "\<forall>b k. refs s1 b k \<and> 0 < opens s2 k \<longrightarrow> refs s2 b k \<and> deny_write_cnt (ino s2 b) = deny_write_cnt (ino s1 b)" by blast
  have "opens s2 k \<le> opens s1 k" for k using s1(2) s2(2) by (simp add: extra_def)
  then have "refs s2 b k \<and> deny_write_cnt (ino s2 b) = deny_write_cnt (ino s b)" if "refs s b k" "0 < opens s2 k" for b k
    using that s1(3) s2(3) close_deny[OF inv r s1(1), of b k] by (metis less_le_trans)
  then show ?case using s1(1) s2(1,2) f by (auto simp: file_close_def file_allow_write_def)
qed simp

lemma deny_extra:
  fixes g :: "inode \<Rightarrow> int"
  assumes e: "extra R T s0 D s" and a: "refs s a n" and n: "n \<notin> T"
  defines "s' \<equiv> upd_inode s a (\<lambda>x. x\<lparr>deny_write_cnt := g x\<rparr>)"
  shows "extra R T s0 D s' \<and> (\<forall>b k. refs s b k \<longrightarrow> refs s' b k)"
proof -
  have inv: "tree_inv R T s" using e by (simp add: extra_def)
  note d = tree_invD[OF inv]
  have o: "open_ok R s" using vol_okD(3)[OF d(1)] .
  obtain x where x: "inodes s a = Some x" "i_sector x = n" using a by (auto simp: refs_def)
  let ?f = "\<lambda>x. x\<lparr>deny_write_cnt := g x\<rparr>"
  have i: "inodes s' = (inodes s)(a \<mapsto> ?f x)" using x by (simp add: s'_def upd_inode_def)
  have v: "vol_ok R s'" "\<And>m. contents s' m = contents s m"
    using upd_vol[where f = ?f, OF d(1) x(1)] open_inodeD[OF d(1) x(1)] by (auto simp: s'_def)
  have D: "disk s' = disk s" "used s' = used s" "dsize s' = dsize s" by (simp_all add: s'_def)
  have "tree_inv R T s'"
    by (rule tree_inv_cong[OF inv v(1)]) (use v(2) D i d(5-7) x n in auto)
  moreover have "opens s' m = opens s m" for m
    using opens_upd[OF o vol_okD(3)[OF v(1)] i, of n m] x opens_open[OF o x(1)] by auto
  moreover have "refs s' b k" if "refs s b k" for b k using that i x by (cases "b = a") (auto simp: refs_def)
  ultimately show ?thesis using v(2) D e by (auto simp: extra_def)
qed

lemma allow_extra:
  assumes e: "extra R T s0 D s" and a: "refs s a n" and w: "0 < deny_write_cnt (ino s a)" "deny_write_cnt (ino s a) \<le> opens s n"
  shows "\<exists>s'. inode_allow_write s a = Inr s' \<and> extra R T s0 D s' \<and> (\<forall>b k. refs s b k \<longrightarrow> refs s' b k)"
proof -
  have inv: "tree_inv R T s" using e by (simp add: extra_def)
  obtain x where x: "inodes s a = Some x" "i_sector x = n" using a by (auto simp: refs_def)
  have "n \<notin> T" using tree_invD(7)[OF inv x(1)] x w(1) by (auto simp: ino_def)
  moreover have "opens s n = open_cnt x" using opens_open[OF vol_okD(3)[OF tree_invD(1)[OF inv]] x(1)] x(2) by simp
  ultimately show ?thesis using deny_extra[OF e a] w x by (simp add: inode_allow_write_def ino_def)
qed

text \<open>
  (C19) The exit of a process that holds, beside what the others hold, its current directory, its executable (which it
  protects from writes) and its descriptors: one open for each file and two for each directory. \<open>syscall_exit\<close> gives all of them
  back but one for each descriptor of a directory: it closes the files of the descriptors and not their directories,
  whose inodes stay open for ever.
\<close>

theorem exit_closes_files:
  assumes e: "extra R T s0 (mset ns + {#n \<in># mset ns. n \<in> T#} + {#c, x#}) (p_fs p)" and fds: "list_all2 (plain_file (p_fs p)) (fd_list p) ns"
    and c: "refs (p_fs p) (d_inode (cur_dir p)) c" and f: "exe p = Some f" "f_deny f" "refs (p_fs p) (f_inode f) x"
    and w: "0 < deny_write_cnt (ino (p_fs p) (f_inode f))" "deny_write_cnt (ino (p_fs p) (f_inode f)) \<le> opens s0 x + 1"
  shows "\<exists>p'. syscall_exit p st = Inr (Exit st, p') \<and> fd_list p' = [] \<and> exe p' = None \<and> extra R T s0 {#n \<in># mset ns. n \<in> T#} (p_fs p')"
proof -
  let ?L = "{#n \<in># mset ns. n \<in> T#}"
  from close_all_ok[OF e[unfolded add.assoc] fds] obtain s1 where s1: "close_all (p_fs p) (fd_list p) = Inr s1" "extra R T s0 (?L + {#c, x#}) s1"
    "\<forall>b k. refs (p_fs p) b k \<and> 0 < opens s1 k \<longrightarrow> refs s1 b k \<and> deny_write_cnt (ino s1 b) = deny_write_cnt (ino (p_fs p) b)" by blast
  have k1: "0 < opens s1 c" "0 < opens s1 x" using opens_extra_pos[OF s1(2)] by simp_all
  have o1: "opens s0 x + 1 \<le> opens s1 x" using s1(2) by (simp add: extra_def)
  have r1: "refs s1 (d_inode (cur_dir p)) c" "refs s1 (f_inode f) x"
    "deny_write_cnt (ino s1 (f_inode f)) = deny_write_cnt (ino (p_fs p) (f_inode f))" using s1(3) k1 c f(3) by auto
  from allow_extra[OF s1(2) r1(2)] w r1(3) o1 obtain s2 where s2: "inode_allow_write s1 (f_inode f) = Inr s2" "extra R T s0 (?L + {#c, x#}) s2"
    "refs s2 (d_inode (cur_dir p)) c" "refs s2 (f_inode f) x" using r1 by auto
  have "extra R T s0 (add_mset x (?L + {#c#})) s2" using s2(2) by (simp add: add_mset_commute)
  from close_extra[OF this s2(4)] obtain s3 where s3: "inode_close s2 (Some (f_inode f)) = Inr s3" "extra R T s0 (?L + {#c#}) s3"
    "\<forall>b k. refs s2 b k \<and> 0 < opens s3 k \<longrightarrow> refs s3 b k" by blast
  have "0 < opens s3 c" using opens_extra_pos[OF s3(2)] by simp
  then have "refs s3 (d_inode (cur_dir p)) c" using s3(3) s2(3) by blast
  moreover have "extra R T s0 (add_mset c ?L) s3" using s3(2) by simp
  ultimately obtain s4 where "inode_close s3 (Some (d_inode (cur_dir p))) = Inr s4" "extra R T s0 ?L s4" using close_extra by blast
  then show ?thesis using s1(1) s2(1) s3(1) f(1,2)
    by (simp add: syscall_exit_def process_exit_def file_close_def file_allow_write_def dir_close_def)
qed


section \<open>Buffers and unchecked arguments\<close>

text \<open>The arguments on the stack of a process.\<close>

definition call_args :: "proc \<Rightarrow> u32 \<Rightarrow> u32 list \<Rightarrow> bool" where
  "call_args p esp xs \<longleftrightarrow> (\<forall>i < length xs. stack_arg p esp (Suc i) = Inr (Ret (xs ! i), p))"

lemma call_args_Cons:
  "call_args p esp [x] \<longleftrightarrow> stack_arg p esp 1 = Inr (Ret x, p)"
  "call_args p esp [x, y] \<longleftrightarrow> stack_arg p esp 1 = Inr (Ret x, p) \<and> stack_arg p esp 2 = Inr (Ret y, p)"
  "call_args p esp [x, y, z] \<longleftrightarrow>
     stack_arg p esp 1 = Inr (Ret x, p) \<and> stack_arg p esp 2 = Inr (Ret y, p) \<and> stack_arg p esp 3 = Inr (Ret z, p)"
  by (auto simp: call_args_def less_Suc_eq numeral_2_eq_2 numeral_3_eq_3)

lemma power2_32: "(2 :: nat) ^ 32 = 4294967296"
  by simp

lemma copy_out_ok:
  assumes "length bs \<le> 2 ^ 32" and "\<forall>i < length bs. mem p (a + of_nat i) \<noteq> None"
  shows "\<exists>p'. copy_out p a bs = Inr p' \<and> p' = p\<lparr>mem := mem p'\<rparr> \<and> (\<forall>i < length bs. mem p' (a + of_nat i) = Some (bs ! i)) \<and>
    (\<forall>b. (\<forall>i < length bs. b \<noteq> a + of_nat i) \<longrightarrow> mem p' b = mem p b)"
  using assms
proof (induction bs arbitrary: p a)
  case (Cons b bs)
  let ?p = "p\<lparr>mem := (mem p)(a \<mapsto> b)\<rparr>"
  have ne: "a + 1 + of_nat i \<noteq> a" if "i < length bs" for i
  proof
    assume "a + 1 + of_nat i = a"
    then have "(of_nat (Suc i) :: u32) = 0" by (metis add.assoc add_cancel_right_right of_nat_Suc)
    then show False using that Cons.prems(1) unat_small[of "Suc i"] by (metis Suc_le_eq length_Cons less_le_trans Suc_less_eq unsigned_0 nat.distinct(1) power2_32)
  qed
  have m: "\<forall>i < length bs. mem ?p (a + 1 + of_nat i) \<noteq> None"
  proof (intro allI impI)
    fix i assume "i < length bs"
    then have "mem p (a + of_nat (Suc i)) \<noteq> None" using Cons.prems(2)[rule_format, of "Suc i"] by simp
    then show "mem ?p (a + 1 + of_nat i) \<noteq> None" by (simp add: add.assoc)
  qed
  from Cons.IH[OF _ m] Cons.prems(1) obtain p' where p': "copy_out ?p (a + 1) bs = Inr p'" "p' = ?p\<lparr>mem := mem p'\<rparr>"
    "\<forall>i < length bs. mem p' (a + 1 + of_nat i) = Some (bs ! i)"
    "\<forall>c. (\<forall>i < length bs. c \<noteq> a + 1 + of_nat i) \<longrightarrow> mem p' c = mem ?p c" by auto
  have "mem p' (a + of_nat i) = Some ((b # bs) ! i)" if "i < length (b # bs)" for i
  proof (cases i)
    case 0
    then show ?thesis using p'(4)[rule_format, of a] ne by fastforce
  next
    case (Suc j)
    then show ?thesis using p'(3)[rule_format, of j] that by (simp add: add.assoc)
  qed
  moreover have "mem p' c = mem p c" if c: "\<forall>i < length (b # bs). c \<noteq> a + of_nat i" for c
  proof -
    have "c \<noteq> a" using c by fastforce
    moreover have "\<forall>i < length bs. c \<noteq> a + 1 + of_nat i"
    proof (intro allI impI)
      fix i assume "i < length bs"
      then show "c \<noteq> a + 1 + of_nat i" using c[rule_format, of "Suc i"] by (simp add: add.assoc)
    qed
    ultimately show ?thesis using p'(4) by simp
  qed
  moreover have "mem p a \<noteq> None" using Cons.prems(2)[rule_format, of 0] by simp
  moreover have "p' = p\<lparr>mem := mem p'\<rparr>" using p'(2) by simp
  ultimately show ?case using p'(1) by (intro exI[of _ p']) auto
qed simp


lemma sint_cases:
  shows "sint (w :: u32) < 0 \<longleftrightarrow> 2 ^ 31 \<le> unat w" and "0 \<le> sint w \<Longrightarrow> sint w = int (unat w)"
proof -
  have r: "- (2 ^ 31) \<le> sint w" "sint w < 2 ^ 31" using sint_greater_eq[of w] sint_less[of w] by simp_all
  have "uint w = uint (of_int (sint w) :: u32)" by simp
  also have "\<dots> = sint w mod 2 ^ 32" by (simp only: uint_word_of_int) simp
  finally have u: "uint w = sint w mod 2 ^ 32" .
  have n: "sint w < 0 \<Longrightarrow> uint w = sint w + 2 ^ 32" using u r zmod_zminus1_eq_if[of "- sint w" "2 ^ 32"] by (simp add: zmod_trivial_iff)
  have p: "0 \<le> sint w \<Longrightarrow> uint w = sint w" using u r by simp
  have "2 ^ 31 \<le> unat w \<longleftrightarrow> int (2 ^ 31) \<le> int (unat w)" by (rule zle_int[symmetric])
  then have "2 ^ 31 \<le> unat w \<longleftrightarrow> 2 ^ 31 \<le> uint w" by simp
  then show "sint w < 0 \<longleftrightarrow> 2 ^ 31 \<le> unat w" using n p r by (cases "sint w < 0") auto
  show "0 \<le> sint w \<Longrightarrow> sint w = int (unat w)" using p by simp
qed

text \<open>
  (C21) An argument that a process can choose stops the kernel: \<open>seek\<close> to a position of \<open>2\<^sup>3\<^sup>1\<close> or more, which as
  an \<open>off_t\<close> is negative, fails the assertion of \<open>file_seek\<close>; a position below it becomes that of the descriptor.
\<close>

theorem sys_seek_panics:
  assumes args: "call_args p esp [n, pos]" and x: "find (\<lambda>x. fd x = sint n) (fd_list p) = Some x"
  shows "sys_seek p esp = (if 2 ^ 31 \<le> unat pos then Inl (Panic ''file_seek'')
    else Inr (Ret (), set_file p (sint n) ((file_ptr x)\<lparr>f_pos := int (unat pos)\<rparr>)))"
proof -
  note w = sint_cases[of pos]
  show ?thesis using args x w by (auto simp: sys_seek_def call_args_Cons check_fd_def file_seek_def)
qed


section \<open>A small process\<close>

text \<open>All of memory from the program's first page on is present; the stack pointer is 256 bytes below \<open>PHYS_BASE\<close> and the bytes from there
  on are given.\<close>

definition demo_memory :: "u8 list \<Rightarrow> u32 \<Rightarrow> u8 option" where
  "demo_memory bs a =
     (if 0xBFFFFF00 \<le> a \<and> unat (a - 0xBFFFFF00) < length bs then Some (bs ! unat (a - 0xBFFFFF00))
      else if 0x08048000 \<le> a then Some 255 else None)"

definition demo_proc :: "u8 list \<Rightarrow> fs \<Rightarrow> fdesc list \<Rightarrow> proc" where
  "demo_proc bs s xs = \<lparr>p_fs = s, fd_list = xs, cur_dir = \<lparr>d_inode = 10, d_pos = 40\<rparr>, exe = None,
     mem = demo_memory bs, input = [], console = [], p_ps = (boot_sched False, True)\<rparr>"

abbreviation demo_file :: open_file where "demo_file \<equiv> \<lparr>f_inode = 10, f_pos = 0, f_deny = False\<rparr>"

abbreviation demo_fd :: fdesc where "demo_fd \<equiv> \<lparr>fd = 2, fd_is_dir = False, file_ptr = demo_file, fd_dir = None\<rparr>"

lemmas demo_proc_simps = demo_proc_def demo_memory_def stack_arg_def check_pointer_def read_word_def le_word_def

theorem sys_seek_panics_witness:
  "sys_seek (demo_proc [10, 0, 0, 0, 2, 0, 0, 0, 0, 0, 0, 128] (demo_fs 64) [demo_fd]) 0xBFFFFF00 = Inl (Panic ''file_seek'')"
proof -
  let ?p = "demo_proc [10, 0, 0, 0, 2, 0, 0, 0, 0, 0, 0, 128] (demo_fs 64) [demo_fd]"
  have "call_args ?p 0xBFFFFF00 [2, 0x80000000]" by (simp add: call_args_Cons demo_proc_simps)
  moreover have "find (\<lambda>x. fd x = sint (2 :: u32)) (fd_list ?p) = Some demo_fd" by (simp add: demo_proc_def)
  ultimately show ?thesis using sys_seek_panics[of ?p _ 2 "0x80000000"] by simp
qed

lemma numeral_5: "(5 :: nat) = Suc (Suc 3)"
  by simp

text \<open>A process with one descriptor calls \<open>open\<close> with the name of an entry of its directory.\<close>

abbreviation demo_caller :: proc where
  "demo_caller \<equiv> demo_proc [6, 0, 0, 0, 8, 255, 255, 191, 97, 0] (demo_entry_fs True) [demo_fd]"

lemma demo_caller_fields: "p_fs demo_caller = demo_entry_fs True" "cur_dir demo_caller = demo_dir" "fd_list demo_caller = [demo_fd]"
  by (simp_all add: demo_proc_def)

lemma demo_str: "str_arg 5 demo_caller 0xBFFFFF00 1 = Inr (Ret [97], demo_caller)"
proof -
  have "stack_arg demo_caller 0xBFFFFF00 1 = Inr (Ret 0xBFFFFF08, demo_caller)" by (simp add: demo_proc_simps)
  moreover have "check_pointer demo_caller 0xBFFFFF08 = Inr (Ret (), demo_caller)" by (simp add: demo_proc_simps)
  moreover have "read_str 5 demo_caller 0xBFFFFF08 = Inr (Ret [97], demo_caller)"
    unfolding numeral_5 read_str.simps by (simp add: demo_proc_simps)
  ultimately show ?thesis by (simp add: str_arg_def)
qed

lemma demo_file_of: "file_of (p_fs demo_caller) {1, 2} 2 [97] = Some 1"
  unfolding demo_caller_fields using demo_tree by (simp add: file_of_def parent_of_def demo_comps)

lemma third_fd: "2 \<le> r \<Longrightarrow> r \<noteq> 2 \<Longrightarrow> \<forall>k. 2 \<le> k \<and> k < r \<longrightarrow> k = 2 \<Longrightarrow> r = (3 :: int)"
  by (cases "r \<le> 3") (auto dest: spec[of _ 3])

theorem sys_open_close_witness:
  "\<exists>p' p''. sys_open 5 demo_mem demo_caller 0xBFFFFF00 = Inr (Ret 3, p') \<and> close_fd p' 3 = Inr (Ret (), p'') \<and> fd_list p'' = [demo_fd]"
proof -
  from sys_open_close[where R = "{1, 2}" and T = "{1, 2}" and c = 2, OF _ _ _ _ _ _ demo_str, of demo_mem] obtain r p' p'' where
    o: "sys_open 5 demo_mem demo_caller 0xBFFFFF00 = Inr (Ret r, p')" "2 \<le> r" "r \<noteq> 2" "\<forall>k. 2 \<le> k \<and> k < r \<longrightarrow> k = 2"
      "close_fd p' r = Inr (Ret (), p'')" "fd_list p'' = [demo_fd]"
    unfolding demo_file_of unfolding demo_caller_fields using demo_tree demo_mem_fresh by (auto simp: demo_mem_def fd_ok_def)
  then show ?thesis using third_fd[OF o(2-4)] by blast
qed

text \<open>The same call through the handler, and a call of \<open>wait\<close> by the first thread, which has no children.\<close>

theorem descriptor_table_invariant_witness:
  "(\<exists>p'. syscall_handler \<lparr>x_copy = True, x_page = Some 30, x_exit = Some 0\<rparr> 5 demo_mem [] demo_caller 0xBFFFFF00 = Inr (Ret (Some 3), p') \<and>
     fd_ok (fd_list p') \<and> length (fd_list p') = 2) \<and>
   (\<exists>p'. syscall_handler \<lparr>x_copy = True, x_page = Some 30, x_exit = Some 0\<rparr> 5 demo_mem []
     (demo_proc [3, 0, 0, 0, 9, 0, 0, 0] (demo_fs 64) [demo_fd]) 0xBFFFFF00 = Inr (Ret (Some (- 1)), p') \<and> fd_ok (fd_list p'))"
proof
  let ?x = "\<lparr>x_copy = True, x_page = Some 30, x_exit = Some 0\<rparr>"
  from sys_open_ok[where R = "{1, 2}" and T = "{1, 2}" and c = 2, OF _ _ _ _ _ _ demo_str, of demo_mem] obtain r p' where
    o: "sys_open 5 demo_mem demo_caller 0xBFFFFF00 = Inr (Ret r, p')" "2 \<le> r" "r \<noteq> 2" "\<forall>k. 2 \<le> k \<and> k < r \<longrightarrow> k = 2"
      "fd ` set (fd_list p') = {r, 2}"
    unfolding demo_file_of unfolding demo_caller_fields using demo_tree demo_mem_fresh by (auto simp: demo_mem_def fd_ok_def)
  note r = third_fd[OF o(2-4)]
  have "stack_arg demo_caller 0xBFFFFF00 0 = Inr (Ret 6, demo_caller)" by (simp add: demo_proc_simps)
  then have h: "syscall_handler ?x 5 demo_mem [] demo_caller 0xBFFFFF00 = Inr (Ret (Some 3), p')"
    using o(1) r by (simp add: syscall_handler_def eax_def)
  have "fd_ok (fd_list p')" using descriptor_table_invariant[OF _ h] by (simp add: demo_caller_fields fd_ok_def)
  moreover have "length (fd_list p') = card (fd ` set (fd_list p'))"
    using calculation distinct_card[of "map fd (fd_list p')"] strict_sorted_iff[of "map fd (fd_list p')"] by (simp add: fd_ok_def)
  ultimately show "\<exists>p'. syscall_handler ?x 5 demo_mem [] demo_caller 0xBFFFFF00 = Inr (Ret (Some 3), p') \<and> fd_ok (fd_list p') \<and> length (fd_list p') = 2"
    using h o(3,5) by simp
  let ?p = "demo_proc [3, 0, 0, 0, 9, 0, 0, 0] (demo_fs 64) [demo_fd]"
  have "stack_arg ?p 0xBFFFFF00 0 = Inr (Ret 3, ?p)" "stack_arg ?p 0xBFFFFF00 (Suc 0) = Inr (Ret 9, ?p)" by (simp_all add: demo_proc_simps)
  moreover have "process_wait (boot_sched False) 9 = Inr (WRet (- 1), boot_sched False)"
    by (simp add: process_wait_def thread_current_def is_thread_def th_def boot_fields boot_thread_def)
  moreover have "p_ps ?p = (boot_sched False, True)" by (simp add: demo_proc_def)
  ultimately have w: "syscall_handler ?x 5 demo_mem [] ?p 0xBFFFFF00 = Inr (Ret (Some (- 1)), ?p\<lparr>p_ps := (boot_sched False, True)\<rparr>)"
    by (simp add: syscall_handler_def sys_wait_def wait_result_def eax_def)
  then show "\<exists>p'. syscall_handler ?x 5 demo_mem [] ?p 0xBFFFFF00 = Inr (Ret (Some (- 1)), p') \<and> fd_ok (fd_list p')"
    using descriptor_table_invariant[OF _ w] by (auto simp: demo_proc_def fd_ok_def)
qed

lemma demo_read: "case file_read (demo_fs 64) demo_file 2 of Inr (bs, f, s) \<Rightarrow> bs = [0, 0] | Inl _ \<Rightarrow> False"
  by code_simp


text \<open>A volume with the root directory and a program, and the state in which one process runs the program, with the root as its
  current directory and as its descriptor 2.\<close>

definition demo_idle_fs :: fs where
  "demo_idle_fs = put_sector (put_sector (blank_fs 64) 1 (new_inode_disk 0 True)) 2 (new_inode_disk 100 False)"

lemma demo_idle_tree: "tree_inv {1, 2} {1} demo_idle_fs \<and> inodes demo_idle_fs = Map.empty"
proof -
  let ?s0 = "blank_fs 64" and ?s1 = "put_sector (blank_fs 64) 1 (new_inode_disk 0 True)"
  have u0: "used ?s0 = {0, 1, 2}" using used_blank[of 64] by simp
  have v0: "vol_ok {} ?s0" using blank_vol[OF blank_fs_ok[of 64]] by simp
  have r1: "vol_ok {1} ?s1" "contents ?s1 1 = []" using new_root(1,2)[OF v0, of 1 0 True] u0 by simp_all
  have nd: "2 \<notin> nodes (disk ?s1) 1" using new_root(5)[OF v0, of 1 0 True] u0 by simp
  have u1: "used ?s1 = {0, 1, 2}" using u0 by (simp add: put_sector_def used_def)
  have r2: "vol_ok {1, 2} demo_idle_fs" "contents demo_idle_fs 1 = []"
    using new_root(1)[OF r1(1), of 2 100 False] new_root(3)[OF r1(1), of 2 100 1 False] u1 nd r1(2) by (simp_all add: insert_commute demo_idle_fs_def)
  have "file_len demo_idle_fs 1 = 0" using r2(2) vol_okD(4)[OF r2(1), of 1] by (simp add: contents_def len_ok_def)
  moreover have "disk demo_idle_fs 1 ! 504 = 1" "disk demo_idle_fs 2 ! 504 = 0"
    by (simp_all add: demo_idle_fs_def put_sector_def new_inode_words)
  moreover have "inodes demo_idle_fs = Map.empty" by (simp add: demo_idle_fs_def put_sector_def blank_fs_def)
  ultimately show ?thesis using r2 unfolding tree_inv_def by (auto simp: mapped_def dmap_def dir_wf_def slots_def)
qed

theorem exit_closes_files_witness:
  "\<exists>p p'. length (fd_list p) = 1 \<and> (syscall_exit p (- 1) :: unit sys) = Inr (Exit (- 1), p') \<and> fd_list p' = [] \<and> opens (p_fs p') 1 = 1"
proof -
  let ?e = "extra {1, 2} {1} demo_idle_fs"
  note t = demo_idle_tree
  have z: "opens demo_idle_fs n = 0" for n using opens_none[of "{1, 2}" demo_idle_fs n] vol_okD(3)[OF tree_invD(1)] t by auto
  obtain r s1 where s1: "?e {#1#} s1" "refs s1 r 1" using open_extra[of "{1, 2}" "{1}" demo_idle_fs 1 0] t by auto
  have i1: "tree_inv {1, 2} {1} s1" using s1(1) by (simp add: extra_def)
  obtain b where "inodes s1 b = None" using demo_mem_fresh vol_okD(3)[OF tree_invD(1)[OF i1]] by (auto simp: fresh_mem_def demo_mem_def open_ok_def)
  from open_extra[OF i1 _ this, of 2] obtain x s2 where x: "extra {1, 2} {1} s1 {#2#} s2" "refs s2 x 2" by blast
  have s2: "?e {#1, 2#} s2" "refs s2 x 2" "refs s2 r 1" using extra_trans[OF s1(1) x(1)] x s1(2) by (simp_all add: extra_def add_mset_commute)
  have re: "?e (add_mset 1 D) (inode_reopen s r) \<and> refs (inode_reopen s r) r 1 \<and> refs (inode_reopen s r) x 2" if "?e D s" "refs s x 2" "refs s r 1" for D s
  proof -
    have "tree_inv {1, 2} {1} s" using that(1) by (simp add: extra_def)
    then have e: "extra {1, 2} {1} s {#1#} (inode_reopen s r)" using reopen_extra that(3) by blast
    then have "refs s a n \<Longrightarrow> refs (inode_reopen s r) a n" for a n by (simp add: extra_def)
    then show ?thesis using extra_trans[OF that(1) e] that(2,3) by simp
  qed
  define s3 where "s3 = inode_reopen (inode_reopen s2 r) r"
  have s3: "?e {#1, 1, 1, 2#} s3" "refs s3 r 1" "refs s3 x 2" using re re[OF s2] unfolding s3_def by blast+
  define s4 where "s4 = upd_inode s3 x (\<lambda>i. i\<lparr>deny_write_cnt := 1\<rparr>)"
  have s4: "?e {#1, 1, 1, 2#} s4" "refs s4 r 1" "refs s4 x 2" using deny_extra[OF s3(1,3), of "\<lambda>_. 1"] s3 unfolding s4_def by auto
  have d: "deny_write_cnt (ino s4 x) = 1" using s3(3) by (auto simp: s4_def ino_def refs_def)
  define p where "p = (demo_proc [] s4 [\<lparr>fd = 2, fd_is_dir = True, file_ptr = \<lparr>f_inode = r, f_pos = 0, f_deny = False\<rparr>,
      fd_dir = Some \<lparr>d_inode = r, d_pos = 40\<rparr>\<rparr>])\<lparr>cur_dir := \<lparr>d_inode = r, d_pos = 40\<rparr>, exe := Some \<lparr>f_inode = x, f_pos = 0, f_deny = True\<rparr>\<rparr>"
  have l: "list_all2 (plain_file (p_fs p)) (fd_list p) [1]" using s4(2) by (simp add: p_def demo_proc_def plain_file_def)
  have e: "?e (mset [1] + {#n \<in># mset [1]. n \<in> {1}#} + {#1, 2#}) (p_fs p)" using s4(1) by (simp add: p_def demo_proc_def add_mset_commute)
  have q: "p_fs p = s4" "d_inode (cur_dir p) = r" "exe p = Some \<lparr>f_inode = x, f_pos = 0, f_deny = True\<rparr>" by (simp_all add: p_def demo_proc_def)
  have "\<exists>p'. (syscall_exit p (- 1) :: unit sys) = Inr (Exit (- 1), p') \<and> fd_list p' = [] \<and> exe p' = None \<and> ?e {#n \<in># mset [1]. n \<in> {1}#} (p_fs p')"
    by (rule exit_closes_files[OF e l, of "\<lparr>f_inode = x, f_pos = 0, f_deny = True\<rparr>"]) (simp_all add: q s4(2,3) d z)
  then obtain p' where "(syscall_exit p (- 1) :: unit sys) = Inr (Exit (- 1), p')" "fd_list p' = []" "?e {#1#} (p_fs p')" by auto
  moreover have "length (fd_list p) = 1" by (simp add: p_def demo_proc_def)
  moreover have "opens (p_fs p') 1 = 1" using calculation(3) z[of 1] by (simp add: extra_def)
  ultimately show ?thesis by blast
qed

end
