(* ===== verification/Loader.thy ===== *)
theory Loader
  imports Syscall_Props
begin

text \<open>
  The loader of \<open>userprog/process.c\<close>: the checks of the ELF headers, the loading of segments into fresh pages and the stack with the
  arguments of the program. Memory is that of the system calls, a byte or nothing at every address;
  \<open>pagedir_set_page\<close> makes the 4096 addresses of a page present, as \<open>Pagedir\<close> shows of the page tables. Which pages the
  process may write to is kept beside it. The results of \<open>palloc_get_page\<close> and of the allocation of a page table are given by
  functions of the number of pages asked for so far.
\<close>

section \<open>State\<close>

record ld =
  l_proc :: proc
  l_rw :: "u32 \<Rightarrow> bool"
  l_calls :: nat

record allocs =
  a_page :: "nat \<Rightarrow> bool"
  a_table :: "nat \<Rightarrow> bool"

abbreviation PGSIZE :: nat where "PGSIZE \<equiv> 4096"

section \<open>Pages\<close>

definition pg_start :: "u32 \<Rightarrow> u32" where
  "pg_start a = a AND NOT 0xFFF"

text \<open>The page directory has the bytes \<open>bs\<close> at \<open>upage\<close>.\<close>

definition map_page :: "ld \<Rightarrow> u32 \<Rightarrow> u8 list \<Rightarrow> bool \<Rightarrow> ld" where
  "map_page l upage bs writable =
     l\<lparr>l_proc := (l_proc l)\<lparr>mem := (\<lambda>a. if pg_start a = upage then Some (bs ! unat (a AND 0xFFF)) else mem (l_proc l) a)\<rparr>,
       l_rw := (l_rw l)(upage := writable)\<rparr>"

definition install_page :: "allocs \<Rightarrow> ld \<Rightarrow> u32 \<Rightarrow> u8 list \<Rightarrow> bool \<Rightarrow> (bool \<times> ld) res" where
  "install_page al l upage bs writable =
     (if mem (l_proc l) upage \<noteq> None then Inr (False, l)
      else asrt ''pagedir_set_page'' (pg_ofs upage = 0) (
           asrt ''pagedir_set_page'' (is_user_vaddr upage) (
           if a_table al (l_calls l) then Inr (True, map_page l upage bs writable) else Inr (False, l))))"

text \<open>\<open>palloc_get_page\<close>: the page that is found, if any, is freed again by whoever does not install it.\<close>

definition get_page :: "allocs \<Rightarrow> ld \<Rightarrow> bool \<times> ld" where
  "get_page al l = (a_page al (l_calls l), l\<lparr>l_calls := l_calls l + 1\<rparr>)"

function load_loop :: "allocs \<Rightarrow> ld \<Rightarrow> open_file \<Rightarrow> u32 \<Rightarrow> nat \<Rightarrow> nat \<Rightarrow> bool \<Rightarrow> (bool \<times> open_file \<times> ld) res" where
  "load_loop al l f upage read_bytes zero_bytes writable =
     (if read_bytes = 0 \<and> zero_bytes = 0 then Inr (True, f, l)
      else let page_read_bytes = min read_bytes PGSIZE;
               page_zero_bytes = PGSIZE - page_read_bytes;
               (ok, l) = get_page al l
           in if \<not> ok then Inr (False, f, l)
              else bnd (file_read (p_fs (l_proc l)) f (int page_read_bytes)) (\<lambda>(bs, f, s).
                   let l = l\<lparr>l_proc := (l_proc l)\<lparr>p_fs := s\<rparr>\<rparr>
                   in if length bs \<noteq> page_read_bytes then Inr (False, f, l)
                      else bnd (install_page al l upage (bs @ replicate page_zero_bytes 0) writable) (\<lambda>(ok, l).
                           if \<not> ok then Inr (False, f, l)
                           else load_loop al l f (upage + 4096) (read_bytes - page_read_bytes) (zero_bytes - page_zero_bytes) writable)))"
  by pat_completeness auto
termination
  by (relation "measure (\<lambda>(al, l, f, upage, r, z, w). r + z)") auto

declare load_loop.simps [simp del]

definition load_segment :: "allocs \<Rightarrow> ld \<Rightarrow> open_file \<Rightarrow> int \<Rightarrow> u32 \<Rightarrow> u32 \<Rightarrow> u32 \<Rightarrow> bool \<Rightarrow> (bool \<times> open_file \<times> ld) res" where
  "load_segment al l f ofs upage read_bytes zero_bytes writable =
     asrt ''load_segment'' ((read_bytes + zero_bytes) mod 4096 = 0) (
     asrt ''load_segment'' (pg_ofs upage = 0) (
     asrt ''load_segment'' (ofs mod 4096 = 0) (
     bnd (file_seek (Some f) ofs) (\<lambda>f.
     load_loop al l f upage (unat read_bytes) (unat zero_bytes) writable))))"

definition setup_stack :: "allocs \<Rightarrow> ld \<Rightarrow> (bool \<times> ld) res" where
  "setup_stack al l =
     (let (ok, l) = get_page al l
      in if ok then install_page al l (PHYS_BASE - 4096) (replicate PGSIZE 0) True else Inr (False, l))"

section \<open>ELF headers\<close>

definition le_half :: "u8 list \<Rightarrow> nat \<Rightarrow> 16 word" where
  "le_half bs i = ucast (bs ! i) + 256 * ucast (bs ! (i + 1))"

definition le_at :: "u8 list \<Rightarrow> nat \<Rightarrow> u32" where
  "le_at bs i = le_word (bs ! i) (bs ! (i + 1)) (bs ! (i + 2)) (bs ! (i + 3))"

record Elf32_Ehdr =
  e_ident :: "u8 list"
  e_type :: "16 word"
  e_machine :: "16 word"
  e_version :: u32
  e_entry :: u32
  e_phoff :: u32
  e_phentsize :: "16 word"
  e_phnum :: "16 word"

definition ehdr_of :: "u8 list \<Rightarrow> Elf32_Ehdr" where
  "ehdr_of bs = \<lparr>e_ident = take 16 bs, e_type = le_half bs 16, e_machine = le_half bs 18, e_version = le_at bs 20,
     e_entry = le_at bs 24, e_phoff = le_at bs 28, e_phentsize = le_half bs 42, e_phnum = le_half bs 44\<rparr>"

record Elf32_Phdr =
  p_type :: u32
  p_offset :: u32
  p_vaddr :: u32
  p_filesz :: u32
  p_memsz :: u32
  p_flags :: u32

definition phdr_of :: "u8 list \<Rightarrow> Elf32_Phdr" where
  "phdr_of bs = \<lparr>p_type = le_at bs 0, p_offset = le_at bs 4, p_vaddr = le_at bs 8, p_filesz = le_at bs 16, p_memsz = le_at bs 20,
     p_flags = le_at bs 24\<rparr>"

definition header_ok :: "u8 list \<Rightarrow> bool" where
  "header_ok bs \<longleftrightarrow> length bs = 52 \<and> (let h = ehdr_of bs in
     take 7 (e_ident h) = [127, 69, 76, 70, 1, 1, 1] \<and> e_type h = 2 \<and> e_machine h = 3 \<and> e_version h = 1 \<and>
     e_phentsize h = 32 \<and> e_phnum h \<le> 1024)"

definition validate_segment :: "Elf32_Phdr \<Rightarrow> int \<Rightarrow> bool" where
  "validate_segment h len \<longleftrightarrow>
     p_offset h AND 0xFFF = p_vaddr h AND 0xFFF \<and> p_offset h \<le> word_of_int len \<and> p_filesz h \<le> p_memsz h \<and> p_memsz h \<noteq> 0 \<and>
     is_user_vaddr (p_vaddr h) \<and> is_user_vaddr (p_vaddr h + p_memsz h) \<and> p_vaddr h \<le> p_vaddr h + p_memsz h \<and> 4096 \<le> p_vaddr h"

definition round_up :: "u32 \<Rightarrow> u32" where
  "round_up x = (x + 4095) div 4096 * 4096"

text \<open>The numbers of bytes to read and to clear.\<close>

definition segment_bytes :: "Elf32_Phdr \<Rightarrow> u32 \<times> u32" where
  "segment_bytes h =
     (let page_offset = p_vaddr h AND 0xFFF
      in if p_filesz h > 0
         then let read_bytes = page_offset + p_filesz h in (read_bytes, round_up (page_offset + p_memsz h) - read_bytes)
         else (0, round_up (page_offset + p_memsz h)))"

definition load_phdr :: "allocs \<Rightarrow> ld \<Rightarrow> open_file \<Rightarrow> Elf32_Phdr \<Rightarrow> (bool \<times> open_file \<times> ld) res" where
  "load_phdr al l f h =
     (if p_type h = 2 \<or> p_type h = 3 \<or> p_type h = 5 then Inr (False, f, l)
      else if p_type h = 1
      then bnd (file_length (p_fs (l_proc l)) (Some f)) (\<lambda>len.
           if validate_segment h len
           then let (read_bytes, zero_bytes) = segment_bytes h
                in load_segment al l f (sint (pg_start (p_offset h))) (pg_start (p_vaddr h)) read_bytes zero_bytes (p_flags h AND 2 \<noteq> 0)
           else Inr (False, f, l))
      else Inr (True, f, l))"

fun phdr_loop :: "allocs \<Rightarrow> nat \<Rightarrow> ld \<Rightarrow> open_file \<Rightarrow> int \<Rightarrow> (bool \<times> open_file \<times> ld) res" where
  "phdr_loop al 0 l f ofs = Inr (True, f, l)"
| "phdr_loop al (Suc n) l f ofs =
     bnd (file_length (p_fs (l_proc l)) (Some f)) (\<lambda>len.
     if ofs < 0 \<or> ofs > len then Inr (False, f, l)
     else bnd (file_seek (Some f) ofs) (\<lambda>f.
          bnd (file_read (p_fs (l_proc l)) f 32) (\<lambda>(bs, f, s).
          let l = l\<lparr>l_proc := (l_proc l)\<lparr>p_fs := s\<rparr>\<rparr>
          in if length bs \<noteq> 32 then Inr (False, f, l)
             else bnd (load_phdr al l f (phdr_of bs)) (\<lambda>(ok, f, l).
                  if ok then phdr_loop al n l f (wrap32 (ofs + 32)) else Inr (False, f, l)))))"

section \<open>Arguments\<close>

text \<open>The loop that puts the strings on the stack; \<open>addresses\<close> has room for 100 pointers and is filled without regard to that.\<close>

fun push_args :: "proc \<Rightarrow> u32 \<Rightarrow> u32 list \<Rightarrow> u8 list list \<Rightarrow> (u32 \<times> u32 list \<times> proc) res" where
  "push_args p sp addresses [] = Inr (sp, addresses, p)"
| "push_args p sp addresses (next # rest) =
     (if length addresses \<ge> 100 then Inl (Fault ''addresses'')
      else let sp = sp - of_nat (length next + 1)
           in bnd (copy_out p sp (next @ [0])) (\<lambda>p. push_args p sp (addresses @ [sp]) rest))"

text \<open>\<open>junk\<close> is what lies in the uninitialised rest of the array \<open>addresses\<close> and behind it: \<open>strlen\<close> is taken of the array.\<close>

definition build_args :: "proc \<Rightarrow> u8 list \<Rightarrow> u8 list list \<Rightarrow> (u32 \<times> proc) res" where
  "build_args p junk args =
     bnd (push_args p PHYS_BASE [] args) (\<lambda>(sp, addresses, p).
     let offset = 4 - cmod (sint (PHYS_BASE :: u32) - sint sp) 4;
         sp = sp - word_of_int (if offset < 4 then offset else 0);
         bytes = concat (map le_bytes addresses)
     in if 0 \<notin> set (bytes @ junk) then Inl (Fault ''strlen'')
        else let sp = sp - of_nat (length (takeWhile (\<lambda>b. b \<noteq> 0) (bytes @ junk)) + 4)
             in bnd (copy_out p sp bytes) (\<lambda>p.
                bnd (copy_out p (sp - 4) (le_bytes sp)) (\<lambda>p.
                bnd (copy_out p (sp - 8) (le_bytes (of_nat (length addresses)))) (\<lambda>p.
                Inr (sp - 12, p)))))"

section \<open>Loading\<close>

text \<open>
  \<open>pd\<close> is the result of \<open>pagedir_create\<close>. A command line without a word makes \<open>strtok_r\<close> return null, of which
  \<open>filesys_open\<close> takes the length. The result is the entry point and the stack pointer.
\<close>

definition load_file :: "allocs \<Rightarrow> ld \<Rightarrow> open_file \<Rightarrow> (Elf32_Ehdr option \<times> open_file \<times> ld) res" where
  "load_file al l f =
     bnd (file_read (p_fs (l_proc l)) f 52) (\<lambda>(bs, f, s).
     let l = l\<lparr>l_proc := (l_proc l)\<lparr>p_fs := s\<rparr>\<rparr>
     in if \<not> header_ok bs then Inr (None, f, l)
        else let h = ehdr_of bs
             in bnd (phdr_loop al (unat (e_phnum h)) l f (sint (e_phoff h))) (\<lambda>(ok, f, l).
                Inr (if ok then Some h else None, f, l)))"

text \<open>The function \<open>load\<close>.\<close>

definition load_elf :: "allocs \<Rightarrow> bool \<Rightarrow> memory \<Rightarrow> u8 list \<Rightarrow> ld \<Rightarrow> u8 list \<Rightarrow> ((u32 \<times> u32) option \<times> ld) res" where
  "load_elf al pd m junk l cmd =
     (if \<not> pd then Inr (None, l)
      else let l = l\<lparr>l_proc := (l_proc l)\<lparr>mem := (\<lambda>a. if a < PHYS_BASE then None else mem (l_proc l) a)\<rparr>\<rparr>; p = l_proc l
           in case tokens {32} cmd of
                [] \<Rightarrow> Inl (Fault ''strlen'')
              | file_name # args \<Rightarrow>
                  bnd (filesys_open m (calloc_ok m (p_fs p)) (p_fs p) (cur_dir p) file_name) (\<lambda>(fo, s).
                  let l = l\<lparr>l_proc := p\<lparr>p_fs := s, exe := fo\<rparr>\<rparr>
                  in case fo of
                       None \<Rightarrow> Inr (None, l)
                     | Some f \<Rightarrow>
                         bnd (file_deny_write s (Some f)) (\<lambda>(f, s).
                         bnd (load_file al (l\<lparr>l_proc := (l_proc l)\<lparr>p_fs := s\<rparr>\<rparr>) f) (\<lambda>(h, f, l).
                         let l = l\<lparr>l_proc := (l_proc l)\<lparr>exe := Some f\<rparr>\<rparr>
                         in case h of
                              None \<Rightarrow> Inr (None, l)
                            | Some h \<Rightarrow>
                                bnd (setup_stack al l) (\<lambda>(ok, l).
                                if \<not> ok then Inr (None, l)
                                else bnd (build_args (l_proc l) junk (file_name # args)) (\<lambda>(esp, p).
                                     Inr (Some (e_entry h, esp), l\<lparr>l_proc := p\<rparr>)))))))"

section \<open>Segments in memory\<close>

lemma unat_pg_start: "unat (pg_start a) = unat a - unat a mod 4096"
proof -
  have "a = (a AND NOT (mask 12)) + take_bit 12 a"
    by (subst disjunctive_add) (auto simp: bit_simps intro!: bit_word_eqI)
  then have e: "a - take_bit 12 a = pg_start a" by (metis add_diff_cancel_right' masks(1) pg_start_def)
  have t: "unat (take_bit 12 a) = unat a mod 4096" using take_bit_mod[of 12 a] by simp
  then have "take_bit 12 a \<le> a" by (simp add: word_le_nat_alt)
  then have "unat (a - take_bit 12 a) = unat a - unat (take_bit 12 a)" by (rule unat_sub)
  then show ?thesis using e t by simp
qed

lemma unat_and_mask: "unat (a AND 0xFFF :: u32) = unat a mod 4096"
  using take_bit_mod[of 12 a] pg_ofs_take[of a] by (simp add: pg_ofs_def)

lemma page_addr:
  assumes "pg_ofs u = 0"
  shows "pg_start a = u \<longleftrightarrow> unat u \<le> unat a \<and> unat a < unat u + 4096" and "pg_start a = u \<Longrightarrow> unat (a AND 0xFFF) = unat a - unat u"
proof -
  have u: "unat u mod 4096 = 0" using assms unat_and_mask[of u] by (simp add: pg_ofs_def)
  have "pg_start a = u \<longleftrightarrow> unat a - unat a mod 4096 = unat u" using unat_pg_start[of a] by (metis word_unat_eq_iff)
  also have "\<dots> \<longleftrightarrow> unat u \<le> unat a \<and> unat a < unat u + 4096"
  proof
    assume h: "unat u \<le> unat a \<and> unat a < unat u + 4096"
    then obtain k where k: "unat a = unat u + k" "k < 4096" by (metis le_Suc_ex nat_add_left_cancel_less)
    then have "unat a mod 4096 = k" using u by (metis add.commute mod_add_right_eq mod_less add_0 mod_add_left_eq)
    then show "unat a - unat a mod 4096 = unat u" using k by simp
  next
    assume h: "unat a - unat a mod 4096 = unat u"
    then show "unat u \<le> unat a \<and> unat a < unat u + 4096" using mod_less_divisor[of 4096 "unat a"] by linarith
  qed
  finally show "pg_start a = u \<longleftrightarrow> unat u \<le> unat a \<and> unat a < unat u + 4096" .
  show "unat (a AND 0xFFF) = unat a - unat u" if "pg_start a = u"
    using unat_and_mask[of a] unat_pg_start[of a] that by (metis diff_diff_cancel mod_less_eq_dividend)
qed

text \<open>A file that is open and has no holes is read without a change of the file system.\<close>

definition readable :: "block_sector_t set \<Rightarrow> fs \<Rightarrow> open_file \<Rightarrow> u8 list \<Rightarrow> bool" where
  "readable R s f c \<longleftrightarrow> vol_ok R s \<and> (\<exists>x. inodes s (f_inode f) = Some x \<and> c = contents s (i_sector x) \<and>
     mapped (disk s) (i_sector x) 0 (i_length x))"

lemma readable_pos: "readable R s (f\<lparr>f_pos := p\<rparr>) c = readable R s f c"
  by (simp add: readable_def)

lemma readable_length:
  assumes "readable R s f c"
  shows "length c \<le> MAX_BLOCKS * 512" and "file_length s (Some f) = Inr (int (length c))"
proof -
  obtain x where x: "vol_ok R s" "inodes s (f_inode f) = Some x" "c = contents s (i_sector x)" using assms by (auto simp: readable_def)
  note len = contents_length[OF x(1,2), folded x(3)]
  have "i_is_dir x \<or> \<not> i_locked x" using open_inodeD[OF x(1,2)] by simp
  then show "length c \<le> MAX_BLOCKS * 512" "file_length s (Some f) = Inr (int (length c))"
    using len x(2) by (auto simp: file_length_def inode_length_def ino_def)
qed

lemma file_read_readable:
  assumes r: "readable R s f c" and p: "f_pos f = int p" "p \<le> MAX_BLOCKS * 512"
  shows "file_read s f (int k) = Inr (take k (drop p c), f\<lparr>f_pos := int (p + min k (length c - p))\<rparr>, s)"
proof -
  obtain x where x: "vol_ok R s" "inodes s (f_inode f) = Some x" "c = contents s (i_sector x)" "mapped (disk s) (i_sector x) 0 (i_length x)"
    using r by (auto simp: readable_def)
  have "mapped (disk s) (i_sector x) (int p) (min (int p + int k) (i_length x))" using x(4) by (auto simp: mapped_def)
  then have "inode_read_at s (f_inode f) (int k) (int p) = Inr (take k (drop p c), s)"
    using inode_read_vol[OF x(1,2), of "int p" "int k"] x(3) by auto
  moreover have "wrap32 (int p + int (min k (length c - p))) = int (p + min k (length c - p))"
    using readable_length(1)[OF r] p(2) by (intro wrap32_pos) auto
  ultimately show ?thesis using p(1) by (simp add: file_read_def min.commute)
qed

lemma install_ok:
  assumes "a_table al (l_calls l)" and "mem (l_proc l) u = None" and "pg_ofs u = 0" and "unat u < 0xC0000000" and "length bs = 4096"
  shows "\<exists>l'. install_page al l u bs w = Inr (True, l') \<and> l_proc l' = (l_proc l)\<lparr>mem := mem (l_proc l')\<rparr> \<and> l_calls l' = l_calls l \<and>
    l_rw l' = (l_rw l)(u := w) \<and>
    (\<forall>a. mem (l_proc l') a = (if unat u \<le> unat a \<and> unat a < unat u + 4096 then Some (bs ! (unat a - unat u)) else mem (l_proc l) a))"
proof -
  have "is_user_vaddr u" using assms(4) by (simp add: is_user_vaddr_def word_less_nat_alt)
  then have "install_page al l u bs w = Inr (True, map_page l u bs w)" using assms(1-3) by (simp add: install_page_def)
  then show ?thesis using page_addr[OF assms(3)] by (auto simp: map_page_def)
qed

lemma next_page:
  assumes "pg_ofs u = 0" and "unat u + 4096 \<le> 0xC0000000"
  shows "pg_ofs (u + 4096) = 0" and "unat (u + 4096) = unat u + 4096"
proof -
  show n: "unat (u + 4096) = unat u + 4096" using assms(2) by (subst unat_plus_if_size) (simp add: word_size)
  have "unat u mod 4096 = 0" using assms(1) unat_and_mask[of u] by (simp add: pg_ofs_def)
  then have "unat ((u + 4096) AND 0xFFF) = 0" using unat_and_mask[of "u + 4096"] n by simp
  then show "pg_ofs (u + 4096) = 0" by (simp add: pg_ofs_def unat_eq_zero)
qed

definition segment_image :: "u8 list \<Rightarrow> nat \<Rightarrow> nat \<Rightarrow> nat \<Rightarrow> u8 list" where
  "segment_image c p r z = take r (drop p c) @ replicate z 0"

lemma segment_image_split:
  assumes "p + r \<le> length c" and "m = min r 4096" and "4096 - m \<le> z"
  shows "segment_image c p r z = (take m (drop p c) @ replicate (4096 - m) 0) @ segment_image c (p + m) (r - m) (z - (4096 - m))"
proof (cases "r \<le> 4096")
  case True
  then have m: "m = r" using assms(2) by simp
  have "replicate z (0 :: u8) = replicate (4096 - r) 0 @ replicate (z - (4096 - r)) 0"
    using assms(3) m by (simp flip: replicate_add)
  then show ?thesis by (simp add: segment_image_def m)
next
  case False
  then have m: "m = 4096" using assms(2) by simp
  have "take r (drop p c) = take 4096 (drop p c) @ take (r - 4096) (drop 4096 (drop p c))"
    using False by (metis le_add_diff_inverse nat_le_linear take_add)
  then show ?thesis by (simp add: segment_image_def m add.commute)
qed

lemma load_loop_ok:
  assumes al: "\<forall>k. a_page al k \<and> a_table al k" and rd: "readable R (p_fs (l_proc l)) f c" and p: "f_pos f = int p" "p + r \<le> length c"
    and k: "r + z = 4096 * k" and u: "pg_ofs u = 0" "unat u + 4096 * k \<le> 0xC0000000"
    and free: "\<forall>a. unat u \<le> unat a \<and> unat a < unat u + 4096 * k \<longrightarrow> mem (l_proc l) a = None"
  shows "\<exists>f' l'. load_loop al l f u r z w = Inr (True, f', l') \<and> f_inode f' = f_inode f \<and> l_proc l' = (l_proc l)\<lparr>mem := mem (l_proc l')\<rparr> \<and>
    (\<forall>a. mem (l_proc l') a = (if unat u \<le> unat a \<and> unat a < unat u + 4096 * k
      then Some (segment_image c p r z ! (unat a - unat u)) else mem (l_proc l) a)) \<and> (\<forall>x. l_rw l' x = (if \<exists>j < k. x = u + of_nat (4096 * j) then w else l_rw l x))"
  using rd p k u free
proof (induction k arbitrary: l f p r z u)
  case 0
  then show ?case by (simp add: load_loop.simps)
next
  case (Suc k)
  define m where "m = min r 4096"
  let ?bs = "take m (drop p c)" and ?l1 = "l\<lparr>l_calls := l_calls l + 1\<rparr>"
  have m: "m \<le> r" "m \<le> 4096" "4096 - m \<le> z" "(r - m) + (z - (4096 - m)) = 4096 * k" using Suc.prems(4) by (auto simp: m_def)
  have lb: "length ?bs = m" using Suc.prems(3) m by simp
  have pl: "p \<le> MAX_BLOCKS * 512" using Suc.prems(3) readable_length(1)[OF Suc.prems(1)] by simp
  have rd: "file_read (p_fs (l_proc ?l1)) f (int m) = Inr (?bs, f\<lparr>f_pos := int (p + m)\<rparr>, p_fs (l_proc ?l1))"
    using file_read_readable[OF Suc.prems(1,2) pl, of m] Suc.prems(3) m by (simp add: min_def)
  have u4: "unat u + 4096 \<le> 0xC0000000" using Suc.prems(6) by simp
  have "a_table al (l_calls ?l1)" "mem (l_proc ?l1) u = None" "unat u < 0xC0000000" using al Suc.prems(7) u4 by simp_all
  from install_ok[OF this(1,2) Suc.prems(5) this(3), of "?bs @ replicate (4096 - m) 0" w] lb m(2) obtain l2 where
    l2: "install_page al ?l1 u (?bs @ replicate (4096 - m) 0) w = Inr (True, l2)" "l_proc l2 = (l_proc l)\<lparr>mem := mem (l_proc l2)\<rparr>"
    "l_rw l2 = (l_rw l)(u := w)" "\<forall>a. mem (l_proc l2) a = (if unat u \<le> unat a \<and> unat a < unat u + 4096
      then Some ((?bs @ replicate (4096 - m) 0) ! (unat a - unat u)) else mem (l_proc l) a)" by auto
  note np = next_page[OF Suc.prems(5) u4]
  have nz: "\<not> (r = 0 \<and> z = 0)" using Suc.prems(4) by (cases "r = 0") auto
  have step: "load_loop al l f u r z w = load_loop al l2 (f\<lparr>f_pos := int (p + m)\<rparr>) (u + 4096) (r - m) (z - (4096 - m)) w"
    using rd l2(1) lb al nz by (subst load_loop.simps) (auto simp: get_page_def Let_def m_def[symmetric])
  have fs2: "p_fs (l_proc l2) = p_fs (l_proc l)" by (subst l2(2)) simp
  have h1: "readable R (p_fs (l_proc l2)) (f\<lparr>f_pos := int (p + m)\<rparr>) c" using Suc.prems(1) fs2 by (simp add: readable_pos)
  have h2: "p + m + (r - m) \<le> length c" using Suc.prems(3) m(1) by simp
  have h3: "unat (u + 4096) + 4096 * k \<le> 0xC0000000" using np(2) Suc.prems(6) by simp
  have h4: "\<forall>a. unat (u + 4096) \<le> unat a \<and> unat a < unat (u + 4096) + 4096 * k \<longrightarrow> mem (l_proc l2) a = None"
    using l2(4) np(2) Suc.prems(7) by auto
  from Suc.IH[OF h1 _ h2 m(4) np(1) h3 h4] obtain f' l' where
    l': "load_loop al l2 (f\<lparr>f_pos := int (p + m)\<rparr>) (u + 4096) (r - m) (z - (4096 - m)) w = Inr (True, f', l')" "f_inode f' = f_inode f"
    "l_proc l' = (l_proc l2)\<lparr>mem := mem (l_proc l')\<rparr>"
    "\<forall>a. mem (l_proc l') a = (if unat (u + 4096) \<le> unat a \<and> unat a < unat (u + 4096) + 4096 * k
      then Some (segment_image c (p + m) (r - m) (z - (4096 - m)) ! (unat a - unat (u + 4096))) else mem (l_proc l2) a)"
    "\<forall>x. l_rw l' x = (if \<exists>j < k. x = u + 4096 + of_nat (4096 * j) then w else l_rw l2 x)" by auto
  have "mem (l_proc l') a = (if unat u \<le> unat a \<and> unat a < unat u + 4096 * Suc k
      then Some (segment_image c p r z ! (unat a - unat u)) else mem (l_proc l) a)" for a
    using l'(4) l2(4) np(2) lb m(2) segment_image_split[OF Suc.prems(3) m_def m(3)] by (auto simp: nth_append)
  moreover have "l_rw l' x = (if \<exists>j < Suc k. x = u + of_nat (4096 * j) then w else l_rw l x)" for x
  proof -
    have "(\<exists>j < Suc k. x = u + of_nat (4096 * j)) \<longleftrightarrow> x = u \<or> (\<exists>j < k. x = u + of_nat (4096 * Suc j))"
      by (auto simp: less_Suc_eq_0_disj)
    moreover have "u + of_nat (4096 * Suc j) = u + 4096 + of_nat (4096 * j)" for j by (simp add: algebra_simps)
    ultimately show ?thesis using l'(5) l2(3) by auto
  qed
  moreover have "l_proc l' = (l_proc l)\<lparr>mem := mem (l_proc l')\<rparr>" using l'(3) l2(2) by (metis proc.surjective proc.update_convs(5))
  ultimately show ?case using step l'(1,2) by auto
qed

text \<open>The arithmetic of a valid header: the segment's pages lie below \<open>PHYS_BASE\<close> and nothing wraps around.\<close>

lemma valid_segment:
  assumes v: "validate_segment h (int len)" and len: "len < 2 ^ 31"
  defines "V \<equiv> unat (p_vaddr h)" and "M \<equiv> unat (p_memsz h)" and "F \<equiv> unat (p_filesz h)" and "P \<equiv> unat (p_offset h)"
    and "d \<equiv> unat (p_vaddr h) mod 4096"
  shows "\<exists>k r z. segment_bytes h = (r, z) \<and> unat r = (if F = 0 then 0 else d + F) \<and> unat r + unat z = 4096 * k \<and> (r + z) mod 4096 = 0 \<and>
    d + M \<le> 4096 * k \<and> 4096 * k < d + M + 4096 \<and> V - d + 4096 * k \<le> 0xC0000000 \<and> P \<le> len \<and> P mod 4096 = d \<and> F \<le> M \<and> V + M < 0xC0000000"
proof -
  have c: "p_offset h AND 0xFFF = p_vaddr h AND 0xFFF" "p_offset h \<le> word_of_int (int len)" "F \<le> M" "p_vaddr h + p_memsz h < 0xC0000000"
    "p_vaddr h \<le> p_vaddr h + p_memsz h" using v by (auto simp: validate_segment_def is_user_vaddr_def F_def M_def word_le_nat_alt)
  have vm: "unat (p_vaddr h + p_memsz h) = V + M" using c(5) unfolding V_def M_def no_olen_add_nat
    by (subst unat_plus_if_size) (simp add: word_size)
  then have VM: "V + M < 0xC0000000" using c(4) by (simp add: word_less_nat_alt)
  have po: "unat (p_vaddr h AND 0xFFF) = d" by (simp add: unat_and_mask d_def)
  have od: "P mod 4096 = d" using c(1) unat_and_mask[of "p_offset h"] po by (simp add: P_def)
  have ol: "P \<le> len" using c(2) len unat_small[of len] by (simp add: word_le_nat_alt P_def)
  define k where "k = (d + M + 4095) div 4096"
  have d: "d < 4096" "d \<le> V" by (simp_all add: d_def V_def)
  have k: "d + M \<le> 4096 * k" "4096 * k < d + M + 4096" unfolding k_def by simp_all
  have vd: "(V - d) mod 4096 = 0" by (simp add: V_def d_def)
  have bound: "V - d + 4096 * k \<le> 0xC0000000"
  proof -
    have "(V - d + 4096 * k) mod 4096 = 0" using vd by simp
    then obtain q where q: "V - d + 4096 * k = 4096 * q" by blast
    have "V - d + 4096 * k < 0xC0000000 + 4096" using k(2) VM d by simp
    then show ?thesis using q by simp
  qed
  have s1: "unat ((p_vaddr h AND 0xFFF) + p_memsz h) = d + M" using po VM d by (subst unat_plus_if_size) (simp add: M_def word_size)
  have ru: "unat (round_up ((p_vaddr h AND 0xFFF) + p_memsz h)) = 4096 * k"
  proof -
    have "unat ((p_vaddr h AND 0xFFF) + p_memsz h + 4095) = d + M + 4095"
      using s1 VM d by (subst unat_plus_if_size) (simp add: word_size)
    then have "unat (((p_vaddr h AND 0xFFF) + p_memsz h + 4095) div 4096) = k" by (simp add: unat_div k_def)
    moreover have "k * 4096 < 2 ^ 32" using bound by simp
    ultimately show ?thesis unfolding round_up_def by (subst unat_mult_lem[THEN iffD1]) auto
  qed
  define r where "r = (if p_filesz h > 0 then (p_vaddr h AND 0xFFF) + p_filesz h else 0)"
  have ur: "unat r = (if F = 0 then 0 else d + F)"
  proof (cases "F = 0")
    case False
    have "unat ((p_vaddr h AND 0xFFF) + p_filesz h) = d + F" using po VM d c(3) by (subst unat_plus_if_size) (simp add: F_def word_size)
    then show ?thesis using False by (auto simp: r_def F_def word_less_nat_alt)
  qed (simp add: r_def F_def word_less_nat_alt)
  have le: "unat r \<le> 4096 * k" using ur c(3) k(1) by auto
  define z where "z = round_up ((p_vaddr h AND 0xFFF) + p_memsz h) - r"
  have uz: "unat z = 4096 * k - unat r" using ru le unfolding z_def by (subst unat_sub) (simp_all add: word_le_nat_alt)
  have "r + z = round_up ((p_vaddr h AND 0xFFF) + p_memsz h)" by (simp add: z_def)
  then have "unat ((r + z) mod 4096) = 0" using ru by (simp add: unat_mod)
  then have "(r + z) mod 4096 = 0" by (simp only: unat_eq_zero)
  moreover have "segment_bytes h = (r, z)" by (simp add: segment_bytes_def r_def z_def Let_def)
  ultimately show ?thesis using ur uz le k bound ol od c(3) VM by (intro exI[of _ k] exI[of _ r] exI[of _ z]) simp
qed

text \<open>The addresses in the pages of a segment.\<close>

definition in_segment :: "Elf32_Phdr \<Rightarrow> u32 \<Rightarrow> bool" where
  "in_segment h a \<longleftrightarrow> pg_start (p_vaddr h) \<le> a \<and> unat (pg_start a) < unat (p_vaddr h) + unat (p_memsz h)"

lemma in_segment_pages:
  assumes d: "d = unat (p_vaddr h) mod 4096" and k: "d + unat (p_memsz h) \<le> 4096 * k" "4096 * k < d + unat (p_memsz h) + 4096"
  shows "in_segment h a \<longleftrightarrow> unat (p_vaddr h) - d \<le> unat a \<and> unat a < unat (p_vaddr h) - d + 4096 * k"
proof -
  let ?v = "unat (p_vaddr h)" and ?m = "unat (p_memsz h)"
  have v: "unat (pg_start (p_vaddr h)) = ?v - d" "d \<le> ?v" using unat_pg_start[of "p_vaddr h"] d by simp_all
  obtain q where q: "?v - d = 4096 * q" using d by (metis dvd_minus_mod dvdE)
  obtain b t where b: "unat a = 4096 * b + t" "t < 4096" by (metis div_mod_decomp mult.commute mod_less_divisor zero_less_numeral)
  then have "unat (pg_start a) = 4096 * b" using unat_pg_start[of a] by simp
  then have "in_segment h a \<longleftrightarrow> 4096 * q \<le> 4096 * b + t \<and> 4096 * b < ?v + ?m"
    using b v q by (simp add: in_segment_def word_le_nat_alt)
  also have "\<dots> \<longleftrightarrow> 4096 * q \<le> 4096 * b + t \<and> 4096 * b + t < 4096 * q + 4096 * k"
  proof -
    have e: "?v + ?m = 4096 * q + (d + ?m)" using q v(2) by linarith
    have "4096 * b < 4096 * q + (d + ?m) \<longleftrightarrow> b < q + k" using k by linarith
    moreover have "4096 * b + t < 4096 * q + 4096 * k \<longleftrightarrow> b < q + k" using b(2) by linarith
    ultimately show ?thesis unfolding e by blast
  qed
  finally show ?thesis using b q by simp
qed

text \<open>
  (C39) Loading a segment. For a program header that asks for a segment to be loaded and passes \<open>validate_segment\<close>, whose bytes lie within the file, with
  memory available and its pages not yet mapped, the loader maps the pages of the segment: every byte of the file's part has the value it has in the
  file, the rest of the segment is zero, its pages are writable if the header says so, and the memory outside its pages stays as it is.
\<close>

theorem load_phdr_image:
  assumes al: "\<forall>k. a_page al k \<and> a_table al k" and rd: "readable R (p_fs (l_proc l)) f c"
    and h: "p_type h = 1" "validate_segment h (int (length c))" "unat (p_offset h) + unat (p_filesz h) \<le> length c"
    and free: "\<forall>a. in_segment h a \<longrightarrow> mem (l_proc l) a = None"
  shows "\<exists>f' l'. load_phdr al l f h = Inr (True, f', l') \<and>
    (\<forall>i < unat (p_filesz h). mem (l_proc l') (p_vaddr h + of_nat i) = Some (c ! (unat (p_offset h) + i))) \<and>
    (\<forall>i. unat (p_filesz h) \<le> i \<and> i < unat (p_memsz h) \<longrightarrow> mem (l_proc l') (p_vaddr h + of_nat i) = Some 0) \<and>
    (\<forall>a. \<not> in_segment h a \<longrightarrow> mem (l_proc l') a = mem (l_proc l) a) \<and>
    (\<forall>a. in_segment h a \<longrightarrow> l_rw l' (pg_start a) = (p_flags h AND 2 \<noteq> 0)) \<and>
    p_fs (l_proc l') = p_fs (l_proc l)"
proof -
  let ?V = "unat (p_vaddr h)" and ?M = "unat (p_memsz h)" and ?F = "unat (p_filesz h)" and ?P = "unat (p_offset h)"
  define d where "d = ?V mod 4096"
  have lc: "length c < 2 ^ 31" using readable_length(1)[OF rd] by simp
  from valid_segment[OF h(2) lc, folded d_def] obtain k r z where v: "segment_bytes h = (r, z)" "unat r = (if ?F = 0 then 0 else d + ?F)"
    "unat r + unat z = 4096 * k" "(r + z) mod 4096 = 0" "d + ?M \<le> 4096 * k" "4096 * k < d + ?M + 4096" "?V - d + 4096 * k \<le> 0xC0000000"
    "?P \<le> length c" "?P mod 4096 = d" "?F \<le> ?M" "?V + ?M < 0xC0000000"
    by (elim exE conjE) (rule that; assumption)
  note pages = in_segment_pages[OF d_def v(5,6)]
  let ?u = "pg_start (p_vaddr h)" and ?w = "p_flags h AND 2 \<noteq> 0"
  have uu: "unat ?u = ?V - d" using unat_pg_start[of "p_vaddr h"] by (simp add: d_def)
  have dV: "d \<le> ?V" "d \<le> ?P" "d < 4096" using v(9) by (auto simp: d_def)
  have po: "pg_ofs ?u = 0" using uu unat_and_mask[of ?u] by (simp add: pg_ofs_def d_def unat_eq_zero)
  have uo: "unat (pg_start (p_offset h)) = ?P - d" using unat_pg_start[of "p_offset h"] v(9) by simp
  have "\<not> 2 ^ 31 \<le> unat (pg_start (p_offset h))" using uo v(8) lc by linarith
  then have so: "sint (pg_start (p_offset h)) = int (?P - d)" using sint_cases[of "pg_start (p_offset h)"] uo by simp
  have "4096 dvd ?P - d" unfolding v(9)[symmetric] by (rule dvd_minus_mod)
  then obtain n where "?P - d = 4096 * n" by (rule dvdE)
  then have om: "int (?P - d) mod 4096 = 0" by simp
  let ?f = "f\<lparr>f_pos := int (?P - d)\<rparr>"
  have rf: "readable R (p_fs (l_proc l)) ?f c" using rd by (simp add: readable_pos)
  have pr: "?P - d + unat r \<le> length c" using v(2,8) h(3) dV by auto
  have u2: "unat ?u + 4096 * k \<le> 0xC0000000" using uu v(7) by simp
  have fr: "\<forall>a. unat ?u \<le> unat a \<and> unat a < unat ?u + 4096 * k \<longrightarrow> mem (l_proc l) a = None" using free pages uu by simp
  from load_loop_ok[OF al rf _ pr v(3) po u2 fr, of ?w] obtain f' l' where
    L: "load_loop al l ?f ?u (unat r) (unat z) ?w = Inr (True, f', l')" "l_proc l' = (l_proc l)\<lparr>mem := mem (l_proc l')\<rparr>"
    "\<forall>a. mem (l_proc l') a = (if unat ?u \<le> unat a \<and> unat a < unat ?u + 4096 * k
      then Some (segment_image c (?P - d) (unat r) (unat z) ! (unat a - unat ?u)) else mem (l_proc l) a)"
    "\<forall>x. l_rw l' x = (if \<exists>j < k. x = ?u + of_nat (4096 * j) then ?w else l_rw l x)" by auto
  have ph: "load_phdr al l f h = Inr (True, f', l')"
    using L(1) h(1,2) v(1,4) so om po readable_length(2)[OF rd] by (simp add: load_phdr_def load_segment_def file_seek_def)
  have at: "mem (l_proc l') (p_vaddr h + of_nat i) = Some (segment_image c (?P - d) (unat r) (unat z) ! (d + i))" if "i < ?M" for i
  proof -
    have e: "unat (p_vaddr h + of_nat i) = ?V + i" using that v(11) by (subst unat_plus_if_size) (simp add: word_size unat_of_nat)
    have "unat ?u \<le> ?V + i" "?V + i < unat ?u + 4096 * k" "?V + i - unat ?u = d + i" using uu v(5) that dV(1) by linarith+
    then show ?thesis by (simp only: L(3)[rule_format] e if_True simp_thms)
  qed
  have img: "segment_image c (?P - d) (unat r) (unat z) ! (d + i) = (if i < ?F then c ! (?P + i) else 0)" if "i < ?M" for i
  proof -
    have lr: "length (take (unat r) (drop (?P - d) c)) = unat r" using pr by simp
    have "d + i < unat r + unat z" using v(3,5) that by simp
    then show ?thesis using v(2) lr dV pr by (auto simp: segment_image_def nth_append)
  qed
  have "l_rw l' (pg_start a) = ?w" if "in_segment h a" for a
  proof -
    obtain q where q: "?V - d = 4096 * q" unfolding d_def by (metis dvd_minus_mod dvdE)
    obtain b t where b: "unat a = 4096 * b + t" "t < 4096" by (metis div_mod_decomp mult.commute mod_less_divisor zero_less_numeral)
    have bq: "q \<le> b" "b < q + k" using that pages[of a] q b by auto
    have "unat (pg_start a) = 4096 * b" using unat_pg_start[of a] b by simp
    moreover have "unat (?u + of_nat (4096 * (b - q))) = 4096 * b"
    proof -
      have "unat a < 2 ^ 32" using unsigned_less[of a, where ?'a = nat] by simp
      then have "4096 * b < 2 ^ 32" using b by linarith
      then have "4096 * (b - q) < 2 ^ LENGTH(32)" by simp
      then have o: "unat (of_nat (4096 * (b - q)) :: u32) = 4096 * (b - q)" unfolding unat_of_nat by (rule mod_less)
      have e: "unat ?u + 4096 * (b - q) = 4096 * b" using uu q bq(1) by simp
      then have "unat ?u + unat (of_nat (4096 * (b - q)) :: u32) < 2 ^ LENGTH(32)" unfolding o using \<open>4096 * b < 2 ^ 32\<close> by simp
      then show ?thesis using o e unat_add_lem by metis
    qed
    ultimately have "pg_start a = ?u + of_nat (4096 * (b - q))" by (metis word_unat_eq_iff)
    moreover have "b - q < k" using bq by linarith
    ultimately show ?thesis using L(4) by metis
  qed
  moreover have "p_fs (l_proc l') = p_fs (l_proc l)" by (subst L(2)) simp
  moreover have "mem (l_proc l') a = mem (l_proc l) a" if "\<not> in_segment h a" for a using L(3) that pages uu by auto
  ultimately show ?thesis using ph at img v(10) by (intro exI[of _ f'] exI[of _ l']) auto
qed

text \<open>A file of one block with 100 bytes, and the header of a segment that holds them.\<close>

lemma demo_image: "case inode_write_at (demo_fs 64) 10 (replicate 100 7) 100 0 of Inr (n, s) \<Rightarrow> n = 100 | Inl _ \<Rightarrow> False"
  by code_simp

theorem load_phdr_image_witness:
  "\<exists>l f f' l'. load_phdr \<lparr>a_page = (\<lambda>_. True), a_table = (\<lambda>_. True)\<rparr> l f
      \<lparr>p_type = 1, p_offset = 0, p_vaddr = 0x08048000, p_filesz = 100, p_memsz = 200, p_flags = 2\<rparr> = Inr (True, f', l') \<and>
    mem (l_proc l) 0x08048000 = None \<and> mem (l_proc l') 0x08048000 = Some 7 \<and> mem (l_proc l') 0x08048064 = Some 0"
proof -
  let ?al = "\<lparr>a_page = (\<lambda>_. True), a_table = (\<lambda>_. True)\<rparr>" and ?f = "\<lparr>f_inode = 10, f_pos = 0, f_deny = False\<rparr>"
    and ?h = "\<lparr>p_type = 1, p_offset = 0, p_vaddr = 0x08048000, p_filesz = 100, p_memsz = 200, p_flags = 2\<rparr>"
  let ?bs = "replicate 100 (7 :: u8)"
  have i: "deny_write_cnt demo_inode = 0" "i_sector demo_inode = 2" "i_length demo_inode = 100" by (simp_all add: demo_inode_def)
  obtain s where w: "inode_write_at (demo_fs 64) 10 ?bs 100 0 = Inr (100, s)" using demo_image by (auto split: sum.splits)
  from inode_write_vol[OF demo_fs_ok(1,2)[of 64] i(1), of 0 ?bs] w i obtain d where v: "vol_ok {2} s"
    "mapped (disk s) 2 0 100" "contents s 2 = file_put (contents (demo_fs 64) 2) 0 100 ?bs"
    "inodes s = (inodes (demo_fs 64))(10 \<mapsto> demo_inode\<lparr>i_dirty := d, i_length := 100\<rparr>)" by (auto simp: max_def)
  have c: "contents s 2 = ?bs" using v(3) demo_fs_ok(3)[of 64] by (simp add: file_put_def overwrite_def)
  have r: "readable {2} s ?f ?bs" using v(1,2,4) c i by (simp add: readable_def)
  define l where "l = \<lparr>l_proc = (demo_proc [] s [])\<lparr>mem := Map.empty\<rparr>, l_rw = (\<lambda>_. False), l_calls = 0\<rparr>"
  have fs: "p_fs (l_proc l) = s" "mem (l_proc l) = Map.empty" by (simp_all add: l_def demo_proc_def)
  have val: "validate_segment ?h (int (length ?bs))" by (simp add: validate_segment_def is_user_vaddr_def)
  from load_phdr_image[of ?al "{2}" l ?f ?bs ?h] r fs val obtain f' l' where
    L: "load_phdr ?al l ?f ?h = Inr (True, f', l')" "\<forall>i < 100. mem (l_proc l') (0x08048000 + of_nat i) = Some (?bs ! i)"
    "\<forall>i. 100 \<le> i \<and> i < 200 \<longrightarrow> mem (l_proc l') (0x08048000 + of_nat i) = Some 0" by auto
  have "mem (l_proc l') 0x08048000 = Some 7" "mem (l_proc l') 0x08048064 = Some 0"
    using L(2)[rule_format, of 0] L(3)[rule_format, of 100] by simp_all
  then show ?thesis using L(1) fs(2) by (intro exI[of _ l]) auto
qed

end
