(* ===== verification/Kdivide.thy ===== *)
theory Kdivide
  imports Kernel_Prelude
begin

text \<open>
  The 64-bit division routines of \<open>lib/arithmetic.c\<close>, which the compiler calls for every
  64-bit quotient or remainder of the kernel. \<open>divl\<close> is the processor's division of a
  64-bit by a 32-bit word and traps when the quotient does not fit; \<open>nlz\<close> counts leading
  zeroes; \<open>udiv64\<close> divides by one hardware division and a correction step. The lemmas show
  that no hardware division traps and that the quotients are the mathematical ones; the
  remainder functions cut their result to 32 bits.
\<close>

section \<open>Operations\<close>

definition divl :: "u64 \<Rightarrow> u32 \<Rightarrow> u32 res" where
  "divl n d =
     (if d = 0 \<or> 2 ^ 32 \<le> unat n div unat d then Inl (Trap ''#DE'')
      else Inr (of_nat (unat n div unat d)))"

text \<open>One \<open>if (x <= m) { n += k; x <<= k; }\<close> of \<open>nlz\<close>.\<close>

definition nlz_step :: "nat \<Rightarrow> u32 \<Rightarrow> nat \<times> u32 \<Rightarrow> nat \<times> u32" where
  "nlz_step k m ny = (case ny of (n, x) \<Rightarrow> if x \<le> m then (n + k, push_bit k x) else (n, x))"

definition nlz :: "u32 \<Rightarrow> nat" where
  "nlz x =
     (case nlz_step 2 0x3FFFFFFF (nlz_step 4 0x0FFFFFFF (nlz_step 8 0x00FFFFFF
        (nlz_step 16 0x0000FFFF (0, x)))) of (n, x) \<Rightarrow> if x \<le> 0x7FFFFFFF then n + 1 else n)"

definition udiv64 :: "u64 \<Rightarrow> u64 \<Rightarrow> u64 res" where
  "udiv64 n d =
     (if drop_bit 32 d = 0
      then let b = push_bit 32 1; n1 = (ucast (drop_bit 32 n) :: u32); n0 = (ucast n :: u32);
               d0 = (ucast d :: u32)
           in if d0 = 0 then Inl (Trap ''#DE'')
              else bnd (divl (b * ucast (n1 mod d0) + ucast n0) d0) (\<lambda>q.
                Inr (ucast q + b * ucast (n1 div d0)))
      else if n < d then Inr 0
      else let d1 = (ucast (drop_bit 32 d) :: u32); s = nlz d1
           in bnd (divl (drop_bit 1 n) (ucast (drop_bit 32 (push_bit s d)))) (\<lambda>q0.
              let q = (ucast (drop_bit (31 - s) q0) :: u64)
              in Inr (if n - (q - 1) * d < d then q - 1 else q)))"

definition umod64 :: "u64 \<Rightarrow> u64 \<Rightarrow> u32 res" where
  "umod64 n d = bnd (udiv64 n d) (\<lambda>q. Inr (ucast (n - d * q)))"

definition sdiv64 :: "u64 \<Rightarrow> u64 \<Rightarrow> u64 res" where
  "sdiv64 n d =
     (let n_abs = (if 0 \<le> sint n then n else - n); d_abs = (if 0 \<le> sint d then d else - d)
      in bnd (udiv64 n_abs d_abs) (\<lambda>q_abs.
         Inr (if (sint n < 0) = (sint d < 0) then q_abs else - q_abs)))"

definition smod64 :: "u64 \<Rightarrow> u64 \<Rightarrow> u32 res" where
  "smod64 n d = bnd (sdiv64 n d) (\<lambda>q. Inr (ucast (n - d * q)))"

definition divdi3 :: "u64 \<Rightarrow> u64 \<Rightarrow> u64 res" where
  "divdi3 n d = sdiv64 n d"

definition moddi3 :: "u64 \<Rightarrow> u64 \<Rightarrow> u64 res" where
  "moddi3 n d = bnd (smod64 n d) (\<lambda>r. Inr (scast r))"

definition udivdi3 :: "u64 \<Rightarrow> u64 \<Rightarrow> u64 res" where
  "udivdi3 n d = udiv64 n d"

definition umoddi3 :: "u64 \<Rightarrow> u64 \<Rightarrow> u64 res" where
  "umoddi3 n d = bnd (umod64 n d) (\<lambda>r. Inr (ucast r))"

section \<open>Leading zeroes\<close>

text \<open>Each step of \<open>nlz\<close> halves the number of leading zeroes that are still possible.\<close>

lemma unat_push_bit32:
  fixes x :: u32
  assumes "unat x < 2 ^ (32 - k)" and "k \<le> 32"
  shows "unat (push_bit k x) = 2 ^ k * unat x"
proof -
  have "2 ^ k * unat x < 2 ^ k * 2 ^ (32 - k)" using assms(1) by simp
  also have "\<dots> = 2 ^ 32" using assms(2) by (simp flip: power_add)
  finally have "unat x * 2 ^ k < 2 ^ 32" by (simp add: mult.commute)
  then show ?thesis
    unfolding unsigned_push_bit_eq by (simp add: push_bit_eq_mult take_bit_nat_eq_self mult.commute)
qed

definition nlz_good :: "u32 \<Rightarrow> nat \<Rightarrow> nat \<times> u32 \<Rightarrow> bool" where
  "nlz_good x b ny \<longleftrightarrow>
     (case ny of (n, y) \<Rightarrow> n + b \<le> 32 \<and> unat y = 2 ^ n * unat x \<and> 2 ^ (32 - b) \<le> unat y)"

lemma nlz_step_good:
  assumes g: "nlz_good x (2 * k) ny" and m: "unat m = 2 ^ (32 - k) - 1" and k: "2 * k \<le> 32"
  shows "nlz_good x k (nlz_step k m ny)"
proof -
  obtain n y where ny: "ny = (n, y)" by (cases ny)
  from g have b: "n + 2 * k \<le> 32" "unat y = 2 ^ n * unat x" "2 ^ (32 - 2 * k) \<le> unat y"
    by (simp_all add: nlz_good_def ny)
  have pos: "0 < (2 :: nat) ^ (32 - k)" by simp
  show ?thesis
  proof (cases "y \<le> m")
    case True
    then have lt: "unat y < 2 ^ (32 - k)" using m pos by (simp add: word_le_nat_alt le_less_trans[OF _ diff_less])
    then have "unat (push_bit k y) = 2 ^ k * unat y"
      using k by (intro unat_push_bit32) auto
    moreover have "(2 :: nat) ^ (32 - k) = 2 ^ k * 2 ^ (32 - 2 * k)"
      using k by (simp flip: power_add)
    ultimately show ?thesis using True b by (simp add: nlz_good_def nlz_step_def ny power_add)
  next
    case False
    then have "2 ^ (32 - k) - 1 < unat y" using m by (simp add: word_le_nat_alt)
    with False b show ?thesis by (simp add: nlz_good_def nlz_step_def ny)
  qed
qed

lemma nlz_normalises:
  assumes "x \<noteq> 0"
  shows "nlz x \<le> 31 \<and> 2 ^ 31 \<le> 2 ^ nlz x * unat x \<and> 2 ^ nlz x * unat x < 2 ^ 32"
proof -
  have "nlz_good x (2 * 16) (0, x)" using assms by (simp add: nlz_good_def unat_gt_0 Suc_le_eq)
  from nlz_step_good[OF this, where m = "0x0000FFFF"]
  have "nlz_good x (2 * 8) (nlz_step 16 0x0000FFFF (0, x))" by simp
  from nlz_step_good[OF this, where m = "0x00FFFFFF"]
  have "nlz_good x (2 * 4) (nlz_step 8 0x00FFFFFF (nlz_step 16 0x0000FFFF (0, x)))" by simp
  from nlz_step_good[OF this, where m = "0x0FFFFFFF"]
  have "nlz_good x (2 * 2) (nlz_step 4 0x0FFFFFFF (nlz_step 8 0x00FFFFFF
    (nlz_step 16 0x0000FFFF (0, x))))" by simp
  from nlz_step_good[OF this, where m = "0x3FFFFFFF"]
  have g: "nlz_good x (2 * 1) (nlz_step 2 0x3FFFFFFF (nlz_step 4 0x0FFFFFFF (nlz_step 8 0x00FFFFFF
    (nlz_step 16 0x0000FFFF (0, x)))))" by simp
  obtain n y where ny: "nlz_step 2 0x3FFFFFFF (nlz_step 4 0x0FFFFFFF (nlz_step 8 0x00FFFFFF
    (nlz_step 16 0x0000FFFF (0, x)))) = (n, y)" by fastforce
  from nlz_step_good[OF g, where m = "0x7FFFFFFF"] have "nlz_good x 1 (nlz_step 1 0x7FFFFFFF (n, y))"
    unfolding ny by simp
  moreover have "nlz x = (if y \<le> 0x7FFFFFFF then n + 1 else n)" unfolding nlz_def ny by simp
  then obtain z where "nlz_step 1 0x7FFFFFFF (n, y) = (nlz x, z)"
    by (cases "y \<le> 0x7FFFFFFF") (auto simp: nlz_step_def)
  ultimately have "nlz x + 1 \<le> 32" "unat z = 2 ^ nlz x * unat x" "2 ^ 31 \<le> unat z"
    by (simp_all add: nlz_good_def)
  with unat32_lt[of z] show ?thesis by simp
qed

section \<open>Quotients\<close>

text \<open>The two divisions on natural numbers that the branches of \<open>udiv64\<close> rest on.\<close>

lemma div_split:
  fixes n1 n0 d b :: nat
  assumes "0 < d" and "n0 < b"
  shows "(b * n1 + n0) div d = (b * (n1 mod d) + n0) div d + b * (n1 div d)"
    and "(b * (n1 mod d) + n0) div d < b"
proof -
  have "b * n1 + n0 = (b * (n1 mod d) + n0) + (b * (n1 div d)) * d"
    by (metis (no_types, opaque_lifting) add.assoc add.commute add_mult_distrib2 div_mult_mod_eq
      mult.assoc)
  then show "(b * n1 + n0) div d = (b * (n1 mod d) + n0) div d + b * (n1 div d)"
    using assms(1) by (simp only: div_mult_self1)
  have "n1 mod d + 1 \<le> d" using assms(1) by (simp add: Suc_le_eq)
  then have "b * (n1 mod d) + b \<le> b * d" by (metis mult_le_mono2 add_mult_distrib2 nat_mult_1_right)
  then have "b * (n1 mod d) + n0 < b * d" using assms(2) by linarith
  then show "(b * (n1 mod d) + n0) div d < b" by (simp add: less_mult_imp_div_less)
qed

lemma quotient_estimate:
  fixes n d v :: nat
  assumes v: "0 < v" "2 * v \<le> d" and close: "n * (d - 2 * v) < 2 * v * d"
  shows "n div d \<le> (n div 2) div v" and "(n div 2) div v \<le> n div d + 1"
proof -
  have q: "(n div 2) div v = n div (2 * v)" by (simp add: div_mult2_eq)
  have d: "0 < d" using v by linarith
  show "n div d \<le> (n div 2) div v" unfolding q using v by (intro div_le_mono2) auto
  define k where "k = n div d"
  have nk: "n < (k + 1) * d" using d by (simp add: k_def dividend_less_div_times[of d n] add.commute)
  have "n div (2 * v) < k + 2"
  proof (rule less_mult_imp_div_less, rule ccontr)
    assume "\<not> n < (k + 2) * (2 * v)"
    then have ge: "(k + 2) * (2 * v) \<le> n" by simp
    define r where "r = d - 2 * v"
    have dr: "d = 2 * v + r" using v by (simp add: r_def)
    have "(k + 2) * (2 * v) * d \<le> n * d" using ge by (rule mult_le_mono1)
    also have "n * d = n * r + n * (2 * v)" by (simp add: dr algebra_simps)
    also have "\<dots> < 2 * v * d + (k + 1) * d * (2 * v)"
      unfolding r_def using close mult_less_mono1[OF nk, of "2 * v"] v by (intro add_strict_mono) simp_all
    finally show False by (simp add: algebra_simps)
  qed
  then show "(n div 2) div v \<le> n div d + 1" by (simp add: q k_def)
qed

lemma correction_step:
  fixes n d q :: nat
  assumes d: "0 < d" "d \<le> n" and q: "n div d \<le> q" "q \<le> n div d + 1"
  shows "1 \<le> q" "(q - 1) * d \<le> n" "(if n - (q - 1) * d < d then q - 1 else q) = n div d"
proof -
  define k where "k = n div d"
  have k1: "1 \<le> k" using d by (simp add: k_def Suc_le_eq div_greater_zero_iff)
  then show "1 \<le> q" using q by (simp add: k_def)
  have m: "n = k * d + n mod d" and r: "n mod d < d" using d by (simp_all add: k_def)
  from q consider "q = k" | "q = k + 1" by (fastforce simp: k_def)
  then have "(q - 1) * d \<le> n \<and> (if n - (q - 1) * d < d then q - 1 else q) = n div d"
  proof cases
    case 1
    have "(k - 1) * d + d = k * d" using k1 by (cases k) auto
    then show ?thesis using 1 m r by (auto simp: k_def[symmetric])
  next
    case 2
    then show ?thesis using m r by (auto simp: k_def[symmetric])
  qed
  then show "(q - 1) * d \<le> n" "(if n - (q - 1) * d < d then q - 1 else q) = n div d" by auto
qed

text \<open>The bound on the error of the estimate: with \<open>d\<close> normalised by \<open>s\<close> bits, the divisor
  given to the hardware is \<open>v\<close> with \<open>2 * v\<close> close to \<open>d\<close>.\<close>

lemma normalised_divisor:
  fixes d n :: nat
  assumes s: "s \<le> 31" and d: "2 ^ 63 \<le> 2 ^ s * d" "2 ^ s * d < 2 ^ 64" and n: "n < 2 ^ 64"
  defines "v1 \<equiv> (2 ^ s * d) div 2 ^ 32" and "v \<equiv> (2 ^ s * d) div 2 ^ 32 * 2 ^ (31 - s)"
  shows "2 ^ 31 \<le> v1" "v1 < 2 ^ 32" "0 < v" "2 * v \<le> d" "n * (d - 2 * v) < 2 * v * d"
proof -
  show v1: "2 ^ 31 \<le> v1" using d(1) div_le_mono[of "2 ^ 63" "2 ^ s * d" "2 ^ 32"]
    by (simp add: v1_def)
  show "v1 < 2 ^ 32" using d(2) by (simp add: v1_def less_mult_imp_div_less)
  define r where "r = d mod 2 ^ (32 - s)"
  have e32: "(2 :: nat) ^ 32 = 2 ^ s * 2 ^ (32 - s)" using s by (simp flip: power_add)
  have v1d: "v1 = d div 2 ^ (32 - s)" unfolding v1_def e32 by simp
  have e31: "(2 :: nat) ^ (32 - s) = 2 * 2 ^ (31 - s)" using s
    by (simp add: Suc_diff_le flip: power_Suc)
  have vv: "v = v1 * 2 ^ (31 - s)" unfolding v_def v1_def by (rule refl)
  have v2: "2 * v = d div 2 ^ (32 - s) * 2 ^ (32 - s)"
    unfolding vv v1d[symmetric] by (simp only: e31 mult.left_commute)
  then have dr: "d = 2 * v + r" by (simp only: r_def div_mult_mod_eq)
  then show "2 * v \<le> d" by simp
  show v0: "0 < v" using v1 by (simp add: vv)
  have rl: "r + 1 \<le> 2 ^ (32 - s)" by (simp add: r_def Suc_le_eq)
  have big: "2 ^ (63 - s) \<le> 2 * v"
  proof -
    have "(2 :: nat) ^ (63 - s) = 2 ^ 31 * 2 ^ (32 - s)" using s by (simp only: flip: power_add) simp
    also have "\<dots> \<le> v1 * 2 ^ (32 - s)" using v1 by (rule mult_le_mono1)
    also have "\<dots> = 2 * v" using v2 v1d by simp
    finally show ?thesis .
  qed
  show "n * (d - 2 * v) < 2 * v * d"
  proof (cases "r = 0")
    case True
    then show ?thesis using dr v0 by simp
  next
    case False
    have "n * r < 2 ^ 64 * r" using n False by simp
    also have "2 ^ 64 * r \<le> 2 ^ (63 - s) * (2 ^ (63 - s) + r)"
    proof -
      define b :: nat where "b = 2 ^ (31 - s)"
      have a: "(2 :: nat) ^ (63 - s) = 2 ^ 32 * b" using s unfolding b_def by (simp only: flip: power_add) simp
      have rb: "r + 1 \<le> 2 * b" using rl e31 by (simp add: b_def)
      obtain c where c: "b = Suc c" by (cases b) (auto simp: b_def)
      have "r \<le> b * b" using rb unfolding c by simp
      then have "2 ^ 64 * r \<le> 2 ^ 64 * (b * b)" by (rule mult_le_mono2)
      also have "\<dots> = 2 ^ (63 - s) * 2 ^ (63 - s)" unfolding a by simp
      also have "\<dots> \<le> 2 ^ (63 - s) * (2 ^ (63 - s) + r)" by (intro mult_le_mono2) simp
      finally show ?thesis .
    qed
    also have "\<dots> \<le> 2 * v * d" unfolding dr using big by (intro mult_le_mono) auto
    finally show ?thesis using dr by simp
  qed
qed

lemma unat64_lt: "unat (x :: u64) < 2 ^ 64"
proof -
  have "unat x < 2 ^ LENGTH(64)" by (rule unsigned_less)
  then show ?thesis by simp
qed

lemma unat_small64: "n < 2 ^ 64 \<Longrightarrow> unat (of_nat n :: u64) = n"
  by (simp add: unat_of_nat take_bit_nat_eq_self)

lemma unat_drop_bit: "unat (drop_bit k x) = unat x div 2 ^ k"
  unfolding drop_bit_eq_div by (metis drop_bit_eq_div unat_drop_bit_eq)

lemma unat_ucast_32_64: "unat (ucast (x :: u32) :: u64) = unat x"
  using unat32_lt[of x] by (simp add: unsigned_ucast_eq take_bit_nat_eq_self)

lemma unat_ucast_64_32: "unat (ucast (x :: u64) :: u32) = unat x mod 2 ^ 32"
  by (simp add: unsigned_ucast_eq take_bit_eq_mod)

lemma divl_ok:
  assumes "d \<noteq> 0" and "unat n div unat d < 2 ^ 32"
  shows "\<exists>q. divl n d = Inr q \<and> unat q = unat n div unat d"
  using assms by (simp add: divl_def unat_small)

lemma ucast_of_nat: "(ucast (x :: u32) :: u64) = of_nat (unat x)"
  by simp

lemma div_word_of_nat: "(n :: u64) div d = of_nat (unat n div unat d)"
  by (simp add: word_arith_nat_div)

lemma udiv64_narrow:
  assumes d: "d \<noteq> 0" and hi: "drop_bit 32 d = 0"
  shows "udiv64 n d = Inr (n div d)"
proof -
  define n1 n0 d0 where nd: "n1 = unat n div 2 ^ 32" "n0 = unat n mod 2 ^ 32" "d0 = unat d"
  have dlt: "d0 < 2 ^ 32"
  proof -
    from hi have "unat d div 2 ^ 32 = 0" using unat_drop_bit[of 32 d] by simp
    then show ?thesis by (simp add: nd div_eq_0_iff)
  qed
  have d0: "0 < d0" using d by (simp add: nd unat_gt_0)
  have n1: "n1 < 2 ^ 32" using unat64_lt[of n] by (simp add: nd less_mult_imp_div_less)
  have n0: "n0 < 2 ^ 32" by (simp add: nd)
  have nn: "unat n = 2 ^ 32 * n1 + n0" unfolding nd by (simp only: mult_div_mod_eq)
  define w1 w0 wd :: u32 where w: "w1 = ucast (drop_bit 32 n)" "w0 = ucast n" "wd = ucast d"
  have u: "unat w1 = n1" "unat w0 = n0" "unat wd = d0"
    using n1 dlt by (simp_all add: unat_ucast_64_32 unat_drop_bit nd w)
  have wd: "wd \<noteq> 0" using d0 u(3) by (metis unat_0 less_irrefl)
  have b: "(push_bit 32 1 :: u64) = of_nat (2 ^ 32)" by (simp add: push_bit_eq_mult)
  note sp = div_split[OF d0 n0, of n1]
  have small: "2 ^ 32 * (n1 mod d0) + n0 < 2 ^ 64"
  proof -
    have "n1 mod d0 < d0" using d0 by simp
    then have "n1 mod d0 + 1 \<le> 2 ^ 32" using dlt by linarith
    then show ?thesis using n0 by simp
  qed
  have a: "unat (push_bit 32 1 * ucast (w1 mod wd) + ucast w0 :: u64)
      = 2 ^ 32 * (n1 mod d0) + n0"
  proof -
    have "push_bit 32 1 * ucast (w1 mod wd) + ucast w0 = (of_nat (2 ^ 32 * (n1 mod d0) + n0) :: u64)"
      unfolding b ucast_of_nat unat_mod_distrib u by simp
    then show ?thesis using small by (simp only: unat_small64)
  qed
  obtain q where q: "divl (push_bit 32 1 * ucast (w1 mod wd) + ucast w0) wd = Inr q"
    and uq: "unat q = (2 ^ 32 * (n1 mod d0) + n0) div d0"
    using divl_ok[OF wd, of "push_bit 32 1 * ucast (w1 mod wd) + ucast w0"] sp(2)
    unfolding a u by blast
  have "udiv64 n d = Inr (ucast q + push_bit 32 1 * ucast (w1 div wd))"
    using hi wd q by (simp add: udiv64_def Let_def flip: w)
  also have "ucast q + push_bit 32 1 * ucast (w1 div wd) = (of_nat (unat n div d0) :: u64)"
    unfolding b ucast_of_nat unat_div_distrib u uq nn sp(1) by simp
  finally show ?thesis by (simp add: div_word_of_nat nd)
qed

lemma udiv64_wide:
  assumes hi: "drop_bit 32 d \<noteq> 0"
  shows "udiv64 n d = Inr (n div d)"
proof (cases "n < d")
  case True
  then have "unat n div unat d = 0" by (simp add: word_less_nat_alt)
  then show ?thesis using True hi by (simp add: udiv64_def div_word_of_nat)
next
  case False
  then have le: "unat d \<le> unat n" by (simp add: word_less_nat_alt)
  define d1 :: u32 where "d1 = ucast (drop_bit 32 d)"
  have ud1: "unat d1 = unat d div 2 ^ 32"
    using unat64_lt[of d] by (simp add: d1_def unat_ucast_64_32 unat_drop_bit less_mult_imp_div_less)
  have d1: "d1 \<noteq> 0"
  proof
    assume "d1 = 0"
    then have "unat (drop_bit 32 d) = 0" using ud1 unat_drop_bit[of 32 d] by simp
    with hi show False by (simp only: unat_eq_zero)
  qed
  define s where "s = nlz d1"
  from nlz_normalises[OF d1] have s: "s \<le> 31" "2 ^ 31 \<le> 2 ^ s * unat d1" "2 ^ s * unat d1 < 2 ^ 32"
    by (simp_all add: s_def)
  have dd: "unat d = 2 ^ 32 * unat d1 + unat d mod 2 ^ 32" unfolding ud1 by (simp only: mult_div_mod_eq)
  have lo: "2 ^ 63 \<le> 2 ^ s * unat d"
  proof -
    have "2 ^ 63 \<le> 2 ^ 32 * (2 ^ s * unat d1)" using s(2) by (simp add: mult.commute)
    also have "\<dots> = 2 ^ s * (2 ^ 32 * unat d1)" by (rule mult.left_commute)
    also have "\<dots> \<le> 2 ^ s * unat d" using dd by (intro mult_le_mono2) linarith
    finally show ?thesis .
  qed
  have up: "2 ^ s * unat d < 2 ^ 64"
  proof -
    have e: "(2 :: nat) ^ 32 = 2 ^ s * 2 ^ (32 - s)" using s(1) by (simp flip: power_add)
    from s(3) have "unat d1 < 2 ^ (32 - s)" unfolding e by simp
    then have "unat d < 2 ^ 32 * 2 ^ (32 - s)" unfolding ud1 by (simp add: div_less_iff_less_mult mult.commute)
    then have "2 ^ s * unat d < 2 ^ s * (2 ^ 32 * 2 ^ (32 - s))" by simp
    also have "\<dots> = 2 ^ 32 * 2 ^ 32" by (subst (2) e) (simp only: mult_ac)
    finally show ?thesis by simp
  qed
  note nd = normalised_divisor[OF s(1) lo up unat64_lt[of n]]
  define v1 :: u32 where "v1 = ucast (drop_bit 32 (push_bit s d))"
  have "unat (push_bit s d) = 2 ^ s * unat d" using up
    unfolding unsigned_push_bit_eq by (simp add: push_bit_eq_mult take_bit_nat_eq_self mult.commute)
  then have uv1: "unat v1 = 2 ^ s * unat d div 2 ^ 32"
    using nd(2) by (simp add: v1_def unat_ucast_64_32 unat_drop_bit)
  have v1: "v1 \<noteq> 0" using nd(1) uv1 by auto
  have "unat n div 2 div unat v1 < 2 ^ 32"
  proof (rule less_mult_imp_div_less)
    have "unat n div 2 < 2 ^ 63" using unat64_lt[of n] by simp
    also have "2 ^ 63 \<le> 2 ^ 32 * unat v1" using nd(1) by (simp add: uv1)
    finally show "unat n div 2 < 2 ^ 32 * unat v1" .
  qed
  then obtain q0 where q0: "divl (drop_bit 1 n) v1 = Inr q0" "unat q0 = unat n div 2 div unat v1"
    using divl_ok[OF v1, of "drop_bit 1 n"] by (auto simp: unat_drop_bit)
  define q :: u64 where "q = ucast (drop_bit (31 - s) q0)"
  have uq: "unat q = unat n div 2 div (2 ^ s * unat d div 2 ^ 32 * 2 ^ (31 - s))"
    by (simp add: q_def unat_ucast_32_64 unat_drop_bit q0(2) uv1 div_mult2_eq)
  note est = quotient_estimate[OF nd(3-5), folded uq]
  have d0: "0 < unat d" using ud1 d1 by (metis unat_gt_0 div_0 gr0I unat_eq_zero)
  note cs = correction_step[OF d0 le est]
  have uq1: "unat (q - 1) = unat q - 1" using cs(1)
    by (metis unat_1 unat_sub word_le_nat_alt)
  have "(q - 1) * d = of_nat (unat (q - 1)) * of_nat (unat d)" by simp
  then have pd: "(q - 1) * d = of_nat ((unat q - 1) * unat d)" by (simp only: uq1 of_nat_mult)
  have "(unat q - 1) * unat d < 2 ^ 64" using cs(2) unat64_lt[of n] by (rule le_less_trans)
  then have updd: "unat ((q - 1) * d) = (unat q - 1) * unat d" unfolding pd by (rule unat_small64)
  then have "unat (n - (q - 1) * d) = unat n - (unat q - 1) * unat d"
    using cs(2) by (simp add: unat_sub word_le_nat_alt)
  then have "unat (if n - (q - 1) * d < d then q - 1 else q) = unat n div unat d"
    using cs(3) uq1 by (simp add: word_less_nat_alt split: if_splits)
  then have "(if n - (q - 1) * d < d then q - 1 else q) = of_nat (unat n div unat d)"
    by (rule subst) simp
  then show ?thesis using False hi q0(1)
    by (simp add: udiv64_def Let_def div_word_of_nat split: if_splits flip: d1_def s_def v1_def q_def)
qed

lemma udiv64_ok: "d \<noteq> 0 \<Longrightarrow> udiv64 n d = Inr (n div d)"
  using udiv64_narrow udiv64_wide by blast

lemma udiv64_zero: "udiv64 n 0 = Inl (Trap ''#DE'')"
  by (simp add: udiv64_def)

section \<open>Signed quotients\<close>

lemma sint64_range: "- (2 ^ 63) \<le> sint (x :: u64)" "sint x < 2 ^ 63"
  using sint_greater_eq[of x] sint_less[of x] by simp_all

lemma uint_abs64:
  fixes x :: u64
  shows "uint (if 0 \<le> sint x then x else - x) = \<bar>sint x\<bar>"
proof (cases "0 \<le> sint x")
  case True
  have "uint x = uint (of_int (sint x) :: u64)" by simp
  also have "\<dots> = sint x mod 2 ^ 64" by (simp only: uint_word_of_int) simp
  also have "\<dots> = sint x" using True sint64_range(2)[of x] by simp
  finally show ?thesis using True by simp
next
  case False
  have "uint (- x) = uint (of_int (- sint x) :: u64)" by simp
  also have "\<dots> = (- sint x) mod 2 ^ 64" by (simp only: uint_word_of_int) simp
  also have "\<dots> = - sint x" using False sint64_range(1)[of x] by (intro mod_pos_pos_trivial) auto
  finally show ?thesis using False by simp
qed

lemma sdiv64_ok:
  assumes "d \<noteq> 0"
  shows "sdiv64 n d = Inr (of_int (cdiv (sint n) (sint d)))"
proof -
  define na da where na: "na = (if 0 \<le> sint n then n else - n)"
    and da: "da = (if 0 \<le> sint d then d else - d)"
  have "da \<noteq> 0" using assms by (simp add: da)
  then have u: "udiv64 na da = Inr (na div da)" by (rule udiv64_ok)
  have abs: "uint na = \<bar>sint n\<bar>" "uint da = \<bar>sint d\<bar>" unfolding na da by (rule uint_abs64)+
  have q: "na div da = of_int (\<bar>sint n\<bar> div \<bar>sint d\<bar>)"
    by (simp add: word_div_def abs)
  have d0: "sint d \<noteq> 0" using assms by (simp add: signed_eq_0_iff)
  have "sdiv64 n d = Inr (if (sint n < 0) = (sint d < 0) then na div da else - (na div da))"
    using u by (simp add: sdiv64_def Let_def flip: na da)
  moreover have "(if (sint n < 0) = (sint d < 0) then na div da else - (na div da))
      = of_int (cdiv (sint n) (sint d))"
    unfolding q cdiv_def using d0 by (cases "sint n" "0 :: int" rule: linorder_cases;
      cases "sint d" "0 :: int" rule: linorder_cases) auto
  ultimately show ?thesis by simp
qed

text \<open>
  (C36) Division of 64-bit numbers is exact: for a divisor other than zero the unsigned routine
  returns the quotient of the two words and the signed one the truncated quotient that C asks
  for, whatever the operands, and the hardware division inside never traps; a zero divisor
  is the processor's divide error.
\<close>

theorem division_exact:
  "udivdi3 n d = (if d = 0 then Inl (Trap ''#DE'') else Inr (n div d)) \<and>
   divdi3 n d = (if d = 0 then Inl (Trap ''#DE'') else Inr (of_int (cdiv (sint n) (sint d))))"
  by (simp add: udivdi3_def divdi3_def udiv64_ok udiv64_zero sdiv64_ok sdiv64_def[of n 0])

lemma umod64_ok: "d \<noteq> 0 \<Longrightarrow> umod64 n d = Inr (ucast (n mod d))"
  by (simp add: umod64_def udiv64_ok minus_mult_div_eq_mod)

text \<open>
  The remainder routines keep only 32 bits of the remainder: the unsigned one returns the
  true remainder exactly when it is below \<open>2 ^ 32\<close>, as for every divisor up to \<open>2 ^ 32\<close>, and
  a smaller value otherwise.
\<close>

theorem remainder_truncated:
  assumes "d \<noteq> 0"
  shows "\<exists>r. umoddi3 n d = Inr r \<and> unat r = unat n mod unat d mod 2 ^ 32 \<and>
      (r = n mod d \<longleftrightarrow> unat n mod unat d < 2 ^ 32)"
    and "unat d \<le> 2 ^ 32 \<Longrightarrow> umoddi3 n d = Inr (n mod d)"
proof -
  define r :: u64 where "r = ucast (ucast (n mod d) :: u32)"
  have r: "umoddi3 n d = Inr r" using assms by (simp add: umoddi3_def umod64_ok r_def)
  have ur: "unat r = unat n mod unat d mod 2 ^ 32"
    by (simp add: r_def unat_ucast_32_64 unat_ucast_64_32 unat_mod_distrib)
  have iff: "r = n mod d \<longleftrightarrow> unat n mod unat d < 2 ^ 32"
  proof -
    have "r = n mod d \<longleftrightarrow> unat r = unat (n mod d)" by (rule word_unat_eq_iff)
    also have "\<dots> \<longleftrightarrow> unat n mod unat d mod 2 ^ 32 = unat n mod unat d"
      by (simp only: ur unat_mod_distrib)
    also have "\<dots> \<longleftrightarrow> unat n mod unat d < 2 ^ 32" by (metis mod_less mod_less_divisor zero_less_power zero_less_numeral)
    finally show ?thesis .
  qed
  show "\<exists>r. umoddi3 n d = Inr r \<and> unat r = unat n mod unat d mod 2 ^ 32 \<and>
      (r = n mod d \<longleftrightarrow> unat n mod unat d < 2 ^ 32)"
    using r ur iff by blast
  assume "unat d \<le> 2 ^ 32"
  moreover have "unat n mod unat d < unat d" using assms by (simp add: unat_gt_0)
  ultimately show "umoddi3 n d = Inr (n mod d)" using r iff by simp
qed

theorem remainder_truncated_witness:
  "(\<exists>r. umoddi3 0x100000000 0x200000000 = Inr r \<and> unat r = 0 \<and> r \<noteq> 0x100000000 mod 0x200000000)
    \<and> umoddi3 7 5 = Inr 2"
proof -
  have "unat (0x100000000 :: u64) mod unat (0x200000000 :: u64) = 2 ^ 32" by simp
  with remainder_truncated(1)[of "0x200000000" "0x100000000"]
  have "\<exists>r. umoddi3 0x100000000 0x200000000 = Inr r \<and> unat r = 0 \<and> r \<noteq> 0x100000000 mod 0x200000000"
    by auto
  moreover have "umoddi3 7 5 = Inr 2" using remainder_truncated(2)[of 5 7] by simp
  ultimately show ?thesis by blast
qed

end
