(* ===== verification/Kstdlib.thy ===== *)
theory Kstdlib
  imports Kstring
begin

text \<open>
  The general utilities of \<open>lib/stdlib.c\<close>: \<open>atoi\<close>, the heap sort behind \<open>sort\<close> and \<open>qsort\<close>, and
  \<open>binary_search\<close> behind \<open>bsearch\<close>. The array is a block of bytes that holds elements of \<open>sz\<close>
  bytes each, numbered from 1 by the sorting routines; \<open>do_swap\<close> exchanges elements byte by byte and the
  caller's comparison function, an argument, is handed the bytes of two elements. The index arithmetic of the sorting
  routines is that of \<open>size_t\<close> and wraps: \<open>2 * i\<close> and \<open>2 * i + 1\<close> are children of \<open>i\<close> only below \<open>2\<^sup>3\<^sup>1\<close>, and beyond that
  the loop of \<open>heapify\<close> may go round for ever, so that it is given fuel; \<open>cnt\<close> turns are enough when nothing wraps.

  The byte-level routines are shown to act on the sequence of elements (\<open>elems\<close>); the heap
  property and sortedness are proved of that sequence.
\<close>

section \<open>Conversion\<close>

definition isspace :: "u8 \<Rightarrow> bool" where
  "isspace c \<longleftrightarrow> c = 32 \<or> c = 12 \<or> c = 10 \<or> c = 13 \<or> c = 9 \<or> c = 11"

definition isdigit :: "u8 \<Rightarrow> bool" where
  "isdigit c \<longleftrightarrow> 48 \<le> c \<and> c \<le> 57"

function skip_space :: "bmem \<Rightarrow> addr \<Rightarrow> addr res" where
  "skip_space m s = rd m s (\<lambda>b. if isspace b then skip_space m (s + 1) else Inr s)"
  by pat_completeness auto
termination by (relation "measure (\<lambda>(m, s). length m - s)") auto

function digits_loop :: "bmem \<Rightarrow> addr \<Rightarrow> int \<Rightarrow> int res" where
  "digits_loop m s v =
     rd m s (\<lambda>b. if isdigit b then digits_loop m (s + 1) (wrap32 (v * 10 - (uint b - 48)))
       else Inr v)"
  by pat_completeness auto
termination by (relation "measure (\<lambda>(m, s, v). length m - s)") auto

declare skip_space.simps [simp del] digits_loop.simps [simp del]

definition atoi :: "bmem \<Rightarrow> addr \<Rightarrow> int res" where
  "atoi m s =
     asrt ''atoi'' (s \<noteq> 0) (
     bnd (skip_space m s) (\<lambda>s. rd m s (\<lambda>b.
     let (s, negative) = (if b = 43 then (s + 1, False) else if b = 45 then (s + 1, True) else (s, False))
     in bnd (digits_loop m s 0) (\<lambda>v. Inr (if \<not> negative then wrap32 (- v) else v)))))"

section \<open>Sorting\<close>

type_synonym 'x compare = "u8 list \<Rightarrow> u8 list \<Rightarrow> 'x \<Rightarrow> int"

definition compare_thunk :: "(u8 list \<Rightarrow> u8 list \<Rightarrow> int) compare" where
  "compare_thunk a b aux = aux a b"

fun swap_loop :: "bmem \<Rightarrow> addr \<Rightarrow> addr \<Rightarrow> nat \<Rightarrow> nat \<Rightarrow> bmem res" where
  "swap_loop m a b i 0 = Inr m"
| "swap_loop m a b i (Suc n) =
     rd m (a + i) (\<lambda>t. rd m (b + i) (\<lambda>u. wr m (a + i) u (\<lambda>m. wr m (b + i) t (\<lambda>m.
     swap_loop m a b (i + 1) n))))"

text \<open>
  The array starts at offset 0 of its block, so element \<open>i\<close> starts at \<open>(i - 1) * sz\<close>; element 0 would lie before the block.
\<close>

definition wrapu :: "nat \<Rightarrow> nat" where
  "wrapu n = n mod 2 ^ 32"

definition do_swap :: "bmem \<Rightarrow> nat \<Rightarrow> nat \<Rightarrow> nat \<Rightarrow> bmem res" where
  "do_swap array a_idx b_idx sz =
     (if a_idx = 0 \<or> b_idx = 0 then Inl (Fault ''do_swap'')
      else swap_loop array (wrapu ((a_idx - 1) * sz)) (wrapu ((b_idx - 1) * sz)) 0 sz)"

definition do_compare :: "bmem \<Rightarrow> nat \<Rightarrow> nat \<Rightarrow> nat \<Rightarrow> 'x compare \<Rightarrow> 'x \<Rightarrow> int res" where
  "do_compare array a_idx b_idx sz compare aux =
     (let a = wrapu ((a_idx - 1) * sz); b = wrapu ((b_idx - 1) * sz)
      in if a_idx = 0 \<or> b_idx = 0 \<or> length array < a + sz \<or> length array < b + sz
         then Inl (Fault ''do_compare'')
         else Inr (compare (slice array a sz) (slice array b sz) aux))"

text \<open>The index of the largest of the element \<open>i\<close> and its children.\<close>

definition heap_max :: "bmem \<Rightarrow> nat \<Rightarrow> nat \<Rightarrow> nat \<Rightarrow> 'x compare \<Rightarrow> 'x \<Rightarrow> nat res" where
  "heap_max array i cnt sz compare aux =
     (let left = wrapu (2 * i); right = wrapu (2 * i + 1)
      in bnd (if left \<le> cnt then bnd (do_compare array left i sz compare aux) (\<lambda>c.
                Inr (if 0 < c then left else i)) else Inr i) (\<lambda>mx.
         if right \<le> cnt then bnd (do_compare array right mx sz compare aux) (\<lambda>c.
                Inr (if 0 < c then right else mx)) else Inr mx))"

fun heapify :: "nat \<Rightarrow> bmem \<Rightarrow> nat \<Rightarrow> nat \<Rightarrow> nat \<Rightarrow> 'x compare \<Rightarrow> 'x \<Rightarrow> bmem res" where
  "heapify 0 array i cnt sz compare aux = Inl OutOfFuel"
| "heapify (Suc fuel) array i cnt sz compare aux =
     bnd (heap_max array i cnt sz compare aux) (\<lambda>mx.
     if mx = i then Inr array
     else bnd (do_swap array i mx sz) (\<lambda>array. heapify fuel array mx cnt sz compare aux))"

fun build_loop :: "bmem \<Rightarrow> nat \<Rightarrow> nat \<Rightarrow> nat \<Rightarrow> 'x compare \<Rightarrow> 'x \<Rightarrow> bmem res" where
  "build_loop array 0 cnt sz compare aux = Inr array"
| "build_loop array (Suc i) cnt sz compare aux =
     bnd (heapify cnt array (Suc i) cnt sz compare aux) (\<lambda>array.
     build_loop array i cnt sz compare aux)"

fun sort_heap_loop :: "bmem \<Rightarrow> nat \<Rightarrow> nat \<Rightarrow> 'x compare \<Rightarrow> 'x \<Rightarrow> bmem res" where
  "sort_heap_loop array i sz compare aux =
     (if 1 < i then
        bnd (do_swap array 1 i sz) (\<lambda>array.
        bnd (heapify i array 1 (i - 1) sz compare aux) (\<lambda>array.
        sort_heap_loop array (i - 1) sz compare aux))
      else Inr array)"

declare sort_heap_loop.simps [simp del] heapify.simps [simp del]

definition sort_array :: "bmem \<Rightarrow> nat \<Rightarrow> nat \<Rightarrow> 'x compare \<Rightarrow> 'x \<Rightarrow> bmem res" where
  "sort_array array cnt sz compare aux =
     asrt ''sort'' (0 < sz) (
     bnd (build_loop array (cnt div 2) cnt sz compare aux) (\<lambda>array.
     sort_heap_loop array cnt sz compare aux))"

definition qsort :: "bmem \<Rightarrow> nat \<Rightarrow> nat \<Rightarrow> (u8 list \<Rightarrow> u8 list \<Rightarrow> int) \<Rightarrow> bmem res" where
  "qsort array cnt sz compare = sort_array array cnt sz compare_thunk compare"

section \<open>Searching\<close>

text \<open>The result is the offset of the match; a zero size is a division by zero.\<close>

function bsearch_loop :: "u8 list \<Rightarrow> bmem \<Rightarrow> nat \<Rightarrow> nat \<Rightarrow> nat \<Rightarrow> 'x compare \<Rightarrow> 'x \<Rightarrow> nat option res" where
  "bsearch_loop key array lo hi sz compare aux =
     (if lo < hi then
        if sz = 0 then Inl (Trap ''#DE'')
        else let rng = (hi - lo) div sz; middle = lo + rng div 2 * sz in
          if length array < middle + sz then Inl (Fault ''binary_search'')
          else let cmp = compare key (slice array middle sz) aux in
            if cmp < 0 then bsearch_loop key array lo middle sz compare aux
            else if 0 < cmp then bsearch_loop key array (middle + sz) hi sz compare aux
            else Inr (Some middle)
      else Inr None)"
  by pat_completeness auto
termination
proof (relation "measure (\<lambda>(key, array, lo, hi, _). hi - lo)", goal_cases)
  case (2 key array lo hi sz compare aux rng middle cmp)
  have "(hi - lo) div sz div 2 * sz \<le> (hi - lo) div 2"
    by (metis div_mult2_eq div_times_less_eq_dividend mult.commute)
  then have "(hi - lo) div sz div 2 * sz < hi - lo" using 2(1) by linarith
  then show ?case using 2 by simp
qed auto

declare bsearch_loop.simps [simp del]

definition binary_search :: "u8 list \<Rightarrow> bmem \<Rightarrow> nat \<Rightarrow> nat \<Rightarrow> 'x compare \<Rightarrow> 'x \<Rightarrow> nat option res" where
  "binary_search key array cnt sz compare aux = bsearch_loop key array 0 (sz * cnt) sz compare aux"

definition bsearch :: "u8 list \<Rightarrow> bmem \<Rightarrow> nat \<Rightarrow> nat \<Rightarrow> (u8 list \<Rightarrow> u8 list \<Rightarrow> int) \<Rightarrow> nat option res" where
  "bsearch key array cnt sz compare = binary_search key array cnt sz compare_thunk compare"

section \<open>Arrays of elements\<close>

definition elems :: "nat \<Rightarrow> nat \<Rightarrow> bmem \<Rightarrow> u8 list list" where
  "elems cnt sz array = map (\<lambda>k. slice array (k * sz) sz) [0..<cnt]"

definition swp :: "'e list \<Rightarrow> nat \<Rightarrow> nat \<Rightarrow> 'e list" where
  "swp xs a b = xs[a := xs ! b, b := xs ! a]"

lemma length_elems [simp]: "length (elems cnt sz array) = cnt"
  by (simp add: elems_def)

lemma nth_elems [simp]: "k < cnt \<Longrightarrow> elems cnt sz array ! k = slice array (k * sz) sz"
  by (simp add: elems_def)

lemma elem_bound: "k < cnt \<Longrightarrow> k * sz + sz \<le> cnt * (sz :: nat)"
  by (metis Suc_leI add.commute mult_Suc mult_le_mono1)

lemma elems_length: "length array = cnt * sz \<Longrightarrow> x \<in> set (elems cnt sz array) \<Longrightarrow> length x = sz"
  using elem_bound[of _ cnt sz] by (auto simp: elems_def intro!: length_slice)

lemma length_swp [simp]: "length (swp xs a b) = length xs"
  by (simp add: swp_def)

lemma nth_swp:
  "a < length xs \<Longrightarrow> b < length xs \<Longrightarrow> k < length xs \<Longrightarrow>
    swp xs a b ! k = (if k = a then xs ! b else if k = b then xs ! a else xs ! k)"
  by (auto simp: swp_def nth_list_update)

lemma mset_swp: "a < length xs \<Longrightarrow> b < length xs \<Longrightarrow> mset (swp xs a b) = mset xs"
  by (simp add: swp_def mset_swap)

lemma take_swp: "a < n \<Longrightarrow> b < n \<Longrightarrow> n \<le> length xs \<Longrightarrow> take n (swp xs a b) = swp (take n xs) a b"
  by (simp add: swp_def take_update_swap)

lemma drop_swp: "a < n \<Longrightarrow> b < n \<Longrightarrow> drop n (swp xs a b) = drop n xs"
  by (simp add: swp_def)

lemma swap_loop_nth:
  assumes "A + i + n \<le> length m" and "B + i + n \<le> length m" and "A = B \<or> A + i + n \<le> B \<or> B + i + n \<le> A"
  shows "\<exists>m'. swap_loop m A B i n = Inr m' \<and> length m' = length m \<and>
    (\<forall>k < length m. m' ! k =
      (if A + i \<le> k \<and> k < A + i + n then m ! (B + (k - A))
       else if B + i \<le> k \<and> k < B + i + n then m ! (A + (k - B)) else m ! k))"
  using assms
proof (induction n arbitrary: m i)
  case (Suc n)
  let ?m = "m[A + i := m ! (B + i), B + i := m ! (A + i)]"
  have "\<exists>m'. swap_loop ?m A B (i + 1) n = Inr m' \<and> length m' = length ?m \<and>
    (\<forall>k < length ?m. m' ! k =
      (if A + (i + 1) \<le> k \<and> k < A + (i + 1) + n then ?m ! (B + (k - A))
       else if B + (i + 1) \<le> k \<and> k < B + (i + 1) + n then ?m ! (A + (k - B)) else ?m ! k))"
    using Suc.prems by (intro Suc.IH) auto
  then obtain m' where m': "swap_loop ?m A B (i + 1) n = Inr m'" "length m' = length m"
    "\<And>k. k < length m \<Longrightarrow> m' ! k =
      (if A + (i + 1) \<le> k \<and> k < A + (i + 1) + n then ?m ! (B + (k - A))
       else if B + (i + 1) \<le> k \<and> k < B + (i + 1) + n then ?m ! (A + (k - B)) else ?m ! k)"
    by auto
  have q: "?m ! k = (if k = B + i then m ! (A + i) else if k = A + i then m ! (B + i) else m ! k)"
    if "k < length m" for k using that by (auto simp: nth_list_update)
  have "m' ! k = (if A + i \<le> k \<and> k < A + i + Suc n then m ! (B + (k - A))
       else if B + i \<le> k \<and> k < B + i + Suc n then m ! (A + (k - B)) else m ! k)" if k: "k < length m" for k
  proof -
    consider "k = A + i" | "k = B + i" "k \<noteq> A + i" | "A + (i + 1) \<le> k" "k < A + (i + 1) + n"
      | "B + (i + 1) \<le> k" "k < B + (i + 1) + n" "\<not> (A + i \<le> k \<and> k < A + (i + 1) + n)"
      | "\<not> (A + i \<le> k \<and> k < A + (i + 1) + n)" "\<not> (B + i \<le> k \<and> k < B + (i + 1) + n)" by linarith
    then show ?thesis
    proof cases
      case 3
      have "?m ! (B + (k - A)) = m ! (B + (k - A))"
        using 3 Suc.prems k by (subst q) auto
      then show ?thesis using 3 m'(3)[OF k] by simp
    next
      case 4
      have "?m ! (A + (k - B)) = m ! (A + (k - B))"
        using 4 Suc.prems k by (subst q) auto
      then show ?thesis using 4 m'(3)[OF k] by auto
    next
      case 1
      then have "\<not> (B + (i + 1) \<le> k \<and> k < B + (i + 1) + n)" using Suc.prems(3) by linarith
      then show ?thesis using 1 m'(3)[OF k] q[OF k] by (simp only: if_False) simp
    next
      case 2
      then have "\<not> (A + (i + 1) \<le> k \<and> k < A + (i + 1) + n)" "\<not> (A + i \<le> k \<and> k < A + i + Suc n)"
        using Suc.prems(3) by linarith+
      then show ?thesis using 2(1) m'(3)[OF k] q[OF k] by (simp only: if_False) simp
    next
      case 5
      then have "\<not> (A + (i + 1) \<le> k \<and> k < A + (i + 1) + n)" "\<not> (B + (i + 1) \<le> k \<and> k < B + (i + 1) + n)"
        "k \<noteq> A + i" "k \<noteq> B + i" by linarith+
      moreover have "\<not> (A + i \<le> k \<and> k < A + i + Suc n)" "\<not> (B + i \<le> k \<and> k < B + i + Suc n)" using 5 by linarith+
      ultimately show ?thesis using m'(3)[OF k] q[OF k] by (simp only: if_False)
    qed
  qed
  then show ?case using m' Suc.prems by auto
qed auto

text \<open>Arrays in which the index arithmetic does not wrap.\<close>

definition fits :: "nat \<Rightarrow> nat \<Rightarrow> bool" where
  "fits cnt sz \<longleftrightarrow> cnt < 2 ^ 31 \<and> cnt * sz \<le> 2 ^ 32"

lemma wrapu_id: "n < 2 ^ 32 \<Longrightarrow> wrapu n = n"
  by (simp add: wrapu_def)

lemma wrapu_child: "fits cnt sz \<Longrightarrow> i \<le> cnt \<Longrightarrow> wrapu (2 * i) = 2 * i" "fits cnt sz \<Longrightarrow> i \<le> cnt \<Longrightarrow> wrapu (2 * i + 1) = 2 * i + 1"
  by (simp_all add: fits_def wrapu_id)

lemma wrapu_elem: "fits cnt sz \<Longrightarrow> 1 \<le> a \<Longrightarrow> a \<le> cnt \<Longrightarrow> 0 < sz \<Longrightarrow> wrapu ((a - 1) * sz) = (a - 1) * sz"
proof -
  assume a: "fits cnt sz" "1 \<le> a" "a \<le> cnt" "0 < sz"
  then have "(a - 1) * sz < cnt * sz" by simp
  also have "\<dots> \<le> 2 ^ 32" using a(1) by (simp add: fits_def)
  finally show ?thesis by (rule wrapu_id)
qed

lemma do_swap_ok:
  assumes ft: "fits cnt sz" and sz: "0 < sz" and len: "length array = cnt * sz" and a: "1 \<le> a" "a \<le> cnt" and b: "1 \<le> b" "b \<le> cnt"
  shows "\<exists>array'. do_swap array a b sz = Inr array' \<and> length array' = length array \<and>
    elems cnt sz array' = swp (elems cnt sz array) (a - 1) (b - 1)"
proof -
  let ?A = "(a - 1) * sz" and ?B = "(b - 1) * sz"
  note wr = wrapu_elem[OF ft a sz] wrapu_elem[OF ft b sz]
  have off: "k * sz + sz \<le> j * sz \<or> j * sz + sz \<le> k * sz \<or> k = j" for k j
    using elem_bound[of k j sz] elem_bound[of j k sz] by linarith
  have ab: "?A + sz \<le> length array" "?B + sz \<le> length array"
    using elem_bound[of "a - 1" cnt sz] elem_bound[of "b - 1" cnt sz] a b by (simp_all add: len)
  have "?A = ?B \<or> ?A + 0 + sz \<le> ?B \<or> ?B + 0 + sz \<le> ?A" using off[of "a - 1" "b - 1"] by auto
  with swap_loop_nth[of ?A 0 sz array ?B] ab obtain array' where r: "swap_loop array ?A ?B 0 sz = Inr array'"
    "length array' = length array"
    "\<And>k. k < length array \<Longrightarrow> array' ! k = (if ?A \<le> k \<and> k < ?A + sz then array ! (?B + (k - ?A))
       else if ?B \<le> k \<and> k < ?B + sz then array ! (?A + (k - ?B)) else array ! k)" by auto
  have "slice array' (k * sz) sz = (if k = a - 1 then slice array ?B sz else if k = b - 1 then slice array ?A sz
      else slice array (k * sz) sz)" if k: "k < cnt" for k
  proof -
    have kb: "k * sz + sz \<le> length array" using elem_bound[OF k] by (simp add: len)
    have "slice array' (k * sz) sz ! i = (if k = a - 1 then slice array ?B sz ! i else if k = b - 1 then slice array ?A sz ! i
      else slice array (k * sz) sz ! i)" if i: "i < sz" for i
    proof -
      have ki: "k * sz + i < length array" using kb i by linarith
      have out: "\<not> (j * sz \<le> k * sz + i \<and> k * sz + i < j * sz + sz)" if "k \<noteq> j" for j
        using off[of k j] that i by linarith
      consider "k = a - 1" | "k \<noteq> a - 1" "k = b - 1" | "k \<noteq> a - 1" "k \<noteq> b - 1" by blast
      then show ?thesis
      proof cases
        case 1
        then show ?thesis using r(3)[OF ki] i kb ab by (simp add: nth_slice r(2))
      next
        case 2
        then show ?thesis using r(3)[OF ki, unfolded if_not_P[OF out[OF 2(1)]]] i kb ab
          by (simp add: nth_slice r(2))
      next
        case 3
        then show ?thesis
          using r(3)[OF ki, unfolded if_not_P[OF out[OF 3(1)]] if_not_P[OF out[OF 3(2)]]] i kb
          by (simp add: nth_slice r(2))
      qed
    qed
    then show ?thesis using kb ab r(2) by (auto intro!: nth_equalityI simp: length_slice)
  qed
  then have "elems cnt sz array' = swp (elems cnt sz array) (a - 1) (b - 1)"
    using a b by (intro nth_equalityI) (auto simp: nth_swp)
  then show ?thesis unfolding do_swap_def wr using r(1,2) a b by auto
qed

section \<open>The contract of a comparison function\<close>

text \<open>
  What the comments of \<open>sort\<close> and \<open>binary_search\<close> ask of \<open>compare\<close>: a result of the kind
  \<open>strcmp\<close> returns, on the elements \<open>A\<close> of the array. \<open>el xs i\<close> is the element with the 1-based index \<open>i\<close>.
\<close>

definition el :: "'e list \<Rightarrow> nat \<Rightarrow> 'e" where
  "el xs i = xs ! (i - 1)"

definition heap_from :: "('e \<Rightarrow> 'e \<Rightarrow> int) \<Rightarrow> nat \<Rightarrow> nat \<Rightarrow> 'e list \<Rightarrow> bool" where
  "heap_from cmp lo n xs \<longleftrightarrow>
     (\<forall>j. 2 \<le> j \<and> j \<le> n \<and> lo \<le> j div 2 \<longrightarrow> cmp (el xs j) (el xs (j div 2)) \<le> 0)"

text \<open>A heap whose element \<open>c\<close> may be smaller than its children.\<close>

definition heap_but :: "('e \<Rightarrow> 'e \<Rightarrow> int) \<Rightarrow> nat \<Rightarrow> nat \<Rightarrow> nat \<Rightarrow> 'e list \<Rightarrow> bool" where
  "heap_but cmp lo n c xs \<longleftrightarrow>
     (\<forall>j. 2 \<le> j \<and> j \<le> n \<and> lo \<le> j div 2 \<and> j div 2 \<noteq> c \<longrightarrow> cmp (el xs j) (el xs (j div 2)) \<le> 0) \<and>
     (\<forall>j. 2 \<le> j \<and> j \<le> n \<and> j div 2 = c \<and> lo \<le> c div 2 \<longrightarrow> cmp (el xs j) (el xs (c div 2)) \<le> 0)"

definition sorted_upto :: "('e \<Rightarrow> 'e \<Rightarrow> int) \<Rightarrow> 'e list \<Rightarrow> bool" where
  "sorted_upto cmp xs \<longleftrightarrow> (\<forall>i j. i < j \<and> j < length xs \<longrightarrow> cmp (xs ! i) (xs ! j) \<le> 0)"

lemma sorted_upto_wrt: "sorted_upto cmp xs \<longleftrightarrow> sorted_wrt (\<lambda>a b. cmp a b \<le> 0) xs"
  by (auto simp: sorted_upto_def sorted_wrt_iff_nth_less)

lemma el_swp:
  assumes "1 \<le> a" "a \<le> length xs" "1 \<le> b" "b \<le> length xs" "1 \<le> k" "k \<le> length xs"
  shows "el (swp xs (a - 1) (b - 1)) k = (if k = a then el xs b else if k = b then el xs a else el xs k)"
  using assms by (auto simp: el_def nth_swp)

lemma el_in: "1 \<le> k \<Longrightarrow> k \<le> length xs \<Longrightarrow> el xs k \<in> set xs"
  by (simp add: el_def)

lemma heap_but_init: "1 \<le> lo \<Longrightarrow> heap_from cmp (lo + 1) n xs \<Longrightarrow> heap_but cmp lo n lo xs"
  by (auto simp: heap_from_def heap_but_def)

lemma heap_but_done:
  "heap_but cmp lo n c xs \<Longrightarrow>
    (\<And>j. 2 \<le> j \<Longrightarrow> j \<le> n \<Longrightarrow> j div 2 = c \<Longrightarrow> cmp (el xs j) (el xs c) \<le> 0) \<Longrightarrow> heap_from cmp lo n xs"
  by (auto simp: heap_from_def heap_but_def)

lemma heap_but_step:
  assumes h: "heap_but cmp lo n c xs" and n: "n \<le> length xs" and lo: "1 \<le> lo" "lo \<le> c"
    and mx: "mx \<le> n" "mx div 2 = c" and c: "cmp (el xs c) (el xs mx) \<le> 0"
    and ch: "\<And>j. 2 \<le> j \<Longrightarrow> j \<le> n \<Longrightarrow> j div 2 = c \<Longrightarrow> cmp (el xs j) (el xs mx) \<le> 0"
  shows "heap_but cmp lo n mx (swp xs (c - 1) (mx - 1))"
proof -
  have cm: "c < mx" "1 \<le> c" "2 \<le> mx" using mx lo by auto
  let ?ys = "swp xs (c - 1) (mx - 1)"
  have ys: "el ?ys k = (if k = c then el xs mx else if k = mx then el xs c else el xs k)"
    if "1 \<le> k" "k \<le> n" for k using el_swp[of c xs mx k] that cm mx n by auto
  have one: "cmp (el ?ys j) (el ?ys (j div 2)) \<le> 0"
    if j: "2 \<le> j" "j \<le> n" "lo \<le> j div 2" "j div 2 \<noteq> mx" for j
  proof -
    have p: "1 \<le> j div 2" "j div 2 \<le> n" "1 \<le> j" "j div 2 < j" using j by auto
    consider "j div 2 = c" "j = mx" | "j div 2 = c" "j \<noteq> mx" | "j div 2 \<noteq> c" "j = c" | "j div 2 \<noteq> c" "j \<noteq> c" by blast
    then show ?thesis
    proof cases
      case 2
      then show ?thesis using ys[of j] ys[of "j div 2"] p j ch[of j] by auto
    next
      case 3
      then have "cmp (el xs mx) (el xs (c div 2)) \<le> 0" using h mx cm j by (auto simp: heap_but_def)
      then show ?thesis using 3 ys[of j] ys[of "j div 2"] p j cm by auto
    next
      case 4
      then have "j \<noteq> mx" using mx by auto
      then show ?thesis using 4 h ys[of j] ys[of "j div 2"] p j by (auto simp: heap_but_def)
    qed (use ys[of j] ys[of "j div 2"] p j c cm in auto)
  qed
  have "cmp (el ?ys j) (el ?ys (mx div 2)) \<le> 0"
    if j: "2 \<le> j" "j \<le> n" "j div 2 = mx" "lo \<le> mx div 2" for j
  proof -
    have "cmp (el xs j) (el xs mx) \<le> 0" using h j cm lo by (auto simp: heap_but_def)
    then show ?thesis using ys[of j] ys[of c] j cm mx by auto
  qed
  with one show ?thesis by (auto simp: heap_but_def)
qed

locale strcmp_order =
  fixes cmp :: "'e \<Rightarrow> 'e \<Rightarrow> int" and A :: "'e set"
  assumes swap: "a \<in> A \<Longrightarrow> b \<in> A \<Longrightarrow> 0 < cmp a b \<longleftrightarrow> cmp b a < 0"
    and trans: "a \<in> A \<Longrightarrow> b \<in> A \<Longrightarrow> c \<in> A \<Longrightarrow> cmp a b \<le> 0 \<Longrightarrow> cmp b c \<le> 0 \<Longrightarrow> cmp a c \<le> 0"
begin

lemma refl: "a \<in> A \<Longrightarrow> cmp a a \<le> 0"
  using swap[of a a] by linarith

lemma less_le:
  assumes "a \<in> A" "b \<in> A" "c \<in> A" and "cmp a b < 0" and "cmp b c \<le> 0"
  shows "cmp a c < 0"
proof (rule ccontr)
  assume "\<not> cmp a c < 0"
  then have "cmp c a \<le> 0" using swap[of c a] assms by auto
  then have "cmp b a \<le> 0" using trans[of b c a] assms by auto
  then show False using swap[of b a] assms by auto
qed

lemma le_greater:
  assumes "a \<in> A" "b \<in> A" "c \<in> A" and "cmp b a \<le> 0" and "0 < cmp c a"
  shows "0 < cmp c b"
proof (rule ccontr)
  assume "\<not> 0 < cmp c b"
  then have "cmp c a \<le> 0" using trans[of c b a] assms by auto
  then show False using assms(5) by simp
qed

lemma root_max:
  assumes "heap_from cmp 1 n xs" and "set xs \<subseteq> A" and "n \<le> length xs" and "1 \<le> j" and "j \<le> n"
  shows "cmp (el xs j) (el xs 1) \<le> 0"
  using assms(4,5)
proof (induction j rule: less_induct)
  case (less j)
  show ?case
  proof (cases "j = 1")
    case True
    then show ?thesis using refl[of "el xs 1"] el_in[of 1 xs] assms less by auto
  next
    case False
    then have j: "2 \<le> j" "1 \<le> j div 2" "j div 2 < j" using less.prems by auto
    then have "cmp (el xs j) (el xs (j div 2)) \<le> 0" using assms(1) less.prems by (auto simp: heap_from_def)
    moreover have "cmp (el xs (j div 2)) (el xs 1) \<le> 0" using less.IH[of "j div 2"] j less.prems by auto
    moreover have "el xs j \<in> A" "el xs (j div 2) \<in> A" "el xs 1 \<in> A"
      using el_in[of _ xs] assms(2,3) less.prems j by (auto intro!: subsetD[OF assms(2)])
    ultimately show ?thesis using trans by blast
  qed
qed

text \<open>The step of the sorting loop: the root of the heap of \<open>i\<close> elements goes to position \<open>i\<close>.\<close>

lemma sort_step:
  assumes A: "set xs \<subseteq> A" and i: "1 < i" "i \<le> length xs" and h: "heap_from cmp 1 i xs"
    and tail: "\<And>j k. 1 \<le> j \<Longrightarrow> j < k \<Longrightarrow> i < k \<Longrightarrow> k \<le> length xs \<Longrightarrow> cmp (el xs j) (el xs k) \<le> 0"
    and zs: "mset (take (i - 1) zs) = mset (take (i - 1) (swp xs 0 (i - 1)))"
      "drop (i - 1) zs = drop (i - 1) (swp xs 0 (i - 1))" "length zs = length xs"
    and jk: "1 \<le> j" "j < k" "i - 1 < k" "k \<le> length xs"
  shows "cmp (el zs j) (el zs k) \<le> 0"
proof -
  let ?ys = "swp xs 0 (i - 1)"
  have high: "el zs l = el ?ys l" if "i - 1 < l" "l \<le> length xs" for l
    using that zs(2,3) nth_drop[of "i - 1" zs "l - i"] nth_drop[of "i - 1" ?ys "l - i"] i
    by (simp add: el_def)
  have ys: "el ?ys l = (if l = 1 then el xs i else if l = i then el xs 1 else el xs l)"
    if "1 \<le> l" "l \<le> length xs" for l using el_swp[of 1 xs i l] that i by simp
  have low: "\<exists>l'. 1 \<le> l' \<and> l' \<le> i \<and> el zs l = el xs l'" if "1 \<le> l" "l \<le> i - 1" for l
  proof -
    have "el zs l \<in> set (take (i - 1) zs)" using that i zs(3) by (auto simp: el_def in_set_conv_nth intro!: exI[of _ "l - 1"])
    then have "el zs l \<in> set (take (i - 1) ?ys)" using zs(1) by (metis set_mset_mset)
    then obtain q where "q < i - 1" "el zs l = ?ys ! q" by (auto simp: in_set_conv_nth)
    then have "el zs l = el ?ys (q + 1)" "1 \<le> q + 1" "q + 1 \<le> i" by (simp_all add: el_def)
    then show ?thesis using ys[of "q + 1"] i \<open>q < i - 1\<close>
      by (intro exI[of _ "if q = 0 then i else q + 1"]) auto
  qed
  show ?thesis
  proof (cases "j \<le> i - 1")
    case True
    then obtain l where l: "1 \<le> l" "l \<le> i" "el zs j = el xs l" using low jk by blast
    show ?thesis
    proof (cases "k = i")
      case True
      then have "el zs k = el xs 1" using high[of i] ys[of i] i by auto
      then show ?thesis using root_max[OF h A i(2) l(1,2)] l(3) by simp
    next
      case False
      then have "el zs k = el xs k" "i < k" using high[of k] ys[of k] jk i by auto
      then show ?thesis using tail[of l k] l jk by auto
    qed
  next
    case False
    then have "el zs j = (if j = i then el xs 1 else el xs j)" "el zs k = el xs k" "i < k"
      using high[of j] high[of k] ys[of j] ys[of k] jk i by auto
    then show ?thesis using tail[of 1 k] tail[of j k] jk i False by auto
  qed
qed

end

text \<open>The order on bytes that \<open>memcmp\<close> decides is such a comparison, whatever the element size.\<close>

interpretation bytes_order: strcmp_order lexcmp UNIV
proof
  fix a b c :: "u8 list"
  show "(0 < lexcmp a b) = (lexcmp b a < 0)" using lexcmp_swap[of b a] by linarith
  show "lexcmp a b \<le> 0 \<Longrightarrow> lexcmp b c \<le> 0 \<Longrightarrow> lexcmp a c \<le> 0" by (rule lexcmp_trans)
qed

section \<open>Heap sort\<close>

definition cmp_of :: "'x compare \<Rightarrow> 'x \<Rightarrow> u8 list \<Rightarrow> u8 list \<Rightarrow> int" where
  "cmp_of compare aux a b = compare a b aux"

definition cmp_ok :: "'x compare \<Rightarrow> 'x \<Rightarrow> nat \<Rightarrow> bool" where
  "cmp_ok compare aux sz \<longleftrightarrow> strcmp_order (cmp_of compare aux) {x. length x = sz}"

lemma do_compare_ok:
  assumes "length array = cnt * sz" and a: "1 \<le> a" "a \<le> cnt" and b: "1 \<le> b" "b \<le> cnt" and ft: "fits cnt sz" and sz: "0 < sz"
  shows "do_compare array a b sz compare aux =
    Inr (cmp_of compare aux (el (elems cnt sz array) a) (el (elems cnt sz array) b))"
proof -
  have "(a - 1) * sz + sz \<le> length array" "(b - 1) * sz + sz \<le> length array"
    using elem_bound[of "a - 1" cnt sz] elem_bound[of "b - 1" cnt sz] a b by (simp_all add: assms(1))
  then show ?thesis using a b wrapu_elem[OF ft a sz] wrapu_elem[OF ft b sz]
    by (auto simp: do_compare_def cmp_of_def el_def Let_def)
qed

lemma heap_max_ok:
  assumes ok: "cmp_ok compare aux sz" and ft: "fits cnt sz" "0 < sz" and len: "length array = cnt * sz" and n: "n \<le> cnt" and i: "1 \<le> i" "i \<le> n"
  defines "xs \<equiv> elems cnt sz array" and "cmp \<equiv> cmp_of compare aux"
  shows "\<exists>mx. heap_max array i n sz compare aux = Inr mx \<and> 1 \<le> mx \<and> mx \<le> n \<and> (mx = i \<or> mx div 2 = i) \<and>
    cmp (el xs i) (el xs mx) \<le> 0 \<and>
    (\<forall>j. 2 \<le> j \<and> j \<le> n \<and> j div 2 = i \<longrightarrow> cmp (el xs j) (el xs mx) \<le> 0)"
proof -
  have so: "strcmp_order cmp {x. length x = sz}" using ok by (simp add: cmp_ok_def cmp_def)
  have mem: "el xs k \<in> {x. length x = sz}" if "1 \<le> k" "k \<le> n" for k
    using elems_length[OF len] el_in[of k xs] that n by (simp add: xs_def)
  note sw = strcmp_order.swap[OF so] and tr = strcmp_order.trans[OF so] and rf = strcmp_order.refl[OF so]
  have dc: "do_compare array a b sz compare aux = Inr (cmp (el xs a) (el xs b))"
    if "1 \<le> a" "a \<le> n" "1 \<le> b" "b \<le> n" for a b
    using do_compare_ok[OF len _ _ _ _ ft, of a b compare aux] that n by (simp add: xs_def cmp_def)
  have wp: "wrapu (2 * i) = 2 * i" "wrapu (2 * i + 1) = 2 * i + 1" using wrapu_child[OF ft(1), of i] i n by simp_all
  define m1 where "m1 = (if 2 * i \<le> n \<and> 0 < cmp (el xs (2 * i)) (el xs i) then 2 * i else i)"
  have m1r: "1 \<le> m1" "m1 \<le> n" using i by (auto simp: m1_def)
  have first: "(if 2 * i \<le> n then bnd (do_compare array (2 * i) i sz compare aux) (\<lambda>c.
            Inr (if 0 < c then 2 * i else i)) else Inr i) = Inr m1"
    using dc[of "2 * i" i] i by (simp add: m1_def)
  have im1: "cmp (el xs i) (el xs m1) \<le> 0"
    using rf[OF mem[OF i]] sw[OF mem[of "2 * i"] mem[OF i]] i by (auto simp: m1_def)
  have lm1: "2 * i \<le> n \<Longrightarrow> cmp (el xs (2 * i)) (el xs m1) \<le> 0"
    using rf[OF mem[of "2 * i"]] i by (auto simp: m1_def)
  define mx where "mx = (if 2 * i + 1 \<le> n \<and> 0 < cmp (el xs (2 * i + 1)) (el xs m1) then 2 * i + 1 else m1)"
  have r: "heap_max array i n sz compare aux = Inr mx"
    unfolding heap_max_def Let_def wp first using dc[of "2 * i + 1" m1] m1r by (simp add: mx_def)
  have mxr: "1 \<le> mx" "mx \<le> n" using m1r by (auto simp: mx_def)
  have m1x: "cmp (el xs m1) (el xs mx) \<le> 0"
    using rf[OF mem[OF m1r]] sw[OF mem[of "2 * i + 1"] mem[OF m1r]] by (auto simp: mx_def)
  have rx: "2 * i + 1 \<le> n \<Longrightarrow> cmp (el xs (2 * i + 1)) (el xs mx) \<le> 0"
    using rf[OF mem[of "2 * i + 1"]] by (auto simp: mx_def)
  have le: "cmp (el xs k) (el xs mx) \<le> 0" if "cmp (el xs k) (el xs m1) \<le> 0" "1 \<le> k" "k \<le> n" for k
    using tr[OF mem[OF that(2,3)] mem[OF m1r] mem[OF mxr] that(1) m1x] .
  have ch: "\<forall>j. 2 \<le> j \<and> j \<le> n \<and> j div 2 = i \<longrightarrow> cmp (el xs j) (el xs mx) \<le> 0"
  proof (intro allI impI)
    fix j assume j: "2 \<le> j \<and> j \<le> n \<and> j div 2 = i"
    then consider "j = 2 * i" | "j = 2 * i + 1" by linarith
    then show "cmp (el xs j) (el xs mx) \<le> 0" using j lm1 rx le[of j] by cases auto
  qed
  have "mx = i \<or> mx div 2 = i" by (auto simp: mx_def m1_def)
  with r mxr le[OF im1 i] ch show ?thesis by blast
qed

lemma heapify_ok:
  assumes ok: "cmp_ok compare aux sz" and ft: "fits cnt sz" "0 < sz" and len: "length array = cnt * sz" and n: "n \<le> cnt"
    and lo: "1 \<le> lo" "lo \<le> i" "i \<le> n" and fu: "n - i < fuel" and h: "heap_but (cmp_of compare aux) lo n i (elems cnt sz array)"
  shows "\<exists>array'. heapify fuel array i n sz compare aux = Inr array' \<and> length array' = length array \<and>
    heap_from (cmp_of compare aux) lo n (elems cnt sz array') \<and>
    mset (take n (elems cnt sz array')) = mset (take n (elems cnt sz array)) \<and>
    drop n (elems cnt sz array') = drop n (elems cnt sz array)"
  using len lo(2,3) h fu
proof (induction fuel arbitrary: array i)
  case (Suc fuel)
  let ?xs = "elems cnt sz array" and ?cmp = "cmp_of compare aux"
  have i1: "1 \<le> i" using lo Suc.prems by linarith
  from heap_max_ok[OF ok ft Suc.prems(1) n i1 Suc.prems(3)] obtain mx where
    mx: "heap_max array i n sz compare aux = Inr mx" "1 \<le> mx" "mx \<le> n" "mx = i \<or> mx div 2 = i"
      "?cmp (el ?xs i) (el ?xs mx) \<le> 0"
      "\<And>j. 2 \<le> j \<Longrightarrow> j \<le> n \<Longrightarrow> j div 2 = i \<Longrightarrow> ?cmp (el ?xs j) (el ?xs mx) \<le> 0" by blast
  show ?case
  proof (cases "mx = i")
    case True
    then have "heap_from ?cmp lo n ?xs" using Suc.prems(4) mx(6) by (intro heap_but_done) auto
    then show ?thesis using mx(1) True by (simp add: heapify.simps)
  next
    case False
    then have d: "mx div 2 = i" "i < mx" using mx(4) i1 by auto
    from do_swap_ok[OF ft Suc.prems(1), of i mx] obtain a1 where
      a1: "do_swap array i mx sz = Inr a1" "length a1 = length array" "elems cnt sz a1 = swp ?xs (i - 1) (mx - 1)"
      using i1 mx(2,3) n Suc.prems(3) by auto
    have "heap_but ?cmp lo n mx (elems cnt sz a1)" unfolding a1(3)
      using Suc.prems lo n mx d by (intro heap_but_step) auto
    moreover have "n - mx < fuel" using d mx(3) Suc.prems(5) by linarith
    ultimately obtain a2 where "heapify fuel a1 mx n sz compare aux = Inr a2" "length a2 = length a1"
      "heap_from ?cmp lo n (elems cnt sz a2)" "mset (take n (elems cnt sz a2)) = mset (take n (elems cnt sz a1))"
      "drop n (elems cnt sz a2) = drop n (elems cnt sz a1)"
      using Suc.IH[of a1 mx] Suc.prems(1,2) mx(3) a1(2) d(2) by fastforce
    moreover have "mset (take n (elems cnt sz a1)) = mset (take n ?xs)"
      using mx(2,3) i1 d Suc.prems(3) n by (simp add: a1(3) take_swp mset_swp)
    moreover have "drop n (elems cnt sz a1) = drop n ?xs"
      using mx(2,3) i1 d Suc.prems(3) by (simp add: a1(3) drop_swp)
    ultimately show ?thesis using mx(1) a1 False by (simp add: heapify.simps)
  qed
qed simp

lemma build_loop_ok:
  assumes ok: "cmp_ok compare aux sz" and ft: "fits cnt sz" "0 < sz" and len: "length array = cnt * sz" and i: "i \<le> cnt"
    and h: "heap_from (cmp_of compare aux) (i + 1) cnt (elems cnt sz array)"
  shows "\<exists>array'. build_loop array i cnt sz compare aux = Inr array' \<and> length array' = length array \<and>
    heap_from (cmp_of compare aux) 1 cnt (elems cnt sz array') \<and>
    mset (elems cnt sz array') = mset (elems cnt sz array)"
  using len i h
proof (induction i arbitrary: array)
  case (Suc i)
  have "heap_but (cmp_of compare aux) (Suc i) cnt (Suc i) (elems cnt sz array)"
    using Suc.prems by (intro heap_but_init) auto
  from heapify_ok[OF ok ft Suc.prems(1) order.refl _ _ _ _ this, of cnt] Suc.prems obtain a1 where
    "heapify cnt array (Suc i) cnt sz compare aux = Inr a1" "length a1 = length array"
    "heap_from (cmp_of compare aux) (i + 1) cnt (elems cnt sz a1)"
    "mset (elems cnt sz a1) = mset (elems cnt sz array)" by auto
  with Suc.IH[of a1] Suc.prems show ?case by auto
qed simp

lemma sort_heap_ok:
  assumes ok: "cmp_ok compare aux sz" and ft: "fits cnt sz" "0 < sz" and len: "length array = cnt * sz" and i: "i \<le> cnt"
    and h: "heap_from (cmp_of compare aux) 1 i (elems cnt sz array)"
    and t: "\<And>j k. 1 \<le> j \<Longrightarrow> j < k \<Longrightarrow> i < k \<Longrightarrow> k \<le> cnt \<Longrightarrow>
      cmp_of compare aux (el (elems cnt sz array) j) (el (elems cnt sz array) k) \<le> 0"
  shows "\<exists>array'. sort_heap_loop array i sz compare aux = Inr array' \<and> length array' = length array \<and>
    sorted_upto (cmp_of compare aux) (elems cnt sz array') \<and>
    mset (elems cnt sz array') = mset (elems cnt sz array)"
  using len i h t
proof (induction i arbitrary: array)
  case 0
  have "sorted_upto (cmp_of compare aux) (elems cnt sz array)"
    unfolding sorted_upto_def using 0(4)[of "Suc a" "Suc b" for a b] by (simp add: el_def)
  then show ?case by (subst sort_heap_loop.simps) simp
next
  case (Suc i)
  let ?cmp = "cmp_of compare aux" and ?xs = "elems cnt sz array"
  show ?case
  proof (cases "i = 0")
    case True
    have "sorted_upto ?cmp ?xs"
      unfolding sorted_upto_def using Suc(5)[of "Suc a" "Suc b" for a b] True by (simp add: el_def)
    then show ?thesis using True by (subst sort_heap_loop.simps) simp
  next
    case False
    have so: "strcmp_order ?cmp {x. length x = sz}" using ok by (simp add: cmp_ok_def)
    have A: "set ?xs \<subseteq> {x. length x = sz}" using elems_length[OF Suc.prems(1)] by auto
    from do_swap_ok[OF ft Suc.prems(1), of 1 "Suc i"] Suc.prems(2) obtain a1 where
      a1: "do_swap array 1 (Suc i) sz = Inr a1" "length a1 = length array" "elems cnt sz a1 = swp ?xs 0 i" by auto
    have "heap_from ?cmp 2 i (elems cnt sz a1)"
      unfolding heap_from_def a1(3)
    proof (intro allI impI)
      fix j assume j: "2 \<le> j \<and> j \<le> i \<and> 2 \<le> j div 2"
      then have "el (swp ?xs 0 i) j = el ?xs j" "el (swp ?xs 0 i) (j div 2) = el ?xs (j div 2)"
        using el_swp[of 1 ?xs "Suc i" j] el_swp[of 1 ?xs "Suc i" "j div 2"] Suc.prems(2) by auto
      then show "?cmp (el (swp ?xs 0 i) j) (el (swp ?xs 0 i) (j div 2)) \<le> 0"
        using Suc.prems(3) j by (auto simp: heap_from_def)
    qed
    then have "heap_but ?cmp 1 i 1 (elems cnt sz a1)" using heap_but_init[of 1 ?cmp i] by (simp add: numeral_2_eq_2)
    moreover have "i - 1 < Suc i" by simp
    ultimately have "\<exists>a2. heapify (Suc i) a1 1 i sz compare aux = Inr a2 \<and> length a2 = length a1 \<and> heap_from ?cmp 1 i (elems cnt sz a2) \<and>
        mset (take i (elems cnt sz a2)) = mset (take i (elems cnt sz a1)) \<and> drop i (elems cnt sz a2) = drop i (elems cnt sz a1)"
      using heapify_ok[OF ok ft, of a1 i 1 1 "Suc i"] False Suc.prems(1,2) a1(2) by auto
    then obtain a2 where
      a2: "heapify (Suc i) a1 1 i sz compare aux = Inr a2" "length a2 = length array" "heap_from ?cmp 1 i (elems cnt sz a2)"
        "mset (take i (elems cnt sz a2)) = mset (take i (elems cnt sz a1))"
        "drop i (elems cnt sz a2) = drop i (elems cnt sz a1)" using a1(2) by auto
    have tail: "?cmp (el (elems cnt sz a2) j) (el (elems cnt sz a2) k) \<le> 0"
      if "1 \<le> j" "j < k" "i < k" "k \<le> cnt" for j k
      using strcmp_order.sort_step[OF so A, of "Suc i" "elems cnt sz a2" j k] False Suc.prems(2-4) a2(4,5) a1(3) that
      by simp
    have ms: "mset (elems cnt sz a2) = mset ?xs"
    proof -
      have "mset (elems cnt sz a2) = mset (elems cnt sz a1)"
        using a2(4,5) by (metis append_take_drop_id mset_append)
      also have "\<dots> = mset ?xs" using Suc.prems(2) by (simp add: a1(3) mset_swp)
      finally show ?thesis .
    qed
    from Suc.IH[of a2] a2 Suc.prems(1,2) tail obtain a3 where
      "sort_heap_loop a2 i sz compare aux = Inr a3" "length a3 = length a2" "sorted_upto ?cmp (elems cnt sz a3)"
      "mset (elems cnt sz a3) = mset (elems cnt sz a2)" by auto
    then show ?thesis using False a1(1) a2(1,2) ms by (subst sort_heap_loop.simps) simp
  qed
qed

text \<open>
  (C38) The heap sort of \<open>stdlib.c\<close>: for a comparison function that meets the contract, and an
  array of exactly \<open>cnt\<close> elements of \<open>sz > 0\<close> bytes, with \<open>cnt\<close> below \<open>2\<^sup>3\<^sup>1\<close> and at most \<open>2\<^sup>3\<^sup>2\<close> bytes in all, \<open>sort\<close> returns, never touches a byte outside the array,
  and leaves its elements in order, the same elements as before with the same multiplicities.
\<close>

theorem sort_correct:
  assumes "cmp_ok compare aux sz" and "0 < sz" and "length array = cnt * sz" and "cnt < 2 ^ 31" and "cnt * sz \<le> 2 ^ 32"
  shows "\<exists>array'. sort_array array cnt sz compare aux = Inr array' \<and> length array' = length array \<and>
    sorted_upto (\<lambda>a b. compare a b aux) (elems cnt sz array') \<and>
    mset (elems cnt sz array') = mset (elems cnt sz array)"
proof -
  have "heap_from (cmp_of compare aux) (cnt div 2 + 1) cnt (elems cnt sz array)"
    by (auto simp: heap_from_def)
  have ft: "fits cnt sz" using assms(4,5) by (simp add: fits_def)
  from build_loop_ok[OF assms(1) ft assms(2,3) _ \<open>heap_from _ _ _ _\<close>] obtain a1 where
    a1: "build_loop array (cnt div 2) cnt sz compare aux = Inr a1" "length a1 = length array"
      "heap_from (cmp_of compare aux) 1 cnt (elems cnt sz a1)" "mset (elems cnt sz a1) = mset (elems cnt sz array)"
    by auto
  from sort_heap_ok[OF assms(1) ft assms(2) _ _ a1(3)] a1(2) assms(3) obtain a2 where
    "sort_heap_loop a1 cnt sz compare aux = Inr a2" "length a2 = length a1"
    "sorted_upto (cmp_of compare aux) (elems cnt sz a2)" "mset (elems cnt sz a2) = mset (elems cnt sz a1)" by auto
  then show ?thesis using a1 assms(2) by (auto simp: sort_array_def cmp_of_def[abs_def])
qed

lemma lexcmp_ok: "cmp_ok compare_thunk lexcmp sz"
  using bytes_order.swap bytes_order.trans
  by (auto simp: cmp_ok_def cmp_of_def compare_thunk_def strcmp_order_def)

theorem sort_correct_witness:
  "\<exists>array'. qsort [3, 1, 2, 9, 0, 7] 3 2 lexcmp = Inr array' \<and>
    sorted_upto lexcmp (elems 3 2 array') \<and> mset (elems 3 2 array') = {#[3, 1], [2, 9], [0, 7]#}"
  using sort_correct[OF lexcmp_ok, of 2 "[3, 1, 2, 9, 0, 7]" 3]
  by (auto simp: qsort_def compare_thunk_def elems_def slice_def upt_rec)

section \<open>Binary search\<close>

lemma search_loop_ok:
  assumes so: "strcmp_order (cmp_of compare aux) {x. length x = sz}" and key: "length key = sz" and sz: "0 < sz"
    and len: "length array = cnt * sz" and srt: "sorted_upto (cmp_of compare aux) (elems cnt sz array)"
    and ab: "a \<le> b" "b \<le> cnt"
    and lo: "\<And>k. k < a \<Longrightarrow> 0 < cmp_of compare aux key (elems cnt sz array ! k)"
    and hi: "\<And>k. b \<le> k \<Longrightarrow> k < cnt \<Longrightarrow> cmp_of compare aux key (elems cnt sz array ! k) < 0"
  shows "\<exists>r. bsearch_loop key array (a * sz) (b * sz) sz compare aux = Inr r \<and>
    (case r of None \<Rightarrow> \<forall>k < cnt. cmp_of compare aux key (elems cnt sz array ! k) \<noteq> 0
     | Some p \<Rightarrow> \<exists>k < cnt. p = k * sz \<and> cmp_of compare aux key (elems cnt sz array ! k) = 0)"
  using ab lo hi
proof (induction "b - a" arbitrary: a b rule: less_induct)
  case less
  note nth_elems [simp del]
  let ?xs = "elems cnt sz array" and ?cmp = "cmp_of compare aux"
  have in_A: "?xs ! k \<in> {x. length x = sz}" if "k < cnt" for k
    using elems_length[OF len, of "?xs ! k"] that nth_mem[of k ?xs] by simp
  have keyA: "key \<in> {x. length x = sz}" using key by simp
  show ?case
  proof (cases "a < b")
    case False
    then have "?cmp key (?xs ! k) \<noteq> 0" if "k < cnt" for k
      using less.prems(3)[of k] less.prems(4)[of k] that by (cases "k < a") auto
    then show ?thesis using False by (subst bsearch_loop.simps) auto
  next
    case True
    define c where "c = a + (b - a) div 2"
    have c: "a \<le> c" "c < b" "c < cnt" using True less.prems(2) by (auto simp: c_def)
    have mid: "a * sz + (b * sz - a * sz) div sz div 2 * sz = c * sz"
      using sz by (simp add: c_def diff_mult_distrib[symmetric] add_mult_distrib)
    have fit: "\<not> length array < c * sz + sz" using elem_bound[OF c(3), of sz] by (simp add: len)
    have cmp: "compare key (slice array (c * sz) sz) aux = ?cmp key (?xs ! c)" using c by (simp add: cmp_of_def nth_elems)
    have lt: "a * sz < b * sz" using True sz by simp
    have unf: "bsearch_loop key array (a * sz) (b * sz) sz compare aux =
      (if ?cmp key (?xs ! c) < 0 then bsearch_loop key array (a * sz) (c * sz) sz compare aux
       else if 0 < ?cmp key (?xs ! c) then bsearch_loop key array (Suc c * sz) (b * sz) sz compare aux
       else Inr (Some (c * sz)))"
      by (subst bsearch_loop.simps) (use lt sz fit in \<open>simp add: Let_def mid cmp add.commute\<close>)
    have ord: "?cmp (?xs ! i) (?xs ! j) \<le> 0" if "i \<le> j" "j < cnt" for i j
      using srt that strcmp_order.refl[OF so in_A[of i]] by (cases "i = j") (auto simp: sorted_upto_def)
    consider "?cmp key (?xs ! c) < 0" | "0 < ?cmp key (?xs ! c)" | "?cmp key (?xs ! c) = 0" by linarith
    then show ?thesis
    proof cases
      case 1
      have "?cmp key (?xs ! k) < 0" if "c \<le> k" "k < cnt" for k
        using strcmp_order.less_le[OF so keyA in_A[OF c(3)] in_A[OF that(2)] 1 ord[OF that]] .
      then show ?thesis using 1 less.hyps[of c a] c less.prems(1-3) unf by simp
    next
      case 2
      have "0 < ?cmp key (?xs ! k)" if "k < Suc c" for k
      proof -
        have k: "k \<le> c" "k < cnt" using that c by auto
        show ?thesis
          using strcmp_order.le_greater[OF so in_A[OF c(3)] in_A[OF k(2)] keyA ord[OF k(1) c(3)] 2] .
      qed
      moreover have "b - Suc c < b - a" "Suc c \<le> b" using c by auto
      moreover have "bsearch_loop key array (a * sz) (b * sz) sz compare aux =
        bsearch_loop key array (Suc c * sz) (b * sz) sz compare aux" using unf 2 by simp
      ultimately show ?thesis using less.hyps[of b "Suc c"] less.prems(2,4) by simp
    next
      case 3
      then show ?thesis using c unf by auto
    qed
  qed
qed

text \<open>
  On an array whose elements are in order, \<open>binary_search\<close> returns, reads only the array,
  and finds a match whenever there is one: its result is the offset of an element that compares
  equal to the key, or null when no element does.
\<close>

theorem binary_search_correct:
  assumes "cmp_ok compare aux sz" and "0 < sz" and "length array = cnt * sz" and "length key = sz"
    and "sorted_upto (\<lambda>a b. compare a b aux) (elems cnt sz array)"
  shows "\<exists>r. binary_search key array cnt sz compare aux = Inr r \<and>
    (case r of None \<Rightarrow> \<forall>k < cnt. compare key (elems cnt sz array ! k) aux \<noteq> 0
     | Some p \<Rightarrow> \<exists>k < cnt. p = k * sz \<and> compare key (elems cnt sz array ! k) aux = 0)"
proof -
  have "\<exists>r. bsearch_loop key array (0 * sz) (cnt * sz) sz compare aux = Inr r \<and>
    (case r of None \<Rightarrow> \<forall>k < cnt. cmp_of compare aux key (elems cnt sz array ! k) \<noteq> 0
     | Some p \<Rightarrow> \<exists>k < cnt. p = k * sz \<and> cmp_of compare aux key (elems cnt sz array ! k) = 0)"
    using assms by (intro search_loop_ok) (simp_all add: cmp_ok_def cmp_of_def[abs_def] del: nth_elems)
  then show ?thesis by (simp only: binary_search_def cmp_of_def mult_0 mult.commute)
qed

theorem binary_search_correct_witness:
  "\<exists>r. bsearch [4] [1, 4, 4, 8] 4 1 lexcmp = Inr (Some r) \<and> [1, 4, 4, 8 :: u8] ! r = 4"
proof -
  have "sorted_upto (\<lambda>a b. compare_thunk a b lexcmp) (elems 4 1 [1, 4, 4, 8])"
    by (simp add: sorted_upto_wrt compare_thunk_def elems_def slice_def upt_rec)
  from binary_search_correct[where compare = compare_thunk and aux = lexcmp and key = "[4]", OF lexcmp_ok _ _ _ this]
  obtain r where r: "bsearch [4] [1, 4, 4, 8] 4 1 lexcmp = Inr r"
    "case r of None \<Rightarrow> \<forall>k < 4. lexcmp [4] (elems 4 1 [1, 4, 4, 8] ! k) \<noteq> 0
     | Some p \<Rightarrow> \<exists>k < 4. p = k * 1 \<and> lexcmp [4] (elems 4 1 [1, 4, 4, 8] ! k) = 0"
    unfolding bsearch_def compare_thunk_def[symmetric] by auto
  have e: "elems 4 1 [1, 4, 4, 8] = [[1], [4], [4], [8 :: u8]]" by (simp add: elems_def slice_def upt_rec)
  note r2 = r(2)[unfolded e lexcmp_zero]
  have "r \<noteq> None"
  proof
    assume "r = None"
    with r2 have "\<forall>k < 4. [4] \<noteq> [[1], [4], [4], [8 :: u8]] ! k" by simp
    from this[rule_format, of 1] show False by simp
  qed
  then obtain p where p: "r = Some p" by blast
  with r2 obtain k where "k < 4" "p = k" "[4] = [[1], [4], [4], [8 :: u8]] ! k" by auto
  then have "[1, 4, 4, 8 :: u8] ! p = 4" by (auto simp: nth_Cons' numeral_eq_Suc split: if_splits)
  then show ?thesis using r(1) p by auto
qed

section \<open>Decimal conversion\<close>

text \<open>The number that a string of digits denotes.\<close>

definition numval :: "u8 list \<Rightarrow> int" where
  "numval ds = foldl (\<lambda>v d. v * 10 + (uint d - 48)) 0 ds"

lemma wrap32_eq_iff: "wrap32 x = wrap32 y \<longleftrightarrow> x mod 2 ^ 32 = y mod 2 ^ 32"
proof
  assume "x mod 2 ^ 32 = y mod 2 ^ 32"
  then show "wrap32 x = wrap32 y" unfolding wrap32_def by (metis mod_add_cong)
qed (metis wrap32_cong)

lemma wrap32_step: "wrap32 (wrap32 x * 10 - d) = wrap32 (x * 10 - d)"
  unfolding wrap32_eq_iff by (metis wrap32_cong mod_diff_left_eq mod_mult_left_eq)

lemma wrap32_minus: "wrap32 (- wrap32 x) = wrap32 (- x)"
  unfolding wrap32_eq_iff by (metis wrap32_cong mod_minus_eq)

lemma skip_space_ok:
  "is_str m s \<Longrightarrow> skip_space m s = Inr (s + length (takeWhile isspace (str m s)))"
proof (induction rule: str_induct)
  case (nul p)
  then show ?case by (subst skip_space.simps) (simp add: isspace_def)
next
  case (char p)
  then show ?case by (subst skip_space.simps) auto
qed

lemma digits_loop_ok:
  "is_str m s \<Longrightarrow> digits_loop m s (wrap32 (- v)) =
    Inr (wrap32 (- foldl (\<lambda>v d. v * 10 + (uint d - 48)) v (takeWhile isdigit (str m s))))"
proof (induction arbitrary: v rule: str_induct)
  case (nul p)
  then show ?case by (subst digits_loop.simps) (simp add: isdigit_def)
next
  case (char p)
  have "wrap32 (wrap32 (- v) * 10 - (uint (m ! p) - 48)) = wrap32 (- (v * 10 + (uint (m ! p) - 48)))"
    unfolding wrap32_step by (simp add: algebra_simps)
  with char(5)[of "v * 10 + (uint (m ! p) - 48)"] char(1-4) show ?case by (subst digits_loop.simps) simp
qed

text \<open>
  \<open>atoi\<close> on a string of white space, an optional sign, decimal digits and anything that
  does not start with a digit returns the number the digits denote, with its sign, reduced to 32 bits; so every
  number of type \<open>int\<close> is read exactly, the smallest one included, which has no positive counterpart.
\<close>

theorem atoi_correct:
  assumes "is_str m s" and "str m s = sp @ sg @ ds @ rest" and "list_all isspace sp"
    and "sg \<in> {[], [43], [45]}" and "ds \<noteq> []" and "list_all isdigit ds" and "rest = [] \<or> \<not> isdigit (hd rest)"
  shows "atoi m s = Inr (wrap32 (if sg = [45] then - numval ds else numval ds))"
    and "in_int32 (if sg = [45] then - numval ds else numval ds) \<Longrightarrow>
      atoi m s = Inr (if sg = [45] then - numval ds else numval ds)"
proof -
  let ?t = "s + length sp"
  obtain d ds' where d: "ds = d # ds'" "isdigit d" using assms(5,6) by (cases ds) auto
  have nd: "isdigit b \<Longrightarrow> b \<noteq> 43 \<and> b \<noteq> 45 \<and> \<not> isspace b" for b by (auto simp: isdigit_def isspace_def)
  have "takeWhile isspace (sg @ ds @ rest) = []" using assms(4) nd[OF d(2)] by (auto simp: d isspace_def)
  then have sp: "takeWhile isspace (str m s) = sp" unfolding assms(2)
    using assms(3) by (simp add: takeWhile_append list_all_iff)
  have dg: "takeWhile isdigit (ds @ rest) = ds" using assms(6,7) by (cases rest) (auto simp: takeWhile_append list_all_iff)
  have t: "is_str m ?t" "str m ?t = sg @ ds @ rest" using str_suffix[OF assms(1), of "length sp"] assms(2) by auto
  have u: "is_str m (?t + length sg)" "str m (?t + length sg) = ds @ rest"
    using str_suffix[OF t(1), of "length sg"] t(2) by auto
  have b: "?t < length m" "m ! ?t = hd (sg @ ds)"
    using is_str_bound[OF t(1)] str_nth[OF t(1), of 0] t(2) d by (auto simp: nth_append hd_conv_nth hd_append)
  have dl: "digits_loop m (?t + length sg) 0 = Inr (wrap32 (- numval ds))"
    using digits_loop_ok[OF u(1), of 0] by (simp add: u(2) dg numval_def wrap32_def)
  have sg: "(if m ! ?t = 43 then (?t + 1, False) else if m ! ?t = 45 then (?t + 1, True) else (?t, False))
      = (?t + length sg, sg = [45])"
    using assms(4) b(2) nd[OF d(2)] d by auto
  have "s \<noteq> 0" using assms(1) by (simp add: is_str_def)
  then show r: "atoi m s = Inr (wrap32 (if sg = [45] then - numval ds else numval ds))"
    unfolding atoi_def skip_space_ok[OF assms(1)] sp using b dl sg by (simp add: wrap32_minus)
  show "in_int32 (if sg = [45] then - numval ds else numval ds) \<Longrightarrow>
      atoi m s = Inr (if sg = [45] then - numval ds else numval ds)"
    using r wrap32_id by simp
qed

theorem atoi_correct_witness:
  "atoi [1, 32, 45, 50, 49, 52, 55, 52, 56, 51, 54, 52, 56, 0] 1 = Inr (- 2147483648)"
  using atoi_correct(2)[of "[1, 32, 45, 50, 49, 52, 55, 52, 56, 51, 54, 52, 56, 0]" 1 "[32]" "[45]"
      "[50, 49, 52, 55, 52, 56, 51, 54, 52, 56]" "[]"]
  by (simp add: is_str_def str_def isspace_def isdigit_def numval_def in_int32_def)

end
