(* ===== verification/Intq.thy ===== *)
theory Intq
  imports Synch
begin

text \<open>
  Interrupt queues, \<open>devices/intq.c\<close>: a ring of bytes between threads and interrupt handlers,
  with at most one thread waiting for each of its two conditions, over the scheduler and the
  locks. All calls are made with interrupts off. A call that gives up the processor is cut there, as in
  \<open>Synch\<close>; \<open>qpc\<close> says where the thread goes on when it runs again: acquiring the queue's lock, releasing it
  after it was woken, going back to the test of its loop, or clearing the waiter that \<open>signal\<close> has just unblocked.
\<close>

section \<open>Operations\<close>

abbreviation INTQ_BUFSIZE :: nat where "INTQ_BUFSIZE \<equiv> 64"

record intq =
  q_lock :: lockid
  not_full :: "thr option"
  not_empty :: "thr option"
  buf :: "u8 list"
  head :: nat
  tail :: nat

datatype waiter = NotEmpty | NotFull

type_synonym qstate = "sched \<times> intq"

definition intq_init :: "qstate \<Rightarrow> qstate" where
  "intq_init sq = (case sq of (s, q) \<Rightarrow>
     (lock_init s (q_lock q), q\<lparr>not_full := None, not_empty := None, head := 0, tail := 0\<rparr>))"

definition next_pos :: "nat \<Rightarrow> nat" where
  "next_pos pos = (pos + 1) mod INTQ_BUFSIZE"

definition intq_empty :: "intq \<Rightarrow> bool" where
  "intq_empty q \<longleftrightarrow> head q = tail q"

definition intq_full :: "intq \<Rightarrow> bool" where
  "intq_full q \<longleftrightarrow> next_pos (head q) = tail q"

definition waiter_of :: "waiter \<Rightarrow> intq \<Rightarrow> thr option" where
  "waiter_of w q = (case w of NotEmpty \<Rightarrow> not_empty q | NotFull \<Rightarrow> not_full q)"

definition set_waiter :: "waiter \<Rightarrow> thr option \<Rightarrow> intq \<Rightarrow> intq" where
  "set_waiter w t q = (case w of NotEmpty \<Rightarrow> q\<lparr>not_empty := t\<rparr> | NotFull \<Rightarrow> q\<lparr>not_full := t\<rparr>)"

definition must_wait :: "waiter \<Rightarrow> intq \<Rightarrow> bool" where
  "must_wait w q = (case w of NotEmpty \<Rightarrow> intq_empty q | NotFull \<Rightarrow> intq_full q)"

definition wait :: "qstate \<Rightarrow> waiter \<Rightarrow> qstate res" where
  "wait sq w = (case sq of (s, q) \<Rightarrow>
     asrt ''wait'' (\<not> intr_context s) (asrt ''wait'' (must_wait w q) (
     bnd (thread_current s) (\<lambda>cur.
     bnd (thread_block s) (\<lambda>s. Inr (s, set_waiter w (Some cur) q))))))"

text \<open>\<open>signal\<close> first unblocks the waiter and then clears it; \<open>False\<close> means that the processor
  went to another thread in between.\<close>

definition signal :: "qstate \<Rightarrow> waiter \<Rightarrow> (bool \<times> qstate) res" where
  "signal sq w = (case sq of (s, q) \<Rightarrow>
     asrt ''signal'' (\<not> must_wait w q) (
     case waiter_of w q of
       None \<Rightarrow> Inr (True, s, q)
     | Some t \<Rightarrow>
         bnd (thread_unblock s t) (\<lambda>s'.
         if running s' = running s then Inr (True, s', set_waiter w None q) else Inr (False, s', q))))"

datatype qpc = QLock "pending list" | QWake | QTop "pending list" | QClear waiter "u8 option" | QRet "u8 option"

text \<open>The body of the loop in \<open>intq_getc\<close> and \<open>intq_putc\<close> up to the point where the thread sleeps.\<close>

definition enter_wait :: "nat \<Rightarrow> qstate \<Rightarrow> waiter \<Rightarrow> (qpc \<times> qstate) res" where
  "enter_wait fuel sq w = (case sq of (s, q) \<Rightarrow>
     asrt ''intq'' (\<not> intr_context s) (
     bnd (lock_acquire fuel s (q_lock q)) (\<lambda>(ps, s).
     if ps \<noteq> [] then Inr (QLock ps, s, q)
     else bnd (wait (s, q) w) (\<lambda>sq. Inr (QWake, sq)))))"

definition finish :: "qstate \<Rightarrow> waiter \<Rightarrow> u8 option \<Rightarrow> (qpc \<times> qstate) res" where
  "finish sq w r = bnd (signal sq w) (\<lambda>(fin, sq). Inr (if fin then QRet r else QClear w r, sq))"

definition intq_getc :: "nat \<Rightarrow> qstate \<Rightarrow> (qpc \<times> qstate) res" where
  "intq_getc fuel sq = (case sq of (s, q) \<Rightarrow>
     if intq_empty q then enter_wait fuel sq NotEmpty
     else if length (buf q) \<le> tail q then Inl (Fault ''intq'')
     else finish (s, q\<lparr>tail := next_pos (tail q)\<rparr>) NotFull (Some (buf q ! tail q)))"

definition intq_putc :: "nat \<Rightarrow> qstate \<Rightarrow> u8 \<Rightarrow> (qpc \<times> qstate) res" where
  "intq_putc fuel sq byte = (case sq of (s, q) \<Rightarrow>
     if intq_full q then enter_wait fuel sq NotFull
     else if length (buf q) \<le> head q then Inl (Fault ''intq'')
     else finish (s, q\<lparr>buf := (buf q)[head q := byte], head := next_pos (head q)\<rparr>) NotEmpty None)"

text \<open>The thread runs again: \<open>again\<close> is the test at the head of its loop.\<close>

definition q_resume :: "nat \<Rightarrow> waiter \<Rightarrow> (qstate \<Rightarrow> (qpc \<times> qstate) res) \<Rightarrow> qpc \<Rightarrow> qstate \<Rightarrow> (qpc \<times> qstate) res" where
  "q_resume fuel w again pc sq = (case sq of (s, q) \<Rightarrow>
     case pc of
       QLock ps \<Rightarrow>
         bnd (resume fuel ps s) (\<lambda>(ps, s).
         if ps \<noteq> [] then Inr (QLock ps, s, q)
         else bnd (wait (s, q) w) (\<lambda>sq. Inr (QWake, sq)))
     | QWake \<Rightarrow>
         bnd (lock_release s (q_lock q)) (\<lambda>(ps, s').
         if running s' = running s \<and> ps = [] then again (s', q) else Inr (QTop ps, s', q))
     | QTop ps \<Rightarrow>
         bnd (resume fuel ps s) (\<lambda>(ps, s').
         if running s' = running s \<and> ps = [] then again (s', q) else Inr (QTop ps, s', q))
     | QClear w r \<Rightarrow> Inr (QRet r, s, set_waiter w None q)
     | QRet r \<Rightarrow> Inr (QRet r, s, q))"

section \<open>The contents of a queue\<close>

definition ring :: "intq \<Rightarrow> u8 list \<Rightarrow> bool" where
  "ring q xs \<longleftrightarrow> length (buf q) = INTQ_BUFSIZE \<and> head q < INTQ_BUFSIZE \<and> tail q < INTQ_BUFSIZE \<and>
     length xs < INTQ_BUFSIZE \<and> head q = (tail q + length xs) mod INTQ_BUFSIZE \<and>
     (\<forall>i < length xs. buf q ! ((tail q + i) mod INTQ_BUFSIZE) = xs ! i)"

lemma mod64_inj:
  assumes "(t + a) mod 64 = (t + b) mod (64 :: nat)" and "a < 64" and "b < 64"
  shows "a = b"
proof -
  have "a = b" if "(t + a) mod 64 = (t + b) mod (64 :: nat)" "a \<le> b" "b < 64" for a b
  proof -
    have "64 dvd (t + b) - (t + a)" using that mod_eq_dvd_iff_nat[of "t + a" "t + b" 64] by simp
    then show ?thesis using that by (auto dest: dvd_imp_le)
  qed
  from this[of a b] this[of b a] assms show ?thesis by (cases "a \<le> b") auto
qed

lemma ring_empty: "ring q xs \<Longrightarrow> intq_empty q \<longleftrightarrow> xs = []"
  using mod64_inj[of "tail q" 0 "length xs"] by (auto simp: ring_def intq_empty_def)

lemma ring_full: "ring q xs \<Longrightarrow> intq_full q \<longleftrightarrow> length xs = 63"
proof -
  assume r: "ring q xs"
  then have h: "next_pos (head q) = (tail q + Suc (length xs)) mod 64" "tail q < 64" "length xs < 64"
    by (simp_all add: ring_def next_pos_def mod_simps)
  then have "intq_full q \<longleftrightarrow> (tail q + Suc (length xs)) mod 64 = tail q" by (simp add: intq_full_def)
  also have "\<dots> \<longleftrightarrow> length xs = 63"
    using h(2,3) mod64_inj[of "tail q" "Suc (length xs)" 0] by (cases "length xs = 63") auto
  finally show ?thesis .
qed

lemma ring_put:
  assumes r: "ring q xs" and l: "length xs < 63"
  shows "ring (q\<lparr>buf := (buf q)[head q := b], head := next_pos (head q)\<rparr>) (xs @ [b])"
proof -
  have d: "(tail q + i) mod 64 \<noteq> head q" if "i < length xs" for i
    using mod64_inj[of "tail q" i "length xs"] r that by (auto simp: ring_def)
  have d': "(tail q + i) mod 64 \<noteq> (tail q + length xs) mod 64" if "i < length xs" for i
    using d[OF that] r by (simp add: ring_def)
  show ?thesis using r l
    by (auto simp: ring_def next_pos_def mod_simps nth_append nth_list_update less_Suc_eq dest: d')
qed

lemma ring_get:
  assumes "ring q (x # xs)"
  shows "buf q ! tail q = x" and "tail q < length (buf q)" and "ring (q\<lparr>tail := next_pos (tail q)\<rparr>) xs"
proof -
  have c: "\<And>i. i < Suc (length xs) \<Longrightarrow> buf q ! ((tail q + i) mod 64) = (x # xs) ! i" "tail q < 64"
    using assms by (auto simp: ring_def)
  show "buf q ! tail q = x" using c(1)[of 0] c(2) by simp
  show "tail q < length (buf q)" using assms by (simp add: ring_def)
  show "ring (q\<lparr>tail := next_pos (tail q)\<rparr>) xs"
    using assms c(1)[of "Suc i" for i] by (auto simp: ring_def next_pos_def mod_simps)
qed

section \<open>Interrupt handlers\<close>

text \<open>
  The state between two calls of interrupt handlers: a thread waits for a byte only when
  there is none, and for room only when there is none, and it is blocked.
\<close>

definition waits :: "sched \<Rightarrow> thr option \<Rightarrow> bool \<Rightarrow> bool" where
  "waits s w c \<longleftrightarrow> (\<forall>t. w = Some t \<longrightarrow> c \<and> is_blocked (threads s) t \<and> Some t \<noteq> idle_thread s)"

definition intq_inv :: "qstate \<Rightarrow> u8 list \<Rightarrow> bool" where
  "intq_inv sq xs \<longleftrightarrow> (case sq of (s, q) \<Rightarrow> sched_ok s \<and> ring q xs \<and>
     waits s (not_empty q) (xs = []) \<and> waits s (not_full q) (length xs = 63))"

definition handler_inv :: "qstate \<Rightarrow> u8 list \<Rightarrow> bool" where
  "handler_inv sq xs \<longleftrightarrow> intr_context (fst sq) \<and> intq_inv sq xs"

definition handler_putc :: "qstate \<Rightarrow> u8 \<Rightarrow> qstate res" where
  "handler_putc sq b = bnd (intq_putc 0 sq b) (\<lambda>(pc, sq). case pc of QRet _ \<Rightarrow> Inr sq | _ \<Rightarrow> Inl (Blocked ''intq_putc''))"

definition handler_getc :: "qstate \<Rightarrow> (u8 \<times> qstate) res" where
  "handler_getc sq = bnd (intq_getc 0 sq) (\<lambda>(pc, sq). case pc of QRet (Some b) \<Rightarrow> Inr (b, sq) | _ \<Rightarrow> Inl (Blocked ''intq_getc''))"

text \<open>Unblocking in an interrupt handler does not switch threads.\<close>

lemma handler_unblock:
  assumes ok: "sched_ok s" and ic: "intr_context s" and b: "is_blocked (threads s) t" "Some t \<noteq> idle_thread s"
  shows "\<exists>s'. thread_unblock s t = Inr s' \<and> sched_ok s' \<and> running s' = running s \<and> intr_context s' \<and>
    threads s' = with_status (threads s) t THREAD_READY \<and> t \<in> set (concat (ready_list s'))"
proof -
  obtain y where y: "threads s t = Some y" "status y = THREAD_BLOCKED" using b(1) by (auto simp: is_blocked_def)
  note u = unblocked_ok[OF ok y b(2)]
  have "intr_context (unblocked s t)" using ic by (simp add: unblocked_def Let_def upd_thread_def)
  moreover have "t \<in> set (concat (ready_list (unblocked s t)))"
  proof -
    have "nat (priority y) < length (ready_list s)"
      using pri_range[OF ok y(1)] ok by (auto elim!: sched_okE simp: base_def queue_ok_def)
    then show ?thesis using y by (auto simp: unblocked_def Let_def upd_thread_def th_def intro!: bexI[OF _ set_update_memI])
  qed
  ultimately show ?thesis using thread_unblock_eq[OF ok y b(2)] u ic by auto
qed

lemma handler_signal:
  assumes ok: "sched_ok s" and ic: "intr_context s" and c: "\<not> must_wait w q" and w: "waits s (waiter_of w q) c0"
  shows "\<exists>s'. signal (s, q) w = Inr (True, s', set_waiter w None q) \<and> sched_ok s' \<and> intr_context s' \<and>
    (case waiter_of w q of None \<Rightarrow> s' = s
     | Some t \<Rightarrow> threads s' = with_status (threads s) t THREAD_READY \<and> t \<in> set (concat (ready_list s')))"
proof (cases "waiter_of w q")
  case None
  then have "set_waiter w None q = q" by (cases w) (auto simp: waiter_of_def set_waiter_def)
  then show ?thesis using None c ok ic by (simp add: signal_def)
next
  case (Some t)
  then have "is_blocked (threads s) t" "Some t \<noteq> idle_thread s" using w by (auto simp: waits_def)
  from handler_unblock[OF ok ic this] Some c show ?thesis by (auto simp: signal_def)
qed

lemma waits_none: "waits s None c"
  by (simp add: waits_def)

lemma set_waiter_ring [simp]: "ring (set_waiter w t q) xs = ring q xs"
  by (cases w) (simp_all add: ring_def set_waiter_def)

lemma set_waiter_fields [simp]:
  "not_empty (set_waiter NotEmpty t q) = t" "not_full (set_waiter NotEmpty t q) = not_full q"
  "not_full (set_waiter NotFull t q) = t" "not_empty (set_waiter NotFull t q) = not_empty q"
  by (simp_all add: set_waiter_def)

lemma handler_putc_ok:
  assumes h: "handler_inv (s, q) xs" and l: "length xs < 63"
  shows "\<exists>s' q'. handler_putc (s, q) b = Inr (s', q') \<and> handler_inv (s', q') (xs @ [b]) \<and> not_empty q' = None \<and>
    (\<forall>t. not_empty q = Some t \<longrightarrow> (\<exists>y. threads s' t = Some y \<and> status y = THREAD_READY) \<and> t \<in> set (concat (ready_list s')))"
proof -
  let ?q = "q\<lparr>buf := (buf q)[head q := b], head := next_pos (head q)\<rparr>"
  have i: "sched_ok s" "ring q xs" "waits s (not_empty q) (xs = [])" "waits s (not_full q) (length xs = 63)" "intr_context s"
    using h by (auto simp: handler_inv_def intq_inv_def)
  have r: "ring ?q (xs @ [b])" by (rule ring_put[OF i(2) l])
  have nf: "not_full q = None" using i(4) l by (auto simp: waits_def)
  have "\<not> must_wait NotEmpty ?q" using ring_empty[OF r] by (simp add: must_wait_def)
  from handler_signal[OF i(1,5) this, of "xs = []"] i(3) obtain s' where
    s': "signal (s, ?q) NotEmpty = Inr (True, s', set_waiter NotEmpty None ?q)" "sched_ok s'" "intr_context s'"
      "case not_empty q of None \<Rightarrow> s' = s
     | Some t \<Rightarrow> threads s' = with_status (threads s) t THREAD_READY \<and> t \<in> set (concat (ready_list s'))"
    by (auto simp: waiter_of_def)
  have "\<not> intq_full q" "head q < length (buf q)" using ring_full[OF i(2)] l i(2) by (auto simp: ring_def)
  then have p: "handler_putc (s, q) b = Inr (s', set_waiter NotEmpty None ?q)"
    using s'(1) by (simp add: handler_putc_def intq_putc_def finish_def)
  have "handler_inv (s', set_waiter NotEmpty None ?q) (xs @ [b])"
    using s' r nf by (simp add: handler_inv_def intq_inv_def waits_none)
  moreover have "(\<exists>y. threads s' t = Some y \<and> status y = THREAD_READY) \<and> t \<in> set (concat (ready_list s'))"
    if "not_empty q = Some t" for t
  proof -
    have "is_blocked (threads s) t" using i(3) that by (simp add: waits_def)
    then show ?thesis using s'(4) that by (auto simp: is_blocked_def with_status_def)
  qed
  ultimately show ?thesis using p by auto
qed

lemma handler_getc_ok:
  assumes h: "handler_inv (s, q) (x # xs)"
  shows "\<exists>s' q'. handler_getc (s, q) = Inr (x, s', q') \<and> handler_inv (s', q') xs"
proof -
  let ?q = "q\<lparr>tail := next_pos (tail q)\<rparr>"
  have i: "sched_ok s" "ring q (x # xs)" "waits s (not_empty q) False" "waits s (not_full q) (length xs = 62)" "intr_context s"
    using h by (auto simp: handler_inv_def intq_inv_def)
  note r = ring_get[OF i(2)]
  have ne: "not_empty q = None" using i(3) by (auto simp: waits_def)
  have "\<not> must_wait NotFull ?q" using ring_full[OF r(3)] i(2) by (simp add: must_wait_def ring_def)
  from handler_signal[OF i(1,5) this, of "length xs = 62"] i(4) obtain s' where
    s': "signal (s, ?q) NotFull = Inr (True, s', set_waiter NotFull None ?q)" "sched_ok s'" "intr_context s'"
    by (auto simp: waiter_of_def)
  have "\<not> intq_empty q" using ring_empty[OF i(2)] by simp
  then have "handler_getc (s, q) = Inr (x, s', set_waiter NotFull None ?q)"
    using s'(1) r(1,2) by (simp add: handler_getc_def intq_getc_def finish_def)
  then show ?thesis using s' r(3) ne by (simp add: handler_inv_def intq_inv_def waits_none)
qed

text \<open>In the hands of interrupt handlers an interrupt queue is a queue of at most 63 bytes.\<close>

interpretation handlers: fifo_queue handler_inv "\<lambda>xs b. length xs < 63" handler_putc handler_getc
  "\<lambda>sq. Inr (intq_empty (snd sq))"
proof
  fix h :: qstate and xs b
  assume "handler_inv h xs" "length xs < 63"
  then show "\<exists>h'. handler_putc h b = Inr h' \<and> handler_inv h' (xs @ [b])"
    using handler_putc_ok[of "fst h" "snd h" xs b] by auto
next
  fix h :: qstate and x xs
  assume "handler_inv h (x # xs)"
  then show "\<exists>h'. handler_getc h = Inr (x, h') \<and> handler_inv h' xs"
    using handler_getc_ok[of "fst h" "snd h" x xs] by auto
next
  fix h :: qstate and xs
  assume "handler_inv h xs"
  then show "Inr (intq_empty (snd h)) = Inr (xs = [])"
    using ring_empty by (auto simp: handler_inv_def intq_inv_def)
qed

lemma allows_bound: "length xs + length es \<le> 63 \<Longrightarrow> allows (\<lambda>xs b. length xs < 63) xs es"
  by (induction es arbitrary: xs) auto

text \<open>
  (C40) An interrupt queue holds up to 63 bytes and returns them in the order in which they were
  put in, wherever its two positions stand in the ring: after any bytes have been added that
  fit, taking out all of them yields first the old and then the new ones, and the queue is empty.
\<close>

theorem intq_fifo:
  assumes "handler_inv sq xs" and "length xs + length es \<le> 63"
  shows "\<exists>sq1 sq2. enq_all handler_putc sq es = Inr sq1 \<and>
    deq_n handler_getc (length xs + length es) sq1 = Inr (xs @ es, sq2) \<and> intq_empty (snd sq2)"
  using handlers.fifo_order[OF assms(1) allows_bound[OF assms(2)]] by auto

definition q63 :: intq where
  "q63 = \<lparr>q_lock = 0, not_full = None, not_empty = None, buf = replicate 64 0, head = 63, tail = 63\<rparr>"

lemma q63_inv: "handler_inv ((boot_sched False)\<lparr>intr_context := True\<rparr>, q63) []"
  using boot_sched_inv[of False] by (simp add: handler_inv_def intq_inv_def ring_def q63_def waits_none sched_inv_def)

theorem intq_fifo_witness:
  "\<exists>sq1 sq2. enq_all handler_putc ((boot_sched False)\<lparr>intr_context := True\<rparr>, q63) [7, 8] = Inr sq1 \<and>
    deq_n handler_getc 2 sq1 = Inr ([7, 8], sq2)"
  using intq_fifo[OF q63_inv, of "[7, 8]"] by (auto simp: numeral_2_eq_2)

section \<open>Threads\<close>

lemma putc_wakes:
  assumes "handler_inv (s, q) xs" and "length xs < 63" and "not_empty q = Some t"
  shows "\<exists>s' q'. handler_putc (s, q) b = Inr (s', q') \<and> handler_inv (s', q') (xs @ [b]) \<and> not_empty q' = None \<and>
    status (th s' t) = THREAD_READY \<and> t \<in> set (concat (ready_list s'))"
  using assms handler_putc_ok[of s q xs b] by (fastforce simp: th_def)

lemma wait_sleeps:
  assumes "sched_ok s" and "\<not> intr_context s" and "Some (running s) \<noteq> idle_thread s" and "ring q []" and "not_full q = None"
  shows "\<exists>s' q'. wait (s, q) NotEmpty = Inr (s', q') \<and> intq_inv (s', q') [] \<and> not_empty q' = Some (running s)"
proof -
  obtain s' where s': "thread_block s = Inr s'"
    "dispatched s (ready_list s) (with_status (threads s) (running s) THREAD_BLOCKED) s'"
    using thread_block_ok[OF assms(1,2)] by blast
  have "is_blocked (with_status (threads s) (running s) THREAD_BLOCKED) (running s)"
    using assms(1) by (auto elim!: sched_okE simp: is_blocked_def with_status_def)
  then have "is_blocked (threads s') (running s)" using dispatched_blocked[OF s'(2) _ assms(3)] by blast
  moreover have "sched_ok s'" "idle_thread s' = idle_thread s" using s'(2) by (auto simp: dispatched_def same_env_def)
  ultimately show ?thesis
    using s'(1) assms ring_empty[OF assms(4)] by (simp add: wait_def must_wait_def intq_inv_def waits_def)
qed

text \<open>
  Sleeping and waking. A thread that finds the queue empty and gets its lock goes to sleep with the
  queue knowing it as the waiter; and when, in whatever state the queue is then, an interrupt
  handler adds a byte while that thread is still the waiter, it is made ready and put in its run queue,
  and the queue has no waiter any more. It need not still be the waiter: a thread that adds a byte may lose
  the processor in \<open>thread_unblock\<close>, before \<open>signal\<close> clears the waiter, and then clears one that has registered since.
\<close>

theorem waiter_woken:
  assumes "sched_ok s" and "\<not> intr_context s" and "Some (running s) \<noteq> idle_thread s" and "ring q []" and "not_full q = None"
  shows "\<exists>s' q'. wait (s, q) NotEmpty = Inr (s', q') \<and> intq_inv (s', q') [] \<and> not_empty q' = Some (running s) \<and>
    (\<forall>s1 q1 xs b. handler_inv (s1, q1) xs \<and> length xs < 63 \<and> not_empty q1 = Some (running s) \<longrightarrow>
      (\<exists>s2 q2. handler_putc (s1, q1) b = Inr (s2, q2) \<and> handler_inv (s2, q2) (xs @ [b]) \<and> not_empty q2 = None \<and>
        status (th s2 (running s)) = THREAD_READY \<and> running s \<in> set (concat (ready_list s2))))"
  using wait_sleeps[OF assms] putc_wakes by meson

lemma release_sema:
  assumes "lock_release s l = Inr (ps, s')"
  shows "sema_value (semas s' (LockSema l)) = (sema_value (semas s (LockSema l)) + 1) mod 2 ^ 32"
proof -
  from assms obtain p s1 s2 where
    r: "(if old_priority (th s (running s)) \<noteq> - 1 \<and> donated (locks s l) then return_priority s l
         else Inr (PRI_MIN - 1, s)) = Inr (p, s1)" and
    u: "sema_up (upd_lock s1 l (\<lambda>k. k\<lparr>holder := None\<rparr>)) (LockSema l) = Inr s2" and
    f: "s' = s2 \<or> thread_set_priority_without_lower s2 p = Inr s'"
    by (auto simp: lock_release_def res_iffs Let_def split: if_splits)
  have 1: "semas s1 = semas s"
    using r by (auto simp: return_priority_def res_iffs Let_def upd_lock_def split: if_splits)
  have 2: "sema_value (semas s2 (LockSema l)) = (sema_value (semas s1 (LockSema l)) + 1) mod 2 ^ 32"
    using u by (auto simp: sema_up_def Let_def upd_lock_def upd_sema_def objs_def split: list.splits dest!: objs_unblock)
  have "objs s' = objs s2" using f objs_set_without_lower by auto
  then show ?thesis using 1 2 by (simp add: objs_def)
qed

text \<open>
  A thread that was waiting for the lock of the queue goes to sleep without testing the
  queue again. When the reader that holds the lock is woken and releases it, the processor
  can go to such a thread before the reader has taken its byte; the assertion in \<open>wait\<close> that
  the queue is empty then fails and the kernel panics.
\<close>

theorem intq_second_reader_panics:
  assumes "q_resume fuel NotEmpty (intq_getc fuel) QWake (s, q) = Inr (QTop ps, s1, q)"
    and "sema_value (semas s (LockSema (q_lock q))) = 0" and "\<not> intq_empty q"
    and "thread_current s1 = Inr t" and "\<not> intr_context s1"
  shows "q_resume fuel NotEmpty (intq_getc fuel) (QLock [PTake (q_lock q)]) (s1, q) = Inl (Panic ''wait'')"
proof -
  from assms(1) have "\<exists>ps. lock_release s (q_lock q) = Inr (ps, s1)"
    by (auto simp: q_resume_def bnd_eq_Inr_iff intq_getc_def enter_wait_def finish_def split: if_splits
      simp: asrt_eq_Inr_iff)
  then have v: "sema_value (semas s1 (LockSema (q_lock q))) = 1" using release_sema assms(2) by fastforce
  have "thread_current (upd_sema s1 i f) = thread_current s1" "thread_current (upd_lock s1 l g) = thread_current s1" for i f l g
    by (simp_all add: thread_current_def upd_sema_def upd_lock_def is_thread_def th_def)
  then have "lock_take s1 (q_lock q) = Inr (True, upd_lock (upd_sema s1 (LockSema (q_lock q))
      (\<lambda>m. m\<lparr>sema_value := sema_value m - 1\<rparr>)) (q_lock q) (\<lambda>k. k\<lparr>holder := Some t\<rparr>))"
    using v assms(4,5) by (simp add: lock_take_def sema_down_def)
  then show ?thesis using assms(3,5) by (simp add: q_resume_def wait_def must_wait_def upd_lock_def upd_sema_def)
qed

text \<open>The reader in page 10 has been woken and holds the lock; the one in page 30, of higher priority, waits for it.\<close>

definition two_readers :: sched where
  "two_readers = (boot_sched False)\<lparr>
     threads := [10 \<mapsto> boot_thread 1 ''main'' THREAD_RUNNING 31, 20 \<mapsto> boot_thread 2 ''idle'' THREAD_BLOCKED 0,
       30 \<mapsto> boot_thread 3 ''reader'' THREAD_BLOCKED 40],
     all_list := [10, 20, 30],
     semas := (\<lambda>i. \<lparr>sema_value = 0, waiters = if i = LockSema 0 then [30] else []\<rparr>),
     locks := (\<lambda>l. \<lparr>holder = Some 10, donated = False\<rparr>)\<rparr>"

definition one_byte :: intq where
  "one_byte = \<lparr>q_lock = 0, not_full = None, not_empty = None, buf = replicate 64 7, head = 1, tail = 0\<rparr>"

definition released :: sched where
  "released = two_readers\<lparr>
     semas := (\<lambda>i. \<lparr>sema_value = if i = LockSema 0 then 1 else 0, waiters = []\<rparr>),
     locks := (\<lambda>l. \<lparr>holder = if l = 0 then None else Some 10, donated = False\<rparr>)\<rparr>"

lemma two_readers_unblock:
  "case thread_unblock released 30 of
     Inr s \<Rightarrow> running s = 30 \<and> \<not> intr_context s \<and> thread_current s = Inr 30
   | Inl _ \<Rightarrow> False"
  by code_simp

lemma two_readers_release:
  "case lock_release two_readers 0 of
     Inr (ps, s) \<Rightarrow> running s = 30 \<and> \<not> intr_context s \<and> thread_current s = Inr 30
   | Inl _ \<Rightarrow> False"
proof -
  have c: "thread_current two_readers = Inr 10"
    by (simp add: thread_current_def two_readers_def boot_fields is_thread_def th_def boot_thread_def)
  have e: "upd_sema (upd_sema (upd_lock two_readers 0 (\<lambda>k. k\<lparr>holder := None\<rparr>)) (LockSema 0)
      (\<lambda>m. m\<lparr>sema_value := (sema_value m + 1) mod 2 ^ 32\<rparr>)) (LockSema 0) (\<lambda>m. m\<lparr>waiters := remove1 30 (waiters m)\<rparr>) = released"
    by (rule sched.equality) (auto simp: released_def two_readers_def upd_sema_def upd_lock_def fun_eq_iff)
  have "lock_release two_readers 0 = bnd (thread_unblock released 30) (\<lambda>s. Inr ([], s))"
    using c e by (simp add: lock_release_def lock_held_by_current_thread_def sema_up_def Let_def)
       (simp add: two_readers_def boot_fields upd_sema_def upd_lock_def)
  then show ?thesis using two_readers_unblock by (auto split: sum.splits)
qed

theorem intq_second_reader_panics_witness:
  "\<exists>ps s1. q_resume 5 NotEmpty (intq_getc 5) QWake (two_readers, one_byte) = Inr (QTop ps, s1, one_byte) \<and>
    running s1 = 30 \<and> q_resume 5 NotEmpty (intq_getc 5) (QLock [PTake 0]) (s1, one_byte) = Inl (Panic ''wait'')"
proof -
  obtain ps s1 where r: "lock_release two_readers 0 = Inr (ps, s1)" "running s1 = 30" "\<not> intr_context s1" "thread_current s1 = Inr 30"
    using two_readers_release by (auto split: sum.splits)
  have "running two_readers = 10" by (simp add: two_readers_def boot_fields)
  then have q: "q_resume 5 NotEmpty (intq_getc 5) QWake (two_readers, one_byte) = Inr (QTop ps, s1, one_byte)"
    using r by (simp add: q_resume_def one_byte_def)
  have "q_lock one_byte = 0" "\<not> intq_empty one_byte" "sema_value (semas two_readers (LockSema 0)) = 0"
    by (simp_all add: one_byte_def intq_empty_def two_readers_def)
  with intq_second_reader_panics[OF q _ _ r(4,3)] q r(2) show ?thesis by auto
qed

theorem waiter_woken_witness:
  "\<exists>s q. wait (boot_sched False, q63) NotEmpty = Inr (s, q) \<and> not_empty q = Some 10 \<and>
    (\<exists>s' q'. handler_putc (s\<lparr>intr_context := True\<rparr>, q) 7 = Inr (s', q') \<and> status (th s' 10) = THREAD_READY)"
proof -
  have ok: "sched_ok (boot_sched False)" using boot_sched_inv by (simp add: sched_inv_def)
  have r: "ring q63 []" by (simp add: ring_def q63_def)
  obtain s q where w: "wait (boot_sched False, q63) NotEmpty = Inr (s, q)" "intq_inv (s, q) []" "not_empty q = Some 10"
    and wake: "\<And>s1 q1 xs b. handler_inv (s1, q1) xs \<Longrightarrow> length xs < 63 \<Longrightarrow> not_empty q1 = Some 10 \<Longrightarrow>
      \<exists>s2 q2. handler_putc (s1, q1) b = Inr (s2, q2) \<and> status (th s2 10) = THREAD_READY"
    using waiter_woken[OF ok _ _ r] by (fastforce simp: boot_fields q63_def)
  then have "handler_inv (s\<lparr>intr_context := True\<rparr>, q) []" by (auto simp: handler_inv_def intq_inv_def waits_def)
  from wake[OF this _ w(3), of 7] w show ?thesis by auto
qed

end
