(* ===== verification/Swap.thy ===== *)
theory Swap
  imports Kbitmap Block_Dev
begin

text \<open>
  The swap space, \<open>vm/swap.c\<close>: page-sized slots on the block device with the swap role and a bitmap
  of the slots in use. Each function holds \<open>bit_lock\<close> for its whole duration, so it is atomic.
  The contract \<open>swap_space\<close>, which the paging code relies on, says that a page
  written to a slot is read back unchanged until the slot is freed.
\<close>

section \<open>Operations\<close>

abbreviation SECTORS_PER_PAGE :: nat where "SECTORS_PER_PAGE \<equiv> 8"

record swap_table =
  swap_blk :: block_dev
  used_slots :: bitmap

text \<open>\<open>hdr\<close> and \<open>mem\<close> stand for the allocations inside \<open>bitmap_create\<close>; a null result is not checked.\<close>

definition swap_init :: "bool \<Rightarrow> (size_t \<Rightarrow> elem_type list option) \<Rightarrow> blk_state \<Rightarrow> swap_table res" where
  "swap_init hdr mem st =
     bnd (block_get_role st BLOCK_SWAP) (\<lambda>r.
     case r of
       None \<Rightarrow> Inl (Fault ''swap_init'')
     | Some i \<Rightarrow>
         let blk = all_blocks st ! i; sz = block_size blk div 8 in
         bnd (bitmap_create hdr mem sz) (\<lambda>b.
         case b of None \<Rightarrow> Inl (Fault ''swap_init'') | Some b \<Rightarrow> Inr \<lparr>swap_blk = blk, used_slots = b\<rparr>))"

definition swap_free :: "swap_table \<Rightarrow> u32 \<Rightarrow> swap_table res" where
  "swap_free t slot = bnd (bitmap_reset (used_slots t) slot) (\<lambda>b. Inr (t\<lparr>used_slots := b\<rparr>))"

text \<open>The loops over the sectors of a page; \<open>n\<close> sectors are left.\<close>

fun swap_write_loop :: "nat \<Rightarrow> block_dev \<Rightarrow> block_sector_t \<Rightarrow> u8 list \<Rightarrow> block_dev res" where
  "swap_write_loop 0 blk sector bytes = Inr blk"
| "swap_write_loop (Suc n) blk sector bytes =
     bnd (block_write blk sector (take BLOCK_SECTOR_SIZE bytes)) (\<lambda>blk.
     swap_write_loop n blk (sector + 1) (drop BLOCK_SECTOR_SIZE bytes))"

fun swap_read_loop :: "nat \<Rightarrow> block_dev \<Rightarrow> block_sector_t \<Rightarrow> (u8 list \<times> block_dev) res" where
  "swap_read_loop 0 blk sector = Inr ([], blk)"
| "swap_read_loop (Suc n) blk sector =
     bnd (block_read blk sector) (\<lambda>(d, blk).
     bnd (swap_read_loop n blk (sector + 1)) (\<lambda>(ds, blk). Inr (d @ ds, blk)))"

definition swap_write :: "swap_table \<Rightarrow> u8 list \<Rightarrow> (u32 \<times> swap_table) res" where
  "swap_write t page =
     bnd (bitmap_scan_and_flip (used_slots t) 0 1 False) (\<lambda>(next_slot, b).
     if next_slot = BITMAP_ERROR then Inl (Panic ''Swap block full'')
     else bnd (swap_write_loop SECTORS_PER_PAGE (swap_blk t) (next_slot * 8) page) (\<lambda>blk.
       Inr (next_slot, \<lparr>swap_blk = blk, used_slots = b\<rparr>)))"

definition swap_read :: "swap_table \<Rightarrow> u32 \<Rightarrow> (u8 list \<times> swap_table) res" where
  "swap_read t slot =
     bnd (swap_read_loop SECTORS_PER_PAGE (swap_blk t) (slot * 8)) (\<lambda>(page, blk).
     Inr (page, t\<lparr>swap_blk := blk\<rparr>))"

section \<open>The contents of slots\<close>

definition slot_bytes :: "block_dev \<Rightarrow> nat \<Rightarrow> u8 list" where
  "slot_bytes blk k = concat (map (\<lambda>i. blk_medium blk (of_nat (8 * k + i))) [0..<8])"

definition swap_ok :: "swap_table \<Rightarrow> bool" where
  "swap_ok t \<longleftrightarrow> wf_bitmap (used_slots t) \<and> 8 * unat (bit_cnt (used_slots t)) \<le> unat (blk_size (swap_blk t)) \<and>
     blk_type (swap_blk t) \<noteq> BLOCK_FOREIGN"

definition slot :: "swap_table \<Rightarrow> u32 \<Rightarrow> u8 list option" where
  "slot t k = (if unat k \<in> used_of (used_slots t) then Some (slot_bytes (swap_blk t) (unat k)) else None)"

lemma swap_write_loop_ok:
  assumes "m + n \<le> unat (blk_size blk)" and "blk_type blk \<noteq> BLOCK_FOREIGN" and "length bytes = n * 512"
  shows "\<exists>blk'. swap_write_loop n blk (of_nat m) bytes = Inr blk' \<and> blk_size blk' = blk_size blk \<and> blk_type blk' = blk_type blk \<and>
    (\<forall>i < n. blk_medium blk' (of_nat (m + i)) = take 512 (drop (512 * i) bytes)) \<and>
    (\<forall>j. unat j < m \<or> m + n \<le> unat j \<longrightarrow> blk_medium blk' j = blk_medium blk j)"
  using assms
proof (induction n arbitrary: m blk bytes)
  case (Suc n)
  have lt: "m + Suc n < 4294967296" using Suc.prems(1) unat32_lt[of "blk_size blk"] by linarith
  have um: "unat (of_nat m :: u32) = m" using lt by (simp add: unat_small)
  let ?blk = "blk\<lparr>blk_medium := (blk_medium blk)(of_nat m := take 512 bytes), write_cnt := write_cnt blk + 1\<rparr>"
  have w: "block_write blk (of_nat m) (take 512 bytes) = Inr ?blk"
    using Suc.prems(1,2) um by (intro block_write_ok) (simp_all add: word_less_nat_alt)
  from Suc.IH[of "Suc m" ?blk "drop 512 bytes"] Suc.prems obtain blk' where
    b: "swap_write_loop n ?blk (of_nat m + 1) (drop 512 bytes) = Inr blk'" "blk_size blk' = blk_size blk" "blk_type blk' = blk_type blk"
    "\<And>i. i < n \<Longrightarrow> blk_medium blk' (of_nat (Suc m + i)) = take 512 (drop (512 * i) (drop 512 bytes))"
    "\<And>j. unat j < Suc m \<or> Suc m + n \<le> unat j \<Longrightarrow> blk_medium blk' j = blk_medium ?blk j" by (auto simp: add.commute)
  have "blk_medium blk' (of_nat (m + i)) = take 512 (drop (512 * i) bytes)" if "i < Suc n" for i
  proof (cases i)
    case 0
    then show ?thesis using b(5)[of "of_nat m"] um by simp
  next
    case (Suc k)
    then show ?thesis using b(4)[of k] that by (simp add: add.commute)
  qed
  moreover have "blk_medium blk' j = blk_medium blk j" if "unat j < m \<or> m + Suc n \<le> unat j" for j
    using b(5)[of j] that um by auto
  ultimately show ?case using w b(1-3) by auto
qed simp

lemma swap_read_loop_ok:
  assumes "m + n \<le> unat (blk_size blk)"
  shows "\<exists>blk'. swap_read_loop n blk (of_nat m) = Inr (concat (map (\<lambda>i. blk_medium blk (of_nat (m + i))) [0..<n]), blk') \<and>
    blk_size blk' = blk_size blk \<and> blk_type blk' = blk_type blk \<and> blk_medium blk' = blk_medium blk"
  using assms
proof (induction n arbitrary: m blk)
  case (Suc n)
  have lt: "m + Suc n < 4294967296" using Suc.prems(1) unat32_lt[of "blk_size blk"] by linarith
  have um: "unat (of_nat m :: u32) = m" using lt by (simp add: unat_small)
  let ?blk = "blk\<lparr>read_cnt := read_cnt blk + 1\<rparr>"
  have r: "block_read blk (of_nat m) = Inr (blk_medium blk (of_nat m), ?blk)"
    using Suc.prems um by (intro block_read_ok) (simp add: word_less_nat_alt)
  have up: "[0..<Suc n] = 0 # map Suc [0..<n]" by (simp add: upt_conv_Cons map_Suc_upt)
  from Suc.IH[of "Suc m" ?blk] Suc.prems r show ?case
    by (auto simp: up comp_def ac_simps simp del: upt_Suc)
qed simp

lemma used_bound: "k \<in> used_of b \<Longrightarrow> k < unat (bit_cnt b)"
  by (simp add: used_of_def)

lemma slot_sectors:
  assumes "swap_ok t" and "k < unat (bit_cnt (used_slots t))"
  shows "8 * k + 8 \<le> unat (blk_size (swap_blk t))" and "of_nat k * 8 = (of_nat (8 * k) :: u32)" and "8 * k + 8 < 4294967296 + 8"
  using assms unat32_lt[of "blk_size (swap_blk t)"] by (auto simp: swap_ok_def)

lemma slot_bytes_other:
  assumes "\<And>j. unat j < 8 * k \<or> 8 * k + 8 \<le> unat j \<Longrightarrow> blk_medium blk' j = blk_medium blk j"
    and "l \<noteq> k" and "8 * l + 8 \<le> 4294967296"
  shows "slot_bytes blk' l = slot_bytes blk l"
proof -
  have "blk_medium blk' (of_nat (8 * l + i)) = blk_medium blk (of_nat (8 * l + i))" if "i < 8" for i
  proof -
    have "unat (of_nat (8 * l + i) :: u32) = 8 * l + i" using assms(3) that by (intro unat_small) linarith
    then show ?thesis using assms(1)[of "of_nat (8 * l + i)"] assms(2) that by linarith
  qed
  then show ?thesis unfolding slot_bytes_def by (intro arg_cong[where f = concat] map_cong) simp_all
qed

lemma concat_chunks: "length bs = n * k \<Longrightarrow> concat (map (\<lambda>i. take k (drop (k * i) bs)) [0..<n]) = bs"
proof (induction n arbitrary: bs)
  case (Suc n)
  have up: "[0..<Suc n] = 0 # map Suc [0..<n]" by (simp add: upt_conv_Cons map_Suc_upt)
  have "concat (map (\<lambda>i. take k (drop (k * i) (drop k bs))) [0..<n]) = drop k bs"
    by (rule Suc.IH) (use Suc.prems in simp)
  then show ?case by (simp add: up comp_def add.commute del: upt_Suc)
qed simp

lemma swap_write_ok:
  assumes ok: "swap_ok t" and len: "length page = 4096"
  shows "(\<exists>k t'. swap_write t page = Inr (k, t') \<and> swap_ok t' \<and> slot t k = None \<and> slot t' = (slot t)(k \<mapsto> page)) \<or>
    swap_write t page = Inl (Panic ''Swap block full'') \<and> (\<forall>k < bit_cnt (used_slots t). slot t k \<noteq> None)"
proof -
  let ?b = "used_slots t"
  have wf: "wf_bitmap ?b" using ok by (simp add: swap_ok_def)
  from bitmap_scan_and_flip_bits[OF wf, of 0 1 False] consider
    (found) j b' where "bitmap_scan_and_flip ?b 0 1 False = Inr (of_nat j, b')" "of_nat j \<noteq> BITMAP_ERROR"
      "run_at (bits_of ?b) j (unat (1 :: size_t)) False" "wf_bitmap b'" "bit_cnt b' = bit_cnt ?b" "bits_of b' = set_range (bits_of ?b) j 1 True"
    | (full) "bitmap_scan_and_flip ?b 0 1 False = Inr (BITMAP_ERROR, ?b)" "\<And>j. \<not> run_at (bits_of ?b) j 1 False"
    by (auto simp: first_run_def)
  then show ?thesis
  proof cases
    case found
    note jb = run_at_bounds[OF found(3)]
    have j: "j < unat (bit_cnt ?b)" using jb by simp
    have free: "j \<notin> used_of ?b" using found(3) run_at_used[of ?b j 1] by simp
    have used: "used_of b' = used_of ?b \<union> {j}"
      using used_set_range[OF found(5,6)] j by auto
    note sec = slot_sectors[OF ok j]
    from swap_write_loop_ok[of "8 * j" 8 "swap_blk t" page] sec(1) ok len obtain blk' where
      b: "swap_write_loop 8 (swap_blk t) (of_nat (8 * j)) page = Inr blk'" "blk_size blk' = blk_size (swap_blk t)"
      "blk_type blk' = blk_type (swap_blk t)"
      "\<forall>i < 8. blk_medium blk' (of_nat (8 * j + i)) = take 512 (drop (512 * i) page)"
      "\<And>k. unat k < 8 * j \<or> 8 * j + 8 \<le> unat k \<Longrightarrow> blk_medium blk' k = blk_medium (swap_blk t) k"
      by (auto simp: swap_ok_def)
    let ?t = "\<lparr>swap_blk = blk', used_slots = b'\<rparr>"
    have w: "swap_write t page = Inr (of_nat j, ?t)"
      unfolding swap_write_def found(1) using found(2) b(1) by (simp add: sec(2) del: of_nat_mult)
    have new: "slot_bytes blk' j = page"
    proof -
      have "slot_bytes blk' j = concat (map (\<lambda>i. take 512 (drop (512 * i) page)) [0..<8])"
        unfolding slot_bytes_def using b(4) by (intro arg_cong[where f = concat] map_cong) simp_all
      then show ?thesis using concat_chunks[of page 8 512] len by simp
    qed
    have "slot ?t x = (if x = of_nat j then Some page else slot t x)" for x
    proof (cases "unat x = j")
      case True
      then have "x = of_nat j" by (metis ucast_id of_nat_unat)
      then show ?thesis using True used new by (simp add: slot_def)
    next
      case False
      then have "x \<noteq> of_nat j" using jb(1) by auto
      moreover have "slot_bytes blk' (unat x) = slot_bytes (swap_blk t) (unat x)" if "unat x \<in> used_of ?b"
        by (rule slot_bytes_other[OF b(5) False]) (use slot_sectors(1)[OF ok used_bound[OF that]] unat32_lt[of "blk_size (swap_blk t)"] in linarith)+
      ultimately show ?thesis using False used by (auto simp: slot_def)
    qed
    then have "slot ?t = (slot t)(of_nat j \<mapsto> page)" by auto
    moreover have "swap_ok ?t" using ok found b by (simp add: swap_ok_def)
    moreover have "slot t (of_nat j) = None" using free jb(1) by (simp add: slot_def)
    ultimately show ?thesis using w by blast
  next
    case full
    have "unat k \<in> used_of ?b" if "k < bit_cnt ?b" for k
      using full(2)[of "unat k"] run_at_used[of ?b "unat k" 1] that by (auto simp: word_less_nat_alt)
    then show ?thesis using full(1) by (simp add: swap_write_def slot_def)
  qed
qed

lemma swap_read_ok:
  assumes ok: "swap_ok t" and "slot t k = Some page"
  shows "\<exists>t'. swap_read t k = Inr (page, t') \<and> swap_ok t' \<and> slot t' = slot t"
proof -
  have u: "unat k \<in> used_of (used_slots t)" "page = slot_bytes (swap_blk t) (unat k)"
    using assms(2) by (auto simp: slot_def split: if_splits)
  note sec = slot_sectors[OF ok used_bound[OF u(1)]]
  have k: "k * 8 = of_nat (8 * unat k)" using sec(2) by simp
  from swap_read_loop_ok[OF sec(1)] obtain blk' where
    "swap_read_loop 8 (swap_blk t) (of_nat (8 * unat k)) = Inr (page, blk')" "blk_size blk' = blk_size (swap_blk t)"
    "blk_type blk' = blk_type (swap_blk t)" "blk_medium blk' = blk_medium (swap_blk t)"
    by (auto simp: u(2) slot_bytes_def)
  then show ?thesis using ok by (auto simp: swap_read_def k swap_ok_def slot_def fun_eq_iff slot_bytes_def)
qed

lemma swap_free_ok:
  assumes ok: "swap_ok t" and "slot t k = Some page"
  shows "\<exists>t'. swap_free t k = Inr t' \<and> swap_ok t' \<and> slot t' = (slot t)(k := None)"
proof -
  have u: "unat k \<in> used_of (used_slots t)" using assms(2) by (auto simp: slot_def split: if_splits)
  then have "k < bit_cnt (used_slots t)" by (simp add: used_of_def word_less_nat_alt)
  moreover have "wf_bitmap (used_slots t)" using ok by (simp add: swap_ok_def)
  ultimately obtain b' where b: "bitmap_reset (used_slots t) k = Inr b'" "wf_bitmap b'" "bit_cnt b' = bit_cnt (used_slots t)"
    "bits_of b' = (bits_of (used_slots t))[unat k := False]" using bitmap_single(2) by blast
  have "used_of b' = used_of (used_slots t) - {unat k}"
    using b(3) used_bound[OF u] by (auto simp: used_of_def b(4) nth_list_update simp del: nth_bits_of split: if_splits)
  then have "slot (t\<lparr>used_slots := b'\<rparr>) x = ((slot t)(k := None)) x" for x
    using word_unat_eq_iff[of x k] by (cases "x = k") (simp_all add: slot_def)
  then have "slot (t\<lparr>used_slots := b'\<rparr>) = (slot t)(k := None)" by (rule ext)
  then show ?thesis using b ok by (auto simp: swap_free_def swap_ok_def)
qed

section \<open>The contract of the swap space\<close>

locale swap_space =
  fixes inv :: "'s \<Rightarrow> bool" and content :: "'s \<Rightarrow> u32 \<Rightarrow> u8 list option"
    and page_out :: "'s \<Rightarrow> u8 list \<Rightarrow> (u32 \<times> 's) res" and page_in :: "'s \<Rightarrow> u32 \<Rightarrow> (u8 list \<times> 's) res"
    and release :: "'s \<Rightarrow> u32 \<Rightarrow> 's res"
  assumes write_law: "inv t \<Longrightarrow> length page = 4096 \<Longrightarrow> page_out t page = Inr (k, t') \<Longrightarrow>
      inv t' \<and> content t k = None \<and> content t' = (content t)(k \<mapsto> page)"
    and write_total: "inv t \<Longrightarrow> length page = 4096 \<Longrightarrow> is_ok (page_out t page) \<or> page_out t page = Inl (Panic ''Swap block full'')"
    and read_law: "inv t \<Longrightarrow> content t k = Some page \<Longrightarrow> \<exists>t'. page_in t k = Inr (page, t') \<and> inv t' \<and> content t' = content t"
    and free_law: "inv t \<Longrightarrow> content t k = Some page \<Longrightarrow> \<exists>t'. release t k = Inr t' \<and> inv t' \<and> content t' = (content t)(k := None)"
begin

text \<open>A page that is written out comes back unchanged, after any other traffic that keeps its slot.\<close>

lemma out_and_in:
  assumes "inv t" and "length page = 4096" and "page_out t page = Inr (k, t1)" and "inv t2" and "content t2 k = content t1 k"
  shows "\<exists>t3 t4. page_in t2 k = Inr (page, t3) \<and> release t3 k = Inr t4 \<and> inv t4 \<and> content t4 = (content t2)(k := None)"
proof -
  have "content t2 k = Some page" using write_law[OF assms(1-3)] assms(5) by simp
  from read_law[OF assms(4) this] obtain t3 where t3: "page_in t2 k = Inr (page, t3)" "inv t3" "content t3 = content t2" by blast
  then have "content t3 k = Some page" using \<open>content t2 k = Some page\<close> by simp
  from free_law[OF t3(2) this] t3 show ?thesis by auto
qed

end

interpretation swap: swap_space swap_ok slot swap_write swap_read swap_free
proof
  fix t t' page k
  assume "swap_ok t" "length page = 4096" "swap_write t page = Inr (k, t')"
  then show "swap_ok t' \<and> slot t k = None \<and> slot t' = (slot t)(k \<mapsto> page)" using swap_write_ok[of t page] by auto
next
  fix t and page :: "u8 list"
  assume "swap_ok t" "length page = 4096"
  then show "is_ok (swap_write t page) \<or> swap_write t page = Inl (Panic ''Swap block full'')" using swap_write_ok[of t page] by auto
qed (use swap_read_ok swap_free_ok in blast)+

text \<open>
  (C29) The swap space keeps pages: writing a page out either panics because every slot is taken,
  or stores it in a slot that was free and leaves all other slots alone; reading the slot later, whatever was done
  to other slots in between, gives back the same 4096 bytes, and freeing it gives up exactly this slot.
\<close>

theorem swap_roundtrip:
  assumes "swap_ok t" and "length page = 4096"
  shows "swap_write t page = Inl (Panic ''Swap block full'') \<and> (\<forall>k < bit_cnt (used_slots t). slot t k \<noteq> None) \<or>
    (\<exists>k t1. swap_write t page = Inr (k, t1) \<and> swap_ok t1 \<and> slot t k = None \<and> slot t1 = (slot t)(k \<mapsto> page) \<and>
      (\<forall>t2. swap_ok t2 \<longrightarrow> slot t2 k = slot t1 k \<longrightarrow>
        (\<exists>t3 t4. swap_read t2 k = Inr (page, t3) \<and> swap_free t3 k = Inr t4 \<and> swap_ok t4 \<and> slot t4 = (slot t2)(k := None))))"
  using swap_write_ok[OF assms] swap.out_and_in[OF assms] by blast

definition demo_swap :: swap_table where
  "demo_swap = \<lparr>swap_blk = \<lparr>blk_name = ''hdb'', blk_type = BLOCK_SWAP, blk_size = 16, blk_medium = (\<lambda>_. []),
     read_cnt = 0, write_cnt = 0\<rparr>, used_slots = \<lparr>bit_cnt = 2, bits = [1]\<rparr>\<rparr>"

theorem swap_roundtrip_witness:
  "\<exists>k t1 t3. swap_write demo_swap (replicate 4096 7) = Inr (k, t1) \<and> swap_read t1 k = Inr (replicate 4096 7, t3)"
proof -
  have ok: "swap_ok demo_swap" by (simp add: swap_ok_def demo_swap_def wf_bitmap_def)
  have free: "slot demo_swap 1 = None" by (simp add: slot_def used_of_def demo_swap_def bget_def bit_1_iff)
  moreover have "1 < bit_cnt (used_slots demo_swap)" by (simp add: demo_swap_def)
  ultimately show ?thesis using swap_roundtrip[OF ok, of "replicate 4096 7"] by fastforce
qed

end
