(* ===== verification/Spec2Isabelle.thy ===== *)
theory Spec2Isabelle
  imports Kernel_Prelude Klist Klist_Order Kbitmap Khash Block_Dev Buffer_Cache Fixed_Point Scheduler Synch Inode Volume Volume_Ops Inode_Props Directory Directory_Props File Bitmap_File Filesys Filesys_Props Filesys_Create Syscall_Props Process Loader Kdivide Kstring Kstdlib Intq Pagedir Swap
begin

text \<open>
  A verification development of the kernel in this repository, an extended Pintos: threads with strict and
  multi-level feedback scheduling and priority donation, user processes, a cached file system with multi-level
  index files and subdirectories, page tables, swap space and the kernel's library. File names below are relative to
  \<open>src/src\<close>.

  \<^bold>\<open>How the program is put together.\<close> Interrupts and system calls enter the kernel. The scheduler (\<open>threads/thread.c\<close>) keeps the
  threads; semaphores, locks and condition variables (\<open>threads/synch.c\<close>) block and wake them and lend priorities;
  drivers and threads exchange bytes through interrupt queues (\<open>devices/intq.c\<close>). System calls (\<open>userprog/syscall.c\<close>) check the
  pointers of the process, look up its descriptors and call the file system (\<open>filesys/filesys.c\<close>), which walks directories
  (\<open>filesys/directory.c\<close>) whose entries lie in inodes (\<open>filesys/inode.c\<close>); inodes get sectors from the free map
  (\<open>filesys/free-map.c\<close>, a bitmap) and reach the disk through the buffer cache (\<open>filesys/cache.c\<close>) and the block layer
  (\<open>devices/block.c\<close>). Processes are started, loaded and waited for in \<open>userprog/process.c\<close>; their memory is described by
  \<open>userprog/pagedir.c\<close>.

  \<^bold>\<open>Conventions.\<close> A call returns \<open>'a res\<close>: \<open>Inr\<close> a value or \<open>Inl\<close> the way in which the code stops: \<open>Panic\<close> for an assertion or \<open>PANIC\<close>,
  \<open>Fault\<close> for an access outside an object, to freed memory or through a null pointer, \<open>Trap\<close> for a processor exception, \<open>Blocked\<close> where the
  model does not follow a thread that goes to sleep, \<open>OutOfFuel\<close> where a loop was cut off. State is passed explicitly. Integers have
  the width of the target where it matters (\<open>32 word\<close>, or \<open>wrap32\<close> on \<open>int\<close>). Results of memory allocation are arguments.

  \<^bold>\<open>Theories.\<close>
  \<^item> \<open>Kernel_Prelude\<close>: results and their sequencing, machine integers, bytes and words, and two interfaces: \<open>fifo_queue\<close> (a queue that can
    refuse elements) and \<open>machine\<close> (initial states, steps and an invariant, with reachability).
  \<^item> \<open>Klist\<close>, \<open>Klist_Order\<close> (\<open>lib/kernel/list.c\<close>): lists as cells in a pointer store; every operation is shown to act on the sequence
    of elements and to leave other cells alone. \<open>list_sort\<close> ends after a logarithmic number of passes and sorts stably; \<open>less_func\<close> is the contract
    of a comparison.
  \<^item> \<open>Kbitmap\<close>, \<open>Bitmap_File\<close> (\<open>lib/kernel/bitmap.c\<close>): bit arrays in words, scanning and flipping, the allocator interface \<open>slot_allocator\<close>, and
    bitmaps in files.
  \<^item> \<open>Khash\<close> (\<open>lib/kernel/hash.c\<close>): tables with rehashing against the contract \<open>hash_contract\<close>; \<open>page_hash\<close> and \<open>page_less\<close> of \<open>vm/page.c\<close> meet it.
  \<^item> \<open>Kstring\<close>, \<open>Kstdlib\<close>, \<open>Kdivide\<close> (\<open>lib/string.c\<close>, \<open>lib/stdlib.c\<close>, \<open>lib/arithmetic.c\<close>): byte loops, heap sort and binary search with the wrap-around
    of \<open>size_t\<close>, and the 64-bit division routines.
  \<^item> \<open>Block_Dev\<close>, \<open>Buffer_Cache\<close> (\<open>devices/block.c\<close>, \<open>filesys/cache.c\<close>): the 64 cached blocks with their states and the clock; a sequence of reads and
    writes behaves as on an array of sectors (\<open>sector_store\<close>) while no block is marked deleted.
  \<^item> \<open>Inode\<close>, \<open>Volume\<close>, \<open>Volume_Ops\<close>, \<open>Inode_Props\<close> (\<open>filesys/inode.c\<close>, \<open>filesys/free-map.c\<close>): open inodes, index trees, growth, deletion with the marks it
    leaves in the cache. \<open>vol_ok\<close> is the invariant of a volume; \<open>byte_store\<close> is the interface of files as byte sequences.
  \<^item> \<open>File\<close> (\<open>filesys/file.c\<close>): cursors and the denial of writes.
  \<^item> \<open>Directory\<close>, \<open>Directory_Props\<close> (\<open>filesys/directory.c\<close>): 20-byte entries in files; \<open>name_table\<close> is the interface of a table of names.
  \<^item> \<open>Filesys\<close>, \<open>Filesys_Props\<close>, \<open>Filesys_Create\<close> (\<open>filesys/filesys.c\<close>): paths, opening, changing directory, creation, with exact counts of opens.
  \<^item> \<open>Fixed_Point\<close>, \<open>Scheduler\<close> (\<open>threads/fixed-point.h\<close>, \<open>threads/thread.c\<close>, the interrupt entry of \<open>threads/interrupt.c\<close>): run queues, blocking, creation, exit,
    ticks and recalculation of priorities. \<open>sched_step\<close> has every operation but donation, which does not keep the run queues in order;
    \<open>sched_inv\<close> holds in all states reached by it.
  \<^item> \<open>Synch\<close> (\<open>threads/synch.c\<close> and the donation functions of \<open>threads/thread.c\<close>): operations are cut where a thread gives up the
    processor; \<open>lock_step\<close> interleaves the pieces of all threads.
  \<^item> \<open>Process\<close>, \<open>Loader\<close> (\<open>userprog/process.c\<close> and the end of \<open>syscall_exit\<close>): exec, wait and exit over the scheduler; the ELF loader over files and memory.
  \<^item> \<open>Syscall\<close>, \<open>Syscall_Props\<close> (\<open>userprog/syscall.c\<close>, \<open>page_fault\<close> of \<open>userprog/exception.c\<close>): user memory, descriptors, all calls and their dispatcher.
  \<^item> \<open>Intq\<close> (\<open>devices/intq.c\<close>): the ring buffer, the waiting protocol over locks and the scheduler.
  \<^item> \<open>Pagedir\<close>, \<open>Swap\<close> (\<open>userprog/pagedir.c\<close>, \<open>threads/pte.h\<close>, \<open>threads/vaddr.h\<close>, \<open>vm/swap.c\<close>): page tables in physical memory; slots of eight sectors.

  \<^bold>\<open>What is shown.\<close> For the scheduler: the invariant, that no assertion fails, and strict priority; for synchronisation: mutual exclusion
  in every interleaving, the effect of semaphores, and donation to the holder of a lock; for processes: a parent gets the status of its
  child. For storage, layer by layer, a refinement: sectors under the cache, byte sequences under index trees, cursors under files, tables
  of names under directories, a tree of names under paths, descriptors under system calls. For the library: functional correctness with
  termination. Theorems about faults state the conditions under which the code goes wrong: a directory removed while closed, a child
  reaped at exit, unchecked arguments of system calls.

  \<^bold>\<open>Bounds and fuel.\<close> A file has at most \<open>MAX_BLOCKS = 16635\<close> blocks, what the three levels of the index can address. Loops whose end depends on data that
  may be corrupt have fuel: the pointer loops of lists (the number of cells is enough), \<open>strlen\<close> on user memory (the size of the address space), the search
  along a chain of donations (it ends unless threads wait for each other in a circle), \<open>heapify\<close> (the number of elements, when the
  indices do not wrap). Theorems about these loops say that enough fuel gives the result.

  \<^bold>\<open>What is not modelled.\<close> Device drivers, consoles, the timer and its calibration, booting and descriptor tables: port and memory mapped I/O
  without state that the modelled parts read. The page and block allocators: their results are arguments. Formatting and
  mounting (\<open>do_format\<close>, \<open>free_map_init\<close> and its companions): the free map's file is kept as its contents. \<open>vm/frame.c\<close> and most of \<open>vm/page.c\<close>:
  not part of the configured build. Formatted output, debugging aids, user programs and tests. Inside the file system
  operations are sequential; concurrency is modelled for threads, synchronisation, processes and interrupt queues.
\<close>

end
